(* ===== verification/Prelude.thy ===== *)
theory Prelude
  imports Main "HOL-Library.Word" "HOL-Library.Monad_Syntax"
begin

text \<open>
  Shared vocabulary of the development: the fixed-width integer types of
  \<^verbatim>\<open>include/os/types.h\<close>, the error numbers the kernel returns, the alignment macros of
  \<^verbatim>\<open>include/os/bound.h\<close>, and the generic lemmas on words, options and lists which the
  component theories use.

  Conventions.  \<^verbatim>\<open>u32\<close> and \<^verbatim>\<open>unsigned long\<close> are 32-bit words; a C \<open>int\<close> is an
  \<^typ>\<open>int\<close> (operations whose value can leave the signed range say how the value is reduced).
  A pointer is a \<open>u32\<close> whose value 0 is \<^verbatim>\<open>NULL\<close>.  An operation whose C
  code can read or write outside the objects of the model, or can loop forever, has an
  \<open>option\<close> result: \<^const>\<open>None\<close> means that the C code has no defined result there.
\<close>

unbundle bit_operations_syntax

type_synonym u8 = "8 word"
type_synonym u16 = "16 word"
type_synonym u32 = "32 word"

section \<open>Proof collections\<close>

named_theorems kinv_defs \<open>the parts of the invariant of the scheduler\<close>
named_theorems page_ops \<open>the abstract effects of the page allocator\<close>

section \<open>Constants of errno.h, mm.h, bound.h and mirros.h\<close>

definition ENOENT :: int where "ENOENT = 2"
definition EIO :: int where "EIO = 5"
definition ENOMEM :: int where "ENOMEM = 12"
definition EFAULT :: int where "EFAULT = 14"
definition EINVAL :: int where "EINVAL = 22"

lemmas errno_defs = ENOENT_def EIO_def ENOMEM_def EFAULT_def EINVAL_def

abbreviation (input) NULL :: u32 where "NULL \<equiv> 0"

abbreviation (input) PAGE_SIZE :: u32 where "PAGE_SIZE \<equiv> 4096"
abbreviation (input) PAGE_SHIFT :: nat where "PAGE_SHIFT \<equiv> 12"
abbreviation (input) SIZE_1K :: u32 where "SIZE_1K \<equiv> 1024"
abbreviation (input) SIZE_1M :: u32 where "SIZE_1M \<equiv> 0x100000"
abbreviation (input) SIZE_1G :: u32 where "SIZE_1G \<equiv> 0x40000000"

section \<open>Alignment macros of bound.h\<close>

definition baligin :: "u32 \<Rightarrow> u32 \<Rightarrow> u32" where
  "baligin num sz = (num + sz - 1) AND NOT (sz - 1)"

definition daligin :: "u32 \<Rightarrow> u32 \<Rightarrow> u32" where
  "daligin num sz = ((num + sz - 1) div sz) * sz"

definition min_aligin :: "u32 \<Rightarrow> u32 \<Rightarrow> u32" where
  "min_aligin num sz = num AND NOT (sz - 1)"

definition is_aligin :: "u32 \<Rightarrow> u32 \<Rightarrow> bool" where
  "is_aligin base bound = (base AND (bound - 1) = 0)"

definition page_nr :: "u32 \<Rightarrow> u32" where
  "page_nr sz = drop_bit PAGE_SHIFT (baligin sz PAGE_SIZE)"

text \<open>The macro \<^verbatim>\<open>bit(nr)\<close> of types.h, \<^verbatim>\<open>(1 << nr)\<close>.\<close>

definition bitm :: "nat \<Rightarrow> u32" where
  "bitm nr = push_bit nr 1"

section \<open>Words\<close>

lemma bit_bitm [simp]: "bit (bitm y) k \<longleftrightarrow> k = y \<and> y < 32"
  by (auto simp: bitm_def bit_simps)

lemma bit_or_bitm: "bit (w OR bitm y) k \<longleftrightarrow> bit w k \<or> k = y \<and> y < 32"
  by (simp add: bit_or_iff)

lemma bit_and_not_bitm: "bit (w AND NOT (bitm y)) k \<longleftrightarrow> bit w k \<and> k \<noteq> y"
  by (auto simp: bit_and_iff bit_not_iff dest: bit_imp_le_length)

lemma drop_and_bitm: "drop_bit y (w AND bitm y) = of_bool (bit w y)"
  by (rule bit_eqI) (auto simp: bit_simps dest: bit_imp_le_length)

lemma mask_eq_power_minus_1: "(2 ^ k - 1 :: 'a::len word) = mask k"
  by (simp add: mask_eq_decr_exp)

lemma unat_mask_and: "unat (w AND mask k :: 'a::len word) = unat w mod 2 ^ k"
  by (simp add: take_bit_eq_mask [symmetric] unsigned_take_bit_eq) (simp add: take_bit_eq_mod)

lemma push_drop_bit: "push_bit k (drop_bit k w) = (w AND NOT (mask k) :: 'a::len word)"
  by (rule bit_eqI) (auto simp: bit_simps)

lemma and_not_mask_eq_minus: "w AND NOT (mask k) = (w - take_bit k w :: 'a::len word)"
  using bits_ident [of k w] by (simp add: push_drop_bit algebra_simps)

lemma unat_and_not_mask: "unat (w AND NOT (mask k) :: 'a::len word) = unat w div 2 ^ k * 2 ^ k"
proof -
  have le: "take_bit k w \<le> w"
    by (simp add: take_bit_eq_mask word_and_le2)
  have "unat (w AND NOT (mask k)) = unat w - unat w mod 2 ^ k"
    by (simp add: and_not_mask_eq_minus unat_sub [OF le] unsigned_take_bit_eq)
      (simp add: take_bit_eq_mod)
  then show ?thesis
    by (simp add: minus_mod_eq_div_mult)
qed

lemma unat_drop_bit: "unat (drop_bit k w :: 'a::len word) = unat w div 2 ^ k"
  by (simp only: unat_drop_bit_eq) (simp add: drop_bit_eq_div)

lemma min_aligin_unat: "unat (min_aligin n (2 ^ k)) = unat n div 2 ^ k * 2 ^ k"
  by (simp add: min_aligin_def mask_eq_power_minus_1 unat_and_not_mask)

lemma is_aligin_unat: "is_aligin n (2 ^ k) \<longleftrightarrow> 2 ^ k dvd unat n"
proof -
  have "is_aligin n (2 ^ k) \<longleftrightarrow> unat (n AND mask k) = 0"
    by (simp add: is_aligin_def mask_eq_power_minus_1 unat_eq_0)
  then show ?thesis
    by (simp add: unat_mask_and dvd_eq_mod_eq_0)
qed

lemma unat_of_nat_u32: "unat (of_nat n :: u32) = n mod 2 ^ 32"
  by (simp add: unsigned_of_nat take_bit_eq_mod)

lemma unat_power_u32: "k < 32 \<Longrightarrow> unat (2 ^ k :: u32) = 2 ^ k"
proof -
  assume "k < 32"
  then have "(2::nat) ^ k < 2 ^ 32" by (intro power_strict_increasing) auto
  with unat_of_nat_u32 [of "2 ^ k"] show ?thesis by simp
qed

lemma baligin_unat:
  assumes "k < 32" and "unat n + 2 ^ k \<le> 2 ^ 32"
  shows "unat (baligin n (2 ^ k)) = (unat n + 2 ^ k - 1) div 2 ^ k * 2 ^ k"
proof -
  have pow: "unat (2 ^ k - 1 :: u32) = 2 ^ k - 1"
    using assms(1) by (simp add: unat_sub_if' unat_power_u32)
  have pos: "(1::nat) \<le> 2 ^ k" by simp
  have "unat (n + (2 ^ k - 1)) = unat n + (2 ^ k - 1)"
    using assms(2) pos by (subst unat_add_lem [THEN iffD1]) (simp_all add: pow)
  then have "unat (n + 2 ^ k - 1) = unat n + 2 ^ k - 1"
    using pos by (simp add: add_diff_eq)
  then show ?thesis
    by (simp add: baligin_def mask_eq_power_minus_1 unat_and_not_mask)
qed

text \<open>
  Rounding up is least: the result is the smallest multiple of the bound which is not below
  the argument, as long as that multiple fits in 32 bits.
\<close>

lemma baligin_least:
  assumes "k < 32" and "unat n + 2 ^ k \<le> 2 ^ 32"
  shows "is_aligin (baligin n (2 ^ k)) (2 ^ k)"
    and "unat n \<le> unat (baligin n (2 ^ k))"
    and "unat (baligin n (2 ^ k)) < unat n + 2 ^ k"
proof -
  let ?b = "(2::nat) ^ k"
  have pos: "0 < ?b" by simp
  show "is_aligin (baligin n (2 ^ k)) (2 ^ k)"
    by (simp add: is_aligin_unat baligin_unat [OF assms])
  have eq: "unat (baligin n (2 ^ k)) = (unat n + ?b - 1) - (unat n + ?b - 1) mod ?b"
    by (simp add: baligin_unat [OF assms] minus_mod_eq_div_mult)
  have "(unat n + ?b - 1) mod ?b < ?b" by simp
  then show "unat n \<le> unat (baligin n (2 ^ k))" and "unat (baligin n (2 ^ k)) < unat n + ?b"
    using eq pos by linarith+
qed

section \<open>Options\<close>

lemma bind_eq_Some: "(m \<bind> f = Some y) \<longleftrightarrow> (\<exists>x. m = Some x \<and> f x = Some y)"
  by (cases m) auto

lemma bind_eq_None: "(m \<bind> f = None) \<longleftrightarrow> (m = None \<or> (\<exists>x. m = Some x \<and> f x = None))"
  by (cases m) auto

section \<open>Lists\<close>

lemma map_remove1_inj: "inj f \<Longrightarrow> map f (remove1 x xs) = remove1 (f x) (map f xs)"
  by (induction xs) (auto simp: inj_eq)

lemma remove1_split: "x \<notin> set xs \<Longrightarrow> remove1 x (xs @ x # ys) = xs @ ys"
  by (induction xs) auto

section \<open>Arrays\<close>

text \<open>Reading and writing an array element: no value outside the array.\<close>

definition lget :: "'a list \<Rightarrow> int \<Rightarrow> 'a option" where
  "lget xs i = (if 0 \<le> i \<and> nat i < length xs then Some (xs ! nat i) else None)"

definition lput :: "'a list \<Rightarrow> int \<Rightarrow> 'a \<Rightarrow> 'a list option" where
  "lput xs i x = (if 0 \<le> i \<and> nat i < length xs then Some (xs[nat i := x]) else None)"

lemma lget_Some: "lget xs i = Some x \<longleftrightarrow> 0 \<le> i \<and> nat i < length xs \<and> xs ! nat i = x"
  by (auto simp: lget_def)

lemma lput_Some: "lput xs i x = Some ys \<longleftrightarrow> 0 \<le> i \<and> nat i < length xs \<and> ys = xs[nat i := x]"
  by (auto simp: lput_def)

lemma lget_in [simp]: "0 \<le> i \<Longrightarrow> nat i < length xs \<Longrightarrow> lget xs i = Some (xs ! nat i)"
  by (simp add: lget_def)

lemma lput_in [simp]: "0 \<le> i \<Longrightarrow> nat i < length xs \<Longrightarrow> lput xs i x = Some (xs[nat i := x])"
  by (simp add: lput_def)

lemma lput_length: "lput xs i x = Some ys \<Longrightarrow> length ys = length xs"
  by (auto simp: lput_Some)

lemma lget_lput: "lput xs i x = Some ys \<Longrightarrow> lget ys j = (if j = i then Some x else lget xs j)"
  by (auto simp: lput_Some lget_def nth_list_update)

section \<open>Words and numbers\<close>

lemma of_nat_unat_u32: "of_nat (unat w) = w" for w :: u32
  by simp

lemma sint_of_nat_u32: "n < 2 ^ 31 \<Longrightarrow> sint (of_nat n :: u32) = int n"
  by (simp add: signed_of_nat signed_take_bit_int_eq_self)

lemma sint_uint_u32: "uint w < 2 ^ 31 \<Longrightarrow> sint w = uint w" for w :: u32
proof -
  assume "uint w < 2 ^ 31"
  then have "unat w < 2 ^ 31" by (metis nat_uint_eq nat_less_iff uint_ge_0 of_nat_numeral of_nat_power)
  then show ?thesis using sint_of_nat_u32 [of "unat w"] by simp
qed

lemma sint_pred_u32: "uint w < 2 ^ 31 \<Longrightarrow> sint (w - 1) + 1 = uint w" for w :: u32
proof (cases "w = 0")
  case False
  assume w: "uint w < 2 ^ 31"
  have "0 < uint w" using False by (simp add: uint_0_iff order.strict_iff_order)
  then have "1 \<le> w" by (simp add: word_le_def)
  then have "uint (w - 1) = uint w - 1" by (simp add: uint_minus_simple_alt)
  with w show ?thesis using sint_uint_u32 [of "w - 1"] by simp
qed simp

lemma unat_add_u32: "unat a + unat b < 2 ^ 32 \<Longrightarrow> unat (a + b) = unat a + unat b" for a b :: u32
  by (subst unat_add_lem [THEN iffD1]) simp_all

lemma unat_mult_u32: "unat a * unat b < 2 ^ 32 \<Longrightarrow> unat (a * b) = unat a * unat b" for a b :: u32
  by (subst unat_mult_lem [THEN iffD1]) simp_all

lemma is_aligin_add:
  assumes "is_aligin a (2 ^ k)" and "is_aligin b (2 ^ k)" and "k \<le> 32"
  shows "is_aligin (a + b) (2 ^ k)"
proof -
  have "2 ^ k dvd (unat a + unat b) mod 2 ^ 32"
    using assms by (intro dvd_mod dvd_add le_imp_power_dvd) (simp_all only: is_aligin_unat)
  then show ?thesis by (simp add: is_aligin_unat unat_word_ariths)
qed

lemma is_aligin_mult:
  assumes "k < 32"
  shows "is_aligin (a * 2 ^ k) (2 ^ k)"
proof -
  have "2 ^ k dvd (unat a * unat (2 ^ k :: u32)) mod 2 ^ 32"
    unfolding unat_power_u32 [OF assms] using assms by (intro dvd_mod dvd_triv_right le_imp_power_dvd) simp
  then show ?thesis by (simp add: is_aligin_unat unat_word_ariths(2))
qed

section \<open>Counting loops\<close>

text \<open>
  \<^verbatim>\<open>for (i = lo; i < hi; i++) body\<close> with a body that may have no defined result.
\<close>

function for_loop :: "int \<Rightarrow> int \<Rightarrow> (int \<Rightarrow> 's \<Rightarrow> 's option) \<Rightarrow> 's \<Rightarrow> 's option" where
  "for_loop i n f s = (if i < n then do { s' \<leftarrow> f i s; for_loop (i + 1) n f s' } else Some s)"
  by pat_completeness auto
termination
  by (relation "measure (\<lambda>(i, n, f, s). nat (n - i))") auto

declare for_loop.simps [simp del]

lemma for_loop_done [simp]: "n \<le> i \<Longrightarrow> for_loop i n f s = Some s"
  by (subst for_loop.simps) simp

lemma for_loop_step:
  "i < n \<Longrightarrow> for_loop i n f s = do { s' \<leftarrow> f i s; for_loop (i + 1) n f s' }"
  by (subst for_loop.simps) simp

lemma for_loop_inv:
  assumes "P i s" and "i \<le> n"
    and step: "\<And>k t. i \<le> k \<Longrightarrow> k < n \<Longrightarrow> P k t \<Longrightarrow> \<exists>t'. f k t = Some t' \<and> P (k + 1) t'"
  shows "\<exists>s'. for_loop i n f s = Some s' \<and> P n s'"
  using assms
proof (induction i n f s rule: for_loop.induct)
  case (1 i n f s)
  show ?case
  proof (cases "i < n")
    case True
    with "1.prems" obtain t where t: "f i s = Some t" "P (i + 1) t" by blast
    with True "1.prems" have "\<exists>s'. for_loop (i + 1) n f t = Some s' \<and> P n s'"
      by (intro "1.IH") auto
    with True t show ?thesis by (simp add: for_loop_step)
  next
    case False
    with "1.prems" show ?thesis by simp
  qed
qed

text \<open>What every iteration keeps, the loop keeps.\<close>

lemma for_loop_preserves:
  assumes "for_loop i n f s = Some s'" and "P s"
    and step: "\<And>k t t'. i \<le> k \<Longrightarrow> k < n \<Longrightarrow> P t \<Longrightarrow> f k t = Some t' \<Longrightarrow> P t'"
  shows "P s'"
  using assms
proof (induction i n f s rule: for_loop.induct)
  case (1 i n f s)
  show ?case
  proof (cases "i < n")
    case True
    with "1.prems" obtain t where t: "f i s = Some t" "for_loop (i + 1) n f t = Some s'"
      by (auto simp: bind_eq_Some for_loop_step)
    have "P t" using "1.prems"(2,3) True t(1) by blast
    show ?thesis
    proof (rule "1.IH" [OF True t \<open>P t\<close>])
      fix k u u'
      assume "i + 1 \<le> k" and "k < n" and "P u" and "f k u = Some u'"
      then show "P u'" using "1.prems"(3) [of k u u'] by simp
    qed
  next
    case False
    with "1.prems" show ?thesis by simp
  qed
qed

end
