(* ===== verification/ListHead.thy ===== *)
theory ListHead
  imports Prelude
begin

text \<open>
  The intrusive circular doubly linked lists of \<^verbatim>\<open>include/os/list.h\<close>.

  A heap of list nodes gives every node its \<^verbatim>\<open>next\<close> and \<^verbatim>\<open>pre\<close> field; the node type
  is a parameter, so that a client names its nodes by the object and the member they are embedded
  in (\<^verbatim>\<open>&task->sleep\<close>, \<^verbatim>\<open>&zone->wait\<close>), which makes \<^verbatim>\<open>container_of\<close> the inverse of
  a constructor.  Each operation performs the field writes of the C code in their order.

  \<open>list_rel\<close> is the abstraction: a heap represents a map from list heads to the sequences of
  nodes hooked on them, all disjoint.  The locale \<open>list_store\<close> is the contract clients rely on;
  it is interpreted on the operations of the header at the end of the theory.
\<close>

section \<open>The operations of list.h\<close>

record 'n lheap =
  lnext :: "'n \<Rightarrow> 'n"
  lpre :: "'n \<Rightarrow> 'n"

definition set_next :: "'n \<Rightarrow> 'n \<Rightarrow> 'n lheap \<Rightarrow> 'n lheap" where
  "set_next a b h = h\<lparr>lnext := (lnext h)(a := b)\<rparr>"

definition set_pre :: "'n \<Rightarrow> 'n \<Rightarrow> 'n lheap \<Rightarrow> 'n lheap" where
  "set_pre a b h = h\<lparr>lpre := (lpre h)(a := b)\<rparr>"

definition init_list :: "'n \<Rightarrow> 'n lheap \<Rightarrow> 'n lheap" where
  "init_list l h = set_pre l l (set_next l l h)"

definition list_add :: "'n \<Rightarrow> 'n \<Rightarrow> 'n lheap \<Rightarrow> 'n lheap" where
  "list_add head new h =
     (let h = set_pre (lnext h head) new h;
          h = set_next new (lnext h head) h;
          h = set_pre new head h
      in set_next head new h)"

definition list_add_tail :: "'n \<Rightarrow> 'n \<Rightarrow> 'n lheap \<Rightarrow> 'n lheap" where
  "list_add_tail head new h =
     (let h = set_next (lpre h head) new h;
          h = set_next new head h;
          h = set_pre new (lpre h head) h
      in set_pre head new h)"

definition list_del :: "'n \<Rightarrow> 'n lheap \<Rightarrow> 'n lheap" where
  "list_del l h =
     (let h = set_pre (lnext h l) (lpre h l) h
      in set_next (lpre h l) (lnext h l) h)"

definition list_del_tail :: "'n \<Rightarrow> 'n lheap \<Rightarrow> 'n lheap" where
  "list_del_tail head h =
     (let h = set_next (lpre h (lpre h head)) head h
      in set_pre head (lpre h (lpre h head)) h)"

definition is_list_empty :: "'n \<Rightarrow> 'n lheap \<Rightarrow> bool" where
  "is_list_empty head h = (lnext h head = head)"

definition is_list_last :: "'n \<Rightarrow> 'n \<Rightarrow> 'n lheap \<Rightarrow> bool" where
  "is_list_last head l h = (lnext h l = head)"

definition list_next :: "'n \<Rightarrow> 'n lheap \<Rightarrow> 'n" where
  "list_next l h = lnext h l"

definition list_prve :: "'n \<Rightarrow> 'n lheap \<Rightarrow> 'n" where
  "list_prve l h = lpre h l"

text \<open>
  The macro \<^verbatim>\<open>list_for_each\<close> with a body that leaves the lists alone: the nodes it visits, in
  order; \<^const>\<open>None\<close> when it never comes back to the head.
\<close>

partial_function (option) list_walk :: "'n \<Rightarrow> 'n \<Rightarrow> 'n lheap \<Rightarrow> 'n list option" where
  "list_walk head l h =
     (if l = head then Some []
      else do { ns \<leftarrow> list_walk head (lnext h l) h; Some (l # ns) })"

definition list_for_each :: "'n \<Rightarrow> 'n lheap \<Rightarrow> 'n list option" where
  "list_for_each head h = list_walk head (lnext h head) h"

section \<open>Segments and circular lists\<close>

primrec dseg :: "'n lheap \<Rightarrow> 'n \<Rightarrow> 'n list \<Rightarrow> 'n \<Rightarrow> bool" where
  "dseg h a [] b \<longleftrightarrow> lnext h a = b \<and> lpre h b = a"
| "dseg h a (x # xs) b \<longleftrightarrow> lnext h a = x \<and> lpre h x = a \<and> dseg h x xs b"

definition dlist :: "'n lheap \<Rightarrow> 'n \<Rightarrow> 'n list \<Rightarrow> bool" where
  "dlist h r xs \<longleftrightarrow> dseg h r xs r \<and> distinct (r # xs)"

lemma set_next_sel [simp]:
  "lnext (set_next a b h) = (lnext h)(a := b)" "lpre (set_next a b h) = lpre h"
  by (simp_all add: set_next_def)

lemma set_pre_sel [simp]:
  "lpre (set_pre a b h) = (lpre h)(a := b)" "lnext (set_pre a b h) = lnext h"
  by (simp_all add: set_pre_def)

lemmas list_ops = init_list_def list_add_def list_add_tail_def list_del_def list_del_tail_def Let_def

lemma dseg_append [simp]: "dseg h a (us @ x # vs) b \<longleftrightarrow> dseg h a us x \<and> dseg h x vs b"
  by (induction us arbitrary: a) auto

lemma dseg_cong:
  "(\<And>n. n \<in> set (a # xs) \<Longrightarrow> lnext h' n = lnext h n) \<Longrightarrow>
   (\<And>n. n \<in> set (xs @ [b]) \<Longrightarrow> lpre h' n = lpre h n) \<Longrightarrow> dseg h' a xs b \<longleftrightarrow> dseg h a xs b"
  by (induction xs arbitrary: a) auto

lemma dseg_next: "dseg h a xs b \<Longrightarrow> lnext h a = hd (xs @ [b])"
  by (cases xs) auto

lemma dseg_pre: "dseg h a xs b \<Longrightarrow> lpre h b = last (a # xs)"
  by (induction xs arbitrary: a) auto

lemma dlist_cong:
  "(\<And>n. n \<in> set (r # xs) \<Longrightarrow> lnext h' n = lnext h n \<and> lpre h' n = lpre h n) \<Longrightarrow>
   dlist h' r xs \<longleftrightarrow> dlist h r xs"
  unfolding dlist_def by (subst dseg_cong [of r xs h' h r]) auto

lemma dlist_next_in: "dlist h r xs \<Longrightarrow> x \<in> set (r # xs) \<Longrightarrow> lnext h x \<in> set (r # xs)"
proof -
  assume d: "dlist h r xs" and x: "x \<in> set (r # xs)"
  show ?thesis
  proof (cases "x = r")
    case True
    with d show ?thesis by (cases xs) (auto simp: dlist_def)
  next
    case False
    with x obtain us vs where "xs = us @ x # vs" by (auto simp: in_set_conv_decomp)
    with d show ?thesis by (cases vs) (auto simp: dlist_def)
  qed
qed

lemma dlist_pre_in: "dlist h r xs \<Longrightarrow> x \<in> set (r # xs) \<Longrightarrow> lpre h x \<in> set (r # xs)"
proof -
  assume d: "dlist h r xs" and x: "x \<in> set (r # xs)"
  show ?thesis
  proof (cases "x = r")
    case True
    with d show ?thesis using dseg_pre [of h r xs r] by (auto simp: dlist_def)
  next
    case False
    with x obtain us vs where "xs = us @ x # vs" by (auto simp: in_set_conv_decomp)
    with d show ?thesis using dseg_pre [of h r us x] by (auto simp: dlist_def)
  qed
qed

section \<open>Effect of the operations on one list\<close>

lemma dlist_init: "dlist (init_list r h) r []"
  by (simp add: dlist_def list_ops)

lemma dlist_is_empty: "dlist h r xs \<Longrightarrow> is_list_empty r h \<longleftrightarrow> xs = []"
  by (cases xs) (auto simp: dlist_def is_list_empty_def)

lemma dlist_first: "dlist h r (x # xs) \<Longrightarrow> list_next r h = x"
  by (simp add: dlist_def list_next_def)

lemma dlist_add:
  assumes "dlist h r xs" and "n \<notin> set (r # xs)"
  shows "dlist (list_add r n h) r (n # xs)"
proof (cases xs)
  case Nil
  with assms show ?thesis by (auto simp: dlist_def list_ops)
next
  case (Cons q ys)
  let ?h = "list_add r n h"
  from assms Cons have "dseg ?h q ys r \<longleftrightarrow> dseg h q ys r"
    by (intro dseg_cong) (auto simp: dlist_def list_ops)
  with assms Cons show ?thesis by (auto simp: dlist_def list_ops)
qed

lemma dlist_add_tail:
  assumes "dlist h r xs" and "n \<notin> set (r # xs)"
  shows "dlist (list_add_tail r n h) r (xs @ [n])"
proof (cases xs rule: rev_cases)
  case Nil
  with assms show ?thesis by (auto simp: dlist_def list_ops)
next
  case (snoc ys p)
  let ?h = "list_add_tail r n h"
  from assms snoc have "dseg ?h r ys p \<longleftrightarrow> dseg h r ys p"
    by (intro dseg_cong) (auto simp: dlist_def list_ops)
  with assms snoc show ?thesis by (auto simp: dlist_def list_ops)
qed

lemma dlist_del_middle:
  assumes "dlist h r (us @ x # vs)"
  shows "dlist (list_del x h) r (us @ vs)"
proof -
  let ?h = "list_del x h"
  have pre: "lpre h x = last (r # us)" and nxt: "lnext h x = hd (vs @ [r])"
    using assms dseg_pre [of h r us x] dseg_next [of h x vs r] by (auto simp: dlist_def)
  show ?thesis
  proof (cases us rule: rev_cases)
    case us: Nil
    show ?thesis
    proof (cases vs)
      case Nil
      with assms us show ?thesis by (auto simp: dlist_def list_ops)
    next
      case (Cons q ws)
      with assms us have "dseg ?h q ws r \<longleftrightarrow> dseg h q ws r"
        by (intro dseg_cong) (auto simp: dlist_def list_ops)
      with assms us Cons show ?thesis by (auto simp: dlist_def list_ops)
    qed
  next
    case us: (snoc ts p)
    show ?thesis
    proof (cases vs)
      case Nil
      with assms us have "dseg ?h r ts p \<longleftrightarrow> dseg h r ts p"
        by (intro dseg_cong) (auto simp: dlist_def list_ops)
      with assms us Nil show ?thesis by (auto simp: dlist_def list_ops)
    next
      case (Cons q ws)
      with assms us have "dseg ?h r ts p \<longleftrightarrow> dseg h r ts p" and "dseg ?h q ws r \<longleftrightarrow> dseg h q ws r"
        by (intro dseg_cong; auto simp: dlist_def list_ops)+
      with assms us Cons show ?thesis by (auto simp: dlist_def list_ops)
    qed
  qed
qed

lemma dlist_del:
  assumes "dlist h r xs" and "x \<in> set xs"
  shows "dlist (list_del x h) r (remove1 x xs)"
proof -
  from assms(2) obtain us vs where xs: "xs = us @ x # vs" by (auto simp: in_set_conv_decomp)
  with assms(1) have "x \<notin> set us" by (auto simp: dlist_def)
  with assms(1) xs show ?thesis by (simp add: dlist_del_middle remove1_split)
qed

lemma list_walk_dseg:
  "dseg h a xs r \<Longrightarrow> r \<notin> set xs \<Longrightarrow> list_walk r (lnext h a) h = Some xs"
proof (induction xs arbitrary: a)
  case Nil
  then show ?case by (simp add: list_walk.simps)
next
  case (Cons x xs)
  then have "list_walk r (lnext h x) h = Some xs" by simp
  with Cons.prems show ?case by (subst list_walk.simps) auto
qed

lemma list_for_each_dlist: "dlist h r xs \<Longrightarrow> list_for_each r h = Some xs"
  unfolding list_for_each_def by (rule list_walk_dseg) (auto simp: dlist_def)

section \<open>All lists of a heap\<close>

text \<open>
  \<open>list_rel h F\<close>: every head in the domain of \<open>F\<close> carries the circular list of the nodes
  \<open>F\<close> gives for it, and no node belongs to two lists (as a head or as a member).
  A node is \<open>fresh\<close> when it belongs to none.
\<close>

type_synonym 'n lists = "'n \<rightharpoonup> 'n list"

definition list_rel :: "'n lheap \<Rightarrow> 'n lists \<Rightarrow> bool" where
  "list_rel h F \<longleftrightarrow>
     (\<forall>r xs. F r = Some xs \<longrightarrow> dlist h r xs) \<and>
     (\<forall>r xs r' ys. F r = Some xs \<longrightarrow> F r' = Some ys \<longrightarrow> r \<noteq> r' \<longrightarrow>
        set (r # xs) \<inter> set (r' # ys) = {})"

definition fresh :: "'n lists \<Rightarrow> 'n \<Rightarrow> bool" where
  "fresh F n \<longleftrightarrow> F n = None \<and> (\<forall>r xs. F r = Some xs \<longrightarrow> n \<notin> set xs)"

lemma list_rel_dlist: "list_rel h F \<Longrightarrow> F r = Some xs \<Longrightarrow> dlist h r xs"
  by (simp add: list_rel_def)

lemma list_rel_distinct: "list_rel h F \<Longrightarrow> F r = Some xs \<Longrightarrow> distinct (r # xs)"
  using list_rel_dlist [of h F r xs] by (simp add: dlist_def)

lemma list_rel_disjoint:
  "list_rel h F \<Longrightarrow> F r = Some xs \<Longrightarrow> F r' = Some ys \<Longrightarrow> r \<noteq> r' \<Longrightarrow>
   set (r # xs) \<inter> set (r' # ys) = {}"
  by (metis (no_types, lifting) list_rel_def)

lemma list_rel_other_list:
  assumes "list_rel h F" and "F r = Some xs" and "F r' = Some ys" and "r \<noteq> r'"
    and "\<And>a. a \<notin> set (r # xs) \<Longrightarrow> a \<noteq> n \<Longrightarrow> lnext h' a = lnext h a \<and> lpre h' a = lpre h a"
    and "n \<notin> set (r' # ys)"
  shows "dlist h' r' ys"
proof -
  from list_rel_disjoint [OF assms(1-4)] assms(5,6) have "dlist h' r' ys \<longleftrightarrow> dlist h r' ys"
    by (intro dlist_cong) (metis disjoint_iff)
  with list_rel_dlist [OF assms(1,3)] show ?thesis by simp
qed

text \<open>An operation on one list, with at most one new node, keeps the relation.\<close>

lemma list_rel_upd:
  assumes rel: "list_rel h F" and r: "F r = Some xs"
    and ys: "dlist h' r ys" "set ys \<subseteq> insert n (set xs)"
    and n: "n \<in> set xs \<or> fresh F n"
    and frame: "\<And>a. a \<notin> set (r # xs) \<Longrightarrow> a \<noteq> n \<Longrightarrow> lnext h' a = lnext h a \<and> lpre h' a = lpre h a"
  shows "list_rel h' (F(r \<mapsto> ys))"
proof -
  have n_other: "n \<notin> set (q # zs)" if "F q = Some zs" and "q \<noteq> r" for q zs
    using n that list_rel_disjoint [OF rel r that(1)] by (auto simp: fresh_def)
  have disj: "set (r # ys) \<inter> set (q # zs) = {}" if "F q = Some zs" and "q \<noteq> r" for q zs
    using list_rel_disjoint [OF rel r that(1)] that(2) ys(2) n_other [OF that] by auto
  have other: "dlist h' q zs" if "F q = Some zs" and "q \<noteq> r" for q zs
    using list_rel_other_list [OF rel r that(1) _ frame n_other] that by auto
  show ?thesis
    unfolding list_rel_def
  proof (intro conjI allI impI)
    fix q zs
    assume "(F(r \<mapsto> ys)) q = Some zs"
    then show "dlist h' q zs" using other ys(1) by (cases "q = r") auto
  next
    fix p us q zs
    assume "(F(r \<mapsto> ys)) p = Some us" and "(F(r \<mapsto> ys)) q = Some zs" and "p \<noteq> q"
    then show "set (p # us) \<inter> set (q # zs) = {}"
      using disj list_rel_disjoint [OF rel] by (cases "p = r"; cases "q = r") (fastforce)+
  qed
qed

lemma list_add_frame:
  "dlist h r xs \<Longrightarrow> a \<notin> set (r # xs) \<Longrightarrow> a \<noteq> n \<Longrightarrow>
   lnext (list_add r n h) a = lnext h a \<and> lpre (list_add r n h) a = lpre h a"
  using dlist_next_in [of h r xs r] by (auto simp: list_ops)

lemma list_add_tail_frame:
  "dlist h r xs \<Longrightarrow> a \<notin> set (r # xs) \<Longrightarrow> a \<noteq> n \<Longrightarrow>
   lnext (list_add_tail r n h) a = lnext h a \<and> lpre (list_add_tail r n h) a = lpre h a"
  using dlist_pre_in [of h r xs r] by (auto simp: list_ops)

lemma list_del_frame:
  "dlist h r xs \<Longrightarrow> n \<in> set xs \<Longrightarrow> a \<notin> set (r # xs) \<Longrightarrow>
   lnext (list_del n h) a = lnext h a \<and> lpre (list_del n h) a = lpre h a"
  using dlist_next_in [of h r xs n] dlist_pre_in [of h r xs n] by (auto simp: list_ops)

lemma list_rel_add:
  "list_rel h F \<Longrightarrow> F r = Some xs \<Longrightarrow> fresh F n \<Longrightarrow>
   list_rel (list_add r n h) (F(r \<mapsto> n # xs))"
  by (rule list_rel_upd [of h F r xs _ _ n])
    (auto simp: fresh_def intro: dlist_add list_rel_dlist dest: list_add_frame [OF list_rel_dlist])

lemma list_rel_add_tail:
  "list_rel h F \<Longrightarrow> F r = Some xs \<Longrightarrow> fresh F n \<Longrightarrow>
   list_rel (list_add_tail r n h) (F(r \<mapsto> xs @ [n]))"
  by (rule list_rel_upd [of h F r xs _ _ n])
    (auto simp: fresh_def intro: dlist_add_tail list_rel_dlist
      dest: list_add_tail_frame [OF list_rel_dlist])

lemma list_rel_del:
  assumes "list_rel h F" and "F r = Some xs" and "n \<in> set xs"
  shows "list_rel (list_del n h) (F(r \<mapsto> remove1 n xs))"
proof (rule list_rel_upd [OF assms(1,2)])
  show "dlist (list_del n h) r (remove1 n xs)"
    using assms by (blast intro: dlist_del list_rel_dlist)
  show "set (remove1 n xs) \<subseteq> insert n (set xs)"
    using set_remove1_subset [of n xs] by auto
qed (use assms list_del_frame [OF list_rel_dlist [OF assms(1,2)] assms(3)] in auto)

lemma list_rel_init:
  assumes rel: "list_rel h F" and n: "fresh F n"
  shows "list_rel (init_list n h) (F(n \<mapsto> []))"
proof -
  have other: "dlist (init_list n h) q zs" if q: "F q = Some zs" for q zs
  proof -
    have "n \<notin> set (q # zs)" using n q by (auto simp: fresh_def)
    then have "dlist (init_list n h) q zs \<longleftrightarrow> dlist h q zs"
      by (intro dlist_cong) (auto simp: list_ops)
    with list_rel_dlist [OF rel q] show ?thesis by simp
  qed
  show ?thesis
    unfolding list_rel_def
  proof (intro conjI allI impI)
    fix q zs
    assume "(F(n \<mapsto> [])) q = Some zs"
    then show "dlist (init_list n h) q zs" using other dlist_init by (cases "q = n") auto
  next
    fix p us q zs
    assume "(F(n \<mapsto> [])) p = Some us" and "(F(n \<mapsto> [])) q = Some zs" and "p \<noteq> q"
    then show "set (p # us) \<inter> set (q # zs) = {}"
      using n list_rel_disjoint [OF rel] by (cases "p = n"; cases "q = n") (fastforce simp: fresh_def)+
  qed
qed

lemma list_rel_next:
  assumes "list_rel h F" and "F r = Some (us @ x # vs)"
  shows "lnext h x = hd (vs @ [r])"
  using list_rel_dlist [OF assms] dseg_next [of h x vs r] by (simp add: dlist_def)

text \<open>
  A node keeps its own \<^verbatim>\<open>next\<close> field when it is unhooked and another node of the same object
  is hooked elsewhere: a loop that stands on it can go on.
\<close>

lemma list_del_stale_next:
  assumes rel: "list_rel h F" and r: "F r = Some xs" "n \<in> set xs"
    and q: "F q = Some ys" "q \<noteq> r" and m: "fresh F m"
  shows "lnext (list_add_tail q m (list_del n h)) n = lnext h n"
proof -
  obtain us vs where xs: "xs = us @ n # vs" using r(2) by (auto simp: in_set_conv_decomp)
  have d: "dlist h r xs" using rel r(1) by (rule list_rel_dlist)
  have "lpre h n = last (r # us)" using d xs dseg_pre [of h r us n] by (simp add: dlist_def)
  moreover have "n \<notin> set (r # us)" using d xs by (auto simp: dlist_def)
  ultimately have "lpre h n \<noteq> n" by (metis last_in_set list.distinct(1))
  moreover have "n \<noteq> lnext h n"
    using d xs dseg_next [of h n vs r] by (cases vs) (auto simp: dlist_def)
  ultimately have del: "lnext (list_del n h) n = lnext h n" by (simp add: list_ops)
  have "dlist (list_del n h) q ys"
    using list_rel_dlist [OF list_rel_del [OF rel r], of q ys] q by simp
  moreover have "n \<notin> set (q # ys)" using list_rel_disjoint [OF rel r(1) q(1)] q(2) r(2) by auto
  moreover have "n \<noteq> m" using m r by (auto simp: fresh_def)
  ultimately show ?thesis using list_add_tail_frame del by metis
qed

lemma fresh_upd [simp]:
  "fresh (F(r \<mapsto> xs)) n \<longleftrightarrow> n \<noteq> r \<and> n \<notin> set xs \<and> F n = None \<and> (\<forall>q ys. q \<noteq> r \<longrightarrow> F q = Some ys \<longrightarrow> n \<notin> set ys)"
  by (auto simp: fresh_def)

lemma fresh_empty [simp]: "fresh Map.empty n"
  by (simp add: fresh_def)

section \<open>The contract of list.h\<close>

locale list_store =
  fixes rel :: "'h \<Rightarrow> 'n lists \<Rightarrow> bool"
    and linit :: "'n \<Rightarrow> 'h \<Rightarrow> 'h"
    and ladd :: "'n \<Rightarrow> 'n \<Rightarrow> 'h \<Rightarrow> 'h"
    and ladd_tail :: "'n \<Rightarrow> 'n \<Rightarrow> 'h \<Rightarrow> 'h"
    and ldel :: "'n \<Rightarrow> 'h \<Rightarrow> 'h"
    and lempty :: "'n \<Rightarrow> 'h \<Rightarrow> bool"
    and lfirst :: "'n \<Rightarrow> 'h \<Rightarrow> 'n"
    and lwalk :: "'n \<Rightarrow> 'h \<Rightarrow> 'n list option"
  assumes rel_init: "rel h F \<Longrightarrow> fresh F n \<Longrightarrow> rel (linit n h) (F(n \<mapsto> []))"
    and rel_add: "rel h F \<Longrightarrow> F r = Some xs \<Longrightarrow> fresh F n \<Longrightarrow> rel (ladd r n h) (F(r \<mapsto> n # xs))"
    and rel_add_tail: "rel h F \<Longrightarrow> F r = Some xs \<Longrightarrow> fresh F n \<Longrightarrow> rel (ladd_tail r n h) (F(r \<mapsto> xs @ [n]))"
    and rel_del: "rel h F \<Longrightarrow> F r = Some xs \<Longrightarrow> n \<in> set xs \<Longrightarrow> rel (ldel n h) (F(r \<mapsto> remove1 n xs))"
    and rel_empty: "rel h F \<Longrightarrow> F r = Some xs \<Longrightarrow> lempty r h \<longleftrightarrow> xs = []"
    and rel_first: "rel h F \<Longrightarrow> F r = Some (x # xs) \<Longrightarrow> lfirst r h = x"
    and rel_walk: "rel h F \<Longrightarrow> F r = Some xs \<Longrightarrow> lwalk r h = Some xs"
    and rel_distinct: "rel h F \<Longrightarrow> F r = Some xs \<Longrightarrow> distinct (r # xs)"
    and rel_disjoint: "rel h F \<Longrightarrow> F r = Some xs \<Longrightarrow> F q = Some ys \<Longrightarrow> r \<noteq> q \<Longrightarrow>
      set (r # xs) \<inter> set (q # ys) = {}"
begin

lemma fresh_after_del:
  assumes "rel h F" and "F r = Some xs" and "n \<in> set xs"
  shows "fresh (F(r \<mapsto> remove1 n xs)) n"
proof -
  have "distinct (r # xs)" using assms(1,2) by (rule rel_distinct)
  moreover have "F n = None"
  proof (rule ccontr)
    assume "F n \<noteq> None"
    then obtain ys where "F n = Some ys" by auto
    with rel_disjoint [OF assms(1,2) this] assms(3) \<open>distinct (r # xs)\<close> show False by auto
  qed
  moreover have "n \<notin> set ys" if "q \<noteq> r" and "F q = Some ys" for q ys
    using rel_disjoint [OF assms(1,2) that(2)] that(1) assms(3) by auto
  ultimately show ?thesis using assms(3) by auto
qed

lemma move_tail:
  assumes "rel h F" and "F r = Some xs" and "n \<in> set xs" and "F q = Some ys" and "q \<noteq> r"
  shows "rel (ladd_tail q n (ldel n h)) (F(r \<mapsto> remove1 n xs, q \<mapsto> ys @ [n]))"
  by (rule rel_add_tail [OF rel_del [OF assms(1-3)]])
    (use assms fresh_after_del [OF assms(1-3)] in simp_all)

text \<open>Tail insertion and taking the first node give first-in, first-out service.\<close>

lemma fifo:
  assumes "rel h F" and "F r = Some xs" and "fresh F n"
  shows "lfirst r (ladd_tail r n h) = (if xs = [] then n else lfirst r h)"
proof (cases xs)
  case Nil
  with rel_first [OF rel_add_tail [OF assms]] show ?thesis by simp
next
  case (Cons x ys)
  with rel_first [OF rel_add_tail [OF assms]] rel_first [OF assms(1)] assms(2) show ?thesis by simp
qed

end

interpretation os_list: list_store list_rel init_list list_add list_add_tail list_del
  is_list_empty list_next list_for_each
proof (unfold_locales, goal_cases)
  case (1 h F n) then show ?case by (rule list_rel_init)
next
  case (2 h F r xs n) then show ?case by (rule list_rel_add)
next
  case (3 h F r xs n) then show ?case by (rule list_rel_add_tail)
next
  case (4 h F r xs n) then show ?case by (rule list_rel_del)
next
  case (5 h F r xs) then show ?case by (blast dest: list_rel_dlist dlist_is_empty)
next
  case (6 h F r x xs) then show ?case by (blast dest: list_rel_dlist dlist_first)
next
  case (7 h F r xs) then show ?case by (blast dest: list_rel_dlist list_for_each_dlist)
next
  case (8 h F r xs) then show ?case by (rule list_rel_distinct)
next
  case (9 h F r xs q ys) then show ?case by (rule list_rel_disjoint)
qed

end
