(* ===== verification/Kernel.thy ===== *)
theory Kernel
  imports ListHead
begin

text \<open>
  The data shared by the scheduler, the mutexes and the task code: \<^verbatim>\<open>struct task_struct\<close> and
  \<^verbatim>\<open>struct mm_struct\<close> (\<^verbatim>\<open>include/os/task.h\<close>), \<^verbatim>\<open>struct mutex\<close>
  (\<^verbatim>\<open>include/os/mutex.h\<close>), the scheduler's globals (\<^verbatim>\<open>kernel/sched.c\<close>), and the
  critical sections of \<^verbatim>\<open>kernel/interrupt.c\<close> and \<^verbatim>\<open>arch/arm/machine/arm920t_c.c\<close>.

  Every \<^verbatim>\<open>struct list_head\<close> of the kernel is a \<open>node\<close>: the constructor says in which
  member of which object it is embedded.  Members of one C \<^verbatim>\<open>union\<close> share a constructor.
\<close>

section \<open>Nodes and objects\<close>

text \<open>The mutexes of the kernel, by the object they are embedded in.\<close>

datatype mutex_ref = PidMapMutex | SlabMutex | ZoneMutex nat | TaskMutex u32

datatype node =
    OsSched int                 \<comment> \<open>\<^verbatim>\<open>os_sched_table[i].list\<close>\<close>
  | TaskSystem | TaskIdle | TaskSleep   \<comment> \<open>\<^verbatim>\<open>task_system.list\<close>, \<^verbatim>\<open>task_idle.list\<close>, \<^verbatim>\<open>task_sleep.list\<close>\<close>
  | N_prio_running u32 | N_system u32 | N_sleep u32 | N_idle u32
  | N_wait u32 | N_mutex_get u32 | N_child u32 | N_p u32
  | M_wait mutex_ref | M_task mutex_ref
  | N_stack_list u32 | N_elf_list u32 | N_elf_stack_list u32 | N_elf_image_list u32
  | N_page u32                  \<comment> \<open>the union of list heads of a \<^verbatim>\<open>struct page\<close>\<close>
  | N_slab int                  \<comment> \<open>\<^verbatim>\<open>pslab->list[i]\<close>\<close>
  | N_table_list | N_free_header
  | N_header u32                \<comment> \<open>the union of list heads of a \<^verbatim>\<open>struct slab_header\<close>\<close>

datatype state_t =
    PROCESS_STATE_PREPARE | PROCESS_STATE_RUNNING | PROCESS_STATE_SLEEP
  | PROCESS_STATE_IDLE | PROCESS_STATE_STOP | PROCESS_STATE_UNKNOWN

text \<open>The numbers C gives the enumerators.\<close>

fun state_t_val :: "state_t \<Rightarrow> nat" where
  "state_t_val PROCESS_STATE_PREPARE = 0"
| "state_t_val PROCESS_STATE_RUNNING = 1"
| "state_t_val PROCESS_STATE_SLEEP = 2"
| "state_t_val PROCESS_STATE_IDLE = 3"
| "state_t_val PROCESS_STATE_STOP = 4"
| "state_t_val PROCESS_STATE_UNKNOWN = 5"

abbreviation (input) PROCESS_NAME_SIZE :: nat where "PROCESS_NAME_SIZE \<equiv> 16"
abbreviation (input) PROCESS_TYPE_KERNEL :: u32 where "PROCESS_TYPE_KERNEL \<equiv> 1"
abbreviation (input) PROCESS_TYPE_USER :: u32 where "PROCESS_TYPE_USER \<equiv> 2"
abbreviation (input) PROCESS_FLAG_FORK :: u32 where "PROCESS_FLAG_FORK \<equiv> 0x10"

record mm_struct =
  elf_size :: int
  stack_size :: int
  stack_curr :: "node option"
  elf_curr :: "node option"

record task_struct =
  stack_base :: u32
  stack_origin :: u32
  t_name :: "u8 list"
  t_flag :: u32
  t_pid :: int
  t_uid :: u32
  t_state :: state_t
  exit_state :: state_t
  t_signal :: u32
  exit_code :: u32
  t_mm :: mm_struct
  t_parent :: u32
  run_time :: int
  wait_time :: int
  time_out :: int
  run_count :: u32
  t_prio :: int
  pre_prio :: int
  t_message :: u32

text \<open>
  The scheduler state: the globals of \<^verbatim>\<open>sched.c\<close> with the memory of all tasks, list nodes and
  mutex counters.  \<open>pid_addr\<close> is the page \<^verbatim>\<open>pid_map.addr\<close> points to, \<^const>\<open>None\<close> for
  \<^verbatim>\<open>NULL\<close>.
\<close>

datatype sname = SN_system | SN_idle | SN_sleep

record kstate =
  lists :: "node lheap"
  os_sched_count :: "int \<Rightarrow> u32"
  sched_list_count :: "sname \<Rightarrow> u32"
  task :: "u32 \<Rightarrow> task_struct"
  current :: u32
  idle :: u32
  next_run :: u32
  schedule_running :: bool
  in_interrupt :: bool
  cpsr :: u32
  mutex_count :: "mutex_ref \<Rightarrow> int"
  pid_nr_free :: int
  pid_current :: int
  pid_nr :: int
  pid_addr :: "u32 list option"

definition upd_task :: "u32 \<Rightarrow> (task_struct \<Rightarrow> task_struct) \<Rightarrow> kstate \<Rightarrow> kstate" where
  "upd_task t f s = s\<lparr>task := (task s)(t := f (task s t))\<rparr>"

definition on_lists :: "(node lheap \<Rightarrow> node lheap) \<Rightarrow> kstate \<Rightarrow> kstate" where
  "on_lists f s = s\<lparr>lists := f (lists s)\<rparr>"

lemma upd_task_sel [simp]:
  "lists (upd_task t f s) = lists s" "os_sched_count (upd_task t f s) = os_sched_count s"
  "sched_list_count (upd_task t f s) = sched_list_count s"
  "task (upd_task t f s) = (task s)(t := f (task s t))"
  "current (upd_task t f s) = current s" "idle (upd_task t f s) = idle s"
  "next_run (upd_task t f s) = next_run s" "schedule_running (upd_task t f s) = schedule_running s"
  "in_interrupt (upd_task t f s) = in_interrupt s" "cpsr (upd_task t f s) = cpsr s"
  "mutex_count (upd_task t f s) = mutex_count s" "pid_nr_free (upd_task t f s) = pid_nr_free s"
  "pid_current (upd_task t f s) = pid_current s" "pid_nr (upd_task t f s) = pid_nr s"
  "pid_addr (upd_task t f s) = pid_addr s"
  by (simp_all add: upd_task_def)

lemma on_lists_sel [simp]:
  "lists (on_lists g s) = g (lists s)" "os_sched_count (on_lists g s) = os_sched_count s"
  "sched_list_count (on_lists g s) = sched_list_count s" "task (on_lists g s) = task s"
  "current (on_lists g s) = current s" "idle (on_lists g s) = idle s"
  "next_run (on_lists g s) = next_run s" "schedule_running (on_lists g s) = schedule_running s"
  "in_interrupt (on_lists g s) = in_interrupt s" "cpsr (on_lists g s) = cpsr s"
  "mutex_count (on_lists g s) = mutex_count s" "pid_nr_free (on_lists g s) = pid_nr_free s"
  "pid_current (on_lists g s) = pid_current s" "pid_nr (on_lists g s) = pid_nr s"
  "pid_addr (on_lists g s) = pid_addr s"
  by (simp_all add: on_lists_def)

section \<open>Critical sections\<close>

text \<open>
  \<^verbatim>\<open>msr cpsr_c, r1\<close> writes the control byte of the status register; its bits 6 and 7 mask
  the interrupts.  The field \<^const>\<open>cpsr\<close> is the status register as the running task sees it.
\<close>

definition msr_cpsr_c :: "u32 \<Rightarrow> u32 \<Rightarrow> u32" where
  "msr_cpsr_c r c = (c AND 0xffffff00) OR (r AND 0xff)"

definition arch_disable_irqs :: "kstate \<Rightarrow> kstate" where
  "arch_disable_irqs s = s\<lparr>cpsr := msr_cpsr_c (cpsr s OR 0xc0) (cpsr s)\<rparr>"

definition arch_enable_irqs :: "kstate \<Rightarrow> kstate" where
  "arch_enable_irqs s = s\<lparr>cpsr := msr_cpsr_c (cpsr s AND NOT 0xc0) (cpsr s)\<rparr>"

definition arch_enter_critical :: "kstate \<Rightarrow> u32 \<times> kstate" where
  "arch_enter_critical s = (cpsr s, s\<lparr>cpsr := msr_cpsr_c (cpsr s OR 0xc0) (cpsr s)\<rparr>)"

definition arch_exit_critical :: "u32 \<Rightarrow> kstate \<Rightarrow> kstate" where
  "arch_exit_critical val s = s\<lparr>cpsr := msr_cpsr_c val (cpsr s)\<rparr>"

definition enter_critical :: "kstate \<Rightarrow> u32 \<times> kstate" where
  "enter_critical s = arch_enter_critical s"

definition exit_critical :: "u32 \<Rightarrow> kstate \<Rightarrow> kstate" where
  "exit_critical val s = arch_exit_critical val s"

definition disable_irqs :: "kstate \<Rightarrow> kstate" where
  "disable_irqs s = arch_disable_irqs s"

definition enable_irqs :: "kstate \<Rightarrow> kstate" where
  "enable_irqs s = arch_enable_irqs s"

definition irqs_off :: "kstate \<Rightarrow> bool" where
  "irqs_off s \<longleftrightarrow> cpsr s AND 0xc0 = 0xc0"

lemmas critical_defs = enter_critical_def exit_critical_def arch_enter_critical_def
  arch_exit_critical_def

lemma enter_critical_sel [simp]:
  "lists (snd (enter_critical s)) = lists s" "os_sched_count (snd (enter_critical s)) = os_sched_count s"
  "sched_list_count (snd (enter_critical s)) = sched_list_count s" "task (snd (enter_critical s)) = task s"
  "current (snd (enter_critical s)) = current s" "idle (snd (enter_critical s)) = idle s"
  "next_run (snd (enter_critical s)) = next_run s" "schedule_running (snd (enter_critical s)) = schedule_running s"
  "in_interrupt (snd (enter_critical s)) = in_interrupt s" "mutex_count (snd (enter_critical s)) = mutex_count s"
  "pid_nr_free (snd (enter_critical s)) = pid_nr_free s" "pid_current (snd (enter_critical s)) = pid_current s"
  "pid_nr (snd (enter_critical s)) = pid_nr s" "pid_addr (snd (enter_critical s)) = pid_addr s"
  by (simp_all add: critical_defs)

lemma exit_critical_sel [simp]:
  "lists (exit_critical c s) = lists s" "os_sched_count (exit_critical c s) = os_sched_count s"
  "sched_list_count (exit_critical c s) = sched_list_count s" "task (exit_critical c s) = task s"
  "current (exit_critical c s) = current s" "idle (exit_critical c s) = idle s"
  "next_run (exit_critical c s) = next_run s" "schedule_running (exit_critical c s) = schedule_running s"
  "in_interrupt (exit_critical c s) = in_interrupt s" "mutex_count (exit_critical c s) = mutex_count s"
  "pid_nr_free (exit_critical c s) = pid_nr_free s" "pid_current (exit_critical c s) = pid_current s"
  "pid_nr (exit_critical c s) = pid_nr s" "pid_addr (exit_critical c s) = pid_addr s"
  by (simp_all add: critical_defs)

lemma msr_cpsr_c_restore: "msr_cpsr_c c (msr_cpsr_c x c) = c"
proof (rule bit_word_eqI)
  fix n
  assume "n < LENGTH(32)"
  then have "n < 32" by simp
  have hi: "bit (0xffffff00 :: u32) n \<longleftrightarrow> 8 \<le> n" and lo: "bit (0xff :: u32) n \<longleftrightarrow> n < 8"
  proof -
    have m: "(0xff :: u32) = mask 8" "(0xffffff00 :: u32) = NOT (mask 8)"
      by (simp_all add: mask_eq_exp_minus_1)
    show "bit (0xffffff00 :: u32) n \<longleftrightarrow> 8 \<le> n" and "bit (0xff :: u32) n \<longleftrightarrow> n < 8"
      unfolding m using \<open>n < 32\<close>
      by (simp_all only: bit_not_iff bit_mask_iff possible_bit_word not_less) auto
  qed
  show "bit (msr_cpsr_c c (msr_cpsr_c x c)) n \<longleftrightarrow> bit c n"
    unfolding msr_cpsr_c_def bit_and_iff bit_or_iff hi lo by auto
qed

lemma critical_cpsr:
  "fst (enter_critical s) = cpsr s"
  "cpsr (snd (enter_critical s)) = msr_cpsr_c (cpsr s OR 0xc0) (cpsr s)"
  "cpsr (exit_critical c s) = msr_cpsr_c c (cpsr s)"
  by (simp_all add: critical_defs)

lemma enter_exit_critical:
  "cpsr s' = cpsr (snd (enter_critical s)) \<Longrightarrow> cpsr (exit_critical (fst (enter_critical s)) s') = cpsr s"
  by (simp add: critical_defs msr_cpsr_c_restore)

lemma enter_critical_masks: "irqs_off (snd (enter_critical s))"
proof -
  have "msr_cpsr_c (cpsr s OR 0xc0) (cpsr s) AND 0xc0 = (0xc0 :: u32)"
    by (simp add: msr_cpsr_c_def word_bw_assocs word_ao_dist word_ao_absorbs and.assoc)
  then show ?thesis by (simp add: irqs_off_def critical_defs)
qed

end
