(* ===== verification/Sched.thy ===== *)
theory Sched
  imports Kernel
begin

text \<open>
  The scheduler, \<^verbatim>\<open>kernel/sched.c\<close>: the ready table indexed by priority, the system, sleep and
  idle lists, the state machine of a task, process identifiers, the timer tick and the choice of the
  next task.

  A call of \<^verbatim>\<open>sched()\<close> ends in the assembly routine \<^verbatim>\<open>arch_switch_task_sw\<close>, which saves
  the caller's registers, loads those of \<^verbatim>\<open>next_run\<close> and sets \<^verbatim>\<open>current = next_run\<close>
  (\<^verbatim>\<open>arm920t_s.S\<close>).  The model of \<open>sched\<close> ends with that switch; what the C caller does
  after \<^verbatim>\<open>sched()\<close> returns is a second definition, applied to the state in which the
  caller runs again.
\<close>

section \<open>Definitions\<close>

abbreviation (input) MAX_PRIO :: int where "MAX_PRIO \<equiv> 64"
abbreviation (input) PROCESS_DEFAULT_PRIO :: int where "PROCESS_DEFAULT_PRIO \<equiv> 20"
abbreviation (input) KERNEL_THREAD_PRIO :: int where "KERNEL_THREAD_PRIO \<equiv> 5"

subsection \<open>The task lists\<close>

text \<open>The macros \<^verbatim>\<open>task_##name\<close> and \<^verbatim>\<open>task->name\<close>.\<close>

fun sn_head :: "sname \<Rightarrow> node" where
  "sn_head SN_system = TaskSystem"
| "sn_head SN_idle = TaskIdle"
| "sn_head SN_sleep = TaskSleep"

fun sn_node :: "sname \<Rightarrow> u32 \<Rightarrow> node" where
  "sn_node SN_system t = N_system t"
| "sn_node SN_idle t = N_idle t"
| "sn_node SN_sleep t = N_sleep t"

definition init_sched_list :: "sname \<Rightarrow> kstate \<Rightarrow> kstate" where
  "init_sched_list name s =
     (on_lists (init_list (sn_head name)) s)\<lparr>sched_list_count := (sched_list_count s)(name := 0)\<rparr>"

definition sched_list_add_task :: "sname \<Rightarrow> u32 \<Rightarrow> kstate \<Rightarrow> kstate" where
  "sched_list_add_task name t s =
     (on_lists (list_add (sn_head name) (sn_node name t)) s)
       \<lparr>sched_list_count := (sched_list_count s)(name := sched_list_count s name + 1)\<rparr>"

definition sched_list_add_task_tail :: "sname \<Rightarrow> u32 \<Rightarrow> kstate \<Rightarrow> kstate" where
  "sched_list_add_task_tail name t s =
     (on_lists (list_add_tail (sn_head name) (sn_node name t)) s)
       \<lparr>sched_list_count := (sched_list_count s)(name := sched_list_count s name + 1)\<rparr>"

definition sched_list_del_task :: "sname \<Rightarrow> u32 \<Rightarrow> kstate \<Rightarrow> kstate" where
  "sched_list_del_task name t s =
     (on_lists (list_del (sn_node name t)) s)
       \<lparr>sched_list_count := (sched_list_count s)(name := sched_list_count s name - 1)\<rparr>"

text \<open>An index outside \<^verbatim>\<open>os_sched_table[MAX_PRIO]\<close> has no defined result.\<close>

definition prio_ok :: "int \<Rightarrow> bool" where
  "prio_ok i \<longleftrightarrow> 0 \<le> i \<and> i < MAX_PRIO"

definition prio_list_add_task :: "u32 \<Rightarrow> kstate \<Rightarrow> kstate option" where
  "prio_list_add_task t s =
     (let p = t_prio (task s t) in
      if prio_ok p then
        Some ((on_lists (list_add (OsSched p) (N_prio_running t)) s)
          \<lparr>os_sched_count := (os_sched_count s)(p := os_sched_count s p + 1)\<rparr>)
      else None)"

definition prio_list_add_task_tail :: "u32 \<Rightarrow> kstate \<Rightarrow> kstate option" where
  "prio_list_add_task_tail t s =
     (let p = t_prio (task s t) in
      if prio_ok p then
        Some ((on_lists (list_add_tail (OsSched p) (N_prio_running t)) s)
          \<lparr>os_sched_count := (os_sched_count s)(p := os_sched_count s p + 1)\<rparr>)
      else None)"

definition prio_list_del_task :: "u32 \<Rightarrow> kstate \<Rightarrow> kstate option" where
  "prio_list_del_task t s =
     (let p = t_prio (task s t) in
      if prio_ok p then
        Some ((on_lists (list_del (N_prio_running t)) s)
          \<lparr>os_sched_count := (os_sched_count s)(p := os_sched_count s p - 1)\<rparr>)
      else None)"

subsection \<open>The state machine\<close>

datatype state_change_t =
    STATE_NONE_TO_PREPARE | STATE_NONE_TO_SLEEP | STATE_PREPARE_TO_RUNNING
  | STATE_PREPARE_TO_SLEEP | STATE_PREPARE_TO_IDLE | STATE_RUNNING_TO_SLEEP
  | STATE_RUNNING_TO_PREPARE | STATE_RUNNING_TO_IDLE | STATE_SLEEP_TO_PREPARE
  | STATE_SLEEP_TO_IDLE | STATE_SLEEP_TO_RUNNING | STATE_PREPARE_TO_UNKNOWN
  | STATE_NONE_TO_NONE

definition state_change_order :: "state_change_t list" where
  "state_change_order =
     [STATE_NONE_TO_PREPARE, STATE_NONE_TO_SLEEP, STATE_PREPARE_TO_RUNNING,
      STATE_PREPARE_TO_SLEEP, STATE_PREPARE_TO_IDLE, STATE_RUNNING_TO_SLEEP,
      STATE_RUNNING_TO_PREPARE, STATE_RUNNING_TO_IDLE, STATE_SLEEP_TO_PREPARE,
      STATE_SLEEP_TO_IDLE, STATE_SLEEP_TO_RUNNING, STATE_PREPARE_TO_UNKNOWN,
      STATE_NONE_TO_NONE]"

text \<open>
  The table has room for 14 rows of three bytes and initialises 12 of them; C fills the rest
  with zeros.
\<close>

abbreviation (input) CHANGE_TABLE_SIZE :: nat where "CHANGE_TABLE_SIZE \<equiv> 14 * 3"

definition change_rows :: "(state_t \<times> state_t \<times> state_change_t) list" where
  "change_rows =
     [(PROCESS_STATE_UNKNOWN, PROCESS_STATE_PREPARE, STATE_NONE_TO_PREPARE),
      (PROCESS_STATE_UNKNOWN, PROCESS_STATE_SLEEP, STATE_NONE_TO_SLEEP),
      (PROCESS_STATE_PREPARE, PROCESS_STATE_RUNNING, STATE_PREPARE_TO_RUNNING),
      (PROCESS_STATE_PREPARE, PROCESS_STATE_SLEEP, STATE_PREPARE_TO_SLEEP),
      (PROCESS_STATE_PREPARE, PROCESS_STATE_IDLE, STATE_PREPARE_TO_IDLE),
      (PROCESS_STATE_RUNNING, PROCESS_STATE_SLEEP, STATE_RUNNING_TO_SLEEP),
      (PROCESS_STATE_RUNNING, PROCESS_STATE_PREPARE, STATE_RUNNING_TO_PREPARE),
      (PROCESS_STATE_RUNNING, PROCESS_STATE_IDLE, STATE_RUNNING_TO_IDLE),
      (PROCESS_STATE_SLEEP, PROCESS_STATE_PREPARE, STATE_SLEEP_TO_PREPARE),
      (PROCESS_STATE_SLEEP, PROCESS_STATE_IDLE, STATE_SLEEP_TO_IDLE),
      (PROCESS_STATE_SLEEP, PROCESS_STATE_RUNNING, STATE_SLEEP_TO_RUNNING),
      (PROCESS_STATE_PREPARE, PROCESS_STATE_UNKNOWN, STATE_PREPARE_TO_UNKNOWN)]"

fun state_change_t_val :: "state_change_t list \<Rightarrow> state_change_t \<Rightarrow> nat" where
  "state_change_t_val [] c = 0"
| "state_change_t_val (d # ds) c = (if c = d then 0 else Suc (state_change_t_val ds c))"

definition change_table :: "nat list" where
  "change_table =
     (let given = concat (map (\<lambda>(old, new, c).
            [state_t_val old, state_t_val new, state_change_t_val state_change_order c]) change_rows)
      in given @ replicate (CHANGE_TABLE_SIZE - length given) 0)"

fun scan_change_table :: "nat list \<Rightarrow> nat \<Rightarrow> nat \<Rightarrow> nat option" where
  "scan_change_table (a # b # c # rest) old new =
     (if old = a \<and> new = b then Some c else scan_change_table rest old new)"
| "scan_change_table _ old new = None"

definition get_state_change :: "state_t \<Rightarrow> state_t \<Rightarrow> state_change_t" where
  "get_state_change old new =
     (case scan_change_table change_table (state_t_val old) (state_t_val new) of
        Some c \<Rightarrow> state_change_order ! c
      | None \<Rightarrow> STATE_NONE_TO_NONE)"

definition get_task_state :: "u32 \<Rightarrow> kstate \<Rightarrow> state_t" where
  "get_task_state t s = t_state (task s t)"

text \<open>The \<^verbatim>\<open>switch\<close> of \<^verbatim>\<open>set_task_state\<close>.\<close>

fun apply_state_change :: "state_change_t \<Rightarrow> u32 \<Rightarrow> kstate \<Rightarrow> kstate option" where
  "apply_state_change STATE_NONE_TO_PREPARE t s =
     prio_list_add_task_tail t (sched_list_add_task_tail SN_system t s)"
| "apply_state_change STATE_NONE_TO_SLEEP t s =
     Some (sched_list_add_task SN_sleep t (sched_list_add_task_tail SN_system t s))"
| "apply_state_change STATE_PREPARE_TO_RUNNING t s = prio_list_del_task t s"
| "apply_state_change STATE_PREPARE_TO_IDLE t s =
     do { s \<leftarrow> prio_list_del_task t s; Some (sched_list_add_task_tail SN_idle t s) }"
| "apply_state_change STATE_PREPARE_TO_SLEEP t s =
     do { s \<leftarrow> prio_list_del_task t s; Some (sched_list_add_task_tail SN_sleep t s) }"
| "apply_state_change STATE_RUNNING_TO_SLEEP t s = Some (sched_list_add_task_tail SN_sleep t s)"
| "apply_state_change STATE_RUNNING_TO_PREPARE t s = prio_list_add_task_tail t s"
| "apply_state_change STATE_RUNNING_TO_IDLE t s = Some (sched_list_add_task_tail SN_idle t s)"
| "apply_state_change STATE_SLEEP_TO_PREPARE t s =
     prio_list_add_task_tail t (sched_list_del_task SN_sleep t s)"
| "apply_state_change STATE_SLEEP_TO_IDLE t s =
     Some (sched_list_add_task_tail SN_idle t (sched_list_del_task SN_sleep t s))"
| "apply_state_change STATE_SLEEP_TO_RUNNING t s = Some (sched_list_del_task SN_sleep t s)"
| "apply_state_change STATE_PREPARE_TO_UNKNOWN t s = prio_list_del_task t s"
| "apply_state_change STATE_NONE_TO_NONE t s = Some s"

definition set_task_state :: "u32 \<Rightarrow> state_t \<Rightarrow> kstate \<Rightarrow> kstate option" where
  "set_task_state t new s =
     (let change = get_state_change (get_task_state t s) new in
      if change = STATE_NONE_TO_NONE then Some s
      else
        (let (flags, s) = enter_critical s;
             s = upd_task t (\<lambda>ts. ts\<lparr>t_state := new\<rparr>) s
         in do { s \<leftarrow> apply_state_change change t s; Some (exit_critical flags s) }))"

definition get_task_pid :: "u32 \<Rightarrow> kstate \<Rightarrow> int" where
  "get_task_pid t s = t_pid (task s t)"

definition sys_getpid :: "kstate \<Rightarrow> int" where
  "sys_getpid s = get_task_pid (current s) s"

definition sched_table_empty :: "int \<Rightarrow> kstate \<Rightarrow> bool" where
  "sched_table_empty i s = (os_sched_count s i = 0)"

definition get_task_run_time :: "u32 \<Rightarrow> kstate \<Rightarrow> kstate" where
  "get_task_run_time t s = upd_task t (\<lambda>ts. ts\<lparr>run_time := 1\<rparr>) s"

definition init_sched_struct :: "u32 \<Rightarrow> kstate \<Rightarrow> kstate" where
  "init_sched_struct t s =
     (let ts = task s t;
          p = (if t_flag ts AND PROCESS_TYPE_KERNEL \<noteq> 0 \<and> t_pid ts > 0 then KERNEL_THREAD_PRIO
               else if t_flag ts AND PROCESS_TYPE_USER \<noteq> 0 \<and> t_pid ts = 1 then PROCESS_DEFAULT_PRIO
               else if t_flag ts AND PROCESS_TYPE_USER \<noteq> 0 \<and> t_pid ts > 1
                 then t_prio (task s (t_parent ts))
               else KERNEL_THREAD_PRIO - 1);
          s = upd_task t (\<lambda>ts. ts\<lparr>t_prio := p, pre_prio := p\<rparr>) s;
          s = get_task_run_time t s;
          s = upd_task t (\<lambda>ts. ts\<lparr>wait_time := -1, time_out := 0, run_count := 0,
                t_state := PROCESS_STATE_UNKNOWN, exit_state := PROCESS_STATE_UNKNOWN\<rparr>) s
      in on_lists (\<lambda>h. init_list (N_wait t) (init_list (N_mutex_get t)
           (init_list (N_idle t) (init_list (N_sleep t) (init_list (N_system t)
             (init_list (N_prio_running t) h)))))) s)"

subsection \<open>Choosing and switching tasks\<close>

text \<open>\<^verbatim>\<open>container_of\<close> for the members \<^verbatim>\<open>prio_running\<close>, \<^verbatim>\<open>sleep\<close> and \<^verbatim>\<open>idle\<close>.\<close>

fun prio_running_entry :: "node \<Rightarrow> u32 option" where
  "prio_running_entry (N_prio_running t) = Some t"
| "prio_running_entry _ = None"

fun sleep_entry :: "node \<Rightarrow> u32 option" where
  "sleep_entry (N_sleep t) = Some t"
| "sleep_entry _ = None"

fun idle_entry :: "node \<Rightarrow> u32 option" where
  "idle_entry (N_idle t) = Some t"
| "idle_entry _ = None"

function first_ready_prio :: "int \<Rightarrow> kstate \<Rightarrow> int" where
  "first_ready_prio i s =
     (if i < MAX_PRIO - 1 then
        (if os_sched_count s i \<noteq> 0 then i else first_ready_prio (i + 1) s)
      else i)"
  by pat_completeness auto
termination
  by (relation "measure (\<lambda>(i, s). nat (MAX_PRIO - i))") auto

declare first_ready_prio.simps [simp del]

definition find_next_run_task :: "kstate \<Rightarrow> u32 option" where
  "find_next_run_task s =
     (let i = first_ready_prio 0 s in
      if MAX_PRIO - 1 = i then Some (current s)
      else prio_running_entry (list_next (OsSched i) (lists s)))"

definition prepare_to_switch :: "u32 \<Rightarrow> kstate \<Rightarrow> kstate option" where
  "prepare_to_switch nxt s =
     (if current s = NULL then None
      else do {
        s \<leftarrow>
          (if current s = nxt then Some s
           else do {
             s \<leftarrow> (if get_task_state (current s) s = PROCESS_STATE_RUNNING
                   then set_task_state (current s) PROCESS_STATE_PREPARE s else Some s);
             let s = (if wait_time (task s nxt) = 0
                      then upd_task nxt (\<lambda>ts. ts\<lparr>time_out := 1\<rparr>) s else s);
             let s = upd_task nxt (\<lambda>ts. ts\<lparr>wait_time := -1\<rparr>) s;
             set_task_state nxt PROCESS_STATE_RUNNING s
           });
        let s = upd_task nxt (\<lambda>ts. ts\<lparr>run_count := run_count ts + 1\<rparr>) s;
        Some (get_task_run_time nxt s)
      })"

definition arch_switch_task_sw :: "kstate \<Rightarrow> kstate" where
  "arch_switch_task_sw s = s\<lparr>current := next_run s\<rparr>"

definition sched :: "kstate \<Rightarrow> kstate option" where
  "sched s =
     (if in_interrupt s then Some s
      else if \<not> schedule_running s then Some s
      else do {
        let (flags, s) = enter_critical s;
        n \<leftarrow> find_next_run_task s;
        let s = s\<lparr>next_run := n\<rparr>;
        s \<leftarrow> prepare_to_switch n s;
        let s = arch_switch_task_sw s;
        Some (exit_critical flags s)
      })"

subsection \<open>Tick, suspend, wake up\<close>

text \<open>The loop over the sleep list; the body may unhook the node it stands on.\<close>

partial_function (option) tick_sleep_list :: "node \<Rightarrow> kstate \<Rightarrow> kstate option" where
  "tick_sleep_list l s =
     (if l = TaskSleep then Some s
      else do {
        t \<leftarrow> sleep_entry l;
        let s = (if wait_time (task s t) > 0
                 then upd_task t (\<lambda>ts. ts\<lparr>wait_time := wait_time ts - 1\<rparr>) s else s);
        s \<leftarrow> (if wait_time (task s t) = 0 then set_task_state t PROCESS_STATE_PREPARE s else Some s);
        tick_sleep_list (lnext (lists s) l) s
      })"

definition os_tick_handler :: "kstate \<Rightarrow> kstate option" where
  "os_tick_handler s = do {
     s \<leftarrow> tick_sleep_list (lnext (lists s) TaskSleep) s;
     if current s = NULL then None
     else do {
       let s = upd_task (current s) (\<lambda>ts. ts\<lparr>run_time := run_time ts - 1\<rparr>) s;
       if run_time (task s (current s)) = 0
       then do {
         n \<leftarrow> find_next_run_task s;
         prepare_to_switch n (s\<lparr>next_run := n\<rparr>)
       }
       else Some s
     }
   }"

text \<open>The end of every interrupt, \<^verbatim>\<open>arm920t_s.S\<close>.\<close>

definition os_exit_irq :: "kstate \<Rightarrow> kstate" where
  "os_exit_irq s = (if current s = next_run s then s else s\<lparr>current := next_run s\<rparr>)"

text \<open>
  \<^verbatim>\<open>suspend_task_timeout\<close> up to its call of \<^verbatim>\<open>sched()\<close>, included.  The first component
  is \<open>Some r\<close> when the function returns \<open>r\<close> at once, and \<^const>\<open>None\<close> when it is inside
  \<^verbatim>\<open>sched()\<close>: it then returns \<^verbatim>\<open>task->time_out\<close> when the caller runs again.
\<close>

definition suspend_task_timeout :: "u32 \<Rightarrow> int \<Rightarrow> kstate \<Rightarrow> (int option \<times> kstate) option" where
  "suspend_task_timeout t timeout s =
     (if t = NULL \<or> timeout = 0 then Some (Some (- EINVAL), s)
      else do {
        let (flags, s) = enter_critical s;
        if get_task_state t s \<noteq> PROCESS_STATE_IDLE
        then do {
          let s = upd_task t (\<lambda>ts. ts\<lparr>wait_time := timeout, time_out := 0\<rparr>) s;
          s \<leftarrow> set_task_state t PROCESS_STATE_SLEEP s;
          s \<leftarrow> sched (exit_critical flags s);
          Some (None, s)
        }
        else Some (Some (- EINVAL), exit_critical flags s)
      })"

definition suspend_result :: "u32 \<Rightarrow> kstate \<Rightarrow> int" where
  "suspend_result t s = time_out (task s t)"

definition wakeup_task :: "u32 \<Rightarrow> kstate \<Rightarrow> (int \<times> kstate) option" where
  "wakeup_task t s =
     (if get_task_state t s \<noteq> PROCESS_STATE_SLEEP then Some (- EINVAL, s)
      else do {
        s \<leftarrow> set_task_state t PROCESS_STATE_PREPARE (get_task_run_time t s);
        Some (0, s)
      })"

definition set_task_prio :: "u32 \<Rightarrow> int \<Rightarrow> kstate \<Rightarrow> (int \<times> kstate) option" where
  "set_task_prio t p s =
     (if p \<ge> MAX_PRIO then Some (- EINVAL, s)
      else
        (case get_task_state t s of
           PROCESS_STATE_RUNNING \<Rightarrow>
             Some (0, upd_task t (\<lambda>ts. ts\<lparr>pre_prio := t_prio ts, t_prio := p\<rparr>) s)
         | PROCESS_STATE_SLEEP \<Rightarrow>
             Some (0, upd_task t (\<lambda>ts. ts\<lparr>pre_prio := t_prio ts, t_prio := p\<rparr>) s)
         | PROCESS_STATE_PREPARE \<Rightarrow> do {
             s \<leftarrow> set_task_state t PROCESS_STATE_UNKNOWN s;
             let s = upd_task t (\<lambda>ts. ts\<lparr>pre_prio := t_prio ts, t_prio := p\<rparr>) s;
             s \<leftarrow> set_task_state t PROCESS_STATE_PREPARE s;
             Some (0, s)
           }
         | _ \<Rightarrow> Some (0, s)))"

end
