(* ===== verification/SchedInv.thy ===== *)
theory SchedInv
  imports Sched
begin

text \<open>
  The invariant of the scheduler.  \<^verbatim>\<open>Documents/sched.txt\<close> states it in words: at any moment a
  task is hooked on the system list and on the one list of its current state.  \<open>sched_inv F s\<close>
  says it of the state \<open>s\<close> whose list heap represents the lists \<open>F\<close>, together with the
  counters of the lists.  The theory shows that the state machine of \<^verbatim>\<open>set_task_state\<close> keeps
  it, and with it every operation of \<open>Sched\<close>.
\<close>

section \<open>Membership\<close>

definition on :: "node lists \<Rightarrow> node \<Rightarrow> node \<Rightarrow> bool" where
  "on F r n \<longleftrightarrow> (\<exists>xs. F r = Some xs \<and> n \<in> set xs)"

lemma on_add_tail: "F r = Some xs \<Longrightarrow> on (F(r \<mapsto> xs @ [n])) q m \<longleftrightarrow> q = r \<and> m = n \<or> on F q m"
  by (auto simp: on_def)

lemma on_add: "F r = Some xs \<Longrightarrow> on (F(r \<mapsto> n # xs)) q m \<longleftrightarrow> q = r \<and> m = n \<or> on F q m"
  by (auto simp: on_def)

lemma on_remove1:
  "F r = Some xs \<Longrightarrow> distinct xs \<Longrightarrow> on (F(r \<mapsto> remove1 n xs)) q m \<longleftrightarrow> on F q m \<and> \<not> (q = r \<and> m = n)"
  by (auto simp: on_def)

section \<open>The structural part\<close>

text \<open>Which list a node of the scheduler can be hooked on; such a node is never a head itself.\<close>

fun is_os_sched :: "node \<Rightarrow> bool" where
  "is_os_sched (OsSched i) = True"
| "is_os_sched _ = False"

fun sched_member :: "node \<Rightarrow> bool" where
  "sched_member (N_prio_running t) = True"
| "sched_member (N_system t) = True"
| "sched_member (N_sleep t) = True"
| "sched_member (N_idle t) = True"
| "sched_member _ = False"

fun home :: "node \<Rightarrow> node \<Rightarrow> bool" where
  "home (N_prio_running t) r = is_os_sched r"
| "home (N_system t) r = (r = TaskSystem)"
| "home (N_sleep t) r = (r = TaskSleep)"
| "home (N_idle t) r = (r = TaskIdle)"
| "home _ r = True"

definition sched_heads :: "node \<Rightarrow> bool" where
  "sched_heads r \<longleftrightarrow> is_os_sched r \<or> r = TaskSystem \<or> r = TaskSleep \<or> r = TaskIdle"

fun sched_head_member :: "node \<Rightarrow> node \<Rightarrow> bool" where
  "sched_head_member (OsSched i) n = (\<exists>t. n = N_prio_running t)"
| "sched_head_member TaskSystem n = (\<exists>t. n = N_system t)"
| "sched_head_member TaskSleep n = (\<exists>t. n = N_sleep t)"
| "sched_head_member TaskIdle n = (\<exists>t. n = N_idle t)"
| "sched_head_member _ n = True"

definition base_inv :: "node lists \<Rightarrow> kstate \<Rightarrow> bool" where
  "base_inv F s \<longleftrightarrow>
     list_rel (lists s) F \<and>
     (\<forall>r n. on F r n \<longrightarrow> home n r \<and> sched_head_member r n) \<and>
     (\<forall>n. sched_member n \<longrightarrow> F n = None) \<and>
     (\<forall>i. F (OsSched i) \<noteq> None \<longleftrightarrow> prio_ok i) \<and>
     (\<forall>i xs. F (OsSched i) = Some xs \<longrightarrow> os_sched_count s i = of_nat (length xs)) \<and>
     (\<forall>name. \<exists>xs. F (sn_head name) = Some xs \<and> sched_list_count s name = of_nat (length xs))"

lemma base_inv_rel: "base_inv F s \<Longrightarrow> list_rel (lists s) F"
  by (simp add: base_inv_def)

lemma base_inv_on: "base_inv F s \<Longrightarrow> on F r n \<Longrightarrow> home n r \<and> sched_head_member r n"
  by (simp add: base_inv_def)

lemma base_inv_prio: "base_inv F s \<Longrightarrow> prio_ok i \<Longrightarrow>
    \<exists>xs. F (OsSched i) = Some xs \<and> os_sched_count s i = of_nat (length xs)"
  unfolding base_inv_def by blast

lemma base_inv_name: "base_inv F s \<Longrightarrow>
    \<exists>xs. F (sn_head name) = Some xs \<and> sched_list_count s name = of_nat (length xs)"
  unfolding base_inv_def by blast

lemma base_inv_fresh:
  assumes "base_inv F s" and "sched_member n" and "\<And>r. home n r \<Longrightarrow> \<not> on F r n"
  shows "fresh F n"
  using assms base_inv_on [OF assms(1)] unfolding fresh_def base_inv_def on_def by blast

lemma base_inv_cong:
  "lists s' = lists s \<Longrightarrow> os_sched_count s' = os_sched_count s \<Longrightarrow>
   sched_list_count s' = sched_list_count s \<Longrightarrow> base_inv F s' \<longleftrightarrow> base_inv F s"
  by (simp add: base_inv_def)

lemma sn_head_inj: "sn_head a = sn_head b \<longleftrightarrow> a = b"
  by (cases a; cases b) auto

lemma sn_head_not_os: "sn_head a \<noteq> OsSched i" "OsSched i \<noteq> sn_head a"
  by (cases a; simp)+

lemma sn_home: "sched_member (sn_node a t)" "home (sn_node a t) r \<longleftrightarrow> r = sn_head a"
    "sched_head_member (sn_head a) (sn_node a t)" "\<not> sched_member (sn_head a)"
  by (cases a; simp)+

text \<open>Updating the list of one head keeps the structural part.\<close>

lemma base_inv_upd_name:
  assumes base: "base_inv F s" and F: "F (sn_head name) = Some xs"
    and rel: "list_rel h' (F(sn_head name \<mapsto> ys))"
    and ys: "\<And>n. n \<in> set ys \<Longrightarrow> n \<in> set xs \<or> n = sn_node name t"
    and s': "lists s' = h'" "os_sched_count s' = os_sched_count s"
      "sched_list_count s' = (sched_list_count s)(name := of_nat (length ys))"
  shows "base_inv (F(sn_head name \<mapsto> ys)) s'"
proof -
  have on: "home n r \<and> sched_head_member r n" if "on (F(sn_head name \<mapsto> ys)) r n" for r n
  proof -
    from that ys F have "on F r n \<or> r = sn_head name \<and> n = sn_node name t"
      by (auto simp: on_def split: if_splits)
    with base_inv_on [OF base] sn_home(2,3) [of name t] show ?thesis by auto
  qed
  have "\<exists>zs. (F(sn_head name \<mapsto> ys)) (sn_head a) = Some zs \<and> sched_list_count s' a = of_nat (length zs)" for a
    using base_inv_name [OF base, of a] s' by (cases "a = name") (auto simp: sn_head_inj)
  moreover have "(F(sn_head name \<mapsto> ys)) n = None" if "sched_member n" for n
    using that base sn_home(4) [of name] by (auto simp: base_inv_def)
  ultimately show ?thesis
    using base rel on s' by (auto simp: base_inv_def sn_head_not_os)
qed

lemma base_inv_upd_prio:
  assumes base: "base_inv F s" and F: "F (OsSched p) = Some xs"
    and rel: "list_rel h' (F(OsSched p \<mapsto> ys))"
    and ys: "\<And>n. n \<in> set ys \<Longrightarrow> n \<in> set xs \<or> n = N_prio_running t"
    and s': "lists s' = h'" "sched_list_count s' = sched_list_count s"
      "os_sched_count s' = (os_sched_count s)(p := of_nat (length ys))"
  shows "base_inv (F(OsSched p \<mapsto> ys)) s'"
proof -
  have on: "home n r \<and> sched_head_member r n" if "on (F(OsSched p \<mapsto> ys)) r n" for r n
  proof -
    from that ys F have "on F r n \<or> r = OsSched p \<and> n = N_prio_running t"
      by (auto simp: on_def split: if_splits)
    with base_inv_on [OF base] show ?thesis by auto
  qed
  have "\<exists>zs. (F(OsSched p \<mapsto> ys)) (sn_head a) = Some zs \<and> sched_list_count s' a = of_nat (length zs)" for a
    using base_inv_name [OF base, of a] s' by (auto simp: sn_head_not_os)
  moreover have "(F(OsSched p \<mapsto> ys)) n = None" if "sched_member n" for n
    using that base by (auto simp: base_inv_def)
  moreover have "(F(OsSched p \<mapsto> ys)) (OsSched i) \<noteq> None \<longleftrightarrow> prio_ok i" for i
    using base F by (auto simp: base_inv_def)
  ultimately show ?thesis
    using base rel on s' by (auto simp: base_inv_def)
qed

section \<open>The list primitives\<close>

lemma add_task_tail_base:
  assumes base: "base_inv F s" and F: "F (sn_head name) = Some xs"
    and n: "\<not> on F (sn_head name) (sn_node name t)"
  shows "base_inv (F(sn_head name \<mapsto> xs @ [sn_node name t])) (sched_list_add_task_tail name t s)"
proof (rule base_inv_upd_name [OF base F])
  have "fresh F (sn_node name t)"
    using base_inv_fresh [OF base sn_home(1)] n sn_home(2) by simp
  with base_inv_rel [OF base] F
  show "list_rel (lists (sched_list_add_task_tail name t s)) (F(sn_head name \<mapsto> xs @ [sn_node name t]))"
    by (simp add: sched_list_add_task_tail_def os_list.rel_add_tail)
qed (use base_inv_name [OF base, of name] F in \<open>auto simp: sched_list_add_task_tail_def add.commute\<close>)

lemma add_task_base:
  assumes base: "base_inv F s" and F: "F (sn_head name) = Some xs"
    and n: "\<not> on F (sn_head name) (sn_node name t)"
  shows "base_inv (F(sn_head name \<mapsto> sn_node name t # xs)) (sched_list_add_task name t s)"
proof (rule base_inv_upd_name [OF base F])
  have "fresh F (sn_node name t)"
    using base_inv_fresh [OF base sn_home(1)] n sn_home(2) by simp
  with base_inv_rel [OF base] F
  show "list_rel (lists (sched_list_add_task name t s)) (F(sn_head name \<mapsto> sn_node name t # xs))"
    by (simp add: sched_list_add_task_def os_list.rel_add)
qed (use base_inv_name [OF base, of name] F in \<open>auto simp: sched_list_add_task_def add.commute\<close>)

lemma of_nat_length_remove1:
  "x \<in> set xs \<Longrightarrow> of_nat (length (remove1 x xs)) = (of_nat (length xs) - 1 :: 'a::len word)"
  using length_pos_if_in_set [of x xs] by (simp add: length_remove1 of_nat_diff Suc_leI)

lemma del_task_base:
  assumes base: "base_inv F s" and F: "F (sn_head name) = Some xs"
    and n: "on F (sn_head name) (sn_node name t)"
  shows "base_inv (F(sn_head name \<mapsto> remove1 (sn_node name t) xs)) (sched_list_del_task name t s)"
proof (rule base_inv_upd_name [OF base F, where t = t])
  show "list_rel (lists (sched_list_del_task name t s)) (F(sn_head name \<mapsto> remove1 (sn_node name t) xs))"
    using base_inv_rel [OF base] F n by (auto simp: sched_list_del_task_def on_def intro: os_list.rel_del)
qed (use base_inv_name [OF base, of name] F n in
    \<open>auto simp: sched_list_del_task_def on_def of_nat_length_remove1 dest: notin_set_remove1\<close>)

lemma prio_add_tail_base:
  assumes base: "base_inv F s" and p: "prio_ok p" "t_prio (task s t) = p"
    and F: "F (OsSched p) = Some xs" and n: "\<And>i. \<not> on F (OsSched i) (N_prio_running t)"
  shows "\<exists>s'. prio_list_add_task_tail t s = Some s' \<and>
    base_inv (F(OsSched p \<mapsto> xs @ [N_prio_running t])) s' \<and>
    s' = s\<lparr>lists := lists s', os_sched_count := os_sched_count s'\<rparr> \<and>
    lists s' = list_add_tail (OsSched p) (N_prio_running t) (lists s)"
proof -
  let ?s = "(on_lists (list_add_tail (OsSched p) (N_prio_running t)) s)
          \<lparr>os_sched_count := (os_sched_count s)(p := os_sched_count s p + 1)\<rparr>"
  have "\<not> on F r (N_prio_running t)" if "home (N_prio_running t) r" for r
    using that n by (cases r) auto
  then have "fresh F (N_prio_running t)" by (intro base_inv_fresh [OF base]) auto
  then have "base_inv (F(OsSched p \<mapsto> xs @ [N_prio_running t])) ?s"
    using base_inv_prio [OF base p(1)] F base_inv_rel [OF base]
    by (intro base_inv_upd_prio [OF base F, where t = t and h' = "lists ?s"])
      (auto simp: add.commute intro: os_list.rel_add_tail)
  with p show ?thesis by (simp add: prio_list_add_task_tail_def on_lists_def)
qed

lemma prio_del_base:
  assumes base: "base_inv F s" and p: "prio_ok p" "t_prio (task s t) = p"
    and F: "F (OsSched p) = Some xs" and n: "on F (OsSched p) (N_prio_running t)"
  shows "\<exists>s'. prio_list_del_task t s = Some s' \<and>
    base_inv (F(OsSched p \<mapsto> remove1 (N_prio_running t) xs)) s' \<and>
    s' = s\<lparr>lists := lists s', os_sched_count := os_sched_count s'\<rparr> \<and>
    lists s' = list_del (N_prio_running t) (lists s)"
proof -
  let ?s = "(on_lists (list_del (N_prio_running t)) s)
          \<lparr>os_sched_count := (os_sched_count s)(p := os_sched_count s p - 1)\<rparr>"
  have "base_inv (F(OsSched p \<mapsto> remove1 (N_prio_running t) xs)) ?s"
    using base_inv_prio [OF base p(1)] F n base_inv_rel [OF base]
    by (intro base_inv_upd_prio [OF base F, where t = t and h' = "lists ?s"])
      (auto simp: on_def of_nat_length_remove1 intro: os_list.rel_del dest: notin_set_remove1)
  with p show ?thesis by (simp add: prio_list_del_task_def on_lists_def)
qed

section \<open>The queues as an abstract specification\<close>

text \<open>
  What a state change does to the queues, without heap or counters: the task leaves the queue of
  its old state and joins the tail of the queue of its new one.
\<close>

definition q_add :: "node \<Rightarrow> node \<Rightarrow> node lists \<Rightarrow> node lists" where
  "q_add n r F = F(r := map_option (\<lambda>xs. xs @ [n]) (F r))"

definition q_push :: "node \<Rightarrow> node \<Rightarrow> node lists \<Rightarrow> node lists" where
  "q_push n r F = F(r := map_option (\<lambda>xs. n # xs) (F r))"

definition q_del :: "node \<Rightarrow> node \<Rightarrow> node lists \<Rightarrow> node lists" where
  "q_del n r F = F(r := map_option (remove1 n) (F r))"

fun abs_leave :: "state_t \<Rightarrow> u32 \<Rightarrow> int \<Rightarrow> node lists \<Rightarrow> node lists" where
  "abs_leave PROCESS_STATE_PREPARE t p F = q_del (N_prio_running t) (OsSched p) F"
| "abs_leave PROCESS_STATE_SLEEP t p F = q_del (N_sleep t) TaskSleep F"
| "abs_leave _ t p F = F"

fun abs_enter :: "state_t \<Rightarrow> u32 \<Rightarrow> int \<Rightarrow> node lists \<Rightarrow> node lists" where
  "abs_enter PROCESS_STATE_PREPARE t p F = q_add (N_prio_running t) (OsSched p) F"
| "abs_enter PROCESS_STATE_SLEEP t p F = q_add (N_sleep t) TaskSleep F"
| "abs_enter PROCESS_STATE_IDLE t p F = q_add (N_idle t) TaskIdle F"
| "abs_enter _ t p F = F"

definition abs_set_state :: "state_t \<Rightarrow> state_t \<Rightarrow> u32 \<Rightarrow> int \<Rightarrow> node lists \<Rightarrow> node lists" where
  "abs_set_state old new t p F = abs_enter new t p (abs_leave old t p F)"

lemma q_sel [simp]:
  "q \<noteq> r \<Longrightarrow> q_add n r F q = F q" "q \<noteq> r \<Longrightarrow> q_push n r F q = F q" "q \<noteq> r \<Longrightarrow> q_del n r F q = F q"
  "q_add n r F r = map_option (\<lambda>xs. xs @ [n]) (F r)"
  "q_push n r F r = map_option (\<lambda>xs. n # xs) (F r)"
  "q_del n r F r = map_option (remove1 n) (F r)"
  by (simp_all add: q_add_def q_push_def q_del_def)

lemma on_q_add: "F r \<noteq> None \<Longrightarrow> on (q_add n r F) q m \<longleftrightarrow> q = r \<and> m = n \<or> on F q m"
  by (auto simp: on_def q_add_def)

lemma on_q_push: "F r \<noteq> None \<Longrightarrow> on (q_push n r F) q m \<longleftrightarrow> q = r \<and> m = n \<or> on F q m"
  by (auto simp: on_def q_push_def)

lemma on_q_del:
  "base_inv F s \<Longrightarrow> on (q_del n r F) q m \<longleftrightarrow> on F q m \<and> \<not> (q = r \<and> m = n)"
  using os_list.rel_distinct [OF base_inv_rel, of F s r] by (cases "F r") (auto simp: on_def q_del_def)

lemma q_add_eq: "F r = Some xs \<Longrightarrow> q_add n r F = F(r \<mapsto> xs @ [n])"
  by (simp add: q_add_def)

lemma q_push_eq: "F r = Some xs \<Longrightarrow> q_push n r F = F(r \<mapsto> n # xs)"
  by (simp add: q_push_def)

lemma q_del_eq: "F r = Some xs \<Longrightarrow> q_del n r F = F(r \<mapsto> remove1 n xs)"
  by (simp add: q_del_def)

section \<open>The semantic part\<close>

text \<open>
  A task is live when it is the idle task, which is never put on the system list, or is hooked on
  the system list.  \<open>sem_inv X F s\<close>: every live task outside \<open>X\<close> is on exactly the queue of
  its state, and the tasks in \<open>X\<close> are on none.
\<close>

definition live :: "node lists \<Rightarrow> kstate \<Rightarrow> u32 \<Rightarrow> bool" where
  "live F s t \<longleftrightarrow> t = idle s \<or> on F TaskSystem (N_system t)"

definition sem_inv :: "u32 set \<Rightarrow> node lists \<Rightarrow> kstate \<Rightarrow> bool" where
  "sem_inv X F s \<longleftrightarrow>
     (\<forall>t i. on F (OsSched i) (N_prio_running t) \<longleftrightarrow>
        t \<notin> X \<and> live F s t \<and> t_state (task s t) = PROCESS_STATE_PREPARE \<and> t_prio (task s t) = i) \<and>
     (\<forall>t. on F TaskSleep (N_sleep t) \<longleftrightarrow>
        t \<notin> X \<and> live F s t \<and> t_state (task s t) = PROCESS_STATE_SLEEP) \<and>
     (\<forall>t. on F TaskIdle (N_idle t) \<longleftrightarrow>
        t \<notin> X \<and> live F s t \<and> t_state (task s t) = PROCESS_STATE_IDLE) \<and>
     (\<forall>t. live F s t \<longrightarrow> t \<noteq> NULL \<and> prio_ok (t_prio (task s t)) \<and>
        (t \<notin> X \<longrightarrow> t_state (task s t) \<noteq> PROCESS_STATE_STOP \<and> t_state (task s t) \<noteq> PROCESS_STATE_UNKNOWN)) \<and>
     \<not> on F TaskSystem (N_system (idle s))"

definition sched_inv :: "node lists \<Rightarrow> kstate \<Rightarrow> bool" where
  "sched_inv F s \<longleftrightarrow> base_inv F s \<and> sem_inv {} F s"

text \<open>The same, with one task in transit between two queues.\<close>

definition transit_inv :: "u32 \<Rightarrow> node lists \<Rightarrow> kstate \<Rightarrow> bool" where
  "transit_inv t F s \<longleftrightarrow> base_inv F s \<and> sem_inv {t} F s \<and> live F s t"

lemma sched_inv_state_cases:
  assumes "sched_inv F s" and "live F s t"
  shows "t_state (task s t) \<in> {PROCESS_STATE_PREPARE, PROCESS_STATE_RUNNING, PROCESS_STATE_SLEEP, PROCESS_STATE_IDLE}"
  using assms by (cases "t_state (task s t)") (auto simp: sched_inv_def sem_inv_def)

lemma sem_inv_cong:
  assumes "\<And>u. u \<notin> X \<Longrightarrow> t_state (task s' u) = t_state (task s u)"
    and "\<And>u. t_prio (task s' u) = t_prio (task s u)" and "idle s' = idle s"
  shows "sem_inv X F s' \<longleftrightarrow> sem_inv X F s"
proof -
  have "live F s' = live F s" using assms(3) by (auto simp: live_def fun_eq_iff)
  with assms show ?thesis unfolding sem_inv_def by (simp cong: conj_cong imp_cong)
qed

lemma live_q_add [simp]: "r \<noteq> TaskSystem \<Longrightarrow> live (q_add n r F) s t \<longleftrightarrow> live F s t"
  by (auto simp: live_def on_def)

lemma live_q_push [simp]: "r \<noteq> TaskSystem \<Longrightarrow> live (q_push n r F) s t \<longleftrightarrow> live F s t"
  by (auto simp: live_def on_def)

lemma live_q_del [simp]: "r \<noteq> TaskSystem \<Longrightarrow> live (q_del n r F) s t \<longleftrightarrow> live F s t"
  by (auto simp: live_def on_def)

lemma on_other_list [simp]:
  "q \<noteq> r \<Longrightarrow> on (q_add n r F) q m \<longleftrightarrow> on F q m" "q \<noteq> r \<Longrightarrow> on (q_push n r F) q m \<longleftrightarrow> on F q m"
  "q \<noteq> r \<Longrightarrow> on (q_del n r F) q m \<longleftrightarrow> on F q m"
  by (auto simp: on_def)

subsection \<open>Leaving a queue\<close>

text \<open>
  \<^verbatim>\<open>set_task_state\<close> writes the new state before it unhooks the task: the list operations run
  in a state \<open>s\<close> which differs from the consistent state \<open>s0\<close> in the state of the task.
\<close>

definition same_but :: "u32 \<Rightarrow> kstate \<Rightarrow> kstate \<Rightarrow> bool" where
  "same_but t s0 s \<longleftrightarrow>
     lists s = lists s0 \<and> os_sched_count s = os_sched_count s0 \<and>
     sched_list_count s = sched_list_count s0 \<and> idle s = idle s0 \<and>
     (\<forall>u. u \<noteq> t \<longrightarrow> t_state (task s u) = t_state (task s0 u)) \<and>
     (\<forall>u. t_prio (task s u) = t_prio (task s0 u))"

lemma same_but_base: "same_but t s0 s \<Longrightarrow> base_inv F s0 \<Longrightarrow> base_inv F s"
  using base_inv_cong [of s s0 F] by (simp add: same_but_def)

lemma same_but_sem: "same_but t s0 s \<Longrightarrow> sem_inv {t} F s0 \<Longrightarrow> sem_inv {t} F s"
  using sem_inv_cong [of "{t}" s s0 F] by (simp add: same_but_def)

lemma same_but_live: "same_but t s0 s \<Longrightarrow> live F s u \<longleftrightarrow> live F s0 u"
  by (simp add: same_but_def live_def)

lemma leave_RUNNING:
  assumes inv: "sched_inv F s0" and t: "live F s0 t" "t_state (task s0 t) = PROCESS_STATE_RUNNING"
    and s: "same_but t s0 s"
  shows "transit_inv t F s"
proof -
  have "base_inv F s0" and "sem_inv {t} F s0"
    using inv t unfolding sched_inv_def sem_inv_def by auto
  with s t show ?thesis
    by (simp add: transit_inv_def same_but_base same_but_sem same_but_live)
qed

lemma leave_SLEEP:
  assumes inv: "sched_inv F s0" and t: "live F s0 t" "t_state (task s0 t) = PROCESS_STATE_SLEEP"
    and s: "same_but t s0 s"
  shows "transit_inv t (q_del (N_sleep t) TaskSleep F) (sched_list_del_task SN_sleep t s)"
proof -
  have base0: "base_inv F s0" and sem: "sem_inv {} F s0" using inv by (auto simp: sched_inv_def)
  have base: "base_inv F s" using s base0 by (rule same_but_base)
  have on: "on F TaskSleep (N_sleep t)" using sem t by (simp add: sem_inv_def)
  then obtain xs where xs: "F TaskSleep = Some xs" by (auto simp: on_def)
  from base on xs have "base_inv (q_del (N_sleep t) TaskSleep F) (sched_list_del_task SN_sleep t s)"
    using del_task_base [of F s SN_sleep xs t] by (simp add: q_del_eq)
  moreover have "sem_inv {t} (q_del (N_sleep t) TaskSleep F) s0"
    using sem t unfolding sem_inv_def by (auto simp: on_q_del [OF base0])
  then have "sem_inv {t} (q_del (N_sleep t) TaskSleep F) s" by (rule same_but_sem [OF s])
  then have "sem_inv {t} (q_del (N_sleep t) TaskSleep F) (sched_list_del_task SN_sleep t s)"
    by (subst sem_inv_cong) (simp_all add: sched_list_del_task_def)
  ultimately show ?thesis
    using t same_but_live [OF s] by (simp add: transit_inv_def live_def sched_list_del_task_def)
qed

lemma leave_PREPARE:
  assumes inv: "sched_inv F s0" and t: "live F s0 t" "t_state (task s0 t) = PROCESS_STATE_PREPARE"
    "t_prio (task s0 t) = p" and s: "same_but t s0 s"
  shows "\<exists>s'. prio_list_del_task t s = Some s' \<and>
    transit_inv t (q_del (N_prio_running t) (OsSched p) F) s' \<and>
    s' = s\<lparr>lists := lists s', os_sched_count := os_sched_count s'\<rparr> \<and>
    lists s' = list_del (N_prio_running t) (lists s)"
proof -
  have base0: "base_inv F s0" and sem: "sem_inv {} F s0" using inv by (auto simp: sched_inv_def)
  have base: "base_inv F s" using s base0 by (rule same_but_base)
  have on: "on F (OsSched p) (N_prio_running t)" and p: "prio_ok p"
    using sem t by (auto simp: sem_inv_def)
  then obtain xs where xs: "F (OsSched p) = Some xs" by (auto simp: on_def)
  let ?F = "q_del (N_prio_running t) (OsSched p) F"
  have tp: "t_prio (task s t) = p" using s t(3) by (simp add: same_but_def)
  from prio_del_base [OF base p tp xs on] obtain s'
    where s': "prio_list_del_task t s = Some s'" "base_inv ?F s'"
      "s' = s\<lparr>lists := lists s', os_sched_count := os_sched_count s'\<rparr>"
      "lists s' = list_del (N_prio_running t) (lists s)"
    using xs by (auto simp: q_del_eq)
  have task: "task s' = task s" "idle s' = idle s" by (subst s'(3); simp)+
  have "sem_inv {t} ?F s0"
    using sem t unfolding sem_inv_def by (auto simp: on_q_del [OF base0])
  then have "sem_inv {t} ?F s" by (rule same_but_sem [OF s])
  then have "sem_inv {t} ?F s'" by (subst sem_inv_cong) (simp_all add: task)
  with s' task t same_but_live [OF s] show ?thesis by (auto simp: transit_inv_def live_def)
qed

subsection \<open>Joining a queue\<close>

lemma enter_RUNNING:
  assumes "transit_inv t F s" and "t_state (task s t) = PROCESS_STATE_RUNNING"
  shows "sched_inv F s"
  using assms unfolding sched_inv_def transit_inv_def sem_inv_def by auto

lemma enter_named:
  assumes inv: "transit_inv t F s"
    and name: "name = SN_sleep \<and> t_state (task s t) = PROCESS_STATE_SLEEP \<or>
      name = SN_idle \<and> t_state (task s t) = PROCESS_STATE_IDLE"
  shows "sched_inv (q_add (sn_node name t) (sn_head name) F) (sched_list_add_task_tail name t s)"
proof -
  have base: "base_inv F s" and sem: "sem_inv {t} F s" and t: "live F s t"
    using inv by (auto simp: transit_inv_def)
  obtain xs where xs: "F (sn_head name) = Some xs" using base_inv_name [OF base] by blast
  let ?F = "q_add (sn_node name t) (sn_head name) F"
  have "\<not> on F (sn_head name) (sn_node name t)" using sem name by (auto simp: sem_inv_def)
  with base xs have "base_inv ?F (sched_list_add_task_tail name t s)"
    using add_task_tail_base [of F s name xs t] by (simp add: q_add_eq)
  moreover have "sem_inv {} ?F s"
  proof -
    have on: "on ?F q m \<longleftrightarrow> q = sn_head name \<and> m = sn_node name t \<or> on F q m" for q m
      using xs by (simp add: on_q_add)
    have live: "live ?F s u \<longleftrightarrow> live F s u" for u using name by auto
    show ?thesis
      using sem t name unfolding sem_inv_def on live by (elim disjE) auto
  qed
  then have "sem_inv {} ?F (sched_list_add_task_tail name t s)"
    by (subst sem_inv_cong) (simp_all add: sched_list_add_task_tail_def)
  ultimately show ?thesis by (simp add: sched_inv_def)
qed

lemma enter_PREPARE:
  assumes inv: "transit_inv t F s" and t: "t_state (task s t) = PROCESS_STATE_PREPARE"
    "t_prio (task s t) = p"
  shows "\<exists>s'. prio_list_add_task_tail t s = Some s' \<and>
    sched_inv (q_add (N_prio_running t) (OsSched p) F) s' \<and>
    s' = s\<lparr>lists := lists s', os_sched_count := os_sched_count s'\<rparr> \<and>
    lists s' = list_add_tail (OsSched p) (N_prio_running t) (lists s)"
proof -
  have base: "base_inv F s" and sem: "sem_inv {t} F s" and l: "live F s t"
    using inv by (auto simp: transit_inv_def)
  have p: "prio_ok p" using sem l t by (auto simp: sem_inv_def)
  obtain xs where xs: "F (OsSched p) = Some xs" using base_inv_prio [OF base p] by blast
  let ?F = "q_add (N_prio_running t) (OsSched p) F"
  have n: "\<not> on F (OsSched i) (N_prio_running t)" for i using sem by (auto simp: sem_inv_def)
  from prio_add_tail_base [OF base p t(2) xs n] obtain s'
    where s': "prio_list_add_task_tail t s = Some s'" "base_inv ?F s'"
      "s' = s\<lparr>lists := lists s', os_sched_count := os_sched_count s'\<rparr>"
      "lists s' = list_add_tail (OsSched p) (N_prio_running t) (lists s)"
    using xs by (auto simp: q_add_eq)
  have task: "task s' = task s" "idle s' = idle s" by (subst s'(3); simp)+
  have "sem_inv {} ?F s"
    using sem l t unfolding sem_inv_def by (auto simp: on_q_add xs)
  then have "sem_inv {} ?F s'" by (subst sem_inv_cong) (simp_all add: task)
  with s' show ?thesis by (auto simp: sched_inv_def)
qed

section \<open>set_task_state refines the abstract queues\<close>

lemma get_state_change_eq:
  "get_state_change old new =
     (case (old, new) of
        (PROCESS_STATE_UNKNOWN, PROCESS_STATE_PREPARE) \<Rightarrow> STATE_NONE_TO_PREPARE
      | (PROCESS_STATE_UNKNOWN, PROCESS_STATE_SLEEP) \<Rightarrow> STATE_NONE_TO_SLEEP
      | (PROCESS_STATE_PREPARE, PROCESS_STATE_RUNNING) \<Rightarrow> STATE_PREPARE_TO_RUNNING
      | (PROCESS_STATE_PREPARE, PROCESS_STATE_SLEEP) \<Rightarrow> STATE_PREPARE_TO_SLEEP
      | (PROCESS_STATE_PREPARE, PROCESS_STATE_IDLE) \<Rightarrow> STATE_PREPARE_TO_IDLE
      | (PROCESS_STATE_RUNNING, PROCESS_STATE_SLEEP) \<Rightarrow> STATE_RUNNING_TO_SLEEP
      | (PROCESS_STATE_RUNNING, PROCESS_STATE_PREPARE) \<Rightarrow> STATE_RUNNING_TO_PREPARE
      | (PROCESS_STATE_RUNNING, PROCESS_STATE_IDLE) \<Rightarrow> STATE_RUNNING_TO_IDLE
      | (PROCESS_STATE_SLEEP, PROCESS_STATE_PREPARE) \<Rightarrow> STATE_SLEEP_TO_PREPARE
      | (PROCESS_STATE_SLEEP, PROCESS_STATE_IDLE) \<Rightarrow> STATE_SLEEP_TO_IDLE
      | (PROCESS_STATE_SLEEP, PROCESS_STATE_RUNNING) \<Rightarrow> STATE_SLEEP_TO_RUNNING
      | (PROCESS_STATE_PREPARE, PROCESS_STATE_UNKNOWN) \<Rightarrow> STATE_PREPARE_TO_UNKNOWN
      | (PROCESS_STATE_PREPARE, PROCESS_STATE_PREPARE) \<Rightarrow> STATE_NONE_TO_PREPARE
      | _ \<Rightarrow> STATE_NONE_TO_NONE)"
  by (cases old; cases new;
      simp add: get_state_change_def change_table_def change_rows_def state_change_order_def Let_def
        eval_nat_numeral)

text \<open>The switch of \<^verbatim>\<open>set_task_state\<close> as unhooking followed by hooking.\<close>

fun leave_op :: "state_t \<Rightarrow> u32 \<Rightarrow> kstate \<Rightarrow> kstate option" where
  "leave_op PROCESS_STATE_PREPARE t s = prio_list_del_task t s"
| "leave_op PROCESS_STATE_SLEEP t s = Some (sched_list_del_task SN_sleep t s)"
| "leave_op _ t s = Some s"

fun enter_op :: "state_t \<Rightarrow> u32 \<Rightarrow> kstate \<Rightarrow> kstate option" where
  "enter_op PROCESS_STATE_PREPARE t s = prio_list_add_task_tail t s"
| "enter_op PROCESS_STATE_SLEEP t s = Some (sched_list_add_task_tail SN_sleep t s)"
| "enter_op PROCESS_STATE_IDLE t s = Some (sched_list_add_task_tail SN_idle t s)"
| "enter_op _ t s = Some s"

definition transition :: "state_t \<Rightarrow> state_t \<Rightarrow> bool" where
  "transition old new \<longleftrightarrow> old \<noteq> new \<and>
     old \<in> {PROCESS_STATE_PREPARE, PROCESS_STATE_RUNNING, PROCESS_STATE_SLEEP} \<and>
     new \<in> {PROCESS_STATE_PREPARE, PROCESS_STATE_RUNNING, PROCESS_STATE_SLEEP, PROCESS_STATE_IDLE}"

lemma apply_transition:
  "transition old new \<Longrightarrow> get_state_change old new \<noteq> STATE_NONE_TO_NONE \<and>
   apply_state_change (get_state_change old new) t s = do { s \<leftarrow> leave_op old t s; enter_op new t s }"
  by (cases old; cases new) (auto simp: transition_def get_state_change_eq intro!: ext)

definition list_frame :: "kstate \<Rightarrow> kstate \<Rightarrow> bool" where
  "list_frame s s' \<longleftrightarrow> s' = s\<lparr>lists := lists s', os_sched_count := os_sched_count s',
     sched_list_count := sched_list_count s'\<rparr>"

lemma list_frame_refl [simp]: "list_frame s s"
  by (simp add: list_frame_def)

lemma list_frame_trans: "list_frame s s' \<Longrightarrow> list_frame s' s'' \<Longrightarrow> list_frame s s''"
  by (cases s; cases s'; cases s'') (simp add: list_frame_def)

lemma list_frame_task: "list_frame s s' \<Longrightarrow> task s' = task s"
  by (cases s; cases s') (simp add: list_frame_def)

lemma list_frame_prio: "s' = s\<lparr>lists := lists s', os_sched_count := os_sched_count s'\<rparr> \<Longrightarrow> list_frame s s'"
  by (cases s; cases s') (simp add: list_frame_def)

lemma list_frame_named [simp]:
  "list_frame s (sched_list_add_task_tail name t s)" "list_frame s (sched_list_add_task name t s)"
  "list_frame s (sched_list_del_task name t s)"
  by (simp_all add: list_frame_def sched_list_add_task_tail_def sched_list_add_task_def
      sched_list_del_task_def on_lists_def)

lemma leave_any:
  assumes inv: "sched_inv F s0" and t: "live F s0 t" "t_state (task s0 t) = old" "t_prio (task s0 t) = p"
    and s: "same_but t s0 s" and old: "transition old new"
  shows "\<exists>s'. leave_op old t s = Some s' \<and> transit_inv t (abs_leave old t p F) s' \<and> list_frame s s'"
proof (cases old)
  case PROCESS_STATE_PREPARE
  with leave_PREPARE [OF inv t(1) _ t(3) s] t(2) show ?thesis
    by (auto intro: list_frame_prio)
qed (use old t leave_RUNNING [OF inv t(1) _ s] leave_SLEEP [OF inv t(1) _ s] in \<open>auto simp: transition_def\<close>)

lemma enter_any:
  assumes inv: "transit_inv t F s" and t: "t_state (task s t) = new" "t_prio (task s t) = p"
    and new: "transition old new"
  shows "\<exists>s'. enter_op new t s = Some s' \<and> sched_inv (abs_enter new t p F) s' \<and> list_frame s s'"
proof (cases new)
  case PROCESS_STATE_PREPARE
  with enter_PREPARE [OF inv _ t(2)] t(1) show ?thesis by (auto intro: list_frame_prio)
qed (use new t enter_RUNNING [OF inv] enter_named [OF inv, of SN_sleep] enter_named [OF inv, of SN_idle]
  in \<open>auto simp: transition_def\<close>)

text \<open>What \<^verbatim>\<open>set_task_state\<close> leaves unchanged.\<close>

definition state_frame :: "u32 \<Rightarrow> state_t \<Rightarrow> kstate \<Rightarrow> kstate \<Rightarrow> bool" where
  "state_frame t new s s' \<longleftrightarrow>
     s' = s\<lparr>lists := lists s', os_sched_count := os_sched_count s',
            sched_list_count := sched_list_count s',
            task := (task s)(t := (task s t)\<lparr>t_state := new\<rparr>)\<rparr>"

lemma state_frame_critical:
  assumes "list_frame (upd_task t (\<lambda>ts. ts\<lparr>t_state := new\<rparr>) (snd (enter_critical s))) s'"
  shows "state_frame t new s (exit_critical (fst (enter_critical s)) s')"
  using assms
  by (cases s; cases s')
    (simp add: list_frame_def state_frame_def critical_defs upd_task_def msr_cpsr_c_restore)

lemma same_but_critical:
  "same_but t s (upd_task t (\<lambda>ts. ts\<lparr>t_state := new\<rparr>) (snd (enter_critical s)))"
  by (simp add: same_but_def critical_defs)

lemma exit_critical_inv [simp]: "sched_inv F (exit_critical c s) \<longleftrightarrow> sched_inv F s"
proof -
  have "base_inv F (exit_critical c s) \<longleftrightarrow> base_inv F s"
    by (rule base_inv_cong) (simp_all add: critical_defs)
  moreover have "sem_inv {} F (exit_critical c s) \<longleftrightarrow> sem_inv {} F s"
    by (rule sem_inv_cong) (simp_all add: critical_defs)
  ultimately show ?thesis by (simp add: sched_inv_def)
qed

lemma set_task_state_refines:
  assumes inv: "sched_inv F s" and t: "live F s t" and tr: "transition (t_state (task s t)) new"
  shows "\<exists>s'. set_task_state t new s = Some s' \<and>
    sched_inv (abs_set_state (t_state (task s t)) new t (t_prio (task s t)) F) s' \<and>
    state_frame t new s s'"
proof -
  let ?old = "t_state (task s t)" and ?p = "t_prio (task s t)"
  let ?s1 = "upd_task t (\<lambda>ts. ts\<lparr>t_state := new\<rparr>) (snd (enter_critical s))"
  have task1: "task ?s1 t = (task s t)\<lparr>t_state := new\<rparr>" by (simp add: critical_defs)
  obtain s2 where s2: "leave_op ?old t ?s1 = Some s2" "transit_inv t (abs_leave ?old t ?p F) s2"
    "list_frame ?s1 s2"
    using leave_any [OF inv t refl refl same_but_critical tr] by blast
  have task2: "task s2 t = (task s t)\<lparr>t_state := new\<rparr>"
    using list_frame_task [OF s2(3)] task1 by simp
  obtain s3 where s3: "enter_op new t s2 = Some s3"
    "sched_inv (abs_set_state ?old new t ?p F) s3" "list_frame s2 s3"
    using enter_any [OF s2(2) _ _ tr] task2 by (auto simp: abs_set_state_def)
  have "set_task_state t new s = Some (exit_critical (fst (enter_critical s)) s3)"
    using apply_transition [OF tr, of t ?s1] s2(1) s3(1)
    by (simp add: set_task_state_def get_task_state_def split_beta Let_def)
  moreover have "state_frame t new s (exit_critical (fst (enter_critical s)) s3)"
    by (rule state_frame_critical [OF list_frame_trans [OF s2(3) s3(3)]])
  ultimately show ?thesis using s3(2) by simp
qed

lemma set_task_state_ignored:
  "get_state_change (t_state (task s t)) new = STATE_NONE_TO_NONE \<Longrightarrow> set_task_state t new s = Some s"
  by (simp add: set_task_state_def get_task_state_def)

end
