(* ===== verification/SchedRun.thy ===== *)
theory SchedRun
  imports SchedInv
begin

text \<open>
  Consequences of the invariant for the running scheduler: new tasks, the choice of the next task
  (highest priority first, first-in first-out within a priority), the switch, the timer tick,
  suspension and wake up, and the invariant of every state the scheduler can reach.
\<close>

section \<open>Updates the invariant does not see\<close>

lemma sched_inv_cong:
  assumes "lists s' = lists s" "os_sched_count s' = os_sched_count s"
    "sched_list_count s' = sched_list_count s" "idle s' = idle s"
    "\<And>u. t_state (task s' u) = t_state (task s u)" "\<And>u. t_prio (task s' u) = t_prio (task s u)"
  shows "sched_inv F s' \<longleftrightarrow> sched_inv F s"
  using base_inv_cong [of s' s F] sem_inv_cong [of "{}" s' s F] assms by (simp add: sched_inv_def)

lemma sched_inv_upd_task:
  "t_state (f (task s t)) = t_state (task s t) \<Longrightarrow> t_prio (f (task s t)) = t_prio (task s t) \<Longrightarrow>
   sched_inv F (upd_task t f s) \<longleftrightarrow> sched_inv F s"
  by (rule sched_inv_cong) auto

lemma sched_inv_fields [simp]:
  "sched_inv F (s\<lparr>current := x\<rparr>) \<longleftrightarrow> sched_inv F s" "sched_inv F (s\<lparr>next_run := x\<rparr>) \<longleftrightarrow> sched_inv F s"
  "sched_inv F (s\<lparr>cpsr := y\<rparr>) \<longleftrightarrow> sched_inv F s" "sched_inv F (s\<lparr>mutex_count := z\<rparr>) \<longleftrightarrow> sched_inv F s"
  "sched_inv F (s\<lparr>in_interrupt := b\<rparr>) \<longleftrightarrow> sched_inv F s"
  "sched_inv F (snd (enter_critical s)) \<longleftrightarrow> sched_inv F s"
  by (rule sched_inv_cong; simp add: critical_defs)+

lemma sched_inv_run_time [simp]: "sched_inv F (get_task_run_time t s) \<longleftrightarrow> sched_inv F s"
  by (simp add: get_task_run_time_def sched_inv_upd_task)

lemma live_cong: "idle s' = idle s \<Longrightarrow> live F s' t \<longleftrightarrow> live F s t"
  by (simp add: live_def)

lemma state_frame_sel:
  assumes "state_frame t new s s'"
  shows "task s' = (task s)(t := (task s t)\<lparr>t_state := new\<rparr>)" "current s' = current s"
    "idle s' = idle s" "next_run s' = next_run s" "schedule_running s' = schedule_running s"
    "in_interrupt s' = in_interrupt s" "cpsr s' = cpsr s" "mutex_count s' = mutex_count s"
    "pid_addr s' = pid_addr s" "pid_nr s' = pid_nr s" "pid_nr_free s' = pid_nr_free s"
    "pid_current s' = pid_current s"
  using assms by (cases s; cases s'; simp add: state_frame_def)+

lemma state_frame_id: "t_state (task s t) = new \<Longrightarrow> state_frame t new s s"
  by (cases s; cases "task s t") (auto simp: state_frame_def fun_eq_iff)

lemma live_set_state:
  "live (abs_set_state old new t p F) s u \<longleftrightarrow> live F s u"
  by (cases old; cases new) (auto simp: abs_set_state_def)

section \<open>A new task\<close>

definition abs_new :: "u32 \<Rightarrow> int \<Rightarrow> node lists \<Rightarrow> node lists" where
  "abs_new t p F = q_add (N_prio_running t) (OsSched p) (q_add (N_system t) TaskSystem F)"

lemma register_task:
  assumes inv: "sched_inv F s0" and t: "\<not> live F s0 t" "t \<noteq> NULL" "prio_ok (t_prio (task s0 t))"
    and s: "same_but t s0 s"
  shows "transit_inv t (q_add (N_system t) TaskSystem F) (sched_list_add_task_tail SN_system t s)"
proof -
  have base0: "base_inv F s0" and sem: "sem_inv {} F s0" using inv by (auto simp: sched_inv_def)
  have base: "base_inv F s" using s base0 by (rule same_but_base)
  obtain xs where xs: "F TaskSystem = Some xs" using base_inv_name [OF base, of SN_system] by auto
  let ?F = "q_add (N_system t) TaskSystem F"
  have "\<not> on F TaskSystem (N_system t)" using t(1) by (simp add: live_def)
  with base xs have "base_inv ?F (sched_list_add_task_tail SN_system t s)"
    using add_task_tail_base [of F s SN_system xs t] by (simp add: q_add_eq)
  moreover have on: "on ?F q m \<longleftrightarrow> q = TaskSystem \<and> m = N_system t \<or> on F q m" for q m
    using xs by (simp add: on_q_add)
  then have live: "live ?F s0 u \<longleftrightarrow> u = t \<or> live F s0 u" for u by (auto simp: live_def)
  have "sem_inv {t} ?F s0"
    using sem t unfolding sem_inv_def live on by (auto simp: live_def)
  then have "sem_inv {t} ?F s" by (rule same_but_sem [OF s])
  then have "sem_inv {t} ?F (sched_list_add_task_tail SN_system t s)"
    by (subst sem_inv_cong) (simp_all add: sched_list_add_task_tail_def)
  moreover have "live ?F (sched_list_add_task_tail SN_system t s) t"
    using on by (simp add: live_def)
  ultimately show ?thesis by (simp add: transit_inv_def)
qed

lemma set_task_state_new:
  assumes inv: "sched_inv F s" and t: "\<not> live F s t" "t \<noteq> NULL" "prio_ok (t_prio (task s t))"
    and st: "t_state (task s t) = PROCESS_STATE_UNKNOWN"
  shows "\<exists>s'. set_task_state t PROCESS_STATE_PREPARE s = Some s' \<and>
    sched_inv (abs_new t (t_prio (task s t)) F) s' \<and> state_frame t PROCESS_STATE_PREPARE s s'"
proof -
  let ?s1 = "upd_task t (\<lambda>ts. ts\<lparr>t_state := PROCESS_STATE_PREPARE\<rparr>) (snd (enter_critical s))"
  let ?s2 = "sched_list_add_task_tail SN_system t ?s1"
  have tr: "transit_inv t (q_add (N_system t) TaskSystem F) ?s2"
    by (rule register_task [OF inv t same_but_critical])
  have "task ?s2 t = (task s t)\<lparr>t_state := PROCESS_STATE_PREPARE\<rparr>"
    by (simp add: sched_list_add_task_tail_def critical_defs)
  with enter_PREPARE [OF tr] obtain s3 where s3: "prio_list_add_task_tail t ?s2 = Some s3"
    "sched_inv (abs_new t (t_prio (task s t)) F) s3" "list_frame ?s2 s3"
    by (auto simp: abs_new_def dest: list_frame_prio)
  have "set_task_state t PROCESS_STATE_PREPARE s = Some (exit_critical (fst (enter_critical s)) s3)"
    using s3(1) st
    by (simp add: set_task_state_def get_task_state_def get_state_change_eq split_beta Let_def)
  moreover have "state_frame t PROCESS_STATE_PREPARE s (exit_critical (fst (enter_critical s)) s3)"
    by (rule state_frame_critical [OF list_frame_trans [OF list_frame_named(1) s3(3)]])
  ultimately show ?thesis using s3(2) by simp
qed

section \<open>The next task\<close>

lemma first_ready_prio_spec:
  "i \<le> MAX_PRIO - 1 \<Longrightarrow>
   i \<le> first_ready_prio i s \<and> first_ready_prio i s \<le> MAX_PRIO - 1 \<and>
   (\<forall>j. i \<le> j \<longrightarrow> j < first_ready_prio i s \<longrightarrow> os_sched_count s j = 0) \<and>
   (first_ready_prio i s < MAX_PRIO - 1 \<longrightarrow> os_sched_count s (first_ready_prio i s) \<noteq> 0)"
proof (induction i s rule: first_ready_prio.induct)
  case (1 i s)
  note unf = first_ready_prio.simps [of i s]
  show ?case
  proof (cases "i < MAX_PRIO - 1 \<and> os_sched_count s i = 0")
    case True
    then have eq: "first_ready_prio i s = first_ready_prio (i + 1) s" using unf by simp
    have "\<forall>j. i \<le> j \<longrightarrow> j < first_ready_prio i s \<longrightarrow> os_sched_count s j = 0"
      using True "1.IH" eq by (metis add1_zle_eq antisym_conv1 zle_add1_eq_le linorder_not_less)
    with True "1.IH" eq show ?thesis by auto
  next
    case False
    with "1.prems" unf show ?thesis by auto
  qed
qed

lemma queue_length:
  assumes "sched_inv F s" and "F (OsSched i) = Some xs"
  shows "length xs < 2 ^ 32"
proof -
  have base: "base_inv F s" and sem: "sem_inv {} F s" using assms(1) by (auto simp: sched_inv_def)
  have "set xs \<subseteq> N_prio_running ` (UNIV - {0})"
  proof
    fix n assume n: "n \<in> set xs"
    then have on: "on F (OsSched i) n" using assms(2) by (auto simp: on_def)
    then obtain t where t: "n = N_prio_running t" using base_inv_on [OF base on] by auto
    with on sem have "t \<noteq> 0" by (auto simp: sem_inv_def)
    with t show "n \<in> N_prio_running ` (UNIV - {0})" by auto
  qed
  then have "card (set xs) \<le> card (N_prio_running ` (UNIV - {0 :: u32}))"
    by (intro card_mono finite_imageI) simp_all
  also have "\<dots> \<le> card (UNIV - {0 :: u32})" by (rule card_image_le) simp
  also have "\<dots> < 2 ^ 32" by (simp add: card_word)
  finally show ?thesis
    using os_list.rel_distinct [OF base_inv_rel [OF base] assms(2)] by (simp add: distinct_card)
qed

lemma ready_count:
  assumes "sched_inv F s" and "F (OsSched i) = Some xs"
  shows "os_sched_count s i = 0 \<longleftrightarrow> xs = []"
proof -
  have "os_sched_count s i = of_nat (length xs)"
    using assms by (simp add: sched_inv_def base_inv_def)
  moreover have "unat (of_nat (length xs) :: u32) = length xs"
    using queue_length [OF assms] by (simp add: unat_of_nat_u32)
  ultimately have "unat (os_sched_count s i) = length xs" by simp
  moreover have "os_sched_count s i = 0 \<longleftrightarrow> unat (os_sched_count s i) = 0"
    by (simp add: unat_eq_0)
  ultimately show ?thesis by simp
qed

definition nothing_ready :: "node lists \<Rightarrow> bool" where
  "nothing_ready F \<longleftrightarrow> (\<forall>i. 0 \<le> i \<longrightarrow> i < MAX_PRIO - 1 \<longrightarrow> F (OsSched i) = Some [])"

definition first_ready :: "node lists \<Rightarrow> u32 \<Rightarrow> int \<Rightarrow> bool" where
  "first_ready F t p \<longleftrightarrow> 0 \<le> p \<and> p < MAX_PRIO - 1 \<and>
     (\<exists>xs. F (OsSched p) = Some (N_prio_running t # xs)) \<and>
     (\<forall>j. 0 \<le> j \<longrightarrow> j < p \<longrightarrow> F (OsSched j) = Some [])"

lemma empty_below:
  assumes inv: "sched_inv F s" and "\<forall>j. 0 \<le> j \<longrightarrow> j < n \<longrightarrow> os_sched_count s j = 0" and "n \<le> MAX_PRIO"
    and "0 \<le> i" and "i < n"
  shows "F (OsSched i) = Some []"
proof -
  have "prio_ok i" using assms(3-5) by (simp add: prio_ok_def)
  then obtain xs where xs: "F (OsSched i) = Some xs"
    using inv base_inv_prio unfolding sched_inv_def by blast
  with ready_count [OF inv xs] assms(2,4,5) show ?thesis by simp
qed

lemma find_next_run_task_spec:
  assumes inv: "sched_inv F s"
  shows "(nothing_ready F \<and> find_next_run_task s = Some (current s)) \<or>
    (\<exists>t p. first_ready F t p \<and> find_next_run_task s = Some t \<and> live F s t \<and>
       t_state (task s t) = PROCESS_STATE_PREPARE \<and> t_prio (task s t) = p)"
proof -
  define i where "i = first_ready_prio 0 s"
  have i: "0 \<le> i" "i \<le> MAX_PRIO - 1" and below: "\<forall>j. 0 \<le> j \<longrightarrow> j < i \<longrightarrow> os_sched_count s j = 0"
    and at: "i < MAX_PRIO - 1 \<longrightarrow> os_sched_count s i \<noteq> 0"
    using first_ready_prio_spec [of 0 s] by (auto simp: i_def)
  show ?thesis
  proof (cases "i = MAX_PRIO - 1")
    case True
    have "nothing_ready F"
      unfolding nothing_ready_def using empty_below [OF inv below] i True by auto
    with True show ?thesis by (simp add: find_next_run_task_def i_def [symmetric])
  next
    case False
    with i have lt: "i < MAX_PRIO - 1" by simp
    have "prio_ok i" using i lt by (simp add: prio_ok_def)
    then obtain xs where xs: "F (OsSched i) = Some xs"
      using inv base_inv_prio unfolding sched_inv_def by blast
    with at lt ready_count [OF inv xs] obtain n ns where ns: "xs = n # ns" by (cases xs) auto
    have on: "on F (OsSched i) n" using xs ns by (simp add: on_def)
    have base: "base_inv F s" and sem: "sem_inv {} F s" using inv by (auto simp: sched_inv_def)
    obtain t where t: "n = N_prio_running t" using base_inv_on [OF base on] by auto
    have "find_next_run_task s = Some t"
      using False os_list.rel_first [OF base_inv_rel [OF base]] xs ns t
      by (simp add: find_next_run_task_def i_def [symmetric])
    moreover have "first_ready F t i"
      unfolding first_ready_def using i lt xs ns t empty_below [OF inv below] by auto
    moreover have "live F s t \<and> t_state (task s t) = PROCESS_STATE_PREPARE \<and> t_prio (task s t) = i"
      using sem on t by (auto simp: sem_inv_def)
    ultimately show ?thesis by blast
  qed
qed

section \<open>Switching\<close>

text \<open>What the scheduler operations leave unchanged.\<close>

definition sched_frame :: "kstate \<Rightarrow> kstate \<Rightarrow> bool" where
  "sched_frame s s' \<longleftrightarrow> s' = s\<lparr>lists := lists s', os_sched_count := os_sched_count s',
     sched_list_count := sched_list_count s', task := task s'\<rparr>"

lemma sched_frame_refl [simp]: "sched_frame s s"
  by (simp add: sched_frame_def)

lemma sched_frame_trans: "sched_frame s s' \<Longrightarrow> sched_frame s' s'' \<Longrightarrow> sched_frame s s''"
  by (cases s; cases s'; cases s'') (simp add: sched_frame_def)

lemma state_frame_sched: "state_frame t new s s' \<Longrightarrow> sched_frame s s'"
  by (cases s; cases s') (simp add: sched_frame_def state_frame_def)

lemma upd_task_sched [simp]: "sched_frame s (upd_task t f s)" "sched_frame s (get_task_run_time t s)"
  by (simp_all add: sched_frame_def upd_task_def get_task_run_time_def)

lemma sched_frame_upd [simp]:
  "sched_frame s (upd_task t f s') \<longleftrightarrow> sched_frame s s'"
  "sched_frame s (get_task_run_time t s') \<longleftrightarrow> sched_frame s s'"
  by (cases s; cases s'; simp add: sched_frame_def upd_task_def get_task_run_time_def)+

lemma sched_frame_sel:
  assumes "sched_frame s s'"
  shows "current s' = current s" "idle s' = idle s" "next_run s' = next_run s"
    "schedule_running s' = schedule_running s" "in_interrupt s' = in_interrupt s"
    "cpsr s' = cpsr s" "mutex_count s' = mutex_count s" "pid_addr s' = pid_addr s"
    "pid_nr s' = pid_nr s" "pid_nr_free s' = pid_nr_free s" "pid_current s' = pid_current s"
  using assms by (cases s; cases s'; simp add: sched_frame_def)+

definition abs_switch :: "kstate \<Rightarrow> u32 \<Rightarrow> node lists \<Rightarrow> node lists" where
  "abs_switch s t F =
     abs_set_state PROCESS_STATE_PREPARE PROCESS_STATE_RUNNING t (t_prio (task s t))
       (if t_state (task s (current s)) = PROCESS_STATE_RUNNING
        then abs_set_state PROCESS_STATE_RUNNING PROCESS_STATE_PREPARE (current s)
          (t_prio (task s (current s))) F
        else F)"

definition switch_states :: "kstate \<Rightarrow> u32 \<Rightarrow> kstate \<Rightarrow> bool" where
  "switch_states s t s' \<longleftrightarrow>
     (\<forall>u. t_state (task s' u) =
        (if u = t then PROCESS_STATE_RUNNING
         else if u = current s \<and> t_state (task s u) = PROCESS_STATE_RUNNING then PROCESS_STATE_PREPARE
         else t_state (task s u)) \<and> t_prio (task s' u) = t_prio (task s u) \<and>
        (u \<noteq> t \<longrightarrow> wait_time (task s' u) = wait_time (task s u)))"

lemma preempt_current:
  assumes inv: "sched_inv F s" and c: "live F s (current s)"
  shows "\<exists>s1. (if get_task_state (current s) s = PROCESS_STATE_RUNNING
             then set_task_state (current s) PROCESS_STATE_PREPARE s else Some s) = Some s1 \<and>
    sched_inv (if t_state (task s (current s)) = PROCESS_STATE_RUNNING
       then abs_set_state PROCESS_STATE_RUNNING PROCESS_STATE_PREPARE (current s)
         (t_prio (task s (current s))) F else F) s1 \<and>
    sched_frame s s1 \<and>
    (\<forall>u. task s1 u = (if u = current s \<and> t_state (task s u) = PROCESS_STATE_RUNNING
       then (task s u)\<lparr>t_state := PROCESS_STATE_PREPARE\<rparr> else task s u))"
proof (cases "t_state (task s (current s)) = PROCESS_STATE_RUNNING")
  case True
  with set_task_state_refines [OF inv c, of PROCESS_STATE_PREPARE] obtain s1
    where s1: "set_task_state (current s) PROCESS_STATE_PREPARE s = Some s1"
      "sched_inv (abs_set_state PROCESS_STATE_RUNNING PROCESS_STATE_PREPARE (current s)
         (t_prio (task s (current s))) F) s1"
      "state_frame (current s) PROCESS_STATE_PREPARE s s1"
    by (auto simp: transition_def)
  then show ?thesis
    using True state_frame_sched [OF s1(3)] state_frame_sel(1) [OF s1(3)] by (auto simp: get_task_state_def)
next
  case False
  then show ?thesis using inv by (auto simp: get_task_state_def)
qed

lemma prepare_to_switch_other:
  assumes inv: "sched_inv F s" and c: "live F s (current s)"
    and t: "t \<noteq> current s" "live F s t" "t_state (task s t) = PROCESS_STATE_PREPARE"
  shows "\<exists>s'. prepare_to_switch t s = Some s' \<and> sched_inv (abs_switch s t F) s' \<and>
    sched_frame s s' \<and> switch_states s t s'"
proof -
  have cn: "current s \<noteq> NULL" using inv c by (auto simp: sched_inv_def sem_inv_def)
  let ?F1 = "if t_state (task s (current s)) = PROCESS_STATE_RUNNING
        then abs_set_state PROCESS_STATE_RUNNING PROCESS_STATE_PREPARE (current s)
          (t_prio (task s (current s))) F else F"
  obtain s1 where s1: "(if get_task_state (current s) s = PROCESS_STATE_RUNNING
             then set_task_state (current s) PROCESS_STATE_PREPARE s else Some s) = Some s1"
    "sched_inv ?F1 s1" "sched_frame s s1"
    "\<And>u. task s1 u = (if u = current s \<and> t_state (task s u) = PROCESS_STATE_RUNNING
       then (task s u)\<lparr>t_state := PROCESS_STATE_PREPARE\<rparr> else task s u)"
    using preempt_current [OF inv c] by blast
  define s2 where "s2 = upd_task t (\<lambda>ts. ts\<lparr>wait_time := -1\<rparr>)
    (if wait_time (task s1 t) = 0 then upd_task t (\<lambda>ts. ts\<lparr>time_out := 1\<rparr>) s1 else s1)"
  have inv2: "sched_inv ?F1 s2"
    unfolding s2_def using s1(2) by (auto simp: sched_inv_upd_task)
  have frame2: "sched_frame s s2"
    unfolding s2_def using s1(3) by simp
  have st2: "t_state (task s2 u) = t_state (task s1 u)" "t_prio (task s2 u) = t_prio (task s1 u)" for u
    unfolding s2_def by auto
  have w2: "wait_time (task s2 u) = wait_time (task s1 u)" if "u \<noteq> t" for u
    using that unfolding s2_def by auto
  have t2: "t_state (task s2 t) = PROCESS_STATE_PREPARE" "t_prio (task s2 t) = t_prio (task s t)"
    using st2 [of t] s1(4) [of t] t by auto
  have live2: "live ?F1 s2 t"
    using t(2) sched_frame_sel(2) [OF frame2] by (auto simp: live_set_state live_def)
      (auto simp: live_def [symmetric] abs_set_state_def)
  obtain s3 where s3: "set_task_state t PROCESS_STATE_RUNNING s2 = Some s3"
    "sched_inv (abs_switch s t F) s3" "state_frame t PROCESS_STATE_RUNNING s2 s3"
    using set_task_state_refines [OF inv2 live2, of PROCESS_STATE_RUNNING] t2
    by (auto simp: transition_def abs_switch_def)
  let ?s' = "get_task_run_time t (upd_task t (\<lambda>ts. ts\<lparr>run_count := run_count ts + 1\<rparr>) s3)"
  have "prepare_to_switch t s = Some ?s'"
    using cn t(1) s1(1) s3(1) by (simp add: prepare_to_switch_def s2_def Let_def)
  moreover have "sched_inv (abs_switch s t F) ?s'" using s3(2) by (simp add: sched_inv_upd_task)
  moreover have "sched_frame s ?s'"
    using sched_frame_trans [OF frame2 state_frame_sched [OF s3(3)]] by simp
  moreover have "switch_states s t ?s'"
    unfolding switch_states_def
    using st2 w2 s1(4) t state_frame_sel(1) [OF s3(3)] by (auto simp: get_task_run_time_def)
  ultimately show ?thesis by blast
qed

lemma prepare_to_switch_same:
  assumes "current s \<noteq> NULL"
  shows "prepare_to_switch (current s) s =
    Some (get_task_run_time (current s) (upd_task (current s) (\<lambda>ts. ts\<lparr>run_count := run_count ts + 1\<rparr>) s))"
  using assms by (simp add: prepare_to_switch_def Let_def)

section \<open>Rescheduling\<close>

text \<open>The current task is live, and it is the only one that can be in the running state.\<close>

definition cur_inv :: "node lists \<Rightarrow> kstate \<Rightarrow> bool" where
  "cur_inv F s \<longleftrightarrow> live F s (current s) \<and>
     (\<forall>t. live F s t \<longrightarrow> t_state (task s t) = PROCESS_STATE_RUNNING \<longrightarrow> t = current s)"

definition kinv :: "node lists \<Rightarrow> kstate \<Rightarrow> bool" where
  "kinv F s \<longleftrightarrow> sched_inv F s \<and> cur_inv F s"

declare kinv_def [kinv_defs] sched_inv_def [kinv_defs]

lemma kinv_cong:
  assumes "lists s' = lists s" "os_sched_count s' = os_sched_count s"
    "sched_list_count s' = sched_list_count s" "idle s' = idle s" "current s' = current s"
    "\<And>u. t_state (task s' u) = t_state (task s u)" "\<And>u. t_prio (task s' u) = t_prio (task s u)"
  shows "kinv F s' \<longleftrightarrow> kinv F s"
  using assms sched_inv_cong [of s' s F] by (simp add: kinv_def cur_inv_def live_def)

text \<open>The outcome of choosing \<open>n\<close>: either the current task goes on, or the first task of the
  highest non-empty priority takes over.\<close>

definition resched :: "node lists \<Rightarrow> kstate \<Rightarrow> u32 \<Rightarrow> node lists \<Rightarrow> kstate \<Rightarrow> bool" where
  "resched F s n F' s' \<longleftrightarrow>
     (n = current s \<and> F' = F \<and> (\<forall>u. t_state (task s' u) = t_state (task s u) \<and>
          t_prio (task s' u) = t_prio (task s u) \<and> wait_time (task s' u) = wait_time (task s u)) \<and>
        (nothing_ready F \<or> first_ready F n (t_prio (task s n)))) \<or>
     (n \<noteq> current s \<and> F' = abs_switch s n F \<and> switch_states s n s' \<and>
        first_ready F n (t_prio (task s n)))"

lemma live_abs_switch [simp]: "live (abs_switch s t F) s' u \<longleftrightarrow> live F s' u"
  by (simp add: abs_switch_def live_set_state)

lemma switch_states_next_run [simp]: "switch_states (s\<lparr>next_run := n\<rparr>) t s' \<longleftrightarrow> switch_states s t s'"
  by (simp add: switch_states_def cong: if_cong)

lemma switch_states_sel:
  "switch_states s t s' \<Longrightarrow> t_state (task s' u) =
        (if u = t then PROCESS_STATE_RUNNING
         else if u = current s \<and> t_state (task s u) = PROCESS_STATE_RUNNING then PROCESS_STATE_PREPARE
         else t_state (task s u))"
  "switch_states s t s' \<Longrightarrow> t_prio (task s' u) = t_prio (task s u)"
  "switch_states s t s' \<Longrightarrow> u \<noteq> t \<Longrightarrow> wait_time (task s' u) = wait_time (task s u)"
  unfolding switch_states_def by blast+

lemma resched_cong:
  "task s2 = task s \<Longrightarrow> current s2 = current s \<Longrightarrow> task s2' = task s' \<Longrightarrow>
   resched F s2 n F' s2' \<longleftrightarrow> resched F s n F' s'"
  unfolding resched_def switch_states_def abs_switch_def by (simp only:)

lemma reschedule:
  assumes k: "kinv F s"
  shows "\<exists>n s' F'. find_next_run_task s = Some n \<and> prepare_to_switch n (s\<lparr>next_run := n\<rparr>) = Some s' \<and>
    kinv F' (s'\<lparr>current := n\<rparr>) \<and> sched_frame (s\<lparr>next_run := n\<rparr>) s' \<and> resched F s n F' s'"
proof -
  have inv: "sched_inv F s" and cur: "cur_inv F s" using k by (auto simp: kinv_def)
  have cl: "live F s (current s)" and cn: "current s \<noteq> NULL"
    using cur inv by (auto simp: cur_inv_def sched_inv_def sem_inv_def)
  have same: ?thesis
    if n: "find_next_run_task s = Some (current s)"
      and r: "nothing_ready F \<or> first_ready F (current s) (t_prio (task s (current s)))"
  proof -
    let ?s = "s\<lparr>next_run := current s\<rparr>"
    let ?s' = "get_task_run_time (current s) (upd_task (current s) (\<lambda>ts. ts\<lparr>run_count := run_count ts + 1\<rparr>) ?s)"
    have "prepare_to_switch (current s) ?s = Some ?s'"
      using prepare_to_switch_same [of ?s] cn by simp
    moreover have "kinv F (?s'\<lparr>current := current s\<rparr>)"
      using k by (subst kinv_cong [of _ s]) (simp_all add: get_task_run_time_def)
    moreover have "resched F s (current s) F ?s'"
      unfolding resched_def using r by (simp add: get_task_run_time_def)
    ultimately show ?thesis using n
      by (intro exI [of _ "current s"] exI [of _ ?s'] exI [of _ F]) simp
  qed
  from find_next_run_task_spec [OF inv] show ?thesis
  proof (elim disjE exE conjE)
    assume "nothing_ready F" and "find_next_run_task s = Some (current s)"
    then show ?thesis by (intro same) auto
  next
    fix t p
    assume t: "first_ready F t p" "find_next_run_task s = Some t" "live F s t"
      "t_state (task s t) = PROCESS_STATE_PREPARE" "t_prio (task s t) = p"
    show ?thesis
    proof (cases "t = current s")
      case True
      with t show ?thesis by (intro same) auto
    next
      case False
      let ?s = "s\<lparr>next_run := t\<rparr>"
      have live: "live F ?s u \<longleftrightarrow> live F s u" for u by (simp add: live_def)
      have sw: "abs_switch ?s t F = abs_switch s t F" by (simp add: abs_switch_def)
      obtain s' where s': "prepare_to_switch t ?s = Some s'" "sched_inv (abs_switch s t F) s'"
        "sched_frame ?s s'" "switch_states s t s'"
        using prepare_to_switch_other [of F ?s t] inv cl t False by (auto simp: live sw)
      have "live F (s'\<lparr>current := t\<rparr>) u \<longleftrightarrow> live F s u" for u
        using sched_frame_sel(2) [OF s'(3)] by (simp add: live_def)
      moreover have "u = t" if u: "live F s u" "t_state (task s' u) = PROCESS_STATE_RUNNING" for u
      proof (rule ccontr)
        assume "u \<noteq> t"
        with u(2) switch_states_sel(1) [OF s'(4), of u]
        have "t_state (task s u) = PROCESS_STATE_RUNNING" and "u \<noteq> current s"
          by (auto split: if_splits)
        with cur u(1) show False unfolding cur_inv_def by blast
      qed
      ultimately have "kinv (abs_switch s t F) (s'\<lparr>current := t\<rparr>)"
        using s'(2) t(3) unfolding kinv_def cur_inv_def by simp
      moreover have "resched F s t (abs_switch s t F) s'"
        unfolding resched_def using False s'(4) t(1,5) by simp
      ultimately show ?thesis using t(2) s'
        by (intro exI [of _ t] exI [of _ s'] exI [of _ "abs_switch s t F"]) simp
    qed
  qed
qed

lemma sched_spec:
  assumes k: "kinv F s" and run: "\<not> in_interrupt s" "schedule_running s"
  shows "\<exists>n s' F'. sched s = Some s' \<and> kinv F' s' \<and> current s' = n \<and> next_run s' = n \<and>
    cpsr s' = cpsr s \<and> idle s' = idle s \<and> in_interrupt s' = in_interrupt s \<and>
    schedule_running s' = schedule_running s \<and> mutex_count s' = mutex_count s \<and> resched F s n F' s'"
proof -
  let ?c = "snd (enter_critical s)"
  have kc: "kinv F ?c" using k by (simp add: kinv_def cur_inv_def live_def critical_defs)
  obtain n s1 F' where s1: "find_next_run_task ?c = Some n"
    "prepare_to_switch n (?c\<lparr>next_run := n\<rparr>) = Some s1" "kinv F' (s1\<lparr>current := n\<rparr>)"
    "sched_frame (?c\<lparr>next_run := n\<rparr>) s1" "resched F ?c n F' s1"
    using reschedule [OF kc] by blast
  note f = sched_frame_sel [OF s1(4)]
  let ?s' = "exit_critical (fst (enter_critical s)) (arch_switch_task_sw s1)"
  have "sched s = Some ?s'"
    using run s1(1,2) by (simp add: sched_def split_beta Let_def)
  moreover have "arch_switch_task_sw s1 = s1\<lparr>current := n\<rparr>"
    using f(3) by (simp add: arch_switch_task_sw_def)
  moreover have "kinv F' ?s'"
    using s1(3) calculation(2) by (simp add: kinv_def cur_inv_def live_def)
  moreover have "resched F s n F' ?s'"
    using s1(5) resched_cong [of s ?c ?s' s1 F n F'] by (simp add: arch_switch_task_sw_def critical_defs)
  ultimately show ?thesis
    using f by (intro exI [of _ n] exI [of _ ?s'] exI [of _ F'])
      (simp add: arch_switch_task_sw_def critical_defs msr_cpsr_c_restore)
qed

end
