(* ===== verification/SchedTick.thy ===== *)
theory SchedTick
  imports SchedRun
begin

text \<open>
  The timer tick (\<^verbatim>\<open>os_tick_handler\<close>), suspension, wake up and priority changes
  (\<^verbatim>\<open>kernel/sched.c\<close>) against the invariant of the scheduler, and the invariant of every
  state the scheduler reaches.
\<close>

section \<open>The sleep list\<close>

text \<open>One tick for a sleeping task: it counts down, and is ready when it reaches zero.\<close>

definition expires :: "task_struct \<Rightarrow> bool" where
  "expires ts \<longleftrightarrow> wait_time ts = 0 \<or> wait_time ts = 1"

definition tick_task :: "task_struct \<Rightarrow> task_struct" where
  "tick_task ts =
     ts\<lparr>wait_time := (if wait_time ts > 0 then wait_time ts - 1 else wait_time ts),
        t_state := (if expires ts then PROCESS_STATE_PREPARE else t_state ts)\<rparr>"

definition abs_wake :: "(u32 \<Rightarrow> task_struct) \<Rightarrow> u32 \<Rightarrow> node lists \<Rightarrow> node lists" where
  "abs_wake T t F =
     (if expires (T t)
      then abs_set_state PROCESS_STATE_SLEEP PROCESS_STATE_PREPARE t (t_prio (T t)) F else F)"

lemma wake_heap:
  assumes "set_task_state t PROCESS_STATE_PREPARE s = Some s'"
    and "t_state (task s t) = PROCESS_STATE_SLEEP" and "prio_ok (t_prio (task s t))"
  shows "lists s' = list_add_tail (OsSched (t_prio (task s t))) (N_prio_running t)
    (list_del (N_sleep t) (lists s))"
  using assms
  by (auto simp: set_task_state_def get_task_state_def get_state_change_eq prio_list_add_task_tail_def
      sched_list_del_task_def critical_defs Let_def)

lemma sleeper:
  assumes "sched_inv F s" and "F TaskSleep = Some xs" and "N_sleep t \<in> set xs"
  shows "live F s t" "t_state (task s t) = PROCESS_STATE_SLEEP" "prio_ok (t_prio (task s t))"
    "\<exists>ys. F (OsSched (t_prio (task s t))) = Some ys" "fresh F (N_prio_running t)"
proof -
  have base: "base_inv F s" and sem: "sem_inv {} F s" using assms(1) by (auto simp: sched_inv_def)
  have "on F TaskSleep (N_sleep t)" using assms(2,3) by (simp add: on_def)
  with sem show l: "live F s t" and st: "t_state (task s t) = PROCESS_STATE_SLEEP"
    by (auto simp: sem_inv_def)
  with sem show p: "prio_ok (t_prio (task s t))" by (auto simp: sem_inv_def)
  show "\<exists>ys. F (OsSched (t_prio (task s t))) = Some ys" using base_inv_prio [OF base p] by blast
  have "\<not> on F r (N_prio_running t)" if "home (N_prio_running t) r" for r
    using that sem st by (cases r) (auto simp: sem_inv_def)
  then show "fresh F (N_prio_running t)" by (intro base_inv_fresh [OF base]) auto
qed

text \<open>One turn of the loop.\<close>

lemma tick_turn:
  assumes inv: "sched_inv F s" and F: "F TaskSleep = Some (pre @ N_sleep t # rest)"
  shows "\<exists>s' pre'. tick_sleep_list (N_sleep t) s = tick_sleep_list (hd (rest @ [TaskSleep])) s' \<and>
    sched_inv (abs_wake (task s) t F) s' \<and> sched_frame s s' \<and>
    task s' = (task s)(t := tick_task (task s t)) \<and> abs_wake (task s) t F TaskSleep = Some (pre' @ rest)"
proof -
  note sl = sleeper [OF inv F, of t]
  have base: "base_inv F s" using inv by (simp add: sched_inv_def)
  have nxt: "lnext (lists s) (N_sleep t) = hd (rest @ [TaskSleep])"
    by (rule list_rel_next [OF base_inv_rel [OF base] F])
  define s1 where "s1 = (if wait_time (task s t) > 0
                 then upd_task t (\<lambda>ts. ts\<lparr>wait_time := wait_time ts - 1\<rparr>) s else s)"
  have inv1: "sched_inv F s1" and fr1: "sched_frame s s1" and l1: "lists s1 = lists s"
    and st1: "t_state (task s1 t) = PROCESS_STATE_SLEEP" "t_prio (task s1 t) = t_prio (task s t)"
    and t1: "task s1 = (task s)(t := (task s t)\<lparr>wait_time :=
      (if wait_time (task s t) > 0 then wait_time (task s t) - 1 else wait_time (task s t))\<rparr>)"
    using inv sl by (auto simp: s1_def sched_inv_upd_task)
  have unf: "tick_sleep_list (N_sleep t) s =
      do { s \<leftarrow> (if wait_time (task s1 t) = 0 then set_task_state t PROCESS_STATE_PREPARE s1 else Some s1);
           tick_sleep_list (lnext (lists s) (N_sleep t)) s }"
    by (subst tick_sleep_list.simps) (simp add: s1_def [symmetric])
  have ex: "expires (task s t) \<longleftrightarrow> wait_time (task s1 t) = 0" by (auto simp: t1 expires_def)
  show ?thesis
  proof (cases "expires (task s t)")
    case False
    then have "tick_sleep_list (N_sleep t) s = tick_sleep_list (hd (rest @ [TaskSleep])) s1"
      using unf ex nxt l1 by simp
    moreover have "task s1 = (task s)(t := tick_task (task s t))"
      using False by (simp add: t1 tick_task_def)
    ultimately show ?thesis
      using False inv1 fr1 F by (intro exI [of _ s1] exI [of _ "pre @ [N_sleep t]"]) (simp add: abs_wake_def)
  next
    case True
    obtain s2 where s2: "set_task_state t PROCESS_STATE_PREPARE s1 = Some s2"
      "sched_inv (abs_wake (task s) t F) s2" "state_frame t PROCESS_STATE_PREPARE s1 s2"
      using set_task_state_refines [OF inv1, of t PROCESS_STATE_PREPARE] st1 sl True
        live_cong [OF sched_frame_sel(2) [OF fr1]]
      by (auto simp: transition_def abs_wake_def)
    obtain ys where ys: "F (OsSched (t_prio (task s t))) = Some ys" using sl by auto
    have "lnext (lists s2) (N_sleep t) = lnext (lists s) (N_sleep t)"
      using wake_heap [OF s2(1)] st1 sl l1
        list_del_stale_next [OF base_inv_rel [OF base] F _ ys _ sl(5)] by simp
    then have "tick_sleep_list (N_sleep t) s = tick_sleep_list (hd (rest @ [TaskSleep])) s2"
      using unf True ex nxt s2(1) by simp
    moreover have "task s2 = (task s)(t := tick_task (task s t))"
      using True st1 sl state_frame_sel(1) [OF s2(3)] by (auto simp: t1 tick_task_def)
    moreover have "sched_frame s s2"
      using fr1 state_frame_sched [OF s2(3)] by (rule sched_frame_trans)
    moreover have "N_sleep t \<notin> set pre"
      using os_list.rel_distinct [OF base_inv_rel [OF base] F] by auto
    then have "abs_wake (task s) t F TaskSleep = Some (pre @ rest)"
      using True F by (simp add: abs_wake_def abs_set_state_def remove1_append)
    ultimately show ?thesis using s2(2) by blast
  qed
qed

lemma tick_sleep_list_suffix:
  assumes "sched_inv F s" and "F TaskSleep = Some (pre @ map N_sleep ts)"
  shows "\<exists>s'. tick_sleep_list (hd (map N_sleep ts @ [TaskSleep])) s = Some s' \<and>
    sched_inv (fold (abs_wake (task s)) ts F) s' \<and> sched_frame s s' \<and>
    task s' = (\<lambda>u. if u \<in> set ts then tick_task (task s u) else task s u)"
  using assms
proof (induction ts arbitrary: pre F s)
  case Nil
  then show ?case by (simp add: tick_sleep_list.simps)
next
  case (Cons t ts)
  let ?F = "abs_wake (task s) t F"
  obtain s1 pre1 where s1: "tick_sleep_list (N_sleep t) s = tick_sleep_list (hd (map N_sleep ts @ [TaskSleep])) s1"
    "sched_inv ?F s1" "sched_frame s s1" "task s1 = (task s)(t := tick_task (task s t))"
    "?F TaskSleep = Some (pre1 @ map N_sleep ts)"
    using tick_turn [OF Cons.prems(1), of pre t "map N_sleep ts"] Cons.prems(2) by auto
  have "distinct (pre @ map N_sleep (t # ts))"
    using Cons.prems os_list.rel_distinct base_inv_rel unfolding sched_inv_def
    by (metis distinct.simps(2))
  then have t: "t \<notin> set ts" by auto
  have "fold (abs_wake (task s1)) ts ?F = fold (abs_wake (task s)) ts ?F"
    by (rule fold_cong) (use t s1(4) in \<open>auto simp: abs_wake_def fun_eq_iff\<close>)
  with Cons.IH [OF s1(2,5)] obtain s2 where s2:
    "tick_sleep_list (hd (map N_sleep ts @ [TaskSleep])) s1 = Some s2"
    "sched_inv (fold (abs_wake (task s)) (t # ts) F) s2" "sched_frame s1 s2"
    "task s2 = (\<lambda>u. if u \<in> set ts then tick_task (task s1 u) else task s1 u)"
    by auto
  have "task s2 = (\<lambda>u. if u \<in> set (t # ts) then tick_task (task s u) else task s u)"
    using t by (auto simp: s2(4) s1(4) fun_eq_iff)
  with s1(1) s2 sched_frame_trans [OF s1(3) s2(3)] show ?case by simp
qed

definition sleepers :: "node lists \<Rightarrow> u32 list" where
  "sleepers F = (case F TaskSleep of Some xs \<Rightarrow> List.map_filter sleep_entry xs | None \<Rightarrow> [])"

lemma sleepers_eq:
  assumes "base_inv F s"
  shows "F TaskSleep = Some (map N_sleep (sleepers F))"
proof -
  obtain xs where xs: "F TaskSleep = Some xs" using base_inv_name [OF assms, of SN_sleep] by auto
  have "\<exists>t. n = N_sleep t" if "n \<in> set xs" for n
    using base_inv_on [OF assms, of TaskSleep n] xs that by (auto simp: on_def)
  then have "map N_sleep (List.map_filter sleep_entry xs) = xs"
    by (induction xs) (fastforce simp: List.map_filter_simps)+
  with xs show ?thesis by (simp add: sleepers_def)
qed

lemma tick_sleep_list_spec:
  assumes inv: "sched_inv F s"
  shows "\<exists>s'. tick_sleep_list (lnext (lists s) TaskSleep) s = Some s' \<and>
    sched_inv (fold (abs_wake (task s)) (sleepers F) F) s' \<and> sched_frame s s' \<and>
    task s' = (\<lambda>u. if u \<in> set (sleepers F) then tick_task (task s u) else task s u)"
proof -
  have base: "base_inv F s" using inv by (simp add: sched_inv_def)
  note F = sleepers_eq [OF base]
  have "dlist (lists s) TaskSleep (map N_sleep (sleepers F))"
    using list_rel_dlist [OF base_inv_rel [OF base] F] .
  then have "lnext (lists s) TaskSleep = hd (map N_sleep (sleepers F) @ [TaskSleep])"
    by (auto simp: dlist_def dest: dseg_next)
  with tick_sleep_list_suffix [OF inv, of "[]" "sleepers F"] F show ?thesis by simp
qed

section \<open>The tick\<close>

lemma live_abs_wake [simp]: "live (abs_wake T t F) s u \<longleftrightarrow> live F s u"
  by (simp add: abs_wake_def live_set_state)

lemma live_fold_wake [simp]: "live (fold (abs_wake T) ts F) s u \<longleftrightarrow> live F s u"
  by (induction ts arbitrary: F) simp_all

definition abs_tick :: "kstate \<Rightarrow> node lists \<Rightarrow> node lists" where
  "abs_tick s F = fold (abs_wake (task s)) (sleepers F) F"

definition tick_tasks :: "node lists \<Rightarrow> kstate \<Rightarrow> kstate \<Rightarrow> bool" where
  "tick_tasks F s s' \<longleftrightarrow>
     (\<forall>u. t_state (task s' u) = (if u \<in> set (sleepers F) \<and> expires (task s u)
        then PROCESS_STATE_PREPARE else t_state (task s u)) \<and>
        t_prio (task s' u) = t_prio (task s u) \<and>
        wait_time (task s' u) = (if u \<in> set (sleepers F) \<and> wait_time (task s u) > 0
          then wait_time (task s u) - 1 else wait_time (task s u)))"

lemma tick_sleepers_kinv:
  assumes k: "kinv F s"
  shows "\<exists>s'. tick_sleep_list (lnext (lists s) TaskSleep) s = Some s' \<and>
    kinv (abs_tick s F) s' \<and> sched_frame s s' \<and> tick_tasks F s s' \<and>
    run_time (task s' (current s)) = run_time (task s (current s))"
proof -
  have inv: "sched_inv F s" and cur: "cur_inv F s" using k by (auto simp: kinv_def)
  obtain s1 where s1: "tick_sleep_list (lnext (lists s) TaskSleep) s = Some s1"
    "sched_inv (abs_tick s F) s1" "sched_frame s s1"
    "task s1 = (\<lambda>u. if u \<in> set (sleepers F) then tick_task (task s u) else task s u)"
    using tick_sleep_list_spec [OF inv] by (auto simp: abs_tick_def)
  have "tick_tasks F s s1" by (simp add: tick_tasks_def s1(4) tick_task_def)
  moreover have "live (abs_tick s F) s1 u \<longleftrightarrow> live F s u" for u
    using live_cong [OF sched_frame_sel(2) [OF s1(3)]] by (simp add: abs_tick_def)
  moreover have "t_state (task s u) = PROCESS_STATE_RUNNING"
    if "t_state (task s1 u) = PROCESS_STATE_RUNNING" for u
    using that by (auto simp: s1(4) tick_task_def split: if_splits)
  ultimately have "cur_inv (abs_tick s F) s1"
    using cur sched_frame_sel(1) [OF s1(3)] unfolding cur_inv_def by metis
  moreover have "run_time (task s1 (current s)) = run_time (task s (current s))"
    by (simp add: s1(4) tick_task_def)
  ultimately show ?thesis using s1(1-3) \<open>tick_tasks F s s1\<close> by (auto simp: kinv_def)
qed

text \<open>
  The time slice of the current task goes down by one; when it is used up, the scheduler chooses,
  and the interrupt returns to the chosen task.
\<close>

lemma os_tick_handler_spec:
  assumes k: "kinv F s" and n: "next_run s = current s"
  shows "\<exists>s1 s' F'. os_tick_handler s = Some s' \<and> kinv F' (os_exit_irq s') \<and>
    tick_tasks F s s1 \<and> current s1 = current s \<and> kinv (abs_tick s F) s1 \<and>
    cpsr s' = cpsr s \<and> idle s' = idle s \<and> in_interrupt s' = in_interrupt s \<and>
    schedule_running s' = schedule_running s \<and> mutex_count s' = mutex_count s \<and>
    (if run_time (task s (current s)) = 1 then resched (abs_tick s F) s1 (next_run s') F' s'
     else next_run s' = current s \<and> F' = abs_tick s F \<and>
       (\<forall>u. t_state (task s' u) = t_state (task s1 u) \<and> wait_time (task s' u) = wait_time (task s1 u)))"
proof -
  obtain s1 where s1: "tick_sleep_list (lnext (lists s) TaskSleep) s = Some s1"
    "kinv (abs_tick s F) s1" "sched_frame s s1" "tick_tasks F s s1"
    "run_time (task s1 (current s)) = run_time (task s (current s))"
    using tick_sleepers_kinv [OF k] by blast
  note f1 = sched_frame_sel [OF s1(3)]
  have cn: "current s \<noteq> NULL" using k by (auto simp: kinv_def cur_inv_def sched_inv_def sem_inv_def)
  define s2 where "s2 = upd_task (current s) (\<lambda>ts. ts\<lparr>run_time := run_time ts - 1\<rparr>) s1"
  have st2: "t_state (task s2 u) = t_state (task s1 u)" "t_prio (task s2 u) = t_prio (task s1 u)"
    "wait_time (task s2 u) = wait_time (task s1 u)" for u
    by (simp_all add: s2_def)
  have k2: "kinv (abs_tick s F) s2"
    using s1(2) by (subst kinv_cong [of _ s1]) (simp_all add: s2_def)
  have f2: "sched_frame s s2" using s1(3) by (simp add: s2_def)
  have t2: "tick_tasks F s s2" using s1(4) by (simp add: tick_tasks_def st2)
  have rt: "run_time (task s2 (current s2)) = run_time (task s (current s)) - 1"
    using s1(5) f1(1) by (simp add: s2_def)
  have unf: "os_tick_handler s =
      (if run_time (task s (current s)) = 1
       then do { n \<leftarrow> find_next_run_task s2; prepare_to_switch n (s2\<lparr>next_run := n\<rparr>) } else Some s2)"
    using s1(1) cn f1(1) rt by (simp add: os_tick_handler_def s2_def Let_def)
  show ?thesis
  proof (cases "run_time (task s (current s)) = 1")
    case False
    moreover have "os_exit_irq s2 = s2" using n sched_frame_sel [OF f2] by (simp add: os_exit_irq_def)
    ultimately show ?thesis
      using unf k2 t2 sched_frame_sel [OF f2] n
      by (intro exI [of _ s2] exI [of _ "abs_tick s F"] exI [of _ s2]) simp
  next
    case True
    obtain m s' F' where s': "find_next_run_task s2 = Some m"
      "prepare_to_switch m (s2\<lparr>next_run := m\<rparr>) = Some s'" "kinv F' (s'\<lparr>current := m\<rparr>)"
      "sched_frame (s2\<lparr>next_run := m\<rparr>) s'" "resched (abs_tick s F) s2 m F' s'"
      using reschedule [OF k2] by blast
    note f' = sched_frame_sel [OF s'(4)]
    have m: "next_run s' = m" using f'(3) by simp
    then have "os_exit_irq s' = s'\<lparr>current := m\<rparr>" by (simp add: os_exit_irq_def)
    with True unf s' k2 t2 sched_frame_sel [OF f2] f' m show ?thesis
      by (intro exI [of _ s2] exI [of _ s'] exI [of _ F']) simp
  qed
qed

section \<open>Suspension, wake up, priorities\<close>

lemma wakeup_task_spec:
  assumes k: "kinv F s" and t: "live F s t"
  shows "\<exists>r s' F'. wakeup_task t s = Some (r, s') \<and> kinv F' s' \<and> sched_frame s s' \<and>
    (if t_state (task s t) = PROCESS_STATE_SLEEP
     then r = 0 \<and> F' = abs_set_state PROCESS_STATE_SLEEP PROCESS_STATE_PREPARE t (t_prio (task s t)) F \<and>
       (\<forall>u. t_state (task s' u) = (if u = t then PROCESS_STATE_PREPARE else t_state (task s u)))
     else r = - EINVAL \<and> F' = F \<and> s' = s)"
proof (cases "t_state (task s t) = PROCESS_STATE_SLEEP")
  case False
  with k show ?thesis
    by (intro exI [of _ "- EINVAL"] exI [of _ s] exI [of _ F]) (simp add: wakeup_task_def get_task_state_def)
next
  case True
  let ?s = "get_task_run_time t s"
  let ?F = "abs_set_state PROCESS_STATE_SLEEP PROCESS_STATE_PREPARE t (t_prio (task s t)) F"
  have inv: "sched_inv F s" and cur: "cur_inv F s" using k by (auto simp: kinv_def)
  have st: "t_state (task ?s u) = t_state (task s u)" "t_prio (task ?s u) = t_prio (task s u)"
    "idle ?s = idle s" "current ?s = current s" for u
    by (simp_all add: get_task_run_time_def)
  have live: "live F ?s u \<longleftrightarrow> live F s u" for u by (rule live_cong) (rule st)
  obtain s' where s': "set_task_state t PROCESS_STATE_PREPARE ?s = Some s'" "sched_inv ?F s'"
    "state_frame t PROCESS_STATE_PREPARE ?s s'"
    using set_task_state_refines [of F ?s t PROCESS_STATE_PREPARE] inv t True
    by (auto simp: st live transition_def)
  note f = state_frame_sel [OF s'(3)]
  have st': "t_state (task s' u) = (if u = t then PROCESS_STATE_PREPARE else t_state (task s u))" for u
    using f(1) st(1) by simp
  have "live ?F s' u \<longleftrightarrow> live F s u" for u
    using live_cong [OF f(3), of F] live by (simp add: live_set_state)
  then have "cur_inv ?F s'"
    using cur f(2) st(4) st' unfolding cur_inv_def by (metis state_t.distinct(1))
  moreover have "sched_frame s s'" by (rule sched_frame_trans [OF upd_task_sched(2) state_frame_sched [OF s'(3)]])
  ultimately show ?thesis using True s' st'
    by (intro exI [of _ "0::int"] exI [of _ s'] exI [of _ ?F]) (simp add: wakeup_task_def get_task_state_def kinv_def)
qed

lemma set_task_state_kinv:
  assumes k: "kinv F s" and t: "live F s t" and tr: "transition (t_state (task s t)) new"
    and new: "new \<noteq> PROCESS_STATE_RUNNING"
  shows "\<exists>s'. set_task_state t new s = Some s' \<and>
    kinv (abs_set_state (t_state (task s t)) new t (t_prio (task s t)) F) s' \<and> state_frame t new s s'"
proof -
  have inv: "sched_inv F s" and cur: "cur_inv F s" using k by (auto simp: kinv_def)
  let ?F = "abs_set_state (t_state (task s t)) new t (t_prio (task s t)) F"
  obtain s' where s': "set_task_state t new s = Some s'" "sched_inv ?F s'" "state_frame t new s s'"
    using set_task_state_refines [OF inv t tr] by blast
  note f = state_frame_sel [OF s'(3)]
  have "t_state (task s' u) = (if u = t then new else t_state (task s u))" for u using f(1) by simp
  moreover have "live ?F s' u \<longleftrightarrow> live F s u" for u
    using live_cong [OF f(3), of F] by (simp add: live_set_state)
  ultimately have "cur_inv ?F s'"
    using cur f(2) new unfolding cur_inv_def by metis
  with s' show ?thesis by (simp add: kinv_def)
qed

text \<open>
  A caller that suspends a task: the task is put to sleep and the scheduler chooses.  A task that
  sleeps already stays where it is on the sleep list.
\<close>

lemma suspend_task_timeout_spec:
  assumes k: "kinv F s" and t: "live F s t" and ms: "timeout \<noteq> 0"
    and st: "t_state (task s t) \<noteq> PROCESS_STATE_IDLE"
    and run: "\<not> in_interrupt s" "schedule_running s"
  shows "\<exists>s1 F1 s' F'. suspend_task_timeout t timeout s = Some (None, s') \<and>
    F1 = (if t_state (task s t) = PROCESS_STATE_SLEEP then F
          else abs_set_state (t_state (task s t)) PROCESS_STATE_SLEEP t (t_prio (task s t)) F) \<and>
    task s1 = (task s)(t := (task s t)\<lparr>wait_time := timeout, time_out := 0, t_state := PROCESS_STATE_SLEEP\<rparr>) \<and>
    current s1 = current s \<and> kinv F' s' \<and> resched F1 s1 (current s') F' s' \<and> next_run s' = current s' \<and>
    cpsr s' = cpsr s \<and> idle s' = idle s \<and> in_interrupt s' = in_interrupt s \<and>
    schedule_running s' = schedule_running s \<and> mutex_count s' = mutex_count s"
proof -
  let ?old = "t_state (task s t)"
  let ?s0 = "upd_task t (\<lambda>ts. ts\<lparr>wait_time := timeout, time_out := 0\<rparr>) (snd (enter_critical s))"
  let ?F1 = "if ?old = PROCESS_STATE_SLEEP then F
          else abs_set_state ?old PROCESS_STATE_SLEEP t (t_prio (task s t)) F"
  have inv: "sched_inv F s" using k by (auto simp: kinv_def)
  have tn: "t \<noteq> NULL" using inv t by (auto simp: sched_inv_def sem_inv_def)
  have k0: "kinv F ?s0" using k by (subst kinv_cong [of _ s]) (simp_all add: critical_defs)
  have t0: "task ?s0 = (task s)(t := (task s t)\<lparr>wait_time := timeout, time_out := 0\<rparr>)"
    by (simp add: critical_defs)
  have live0: "live F ?s0 t" using t by (simp add: live_def critical_defs)
  obtain s1 where s1: "set_task_state t PROCESS_STATE_SLEEP ?s0 = Some s1" "kinv ?F1 s1"
    "state_frame t PROCESS_STATE_SLEEP ?s0 s1"
  proof (cases "?old = PROCESS_STATE_SLEEP")
    case True
    then have "set_task_state t PROCESS_STATE_SLEEP ?s0 = Some ?s0"
      by (intro set_task_state_ignored) (simp add: t0 get_state_change_eq)
    with True k0 that [of ?s0] state_frame_id [of ?s0 t PROCESS_STATE_SLEEP] show ?thesis by simp
  next
    case False
    with sched_inv_state_cases [OF inv t] st have "transition (t_state (task ?s0 t)) PROCESS_STATE_SLEEP"
      by (auto simp: t0 transition_def)
    from set_task_state_kinv [OF k0 live0 this] False that show ?thesis by (auto simp: t0)
  qed
  note f1 = state_frame_sel [OF s1(3)]
  let ?s2 = "exit_critical (fst (enter_critical s)) s1"
  have k2: "kinv ?F1 ?s2" using s1(2) by (subst kinv_cong [of _ s1]) (simp_all add: critical_defs)
  have c2: "cpsr ?s2 = cpsr s" using f1(7) by (simp add: critical_defs msr_cpsr_c_restore)
  have run2: "\<not> in_interrupt ?s2" "schedule_running ?s2" using run f1 by (simp_all add: critical_defs)
  obtain n s' F' where s': "sched ?s2 = Some s'" "kinv F' s'" "current s' = n" "next_run s' = n"
    "cpsr s' = cpsr ?s2" "idle s' = idle ?s2" "in_interrupt s' = in_interrupt ?s2"
    "schedule_running s' = schedule_running ?s2" "mutex_count s' = mutex_count ?s2" "resched ?F1 ?s2 n F' s'"
    using sched_spec [OF k2 run2] by blast
  have "suspend_task_timeout t timeout s = Some (None, s')"
    using tn ms st s1(1) s'(1) k
    by (simp add: suspend_task_timeout_def get_task_state_def split_beta Let_def critical_defs)
  moreover have "task ?s2 = (task s)(t := (task s t)\<lparr>wait_time := timeout, time_out := 0, t_state := PROCESS_STATE_SLEEP\<rparr>)"
    using f1(1) t0 by (simp add: critical_defs)
  ultimately show ?thesis
    using s' c2 f1 by (intro exI [of _ ?s2] exI [of _ ?F1] exI [of _ s'] exI [of _ F']) (simp add: critical_defs)
qed

text \<open>A new priority for a task that is on no ready queue.\<close>

lemma set_task_prio_spec:
  assumes k: "kinv F s" and p: "0 \<le> p" "p < MAX_PRIO"
    and st: "t_state (task s t) = PROCESS_STATE_RUNNING \<or> t_state (task s t) = PROCESS_STATE_SLEEP"
  shows "set_task_prio t p s = Some (0, upd_task t (\<lambda>ts. ts\<lparr>pre_prio := t_prio ts, t_prio := p\<rparr>) s) \<and>
    kinv F (upd_task t (\<lambda>ts. ts\<lparr>pre_prio := t_prio ts, t_prio := p\<rparr>) s)"
proof
  let ?s = "upd_task t (\<lambda>ts. ts\<lparr>pre_prio := t_prio ts, t_prio := p\<rparr>) s"
  show "set_task_prio t p s = Some (0, ?s)"
    using p st by (auto simp: set_task_prio_def get_task_state_def)
  have ts: "t_state (task ?s u) = t_state (task s u)"
    "t_prio (task ?s u) = (if u = t then p else t_prio (task s u))" for u by simp_all
  have live: "live F ?s u \<longleftrightarrow> live F s u" for u by (rule live_cong) simp
  have "base_inv F ?s" using k base_inv_cong [of ?s s F] by (simp add: kinv_defs)
  moreover have "sem_inv {} F ?s"
    using k st p unfolding kinv_def sched_inv_def sem_inv_def live ts upd_task_sel(6)
    by (auto simp: prio_ok_def)
  moreover have "cur_inv F ?s"
    using k unfolding kinv_def cur_inv_def live ts upd_task_sel(5) by blast
  ultimately show "kinv F ?s" by (simp add: kinv_defs)
qed

end
