(* ===== verification/Mutex.thy ===== *)
theory Mutex
  imports SchedTick
begin

text \<open>
  Mutexes, \<^verbatim>\<open>kernel/mutex.c\<close> and \<^verbatim>\<open>include/os/mutex.h\<close>.

  \<^verbatim>\<open>mutex_lock_timeout\<close> can leave the processor inside \<^verbatim>\<open>suspend_task_timeout\<close>.  Its model is
  the code up to that point, with the result \<open>Lock_suspended\<close>, and \<open>mutex_lock_resume\<close> for the
  rest, applied to the state in which the caller runs again: its locals \<^verbatim>\<open>task\<close>,
  \<^verbatim>\<open>ms\<close> and \<^verbatim>\<open>flags\<close> are the arguments.
\<close>

section \<open>Definitions\<close>

datatype lock_result = Lock_return int | Lock_suspended

definition set_mutex_count :: "mutex_ref \<Rightarrow> int \<Rightarrow> kstate \<Rightarrow> kstate" where
  "set_mutex_count m c s = s\<lparr>mutex_count := (mutex_count s)(m := c)\<rparr>"

definition init_mutex :: "mutex_ref \<Rightarrow> kstate \<Rightarrow> kstate" where
  "init_mutex m s =
     (let s = set_mutex_count m 0 s;
          s = on_lists (set_pre (M_wait m) (M_wait m)) s;
          s = on_lists (set_next (M_wait m) (M_wait m)) s;
          s = on_lists (set_pre (M_task m) (M_task m)) s
      in on_lists (set_next (M_task m) (M_task m)) s)"

text \<open>The loop of \<^verbatim>\<open>mutex_lock_timeout\<close> from the test of the counter.\<close>

definition mutex_lock_loop ::
  "mutex_ref \<Rightarrow> u32 \<Rightarrow> int \<Rightarrow> u32 \<Rightarrow> kstate \<Rightarrow> (lock_result \<times> kstate) option" where
  "mutex_lock_loop m t ms flags s =
     (if mutex_count s m \<noteq> 0 then do {
        (r, s) \<leftarrow> suspend_task_timeout t ms (on_lists (list_add_tail (M_wait m) (N_wait t)) s);
        case r of
          None \<Rightarrow> Some (Lock_suspended, s)
        | Some timeout \<Rightarrow>
            Some (Lock_return 0, exit_critical flags (on_lists (list_del (N_wait t)) s))
      }
      else do {
        let s = set_mutex_count m 1 s;
        let s = (if t \<noteq> NULL then on_lists (list_add_tail (N_mutex_get t) (M_task m)) s else s);
        Some (Lock_return 0, exit_critical flags s)
      })"

definition mutex_lock_timeout :: "mutex_ref \<Rightarrow> int \<Rightarrow> kstate \<Rightarrow> (lock_result \<times> kstate) option" where
  "mutex_lock_timeout m ms s =
     (let t = current s; (flags, s) = enter_critical s in mutex_lock_loop m t ms flags s)"

definition mutex_lock_resume ::
  "mutex_ref \<Rightarrow> u32 \<Rightarrow> int \<Rightarrow> u32 \<Rightarrow> kstate \<Rightarrow> (lock_result \<times> kstate) option" where
  "mutex_lock_resume m t ms flags s =
     (if suspend_result t s \<noteq> 0
      then Some (Lock_return 0, exit_critical flags (on_lists (list_del (N_wait t)) s))
      else mutex_lock_loop m t ms flags s)"

definition mutex_lock :: "mutex_ref \<Rightarrow> kstate \<Rightarrow> (lock_result \<times> kstate) option" where
  "mutex_lock m s = mutex_lock_timeout m (-1) s"

fun wait_entry :: "node \<Rightarrow> u32 option" where
  "wait_entry (N_wait t) = Some t"
| "wait_entry _ = None"

text \<open>The loop of \<^verbatim>\<open>mutex_unlock\<close> over the waiting tasks.\<close>

partial_function (option) wake_waiters :: "mutex_ref \<Rightarrow> node \<Rightarrow> kstate \<Rightarrow> kstate option" where
  "wake_waiters m l s =
     (if l = M_wait m then Some s
      else do {
        t \<leftarrow> wait_entry l;
        (r, s) \<leftarrow> wakeup_task t (on_lists (list_del (N_wait t)) s);
        wake_waiters m (lnext (lists s) l) s
      })"

definition mutex_unlock :: "mutex_ref \<Rightarrow> kstate \<Rightarrow> kstate option" where
  "mutex_unlock m s =
     (if mutex_count s m = 0 then Some s
      else do {
        let (flags, s) = enter_critical s;
        let s = set_mutex_count m 0 s;
        s \<leftarrow> wake_waiters m (lnext (lists s) (M_wait m)) s;
        let s = (if \<not> is_list_empty (M_task m) (lists s) then on_lists (list_del (M_task m)) s else s);
        Some (exit_critical flags s)
      })"

section \<open>Lists the scheduler does not own\<close>

lemma set_mutex_count_sel [simp]:
  "lists (set_mutex_count m c s) = lists s" "os_sched_count (set_mutex_count m c s) = os_sched_count s"
  "sched_list_count (set_mutex_count m c s) = sched_list_count s"
  "task (set_mutex_count m c s) = task s" "current (set_mutex_count m c s) = current s"
  "idle (set_mutex_count m c s) = idle s" "next_run (set_mutex_count m c s) = next_run s"
  "schedule_running (set_mutex_count m c s) = schedule_running s"
  "in_interrupt (set_mutex_count m c s) = in_interrupt s" "cpsr (set_mutex_count m c s) = cpsr s"
  "mutex_count (set_mutex_count m c s) = (mutex_count s)(m := c)"
  "pid_addr (set_mutex_count m c s) = pid_addr s" "pid_nr (set_mutex_count m c s) = pid_nr s"
  "pid_nr_free (set_mutex_count m c s) = pid_nr_free s" "pid_current (set_mutex_count m c s) = pid_current s"
  by (simp_all add: set_mutex_count_def)

lemma kinv_set_mutex_count [simp]: "kinv F (set_mutex_count m c s) \<longleftrightarrow> kinv F s"
  by (rule kinv_cong) simp_all

lemma kinv_exit_critical [simp]: "kinv F (exit_critical c s) \<longleftrightarrow> kinv F s"
  by (rule kinv_cong) simp_all

lemma kinv_enter_critical [simp]: "kinv F (snd (enter_critical s)) \<longleftrightarrow> kinv F s"
  by (rule kinv_cong) simp_all

definition foreign :: "node \<Rightarrow> bool" where
  "foreign n \<longleftrightarrow> \<not> sched_heads n \<and> \<not> sched_member n"

lemma foreign_simps [simp]:
  "foreign (M_wait m)" "foreign (M_task m)" "foreign (N_wait t)" "foreign (N_mutex_get t)"
  "foreign (N_child t)" "foreign (N_p t)"
  by (simp_all add: foreign_def sched_heads_def)

lemma foreign_home: "foreign r \<Longrightarrow> foreign n \<Longrightarrow> home n r \<and> sched_head_member r n"
  by (cases n; cases r) (auto simp: foreign_def sched_heads_def)

lemma foreign_neq:
  "foreign r \<Longrightarrow> r \<noteq> OsSched i" "foreign r \<Longrightarrow> r \<noteq> TaskSystem" "foreign r \<Longrightarrow> r \<noteq> TaskSleep"
  "foreign r \<Longrightarrow> r \<noteq> TaskIdle" "foreign r \<Longrightarrow> r \<noteq> sn_head name"
  by (cases name; auto simp: foreign_def sched_heads_def)+

lemma on_upd_other: "q \<noteq> r \<Longrightarrow> on (F(r \<mapsto> ys)) q n \<longleftrightarrow> on F q n"
  by (simp add: on_def)

lemma live_upd_foreign: "foreign r \<Longrightarrow> live (F(r \<mapsto> ys)) s t \<longleftrightarrow> live F s t"
  using foreign_neq(2) [of r] by (simp add: live_def on_upd_other [OF not_sym])

text \<open>A list of another component changes: the scheduler does not see it.\<close>

lemma kinv_foreign:
  assumes k: "kinv F s" and rel: "list_rel (g (lists s)) (F(r \<mapsto> ys))"
    and r: "foreign r" "\<And>n. n \<in> set ys \<Longrightarrow> foreign n"
  shows "kinv (F(r \<mapsto> ys)) (on_lists g s)"
proof -
  let ?F = "F(r \<mapsto> ys)" and ?s = "on_lists g s"
  have base: "base_inv F s" and sem: "sem_inv {} F s" and cur: "cur_inv F s"
    using k by (auto simp: kinv_defs)
  note ne = foreign_neq [OF r(1)]
  have sel: "?F (OsSched i) = F (OsSched i)" "?F (sn_head name) = F (sn_head name)" for i name
    using ne(1,5) by (simp_all add: not_sym)
  have on: "on ?F q n \<longleftrightarrow> on F q n" if "q \<noteq> r" for q n using that by (rule on_upd_other)
  have live: "live ?F ?s t \<longleftrightarrow> live F s t" for t
    using live_upd_foreign [OF r(1)] by (simp add: live_def)
  have "base_inv ?F ?s"
    unfolding base_inv_def
  proof (intro conjI allI impI)
    show "list_rel (lists ?s) ?F" using rel by simp
    fix q n
    assume "on ?F q n"
    then show "home n q" "sched_head_member q n"
      using r(2) on [of q n] base_inv_on [OF base, of q n] foreign_home [OF r(1), of n]
      by (cases "q = r"; auto simp: on_def)+
  next
    fix n assume "sched_member n"
    then show "?F n = None" using base r(1) by (auto simp: base_inv_def foreign_def)
  next
    fix i show "(?F (OsSched i) \<noteq> None) = prio_ok i" unfolding sel using base by (simp add: base_inv_def)
  next
    fix i xs assume "?F (OsSched i) = Some xs"
    then show "os_sched_count ?s i = of_nat (length xs)" unfolding sel using base by (simp add: base_inv_def)
  next
    fix name
    show "\<exists>xs. ?F (sn_head name) = Some xs \<and> sched_list_count ?s name = of_nat (length xs)"
      unfolding sel using base_inv_name [OF base] by simp
  qed
  moreover have "sem_inv {} ?F ?s"
    using sem unfolding sem_inv_def live on [OF ne(1) [symmetric]] on [OF ne(2) [symmetric]]
      on [OF ne(3) [symmetric]] on [OF ne(4) [symmetric]] by simp
  moreover have "cur_inv ?F ?s"
    using cur unfolding cur_inv_def live by simp
  ultimately show ?thesis by (simp add: kinv_defs)
qed

lemma kinv_rel: "kinv F s \<Longrightarrow> list_rel (lists s) F"
  by (simp add: kinv_defs base_inv_rel)

section \<open>Waking the waiting tasks\<close>

definition abs_wakeup :: "(u32 \<Rightarrow> task_struct) \<Rightarrow> u32 \<Rightarrow> node lists \<Rightarrow> node lists" where
  "abs_wakeup T t F =
     (if t_state (T t) = PROCESS_STATE_SLEEP
      then abs_set_state PROCESS_STATE_SLEEP PROCESS_STATE_PREPARE t (t_prio (T t)) F else F)"

lemma abs_wakeup_upd:
  "foreign r \<Longrightarrow> abs_wakeup T t (F(r \<mapsto> ys)) = (abs_wakeup T t F)(r \<mapsto> ys)"
  using foreign_neq(1,3) [of r]
  by (auto simp: abs_wakeup_def abs_set_state_def q_add_def q_del_def fun_eq_iff)

lemma fold_wakeup_upd:
  "foreign r \<Longrightarrow> fold (abs_wakeup T) ts (F(r \<mapsto> ys)) = (fold (abs_wakeup T) ts F)(r \<mapsto> ys)"
  by (induction ts arbitrary: F) (simp_all add: abs_wakeup_upd)

lemma live_abs_wakeup [simp]: "live (abs_wakeup T t F) s u \<longleftrightarrow> live F s u"
  by (simp add: abs_wakeup_def live_set_state)

lemma abs_wakeup_foreign: "foreign r \<Longrightarrow> abs_wakeup T t F r = F r"
  using foreign_neq(1,3) [of r] by (simp add: abs_wakeup_def abs_set_state_def)

lemma fold_wakeup_foreign: "foreign r \<Longrightarrow> fold (abs_wakeup T) ts F r = F r"
  by (induction ts arbitrary: F) (simp_all add: abs_wakeup_foreign)

lemma live_fold_wakeup [simp]: "live (fold (abs_wakeup T) ts F) s u \<longleftrightarrow> live F s u"
  by (induction ts arbitrary: F) simp_all

lemma wakeup_task_next:
  assumes k: "kinv F s" and t: "live F s t" and w: "wakeup_task t s = Some (r, s')"
    and n: "foreign n"
  shows "lnext (lists s') n = lnext (lists s) n"
proof (cases "t_state (task s t) = PROCESS_STATE_SLEEP")
  case False
  with w show ?thesis by (simp add: wakeup_task_def get_task_state_def)
next
  case True
  let ?s = "get_task_run_time t s"
  have inv: "sched_inv F s" and base: "base_inv F s" and sem: "sem_inv {} F s"
    using k by (auto simp: kinv_defs)
  have st: "t_state (task ?s t) = PROCESS_STATE_SLEEP" "t_prio (task ?s t) = t_prio (task s t)"
    "lists ?s = lists s"
    using True by (simp_all add: get_task_run_time_def)
  have on: "on F TaskSleep (N_sleep t)" using sem t True by (simp add: sem_inv_def)
  then obtain xs where xs: "F TaskSleep = Some xs" "N_sleep t \<in> set xs" by (auto simp: on_def)
  note sl = sleeper [OF inv xs]
  obtain ys where ys: "F (OsSched (t_prio (task s t))) = Some ys" using sl(4) by blast
  have w': "set_task_state t PROCESS_STATE_PREPARE ?s = Some s'"
    using w True by (auto simp: wakeup_task_def get_task_state_def bind_eq_Some)
  have heap: "lists s' = list_add_tail (OsSched (t_prio (task s t))) (N_prio_running t)
      (list_del (N_sleep t) (lists s))"
    using wake_heap [OF w'] st sl(3) by simp
  have notin: "n \<notin> set (q # zs)" if "F q = Some zs" "sched_heads q" for q zs
  proof -
    have "n \<noteq> q" using n that(2) by (auto simp: foreign_def)
    moreover have "\<not> on F q n"
      using base_inv_on [OF base, of q n] n that(2)
      by (cases q) (auto simp: foreign_def sched_heads_def)
    ultimately show ?thesis using that(1) by (auto simp: on_def)
  qed
  have rel: "list_rel (lists s) F" using k by (rule kinv_rel)
  have "lnext (list_del (N_sleep t) (lists s)) n = lnext (lists s) n" (is ?del)
    using list_del_frame [OF list_rel_dlist [OF rel xs(1)] xs(2)] notin [OF xs(1)]
    by (simp add: sched_heads_def)
  moreover have "dlist (list_del (N_sleep t) (lists s)) (OsSched (t_prio (task s t))) ys"
    using list_rel_dlist [OF list_rel_del [OF rel xs]] ys by simp
  moreover have "n \<noteq> N_prio_running t" using n by (auto simp: foreign_def)
  ultimately have "lnext (lists s') n = lnext (list_del (N_sleep t) (lists s)) n"
    using list_add_tail_frame [of _ _ ys n "N_prio_running t"] notin [OF ys]
    unfolding heap by (simp add: sched_heads_def)
  with \<open>?del\<close> show ?thesis by simp
qed

text \<open>What waking the tasks \<open>ts\<close> does to the task states.\<close>

definition woken :: "u32 list \<Rightarrow> kstate \<Rightarrow> kstate \<Rightarrow> bool" where
  "woken ts s s' \<longleftrightarrow>
     (\<forall>u. t_prio (task s' u) = t_prio (task s u) \<and> t_state (task s' u) =
        (if u \<in> set ts \<and> t_state (task s u) = PROCESS_STATE_SLEEP then PROCESS_STATE_PREPARE
         else t_state (task s u)))"

lemma wakeup_woken:
  assumes k: "kinv F s" and t: "live F s t"
  shows "\<exists>r s'. wakeup_task t s = Some (r, s') \<and> kinv (abs_wakeup (task s) t F) s' \<and>
    sched_frame s s' \<and> woken [t] s s'"
proof -
  obtain r s' F' where w: "wakeup_task t s = Some (r, s')" "kinv F' s'" "sched_frame s s'"
    and c: "if t_state (task s t) = PROCESS_STATE_SLEEP
     then r = 0 \<and> F' = abs_set_state PROCESS_STATE_SLEEP PROCESS_STATE_PREPARE t (t_prio (task s t)) F \<and>
       (\<forall>u. t_state (task s' u) = (if u = t then PROCESS_STATE_PREPARE else t_state (task s u)))
     else r = - EINVAL \<and> F' = F \<and> s' = s"
    using wakeup_task_spec [OF k t] by blast
  have "F' = abs_wakeup (task s) t F" using c by (auto simp: abs_wakeup_def split: if_splits)
  moreover have "t_prio (task s' u) = t_prio (task s u)" for u
  proof (cases "t_state (task s t) = PROCESS_STATE_SLEEP")
    case True
    with w(1) have "set_task_state t PROCESS_STATE_PREPARE (get_task_run_time t s) = Some s'"
      by (auto simp: wakeup_task_def get_task_state_def bind_eq_Some)
    with set_task_state_refines [of F "get_task_run_time t s" t PROCESS_STATE_PREPARE] k t True
    have "state_frame t PROCESS_STATE_PREPARE (get_task_run_time t s) s'"
      by (auto simp: kinv_def get_task_run_time_def transition_def live_def sched_inv_upd_task)
    from state_frame_sel(1) [OF this] show ?thesis by (simp add: get_task_run_time_def)
  qed (use c in auto)
  then have "woken [t] s s'" using c by (auto simp: woken_def split: if_splits)
  ultimately show ?thesis using w by blast
qed

lemma wake_waiters_spec:
  assumes "kinv F s" and "F (M_wait m) = Some (map N_wait ts)" and "\<And>t. t \<in> set ts \<Longrightarrow> live F s t"
  shows "\<exists>s'. wake_waiters m (hd (map N_wait ts @ [M_wait m])) s = Some s' \<and>
    kinv ((fold (abs_wakeup (task s)) ts F)(M_wait m \<mapsto> [])) s' \<and> sched_frame s s' \<and> woken ts s s'"
  using assms
proof (induction ts arbitrary: F s)
  case Nil
  then have "F(M_wait m \<mapsto> []) = F" by (auto simp: fun_eq_iff)
  with Nil show ?case by (simp add: wake_waiters.simps woken_def)
next
  case (Cons t ts)
  let ?r = "M_wait m"
  let ?F1 = "F(?r \<mapsto> map N_wait ts)"
  let ?s1 = "on_lists (list_del (N_wait t)) s"
  let ?F2 = "abs_wakeup (task s) t ?F1"
  have rel: "list_rel (lists s) F" using Cons.prems(1) by (rule kinv_rel)
  have dist: "t \<notin> set ts" using os_list.rel_distinct [OF rel Cons.prems(2)] by auto
  have k1: "kinv ?F1 ?s1"
    using os_list.rel_del [OF rel Cons.prems(2), of "N_wait t"]
    by (intro kinv_foreign [OF Cons.prems(1)]) auto
  have live1: "live ?F1 ?s1 u \<longleftrightarrow> live F s u" for u
    using live_upd_foreign [of ?r F _ s u] live_cong [of ?s1 s F u] by (simp add: live_def)
  obtain r s2 where s2: "wakeup_task t ?s1 = Some (r, s2)" "kinv ?F2 s2"
    "sched_frame ?s1 s2" "woken [t] ?s1 s2"
    using wakeup_woken [OF k1, of t] live1 Cons.prems(3) by auto
  have "lnext (list_del (N_wait t) (lists s)) (N_wait t) = lnext (lists s) (N_wait t)"
  proof -
    have d: "dlist (lists s) ?r (map N_wait (t # ts))" by (rule list_rel_dlist [OF rel Cons.prems(2)])
    then show ?thesis by (auto simp: dlist_def list_ops)
  qed
  then have nxt: "lnext (lists s2) (N_wait t) = hd (map N_wait ts @ [?r])"
    using wakeup_task_next [OF k1 _ s2(1), of "N_wait t"] live1 Cons.prems(3)
      list_rel_next [OF rel, of ?r "[]" "N_wait t" "map N_wait ts"] Cons.prems(2) by simp
  have unf: "wake_waiters m (N_wait t) s = wake_waiters m (hd (map N_wait ts @ [?r])) s2"
    by (subst wake_waiters.simps) (simp add: s2(1) nxt)
  have "?F2 ?r = Some (map N_wait ts)" by (simp add: abs_wakeup_upd)
  moreover have "live ?F2 s2 u" if "u \<in> set ts" for u
    using that Cons.prems(3) live1 live_cong [OF sched_frame_sel(2) [OF s2(3)]] by simp
  ultimately obtain s3 where s3: "wake_waiters m (hd (map N_wait ts @ [?r])) s2 = Some s3"
    "kinv ((fold (abs_wakeup (task s2)) ts ?F2)(?r \<mapsto> [])) s3" "sched_frame s2 s3" "woken ts s2 s3"
    using Cons.IH [OF s2(2)] by blast
  have "fold (abs_wakeup (task s2)) ts ?F2 = fold (abs_wakeup (task s)) ts ?F2"
    by (rule fold_cong) (use dist s2(4) in \<open>auto simp: abs_wakeup_def woken_def\<close>)
  also have "\<dots> = (fold (abs_wakeup (task s)) (t # ts) F)(?r \<mapsto> map N_wait ts)"
    by (simp add: abs_wakeup_upd fold_wakeup_upd)
  finally have "kinv ((fold (abs_wakeup (task s)) (t # ts) F)(?r \<mapsto> [])) s3" using s3(2) by simp
  moreover have "sched_frame s s3"
  proof -
    have "sched_frame s ?s1" by (simp add: sched_frame_def on_lists_def)
    with s2(3) s3(3) show ?thesis by (blast intro: sched_frame_trans)
  qed
  moreover have "woken (t # ts) s s3"
    using s2(4) s3(4) dist by (auto simp: woken_def)
  moreover have "wake_waiters m (hd (map N_wait (t # ts) @ [M_wait m])) s = Some s3"
    using unf s3(1) by simp
  ultimately show ?case by blast
qed

section \<open>Unlock\<close>

text \<open>What lock and unlock leave unchanged.\<close>

definition mutex_frame :: "kstate \<Rightarrow> kstate \<Rightarrow> bool" where
  "mutex_frame s s' \<longleftrightarrow> s' = s\<lparr>lists := lists s', os_sched_count := os_sched_count s',
     sched_list_count := sched_list_count s', task := task s', mutex_count := mutex_count s'\<rparr>"

lemma mutex_frame_sel:
  assumes "mutex_frame s s'"
  shows "current s' = current s" "idle s' = idle s" "next_run s' = next_run s"
    "schedule_running s' = schedule_running s" "in_interrupt s' = in_interrupt s"
    "cpsr s' = cpsr s" "pid_addr s' = pid_addr s" "pid_nr s' = pid_nr s"
    "pid_nr_free s' = pid_nr_free s" "pid_current s' = pid_current s"
  using assms by (cases s; cases s'; simp add: mutex_frame_def)+

lemma mutex_frame_critical:
  assumes "sched_frame (set_mutex_count m c (snd (enter_critical s))) s'"
  shows "mutex_frame s (exit_critical (fst (enter_critical s)) (on_lists g s'))"
  using assms
  by (cases s; cases s')
    (simp add: sched_frame_def mutex_frame_def critical_defs on_lists_def set_mutex_count_def msr_cpsr_c_restore)

lemma dlist_not_self: "dlist h r xs \<Longrightarrow> n \<in> set xs \<Longrightarrow> lnext h n \<noteq> n"
proof -
  assume d: "dlist h r xs" and n: "n \<in> set xs"
  then obtain us vs where "xs = us @ n # vs" by (auto simp: in_set_conv_decomp)
  with d dseg_next [of h n vs r] show ?thesis by (cases vs) (auto simp: dlist_def)
qed

text \<open>
  Unlocking a mutex held by \<open>o\<close>: the counter is cleared, every waiting task leaves the wait list
  and is made ready in the order of waiting, and the mutex leaves the owner's list.
\<close>

lemma mutex_unlock_spec:
  assumes k: "kinv F s" and c: "mutex_count s m \<noteq> 0"
    and w: "F (M_wait m) = Some (map N_wait ts)" "\<And>t. t \<in> set ts \<Longrightarrow> live F s t"
    and own: "F (N_mutex_get t0) = Some xs" "M_task m \<in> set xs" "\<And>n. n \<in> set xs \<Longrightarrow> foreign n"
  shows "\<exists>s'. mutex_unlock m s = Some s' \<and>
    kinv ((fold (abs_wakeup (task s)) ts F)(M_wait m \<mapsto> [], N_mutex_get t0 \<mapsto> remove1 (M_task m) xs)) s' \<and>
    mutex_count s' = (mutex_count s)(m := 0) \<and> mutex_frame s s' \<and> woken ts s s'"
proof -
  let ?s1 = "set_mutex_count m 0 (snd (enter_critical s))"
  let ?F2 = "(fold (abs_wakeup (task s)) ts F)(M_wait m \<mapsto> [])"
  have k1: "kinv F ?s1" using k by simp
  have "dlist (lists ?s1) (M_wait m) (map N_wait ts)"
    using list_rel_dlist [OF kinv_rel [OF k1] w(1)] .
  then have first: "lnext (lists ?s1) (M_wait m) = hd (map N_wait ts @ [M_wait m])"
    by (auto simp: dlist_def dest: dseg_next)
  have "live F ?s1 t" if "t \<in> set ts" for t using w(2) [OF that] by (simp add: live_def)
  then obtain s2 where s2: "wake_waiters m (hd (map N_wait ts @ [M_wait m])) ?s1 = Some s2"
    "kinv ?F2 s2" "sched_frame ?s1 s2" "woken ts ?s1 s2"
    using wake_waiters_spec [OF k1 w(1)] by auto
  have F2: "?F2 (N_mutex_get t0) = Some xs" using own(1) by (simp add: fold_wakeup_foreign)
  have "\<not> is_list_empty (M_task m) (lists s2)"
    using dlist_not_self [OF list_rel_dlist [OF kinv_rel [OF s2(2)] F2] own(2)]
    by (simp add: is_list_empty_def)
  then have eq: "mutex_unlock m s =
      Some (exit_critical (fst (enter_critical s)) (on_lists (list_del (M_task m)) s2))"
    using c first s2(1) by (simp add: mutex_unlock_def split_beta Let_def)
  have "kinv (?F2(N_mutex_get t0 \<mapsto> remove1 (M_task m) xs)) (on_lists (list_del (M_task m)) s2)"
  proof (rule kinv_foreign [OF s2(2)])
    show "list_rel (list_del (M_task m) (lists s2)) (?F2(N_mutex_get t0 \<mapsto> remove1 (M_task m) xs))"
      by (rule os_list.rel_del [OF kinv_rel [OF s2(2)] F2 own(2)])
  qed (use own(3) in \<open>auto dest: notin_set_remove1\<close>)
  then show ?thesis
    using eq sched_frame_sel [OF s2(3)] s2(4) mutex_frame_critical [OF s2(3)] by (simp add: woken_def)
qed

lemma mutex_unlock_free: "mutex_count s m = 0 \<Longrightarrow> mutex_unlock m s = Some s"
  by (simp add: mutex_unlock_def)

section \<open>Lock\<close>

lemma mutex_lock_free:
  assumes k: "kinv F s" and c: "mutex_count s m = 0"
    and own: "F (N_mutex_get (current s)) = Some xs" "fresh F (M_task m)"
    and xs: "\<And>n. n \<in> set xs \<Longrightarrow> foreign n"
  shows "\<exists>s'. mutex_lock_timeout m ms s = Some (Lock_return 0, s') \<and>
    kinv (F(N_mutex_get (current s) \<mapsto> xs @ [M_task m])) s' \<and>
    mutex_count s' = (mutex_count s)(m := 1) \<and> mutex_frame s s' \<and> task s' = task s"
proof -
  let ?s1 = "set_mutex_count m 1 (snd (enter_critical s))"
  let ?s2 = "on_lists (list_add_tail (N_mutex_get (current s)) (M_task m)) ?s1"
  have cn: "current s \<noteq> NULL"
    using k by (auto simp: kinv_def cur_inv_def sched_inv_def sem_inv_def)
  have k1: "kinv F ?s1" using k by simp
  have "kinv (F(N_mutex_get (current s) \<mapsto> xs @ [M_task m])) ?s2"
    using os_list.rel_add_tail [OF kinv_rel [OF k1] own] xs
    by (intro kinv_foreign [OF k1]) auto
  moreover have "mutex_lock_timeout m ms s =
      Some (Lock_return 0, exit_critical (fst (enter_critical s)) ?s2)"
    using c cn by (simp add: mutex_lock_timeout_def mutex_lock_loop_def split_beta Let_def)
  moreover have "mutex_frame s (exit_critical (fst (enter_critical s)) ?s2)"
    by (rule mutex_frame_critical [OF sched_frame_refl])
  ultimately show ?thesis by simp
qed

text \<open>
  Locking a mutex that is held: the caller joins the tail of the wait list, sleeps, and the
  scheduler chooses; the counter does not change.
\<close>

lemma mutex_lock_held:
  assumes k: "kinv F s" and c: "mutex_count s m \<noteq> 0" and ms: "ms \<noteq> 0"
    and w: "F (M_wait m) = Some (map N_wait ts)" "fresh F (N_wait (current s))"
    and st: "t_state (task s (current s)) = PROCESS_STATE_RUNNING"
    and run: "\<not> in_interrupt s" "schedule_running s"
  shows "\<exists>s1 s' F'. mutex_lock_timeout m ms s = Some (Lock_suspended, s') \<and> kinv F' s' \<and>
    mutex_count s' = mutex_count s \<and>
    task s1 = (task s)(current s := (task s (current s))
       \<lparr>wait_time := ms, time_out := 0, t_state := PROCESS_STATE_SLEEP\<rparr>) \<and> current s1 = current s \<and>
    resched (q_add (N_sleep (current s)) TaskSleep (F(M_wait m \<mapsto> map N_wait (ts @ [current s]))))
      s1 (current s') F' s'"
proof -
  let ?t = "current s"
  let ?s0 = "on_lists (list_add_tail (M_wait m) (N_wait ?t)) (snd (enter_critical s))"
  let ?F0 = "F(M_wait m \<mapsto> map N_wait (ts @ [?t]))"
  have k0: "kinv ?F0 ?s0"
    using os_list.rel_add_tail [OF kinv_rel [of F "snd (enter_critical s)"] w] k
    by (intro kinv_foreign [of F "snd (enter_critical s)"]) auto
  have live0: "live ?F0 ?s0 ?t"
    using k live_upd_foreign [of "M_wait m" F _ s ?t] by (simp add: kinv_def cur_inv_def live_def)
  obtain s1 F1 s' F' where s': "suspend_task_timeout ?t ms ?s0 = Some (None, s')"
    "F1 = abs_set_state PROCESS_STATE_RUNNING PROCESS_STATE_SLEEP ?t (t_prio (task s ?t)) ?F0"
    "task s1 = (task s)(?t := (task s ?t)\<lparr>wait_time := ms, time_out := 0, t_state := PROCESS_STATE_SLEEP\<rparr>)"
    "current s1 = ?t" "kinv F' s'" "resched F1 s1 (current s') F' s'" "mutex_count s' = mutex_count s"
    using suspend_task_timeout_spec [OF k0 live0 ms] st run by auto
  have "mutex_lock_timeout m ms s = Some (Lock_suspended, s')"
    using c s'(1) by (simp add: mutex_lock_timeout_def mutex_lock_loop_def split_beta Let_def)
  with s' show ?thesis
    by (intro exI [of _ s1] exI [of _ s'] exI [of _ F']) (simp add: abs_set_state_def)
qed

text \<open>
  A mutex nobody holds and nobody waits for, seen by the current task.  Locking it, doing something
  that keeps the lists, and unlocking it gives the same lists back.
\<close>

definition mutex_free :: "mutex_ref \<Rightarrow> node lists \<Rightarrow> kstate \<Rightarrow> bool" where
  "mutex_free m F s \<longleftrightarrow>
     mutex_count s m = 0 \<and> F (M_wait m) = Some [] \<and> fresh F (M_task m) \<and>
     (\<exists>xs. F (N_mutex_get (current s)) = Some xs \<and> (\<forall>n \<in> set xs. foreign n))"

lemma mutex_unlock_no_waiters:
  "lnext (lists s) (M_wait m) = M_wait m \<Longrightarrow> mutex_unlock m s = Some s' \<Longrightarrow> task s' = task s"
  by (auto simp: mutex_unlock_def critical_defs wake_waiters.simps [of m "M_wait m"] Let_def split: if_splits)

lemma lock_unlock:
  assumes k: "kinv F s" and free: "mutex_free m F s"
  obtains s1 where "mutex_lock_timeout m ms s = Some (Lock_return 0, s1)"
    and "mutex_frame s s1" and "task s1 = task s" and "mutex_count s1 = (mutex_count s)(m := 1)"
    and "\<And>s2 :: kstate. lists s2 = lists s1 \<Longrightarrow> os_sched_count s2 = os_sched_count s1 \<Longrightarrow>
      sched_list_count s2 = sched_list_count s1 \<Longrightarrow> idle s2 = idle s1 \<Longrightarrow> current s2 = current s1 \<Longrightarrow>
      mutex_count s2 = mutex_count s1 \<Longrightarrow> task s2 = task s1 \<Longrightarrow>
      \<exists>s3. mutex_unlock m s2 = Some s3 \<and> kinv F s3 \<and> mutex_free m F s3 \<and> mutex_frame s2 s3 \<and>
        mutex_count s3 = mutex_count s \<and> task s3 = task s"
proof -
  let ?r = "N_mutex_get (current s)"
  obtain xs where xs: "F ?r = Some xs" "\<And>n. n \<in> set xs \<Longrightarrow> foreign n"
    and c: "mutex_count s m = 0" "F (M_wait m) = Some []" "fresh F (M_task m)"
    using free by (auto simp: mutex_free_def)
  obtain s1 where s1: "mutex_lock_timeout m ms s = Some (Lock_return 0, s1)"
    "kinv (F(?r \<mapsto> xs @ [M_task m])) s1" "mutex_count s1 = (mutex_count s)(m := 1)"
    "mutex_frame s s1" "task s1 = task s"
    using mutex_lock_free [OF k c(1) xs(1) c(3) xs(2)] by blast
  show thesis
  proof (rule that [OF s1(1) s1(4,5,3)])
    fix s2 :: kstate
    assume eq: "lists s2 = lists s1" "os_sched_count s2 = os_sched_count s1"
      "sched_list_count s2 = sched_list_count s1" "idle s2 = idle s1" "current s2 = current s1"
      "mutex_count s2 = mutex_count s1" "task s2 = task s1"
    let ?F1 = "F(?r \<mapsto> xs @ [M_task m])"
    have k2: "kinv ?F1 s2" using s1(2) by (subst kinv_cong [of s2 s1]) (simp_all add: eq)
    have "M_task m \<notin> set xs" using c(3) xs(1) by (auto simp: fresh_def)
    then have "?F1(M_wait m \<mapsto> [], ?r \<mapsto> remove1 (M_task m) (xs @ [M_task m])) = F"
      using xs(1) c(2) by (auto simp: fun_eq_iff remove1_append)
    moreover have "foreign n" if "n \<in> set (xs @ [M_task m])" for n using that xs(2) by auto
    ultimately obtain s3 where s3: "mutex_unlock m s2 = Some s3" "kinv F s3"
      "mutex_count s3 = (mutex_count s2)(m := 0)" "mutex_frame s2 s3"
      using mutex_unlock_spec [OF k2, of m "[]" "current s" "xs @ [M_task m]"] eq s1(3) c(2) by auto
    have "dlist (lists s2) (M_wait m) []" by (rule list_rel_dlist [OF kinv_rel [OF k2]]) (simp add: c(2))
    then have tsk: "task s3 = task s2" using mutex_unlock_no_waiters [OF _ s3(1)] by (simp add: dlist_def)
    note s3
    moreover have "mutex_count s3 = mutex_count s"
      using s3(3) eq(6) s1(3) c(1) by (auto simp: fun_eq_iff)
    moreover have "current s3 = current s"
      using mutex_frame_sel(1) [OF s3(4)] mutex_frame_sel(1) [OF s1(4)] eq(5) by simp
    ultimately show "\<exists>s3. mutex_unlock m s2 = Some s3 \<and> kinv F s3 \<and> mutex_free m F s3 \<and>
        mutex_frame s2 s3 \<and> mutex_count s3 = mutex_count s \<and> task s3 = task s"
      using free eq(7) s1(5) tsk by (auto simp: mutex_free_def)
  qed
qed

end
