(* ===== verification/Pid.thy ===== *)
theory Pid
  imports Mutex
begin

text \<open>
  Process identifiers and the birth and death of tasks in the scheduler (\<^verbatim>\<open>kernel/sched.c\<close>):
  the table \<^verbatim>\<open>pid_map\<close>, \<^verbatim>\<open>sched_remove_task\<close>, \<^verbatim>\<open>sched_init\<close>, and the idle task
  (\<^verbatim>\<open>build_idle_task\<close>, \<^verbatim>\<open>kernel/task.c\<close>).

  The operations on the table lock its mutex.  A definition named \<open>_locked\<close> is the code after the
  lock is taken; the operation itself gives \<^const>\<open>None\<close> in the first component when its caller is
  suspended in the lock.
\<close>

section \<open>Definitions\<close>

definition PID_NR :: int where
  "PID_NR = 1 * 4096 div 4"

definition init_pid_allocater :: "u32 \<Rightarrow> kstate \<Rightarrow> int \<times> kstate" where
  "init_pid_allocater addr s =
     (let s = init_mutex PidMapMutex s;
          s = s\<lparr>pid_nr := PID_NR\<rparr>;
          s = s\<lparr>pid_nr_free := pid_nr s\<rparr>;
          s = s\<lparr>pid_current := 0\<rparr>
      in if addr = NULL then (- ENOMEM, s\<lparr>pid_addr := None\<rparr>)
         else (0, s\<lparr>pid_addr := Some (replicate (nat PID_NR) 0)\<rparr>))"

text \<open>\<^verbatim>\<open>base[i]\<close> and \<^verbatim>\<open>base[i] = x\<close>: no value for the null pointer or outside the page.\<close>

definition pid_read :: "int \<Rightarrow> kstate \<Rightarrow> u32 option" where
  "pid_read i s = do {
     base \<leftarrow> pid_addr s;
     if 0 \<le> i \<and> nat i < length base then Some (base ! nat i) else None
   }"

definition pid_write :: "int \<Rightarrow> u32 \<Rightarrow> kstate \<Rightarrow> kstate option" where
  "pid_write i x s = do {
     base \<leftarrow> pid_addr s;
     if 0 \<le> i \<and> nat i < length base then Some (s\<lparr>pid_addr := Some (base[nat i := x])\<rparr>) else None
   }"

definition release_pid_locked :: "u32 \<Rightarrow> kstate \<Rightarrow> (int \<times> kstate) option" where
  "release_pid_locked t s = do {
     s \<leftarrow> pid_write (t_pid (task s t)) 0 s;
     s \<leftarrow> mutex_unlock PidMapMutex s;
     Some (0, s)
   }"

definition with_pid_lock :: "(kstate \<Rightarrow> (int \<times> kstate) option) \<Rightarrow> kstate \<Rightarrow> (int option \<times> kstate) option" where
  "with_pid_lock f s = do {
     (r, s) \<leftarrow> mutex_lock PidMapMutex s;
     case r of
       Lock_suspended \<Rightarrow> Some (None, s)
     | Lock_return _ \<Rightarrow> do { (v, s) \<leftarrow> f s; Some (Some v, s) }
   }"

definition release_pid :: "u32 \<Rightarrow> kstate \<Rightarrow> (int option \<times> kstate) option" where
  "release_pid t s = with_pid_lock (release_pid_locked t) s"

text \<open>The loop of \<^verbatim>\<open>get_new_pid\<close>: \<open>n\<close> is \<^verbatim>\<open>map->nr - i\<close>.\<close>

fun scan_pid :: "nat \<Rightarrow> int \<Rightarrow> u32 \<Rightarrow> kstate \<Rightarrow> (int \<times> kstate) option" where
  "scan_pid 0 i t s = Some (-1, s)"
| "scan_pid (Suc n) i t s = do {
     x \<leftarrow> pid_read i s;
     if x = 0 then do {
       s \<leftarrow> pid_write i t (s\<lparr>pid_nr_free := pid_nr_free s - 1, pid_current := pid_current s + 1\<rparr>);
       Some (i, s)
     }
     else scan_pid n (i + 1) t s
   }"

definition get_new_pid_locked :: "u32 \<Rightarrow> kstate \<Rightarrow> (int \<times> kstate) option" where
  "get_new_pid_locked t s = do {
     (pid, s) \<leftarrow> (if pid_nr_free s = 0 then Some (-1, s)
                 else scan_pid (nat (pid_nr s - pid_current s)) (pid_current s) t s);
     s \<leftarrow> mutex_unlock PidMapMutex s;
     Some (pid, s)
   }"

definition get_new_pid :: "u32 \<Rightarrow> kstate \<Rightarrow> (int option \<times> kstate) option" where
  "get_new_pid t s = with_pid_lock (get_new_pid_locked t) s"

definition pid_get_task :: "int \<Rightarrow> kstate \<Rightarrow> u32 option" where
  "pid_get_task pid s = (if pid < pid_nr s then pid_read pid s else Some NULL)"

definition sched_remove_task :: "u32 \<Rightarrow> kstate \<Rightarrow> (int option \<times> kstate) option" where
  "sched_remove_task t s =
     (let pid = get_task_pid t s in
      if get_task_state t s \<noteq> PROCESS_STATE_IDLE then Some (Some (- EINVAL), s)
      else if pid = 1 \<or> pid = 0 then Some (Some (- EINVAL), s)
      else do {
        let (flags, s) = enter_critical s;
        let s = sched_list_del_task SN_idle t s;
        let s = sched_list_del_task SN_system t s;
        let s = exit_critical flags s;
        (r, s) \<leftarrow> release_pid t s;
        Some (case r of None \<Rightarrow> None | Some _ \<Rightarrow> Some 0, s)
      })"

text \<open>The loop of \<^verbatim>\<open>sched_init\<close> over the ready table.\<close>

primrec init_sched_table :: "nat \<Rightarrow> kstate \<Rightarrow> kstate" where
  "init_sched_table 0 s = s"
| "init_sched_table (Suc i) s =
     (let s = init_sched_table i s
      in (on_lists (init_list (OsSched (int i))) s)
           \<lparr>os_sched_count := (os_sched_count s)(int i := 0)\<rparr>)"

definition sched_init :: "u32 \<Rightarrow> kstate \<Rightarrow> int \<times> kstate" where
  "sched_init page s =
     (let s = init_sched_table (nat MAX_PRIO) s;
          s = init_sched_list SN_sleep s;
          s = init_sched_list SN_idle s;
          s = init_sched_list SN_system s;
          (_, s) = init_pid_allocater page s;
          s = s\<lparr>current := NULL, next_run := NULL, schedule_running := True\<rparr>
      in (0, s))"

text \<open>\<^verbatim>\<open>build_idle_task\<close>; \<open>addr\<close> is what \<^verbatim>\<open>kmalloc\<close> returns.\<close>

definition idle_name :: "u8 list" where
  "idle_name = [105, 100, 108, 101] @ replicate (PROCESS_NAME_SIZE + 1 - 4) 0"

definition build_idle_task :: "u32 \<Rightarrow> kstate \<Rightarrow> int \<times> kstate" where
  "build_idle_task addr s =
     (let s = s\<lparr>idle := addr\<rparr> in
      if addr = NULL then (- ENOMEM, s)
      else
        (let s = upd_task addr (\<lambda>ts. ts\<lparr>t_pid := -1, t_uid := 0, t_name := idle_name,
                   t_flag := PROCESS_TYPE_KERNEL, t_parent := NULL\<rparr>) s;
             s = on_lists (init_list (N_child addr)) s;
             s = on_lists (init_list (N_p addr)) s;
             s = init_mutex (TaskMutex addr) s;
             s = init_sched_struct addr s;
             s = upd_task addr (\<lambda>ts. ts\<lparr>t_state := PROCESS_STATE_RUNNING\<rparr>) s
         in (0, s\<lparr>current := addr, next_run := addr\<rparr>)))"

section \<open>The table of identifiers\<close>

text \<open>
  \<^verbatim>\<open>current\<close> is the first identifier never given out; all entries from it on are free, and the
  counter of free identifiers counts exactly those.
\<close>

definition pid_inv :: "kstate \<Rightarrow> bool" where
  "pid_inv s \<longleftrightarrow>
     (\<exists>base. pid_addr s = Some base \<and> int (length base) = pid_nr s \<and>
        0 \<le> pid_current s \<and> pid_current s \<le> pid_nr s \<and> pid_nr_free s = pid_nr s - pid_current s \<and>
        (\<forall>i < length base. pid_current s \<le> int i \<longrightarrow> base ! i = 0))"

lemma pid_inv_cong:
  "pid_addr s' = pid_addr s \<Longrightarrow> pid_nr s' = pid_nr s \<Longrightarrow> pid_nr_free s' = pid_nr_free s \<Longrightarrow>
   pid_current s' = pid_current s \<Longrightarrow> pid_inv s' \<longleftrightarrow> pid_inv s"
  by (simp add: pid_inv_def)

lemma scan_pid_spec:
  assumes inv: "pid_inv s" and free: "pid_current s < pid_nr s"
  shows "\<exists>s'. scan_pid (nat (pid_nr s - pid_current s)) (pid_current s) t s = Some (pid_current s, s') \<and>
    pid_inv s' \<and> pid_current s' = pid_current s + 1 \<and> pid_nr s' = pid_nr s \<and>
    pid_read (pid_current s) s' = Some t \<and>
    (\<forall>i. i \<noteq> pid_current s \<longrightarrow> pid_read i s' = pid_read i s) \<and>
    s' = s\<lparr>pid_nr_free := pid_nr_free s', pid_current := pid_current s', pid_addr := pid_addr s'\<rparr>"
proof -
  let ?i = "pid_current s"
  obtain base where b: "pid_addr s = Some base" "int (length base) = pid_nr s" "0 \<le> ?i"
    "pid_nr_free s = pid_nr s - ?i" "\<And>j. j < length base \<Longrightarrow> ?i \<le> int j \<Longrightarrow> base ! j = 0"
    using inv by (auto simp: pid_inv_def)
  have lt: "nat ?i < length base" using b(2,3) free by linarith
  then have zero: "base ! nat ?i = 0" using b(3,5) by simp
  let ?s = "s\<lparr>pid_nr_free := pid_nr_free s - 1, pid_current := ?i + 1,
      pid_addr := Some (base[nat ?i := t])\<rparr>"
  obtain n where n: "nat (pid_nr s - ?i) = Suc n" using free by (cases "nat (pid_nr s - ?i)") auto
  have "scan_pid (nat (pid_nr s - ?i)) ?i t s = Some (?i, ?s)"
    using b(1,3) lt zero by (simp add: n pid_read_def pid_write_def)
  moreover have "pid_inv ?s"
    using b free lt by (auto simp: pid_inv_def nth_list_update)
  moreover have "pid_read j ?s = pid_read j s" if "j \<noteq> ?i" for j
    using that b(1,3) by (auto simp: pid_read_def nth_list_update)
  ultimately show ?thesis
    using b(1,3) lt by (intro exI [of _ ?s]) (simp add: pid_read_def)
qed

text \<open>What an operation on the table leaves as it was.\<close>

definition pid_frame :: "kstate \<Rightarrow> kstate \<Rightarrow> bool" where
  "pid_frame s s' \<longleftrightarrow> task s' = task s \<and> idle s' = idle s \<and> current s' = current s \<and> next_run s' = next_run s \<and>
     schedule_running s' = schedule_running s \<and> in_interrupt s' = in_interrupt s \<and> mutex_count s' = mutex_count s"

lemma get_new_pid_spec:
  assumes k: "kinv F s" and free: "mutex_free PidMapMutex F s" and inv: "pid_inv s"
  shows "\<exists>pid s'. get_new_pid t s = Some (Some pid, s') \<and> kinv F s' \<and> mutex_free PidMapMutex F s' \<and>
    pid_inv s' \<and> pid_nr s' = pid_nr s \<and> pid_frame s s' \<and>
    (if pid_current s < pid_nr s
     then pid = pid_current s \<and> pid_current s' = pid_current s + 1 \<and>
       pid_get_task pid s' = Some t \<and> (\<forall>i. i \<noteq> pid \<longrightarrow> pid_get_task i s' = pid_get_task i s)
     else pid = -1 \<and> pid_current s' = pid_current s \<and> pid_addr s' = pid_addr s)"
proof -
  from lock_unlock [OF k free, of "-1"] obtain s1 where s1:
    "mutex_lock_timeout PidMapMutex (-1) s = Some (Lock_return 0, s1)" "mutex_frame s s1"
    and unlock: "\<And>s2 :: kstate. lists s2 = lists s1 \<Longrightarrow> os_sched_count s2 = os_sched_count s1 \<Longrightarrow>
      sched_list_count s2 = sched_list_count s1 \<Longrightarrow> idle s2 = idle s1 \<Longrightarrow> current s2 = current s1 \<Longrightarrow>
      mutex_count s2 = mutex_count s1 \<Longrightarrow> task s2 = task s1 \<Longrightarrow>
      \<exists>s3. mutex_unlock PidMapMutex s2 = Some s3 \<and> kinv F s3 \<and> mutex_free PidMapMutex F s3 \<and>
        mutex_frame s2 s3 \<and> mutex_count s3 = mutex_count s \<and> task s3 = task s"
    by blast
  note f1 = mutex_frame_sel [OF s1(2)]
  have inv1: "pid_inv s1" using inv f1 by (subst pid_inv_cong [of _ s]) simp_all
  have nf: "pid_nr_free s1 = 0 \<longleftrightarrow> \<not> pid_current s < pid_nr s"
    using inv f1 by (auto simp: pid_inv_def)
  have unf: "get_new_pid t s = do { (v, s) \<leftarrow> get_new_pid_locked t s1; Some (Some v, s) }"
    using s1(1) by (simp add: get_new_pid_def with_pid_lock_def mutex_lock_def)
  show ?thesis
  proof (cases "pid_current s < pid_nr s")
    case False
    obtain s3 where s3: "mutex_unlock PidMapMutex s1 = Some s3" "kinv F s3"
      "mutex_free PidMapMutex F s3" "mutex_frame s1 s3" "mutex_count s3 = mutex_count s" "task s3 = task s"
      using unlock [of s1] by auto
    note f3 = mutex_frame_sel [OF s3(4)]
    have "pid_inv s3" using inv1 f3 by (subst pid_inv_cong [of _ s1]) simp_all
    with False s3 f1 f3 nf unf show ?thesis by (simp add: get_new_pid_locked_def pid_frame_def)
  next
    case True
    then have "pid_current s1 < pid_nr s1" using f1 by simp
    from scan_pid_spec [OF inv1 this, of t] obtain s2 where s2:
      "scan_pid (nat (pid_nr s1 - pid_current s1)) (pid_current s1) t s1 = Some (pid_current s1, s2)"
      "pid_inv s2" "pid_current s2 = pid_current s1 + 1" "pid_nr s2 = pid_nr s1"
      "pid_read (pid_current s1) s2 = Some t" "\<And>i. i \<noteq> pid_current s1 \<Longrightarrow> pid_read i s2 = pid_read i s1"
      "s2 = s1\<lparr>pid_nr_free := pid_nr_free s2, pid_current := pid_current s2, pid_addr := pid_addr s2\<rparr>"
      by blast
    have "lists s2 = lists s1" "os_sched_count s2 = os_sched_count s1"
      "sched_list_count s2 = sched_list_count s1" "idle s2 = idle s1" "current s2 = current s1"
      "mutex_count s2 = mutex_count s1" "task s2 = task s1"
      by (subst s2(7); simp)+
    then obtain s3 where s3: "mutex_unlock PidMapMutex s2 = Some s3" "kinv F s3"
      "mutex_free PidMapMutex F s3" "mutex_frame s2 s3" "mutex_count s3 = mutex_count s" "task s3 = task s"
      using unlock [of s2] by blast
    have f2: "idle s2 = idle s1" "current s2 = current s1" "next_run s2 = next_run s1"
      "schedule_running s2 = schedule_running s1" "in_interrupt s2 = in_interrupt s1"
      by (subst s2(7); simp)+
    note f3 = mutex_frame_sel [OF s3(4)]
    have "pid_inv s3" using s2(2) f3 by (subst pid_inv_cong [of _ s2]) simp_all
    moreover have "pid_read i s3 = pid_read i s2" "pid_read i s1 = pid_read i s" for i
      using f3 f1 by (simp_all add: pid_read_def)
    ultimately show ?thesis using True s3 s2(1-6) f1 f2 f3 nf unf
      by (simp add: get_new_pid_locked_def pid_get_task_def pid_frame_def)
  qed
qed

lemma pid_write_spec:
  assumes "pid_inv s" and "0 \<le> i" and "i < pid_current s"
  shows "\<exists>s'. pid_write i 0 s = Some s' \<and> pid_inv s' \<and> s' = s\<lparr>pid_addr := pid_addr s'\<rparr> \<and>
    pid_read i s' = Some 0 \<and> (\<forall>j. j \<noteq> i \<longrightarrow> pid_read j s' = pid_read j s)"
proof -
  obtain base where b: "pid_addr s = Some base" "int (length base) = pid_nr s" "0 \<le> pid_current s"
    "pid_current s \<le> pid_nr s" "pid_nr_free s = pid_nr s - pid_current s"
    "\<And>j. j < length base \<Longrightarrow> pid_current s \<le> int j \<Longrightarrow> base ! j = 0"
    using assms(1) by (auto simp: pid_inv_def)
  let ?s = "s\<lparr>pid_addr := Some (base[nat i := 0])\<rparr>"
  have "base[nat i := 0] ! j = 0" if "j < length base" "pid_current s \<le> int j" for j
    using b(6) [OF that] that by (cases "j = nat i") auto
  then have "pid_inv ?s" using b by (simp add: pid_inv_def)
  moreover have "pid_read j ?s = pid_read j s" if "j \<noteq> i" for j
    using that b(1) assms(2) by (auto simp: pid_read_def nth_list_update)
  moreover have "nat i < length base" using b assms by linarith
  ultimately show ?thesis
    using b assms by (intro exI [of _ ?s]) (simp add: pid_write_def pid_read_def)
qed

lemma release_pid_spec:
  assumes k: "kinv F s" and free: "mutex_free PidMapMutex F s" and inv: "pid_inv s"
    and pid: "0 \<le> t_pid (task s t)" "t_pid (task s t) < pid_current s"
  shows "\<exists>s'. release_pid t s = Some (Some 0, s') \<and> kinv F s' \<and> mutex_free PidMapMutex F s' \<and>
    pid_inv s' \<and> pid_current s' = pid_current s \<and> pid_nr s' = pid_nr s \<and>
    pid_frame s s' \<and> pid_get_task (t_pid (task s t)) s' = Some NULL \<and>
    (\<forall>i. i \<noteq> t_pid (task s t) \<longrightarrow> pid_get_task i s' = pid_get_task i s)"
proof -
  let ?i = "t_pid (task s t)"
  from lock_unlock [OF k free, of "-1"] obtain s1 where s1:
    "mutex_lock_timeout PidMapMutex (-1) s = Some (Lock_return 0, s1)" "mutex_frame s s1" "task s1 = task s"
    and unlock: "\<And>s2 :: kstate. lists s2 = lists s1 \<Longrightarrow> os_sched_count s2 = os_sched_count s1 \<Longrightarrow>
      sched_list_count s2 = sched_list_count s1 \<Longrightarrow> idle s2 = idle s1 \<Longrightarrow> current s2 = current s1 \<Longrightarrow>
      mutex_count s2 = mutex_count s1 \<Longrightarrow> task s2 = task s1 \<Longrightarrow>
      \<exists>s3. mutex_unlock PidMapMutex s2 = Some s3 \<and> kinv F s3 \<and> mutex_free PidMapMutex F s3 \<and>
        mutex_frame s2 s3 \<and> mutex_count s3 = mutex_count s \<and> task s3 = task s"
    by blast
  note f1 = mutex_frame_sel [OF s1(2)]
  have inv1: "pid_inv s1" using inv f1 by (subst pid_inv_cong [of _ s]) simp_all
  obtain s2 where s2: "pid_write ?i 0 s1 = Some s2" "pid_inv s2" "s2 = s1\<lparr>pid_addr := pid_addr s2\<rparr>"
    "pid_read ?i s2 = Some 0" "\<And>j. j \<noteq> ?i \<Longrightarrow> pid_read j s2 = pid_read j s1"
    using pid_write_spec [OF inv1, of ?i] pid f1 by auto
  have eq: "lists s2 = lists s1" "os_sched_count s2 = os_sched_count s1"
    "sched_list_count s2 = sched_list_count s1" "idle s2 = idle s1" "current s2 = current s1"
    "mutex_count s2 = mutex_count s1" "task s2 = task s1" "pid_nr s2 = pid_nr s1" "pid_current s2 = pid_current s1"
    by (subst s2(3); simp)+
  then obtain s3 where s3: "mutex_unlock PidMapMutex s2 = Some s3" "kinv F s3"
    "mutex_free PidMapMutex F s3" "mutex_frame s2 s3" "mutex_count s3 = mutex_count s" "task s3 = task s"
    using unlock [of s2] by blast
  have eq2: "next_run s2 = next_run s1" "schedule_running s2 = schedule_running s1" "in_interrupt s2 = in_interrupt s1"
    by (subst s2(3); simp)+
  note f3 = mutex_frame_sel [OF s3(4)]
  have "pid_inv s3" using s2(2) f3 by (subst pid_inv_cong [of _ s2]) simp_all
  moreover have "pid_read i s3 = pid_read i s2" "pid_read i s1 = pid_read i s" for i
    using f3 f1 by (simp_all add: pid_read_def)
  moreover have "?i < pid_nr s" using inv pid by (auto simp: pid_inv_def)
  moreover have "release_pid t s = Some (Some 0, s3)"
    using s1 s2(1) s3(1) by (simp add: release_pid_def with_pid_lock_def mutex_lock_def release_pid_locked_def)
  ultimately show ?thesis using s3 s2(4,5) eq eq2 f1 f3 by (simp add: pid_get_task_def pid_frame_def)
qed

section \<open>Removing a task\<close>

definition abs_remove :: "u32 \<Rightarrow> node lists \<Rightarrow> node lists" where
  "abs_remove t F = q_del (N_system t) TaskSystem (q_del (N_idle t) TaskIdle F)"

lemma remove_kinv:
  assumes k: "kinv F s" and t: "live F s t" "t \<noteq> idle s" "t \<noteq> current s"
    and st: "t_state (task s t) = PROCESS_STATE_IDLE"
  shows "kinv (abs_remove t F) (sched_list_del_task SN_system t (sched_list_del_task SN_idle t s))"
proof -
  let ?F1 = "q_del (N_idle t) TaskIdle F" and ?s1 = "sched_list_del_task SN_idle t s"
  let ?F2 = "abs_remove t F" and ?s2 = "sched_list_del_task SN_system t ?s1"
  have base: "base_inv F s" and sem: "sem_inv {} F s" and cur: "cur_inv F s"
    using k by (auto simp: kinv_defs)
  have on: "on F TaskIdle (N_idle t)" "on F TaskSystem (N_system t)"
    using sem t st by (auto simp: sem_inv_def live_def)
  then obtain xs ys where xs: "F TaskIdle = Some xs" "F TaskSystem = Some ys" by (auto simp: on_def)
  have base1: "base_inv ?F1 ?s1"
    using del_task_base [OF base, of SN_idle xs t] on xs by (simp add: q_del_eq)
  have base2: "base_inv ?F2 ?s2"
    using del_task_base [OF base1, of SN_system ys t] on xs by (simp add: q_del_eq abs_remove_def on_def)
  have on2: "on ?F2 q n \<longleftrightarrow> on F q n \<and> \<not> (q = TaskIdle \<and> n = N_idle t) \<and> \<not> (q = TaskSystem \<and> n = N_system t)" for q n
    by (auto simp: abs_remove_def on_q_del [OF base1] on_q_del [OF base])
  have sel: "task ?s2 = task s" "idle ?s2 = idle s" "current ?s2 = current s"
    by (simp_all add: sched_list_del_task_def)
  have live2: "live ?F2 ?s2 u \<longleftrightarrow> live F s u \<and> u \<noteq> t" for u
    using t(2) by (auto simp: live_def on2 sel)
  have "sem_inv {} ?F2 ?s2"
    using sem st unfolding sem_inv_def live2 on2 sel by auto
  moreover have "cur_inv ?F2 ?s2"
    using cur t(3) unfolding cur_inv_def live2 sel by auto
  ultimately show ?thesis using base2 by (simp add: kinv_defs)
qed

lemma mutex_free_remove:
  assumes "mutex_free m F s" and "current s' = current s" and "mutex_count s' = mutex_count s"
  shows "mutex_free m (abs_remove t F) s'"
proof -
  have other: "abs_remove t F r = F r" if "foreign r" for r
    using that foreign_neq(2,4) [of r] by (simp add: abs_remove_def)
  have fresh: "fresh (abs_remove t F) n" if n: "fresh F n" for n
    unfolding fresh_def
  proof (intro conjI allI impI)
    show "abs_remove t F n = None" using n by (auto simp: fresh_def abs_remove_def q_del_def)
    fix r xs assume "abs_remove t F r = Some xs"
    then obtain ys where "F r = Some ys" "set xs \<subseteq> set ys"
      by (auto simp: abs_remove_def q_del_def split: if_splits)
        (meson order_trans set_remove1_subset)+
    then show "n \<notin> set xs" using n by (auto simp: fresh_def)
  qed
  show ?thesis using assms fresh other by (auto simp: mutex_free_def)
qed

lemma sched_remove_task_spec:
  assumes k: "kinv F s" and free: "mutex_free PidMapMutex F s" and inv: "pid_inv s"
    and t: "live F s t" "t \<noteq> idle s" "t \<noteq> current s" "t_state (task s t) = PROCESS_STATE_IDLE"
    and pid: "1 < t_pid (task s t)" "t_pid (task s t) < pid_current s"
  shows "\<exists>s'. sched_remove_task t s = Some (Some 0, s') \<and> kinv (abs_remove t F) s' \<and>
    mutex_free PidMapMutex (abs_remove t F) s' \<and> pid_inv s' \<and> \<not> live (abs_remove t F) s' t \<and>
    pid_get_task (t_pid (task s t)) s' = Some NULL \<and> pid_frame s s'"
proof -
  let ?d = "sched_list_del_task SN_system t (sched_list_del_task SN_idle t (snd (enter_critical s)))"
  let ?s1 = "exit_critical (fst (enter_critical s)) ?d"
  let ?F = "abs_remove t F"
  have sel: "task ?s1 = task s" "current ?s1 = current s" "mutex_count ?s1 = mutex_count s"
    "pid_addr ?s1 = pid_addr s" "pid_nr ?s1 = pid_nr s" "pid_nr_free ?s1 = pid_nr_free s"
    "pid_current ?s1 = pid_current s" "idle ?s1 = idle s" "next_run ?s1 = next_run s"
    "schedule_running ?s1 = schedule_running s" "in_interrupt ?s1 = in_interrupt s"
    by (simp_all add: sched_list_del_task_def)
  have k1: "kinv ?F ?s1"
    using remove_kinv [of F "snd (enter_critical s)" t] k t by (simp add: live_def)
  have free1: "mutex_free PidMapMutex ?F ?s1" by (rule mutex_free_remove [OF free sel(2,3)])
  have inv1: "pid_inv ?s1" using inv by (subst pid_inv_cong [of _ s]) (simp_all only: sel)
  obtain s' where s': "release_pid t ?s1 = Some (Some 0, s')" "kinv ?F s'"
    "mutex_free PidMapMutex ?F s'" "pid_inv s'" "pid_get_task (t_pid (task s t)) s' = Some NULL"
    "pid_frame ?s1 s'"
    using release_pid_spec [OF k1 free1 inv1, of t, unfolded sel] pid by force
  have "sched_remove_task t s = Some (Some 0, s')"
    using s'(1) t(4) pid(1)
    by (simp add: sched_remove_task_def get_task_state_def get_task_pid_def split_beta Let_def)
  moreover have "\<not> live ?F s' t"
  proof -
    have base: "base_inv F s" using k by (simp add: kinv_defs)
    have "\<not> on (q_del (N_system t) TaskSystem (q_del (N_idle t) TaskIdle F)) TaskSystem (N_system t)"
      using os_list.rel_distinct [OF base_inv_rel [OF base], of TaskSystem]
      by (cases "F TaskSystem") (auto simp: on_def)
    moreover have "t \<noteq> idle s'" using t(2) s'(6) sel by (simp add: pid_frame_def)
    ultimately show ?thesis by (simp add: live_def abs_remove_def)
  qed
  moreover have "pid_frame s s'" using s'(6) unfolding pid_frame_def sel .
  ultimately show ?thesis using s' by blast
qed

end
