(* ===== verification/SchedReach.thy ===== *)
theory SchedReach
  imports Pid
begin

text \<open>
  The scheduler as a transition system: the state the boot sequence of \<^verbatim>\<open>init/main.c\<close> builds
  (\<^verbatim>\<open>sched_init\<close>, \<^verbatim>\<open>build_idle_task\<close>), the operations tasks and interrupts can perform on it,
  and the invariant of every state they reach.
\<close>

section \<open>Boot\<close>

lemma list_rel_empty_lists:
  assumes "\<And>r. F r = None \<or> (F r = Some [] \<and> lnext h r = r \<and> lpre h r = r)"
  shows "list_rel h F"
proof -
  have "xs = [] \<and> lnext h r = r \<and> lpre h r = r" if "F r = Some xs" for r xs
    using assms [of r] that by auto
  then show ?thesis by (fastforce simp: list_rel_def dlist_def)
qed

lemma init_list_sel [simp]:
  "lnext (init_list n h) = (lnext h)(n := n)" "lpre (init_list n h) = (lpre h)(n := n)"
  by (simp_all add: init_list_def)

lemma init_mutex_eq:
  "init_mutex m s = on_lists (\<lambda>h. init_list (M_task m) (init_list (M_wait m) h)) (set_mutex_count m 0 s)"
  by (simp add: init_mutex_def Let_def on_lists_def init_list_def set_pre_def set_next_def)

fun in_table :: "nat \<Rightarrow> node \<Rightarrow> bool" where
  "in_table n (OsSched i) \<longleftrightarrow> 0 \<le> i \<and> i < int n"
| "in_table n _ \<longleftrightarrow> False"

lemma init_sched_table_sel:
  "lnext (lists (init_sched_table n s)) r = (if in_table n r then r else lnext (lists s) r)"
  "lpre (lists (init_sched_table n s)) r = (if in_table n r then r else lpre (lists s) r)"
  "os_sched_count (init_sched_table n s) p = (if 0 \<le> p \<and> p < int n then 0 else os_sched_count s p)"
  by (induction n) (cases r; auto simp: Let_def)+

lemma init_sched_table_other [simp]:
  "sched_list_count (init_sched_table n s) = sched_list_count s" "task (init_sched_table n s) = task s"
  "current (init_sched_table n s) = current s" "idle (init_sched_table n s) = idle s"
  "next_run (init_sched_table n s) = next_run s" "schedule_running (init_sched_table n s) = schedule_running s"
  "in_interrupt (init_sched_table n s) = in_interrupt s" "cpsr (init_sched_table n s) = cpsr s"
  "mutex_count (init_sched_table n s) = mutex_count s" "pid_nr_free (init_sched_table n s) = pid_nr_free s"
  "pid_current (init_sched_table n s) = pid_current s" "pid_nr (init_sched_table n s) = pid_nr s"
  "pid_addr (init_sched_table n s) = pid_addr s"
  by (induction n) (simp_all add: Let_def)

text \<open>The lists after boot: all empty.\<close>

definition boot_heads :: "u32 \<Rightarrow> node set" where
  "boot_heads a = {r. \<exists>i. r = OsSched i \<and> prio_ok i} \<union>
     {TaskSystem, TaskSleep, TaskIdle, M_wait PidMapMutex, N_child a, M_wait (TaskMutex a), N_mutex_get a}"

definition boot_lists :: "u32 \<Rightarrow> node lists" where
  "boot_lists a = (\<lambda>r. if r \<in> boot_heads a then Some [] else None)"

definition boot :: "u32 \<Rightarrow> u32 \<Rightarrow> kstate \<Rightarrow> kstate" where
  "boot page a s = snd (build_idle_task a (snd (sched_init page s)))"

lemma boot_sel:
  assumes "a \<noteq> NULL"
  shows "current (boot page a s) = a" "next_run (boot page a s) = a" "idle (boot page a s) = a"
    "schedule_running (boot page a s)" "in_interrupt (boot page a s) = in_interrupt s"
    "t_state (task (boot page a s) a) = PROCESS_STATE_RUNNING" "t_prio (task (boot page a s) a) = 4"
    "sched_list_count (boot page a s) = (\<lambda>_. 0)" "prio_ok p \<Longrightarrow> os_sched_count (boot page a s) p = 0"
    "r \<in> boot_heads a \<Longrightarrow> lnext (lists (boot page a s)) r = r"
    "r \<in> boot_heads a \<Longrightarrow> lpre (lists (boot page a s)) r = r"
    "mutex_count (boot page a s) PidMapMutex = 0"
    "pid_nr (boot page a s) = PID_NR" "pid_nr_free (boot page a s) = PID_NR"
    "pid_current (boot page a s) = 0"
    "pid_addr (boot page a s) = (if page = NULL then None else Some (replicate (nat PID_NR) 0))"
    "t \<noteq> a \<Longrightarrow> task (boot page a s) t = task s t"
proof -
  note d = boot_def sched_init_def build_idle_task_def init_pid_allocater_def init_sched_list_def
    init_mutex_eq init_sched_struct_def Let_def split_beta get_task_run_time_def
  show "current (boot page a s) = a" "next_run (boot page a s) = a" "idle (boot page a s) = a"
    "schedule_running (boot page a s)" "in_interrupt (boot page a s) = in_interrupt s"
    "t_state (task (boot page a s) a) = PROCESS_STATE_RUNNING" "t_prio (task (boot page a s) a) = 4"
    "sched_list_count (boot page a s) = (\<lambda>_. 0)"
    "mutex_count (boot page a s) PidMapMutex = 0"
    "pid_nr (boot page a s) = PID_NR" "pid_nr_free (boot page a s) = PID_NR"
    "pid_current (boot page a s) = 0"
    "pid_addr (boot page a s) = (if page = NULL then None else Some (replicate (nat PID_NR) 0))"
    using assms sname.exhaust by (auto simp: d fun_eq_iff)
  show "t \<noteq> a \<Longrightarrow> task (boot page a s) t = task s t"
    using assms by (simp add: d)
  show "prio_ok p \<Longrightarrow> os_sched_count (boot page a s) p = 0"
    using assms by (simp add: d init_sched_table_sel prio_ok_def)
  show "r \<in> boot_heads a \<Longrightarrow> lnext (lists (boot page a s)) r = r"
    "r \<in> boot_heads a \<Longrightarrow> lpre (lists (boot page a s)) r = r"
    using assms by (auto simp: d init_sched_table_sel boot_heads_def prio_ok_def)
qed

lemma boot_kinv:
  assumes a: "a \<noteq> NULL"
  shows "kinv (boot_lists a) (boot page a s)"
proof -
  let ?s = "boot page a s" and ?F = "boot_lists a"
  note b = boot_sel [OF a]
  have on: "\<not> on ?F r n" for r n by (auto simp: on_def boot_lists_def split: if_splits)
  have live: "live ?F ?s t \<longleftrightarrow> t = a" for t by (simp add: live_def on b(3))
  have "list_rel (lists ?s) ?F"
    by (rule list_rel_empty_lists) (simp add: boot_lists_def b(10,11))
  moreover have "?F n = None" if "sched_member n" for n
    using that by (cases n) (auto simp: boot_lists_def boot_heads_def)
  moreover have "?F (OsSched i) \<noteq> None \<longleftrightarrow> prio_ok i" for i
    by (auto simp: boot_lists_def boot_heads_def)
  moreover have "os_sched_count ?s i = of_nat (length xs)" if "?F (OsSched i) = Some xs" for i xs
    using that b(9) [of i] by (auto simp: boot_lists_def boot_heads_def split: if_splits)
  moreover have "?F (sn_head name) = Some []" for name
    by (cases name) (simp_all add: boot_lists_def boot_heads_def)
  ultimately have "base_inv ?F ?s" using on b(8) by (simp add: base_inv_def)
  moreover have "sem_inv {} ?F ?s"
    using a b(3,6,7) by (auto simp: sem_inv_def on live prio_ok_def)
  moreover have "cur_inv ?F ?s" using b(1) by (simp add: cur_inv_def live)
  ultimately show ?thesis by (simp add: kinv_defs)
qed

lemma boot_pid:
  assumes a: "a \<noteq> NULL" and page: "page \<noteq> NULL"
  shows "pid_inv (boot page a s)" "mutex_free PidMapMutex (boot_lists a) (boot page a s)"
proof -
  note b = boot_sel [OF a]
  show "pid_inv (boot page a s)" using page by (auto simp: pid_inv_def b PID_NR_def)
  show "mutex_free PidMapMutex (boot_lists a) (boot page a s)"
    by (auto simp: mutex_free_def b boot_lists_def boot_heads_def fresh_def)
qed

section \<open>Steps\<close>

text \<open>A task the scheduler knows: the idle task, or one on the system list.\<close>

definition registered :: "kstate \<Rightarrow> u32 \<Rightarrow> bool" where
  "registered s t \<longleftrightarrow> t = idle s \<or>
     (case list_for_each TaskSystem (lists s) of Some ns \<Rightarrow> N_system t \<in> set ns | None \<Rightarrow> False)"

lemma registered_live:
  assumes "kinv F s"
  shows "registered s t \<longleftrightarrow> live F s t"
proof -
  have base: "base_inv F s" using assms by (simp add: kinv_defs)
  obtain xs where xs: "F TaskSystem = Some xs" using base_inv_name [OF base, of SN_system] by auto
  from os_list.rel_walk [OF base_inv_rel [OF base] this] xs show ?thesis
    by (simp add: registered_def live_def on_def)
qed

text \<open>
  A change of something the scheduler does not own: mutex counters, process identifiers, the lists of
  other components, fields of tasks other than their state and priority.
\<close>

definition other_data :: "kstate \<Rightarrow> kstate \<Rightarrow> bool" where
  "other_data s s' \<longleftrightarrow>
     (\<forall>n. \<not> foreign n \<longrightarrow> lnext (lists s') n = lnext (lists s) n \<and> lpre (lists s') n = lpre (lists s) n) \<and>
     os_sched_count s' = os_sched_count s \<and> sched_list_count s' = sched_list_count s \<and>
     (\<forall>u. t_state (task s' u) = t_state (task s u) \<and> t_prio (task s' u) = t_prio (task s u)) \<and>
     idle s' = idle s \<and> current s' = current s \<and> next_run s' = next_run s \<and>
     schedule_running s' = schedule_running s \<and> in_interrupt s' = in_interrupt s"

text \<open>
  A mutex with sound lists: registered tasks wait for it, the lists of mutexes of the current
  task and of the owner hold mutexes, and the owner's has this one if it is held.
\<close>

definition mutex_wf :: "mutex_ref \<Rightarrow> kstate \<Rightarrow> bool" where
  "mutex_wf m s \<longleftrightarrow> (\<exists>ts t0 ms ns. dlist (lists s) (M_wait m) (map N_wait ts) \<and> (\<forall>t \<in> set ts. registered s t) \<and>
     dlist (lists s) (N_mutex_get t0) (map M_task ms) \<and> (mutex_count s m \<noteq> 0 \<longrightarrow> m \<in> set ms) \<and>
     dlist (lists s) (N_mutex_get (current s)) (map M_task ns))"

text \<open>
  What tasks and interrupts do to the scheduler, one operation at a time.  The priority of a task changes while
  it runs or sleeps, not while it is ready.  Ending another task is two steps, as in \<^verbatim>\<open>kill_task\<close>: its state
  changes, and then \<^verbatim>\<open>sched_remove_task\<close> takes it off the lists.
\<close>

inductive sched_step :: "kstate \<Rightarrow> kstate \<Rightarrow> bool" where
  step_sched: "sched s = Some s' \<Longrightarrow> sched_step s s'"
| step_tick: "os_tick_handler s = Some s' \<Longrightarrow> sched_step s (os_exit_irq s')"
| step_suspend: "suspend_task_timeout (current s) ms s = Some (r, s') \<Longrightarrow> sched_step s s'"
| step_wakeup: "registered s t \<Longrightarrow> wakeup_task t s = Some (r, s') \<Longrightarrow> sched_step s s'"
| step_new: "\<not> registered s t \<Longrightarrow> t \<noteq> NULL \<Longrightarrow> t_state (task s t) = PROCESS_STATE_UNKNOWN \<Longrightarrow>
    prio_ok (t_prio (task s t)) \<Longrightarrow> set_task_state t PROCESS_STATE_PREPARE s = Some s' \<Longrightarrow> sched_step s s'"
| step_exit: "set_task_state (current s) PROCESS_STATE_IDLE s = Some s1 \<Longrightarrow> sched s1 = Some s' \<Longrightarrow>
    sched_step s s'"
| step_prio: "0 \<le> p \<Longrightarrow> t_state (task s t) = PROCESS_STATE_RUNNING \<or> t_state (task s t) = PROCESS_STATE_SLEEP \<Longrightarrow>
    set_task_prio t p s = Some (r, s') \<Longrightarrow> sched_step s s'"
| step_kill: "registered s t \<Longrightarrow> set_task_state t PROCESS_STATE_IDLE s = Some s' \<Longrightarrow> sched_step s s'"
| step_remove: "registered s t \<Longrightarrow> t \<noteq> idle s \<Longrightarrow> t \<noteq> current s \<Longrightarrow> t_state (task s t) = PROCESS_STATE_IDLE \<Longrightarrow>
    sched_step s (sched_list_del_task SN_system t (sched_list_del_task SN_idle t s))"
| step_lock: "mutex_wf m s \<Longrightarrow> ms \<noteq> 0 \<Longrightarrow> t_state (task s (current s)) \<noteq> PROCESS_STATE_IDLE \<Longrightarrow>
    mutex_lock_timeout m ms s = Some (lr, s') \<Longrightarrow> sched_step s s'"
| step_unlock: "mutex_wf m s \<Longrightarrow> mutex_unlock m s = Some s' \<Longrightarrow> sched_step s s'"
| step_other: "other_data s s' \<Longrightarrow> sched_step s s'"

text \<open>Between steps the processor runs \<^verbatim>\<open>next_run\<close>, outside interrupts.\<close>

definition kready :: "node lists \<Rightarrow> kstate \<Rightarrow> bool" where
  "kready F s \<longleftrightarrow> kinv F s \<and> next_run s = current s \<and> schedule_running s \<and> \<not> in_interrupt s"

lemma kready_kinv: "kready F s \<Longrightarrow> kinv F s" "kready F s \<Longrightarrow> next_run s = current s"
  "kready F s \<Longrightarrow> schedule_running s" "kready F s \<Longrightarrow> \<not> in_interrupt s"
  by (simp_all add: kready_def)

lemma boot_kready: "a \<noteq> NULL \<Longrightarrow> \<not> in_interrupt s \<Longrightarrow> kready (boot_lists a) (boot page a s)"
  by (simp add: kready_def boot_kinv boot_sel)

lemma kready_frame:
  "kinv F s' \<Longrightarrow> sched_frame s s' \<Longrightarrow> kready G s \<Longrightarrow> kready F s'"
  by (simp add: kready_def sched_frame_sel)

lemma sched_ready:
  assumes "kready F s"
  shows "\<exists>s' F'. sched s = Some s' \<and> kready F' s' \<and> resched F s (current s') F' s'"
  using sched_spec [OF kready_kinv(1) [OF assms] kready_kinv(4) [OF assms] kready_kinv(3) [OF assms]] assms
  by (auto simp: kready_def)

lemma tick_ready:
  assumes "kready F s"
  shows "\<exists>s' F'. os_tick_handler s = Some s' \<and> kready F' (os_exit_irq s')"
proof -
  obtain s' F' where "os_tick_handler s = Some s'" "kinv F' (os_exit_irq s')"
    "schedule_running s' = schedule_running s" "in_interrupt s' = in_interrupt s"
    using os_tick_handler_spec [OF kready_kinv(1) [OF assms] kready_kinv(2) [OF assms]] by blast
  moreover from this assms have "kready F' (os_exit_irq s')"
    by (simp add: kready_def os_exit_irq_def)
  ultimately show ?thesis by blast
qed

lemma suspend_ready:
  assumes r: "kready F s" and s': "suspend_task_timeout (current s) ms s = Some (r, s')"
  shows "\<exists>F'. kready F' s'"
proof -
  note k = kready_kinv [OF r]
  have c: "live F s (current s)" using k(1) by (simp add: kinv_def cur_inv_def)
  show ?thesis
  proof (cases "ms = 0 \<or> t_state (task s (current s)) = PROCESS_STATE_IDLE")
    case True
    then have "s' = s \<or> s' = exit_critical (fst (enter_critical s)) (snd (enter_critical s))"
      using s' by (auto simp: suspend_task_timeout_def get_task_state_def split_beta Let_def split: if_splits)
    with r show ?thesis by (auto simp: kready_def)
  next
    case False
    from suspend_task_timeout_spec [OF k(1) c _ _ k(4,3), of ms] False s' r show ?thesis
      by (auto simp: kready_def)
  qed
qed

lemma kill_ready:
  assumes r: "kready F s" and t: "live F s t"
  shows "\<exists>s1 F1. set_task_state t PROCESS_STATE_IDLE s = Some s1 \<and> kready F1 s1"
proof (cases "t_state (task s t) = PROCESS_STATE_IDLE")
  case True
  with r show ?thesis using set_task_state_ignored [of s t PROCESS_STATE_IDLE]
    by (auto simp: get_state_change_eq)
next
  case False
  note k = kready_kinv [OF r]
  have "sched_inv F s" using k(1) by (simp add: kinv_def)
  with False t sched_inv_state_cases [of F s t]
  have "transition (t_state (task s t)) PROCESS_STATE_IDLE" by (auto simp: transition_def)
  from set_task_state_kinv [OF k(1) t this] obtain s1 F1
    where "set_task_state t PROCESS_STATE_IDLE s = Some s1" "kinv F1 s1"
      "state_frame t PROCESS_STATE_IDLE s s1" by blast
  then show ?thesis using kready_frame [OF _ state_frame_sched r] by blast
qed

lemma exit_ready:
  assumes r: "kready F s"
  shows "\<exists>s1 F1. set_task_state (current s) PROCESS_STATE_IDLE s = Some s1 \<and> kready F1 s1"
  using kill_ready [OF r, of "current s"] kready_kinv(1) [OF r] by (simp add: kinv_def cur_inv_def)

text \<open>The lists of the scheduler alone.\<close>

definition own_lists :: "node lists \<Rightarrow> node lists" where
  "own_lists F r = (if sched_heads r then F r else None)"

lemma own_lists_head [simp]:
  "own_lists F (OsSched i) = F (OsSched i)" "own_lists F TaskSystem = F TaskSystem"
  "own_lists F TaskSleep = F TaskSleep" "own_lists F TaskIdle = F TaskIdle" "own_lists F (sn_head name) = F (sn_head name)"
  by (cases name; simp add: own_lists_def sched_heads_def)+

lemma other_kinv:
  assumes k: "kinv F s" and d: "other_data s s'"
  shows "kinv (own_lists F) s'"
proof -
  let ?F = "own_lists F"
  have base: "base_inv F s" and sem: "sem_inv {} F s" and cur: "cur_inv F s" using k by (auto simp: kinv_defs)
  have on: "on ?F r n \<longleftrightarrow> sched_heads r \<and> on F r n" for r n by (simp add: on_def own_lists_def)
  have oh: "on ?F (OsSched i) n \<longleftrightarrow> on F (OsSched i) n" "on ?F TaskSystem n \<longleftrightarrow> on F TaskSystem n"
    "on ?F TaskSleep n \<longleftrightarrow> on F TaskSleep n" "on ?F TaskIdle n \<longleftrightarrow> on F TaskIdle n" for i n
    by (simp_all add: on sched_heads_def)
  have live: "live ?F s' t \<longleftrightarrow> live F s t" for t using d by (simp add: live_def oh other_data_def)
  have "dlist (lists s') r xs" if "?F r = Some xs" for r xs
  proof -
    have r: "sched_heads r" "F r = Some xs" using that by (auto simp: own_lists_def split: if_splits)
    have "\<not> foreign n" if n: "n \<in> set (r # xs)" for n
    proof (cases "n = r")
      case False
      then have "sched_head_member r n" using n r(2) base_inv_on [OF base, of r n] by (simp add: on_def)
      then show ?thesis using r(1) by (cases r) (auto simp: sched_heads_def foreign_def)
    qed (use r(1) in \<open>simp add: foreign_def\<close>)
    then show ?thesis
      using d list_rel_dlist [OF base_inv_rel [OF base] r(2)] by (subst dlist_cong [of r xs _ "lists s"]) (auto simp: other_data_def)
  qed
  then have "list_rel (lists s') ?F" using base_inv_rel [OF base] by (auto simp: list_rel_def own_lists_def split: if_splits)
  moreover have "?F n = None" if "sched_member n" for n using base that by (simp add: base_inv_def own_lists_def)
  ultimately have "base_inv ?F s'"
    using base d unfolding base_inv_def own_lists_head on by (simp add: other_data_def)
  moreover have "sem_inv {} ?F s'" using sem d unfolding sem_inv_def live oh by (simp add: other_data_def)
  moreover have "cur_inv ?F s'" using cur d unfolding cur_inv_def live by (simp add: other_data_def)
  ultimately show ?thesis by (simp add: kinv_defs)
qed

lemma new_ready:
  assumes r: "kready F s" and t: "\<not> registered s t" "t \<noteq> NULL" "prio_ok (t_prio (task s t))"
    and st: "t_state (task s t) = PROCESS_STATE_UNKNOWN"
  shows "\<exists>s'. set_task_state t PROCESS_STATE_PREPARE s = Some s' \<and>
    kready (abs_new t (t_prio (task s t)) F) s' \<and> state_frame t PROCESS_STATE_PREPARE s s'"
proof -
  note k = kready_kinv [OF r]
  let ?F = "abs_new t (t_prio (task s t)) F"
  have nl: "\<not> live F s t" using t(1) registered_live [OF k(1)] by simp
  have base: "base_inv F s" and inv: "sched_inv F s" and cur: "cur_inv F s"
    using k(1) by (auto simp: kinv_defs)
  obtain s' where s': "set_task_state t PROCESS_STATE_PREPARE s = Some s'" "sched_inv ?F s'"
    "state_frame t PROCESS_STATE_PREPARE s s'"
    using set_task_state_new [OF inv nl t(2,3) st] by blast
  note f = state_frame_sel [OF s'(3)]
  obtain xs where xs: "F TaskSystem = Some xs" using base_inv_name [OF base, of SN_system] by auto
  have "live ?F s' u \<longleftrightarrow> u = t \<or> live F s u" for u
    using xs f(3) by (auto simp: abs_new_def live_def on_q_add)
  moreover have "t_state (task s' u) = (if u = t then PROCESS_STATE_PREPARE else t_state (task s u))" for u
    using f(1) by simp
  ultimately have "cur_inv ?F s'"
    using cur f(2) unfolding cur_inv_def by (metis state_t.distinct(1))
  with s' have "kinv ?F s'" by (simp add: kinv_def)
  then show ?thesis using s' kready_frame [OF _ state_frame_sched r] by blast
qed

lemma other_ready: "kready F s \<Longrightarrow> other_data s s' \<Longrightarrow> kready (own_lists F) s'"
  using other_kinv [of F s s'] by (auto simp: kready_def other_data_def)

lemma dlist_pre_foreign: "dlist h r xs \<Longrightarrow> foreign r \<Longrightarrow> (\<And>n. n \<in> set xs \<Longrightarrow> foreign n) \<Longrightarrow> foreign (lpre h r)"
  using dlist_pre_in [of h r xs r] by auto

lemma lock_ready:
  assumes r: "kready F s" and w: "mutex_wf m s" and ms: "ms \<noteq> 0" "t_state (task s (current s)) \<noteq> PROCESS_STATE_IDLE"
    and l: "mutex_lock_timeout m ms s = Some (lr, s')"
  shows "\<exists>F'. kready F' s'"
proof -
  obtain ts ns where d: "dlist (lists s) (M_wait m) (map N_wait ts)" "dlist (lists s) (N_mutex_get (current s)) (map M_task ns)"
    using w by (auto simp: mutex_wf_def)
  have f: "foreign (lpre (lists s) (M_wait m))" "foreign (lpre (lists s) (N_mutex_get (current s)))"
    by (rule dlist_pre_foreign [OF d(1)]; auto) (rule dlist_pre_foreign [OF d(2)]; auto)
  show ?thesis
  proof (cases "mutex_count s m = 0")
    case True
    then have "other_data s s'"
      using l f(2) by (auto simp: mutex_lock_timeout_def mutex_lock_loop_def Let_def split_beta other_data_def list_add_tail_def split: if_splits)
    with r show ?thesis using other_ready by blast
  next
    case False
    let ?s = "on_lists (list_add_tail (M_wait m) (N_wait (current s))) (snd (enter_critical s))"
    have "other_data s ?s" using f(1) by (auto simp: other_data_def list_add_tail_def Let_def)
    then have r1: "kready (own_lists F) ?s" by (rule other_ready [OF r])
    have "current s \<noteq> NULL" using kready_kinv(1) [OF r] by (auto simp: kinv_def cur_inv_def sched_inv_def sem_inv_def)
    then have "suspend_task_timeout (current ?s) ms ?s = Some (None, s')"
      using l False ms by (auto simp: mutex_lock_timeout_def mutex_lock_loop_def Let_def split_beta suspend_task_timeout_def
          get_task_state_def bind_eq_Some split: option.splits if_splits)
    from suspend_ready [OF r1 this] show ?thesis .
  qed
qed

lemma kinv_enlist:
  assumes k: "kinv F s" and d: "dlist (lists s) r ys" and f: "foreign r" "\<And>n. n \<in> set ys \<Longrightarrow> foreign n"
    and own: "\<And>q zs. q \<noteq> r \<Longrightarrow> F q = Some zs \<Longrightarrow> set (q # zs) \<inter> set (r # ys) = {}"
  shows "kinv (F(r \<mapsto> ys)) s"
proof -
  have "list_rel (lists s) (F(r \<mapsto> ys))"
    using kinv_rel [OF k] d own unfolding list_rel_def by (auto split: if_splits)
  then show ?thesis using kinv_foreign [OF k, of "\<lambda>h. h" r ys] f by (simp add: on_lists_def)
qed

lemma unlock_ready:
  assumes r: "kready F s" and w: "mutex_wf m s" and u: "mutex_unlock m s = Some s'"
  shows "\<exists>F'. kready F' s'"
proof (cases "mutex_count s m = 0")
  case True
  then show ?thesis using r u mutex_unlock_free by fastforce
next
  case False
  obtain ts t0 ms where d: "dlist (lists s) (M_wait m) (map N_wait ts)" "\<forall>t \<in> set ts. registered s t"
    "dlist (lists s) (N_mutex_get t0) (map M_task ms)" "m \<in> set ms"
    using w False by (auto simp: mutex_wf_def)
  note k = kready_kinv(1) [OF r]
  have base: "base_inv F s" using k by (simp add: kinv_defs)
  have "other_data s s" by (simp add: other_data_def)
  then have k0: "kinv (own_lists F) s" by (rule other_kinv [OF k])
  have own: "set (q # zs) \<inter> set (h # ys) = {}"
    if "own_lists F q = Some zs" "foreign h" "\<And>n. n \<in> set ys \<Longrightarrow> foreign n" for q zs h ys
  proof -
    have q: "sched_heads q" "F q = Some zs" using that(1) by (auto simp: own_lists_def split: if_splits)
    have "\<not> foreign n" if "n \<in> set (q # zs)" for n
      using that q base_inv_on [OF base, of q n] by (cases q) (auto simp: sched_heads_def foreign_def on_def)
    then show ?thesis using that(2,3) by (metis disjoint_iff set_ConsD)
  qed
  let ?F1 = "(own_lists F)(M_wait m \<mapsto> map N_wait ts)"
  let ?F2 = "?F1(N_mutex_get t0 \<mapsto> map M_task ms)"
  have k1: "kinv ?F1 s"
    by (rule kinv_enlist [OF k0 d(1)]; (rule own)?) auto
  have k2: "kinv ?F2 s"
  proof (rule kinv_enlist [OF k1 d(3)])
    fix q zs assume "q \<noteq> N_mutex_get t0" "?F1 q = Some zs"
    then show "set (q # zs) \<inter> set (N_mutex_get t0 # map M_task ms) = {}"
    proof (cases "q = M_wait m")
      case False
      then have "own_lists F q = Some zs" using \<open>?F1 q = Some zs\<close> by simp
      then show ?thesis by (rule own) auto
    qed auto
  qed auto
  have live: "live ?F2 s t \<longleftrightarrow> live F s t" for t by (simp add: live_def on_def)
  have w2: "?F2 (M_wait m) = Some (map N_wait ts)" by simp
  have l2: "\<And>t. t \<in> set ts \<Longrightarrow> live ?F2 s t" using live d(2) registered_live [OF k] by blast
  have o2: "?F2 (N_mutex_get t0) = Some (map M_task ms)" "M_task m \<in> set (map M_task ms)" "\<And>n. n \<in> set (map M_task ms) \<Longrightarrow> foreign n"
    using d(4) by auto
  obtain G where "kinv G s'" "mutex_frame s s'"
    using mutex_unlock_spec [OF k2 False w2 l2 o2] u by auto
  with r show ?thesis using mutex_frame_sel [of s s'] by (auto simp: kready_def)
qed

lemma sched_step_inv:
  assumes r: "kready F s" and step: "sched_step s s'"
  shows "\<exists>F'. kready F' s'"
  using step
proof (cases rule: sched_step.cases)
  case step_sched
  with sched_ready [OF r] show ?thesis by auto
next
  case step_tick
  with tick_ready [OF r] show ?thesis by auto
next
  case step_suspend
  with suspend_ready [OF r] show ?thesis by blast
next
  case (step_wakeup t r')
  with wakeup_task_spec [OF kready_kinv(1) [OF r], of t] registered_live [OF kready_kinv(1) [OF r]]
    kready_frame [OF _ _ r] show ?thesis by fastforce
next
  case (step_new t)
  with new_ready [OF r step_new(1,2,4,3)] show ?thesis by auto
next
  case (step_exit s1)
  with exit_ready [OF r] sched_ready show ?thesis by fastforce
next
  case (step_prio p t r')
  show ?thesis
  proof (cases "p < MAX_PRIO")
    case True
    with set_task_prio_spec [OF kready_kinv(1) [OF r] step_prio(1) _ step_prio(2)] step_prio(3)
      kready_frame [OF _ upd_task_sched(1) r] show ?thesis by auto
  next
    case False
    with step_prio r show ?thesis by (auto simp: set_task_prio_def)
  qed
next
  case (step_kill t)
  with kill_ready [OF r, of t] registered_live [OF kready_kinv(1) [OF r]] show ?thesis by auto
next
  case (step_remove t)
  then have "kinv (abs_remove t F) s'"
    using remove_kinv [OF kready_kinv(1) [OF r]] registered_live [OF kready_kinv(1) [OF r]] by auto
  with r show ?thesis unfolding step_remove(1) by (auto simp: kready_def sched_list_del_task_def)
next
  case step_lock
  with lock_ready [OF r] show ?thesis by blast
next
  case step_unlock
  with unlock_ready [OF r] show ?thesis by blast
next
  case step_other
  with other_ready [OF r] show ?thesis by blast
qed

lemma reachable_kready:
  assumes "kready F s" and "sched_step\<^sup>*\<^sup>* s s'"
  shows "\<exists>F'. kready F' s'"
  using assms(2,1) by (induction rule: rtranclp_induct) (use sched_step_inv in blast)+

end
