(* ===== verification/SchedProps.thy ===== *)
theory SchedProps
  imports SchedReach
begin

text \<open>
  The properties of the scheduler, the mutexes and the process identifiers, stated over the
  definitions of \<open>Sched\<close>, \<open>Mutex\<close> and \<open>Pid\<close>, each with an instance on a concrete kernel: the
  state after boot with two tasks registered, at priorities 5 and 20.
\<close>

section \<open>A concrete kernel\<close>

definition blank_mm :: mm_struct where
  "blank_mm = \<lparr>elf_size = 0, stack_size = 0, stack_curr = None, elf_curr = None\<rparr>"

definition blank_task :: "int \<Rightarrow> task_struct" where
  "blank_task p = \<lparr>stack_base = 0, stack_origin = 0, t_name = [], t_flag = 2, t_pid = 0, t_uid = 0,
     t_state = PROCESS_STATE_UNKNOWN, exit_state = PROCESS_STATE_UNKNOWN, t_signal = 0, exit_code = 0,
     t_mm = blank_mm, t_parent = 0, run_time = 1, wait_time = -1, time_out = 0, run_count = 0,
     t_prio = p, pre_prio = p, t_message = 0\<rparr>"

definition blank :: kstate where
  "blank = \<lparr>lists = \<lparr>lnext = (\<lambda>n. n), lpre = (\<lambda>n. n)\<rparr>, os_sched_count = (\<lambda>_. 0),
     sched_list_count = (\<lambda>_. 0), task = (\<lambda>t. blank_task (if t = 0x3000 then 5 else 20)), current = 0,
     idle = 0, next_run = 0, schedule_running = False, in_interrupt = False, cpsr = 0x13,
     mutex_count = (\<lambda>_. 0), pid_nr_free = 0, pid_current = 0, pid_nr = 0, pid_addr = None\<rparr>"

definition booted :: kstate where
  "booted = boot 0x1000 0x2000 blank"

definition demo :: kstate where
  "demo = the (do { s \<leftarrow> set_task_state 0x3000 PROCESS_STATE_PREPARE booted;
                    set_task_state 0x4000 PROCESS_STATE_PREPARE s })"

definition demo_lists :: "node lists" where
  "demo_lists = abs_new 0x4000 20 (abs_new 0x3000 5 (boot_lists 0x2000))"

lemma booted_ready: "kready (boot_lists 0x2000) booted"
  unfolding booted_def by (rule boot_kready) (simp_all add: blank_def)

lemma booted_task:
  "t \<noteq> 0x2000 \<Longrightarrow> task booted t = blank_task (if t = 0x3000 then 5 else 20)"
  "current booted = 0x2000" "t_state (task booted 0x2000) = PROCESS_STATE_RUNNING"
  "idle booted = 0x2000" "t_prio (task booted 0x2000) = 4"
  by (simp_all add: booted_def boot_sel) (simp add: blank_def)

lemma booted_registered: "registered booted t \<longleftrightarrow> t = 0x2000"
proof -
  have "live (boot_lists 0x2000) booted t \<longleftrightarrow> t = 0x2000"
    by (auto simp: live_def booted_task on_def boot_lists_def split: if_splits)
  with registered_live [OF kready_kinv(1) [OF booted_ready]] show ?thesis by simp
qed

lemma demo_spec:
  "kready demo_lists demo \<and> current demo = 0x2000 \<and> idle demo = 0x2000 \<and> mutex_count demo PidMapMutex = 0 \<and>
   task demo = (task booted)(0x3000 := (blank_task 5)\<lparr>t_state := PROCESS_STATE_PREPARE\<rparr>,
     0x4000 := (blank_task 20)\<lparr>t_state := PROCESS_STATE_PREPARE\<rparr>)"
proof -
  have b: "t_state (blank_task p) = PROCESS_STATE_UNKNOWN" "t_prio (blank_task p) = p" for p
    by (simp_all add: blank_task_def)
  obtain s where s: "set_task_state 0x3000 PROCESS_STATE_PREPARE booted = Some s"
    "kready (abs_new 0x3000 5 (boot_lists 0x2000)) s" "state_frame 0x3000 PROCESS_STATE_PREPARE booted s"
    using new_ready [OF booted_ready, of "0x3000"] by (auto simp: booted_registered booted_task b prio_ok_def)
  note f = state_frame_sel [OF s(3)]
  have t: "task s 0x4000 = blank_task 20" "task s 0x3000 = (blank_task 5)\<lparr>t_state := PROCESS_STATE_PREPARE\<rparr>"
    using f(1) by (simp_all add: booted_task)
  have "\<not> live (abs_new 0x3000 5 (boot_lists 0x2000)) s 0x4000"
    using f(3) by (auto simp: live_def booted_task on_def abs_new_def boot_lists_def boot_heads_def)
  then have nr: "\<not> registered s 0x4000" using registered_live [OF kready_kinv(1) [OF s(2)]] by simp
  obtain s' where s': "set_task_state 0x4000 PROCESS_STATE_PREPARE s = Some s'"
    "kready demo_lists s'" "state_frame 0x4000 PROCESS_STATE_PREPARE s s'"
    using new_ready [OF s(2) nr] by (auto simp: t b prio_ok_def demo_lists_def)
  have "demo = s'" using s(1) s'(1) by (simp add: demo_def)
  moreover have "mutex_count booted PidMapMutex = 0" by (simp add: booted_def boot_sel)
  ultimately show ?thesis
    using s'(2) state_frame_sel [OF s'(3)] f by (simp add: t booted_task)
qed

lemma demo_task:
  "t_state (task demo 0x2000) = PROCESS_STATE_RUNNING" "t_prio (task demo 0x2000) = 4"
  "task demo 0x3000 = (blank_task 5)\<lparr>t_state := PROCESS_STATE_PREPARE\<rparr>"
  "task demo 0x4000 = (blank_task 20)\<lparr>t_state := PROCESS_STATE_PREPARE\<rparr>"
  "current demo = 0x2000" "idle demo = 0x2000"
  using demo_spec by (simp_all add: booted_task)

lemma demo_ready: "kready demo_lists demo" and demo_kinv: "kinv demo_lists demo"
  using demo_spec kready_kinv(1) by auto

lemma demo_lists_sel:
  "demo_lists (OsSched 5) = Some [N_prio_running 0x3000]" "demo_lists (OsSched 20) = Some [N_prio_running 0x4000]"
  "demo_lists TaskSystem = Some [N_system 0x3000, N_system 0x4000]"
  "demo_lists TaskSleep = Some []" "demo_lists TaskIdle = Some []"
  "prio_ok i \<Longrightarrow> i \<noteq> 5 \<Longrightarrow> i \<noteq> 20 \<Longrightarrow> demo_lists (OsSched i) = Some []"
  "foreign r \<Longrightarrow> demo_lists r = boot_lists 0x2000 r"
  using foreign_neq(1,2) [of r]
  by (simp_all add: demo_lists_def abs_new_def boot_lists_def boot_heads_def prio_ok_def)

section \<open>Shared lemmas\<close>

lemma first_ready_task:
  assumes "kinv F s" and "first_ready F t p"
  shows "live F s t" "t_state (task s t) = PROCESS_STATE_PREPARE" "t_prio (task s t) = p"
proof -
  have "on F (OsSched p) (N_prio_running t)" using assms(2) by (auto simp: first_ready_def on_def)
  then show "live F s t" "t_state (task s t) = PROCESS_STATE_PREPARE" "t_prio (task s t) = p"
    using assms(1) by (auto simp: kinv_defs sem_inv_def)
qed

lemma first_ready_unique: "first_ready F t p \<Longrightarrow> first_ready F u q \<Longrightarrow> u = t \<and> q = p"
proof -
  assume a: "first_ready F t p" "first_ready F u q"
  then have "\<not> q < p" "\<not> p < q" by (auto simp: first_ready_def)
  then have "q = p" by simp
  with a show ?thesis by (auto simp: first_ready_def)
qed

lemma first_ready_not_nothing: "first_ready F t p \<Longrightarrow> \<not> nothing_ready F"
  by (auto simp: first_ready_def nothing_ready_def)

lemma resched_first:
  assumes "first_ready F t p" and "resched F s n F' s'"
  shows "n = t"
  using assms first_ready_unique [of F t p n] first_ready_not_nothing [of F t p] by (auto simp: resched_def)

lemma resched_nothing:
  assumes "nothing_ready F" and "resched F s n F' s'"
  shows "n = current s" "F' = F" "t_state (task s' u) = t_state (task s u)"
  using assms first_ready_not_nothing [of F n] by (auto simp: resched_def)

lemma resched_sleeping:
  assumes "kinv F s" and "resched F s n F' s'"
  shows "t_state (task s' u) = PROCESS_STATE_SLEEP \<longleftrightarrow> t_state (task s u) = PROCESS_STATE_SLEEP"
    "t_state (task s u) = PROCESS_STATE_SLEEP \<Longrightarrow> wait_time (task s' u) = wait_time (task s u)"
proof -
  have n: "t_state (task s n) = PROCESS_STATE_PREPARE" if "n \<noteq> current s"
    using assms that by (auto simp: resched_def dest: first_ready_task)
  show "t_state (task s' u) = PROCESS_STATE_SLEEP \<longleftrightarrow> t_state (task s u) = PROCESS_STATE_SLEEP"
    using assms(2) n switch_states_sel(1) [of s n s' u] by (auto simp: resched_def split: if_splits)
  assume "t_state (task s u) = PROCESS_STATE_SLEEP"
  then have "u \<noteq> n \<or> n = current s" using n by (cases "n = current s") auto
  then show "wait_time (task s' u) = wait_time (task s u)"
    using assms(2) switch_states_sel(3) [of s n s' u] by (auto simp: resched_def)
qed

lemma sleepers_iff:
  assumes "kinv F s"
  shows "u \<in> set (sleepers F) \<longleftrightarrow> registered s u \<and> t_state (task s u) = PROCESS_STATE_SLEEP"
proof -
  have base: "base_inv F s" and sem: "sem_inv {} F s" using assms by (auto simp: kinv_defs)
  have "u \<in> set (sleepers F) \<longleftrightarrow> on F TaskSleep (N_sleep u)"
    using sleepers_eq [OF base] by (auto simp: on_def)
  with sem registered_live [OF assms] show ?thesis by (simp add: sem_inv_def)
qed

lemma walk_list:
  assumes "kinv F s" and "F r = Some xs"
  shows "list_for_each r (lists s) = Some xs"
  using os_list.rel_walk [OF kinv_rel [OF assms(1)] assms(2)] .

text \<open>The queue of a priority after the sleepers that run out have been made ready.\<close>

lemma fold_wake_queue:
  assumes "F (OsSched p) = Some ns"
  shows "fold (abs_wake T) ts F (OsSched p) =
    Some (ns @ map N_prio_running (filter (\<lambda>u. expires (T u) \<and> t_prio (T u) = p) ts))"
  using assms
proof (induction ts arbitrary: F ns)
  case (Cons t ts)
  have "abs_wake T t F (OsSched p) =
      Some (ns @ (if expires (T t) \<and> t_prio (T t) = p then [N_prio_running t] else []))"
    using Cons.prems by (auto simp: abs_wake_def abs_set_state_def)
  then show ?case using Cons.IH [of "abs_wake T t F"] by simp
qed simp

definition due :: "kstate \<Rightarrow> int \<Rightarrow> u32 list \<Rightarrow> u32 list" where
  "due s p us = filter (\<lambda>u. (wait_time (task s u) = 0 \<or> wait_time (task s u) = 1) \<and> t_prio (task s u) = p) us"

lemma abs_tick_queue:
  assumes "F TaskSleep = Some (map N_sleep us)" "F (OsSched p) = Some ns"
  shows "abs_tick s F (OsSched p) = Some (ns @ map N_prio_running (due s p us))"
proof -
  have "sleepers F = us" using assms(1) by (simp add: sleepers_def map_filter_def comp_def)
  then show ?thesis
    using fold_wake_queue [of F p ns "task s" us] assms(2) by (simp add: abs_tick_def due_def expires_def)
qed

text \<open>
  The queue after the tick: unchanged if the slice of the current task goes on or it is chosen again, and otherwise
  without the chosen task and with the current task at its tail, if that is its queue and it was running.
\<close>

definition after_switch :: "kstate \<Rightarrow> u32 \<Rightarrow> int \<Rightarrow> node list \<Rightarrow> node list" where
  "after_switch s n p ns =
     (if n = current s then ns
      else remove1 (N_prio_running n)
        (ns @ (if t_state (task s (current s)) = PROCESS_STATE_RUNNING \<and> t_prio (task s (current s)) = p
               then [N_prio_running (current s)] else [])))"

lemma abs_switch_queue:
  assumes k: "kinv F s" and n: "first_ready F n (t_prio (task s n))" "n \<noteq> current s" and q: "F (OsSched p) = Some ns"
  shows "abs_switch s n F (OsSched p) = Some (after_switch s n p ns)"
proof -
  have "N_prio_running n \<notin> set ns" if "t_prio (task s n) \<noteq> p"
    using k q that by (auto simp: kinv_defs sem_inv_def on_def)
  then show ?thesis
    using q n(2) by (cases "t_prio (task s n) = p"; cases "t_prio (task s (current s)) = p")
      (auto simp: abs_switch_def abs_set_state_def after_switch_def remove1_append remove1_idem)
qed

lemma resched_queue:
  assumes "kinv F s" "resched F s n F' s'" "F (OsSched p) = Some ns"
  shows "F' (OsSched p) = Some (after_switch s n p ns)"
  using assms abs_switch_queue [OF assms(1) _ _ assms(3), of n] by (auto simp: resched_def after_switch_def)

text \<open>The states, waiting times and queues after one tick, whether or not the tick ends the time slice.\<close>

lemma tick_effect:
  assumes r: "kready F s" and us: "F TaskSleep = Some (map N_sleep us)"
  shows "\<exists>s' F'. os_tick_handler s = Some s' \<and> kready F' (os_exit_irq s') \<and> idle s' = idle s \<and>
    (\<forall>u. live F' (os_exit_irq s') u \<longleftrightarrow> live F s u) \<and>
    (\<forall>u \<in> set us. if expires (task s u)
       then t_state (task s' u) = (if u = next_run s' \<and> u \<noteq> current s then PROCESS_STATE_RUNNING else PROCESS_STATE_PREPARE)
       else t_state (task s' u) = PROCESS_STATE_SLEEP \<and> wait_time (task s' u) =
         (if wait_time (task s u) > 0 then wait_time (task s u) - 1 else wait_time (task s u))) \<and>
    (\<forall>u. t_state (task s u) \<noteq> PROCESS_STATE_SLEEP \<longrightarrow> t_state (task s' u) \<noteq> PROCESS_STATE_SLEEP) \<and>
    (\<forall>p ns. F (OsSched p) = Some ns \<longrightarrow>
       F' (OsSched p) = Some (after_switch s (next_run s') p (ns @ map N_prio_running (due s p us))))"
proof -
  note k = kready_kinv [OF r]
  have sl: "sleepers F = us" using us by (simp add: sleepers_def map_filter_def comp_def)
  obtain s1 s' F' where s': "os_tick_handler s = Some s'" "kinv F' (os_exit_irq s')" "tick_tasks F s s1"
    "current s1 = current s" "idle s' = idle s" "in_interrupt s' = in_interrupt s"
    "schedule_running s' = schedule_running s" "kinv (abs_tick s F) s1"
    and c: "if run_time (task s (current s)) = 1 then resched (abs_tick s F) s1 (next_run s') F' s'
     else next_run s' = current s \<and> F' = abs_tick s F \<and>
       (\<forall>u. t_state (task s' u) = t_state (task s1 u) \<and> wait_time (task s' u) = wait_time (task s1 u))"
    using os_tick_handler_spec [OF k(1,2)] by blast
  have tt: "t_state (task s1 u) = (if u \<in> set us \<and> expires (task s u) then PROCESS_STATE_PREPARE else t_state (task s u))"
    "wait_time (task s1 u) = (if u \<in> set us \<and> wait_time (task s u) > 0 then wait_time (task s u) - 1 else wait_time (task s u))"
    "t_prio (task s1 u) = t_prio (task s u)" for u
    using s'(3) unfolding tick_tasks_def sl by blast+
  have asleep: "t_state (task s u) = PROCESS_STATE_SLEEP" if "u \<in> set us" for u
    using sleepers_iff [OF k(1), of u] that sl by simp
  have ready: "kready F' (os_exit_irq s')" using s' r by (simp add: kready_def os_exit_irq_def)
  have "idle (os_exit_irq s') = idle s" using s'(5) by (simp add: os_exit_irq_def)
  moreover have "F' = abs_tick s F \<or> F' = abs_switch s1 (next_run s') (abs_tick s F)"
    using c by (auto simp: resched_def split: if_splits)
  ultimately have live: "live F' (os_exit_irq s') u \<longleftrightarrow> live F s u" for u
    using live_cong [of "os_exit_irq s'" s] by (auto simp: abs_tick_def)
  have "t_state (task s' u) = (if u = next_run s' \<and> u \<noteq> current s then PROCESS_STATE_RUNNING else PROCESS_STATE_PREPARE)"
    if "u \<in> set us" "expires (task s u)" for u
    using c tt(1) [of u] that s'(4) switch_states_sel(1) [of s1 "next_run s'" s' u] by (auto simp: resched_def split: if_splits)
  moreover have st: "t_state (task s' u) = PROCESS_STATE_SLEEP \<longleftrightarrow> t_state (task s1 u) = PROCESS_STATE_SLEEP"
    "t_state (task s1 u) = PROCESS_STATE_SLEEP \<Longrightarrow> wait_time (task s' u) = wait_time (task s1 u)" for u
    using c resched_sleeping [OF s'(8), of "next_run s'" F' s' u] by (auto split: if_splits)
  have "t_state (task s' u) = PROCESS_STATE_SLEEP \<and> wait_time (task s' u) =
      (if wait_time (task s u) > 0 then wait_time (task s u) - 1 else wait_time (task s u))"
    if "u \<in> set us" "\<not> expires (task s u)" for u
    using st [of u] tt(1,2) [of u] asleep [OF that(1)] that by simp
  moreover have "t_state (task s' u) \<noteq> PROCESS_STATE_SLEEP" if "t_state (task s u) \<noteq> PROCESS_STATE_SLEEP" for u
    using st(1) [of u] tt(1) [of u] that by auto
  moreover have "F' (OsSched p) = Some (after_switch s (next_run s') p (ns @ map N_prio_running (due s p us)))"
    if "F (OsSched p) = Some ns" for p ns
  proof -
    note q = abs_tick_queue [OF us that, of s]
    have "after_switch s1 n p xs = after_switch s n p xs" for n xs
      using tt(1,3) [of "current s"] asleep [of "current s"] s'(4) by (auto simp: after_switch_def)
    then show ?thesis
      using c q resched_queue [OF s'(8) _ q, of "next_run s'" F' s'] by (auto simp: after_switch_def split: if_splits)
  qed
  ultimately show ?thesis using s'(1,5) ready live by (intro exI [of _ s'] exI [of _ F']) auto
qed

section \<open>Properties of the scheduler\<close>

text \<open>
  C1. In every state reachable from boot by the steps of \<open>sched_step\<close>, the ready queue of each
  priority holds, once each, exactly the registered tasks that are ready at that priority, its
  counter is its length, at most the current task is in the running state, and neither
  \<^verbatim>\<open>sched\<close> nor the timer tick can go wrong.  The steps are \<^verbatim>\<open>sched\<close>, the tick, the suspension of the caller, wake-ups,
  new tasks, the end of the caller and of another task, removals, locks and unlocks of mutexes whose lists are sound, changes of what
  the scheduler does not own, and changes of the priority of a task that runs or sleeps; a change of the priority of a ready task is
  not among them, for it breaks the lists.
\<close>

theorem reachable_queues:
  assumes a: "a \<noteq> NULL" and irq: "\<not> in_interrupt s" and reach: "sched_step\<^sup>*\<^sup>* (boot page a s) s'"
    and p: "prio_ok p"
  shows "\<exists>ns. list_for_each (OsSched p) (lists s') = Some ns \<and> distinct ns \<and>
      os_sched_count s' p = of_nat (length ns) \<and>
      (\<forall>t. N_prio_running t \<in> set ns \<longleftrightarrow>
        registered s' t \<and> t_state (task s' t) = PROCESS_STATE_PREPARE \<and> t_prio (task s' t) = p) \<and>
      (\<forall>t. registered s' t \<longrightarrow> t_state (task s' t) = PROCESS_STATE_RUNNING \<longrightarrow> t = current s') \<and>
      sched s' \<noteq> None \<and> os_tick_handler s' \<noteq> None"
proof -
  obtain F where r: "kready F s'" using reachable_kready [OF boot_kready [OF a irq] reach] by blast
  note k = kready_kinv(1) [OF r]
  have base: "base_inv F s'" and sem: "sem_inv {} F s'" and cur: "cur_inv F s'"
    using k by (auto simp: kinv_defs)
  obtain ns where ns: "F (OsSched p) = Some ns" "os_sched_count s' p = of_nat (length ns)"
    using base_inv_prio [OF base p] by blast
  have "N_prio_running t \<in> set ns \<longleftrightarrow>
      registered s' t \<and> t_state (task s' t) = PROCESS_STATE_PREPARE \<and> t_prio (task s' t) = p" for t
  proof -
    have "N_prio_running t \<in> set ns \<longleftrightarrow> on F (OsSched p) (N_prio_running t)"
      using ns by (simp add: on_def)
    with sem registered_live [OF k] show ?thesis by (simp add: sem_inv_def)
  qed
  moreover have "distinct ns" using os_list.rel_distinct [OF kinv_rel [OF k] ns(1)] by simp
  moreover have "t = current s'"
    if "registered s' t" "t_state (task s' t) = PROCESS_STATE_RUNNING" for t
    using cur that registered_live [OF k] unfolding cur_inv_def by blast
  ultimately show ?thesis
    using walk_list [OF k ns(1)] ns(2) sched_ready [OF r] tick_ready [OF r] by blast
qed

lemma demo_reachable: "sched_step\<^sup>*\<^sup>* booted demo"
proof -
  have b: "t_state (blank_task p) = PROCESS_STATE_UNKNOWN" "t_prio (blank_task p) = p" for p
    by (simp_all add: blank_task_def)
  obtain s where s: "set_task_state 0x3000 PROCESS_STATE_PREPARE booted = Some s"
    "kready (abs_new 0x3000 5 (boot_lists 0x2000)) s" "state_frame 0x3000 PROCESS_STATE_PREPARE booted s"
    using new_ready [OF booted_ready, of "0x3000"] by (auto simp: booted_registered booted_task b prio_ok_def)
  note f = state_frame_sel [OF s(3)]
  have t: "task s 0x4000 = blank_task 20" using f(1) by (simp add: booted_task)
  have "\<not> live (abs_new 0x3000 5 (boot_lists 0x2000)) s 0x4000"
    using f(3) by (auto simp: live_def booted_task on_def abs_new_def boot_lists_def boot_heads_def)
  then have nr: "\<not> registered s 0x4000" using registered_live [OF kready_kinv(1) [OF s(2)]] by simp
  obtain s' where s': "set_task_state 0x4000 PROCESS_STATE_PREPARE s = Some s'"
    using new_ready [OF s(2) nr] by (auto simp: t b prio_ok_def)
  have "sched_step booted s"
    by (rule step_new [OF _ _ _ _ s(1)]) (simp_all add: booted_registered booted_task b prio_ok_def)
  moreover have "sched_step s s'"
    by (rule step_new [OF nr _ _ _ s'(1)]) (simp_all add: t b prio_ok_def)
  moreover have "demo = s'" using s(1) s' by (simp add: demo_def)
  ultimately show ?thesis by (meson rtranclp.rtrancl_refl rtranclp.rtrancl_into_rtrancl)
qed

theorem reachable_queues_witness:
  "\<exists>ns. list_for_each (OsSched 5) (lists demo) = Some ns \<and> N_prio_running 0x3000 \<in> set ns"
proof -
  have "registered demo 0x3000"
    using registered_live [OF demo_kinv] by (simp add: live_def on_def demo_lists_sel)
  then show ?thesis
    using reachable_queues [of "0x2000" blank "0x1000" demo 5] demo_reachable
    by (fastforce simp: booted_def [symmetric] prio_ok_def blank_def [THEN arg_cong, of in_interrupt] demo_task
        blank_task_def)
qed

lemma resched_choice:
  assumes "resched F s n F' s'"
  shows "if nothing_ready F then n = current s \<and> (\<forall>u. t_state (task s' u) = t_state (task s u))
    else (\<exists>p. first_ready F n p) \<and> (if n = current s then \<forall>u. t_state (task s' u) = t_state (task s u)
      else t_state (task s' n) = PROCESS_STATE_RUNNING)"
proof (cases "nothing_ready F")
  case True
  with resched_nothing [OF True assms] show ?thesis by simp
next
  case False
  with assms switch_states_sel(1) [of s n s' n] show ?thesis by (auto simp: resched_def)
qed

text \<open>
  C2. \<^verbatim>\<open>sched\<close> gives the processor to the task at the front of the ready queue of the highest
  priority that has one (low numbers are high priorities), among the priorities 0 to 62; a task it switches to is then
  in the running state, and one that is chosen again keeps its state.  If none of these queues has a task, as when
  only the idle task at priority 63 is ready, the current task goes on and no state changes.  No other registered task is in the
  running state afterwards.
\<close>

theorem sched_highest_priority:
  assumes r: "kready F s"
  shows "\<exists>s'. sched s = Some s' \<and>
    (if nothing_ready F then current s' = current s \<and> (\<forall>u. t_state (task s' u) = t_state (task s u))
     else (\<exists>p. first_ready F (current s') p) \<and>
       (if current s' = current s then \<forall>u. t_state (task s' u) = t_state (task s u)
        else t_state (task s' (current s')) = PROCESS_STATE_RUNNING)) \<and>
    (\<forall>u. registered s' u \<longrightarrow> t_state (task s' u) = PROCESS_STATE_RUNNING \<longrightarrow> u = current s')"
proof -
  obtain s' F' where s': "sched s = Some s'" "kready F' s'" "resched F s (current s') F' s'"
    using sched_ready [OF r] by blast
  moreover have "u = current s'" if "registered s' u" "t_state (task s' u) = PROCESS_STATE_RUNNING" for u
    using s'(2) that registered_live [OF kready_kinv(1) [OF s'(2)]]
    unfolding kready_def kinv_def cur_inv_def by blast
  ultimately show ?thesis using resched_choice [OF s'(3)] by blast
qed

lemma demo_first: "first_ready demo_lists 0x3000 5"
  by (simp add: first_ready_def demo_lists_sel prio_ok_def)

theorem sched_highest_priority_witness:
  "\<exists>s'. sched demo = Some s' \<and> current s' = 0x3000 \<and> t_state (task s' 0x3000) = PROCESS_STATE_RUNNING"
  using sched_highest_priority [OF demo_ready] first_ready_not_nothing [OF demo_first] first_ready_unique [OF demo_first]
  by (auto simp: demo_task split: if_splits)

text \<open>
  C3. Round robin within a priority: when the running task gives up the processor and the front of
  the highest non-empty queue has the same priority, the running task goes to the tail of that queue.
\<close>

theorem sched_round_robin:
  assumes r: "kready F s" and cur: "t_state (task s (current s)) = PROCESS_STATE_RUNNING"
    and t: "first_ready F t p" "F (OsSched p) = Some (N_prio_running t # ns)"
    and same: "t_prio (task s (current s)) = p"
  shows "\<exists>s'. sched s = Some s' \<and> current s' = t \<and>
    list_for_each (OsSched p) (lists s') = Some (ns @ [N_prio_running (current s)])"
proof -
  have ne: "t \<noteq> current s" using first_ready_task [OF kready_kinv(1) [OF r] t(1)] cur by auto
  obtain s' F' where s': "sched s = Some s'" "kready F' s'" "resched F s (current s') F' s'"
    using sched_ready [OF r] by blast
  have c: "current s' = t" using resched_first [OF t(1) s'(3)] .
  with s'(3) ne have "F' = abs_switch s t F" by (simp add: resched_def)
  moreover have "t_prio (task s t) = p" using first_ready_task [OF kready_kinv(1) [OF r] t(1)] by simp
  ultimately have "F' (OsSched p) = Some (ns @ [N_prio_running (current s)])"
    using t(2) cur same by (simp add: abs_switch_def abs_set_state_def)
  from walk_list [OF kready_kinv(1) [OF s'(2)] this] s'(1) c show ?thesis by blast
qed

definition demo_peer :: kstate where
  "demo_peer = upd_task 0x2000 (\<lambda>ts. ts\<lparr>pre_prio := t_prio ts, t_prio := 5\<rparr>) demo"

lemma demo_peer_ready: "kready demo_lists demo_peer"
  using set_task_prio_spec [OF demo_kinv, of 5 "0x2000"] kready_frame [OF _ upd_task_sched(1) demo_ready]
  by (simp add: demo_task demo_peer_def)

theorem sched_round_robin_witness:
  "\<exists>s'. sched demo_peer = Some s' \<and> current s' = 0x3000 \<and>
    list_for_each (OsSched 5) (lists s') = Some [N_prio_running 0x2000]"
  using sched_round_robin [OF demo_peer_ready _ demo_first, of "[]"]
  by (simp add: demo_peer_def demo_task demo_lists_sel)

text \<open>
  C4. The timer tick makes ready exactly the sleepers whose waiting time runs out, at the tails of the queues of their
  priorities and in the order of the sleep list, and counts the others down by one; a negative waiting time never runs
  out.  If the tick ends the time slice of the current task, the scheduler then chooses: a task it switches to leaves its queue and is
  in the running state, and the current task, if it was running, goes to the tail of its queue.
\<close>

theorem tick_wakes_expired:
  assumes r: "kready F s" and us: "list_for_each TaskSleep (lists s) = Some (map N_sleep us)"
  shows "\<exists>s'. os_tick_handler s = Some s' \<and>
    (\<forall>u \<in> set us. if wait_time (task s u) = 0 \<or> wait_time (task s u) = 1
       then t_state (task s' u) = (if u = next_run s' \<and> u \<noteq> current s then PROCESS_STATE_RUNNING else PROCESS_STATE_PREPARE)
       else t_state (task s' u) = PROCESS_STATE_SLEEP \<and> wait_time (task s' u) =
         (if wait_time (task s u) > 0 then wait_time (task s u) - 1 else wait_time (task s u))) \<and>
    (\<forall>u. t_state (task s u) \<noteq> PROCESS_STATE_SLEEP \<longrightarrow> t_state (task s' u) \<noteq> PROCESS_STATE_SLEEP) \<and>
    (\<forall>p ns. prio_ok p \<longrightarrow> list_for_each (OsSched p) (lists s) = Some ns \<longrightarrow>
       list_for_each (OsSched p) (lists s') = Some (after_switch s (next_run s') p (ns @ map N_prio_running (due s p us))))"
proof -
  note k = kready_kinv(1) [OF r]
  have base: "base_inv F s" using k by (simp add: kinv_defs)
  have F: "F TaskSleep = Some (map N_sleep us)"
    using sleepers_eq [OF base] walk_list [OF k, of TaskSleep] us by auto
  obtain s' F' where t: "os_tick_handler s = Some s'" "kready F' (os_exit_irq s')"
    "\<forall>u \<in> set us. if expires (task s u)
       then t_state (task s' u) = (if u = next_run s' \<and> u \<noteq> current s then PROCESS_STATE_RUNNING else PROCESS_STATE_PREPARE)
       else t_state (task s' u) = PROCESS_STATE_SLEEP \<and> wait_time (task s' u) =
         (if wait_time (task s u) > 0 then wait_time (task s u) - 1 else wait_time (task s u))"
    "\<forall>u. t_state (task s u) \<noteq> PROCESS_STATE_SLEEP \<longrightarrow> t_state (task s' u) \<noteq> PROCESS_STATE_SLEEP"
    "\<forall>p ns. F (OsSched p) = Some ns \<longrightarrow>
       F' (OsSched p) = Some (after_switch s (next_run s') p (ns @ map N_prio_running (due s p us)))"
    using tick_effect [OF r F] by blast
  have "list_for_each (OsSched p) (lists s') = Some (after_switch s (next_run s') p (ns @ map N_prio_running (due s p us)))"
    if p: "prio_ok p" "list_for_each (OsSched p) (lists s) = Some ns" for p ns
  proof -
    have "F (OsSched p) = Some ns" using base_inv_prio [OF base p(1)] walk_list [OF k, of "OsSched p"] p(2) by auto
    then show ?thesis using t(5) walk_list [OF kready_kinv(1) [OF t(2)], of "OsSched p"] by (simp add: os_exit_irq_def split: if_splits)
  qed
  then show ?thesis using t(1,3,4) unfolding expires_def by blast
qed

text \<open>The ticks of a stretch of time in which nothing else happens.\<close>

primrec ticks :: "nat \<Rightarrow> kstate \<Rightarrow> kstate option" where
  "ticks 0 s = Some s"
| "ticks (Suc n) s = do { s \<leftarrow> ticks n s; s \<leftarrow> os_tick_handler s; Some (os_exit_irq s) }"

lemma os_exit_irq_task [simp]: "task (os_exit_irq s) = task s"
  by (simp add: os_exit_irq_def)

lemma tick_sleeper:
  assumes r: "kready F s" and t: "registered s t" "t_state (task s t) = PROCESS_STATE_SLEEP"
  obtains s' F' where "os_tick_handler s = Some s'" "kready F' (os_exit_irq s')" "registered (os_exit_irq s') t"
    "if expires (task s t) then t_state (task s' t) = PROCESS_STATE_PREPARE \<or>
         t_state (task s' t) = PROCESS_STATE_RUNNING \<and> current (os_exit_irq s') = t
     else t_state (task s' t) = PROCESS_STATE_SLEEP \<and> wait_time (task s' t) =
       (if wait_time (task s t) > 0 then wait_time (task s t) - 1 else wait_time (task s t))"
proof -
  note k = kready_kinv(1) [OF r]
  have F: "F TaskSleep = Some (map N_sleep (sleepers F))" using k by (intro sleepers_eq [of F s]) (simp add: kinv_defs)
  have m: "t \<in> set (sleepers F)" using sleepers_iff [OF k] t by simp
  obtain s' F' where s': "os_tick_handler s = Some s'" "kready F' (os_exit_irq s')" "live F' (os_exit_irq s') t \<longleftrightarrow> live F s t"
    "if expires (task s t)
     then t_state (task s' t) = (if t = next_run s' \<and> t \<noteq> current s then PROCESS_STATE_RUNNING else PROCESS_STATE_PREPARE)
     else t_state (task s' t) = PROCESS_STATE_SLEEP \<and> wait_time (task s' t) =
       (if wait_time (task s t) > 0 then wait_time (task s t) - 1 else wait_time (task s t))"
    using tick_effect [OF r F] m by blast
  have "registered (os_exit_irq s') t"
    using s'(3) t(1) registered_live [OF kready_kinv(1) [OF s'(2)]] registered_live [OF k] by simp
  moreover have "current (os_exit_irq s') = next_run s'" using kready_kinv(2) [OF s'(2)] by (simp add: os_exit_irq_def split: if_splits)
  ultimately show thesis using s'(4) by (intro that [OF s'(1,2)]) (auto split: if_splits)
qed

lemma ticks_sleeping:
  assumes r: "kready F s" and t: "registered s t" "t_state (task s t) = PROCESS_STATE_SLEEP"
    and n: "int k < wait_time (task s t)"
  shows "\<exists>s' F'. ticks k s = Some s' \<and> kready F' s' \<and> registered s' t \<and>
    t_state (task s' t) = PROCESS_STATE_SLEEP \<and> wait_time (task s' t) = wait_time (task s t) - int k"
  using n
proof (induction k)
  case 0
  with r t show ?case by auto
next
  case (Suc k)
  then obtain s1 F1 where s1: "ticks k s = Some s1" "kready F1 s1" "registered s1 t"
    "t_state (task s1 t) = PROCESS_STATE_SLEEP" "wait_time (task s1 t) = wait_time (task s t) - int k"
    by auto
  obtain s2 F2 where s2: "os_tick_handler s1 = Some s2" "kready F2 (os_exit_irq s2)" "registered (os_exit_irq s2) t"
    "if expires (task s1 t) then t_state (task s2 t) = PROCESS_STATE_PREPARE \<or>
         t_state (task s2 t) = PROCESS_STATE_RUNNING \<and> current (os_exit_irq s2) = t
     else t_state (task s2 t) = PROCESS_STATE_SLEEP \<and> wait_time (task s2 t) =
       (if wait_time (task s1 t) > 0 then wait_time (task s1 t) - 1 else wait_time (task s1 t))"
    by (rule tick_sleeper [OF s1(2-4)])
  have "t_state (task s2 t) = PROCESS_STATE_SLEEP"
    "wait_time (task s2 t) = wait_time (task s t) - int (Suc k)"
    using s2(4) s1(5) Suc.prems by (auto simp: expires_def split: if_splits)
  then show ?case using s1(1) s2(1-3) by auto
qed

text \<open>
  C5. A task put to sleep with a timeout of \<open>n > 0\<close> ticks is woken by the \<open>n\<close>-th tick if nothing
  wakes it before: it sleeps after each of the first \<open>n - 1\<close> ticks, and after \<open>n\<close> it is ready, or is
  the current task and running.
\<close>

theorem sleep_duration:
  assumes r: "kready F s" and t: "registered s t" "t_state (task s t) = PROCESS_STATE_SLEEP"
    and n: "wait_time (task s t) = int n" "0 < n"
  shows "(\<forall>k < n. \<exists>s'. ticks k s = Some s' \<and> t_state (task s' t) = PROCESS_STATE_SLEEP) \<and>
    (\<exists>s'. ticks n s = Some s' \<and> (t_state (task s' t) = PROCESS_STATE_PREPARE \<or>
       t_state (task s' t) = PROCESS_STATE_RUNNING \<and> current s' = t))"
proof
  show "\<forall>k < n. \<exists>s'. ticks k s = Some s' \<and> t_state (task s' t) = PROCESS_STATE_SLEEP"
    using ticks_sleeping [OF r t] n(1) by fastforce
  obtain m where m: "n = Suc m" using n(2) by (cases n) auto
  obtain s1 F1 where s1: "ticks m s = Some s1" "kready F1 s1" "registered s1 t"
    "t_state (task s1 t) = PROCESS_STATE_SLEEP" "wait_time (task s1 t) = 1"
    using ticks_sleeping [OF r t, of m] n(1) m by auto
  obtain s2 where s2: "os_tick_handler s1 = Some s2"
    "if expires (task s1 t) then t_state (task s2 t) = PROCESS_STATE_PREPARE \<or>
         t_state (task s2 t) = PROCESS_STATE_RUNNING \<and> current (os_exit_irq s2) = t
     else t_state (task s2 t) = PROCESS_STATE_SLEEP \<and> wait_time (task s2 t) =
       (if wait_time (task s1 t) > 0 then wait_time (task s1 t) - 1 else wait_time (task s1 t))"
    by (rule tick_sleeper [OF s1(2-4)])
  with s1(1,5) m show "\<exists>s'. ticks n s = Some s' \<and> (t_state (task s' t) = PROCESS_STATE_PREPARE \<or>
       t_state (task s' t) = PROCESS_STATE_RUNNING \<and> current s' = t)"
    by (simp add: expires_def)
qed

section \<open>Suspension\<close>

lemma kready_running_first:
  assumes "kready F s" and "t_state (task s (current s)) = PROCESS_STATE_RUNNING" and "ms \<noteq> 0"
  shows "\<exists>s1 s' F'. suspend_task_timeout (current s) ms s = Some (None, s') \<and> kready F' s' \<and>
    task s1 = (task s)(current s := (task s (current s))\<lparr>wait_time := ms, time_out := 0, t_state := PROCESS_STATE_SLEEP\<rparr>) \<and>
    current s1 = current s \<and> idle s' = idle s \<and>
    resched (q_add (N_sleep (current s)) TaskSleep F) s1 (current s') F' s'"
proof -
  note k = kready_kinv [OF assms(1)]
  have c: "live F s (current s)" using k(1) by (simp add: kinv_def cur_inv_def)
  from suspend_task_timeout_spec [OF k(1) c assms(3) _ k(4,3)] assms(1,2) show ?thesis
    by (fastforce simp: kready_def abs_set_state_def)
qed

text \<open>
  C6. A running task that suspends itself is asleep at the tail of the sleep list with its timeout set, and the first task of
  the highest non-empty priority of 0 to 62 runs.  If none of these queues has a task, the caller goes on running although
  it is asleep on the list: the idle task, at priority 63, is never chosen.
\<close>

theorem suspend_current:
  assumes r: "kready F s" and st: "t_state (task s (current s)) = PROCESS_STATE_RUNNING" and ms: "ms \<noteq> 0"
    and z: "F TaskSleep = Some zs"
  shows "\<exists>s'. suspend_task_timeout (current s) ms s = Some (None, s') \<and>
    t_state (task s' (current s)) = PROCESS_STATE_SLEEP \<and> wait_time (task s' (current s)) = ms \<and>
    list_for_each TaskSleep (lists s') = Some (zs @ [N_sleep (current s)]) \<and>
    (if nothing_ready F then current s' = current s
     else current s' \<noteq> current s \<and> (\<exists>p. first_ready F (current s') p) \<and> t_state (task s' (current s')) = PROCESS_STATE_RUNNING)"
proof -
  obtain s1 s' F' where s': "suspend_task_timeout (current s) ms s = Some (None, s')" "kready F' s'"
    "task s1 = (task s)(current s := (task s (current s))\<lparr>wait_time := ms, time_out := 0, t_state := PROCESS_STATE_SLEEP\<rparr>)"
    "current s1 = current s" "resched (q_add (N_sleep (current s)) TaskSleep F) s1 (current s') F' s'"
    using kready_running_first [OF r st ms] by blast
  let ?F = "q_add (N_sleep (current s)) TaskSleep F"
  have eq: "nothing_ready ?F \<longleftrightarrow> nothing_ready F" "first_ready ?F t p \<longleftrightarrow> first_ready F t p" for t p
    by (simp_all add: nothing_ready_def first_ready_def)
  have ne: "t \<noteq> current s" if "first_ready F t p" for t p
    using first_ready_task [OF kready_kinv(1) [OF r] that] st by auto
  have F': "F' = ?F \<or> F' = abs_switch s1 (current s') ?F" using s'(5) by (auto simp: resched_def)
  then have "F' TaskSleep = Some (zs @ [N_sleep (current s)])"
    using z s'(3,4) by (auto simp: abs_switch_def abs_set_state_def)
  note walk = walk_list [OF kready_kinv(1) [OF s'(2)] this]
  show ?thesis
  proof (cases "nothing_ready F")
    case True
    with s'(5) eq resched_nothing [of ?F s1 "current s'" F' s'] have "current s' = current s" "resched ?F s1 (current s) F' s'"
      using s'(4) by simp_all
    then have "t_state (task s' u) = t_state (task s1 u) \<and> wait_time (task s' u) = wait_time (task s1 u)" for u
      using s'(4) by (simp add: resched_def)
    then show ?thesis using s'(1,3) walk True \<open>current s' = current s\<close> by simp
  next
    case False
    have c: "\<exists>p. first_ready F (current s') p" using resched_choice [OF s'(5)] False eq by auto
    then have n: "current s' \<noteq> current s" using ne by blast
    then have sw: "switch_states s1 (current s') s'" using s'(4,5) by (simp add: resched_def)
    show ?thesis
      using s'(1) walk c n False switch_states_sel(1) [OF sw, of "current s'"] switch_states_sel(1,3) [OF sw, of "current s"] s'(3) by auto
  qed
qed

theorem suspend_current_witness:
  "\<exists>s'. suspend_task_timeout 0x2000 7 demo = Some (None, s') \<and> current s' = 0x3000 \<and>
    wait_time (task s' 0x2000) = 7 \<and> list_for_each TaskSleep (lists s') = Some [N_sleep 0x2000]"
  using suspend_current [OF demo_ready, of 7 "[]"] first_ready_not_nothing [OF demo_first] first_ready_unique [OF demo_first]
  by (fastforce simp: demo_task demo_lists_sel)

lemma demo_sleeper:
  assumes pos: "0 < n"
  shows "\<exists>s' F'. suspend_task_timeout 0x2000 (int n) demo = Some (None, s') \<and> kready F' s' \<and> registered s' 0x2000 \<and>
     t_state (task s' 0x2000) = PROCESS_STATE_SLEEP \<and> wait_time (task s' 0x2000) = int n \<and>
     list_for_each TaskSleep (lists s') = Some (map N_sleep [0x2000])"
proof -
  obtain s1 s' F' where s': "suspend_task_timeout (current demo) (int n) demo = Some (None, s')" "kready F' s'"
    "task s1 = (task demo)(current demo := (task demo (current demo))
       \<lparr>wait_time := int n, time_out := 0, t_state := PROCESS_STATE_SLEEP\<rparr>)"
    "current s1 = current demo" "idle s' = idle demo"
    "resched (q_add (N_sleep (current demo)) TaskSleep demo_lists) s1 (current s') F' s'"
    using kready_running_first [OF demo_ready, of "int n"] pos by (auto simp: demo_task)
  let ?F = "q_add (N_sleep (current demo)) TaskSleep demo_lists"
  have "first_ready ?F 0x3000 5" using demo_first by (simp add: first_ready_def)
  from resched_first [OF this s'(6)] s'(4,6) have sw: "switch_states s1 0x3000 s'" and F': "F' = abs_switch s1 0x3000 ?F"
    by (auto simp: resched_def demo_task)
  have "F' TaskSleep = Some (map N_sleep [0x2000])"
    unfolding F' by (simp add: abs_switch_def abs_set_state_def demo_lists_sel demo_task)
  from walk_list [OF kready_kinv(1) [OF s'(2)] this]
  have "list_for_each TaskSleep (lists s') = Some (map N_sleep [0x2000])" .
  moreover have "t_state (task s' 0x2000) = PROCESS_STATE_SLEEP" "wait_time (task s' 0x2000) = int n"
    using switch_states_sel(1,3) [OF sw, of "0x2000"] s'(3,4) by (auto simp: demo_task)
  moreover have "registered s' 0x2000" using s'(5) by (simp add: registered_def demo_task)
  ultimately show ?thesis using s'(1,2) by (auto simp: demo_task)
qed

theorem tick_wakes_expired_witness:
  "\<exists>s s'. suspend_task_timeout 0x2000 1 demo = Some (None, s) \<and> t_state (task s 0x2000) = PROCESS_STATE_SLEEP \<and>
     os_tick_handler s = Some s' \<and> (t_state (task s' 0x2000) = PROCESS_STATE_PREPARE \<or> t_state (task s' 0x2000) = PROCESS_STATE_RUNNING)"
proof -
  obtain s F where s: "suspend_task_timeout 0x2000 (int 1) demo = Some (None, s)" "kready F s" "t_state (task s 0x2000) = PROCESS_STATE_SLEEP"
    "wait_time (task s 0x2000) = int 1" "list_for_each TaskSleep (lists s) = Some (map N_sleep [0x2000])"
    using demo_sleeper [of 1] by auto
  obtain s' where "os_tick_handler s = Some s'" "t_state (task s' 0x2000) =
      (if 0x2000 = next_run s' \<and> 0x2000 \<noteq> current s then PROCESS_STATE_RUNNING else PROCESS_STATE_PREPARE)"
    using tick_wakes_expired [OF s(2,5)] s(4) by auto
  then show ?thesis using s(1,3) by (auto split: if_splits)
qed

theorem sleep_duration_witness:
  "\<exists>s'. suspend_task_timeout 0x2000 7 demo = Some (None, s') \<and>
    (\<forall>k < 7. \<exists>s''. ticks k s' = Some s'' \<and> t_state (task s'' 0x2000) = PROCESS_STATE_SLEEP) \<and>
    (\<exists>s''. ticks 7 s' = Some s'' \<and> (t_state (task s'' 0x2000) = PROCESS_STATE_PREPARE \<or>
       t_state (task s'' 0x2000) = PROCESS_STATE_RUNNING \<and> current s'' = 0x2000))"
proof -
  obtain s' F' where s': "suspend_task_timeout 0x2000 (int 7) demo = Some (None, s')" "kready F' s'" "registered s' 0x2000"
     "t_state (task s' 0x2000) = PROCESS_STATE_SLEEP" "wait_time (task s' 0x2000) = int 7"
    using demo_sleeper [of 7] by auto
  from sleep_duration [OF s'(2-5)] s'(1) show ?thesis by auto
qed

text \<open>
  A task that suspends itself while no task of priority 0 to 62 is ready does not stop: the
  scheduler chooses it again, so it goes on running although it is asleep on the sleep list.  The idle
  task, at priority 63, is never chosen.
\<close>

theorem suspend_keeps_running:
  assumes r: "kready F s" and st: "t_state (task s (current s)) = PROCESS_STATE_RUNNING" and ms: "ms \<noteq> 0"
    and none: "nothing_ready F"
  shows "\<exists>s'. suspend_task_timeout (current s) ms s = Some (None, s') \<and> current s' = current s \<and>
    t_state (task s' (current s)) = PROCESS_STATE_SLEEP \<and>
    (\<exists>ns. list_for_each TaskSleep (lists s') = Some ns \<and> N_sleep (current s) \<in> set ns)"
proof -
  obtain s1 s' F' where s': "suspend_task_timeout (current s) ms s = Some (None, s')" "kready F' s'"
    "task s1 = (task s)(current s := (task s (current s))\<lparr>wait_time := ms, time_out := 0, t_state := PROCESS_STATE_SLEEP\<rparr>)"
    "current s1 = current s" "resched (q_add (N_sleep (current s)) TaskSleep F) s1 (current s') F' s'"
    using kready_running_first [OF r st ms] by blast
  have "nothing_ready (q_add (N_sleep (current s)) TaskSleep F)"
    using none by (simp add: nothing_ready_def)
  note n = resched_nothing [OF this s'(5)]
  have "base_inv F s" using kready_kinv(1) [OF r] by (simp add: kinv_defs)
  from base_inv_name [OF this, of SN_sleep] obtain zs where "F TaskSleep = Some zs" by auto
  then have "F' TaskSleep = Some (zs @ [N_sleep (current s)])" using n(2) by simp
  from walk_list [OF kready_kinv(1) [OF s'(2)] this] show ?thesis
    using s'(1,3,4) n(1,3) by auto
qed

theorem suspend_keeps_running_witness:
  "\<exists>s'. suspend_task_timeout 0x2000 7 booted = Some (None, s') \<and> current s' = 0x2000 \<and>
    t_state (task s' 0x2000) = PROCESS_STATE_SLEEP"
  using suspend_keeps_running [OF booted_ready, of 7]
  by (auto simp: booted_task nothing_ready_def boot_lists_def boot_heads_def prio_ok_def)

end
