(* ===== verification/SyncProps.thy ===== *)
theory SyncProps
  imports SchedProps
begin

text \<open>
  The properties of mutexes and process identifiers, and of the operations that end a task or change
  its priority, with instances on the concrete kernel of \<open>SchedProps\<close>.
\<close>

section \<open>Shared lemmas\<close>

lemma abs_switch_foreign: "foreign r \<Longrightarrow> abs_switch s t F r = F r"
  using foreign_neq(1,3,4) [of r] by (simp add: abs_switch_def abs_set_state_def)

lemma resched_foreign: "resched F s n F' s' \<Longrightarrow> foreign r \<Longrightarrow> F' r = F r"
  by (auto simp: resched_def abs_switch_foreign)

lemma q_add_foreign: "sched_heads q \<Longrightarrow> foreign r \<Longrightarrow> q_add n q F r = F r"
  by (auto simp: foreign_def q_add_def)

lemma resched_live: "resched F s n F' s' \<Longrightarrow> live F' x u \<longleftrightarrow> live F x u"
  by (auto simp: resched_def)

section \<open>Mutexes\<close>

lemma fold_wakeup_queue:
  assumes "F (OsSched p) = Some ns"
  shows "fold (abs_wakeup T) ts F (OsSched p) =
    Some (ns @ map N_prio_running (filter (\<lambda>t. t_state (T t) = PROCESS_STATE_SLEEP \<and> t_prio (T t) = p) ts))"
  using assms
proof (induction ts arbitrary: F ns)
  case (Cons t ts)
  have "abs_wakeup T t F (OsSched p) =
      Some (ns @ (if t_state (T t) = PROCESS_STATE_SLEEP \<and> t_prio (T t) = p then [N_prio_running t] else []))"
    using Cons.prems by (auto simp: abs_wakeup_def abs_set_state_def)
  then show ?case using Cons.IH [of "abs_wakeup T t F"] by simp
qed simp

text \<open>
  C7. Unlocking a held mutex clears its counter, empties its wait list, makes every task that slept
  on it ready, at the tail of the queue of its priority and in the order of waiting, and takes it off its owner's list; no other task
  changes state, and the kernel invariant holds afterwards.
\<close>

theorem unlock_wakes_waiters:
  assumes k: "kinv F s" and c: "mutex_count s m \<noteq> 0"
    and w: "F (M_wait m) = Some (map N_wait ts)" "\<forall>t \<in> set ts. live F s t"
    and own: "F (N_mutex_get t0) = Some xs" "M_task m \<in> set xs" "\<forall>n \<in> set xs. foreign n"
  shows "\<exists>s'. mutex_unlock m s = Some s' \<and> mutex_count s' = (mutex_count s)(m := 0) \<and> cpsr s' = cpsr s \<and>
    list_for_each (M_wait m) (lists s') = Some [] \<and>
    list_for_each (N_mutex_get t0) (lists s') = Some (remove1 (M_task m) xs) \<and>
    (\<forall>u. t_state (task s' u) = (if u \<in> set ts \<and> t_state (task s u) = PROCESS_STATE_SLEEP
       then PROCESS_STATE_PREPARE else t_state (task s u))) \<and>
    (\<forall>p ns. prio_ok p \<longrightarrow> list_for_each (OsSched p) (lists s) = Some ns \<longrightarrow> list_for_each (OsSched p) (lists s') =
       Some (ns @ map N_prio_running (filter (\<lambda>t. t_state (task s t) = PROCESS_STATE_SLEEP \<and> t_prio (task s t) = p) ts))) \<and>
    (\<exists>F'. kinv F' s')"
proof -
  let ?F = "(fold (abs_wakeup (task s)) ts F)(M_wait m \<mapsto> [], N_mutex_get t0 \<mapsto> remove1 (M_task m) xs)"
  obtain s' where s': "mutex_unlock m s = Some s'" "kinv ?F s'"
    "mutex_count s' = (mutex_count s)(m := 0)" "mutex_frame s s'" "woken ts s s'"
    using mutex_unlock_spec [OF k c w(1) _ own(1,2)] w(2) own(3) by blast
  have F: "?F (M_wait m) = Some []" "?F (N_mutex_get t0) = Some (remove1 (M_task m) xs)" by simp_all
  have "list_for_each (OsSched p) (lists s') =
      Some (ns @ map N_prio_running (filter (\<lambda>t. t_state (task s t) = PROCESS_STATE_SLEEP \<and> t_prio (task s t) = p) ts))"
    if p: "prio_ok p" "list_for_each (OsSched p) (lists s) = Some ns" for p ns
  proof -
    have "base_inv F s" using k by (simp add: kinv_defs)
    then have "F (OsSched p) = Some ns" using base_inv_prio [of F s p] p walk_list [OF k, of "OsSched p"] by auto
    then show ?thesis using fold_wakeup_queue [of F p ns "task s" ts] by (intro walk_list [OF s'(2)]) simp
  qed
  then show ?thesis
    using s'(1,2,3) mutex_frame_sel(6) [OF s'(4)] walk_list [OF s'(2) F(1)] walk_list [OF s'(2) F(2)] s'(5)
    unfolding woken_def by (intro exI [of _ s']) blast
qed

text \<open>
  C8. Mutual exclusion: a task that asks for a free mutex gets it and goes on.  One that asks for a mutex which is held does
  not get it: it joins the tail of the wait list, asleep, and the counter stays.  Then another task runs, unless no task of the priorities 0 to
  62 is ready: in that case the processor stays with the sleeping caller.
\<close>

theorem lock_excludes:
  assumes r: "kready F s" and ms: "ms \<noteq> 0" and st: "t_state (task s (current s)) = PROCESS_STATE_RUNNING"
    and w: "F (M_wait m) = Some (map N_wait ts)" "fresh F (N_wait (current s))"
    and own: "F (N_mutex_get (current s)) = Some xs" "\<forall>n \<in> set xs. foreign n" "mutex_count s m = 0 \<Longrightarrow> fresh F (M_task m)"
  shows "if mutex_count s m = 0
    then \<exists>s'. mutex_lock_timeout m ms s = Some (Lock_return 0, s') \<and> mutex_count s' = (mutex_count s)(m := 1) \<and>
      current s' = current s \<and> task s' = task s \<and>
      list_for_each (N_mutex_get (current s)) (lists s') = Some (xs @ [M_task m])
    else \<exists>s'. mutex_lock_timeout m ms s = Some (Lock_suspended, s') \<and> mutex_count s' = mutex_count s \<and>
      t_state (task s' (current s)) = PROCESS_STATE_SLEEP \<and>
      list_for_each (M_wait m) (lists s') = Some (map N_wait (ts @ [current s])) \<and>
      (if nothing_ready F then current s' = current s
       else current s' \<noteq> current s \<and> (\<exists>p. first_ready F (current s') p) \<and> t_state (task s' (current s')) = PROCESS_STATE_RUNNING)"
proof (cases "mutex_count s m = 0")
  case True
  obtain s' where s': "mutex_lock_timeout m ms s = Some (Lock_return 0, s')" "kinv (F(N_mutex_get (current s) \<mapsto> xs @ [M_task m])) s'"
    "mutex_count s' = (mutex_count s)(m := 1)" "mutex_frame s s'" "task s' = task s"
    using mutex_lock_free [OF kready_kinv(1) [OF r] True own(1) own(3) [OF True]] own(2) by blast
  have "list_for_each (N_mutex_get (current s)) (lists s') = Some (xs @ [M_task m])" by (rule walk_list [OF s'(2)]) simp
  with True s' mutex_frame_sel(1) [OF s'(4)] show ?thesis by auto
next
  case c: False
  let ?F1 = "q_add (N_sleep (current s)) TaskSleep (F(M_wait m \<mapsto> map N_wait (ts @ [current s])))"
  obtain s1 s' F' where s': "mutex_lock_timeout m ms s = Some (Lock_suspended, s')" "kinv F' s'"
    "mutex_count s' = mutex_count s"
    "task s1 = (task s)(current s := (task s (current s))
       \<lparr>wait_time := ms, time_out := 0, t_state := PROCESS_STATE_SLEEP\<rparr>)" "current s1 = current s"
    "resched ?F1 s1 (current s') F' s'"
    using mutex_lock_held [OF kready_kinv(1) [OF r] c ms w st kready_kinv(4) [OF r] kready_kinv(3) [OF r]]
    by blast
  have "?F1 (M_wait m) = Some (map N_wait (ts @ [current s]))" by simp
  then have "F' (M_wait m) = Some (map N_wait (ts @ [current s]))"
    using resched_foreign [OF s'(6), of "M_wait m"] by simp
  note walk = walk_list [OF s'(2) this]
  have eq: "nothing_ready ?F1 \<longleftrightarrow> nothing_ready F" "first_ready ?F1 t p \<longleftrightarrow> first_ready F t p" for t p
    by (simp_all add: nothing_ready_def first_ready_def)
  have ne: "t \<noteq> current s" if "first_ready F t p" for t p
    using first_ready_task [OF kready_kinv(1) [OF r] that] st by auto
  have sleep: "t_state (task s' (current s)) = PROCESS_STATE_SLEEP"
    using s'(4,5) resched_choice [OF s'(6)] s'(6) switch_states_sel(1) [of s1 "current s'" s' "current s"] by (auto simp: resched_def)
  have "if nothing_ready F then current s' = current s
     else current s' \<noteq> current s \<and> (\<exists>p. first_ready F (current s') p) \<and> t_state (task s' (current s')) = PROCESS_STATE_RUNNING"
  proof (cases "nothing_ready F")
    case False
    then have f: "\<exists>p. first_ready F (current s') p" using resched_choice [OF s'(6)] eq by auto
    then have "current s' \<noteq> current s" using ne by blast
    with False f resched_choice [OF s'(6)] eq s'(5) show ?thesis by simp
  qed (use resched_choice [OF s'(6)] eq s'(5) in simp)
  with c s'(1,3) walk sleep show ?thesis by auto
qed

text \<open>
  A caller that does not want to wait (\<^verbatim>\<open>ms = 0\<close>) and meets a held mutex is told the same as
  one that got it: the result is 0, while the mutex still belongs to its owner.
\<close>

theorem lock_zero_timeout_lies:
  assumes k: "kinv F s" and c: "mutex_count s m \<noteq> 0"
    and w: "F (M_wait m) = Some ns" "fresh F (N_wait (current s))" "\<forall>n \<in> set ns. foreign n"
    and own: "F (N_mutex_get t0) = Some xs" "M_task m \<in> set xs"
  shows "\<exists>s'. mutex_lock_timeout m 0 s = Some (Lock_return 0, s') \<and> mutex_count s' = mutex_count s \<and>
    kinv F s' \<and> list_for_each (N_mutex_get t0) (lists s') = Some xs"
proof -
  let ?e = "snd (enter_critical s)" and ?n = "N_wait (current s)" and ?r = "M_wait m"
  let ?s1 = "on_lists (list_add_tail ?r ?n) ?e"
  let ?s2 = "on_lists (list_del ?n) ?s1"
  have ke: "kinv F ?e" using k by simp
  have "list_rel (list_add_tail ?r ?n (lists ?e)) (F(?r \<mapsto> ns @ [?n]))"
    by (rule os_list.rel_add_tail [OF kinv_rel [OF ke] w(1,2)])
  then have k1: "kinv (F(?r \<mapsto> ns @ [?n])) ?s1"
    using w(3) by (intro kinv_foreign [OF ke]) auto
  have notin: "?n \<notin> set ns" using w(1,2) by (auto simp: fresh_def)
  have "list_rel (list_del ?n (lists ?s1)) ((F(?r \<mapsto> ns @ [?n]))(?r \<mapsto> remove1 ?n (ns @ [?n])))"
    by (rule os_list.rel_del [OF kinv_rel [OF k1]]) simp_all
  moreover have "(F(?r \<mapsto> ns @ [?n]))(?r \<mapsto> remove1 ?n (ns @ [?n])) = F"
    using w(1) notin by (auto simp: fun_eq_iff remove1_append)
  ultimately have "kinv F ?s2"
    using kinv_foreign [OF k1, of "list_del ?n" ?r "remove1 ?n (ns @ [?n])"] w(3) notin
    by (auto simp: remove1_append)
  then have k3: "kinv F (exit_critical (fst (enter_critical s)) ?s2)" by simp
  have "mutex_lock_timeout m 0 s = Some (Lock_return 0, exit_critical (fst (enter_critical s)) ?s2)"
    using c by (simp add: mutex_lock_timeout_def mutex_lock_loop_def suspend_task_timeout_def
        split_beta Let_def)
  with k3 walk_list [OF k3 own(1)] show ?thesis by simp
qed

subsection \<open>Instances\<close>

lemma demo_mutex_free: "mutex_free PidMapMutex demo_lists demo"
proof -
  have no: "n \<notin> set xs" if "demo_lists r = Some xs" "foreign n" for r xs n
    using base_inv_on [of demo_lists demo r n] demo_kinv that
    by (auto simp: kinv_defs demo_lists_def abs_new_def q_add_def boot_lists_def
        foreign_def split: if_splits)
  have "fresh demo_lists (M_task PidMapMutex)"
    unfolding fresh_def using no
    by (auto simp: demo_lists_sel boot_lists_def boot_heads_def)
  then show ?thesis
    using demo_spec by (simp add: mutex_free_def demo_lists_sel boot_lists_def boot_heads_def)
qed

definition held_lists :: "node lists" where
  "held_lists = demo_lists(N_mutex_get 0x2000 \<mapsto> [M_task PidMapMutex])"

definition held :: kstate where
  "held = snd (the (mutex_lock PidMapMutex demo))"

lemma held_spec:
  "mutex_lock PidMapMutex demo = Some (Lock_return 0, held) \<and> kready held_lists held \<and>
   mutex_count held PidMapMutex = 1 \<and> task held = task demo \<and> current held = 0x2000 \<and> idle held = 0x2000"
proof -
  have sel: "demo_lists (N_mutex_get (current demo)) = Some []" "fresh demo_lists (M_task PidMapMutex)"
    "mutex_count demo PidMapMutex = 0"
    using demo_mutex_free by (auto simp: mutex_free_def demo_task demo_lists_sel boot_lists_def boot_heads_def)
  from mutex_lock_free [OF demo_kinv sel(3,1,2), of "-1"] obtain s where
    s: "mutex_lock_timeout PidMapMutex (-1) demo = Some (Lock_return 0, s)"
      "kinv held_lists s" "mutex_count s = (mutex_count demo)(PidMapMutex := 1)" "mutex_frame demo s"
      "task s = task demo"
    by (auto simp: demo_task held_lists_def)
  then have "held = s" by (simp add: held_def mutex_lock_def)
  with s mutex_frame_sel [OF s(4)] demo_ready show ?thesis
    by (simp add: mutex_lock_def kready_def demo_task)
qed

lemma held_sel:
  "held_lists (M_wait PidMapMutex) = Some []" "held_lists (N_mutex_get 0x2000) = Some [M_task PidMapMutex]"
  "fresh held_lists (N_wait 0x2000)" "kinv held_lists held"
proof -
  show k: "kinv held_lists held" using held_spec kready_kinv(1) by blast
  show "held_lists (M_wait PidMapMutex) = Some []" "held_lists (N_mutex_get 0x2000) = Some [M_task PidMapMutex]"
    by (simp_all add: held_lists_def demo_lists_sel boot_lists_def boot_heads_def)
  show "fresh held_lists (N_wait 0x2000)"
    by (auto simp: fresh_def held_lists_def demo_lists_def abs_new_def q_add_def boot_lists_def
        boot_heads_def split: if_splits)
qed

theorem lock_excludes_witness:
  "\<exists>s1 s2. mutex_lock_timeout PidMapMutex (-1) demo = Some (Lock_return 0, s1) \<and> mutex_count s1 PidMapMutex = 1 \<and>
    mutex_lock_timeout PidMapMutex (-1) s1 = Some (Lock_suspended, s2) \<and> current s2 = 0x3000 \<and>
    t_state (task s2 0x2000) = PROCESS_STATE_SLEEP \<and>
    list_for_each (M_wait PidMapMutex) (lists s2) = Some [N_wait 0x2000]"
proof -
  let ?m = PidMapMutex
  have d: "demo_lists (M_wait ?m) = Some (map N_wait [])" "demo_lists (N_mutex_get (current demo)) = Some []"
    "fresh demo_lists (M_task ?m)" "mutex_count demo ?m = 0"
    using demo_mutex_free by (auto simp: mutex_free_def demo_task demo_lists_sel boot_lists_def boot_heads_def)
  have f: "fresh demo_lists (N_wait (current demo))"
    by (auto simp: fresh_def demo_lists_def abs_new_def q_add_def boot_lists_def boot_heads_def split: if_splits)
  have "\<exists>s1. mutex_lock_timeout ?m (-1) demo = Some (Lock_return 0, s1) \<and> mutex_count s1 ?m = 1"
    using lock_excludes [OF demo_ready _ _ d(1) f d(2) _ d(3), of "-1"] d(4) by (auto simp: demo_task)
  then have one: "mutex_lock_timeout ?m (-1) demo = Some (Lock_return 0, held)" "mutex_count held ?m = 1"
    using held_spec by (auto simp: mutex_lock_def)
  have c: "current held = 0x2000" "task held = task demo" "kready held_lists held" using held_spec by auto
  have h: "first_ready held_lists 0x3000 5" using demo_first by (simp add: first_ready_def held_lists_def)
  have n: "\<forall>n \<in> set [M_task ?m]. foreign n" "held_lists (N_mutex_get (current held)) = Some [M_task ?m]"
    "held_lists (M_wait ?m) = Some (map N_wait [])" "fresh held_lists (N_wait (current held))"
    using held_sel c(1) by simp_all
  have "\<exists>s2. mutex_lock_timeout ?m (-1) held = Some (Lock_suspended, s2) \<and> current s2 = 0x3000 \<and>
      t_state (task s2 0x2000) = PROCESS_STATE_SLEEP \<and> list_for_each (M_wait ?m) (lists s2) = Some [N_wait 0x2000]"
    using lock_excludes [OF c(3) _ _ n(3,4,2,1), of "-1"] one(2) c first_ready_not_nothing [OF h] first_ready_unique [OF h]
    by (auto simp: demo_task)
  with one show ?thesis by blast
qed

theorem lock_zero_timeout_lies_witness:
  "\<exists>s'. mutex_lock_timeout PidMapMutex 0 held = Some (Lock_return 0, s') \<and>
    list_for_each (N_mutex_get 0x2000) (lists s') = Some [M_task PidMapMutex]"
  using lock_zero_timeout_lies [OF held_sel(4), of PidMapMutex "[]" "0x2000"] held_spec held_sel
  by auto

theorem unlock_wakes_waiters_witness:
  "\<exists>s s'. mutex_lock_timeout PidMapMutex (-1) held = Some (Lock_suspended, s) \<and>
    mutex_unlock PidMapMutex s = Some s' \<and> t_state (task s 0x2000) = PROCESS_STATE_SLEEP \<and>
    t_state (task s' 0x2000) = PROCESS_STATE_PREPARE \<and> list_for_each (M_wait PidMapMutex) (lists s') = Some []"
proof -
  let ?m = PidMapMutex
  let ?F1 = "q_add (N_sleep (current held)) TaskSleep (held_lists(M_wait ?m \<mapsto> map N_wait ([] @ [current held])))"
  have run: "\<not> in_interrupt held" "schedule_running held" using held_spec by (auto simp: kready_def)
  obtain s1 s F where s: "mutex_lock_timeout ?m (-1) held = Some (Lock_suspended, s)" "kinv F s"
    "mutex_count s = mutex_count held"
    "task s1 = (task held)(current held := (task held (current held))
       \<lparr>wait_time := -1, time_out := 0, t_state := PROCESS_STATE_SLEEP\<rparr>)" "current s1 = current held"
    "resched ?F1 s1 (current s) F s"
    using mutex_lock_held [OF held_sel(4), of ?m "-1" "[]"] held_spec held_sel run
    by (auto simp: demo_task)
  have c: "current held = 0x2000" "idle held = 0x2000" using held_spec by auto
  have F: "F (M_wait ?m) = Some (map N_wait [0x2000])" "F (N_mutex_get 0x2000) = Some [M_task ?m]"
    using resched_foreign [OF s(6), of "M_wait ?m"] resched_foreign [OF s(6), of "N_mutex_get 0x2000"]
    by (simp_all add: c held_sel)
  have "F TaskSleep = ?F1 TaskSleep"
    using s(6) by (auto simp: resched_def abs_switch_def abs_set_state_def)
  then have "on F TaskSleep (N_sleep 0x2000)"
    by (simp add: on_def c held_lists_def demo_lists_sel)
  with s(2) have sl: "live F s 0x2000" "t_state (task s 0x2000) = PROCESS_STATE_SLEEP"
    by (auto simp: kinv_defs sem_inv_def)
  from unlock_wakes_waiters [OF s(2) _ F(1) _ F(2)] sl s(3) held_spec obtain s'
    where "mutex_unlock ?m s = Some s'" "t_state (task s' 0x2000) = PROCESS_STATE_PREPARE"
      "list_for_each (M_wait ?m) (lists s') = Some []"
    by auto
  with s(1) sl(2) show ?thesis by blast
qed

section \<open>Process identifiers\<close>

text \<open>
  C10. \<^verbatim>\<open>get_new_pid\<close> gives a new task an identifier that was never given out before, enters the
  task under it and leaves the entries of all other identifiers alone; when all 1024 identifiers have
  been given out it returns \<open>-1\<close> and changes nothing.
\<close>

theorem get_new_pid_fresh:
  assumes "kinv F s" and "mutex_free PidMapMutex F s" and "pid_inv s"
  shows "\<exists>pid s'. get_new_pid t s = Some (Some pid, s') \<and> kinv F s' \<and> pid_inv s' \<and>
    (if pid_current s < pid_nr s
     then pid = pid_current s \<and> pid_current s' = pid + 1 \<and> pid_get_task pid s' = Some t \<and>
       (\<forall>i. i \<noteq> pid \<longrightarrow> pid_get_task i s' = pid_get_task i s)
     else pid = -1 \<and> pid_current s' = pid_current s \<and> pid_addr s' = pid_addr s)"
  using get_new_pid_spec [OF assms, of t] by (cases "pid_current s < pid_nr s") auto

lemma booted_pid: "pid_inv booted" "mutex_free PidMapMutex (boot_lists 0x2000) booted"
  "pid_current booted = 0" "pid_nr booted = 1024"
  unfolding booted_def by (simp_all add: boot_pid boot_sel PID_NR_def)

theorem get_new_pid_fresh_witness:
  "\<exists>s'. get_new_pid 0x3000 booted = Some (Some 0, s') \<and> pid_get_task 0 s' = Some 0x3000"
  using get_new_pid_fresh [OF kready_kinv(1) [OF booted_ready] booted_pid(2,1), of "0x3000"] booted_pid(3,4)
  by auto

text \<open>
  Identifiers are never reused: once the last one has been given out, releasing a task's
  identifier does not make a new one available, although its entry is free again.
\<close>

theorem pids_run_out:
  assumes k: "kinv F s" and free: "mutex_free PidMapMutex F s" and inv: "pid_inv s"
    and all: "pid_current s = pid_nr s" and pid: "0 \<le> t_pid (task s t)" "t_pid (task s t) < pid_nr s"
  shows "\<exists>s1 s2. release_pid t s = Some (Some 0, s1) \<and>
    pid_get_task (t_pid (task s t)) s1 = Some NULL \<and> get_new_pid u s1 = Some (Some (-1), s2)"
proof -
  obtain s1 where s1: "release_pid t s = Some (Some 0, s1)" "kinv F s1" "mutex_free PidMapMutex F s1"
    "pid_inv s1" "pid_current s1 = pid_current s" "pid_nr s1 = pid_nr s"
    "pid_get_task (t_pid (task s t)) s1 = Some NULL"
    using release_pid_spec [OF k free inv pid(1)] pid(2) all by auto
  from get_new_pid_spec [OF s1(2-4), of u] s1(5,6) all obtain s2
    where "get_new_pid u s1 = Some (Some (-1), s2)" by auto
  with s1 show ?thesis by blast
qed

definition full_pids :: kstate where
  "full_pids = booted\<lparr>pid_current := 1024, pid_nr_free := 0, pid_addr := Some (replicate 1024 0x3000)\<rparr>"

theorem pids_run_out_witness:
  "\<exists>s1 s2. release_pid 0x3000 full_pids = Some (Some 0, s1) \<and> pid_get_task 0 s1 = Some NULL \<and>
    get_new_pid 0x4000 s1 = Some (Some (-1), s2)"
proof -
  have "kinv (boot_lists 0x2000) full_pids"
    using kready_kinv(1) [OF booted_ready] by (subst kinv_cong [of _ booted]) (simp_all add: full_pids_def)
  moreover have "mutex_free PidMapMutex (boot_lists 0x2000) full_pids"
    using booted_pid(2) by (simp add: mutex_free_def full_pids_def)
  moreover have "pid_inv full_pids" by (simp add: pid_inv_def full_pids_def booted_pid)
  moreover have "t_pid (task full_pids 0x3000) = 0"
    by (simp add: full_pids_def booted_task blank_task_def)
  ultimately show ?thesis
    using pids_run_out [of "boot_lists 0x2000" full_pids "0x3000" "0x4000"]
    by (simp add: full_pids_def booted_pid)
qed

text \<open>
  Removing a killed task from the scheduler: the task is no longer registered, its identifier
  no longer leads to it, and the invariant of the scheduler holds for the rest.  The first two
  identifiers, and tasks that are not in the idle state, are refused.
\<close>

theorem remove_task:
  assumes "kinv F s" and "mutex_free PidMapMutex F s" and "pid_inv s"
    and "live F s t" "t \<noteq> idle s" "t \<noteq> current s"
    and "0 \<le> t_pid (task s t)" "t_pid (task s t) < pid_current s"
  shows "(if t_state (task s t) \<noteq> PROCESS_STATE_IDLE \<or> t_pid (task s t) \<le> 1
     then sched_remove_task t s = Some (Some (- EINVAL), s)
     else \<exists>s' F'. sched_remove_task t s = Some (Some 0, s') \<and> kinv F' s' \<and> \<not> registered s' t \<and>
       pid_get_task (t_pid (task s t)) s' = Some NULL)"
proof (cases "t_state (task s t) \<noteq> PROCESS_STATE_IDLE \<or> t_pid (task s t) \<le> 1")
  case True
  then have "t_state (task s t) \<noteq> PROCESS_STATE_IDLE \<or> t_pid (task s t) = 1 \<or> t_pid (task s t) = 0"
    using assms(7) by linarith
  with True show ?thesis
    by (auto simp: sched_remove_task_def get_task_state_def get_task_pid_def)
next
  case False
  then obtain s' where "sched_remove_task t s = Some (Some 0, s')" "kinv (abs_remove t F) s'"
    "\<not> live (abs_remove t F) s' t" "pid_get_task (t_pid (task s t)) s' = Some NULL"
    using sched_remove_task_spec [OF assms(1-6)] assms(8) by auto
  with False registered_live [of "abs_remove t F" s' t] show ?thesis by auto
qed

definition pid_demo :: kstate where
  "pid_demo = upd_task 0x3000 (\<lambda>ts. ts\<lparr>t_pid := 5\<rparr>)
     (demo\<lparr>pid_nr := 16, pid_current := 8, pid_nr_free := 8, pid_addr := Some ((replicate 16 0)[5 := 0x3000])\<rparr>)"

theorem remove_task_witness:
  "\<exists>s s'. set_task_state 0x3000 PROCESS_STATE_IDLE pid_demo = Some s \<and>
    sched_remove_task 0x3000 s = Some (Some 0, s') \<and> \<not> registered s' 0x3000 \<and>
    pid_get_task 5 s' = Some NULL"
proof -
  have k: "kinv demo_lists pid_demo"
    using demo_kinv by (subst kinv_cong [of _ demo]) (simp_all add: pid_demo_def)
  have l: "live demo_lists pid_demo 0x3000" by (simp add: live_def on_def demo_lists_sel)
  have st: "t_state (task pid_demo 0x3000) = PROCESS_STATE_PREPARE" "t_prio (task pid_demo 0x3000) = 5"
    "t_pid (task pid_demo 0x3000) = 5"
    by (simp_all add: pid_demo_def demo_task blank_task_def)
  let ?F = "abs_set_state PROCESS_STATE_PREPARE PROCESS_STATE_IDLE 0x3000 5 demo_lists"
  obtain s where s: "set_task_state 0x3000 PROCESS_STATE_IDLE pid_demo = Some s" "kinv ?F s"
    "state_frame 0x3000 PROCESS_STATE_IDLE pid_demo s"
    using set_task_state_kinv [OF k l] by (auto simp: st transition_def)
  note f = state_frame_sel [OF s(3)]
  have "mutex_free PidMapMutex ?F s"
  proof -
    have "\<not> on demo_lists r (M_task PidMapMutex)" for r
      using demo_mutex_free by (auto simp: mutex_free_def fresh_def on_def)
    then have "fresh ?F (M_task PidMapMutex)"
      using demo_mutex_free
      by (auto simp: mutex_free_def fresh_def on_def abs_set_state_def q_add_def q_del_def
          dest: notin_set_remove1 split: if_splits)
    then show ?thesis
      using demo_mutex_free f(2,8)
      by (auto simp: mutex_free_def pid_demo_def demo_task abs_set_state_def)
  qed
  moreover have "pid_inv s" using f(9-12) by (auto simp: pid_inv_def pid_demo_def nth_list_update nth_Cons split: nat.splits)
  moreover have "live ?F s 0x3000"
    using l live_cong [OF f(3), of demo_lists] by (simp add: live_set_state)
  moreover have "t_state (task s 0x3000) = PROCESS_STATE_IDLE" "t_pid (task s 0x3000) = 5"
    "pid_current s = 8" "idle s = 0x2000" "current s = 0x2000"
    using f by (simp_all add: st pid_demo_def demo_task)
  ultimately show ?thesis
    using remove_task [OF s(2), of "0x3000"] s(1) by auto
qed

section \<open>Changing the priority of a ready task\<close>

text \<open>A path along \<^verbatim>\<open>next\<close> fields, which is all \<^verbatim>\<open>list_for_each\<close> looks at.\<close>

primrec nseg :: "'n lheap \<Rightarrow> 'n \<Rightarrow> 'n list \<Rightarrow> 'n \<Rightarrow> bool" where
  "nseg h a [] b \<longleftrightarrow> lnext h a = b"
| "nseg h a (x # xs) b \<longleftrightarrow> lnext h a = x \<and> nseg h x xs b"

lemma dseg_nseg: "dseg h a xs b \<Longrightarrow> nseg h a xs b"
  by (induction xs arbitrary: a) auto

lemma nseg_append [simp]: "nseg h a (us @ x # vs) b \<longleftrightarrow> nseg h a us x \<and> nseg h x vs b"
  by (induction us arbitrary: a) auto

lemma nseg_cong: "(\<And>n. n \<in> set (a # xs) \<Longrightarrow> lnext h' n = lnext h n) \<Longrightarrow> nseg h' a xs b \<longleftrightarrow> nseg h a xs b"
  by (induction xs arbitrary: a) auto

lemma list_walk_nseg:
  "nseg h a xs r \<Longrightarrow> r \<notin> set xs \<Longrightarrow> list_walk r (lnext h a) h = Some xs"
proof (induction xs arbitrary: a)
  case Nil
  then show ?case by (simp add: list_walk.simps)
next
  case (Cons x xs)
  then have "list_walk r (lnext h x) h = Some xs" by simp
  with Cons.prems show ?case by (subst list_walk.simps) auto
qed

text \<open>Inserting a node that is already on the list cuts off what follows it.\<close>

lemma list_add_tail_twice:
  assumes d: "dlist h r (us @ n # vs)"
  shows "nseg (list_add_tail r n h) r (us @ [n]) r"
proof -
  have dseg: "dseg h r us n" and dist: "distinct (r # us @ n # vs)" using d by (auto simp: dlist_def)
  have "lpre h r = last (r # us @ n # vs)" using d dseg_pre [of h r "us @ n # vs" r] by (simp add: dlist_def)
  then have last: "lpre h r \<in> set (n # vs)"
    by (cases vs rule: rev_cases) simp_all
  have "lnext (list_add_tail r n h) x = lnext h x" if "x \<in> set (r # us)" for x
    using that last dist by (auto simp: list_ops)
  then have "nseg (list_add_tail r n h) r us n \<longleftrightarrow> nseg h r us n" by (intro nseg_cong) auto
  moreover have "lnext (list_add_tail r n h) n = r" by (simp add: list_ops)
  ultimately show ?thesis using dseg_nseg [OF dseg] by simp
qed

lemma set_task_prio_ready_heap:
  assumes "t_state (task s t) = PROCESS_STATE_PREPARE" and "prio_ok (t_prio (task s t))" and "prio_ok p"
  shows "\<exists>s'. set_task_prio t p s = Some (0, s') \<and>
    lists s' = list_add_tail (OsSched p) (N_prio_running t)
      (list_add_tail TaskSystem (N_system t) (list_del (N_prio_running t) (lists s)))"
proof -
  let ?e = "upd_task t (\<lambda>ts. ts\<lparr>t_state := PROCESS_STATE_UNKNOWN\<rparr>) (snd (enter_critical s))"
  let ?q = "t_prio (task s t)"
  let ?d = "(on_lists (list_del (N_prio_running t)) ?e)
          \<lparr>os_sched_count := (os_sched_count s)(?q := os_sched_count s ?q - 1)\<rparr>"
  let ?s1 = "exit_critical (fst (enter_critical s)) ?d"
  have s1: "set_task_state t PROCESS_STATE_UNKNOWN s = Some ?s1"
    using assms(1,2)
    by (simp add: set_task_state_def get_task_state_def get_state_change_eq prio_list_del_task_def
        split_beta Let_def)
  let ?s2 = "upd_task t (\<lambda>ts. ts\<lparr>pre_prio := t_prio ts, t_prio := p\<rparr>) ?s1"
  have st2: "t_state (task ?s2 t) = PROCESS_STATE_UNKNOWN" "t_prio (task ?s2 t) = p"
    "lists ?s2 = list_del (N_prio_running t) (lists s)" by simp_all
  obtain s3 where s3: "set_task_state t PROCESS_STATE_PREPARE ?s2 = Some s3"
    "lists s3 = list_add_tail (OsSched p) (N_prio_running t)
      (list_add_tail TaskSystem (N_system t) (lists ?s2))"
    using assms(3) st2(1,2)
    by (simp add: set_task_state_def get_task_state_def get_state_change_eq prio_list_add_task_tail_def
        sched_list_add_task_tail_def split_beta Let_def)
  have "p < MAX_PRIO" using assms(3) by (simp add: prio_ok_def)
  then have "set_task_prio t p s = Some (0, s3)"
    using s1 s3(1) assms(1) by (simp add: set_task_prio_def get_task_state_def)
  with s3(2) st2(3) show ?thesis by simp
qed

text \<open>
  C14. Changing the priority of a task that is ready hooks it on the system list a second time, which
  cuts off the list behind it: all tasks registered after it are lost from the list.
\<close>

theorem set_prio_of_ready_task_cuts_system_list:
  assumes k: "kinv F s" and sys: "F TaskSystem = Some (us @ N_system t # vs)"
    and st: "t_state (task s t) = PROCESS_STATE_PREPARE" and p: "prio_ok p"
  shows "\<exists>s'. set_task_prio t p s = Some (0, s') \<and>
    list_for_each TaskSystem (lists s') = Some (us @ [N_system t])"
proof -
  have base: "base_inv F s" and sem: "sem_inv {} F s" using k by (auto simp: kinv_defs)
  have l: "live F s t" using sys by (simp add: live_def on_def)
  have q: "prio_ok (t_prio (task s t))" using sem l by (auto simp: sem_inv_def)
  let ?q = "t_prio (task s t)" and ?n = "N_prio_running t"
  have on: "on F (OsSched ?q) ?n" using sem l st by (auto simp: sem_inv_def)
  then obtain xs where xs: "F (OsSched ?q) = Some xs" "?n \<in> set xs" by (auto simp: on_def)
  let ?h1 = "list_del ?n (lists s)"
  let ?h2 = "list_add_tail TaskSystem (N_system t) ?h1"
  let ?h3 = "list_add_tail (OsSched p) ?n ?h2"
  let ?F1 = "F(OsSched ?q \<mapsto> remove1 ?n xs)"
  have rel1: "list_rel ?h1 ?F1" by (rule os_list.rel_del [OF kinv_rel [OF k] xs])
  have d1: "dlist ?h1 TaskSystem (us @ N_system t # vs)"
    using list_rel_dlist [OF rel1, of TaskSystem] sys by simp
  note path = list_add_tail_twice [OF d1]
  obtain ys where ys: "?F1 (OsSched p) = Some ys"
    using base_inv_prio [OF base p] by (cases "p = ?q") auto
  have "lpre ?h1 (OsSched p) \<in> set (OsSched p # ys)"
    using dlist_pre_in [OF list_rel_dlist [OF rel1 ys]] by simp
  moreover have "set (OsSched p # ys) \<inter> set (TaskSystem # us @ N_system t # vs) = {}"
    using list_rel_disjoint [OF rel1 ys, of TaskSystem "us @ N_system t # vs"] sys by simp
  ultimately have pre: "lpre ?h2 (OsSched p) \<notin> set (TaskSystem # us @ [N_system t])"
    by (auto simp: list_add_tail_def Let_def)
  have mem: "x \<noteq> ?n" if "x \<in> set (TaskSystem # us @ [N_system t])" for x
    using that base_inv_on [OF base, of TaskSystem x] sys by (auto simp: on_def)
  have "lnext ?h3 x = lnext ?h2 x" if "x \<in> set (TaskSystem # us @ [N_system t])" for x
    using that pre mem [OF that] by (auto simp: list_add_tail_def [of "OsSched p"] Let_def)
  then have "nseg ?h3 TaskSystem (us @ [N_system t]) TaskSystem"
    using path by (subst nseg_cong [of _ _ _ ?h2]) auto
  moreover have "TaskSystem \<notin> set (us @ [N_system t])" using d1 by (auto simp: dlist_def)
  ultimately have "list_for_each TaskSystem ?h3 = Some (us @ [N_system t])"
    unfolding list_for_each_def by (rule list_walk_nseg)
  with set_task_prio_ready_heap [OF st q p] show ?thesis by auto
qed

theorem set_prio_of_ready_task_cuts_system_list_witness:
  "list_for_each TaskSystem (lists demo) = Some [N_system 0x3000, N_system 0x4000] \<and>
   (\<exists>s'. set_task_prio 0x3000 9 demo = Some (0, s') \<and>
      list_for_each TaskSystem (lists s') = Some [N_system 0x3000])"
  using set_prio_of_ready_task_cuts_system_list [OF demo_kinv, of "[]" "0x3000" "[N_system 0x4000]" 9]
    walk_list [OF demo_kinv demo_lists_sel(3)]
  by (auto simp: demo_lists_sel demo_task prio_ok_def)

section \<open>The state machine\<close>

text \<open>
  C9. \<^verbatim>\<open>set_task_state\<close> refines the queues it is meant to maintain: a registered task leaves the
  queue of its old state and joins the tail of the queue of its new state, nothing else about any task
  changes, and interrupts are as before.
\<close>

theorem set_task_state_refinement:
  assumes "sched_inv F s" and "live F s t"
    and "t_state (task s t) \<noteq> new" and "t_state (task s t) \<noteq> PROCESS_STATE_IDLE"
    and "new \<in> {PROCESS_STATE_PREPARE, PROCESS_STATE_RUNNING, PROCESS_STATE_SLEEP, PROCESS_STATE_IDLE}"
  shows "\<exists>s'. set_task_state t new s = Some s' \<and>
    sched_inv (abs_enter new t (t_prio (task s t)) (abs_leave (t_state (task s t)) t (t_prio (task s t)) F)) s' \<and>
    task s' = (task s)(t := (task s t)\<lparr>t_state := new\<rparr>) \<and> cpsr s' = cpsr s"
proof -
  have "transition (t_state (task s t)) new"
    using assms sched_inv_state_cases [OF assms(1,2)] by (auto simp: transition_def)
  from set_task_state_refines [OF assms(1,2) this] show ?thesis
    by (auto simp: abs_set_state_def dest: state_frame_sel(1,7))
qed

theorem set_task_state_refinement_witness:
  "\<exists>s'. set_task_state 0x3000 PROCESS_STATE_SLEEP demo = Some s' \<and>
    t_state (task s' 0x3000) = PROCESS_STATE_SLEEP"
proof -
  have "sched_inv demo_lists demo" using demo_kinv by (simp add: kinv_def)
  moreover have "live demo_lists demo 0x3000" by (simp add: live_def on_def demo_lists_sel)
  ultimately show ?thesis
    using set_task_state_refinement [of demo_lists demo "0x3000" PROCESS_STATE_SLEEP] by (auto simp: demo_task)
qed

text \<open>
  The lookup in the byte table of state changes, with its two uninitialised rows: the twelve
  changes of the table, one more (\<open>PREPARE\<close> to \<open>PREPARE\<close> is taken for a new task), and no other.
\<close>

theorem state_change_lookup:
  "get_state_change old new =
     (if old = PROCESS_STATE_PREPARE \<and> new = PROCESS_STATE_PREPARE then STATE_NONE_TO_PREPARE
      else case map_of (map (\<lambda>(a, b, c). ((a, b), c)) change_rows) (old, new) of
        Some c \<Rightarrow> c | None \<Rightarrow> STATE_NONE_TO_NONE)"
  by (cases old; cases new; simp add: get_state_change_eq change_rows_def)

end
