(* ===== verification/Bitops.thy ===== *)
theory Bitops
  imports Prelude
begin

text \<open>
  Bit maps: \<^verbatim>\<open>kernel/bitops.c\<close> and \<^verbatim>\<open>include/os/bitops.h\<close>.  A bit map is an array of
  32-bit words; \<open>bm_bit\<close> reads it as an array of booleans.  An index outside the array has
  no defined result.  \<open>bit_array\<close> is the contract the page allocator relies on; it is
  interpreted on the operations of the source.
\<close>

section \<open>The operations\<close>

datatype bit_ops_t = BITS_CLEAR | BITS_SET | BITS_READ

text \<open>The divisor \<^verbatim>\<open>sizeof(u32) * 8\<close> is unsigned, so the C division is unsigned.\<close>

definition get_bit_pos :: "int \<Rightarrow> nat \<times> nat" where
  "get_bit_pos n = (unat (word_of_int n :: u32) div 32, unat (word_of_int n :: u32) mod 32)"

definition op_bits :: "u32 list option \<Rightarrow> int \<Rightarrow> bit_ops_t \<Rightarrow> (int \<times> u32 list option) option" where
  "op_bits bit_map n ops =
     (case bit_map of
        None \<Rightarrow> Some (- EINVAL, None)
      | Some bm \<Rightarrow>
          (let (x, y) = get_bit_pos n in
           if x < length bm then
             (case ops of
                BITS_CLEAR \<Rightarrow> Some (0, Some (bm[x := (bm ! x) AND NOT (bitm y)]))
              | BITS_SET \<Rightarrow> Some (0, Some (bm[x := (bm ! x) OR bitm y]))
              | BITS_READ \<Rightarrow> Some (uint (drop_bit y ((bm ! x) AND bitm y)), Some bm))
           else None))"

definition os_clear_bit :: "u32 list \<Rightarrow> int \<Rightarrow> u32 list option" where
  "os_clear_bit bm n = do { (_, bm') \<leftarrow> op_bits (Some bm) n BITS_CLEAR; bm' }"

definition os_set_bit :: "u32 list \<Rightarrow> int \<Rightarrow> u32 list option" where
  "os_set_bit bm n = do { (_, bm') \<leftarrow> op_bits (Some bm) n BITS_SET; bm' }"

definition os_read_bit :: "u32 list \<Rightarrow> int \<Rightarrow> int option" where
  "os_read_bit bm n = do { (r, _) \<leftarrow> op_bits (Some bm) n BITS_READ; Some r }"

definition init_bitmap :: "u32 list \<Rightarrow> int \<Rightarrow> u32 list option" where
  "init_bitmap bm n = for_loop 0 n (\<lambda>i bm. os_clear_bit bm i) bm"

definition bits_to_long :: "u32 \<Rightarrow> u32" where
  "bits_to_long n = (n AND 0xffffffc0) div 32 + 1"

section \<open>A bit map as an array of booleans\<close>

definition bm_bit :: "u32 list \<Rightarrow> int \<Rightarrow> bool" where
  "bm_bit bm i \<longleftrightarrow> bit (bm ! (nat i div 32)) (nat i mod 32)"

definition bm_size :: "u32 list \<Rightarrow> int" where
  "bm_size bm = 32 * int (length bm)"

lemma get_bit_pos_in_range: "0 \<le> n \<Longrightarrow> n < 2 ^ 32 \<Longrightarrow> get_bit_pos n = (nat n div 32, nat n mod 32)"
  by (simp add: get_bit_pos_def unat_eq_nat_uint uint_word_of_int)

lemma bm_index: "0 \<le> n \<Longrightarrow> n < bm_size bm \<longleftrightarrow> nat n div 32 < length bm"
  by (auto simp: bm_size_def div_less_iff_less_mult nat_less_iff)

lemma same_bit_pos:
  "0 \<le> i \<Longrightarrow> 0 \<le> j \<Longrightarrow> nat i div 32 = nat j div 32 \<Longrightarrow> nat i mod 32 = nat j mod 32 \<Longrightarrow> i = j"
  by (metis div_mult_mod_eq nat_eq_iff2 nat_0_le)

lemma os_read_bit_eq:
  "0 \<le> n \<Longrightarrow> n < bm_size bm \<Longrightarrow> n < 2 ^ 32 \<Longrightarrow> os_read_bit bm n = Some (of_bool (bm_bit bm n))"
  by (simp add: os_read_bit_def op_bits_def get_bit_pos_in_range bm_index drop_and_bitm bm_bit_def
      del: drop_bit_and)

lemma os_set_bit_eq:
  assumes "0 \<le> n" and "n < bm_size bm" and "n < 2 ^ 32"
  shows "\<exists>bm'. os_set_bit bm n = Some bm' \<and> bm_size bm' = bm_size bm \<and>
    (\<forall>i. 0 \<le> i \<longrightarrow> i < bm_size bm \<longrightarrow> bm_bit bm' i = (i = n \<or> bm_bit bm i))"
proof -
  let ?x = "nat n div 32" and ?y = "nat n mod 32"
  let ?bm = "bm[?x := (bm ! ?x) OR bitm ?y]"
  have "os_set_bit bm n = Some ?bm"
    using assms by (simp add: os_set_bit_def op_bits_def get_bit_pos_in_range bm_index)
  moreover have "bm_bit ?bm i = (i = n \<or> bm_bit bm i)" if "0 \<le> i" "i < bm_size bm" for i
    using that assms bm_index [of i bm] bm_index [of n bm] same_bit_pos [of i n]
    by (auto simp: bm_bit_def nth_list_update bit_or_bitm)
  ultimately show ?thesis by (auto simp: bm_size_def)
qed

lemma os_clear_bit_eq:
  assumes "0 \<le> n" and "n < bm_size bm" and "n < 2 ^ 32"
  shows "\<exists>bm'. os_clear_bit bm n = Some bm' \<and> bm_size bm' = bm_size bm \<and>
    (\<forall>i. 0 \<le> i \<longrightarrow> i < bm_size bm \<longrightarrow> bm_bit bm' i = (i \<noteq> n \<and> bm_bit bm i))"
proof -
  let ?x = "nat n div 32" and ?y = "nat n mod 32"
  let ?bm = "bm[?x := (bm ! ?x) AND NOT (bitm ?y)]"
  have "os_clear_bit bm n = Some ?bm"
    using assms by (simp add: os_clear_bit_def op_bits_def get_bit_pos_in_range bm_index)
  moreover have "bm_bit ?bm i = (i \<noteq> n \<and> bm_bit bm i)" if "0 \<le> i" "i < bm_size bm" for i
    using that assms bm_index [of i bm] bm_index [of n bm] same_bit_pos [of i n]
    by (auto simp: bm_bit_def nth_list_update bit_and_not_bitm)
  ultimately show ?thesis by (auto simp: bm_size_def)
qed

section \<open>The contract of bitops.h\<close>

locale bit_array =
  fixes rd :: "'m \<Rightarrow> int \<Rightarrow> int option"
    and st :: "'m \<Rightarrow> int \<Rightarrow> 'm option"
    and cl :: "'m \<Rightarrow> int \<Rightarrow> 'm option"
    and bits :: "'m \<Rightarrow> int \<Rightarrow> bool"
    and len :: "'m \<Rightarrow> int"
  assumes rd: "0 \<le> n \<Longrightarrow> n < len m \<Longrightarrow> n < 2 ^ 32 \<Longrightarrow> rd m n = Some (of_bool (bits m n))"
    and st: "0 \<le> n \<Longrightarrow> n < len m \<Longrightarrow> n < 2 ^ 32 \<Longrightarrow>
      \<exists>m'. st m n = Some m' \<and> len m' = len m \<and>
        (\<forall>i. 0 \<le> i \<longrightarrow> i < len m \<longrightarrow> bits m' i = (i = n \<or> bits m i))"
    and cl: "0 \<le> n \<Longrightarrow> n < len m \<Longrightarrow> n < 2 ^ 32 \<Longrightarrow>
      \<exists>m'. cl m n = Some m' \<and> len m' = len m \<and>
        (\<forall>i. 0 \<le> i \<longrightarrow> i < len m \<longrightarrow> bits m' i = (i \<noteq> n \<and> bits m i))"
begin

text \<open>Setting or clearing a whole range, index by index.\<close>

lemma set_range:
  assumes "0 \<le> a" and "a \<le> b" and "b \<le> len m" and "b \<le> 2 ^ 32"
  shows "\<exists>m'. for_loop a b (\<lambda>i m. st m i) m = Some m' \<and> len m' = len m \<and>
    (\<forall>i. 0 \<le> i \<longrightarrow> i < len m \<longrightarrow> bits m' i = (a \<le> i \<and> i < b \<or> bits m i))"
proof -
  let ?P = "\<lambda>k m'. len m' = len m \<and>
    (\<forall>i. 0 \<le> i \<longrightarrow> i < len m \<longrightarrow> bits m' i = (a \<le> i \<and> i < k \<or> bits m i))"
  have step: "\<exists>t'. st t k = Some t' \<and> ?P (k + 1) t'" if k: "a \<le> k" "k < b" and t: "?P k t" for k t
  proof -
    from k t assms obtain t' where t': "st t k = Some t'" "len t' = len m"
      and bits: "\<And>i. 0 \<le> i \<Longrightarrow> i < len m \<Longrightarrow> bits t' i = (i = k \<or> bits t i)"
      using st [of k t] by auto
    have "bits t' i = (a \<le> i \<and> i < k + 1 \<or> bits m i)" if "0 \<le> i" "i < len m" for i
      using bits [OF that] t that k by auto
    with t' show ?thesis by auto
  qed
  have base: "?P a m" by auto
  from for_loop_inv [of ?P a m b "\<lambda>i m. st m i", OF base assms(2) step] show ?thesis by blast
qed

lemma clear_range:
  assumes "0 \<le> a" and "a \<le> b" and "b \<le> len m" and "b \<le> 2 ^ 32"
  shows "\<exists>m'. for_loop a b (\<lambda>i m. cl m i) m = Some m' \<and> len m' = len m \<and>
    (\<forall>i. 0 \<le> i \<longrightarrow> i < len m \<longrightarrow> bits m' i = (\<not> (a \<le> i \<and> i < b) \<and> bits m i))"
proof -
  let ?P = "\<lambda>k m'. len m' = len m \<and>
    (\<forall>i. 0 \<le> i \<longrightarrow> i < len m \<longrightarrow> bits m' i = (\<not> (a \<le> i \<and> i < k) \<and> bits m i))"
  have step: "\<exists>t'. cl t k = Some t' \<and> ?P (k + 1) t'" if k: "a \<le> k" "k < b" and t: "?P k t" for k t
  proof -
    from k t assms obtain t' where t': "cl t k = Some t'" "len t' = len m"
      and bits: "\<And>i. 0 \<le> i \<Longrightarrow> i < len m \<Longrightarrow> bits t' i = (i \<noteq> k \<and> bits t i)"
      using cl [of k t] by auto
    have "bits t' i = (\<not> (a \<le> i \<and> i < k + 1) \<and> bits m i)" if "0 \<le> i" "i < len m" for i
      using bits [OF that] t that k by auto
    with t' show ?thesis by auto
  qed
  have base: "?P a m" by auto
  from for_loop_inv [of ?P a m b "\<lambda>i m. cl m i", OF base assms(2) step] show ?thesis by blast
qed

end

interpretation os_bits: bit_array os_read_bit os_set_bit os_clear_bit bm_bit bm_size
  by unfold_locales (rule os_read_bit_eq os_set_bit_eq os_clear_bit_eq; assumption)+

section \<open>Sizing\<close>

lemma bits_to_long_unat: "unat (bits_to_long n) = unat n div 64 * 2 + 1"
proof -
  have mask: "(0xffffffc0 :: u32) = NOT (mask 6)" by (simp add: mask_eq_exp_minus_1)
  have d: "unat ((n AND 0xffffffc0) div 32) = unat n div 64 * 2"
    by (simp add: mask unat_and_not_mask unat_div)
  have "unat n < 2 ^ 32" using unsigned_less [of n] by simp
  then have "unat ((n AND 0xffffffc0) div 32) + unat (1::u32) < 2 ^ 32" by (simp add: d)
  then show ?thesis
    unfolding bits_to_long_def by (subst unat_add_lem [THEN iffD1]) (simp_all add: d)
qed

end
