(* ===== verification/Kstring.thy ===== *)
theory Kstring
  imports Prelude
begin

text \<open>
  The string functions of \<^verbatim>\<open>kernel/string.c\<close>.  Memory is a map from addresses to bytes; pointers
  are 32-bit addresses and wrap around.  A loop over a string that has no end does not return.
\<close>

type_synonym mem = "u32 \<Rightarrow> u8"

section \<open>Definitions\<close>

definition absolute :: "u32 \<Rightarrow> u32" where
  "absolute num = (if 0 <s num then num else NOT num + 1)"

text \<open>\<^verbatim>\<open>char hex[] = "0123456789abcdef"\<close>.\<close>

definition hex :: "u8 list" where
  "hex = [48, 49, 50, 51, 52, 53, 54, 55, 56, 57, 97, 98, 99, 100, 101, 102]"

text \<open>
  The do-while loop of \<^verbatim>\<open>num_to_str\<close>: \<open>tmp\<close> is what has been written to \<^verbatim>\<open>tmp_buf\<close>.
  The result is \<^verbatim>\<open>tmp_buf\<close> and the rest of the number.  A write outside its 32 bytes, a digit
  outside \<^verbatim>\<open>hex\<close> and a division by zero have no result.
\<close>

partial_function (option) num_digits :: "u32 \<Rightarrow> u32 \<Rightarrow> u8 list \<Rightarrow> (u8 list \<times> u32) option" where
  "num_digits num bdho tmp =
     (if bdho = 0 \<or> length tmp \<ge> 32 \<or> unat (num mod bdho) \<ge> 16 then None
      else
        (let tmp = tmp @ [hex ! unat (num mod bdho)]; num = num div bdho
         in if num \<ge> bdho then num_digits num bdho tmp else Some (tmp, num)))"

text \<open>\<^verbatim>\<open>*buf++ = x\<close> for each byte.\<close>

primrec write_bytes :: "u32 \<Rightarrow> u8 list \<Rightarrow> mem \<Rightarrow> mem" where
  "write_bytes p [] m = m"
| "write_bytes p (x # xs) m = write_bytes (p + 1) xs (m(p := x))"

definition num_to_str :: "u32 \<Rightarrow> u32 \<Rightarrow> u32 \<Rightarrow> mem \<Rightarrow> (int \<times> mem) option" where
  "num_to_str buf num bdho m = do {
     (tmp, num) \<leftarrow> num_digits num bdho [];
     tmp \<leftarrow> (if num \<noteq> 0 then
               (if length tmp \<ge> 32 \<or> unat num \<ge> 16 then None else Some (tmp @ [hex ! unat num]))
             else Some tmp);
     Some (int (length tmp), write_bytes buf (rev tmp) m)
   }"

definition itoa :: "u32 \<Rightarrow> u32 \<Rightarrow> mem \<Rightarrow> (int \<times> mem) option" where
  "itoa buf num m =
     (if buf = NULL then Some (-1, m)
      else if num <s 0 then do {
        (len, m) \<leftarrow> num_to_str (buf + 1) (absolute num) 10 (m(buf := 45));
        Some (len + 1, m)
      }
      else num_to_str buf num 10 m)"

definition uitoa :: "u32 \<Rightarrow> u32 \<Rightarrow> mem \<Rightarrow> (int \<times> mem) option" where
  "uitoa buf num m = num_to_str buf num 10 m"

definition hextoa :: "u32 \<Rightarrow> u32 \<Rightarrow> mem \<Rightarrow> (int \<times> mem) option" where
  "hextoa buf num m = num_to_str buf num 16 m"

definition octtoa :: "u32 \<Rightarrow> u32 \<Rightarrow> mem \<Rightarrow> (int \<times> mem) option" where
  "octtoa buf num m = num_to_str buf num 8 m"

definition bintoa :: "u32 \<Rightarrow> u32 \<Rightarrow> mem \<Rightarrow> (int \<times> mem) option" where
  "bintoa buf num m = num_to_str buf num 2 m"

partial_function (option) strlen_loop :: "u32 \<Rightarrow> int \<Rightarrow> mem \<Rightarrow> int option" where
  "strlen_loop buf len m = (if m buf \<noteq> 0 then strlen_loop (buf + 1) (len + 1) m else Some len)"

definition strlen :: "u32 \<Rightarrow> mem \<Rightarrow> int option" where
  "strlen buf m = (if buf = NULL then Some (-1) else strlen_loop buf 0 m)"

partial_function (option) strcpy_loop :: "u32 \<Rightarrow> u32 \<Rightarrow> mem \<Rightarrow> mem option" where
  "strcpy_loop des src m =
     (let c = m src; m = m(des := c)
      in if c \<noteq> 0 then strcpy_loop (des + 1) (src + 1) m else Some m)"

definition strcpy :: "u32 \<Rightarrow> u32 \<Rightarrow> mem \<Rightarrow> (u32 \<times> mem) option" where
  "strcpy des src m =
     (if des = NULL \<or> src = NULL then Some (NULL, m)
      else do { m' \<leftarrow> strcpy_loop des src m; Some (des, m') })"

definition strncpy :: "u32 \<Rightarrow> u32 \<Rightarrow> int \<Rightarrow> mem \<Rightarrow> (u32 \<times> mem) option" where
  "strncpy des src len m =
     (if des = NULL \<or> src = NULL then Some (NULL, m)
      else do {
        m' \<leftarrow> for_loop 0 len (\<lambda>i m. Some (m(des + word_of_int i := m (src + word_of_int i)))) m;
        Some (des, m')
      })"

definition is_digit :: "u8 \<Rightarrow> bool" where
  "is_digit ch \<longleftrightarrow> ch \<le> 57 \<and> ch \<ge> 48"

partial_function (option) strcmp_loop :: "u32 \<Rightarrow> u32 \<Rightarrow> mem \<Rightarrow> int option" where
  "strcmp_loop src dst m =
     (let ret = uint (m src) - uint (m dst)
      in if ret = 0 \<and> m dst \<noteq> 0 then strcmp_loop (src + 1) (dst + 1) m else Some ret)"

definition strcmp :: "u32 \<Rightarrow> u32 \<Rightarrow> mem \<Rightarrow> int option" where
  "strcmp src dst m = do {
     ret \<leftarrow> strcmp_loop src dst m;
     Some (if ret < 0 then -1 else if ret > 0 then 1 else ret)
   }"

text \<open>
  The loop of \<^verbatim>\<open>strncmp\<close> for \<open>n \<ge> 0\<close> counts \<^verbatim>\<open>n\<close> down; \<open>ret\<close> is the last difference.
\<close>

fun strncmp_loop :: "nat \<Rightarrow> u32 \<Rightarrow> u32 \<Rightarrow> int \<Rightarrow> mem \<Rightarrow> int" where
  "strncmp_loop 0 src dst ret m = ret"
| "strncmp_loop (Suc n) src dst ret m =
     (let ret = uint (m src) - uint (m dst)
      in if ret = 0 then strncmp_loop n (src + 1) (dst + 1) ret m else ret)"

text \<open>A negative \<^verbatim>\<open>n\<close> counts down through all 32-bit values.\<close>

definition strncmp :: "u32 \<Rightarrow> u32 \<Rightarrow> u32 \<Rightarrow> mem \<Rightarrow> int" where
  "strncmp src dst n m =
     (let ret = strncmp_loop (unat n) src dst 0 m
      in if ret < 0 then -1 else if ret > 0 then 1 else ret)"

definition memset :: "u32 \<Rightarrow> u8 \<Rightarrow> int \<Rightarrow> mem \<Rightarrow> mem option" where
  "memset base ch sz m = for_loop 0 sz (\<lambda>i m. Some (m(base + word_of_int i := ch))) m"

section \<open>Bytes and strings in memory\<close>

primrec has_bytes :: "mem \<Rightarrow> u32 \<Rightarrow> u8 list \<Rightarrow> bool" where
  "has_bytes m p [] \<longleftrightarrow> True"
| "has_bytes m p (x # xs) \<longleftrightarrow> m p = x \<and> has_bytes m (p + 1) xs"

text \<open>The string \<open>xs\<close> stands at \<open>p\<close>: its bytes, none of them zero, and a zero.\<close>

definition cstr :: "mem \<Rightarrow> u32 \<Rightarrow> u8 list \<Rightarrow> bool" where
  "cstr m p xs \<longleftrightarrow> has_bytes m p (xs @ [0]) \<and> 0 \<notin> set xs"

lemma cstr_Nil [simp]: "cstr m p [] \<longleftrightarrow> m p = 0"
  by (simp add: cstr_def)

lemma cstr_Cons [simp]: "cstr m p (x # xs) \<longleftrightarrow> m p = x \<and> x \<noteq> 0 \<and> cstr m (p + 1) xs"
  by (auto simp: cstr_def)

text \<open>The addresses of \<open>n\<close> bytes from \<open>p\<close> on.\<close>

definition span :: "u32 \<Rightarrow> nat \<Rightarrow> u32 set" where
  "span p n = {p + of_nat i | i. i < n}"

lemma span_0 [simp]: "span p 0 = {}"
  by (simp add: span_def)

lemma span_Suc: "span p (Suc n) = insert p (span (p + 1) n)"
proof -
  have "span p (Suc n) = (\<lambda>i. p + of_nat i) ` {..< Suc n}" by (auto simp: span_def)
  also have "\<dots> = insert p ((\<lambda>i. p + of_nat (Suc i)) ` {..< n})"
    by (simp add: lessThan_Suc_eq_insert_0 image_image)
  also have "(\<lambda>i. p + of_nat (Suc i)) ` {..< n} = span (p + 1) n"
    by (auto simp: span_def add.assoc)
  finally show ?thesis .
qed

lemma span_start: "n \<le> 2 ^ 32 - 1 \<Longrightarrow> p \<notin> span (p + 1) n"
proof
  assume n: "n \<le> 2 ^ 32 - 1" and "p \<in> span (p + 1) n"
  then obtain i where i: "i < n" "p = p + 1 + of_nat i" by (auto simp: span_def)
  then have "(of_nat (Suc i) :: u32) = 0" by (simp add: add.assoc)
  then have "unat (of_nat (Suc i) :: u32) = 0" by simp
  moreover have "Suc i < 2 ^ 32" using i n by simp
  ultimately show False by (simp add: unat_of_nat_u32 del: of_nat_Suc)
qed

lemma write_bytes_other: "a \<notin> span p (length xs) \<Longrightarrow> write_bytes p xs m a = m a"
  by (induction xs arbitrary: p m) (auto simp: span_Suc)

lemma has_bytes_write: "length xs < 2 ^ 32 \<Longrightarrow> has_bytes (write_bytes p xs m) p xs"
proof (induction xs arbitrary: p m)
  case (Cons x xs)
  then have "p \<notin> span (p + 1) (length xs)" by (intro span_start) auto
  with Cons show ?case by (simp add: write_bytes_other)
qed simp

lemma has_bytes_cong: "(\<And>a. a \<in> span p (length xs) \<Longrightarrow> m' a = m a) \<Longrightarrow> has_bytes m' p xs = has_bytes m p xs"
  by (induction xs arbitrary: p) (auto simp: span_Suc)

lemma has_bytes_upd: "a \<notin> span p (length xs) \<Longrightarrow> has_bytes (m(a := x)) p xs \<longleftrightarrow> has_bytes m p xs"
  by (rule has_bytes_cong) auto

lemma cstr_upd: "a \<notin> span p (Suc (length xs)) \<Longrightarrow> cstr (m(a := x)) p xs \<longleftrightarrow> cstr m p xs"
  using has_bytes_upd [of a p "xs @ [0]" m x] by (simp add: cstr_def)

lemma write_bytes_append: "write_bytes p (xs @ ys) m = write_bytes (p + of_nat (length xs)) ys (write_bytes p xs m)"
  by (induction xs arbitrary: p m) (simp_all add: add.assoc)

section \<open>Numerals\<close>

text \<open>The digits of a number, most significant first, and their value.\<close>

function digits_of :: "nat \<Rightarrow> nat \<Rightarrow> nat list" where
  "digits_of b n = (if b < 2 \<or> n < b then [n] else digits_of b (n div b) @ [n mod b])"
  by pat_completeness auto
termination
  by (relation "measure snd") auto

declare digits_of.simps [simp del]

definition value_of :: "nat \<Rightarrow> nat list \<Rightarrow> nat" where
  "value_of b ds = foldl (\<lambda>a d. a * b + d) 0 ds"

lemma value_digits: "2 \<le> b \<Longrightarrow> value_of b (digits_of b n) = n"
proof (induction b n rule: digits_of.induct)
  case (1 b n)
  then show ?case
    by (subst digits_of.simps) (auto simp: value_of_def)
qed

lemma digits_less: "2 \<le> b \<Longrightarrow> d \<in> set (digits_of b n) \<Longrightarrow> d < b"
proof (induction b n rule: digits_of.induct)
  case (1 b n)
  then show ?case
    by (subst (asm) (2) digits_of.simps) (auto split: if_splits)
qed

lemma digits_length: "2 \<le> b \<Longrightarrow> n < 2 ^ k \<Longrightarrow> 0 < k \<Longrightarrow> length (digits_of b n) \<le> k"
proof (induction b n arbitrary: k rule: digits_of.induct)
  case (1 b n)
  show ?case
  proof (cases "n < b")
    case True
    with 1 show ?thesis by (subst digits_of.simps) simp
  next
    case False
    have "n div b \<le> n div 2" using 1(2) by (rule div_le_mono2 [rotated]) simp
    moreover obtain j where j: "k = Suc j" using 1(4) by (cases k) auto
    moreover have "n div 2 < 2 ^ j" using 1(3) j by simp
    moreover have "0 < j"
    proof (rule ccontr)
      assume "\<not> 0 < j"
      with 1(3) j have "n < 2" by simp
      with False 1(2) show False by simp
    qed
    ultimately have "length (digits_of b (n div b)) \<le> j" using False 1 by auto
    with j False 1(2) show ?thesis by (subst digits_of.simps) simp
  qed
qed

lemma digits_snoc:
  assumes "2 \<le> b" and "b \<le> n"
  shows "digits_of b n = digits_of b (n div b) @ [n mod b]"
  using assms by (subst digits_of.simps) auto

abbreviation hex_digit :: "nat \<Rightarrow> u8" where
  "hex_digit d \<equiv> hex ! d"

text \<open>The loop produces the digits in reverse, all but the first of two or more.\<close>

lemma num_digits_spec:
  assumes b: "2 \<le> b" "b \<le> 16"
  shows "length tmp + length (digits_of b (unat num)) \<le> 32 \<Longrightarrow>
    \<exists>tmp' num'. num_digits num (of_nat b) tmp = Some (tmp', num') \<and> unat num' < b \<and>
      tmp' @ (if num' \<noteq> 0 then [hex_digit (unat num')] else []) =
        tmp @ rev (map hex_digit (digits_of b (unat num))) \<and>
      (num' \<noteq> 0 \<longrightarrow> length tmp' < 32)"
proof (induction "unat num" arbitrary: num tmp rule: less_induct)
  case less
  have bw: "unat (of_nat b :: u32) = b" using b by (simp add: unat_of_nat_u32)
  have b0: "(of_nat b :: u32) \<noteq> 0" using bw b by (metis unat_0 not_numeral_le_zero)
  have md: "unat (num mod of_nat b) = unat num mod b" and dv: "unat (num div of_nat b) = unat num div b"
    using bw by (simp_all add: unat_mod unat_div)
  have m16: "unat num mod b < 16" using b by (meson le_less_trans mod_less_divisor not_le order_less_le_trans zero_less_numeral)
  have len: "length tmp < 32"
    using less.prems by (cases "digits_of b (unat num)") (auto simp: digits_of.simps [of b "unat num"] split: if_splits)
  let ?tmp = "tmp @ [hex_digit (unat num mod b)]" and ?num = "num div of_nat b"
  have unf: "num_digits num (of_nat b) tmp =
      (if of_nat b \<le> ?num then num_digits ?num (of_nat b) ?tmp else Some (?tmp, ?num))"
    using b0 len m16 by (subst num_digits.simps) (simp add: md Let_def)
  have cmp: "of_nat b \<le> ?num \<longleftrightarrow> b \<le> unat num div b" by (simp add: word_le_nat_alt bw dv)
  show ?case
  proof (cases "b \<le> unat num div b")
    case True
    then have big: "b \<le> unat num" by (metis b(1) div_le_dividend le_trans)
    note sn = digits_snoc [OF b(1) big]
    have lt: "unat ?num < unat num" using big b by (simp add: dv)
    have "length ?tmp + length (digits_of b (unat ?num)) \<le> 32" using less.prems sn by (simp add: dv)
    from less.hyps [OF lt this] show ?thesis using unf cmp True sn by (auto simp: dv)
  next
    case False
    then have res: "num_digits num (of_nat b) tmp = Some (?tmp, ?num)" using unf cmp by simp
    show ?thesis
    proof (cases "unat num < b")
      case True
      then have "?num = 0" using dv by (metis div_less unat_eq_zero)
      with True res b show ?thesis by (subst digits_of.simps) simp
    next
      case nb: False
      then have sn: "digits_of b (unat num) = [unat num div b, unat num mod b]"
        using digits_snoc [OF b(1), of "unat num"] False by (simp add: digits_of.simps [of b "unat num div b"])
      have "?num \<noteq> 0" using nb b dv by (metis div_greater_zero_iff gr0I not_le unat_0 less_le_trans zero_less_numeral)
      moreover have "length ?tmp < 32" using less.prems sn by simp
      ultimately show ?thesis using res sn False by (simp add: dv)
    qed
  qed
qed

lemma num_to_str_spec:
  assumes b: "2 \<le> b" "b \<le> 16"
  shows "num_to_str buf num (of_nat b) m =
    Some (int (length (digits_of b (unat num))), write_bytes buf (map hex_digit (digits_of b (unat num))) m)"
proof -
  let ?ds = "digits_of b (unat num)"
  have "length ?ds \<le> 32" using digits_length [OF b(1), of "unat num" 32] unsigned_less [of num] by simp
  then obtain tmp' num' where n: "num_digits num (of_nat b) [] = Some (tmp', num')" "unat num' < b"
    "tmp' @ (if num' \<noteq> 0 then [hex_digit (unat num')] else []) = rev (map hex_digit ?ds)"
    "num' \<noteq> 0 \<longrightarrow> length tmp' < 32"
    using num_digits_spec [OF b, of "[]" num] by auto
  have "(if num' \<noteq> 0 then (if length tmp' \<ge> 32 \<or> unat num' \<ge> 16 then None else Some (tmp' @ [hex_digit (unat num')]))
      else Some tmp') = Some (rev (map hex_digit ?ds))"
    using n(2-4) b by (auto split: if_splits)
  with n(1) show ?thesis by (simp add: num_to_str_def)
qed

text \<open>The decimal text of a signed number, and reading it back.\<close>

definition dec_text :: "int \<Rightarrow> u8 list" where
  "dec_text i = (if i < 0 then 45 # map hex_digit (digits_of 10 (nat (- i)))
     else map hex_digit (digits_of 10 (nat i)))"

definition read_dec :: "u8 list \<Rightarrow> int" where
  "read_dec xs =
     (case xs of
        [] \<Rightarrow> 0
      | x # ys \<Rightarrow> if x = 45 then - int (value_of 10 (map (\<lambda>c. unat c - 48) ys))
                 else int (value_of 10 (map (\<lambda>c. unat c - 48) xs)))"

lemma hex_digit_dec: "d < 10 \<Longrightarrow> unat (hex_digit d) = 48 + d"
proof -
  assume "d < 10"
  then have "d = 0 \<or> d = 1 \<or> d = 2 \<or> d = 3 \<or> d = 4 \<or> d = 5 \<or> d = 6 \<or> d = 7 \<or> d = 8 \<or> d = 9"
    by presburger
  then show ?thesis by (elim disjE) (simp_all add: hex_def)
qed

lemma dec_digits: "map (\<lambda>c. unat c - 48) (map hex_digit (digits_of 10 n)) = digits_of 10 n"
  using digits_less [of 10 _ n] by (simp add: map_idI hex_digit_dec)

lemma digits_not_Nil: "digits_of b n \<noteq> []"
  by (subst digits_of.simps) simp

lemma read_dec_text: "read_dec (dec_text i) = i"
proof (cases "i < 0")
  case True
  then show ?thesis by (simp add: read_dec_def dec_text_def dec_digits value_digits del: map_map)
next
  case False
  obtain d ds where ds: "digits_of 10 (nat i) = d # ds" using digits_not_Nil by (cases "digits_of 10 (nat i)") auto
  then have "d < 10" using digits_less [of 10 d "nat i"] by simp
  then have "hex_digit d \<noteq> 45" using hex_digit_dec [of d] by auto
  then have "read_dec (dec_text i) = int (value_of 10 (map (\<lambda>c. unat c - 48) (map hex_digit (digits_of 10 (nat i)))))"
    using False by (simp add: read_dec_def dec_text_def ds)
  with False show ?thesis by (simp add: dec_digits value_digits del: map_map)
qed

lemma uint_u32: "0 \<le> uint num" "uint num < 2 ^ 32" for num :: u32
  using uint_bounded [of num] by simp_all

lemma sint_u32: "sint num = uint num - 2 ^ 32 * of_bool (bit (uint num) 31)" for num :: u32
proof -
  have "take_bit 32 (uint num) = uint num"
    using uint_u32 [of num] by (simp add: take_bit_int_eq_self)
  then show ?thesis by (simp add: sint_uint signed_take_bit_eq_take_bit_minus)
qed

lemma sint_negative: "num <s 0 \<Longrightarrow> unat (absolute num) = nat (- sint num)" for num :: u32
proof -
  assume neg: "num <s 0"
  then have "sint num < 0" by (simp add: word_sless_alt)
  moreover have "0 \<le> uint num" by simp
  ultimately have s: "sint num = uint num - 2 ^ 32"
    using sint_u32 [of num] by (cases "bit (uint num) 31") simp_all
  have "absolute num = - num"
    using neg by (auto simp: absolute_def minus_eq_not_plus_1 word_sless_alt)
  moreover have "uint (- num) = 2 ^ 32 - uint num"
  proof -
    have "num \<noteq> 0" using neg by auto
    then show ?thesis using uint_u32 [of num] by (simp add: uint_word_ariths(4) zmod_zminus1_eq_if uint_0_iff)
  qed
  ultimately show ?thesis using s by (simp add: unat_eq_nat_uint)
qed

lemma itoa_spec:
  assumes "buf \<noteq> NULL"
  shows "itoa buf num m = Some (int (length (dec_text (sint num))), write_bytes buf (dec_text (sint num)) m)"
proof (cases "num <s 0")
  case True
  then have "sint num < 0" by (simp add: word_sless_alt)
  with True assms sint_negative [OF True] num_to_str_spec [of 10 "buf + 1" "absolute num" "m(buf := 45)"]
  show ?thesis by (simp add: itoa_def dec_text_def)
next
  case False
  then have "0 \<le> sint num" by (simp add: word_sless_alt)
  moreover have "uint num < 2 ^ 32" by (rule uint_u32)
  ultimately have "sint num = uint num"
    using sint_u32 [of num] by (cases "bit (uint num) 31") simp_all
  then have "unat num = nat (sint num)" by simp
  with False assms \<open>0 \<le> sint num\<close> num_to_str_spec [of 10 buf num m] show ?thesis
    by (simp add: itoa_def dec_text_def)
qed

section \<open>Strings\<close>

lemma strlen_loop_cstr: "cstr m p xs \<Longrightarrow> strlen_loop p n m = Some (n + int (length xs))"
proof (induction xs arbitrary: p n)
  case Nil
  then show ?case by (subst strlen_loop.simps) simp
next
  case (Cons x xs)
  then show ?case by (subst strlen_loop.simps) simp
qed

lemma strlen_cstr: "cstr m p xs \<Longrightarrow> p \<noteq> NULL \<Longrightarrow> strlen p m = Some (int (length xs))"
  by (simp add: strlen_def strlen_loop_cstr)

lemma cstr_cong:
  "(\<And>a. a \<in> span p (Suc (length xs)) \<Longrightarrow> m' a = m a) \<Longrightarrow> cstr m' p xs = cstr m p xs"
  using has_bytes_cong [of p "xs @ [0]" m' m] by (simp add: cstr_def)

lemma span_mono: "n \<le> k \<Longrightarrow> span p n \<subseteq> span p k"
  by (auto simp: span_def)

lemma strcpy_loop_cstr:
  "cstr m src xs \<Longrightarrow> span des (Suc (length xs)) \<inter> span src (Suc (length xs)) = {} \<Longrightarrow>
   strcpy_loop des src m = Some (write_bytes des (xs @ [0]) m)"
proof (induction xs arbitrary: des src m)
  case Nil
  then show ?case by (subst strcpy_loop.simps) simp
next
  case (Cons x xs)
  have "des \<notin> span (src + 1) (Suc (length xs))" using Cons.prems(2) by (auto simp: span_Suc)
  then have "cstr (m(des := x)) (src + 1) xs"
    using Cons.prems(1) by (simp add: cstr_upd)
  moreover have "span (des + 1) (Suc (length xs)) \<inter> span (src + 1) (Suc (length xs)) = {}"
    using Cons.prems(2) by (auto simp: span_Suc)
  ultimately have "strcpy_loop (des + 1) (src + 1) (m(des := x)) =
      Some (write_bytes (des + 1) (xs @ [0]) (m(des := x)))" by (rule Cons.IH)
  with Cons.prems(1) show ?case by (subst strcpy_loop.simps) simp
qed

text \<open>A counting loop that writes one byte per turn.\<close>

lemma for_loop_copy:
  assumes "has_bytes m src xs" and "span des (length xs) \<inter> span src (length xs) = {}"
    and "des = d + word_of_int i" "src = s + word_of_int i"
  shows "for_loop i (i + int (length xs))
      (\<lambda>i m. Some (m(d + word_of_int i := m (s + word_of_int i)))) m = Some (write_bytes des xs m)"
  using assms
proof (induction xs arbitrary: i des src m)
  case (Cons x xs)
  have "has_bytes (m(des := x)) (src + 1) xs"
  proof -
    have "des \<notin> span (src + 1) (length xs)" using Cons.prems(2) by (auto simp: span_Suc)
    then show ?thesis using Cons.prems(1) by (simp add: has_bytes_upd)
  qed
  moreover have "span (des + 1) (length xs) \<inter> span (src + 1) (length xs) = {}"
    using Cons.prems(2) by (auto simp: span_Suc)
  ultimately have "for_loop (i + 1) (i + 1 + int (length xs))
      (\<lambda>i m. Some (m(d + word_of_int i := m (s + word_of_int i)))) (m(des := x)) =
      Some (write_bytes (des + 1) xs (m(des := x)))"
    using Cons.prems(3,4) by (intro Cons.IH) (simp_all add: add.assoc del: fun_upd_apply)
  with Cons.prems show ?case by (simp add: for_loop_step algebra_simps del: fun_upd_apply)
qed simp

lemma strncpy_bytes:
  assumes "has_bytes m src xs" and "span des (length xs) \<inter> span src (length xs) = {}"
    and "des \<noteq> NULL" "src \<noteq> NULL"
  shows "strncpy des src (int (length xs)) m = Some (des, write_bytes des xs m)"
  using for_loop_copy [OF assms(1,2), of des 0 src] assms(3,4) by (simp add: strncpy_def)

lemma for_loop_set:
  "for_loop i (i + int n) (\<lambda>i m. Some (m(b + word_of_int i := ch))) m =
   Some (write_bytes (b + word_of_int i) (replicate n ch) m)"
proof (induction n arbitrary: i m)
  case (Suc n)
  have "for_loop (i + 1) (i + 1 + int n) (\<lambda>i m. Some (m(b + word_of_int i := ch))) (m(b + word_of_int i := ch)) =
    Some (write_bytes (b + word_of_int (i + 1)) (replicate n ch) (m(b + word_of_int i := ch)))"
    by (rule Suc.IH)
  with for_loop_step [of i "i + int (Suc n)" "\<lambda>i m. Some (m(b + word_of_int i := ch))" m]
  show ?case by (simp add: algebra_simps del: fun_upd_apply)
qed simp

lemma memset_spec: "0 \<le> n \<Longrightarrow> memset base ch n m = Some (write_bytes base (replicate (nat n) ch) m)"
  using for_loop_set [of 0 "nat n" base ch m] by (simp add: memset_def)

text \<open>The comparison \<^verbatim>\<open>strcmp\<close> is meant to compute.\<close>

fun cmp_bytes :: "u8 list \<Rightarrow> u8 list \<Rightarrow> int" where
  "cmp_bytes [] [] = 0"
| "cmp_bytes [] (y # ys) = -1"
| "cmp_bytes (x # xs) [] = 1"
| "cmp_bytes (x # xs) (y # ys) = (if x = y then cmp_bytes xs ys else if x < y then -1 else 1)"

lemma cmp_bytes_0: "cmp_bytes xs ys = 0 \<longleftrightarrow> xs = ys"
  by (induction xs ys rule: cmp_bytes.induct) auto

lemma u8_diff: "uint x - uint y = 0 \<longleftrightarrow> x = y" "uint x - uint y < 0 \<longleftrightarrow> x < y" for x y :: u8
  by (simp_all add: word_less_def word_uint_eq_iff)

lemma strcmp_loop_cstr:
  "cstr m p xs \<Longrightarrow> cstr m q ys \<Longrightarrow> \<exists>r. strcmp_loop p q m = Some r \<and> sgn r = cmp_bytes xs ys"
proof (induction xs ys arbitrary: p q rule: cmp_bytes.induct)
  case 1
  then show ?case by (subst strcmp_loop.simps) simp
next
  case (2 y ys)
  then have "0 < uint y" using uint_ge_0 [of y] by (simp add: le_less uint_0_iff)
  with 2 show ?case by (subst strcmp_loop.simps) simp
next
  case (3 x xs)
  then have "0 < uint x" using uint_ge_0 [of x] by (simp add: le_less uint_0_iff)
  with 3 show ?case by (subst strcmp_loop.simps) simp
next
  case (4 x xs y ys)
  show ?case
  proof (cases "x = y")
    case True
    with 4 show ?thesis by (subst strcmp_loop.simps) simp
  next
    case False
    then have "strcmp_loop p q m = Some (uint x - uint y)"
      using 4(2,3) u8_diff(1) [of x y] by (subst strcmp_loop.simps) simp
    moreover have "sgn (uint x - uint y) = (if x < y then -1 else 1)"
      using False u8_diff [of x y] by (auto simp: sgn_if)
    ultimately show ?thesis using False by simp
  qed
qed

lemma strcmp_cstr: "cstr m p xs \<Longrightarrow> cstr m q ys \<Longrightarrow> strcmp p q m = Some (cmp_bytes xs ys)"
  using strcmp_loop_cstr [of m p xs q ys] by (auto simp: strcmp_def sgn_if split: if_splits)

lemma strncmp_loop_bytes:
  "has_bytes m p xs \<Longrightarrow> has_bytes m q ys \<Longrightarrow> length xs = length ys \<Longrightarrow>
   sgn (strncmp_loop (length xs) p q 0 m) = cmp_bytes xs ys"
proof (induction xs ys arbitrary: p q rule: cmp_bytes.induct)
  case (4 x xs y ys)
  then show ?case
    using u8_diff [of x y] by (cases "x = y") (auto simp: Let_def sgn_if)
qed auto

lemma strncmp_bytes:
  assumes "has_bytes m p xs" "has_bytes m q ys" "length xs = unat n" "length ys = unat n"
  shows "strncmp p q n m = cmp_bytes xs ys"
  using strncmp_loop_bytes [OF assms(1,2)] assms(3,4) by (auto simp: strncmp_def Let_def sgn_if split: if_splits)

section \<open>Properties\<close>

lemma digits_length_base: "2 \<le> b \<Longrightarrow> n < b ^ k \<Longrightarrow> 0 < k \<Longrightarrow> length (digits_of b n) \<le> k"
proof (induction b n arbitrary: k rule: digits_of.induct)
  case (1 b n)
  show ?case
  proof (cases "n < b")
    case True
    with 1 show ?thesis by (subst digits_of.simps) simp
  next
    case False
    obtain j where j: "k = Suc j" using 1(4) by (cases k) auto
    have "0 < j" using False 1(3) j by (cases j) auto
    moreover have "n div b < b ^ j" using 1(2,3) j by (simp add: less_mult_imp_div_less mult.commute)
    ultimately have "length (digits_of b (n div b)) \<le> j" using False 1(1,2) by auto
    with j False 1(2) show ?thesis by (subst digits_of.simps) simp
  qed
qed

text \<open>
  C13. \<^verbatim>\<open>itoa\<close> prints every 32-bit integer, the most negative one included, as a decimal numeral
  that reads back as that integer; it writes at most eleven bytes and returns their number.
\<close>

theorem itoa_reads_back:
  assumes "buf \<noteq> NULL"
  shows "\<exists>txt. itoa buf num m = Some (int (length txt), write_bytes buf txt m) \<and>
    read_dec txt = sint num \<and> length txt \<le> 11"
proof -
  have "- (2 ^ 31) \<le> sint num" "sint num < 2 ^ 31"
    using sint_ge [of num] sint_lt [of num] by simp_all
  then have "length (digits_of 10 (nat (- sint num))) \<le> 10" "length (digits_of 10 (nat (sint num))) \<le> 10"
    by (intro digits_length_base; simp add: nat_less_iff)+
  then have "length (dec_text (sint num)) \<le> 11" by (simp add: dec_text_def)
  with itoa_spec [OF assms] read_dec_text show ?thesis by blast
qed

theorem itoa_reads_back_witness:
  "\<exists>txt. itoa 0x100 (-42) (\<lambda>_. 0) = Some (int (length txt), write_bytes 0x100 txt (\<lambda>_. 0)) \<and> read_dec txt = -42"
  using itoa_reads_back [of "0x100" "-42" "\<lambda>_. 0"] by auto

text \<open>
  \<^verbatim>\<open>strcmp\<close> on two strings returns 0 exactly when they are equal, and otherwise the sign of
  the first difference, a proper prefix counting as smaller.
\<close>

theorem strcmp_compares:
  assumes "cstr m p xs" and "cstr m q ys"
  shows "\<exists>r. strcmp p q m = Some r \<and> r = cmp_bytes xs ys \<and> (r = 0 \<longleftrightarrow> xs = ys)"
  using strcmp_cstr [OF assms] cmp_bytes_0 by auto

theorem strcmp_compares_witness:
  "\<exists>r. strcmp 1 4 (\<lambda>a. if a = 1 then 97 else if a = 2 then 98 else if a = 4 then 97 else 0) = Some r \<and> r \<noteq> 0"
  using strcmp_compares [of "\<lambda>a. if a = 1 then 97 else if a = 2 then 98 else if a = 4 then 97 else 0" 1 "[97, 98]" 4 "[97]"]
  by auto

end
