(* ===== verification/Printk.thy ===== *)
theory Printk
  imports Kstring
begin

text \<open>
  Formatted output, \<^verbatim>\<open>kernel/printk.c\<close>.  The arguments \<^verbatim>\<open>va_arg\<close> takes from the stack are a
  list of 32-bit words; taking one too many has no result.  \<^verbatim>\<open>puts\<close> hands the buffer to
  \<^verbatim>\<open>uart_puts\<close>, which sends the bytes of the string.
\<close>

section \<open>Definitions\<close>

abbreviation (input) PRINTF_DEC :: u32 where "PRINTF_DEC \<equiv> 1"
abbreviation (input) PRINTF_HEX :: u32 where "PRINTF_HEX \<equiv> 2"
abbreviation (input) PRINTF_OCT :: u32 where "PRINTF_OCT \<equiv> 4"
abbreviation (input) PRINTF_BIN :: u32 where "PRINTF_BIN \<equiv> 8"
abbreviation (input) PRINTF_MASK :: u32 where "PRINTF_MASK \<equiv> 0xf"
abbreviation (input) PRINTF_UNSIGNED :: u32 where "PRINTF_UNSIGNED \<equiv> 0x10"
abbreviation (input) PRINTF_SIGNED :: u32 where "PRINTF_SIGNED \<equiv> 0x20"

definition numbric :: "u32 \<Rightarrow> u32 \<Rightarrow> u32 \<Rightarrow> mem \<Rightarrow> (int \<times> mem) option" where
  "numbric buf num flag m =
     (if flag AND PRINTF_MASK = PRINTF_DEC then
        (if flag AND PRINTF_SIGNED \<noteq> 0 then itoa buf num m else uitoa buf num m)
      else if flag AND PRINTF_MASK = PRINTF_HEX then hextoa buf num m
      else if flag AND PRINTF_MASK = PRINTF_OCT then octtoa buf num m
      else if flag AND PRINTF_MASK = PRINTF_BIN then bintoa buf num m
      else Some (0, m))"

text \<open>The bits a conversion character adds to \<^verbatim>\<open>flag\<close>; the other characters are not numbers.\<close>

definition conv_flag :: "u8 \<Rightarrow> u32 option" where
  "conv_flag c =
     (if c = 100 then Some (PRINTF_DEC OR PRINTF_SIGNED)
      else if c = 120 then Some (PRINTF_HEX OR PRINTF_UNSIGNED)
      else if c = 117 then Some (PRINTF_DEC OR PRINTF_UNSIGNED)
      else if c = 111 then Some (PRINTF_DEC OR PRINTF_SIGNED)
      else None)"

definition va_arg :: "u32 list \<Rightarrow> (u32 \<times> u32 list) option" where
  "va_arg arg = (case arg of [] \<Rightarrow> None | a # as \<Rightarrow> Some (a, as))"

text \<open>The loop of \<^verbatim>\<open>vsprintf\<close>; the result is the last value of \<^verbatim>\<open>str\<close>.\<close>

partial_function (option) vsprintf_loop ::
  "u32 \<Rightarrow> u32 \<Rightarrow> u32 list \<Rightarrow> u32 \<Rightarrow> mem \<Rightarrow> (u32 \<times> mem) option" where
  "vsprintf_loop str fmt arg flag m =
     (if m fmt = 0 then Some (str, m)
      else if m fmt \<noteq> 37 then vsprintf_loop (str + 1) (fmt + 1) arg flag (m(str := m fmt))
      else
        (let fmt = fmt + 1; c = m fmt in
         case conv_flag c of
           Some f \<Rightarrow> do {
             (number, arg) \<leftarrow> va_arg arg;
             (len, m) \<leftarrow> numbric str number (flag OR f) m;
             vsprintf_loop (str + word_of_int len) (fmt + 1) arg 0 m
           }
         | None \<Rightarrow>
             if c = 115 then do {
               (tmp, arg) \<leftarrow> va_arg arg;
               len \<leftarrow> strlen tmp m;
               (_, m) \<leftarrow> strncpy str tmp len m;
               vsprintf_loop (str + word_of_int len) (fmt + 1) arg flag m
             }
             else if c = 99 then do {
               (a, arg) \<leftarrow> va_arg arg;
               vsprintf_loop (str + 1) (fmt + 1) arg flag (m(str := ucast a))
             }
             else if c = 37 then vsprintf_loop (str + 1) (fmt + 1) arg flag (m(str := 37))
             else vsprintf_loop (str + 2) (fmt + 1) arg flag (m(str := 37, str + 1 := c))))"

definition vsprintf :: "u32 \<Rightarrow> u32 \<Rightarrow> u32 list \<Rightarrow> mem \<Rightarrow> (int \<times> mem) option" where
  "vsprintf buf fmt arg m =
     (if buf = NULL then Some (-1, m)
      else do {
        (str, m) \<leftarrow> vsprintf_loop buf fmt arg 0 m;
        Some (sint (str - buf), m(str := 0))
      })"

text \<open>
  \<^verbatim>\<open>platform_uart0_send_byte\<close> and \<^verbatim>\<open>uart_puts\<close> (\<^verbatim>\<open>s3c2440_c.c\<close>): the bytes written to the
  transmission register.
\<close>

definition platform_uart0_send_byte :: "u8 \<Rightarrow> u8 list" where
  "platform_uart0_send_byte ch = (if ch = 10 then [13, ch] else [ch])"

partial_function (option) uart_puts_loop :: "u32 \<Rightarrow> mem \<Rightarrow> u8 list option" where
  "uart_puts_loop buf m =
     (if m buf \<noteq> 0 then do {
        out \<leftarrow> uart_puts_loop (buf + 1) m;
        Some (platform_uart0_send_byte (m buf) @ out)
      }
      else Some [])"

definition uart_puts :: "u32 \<Rightarrow> mem \<Rightarrow> (int \<times> u8 list) option" where
  "uart_puts buf m = do {
     size \<leftarrow> strlen buf m;
     out \<leftarrow> uart_puts_loop buf m;
     Some (size, out)
   }"

definition uart_put_char :: "u32 \<Rightarrow> int \<Rightarrow> mem \<Rightarrow> (int \<times> u8 list) option" where
  "uart_put_char buf sz m = do {
     out \<leftarrow> for_loop 0 sz (\<lambda>i out. Some (out @ platform_uart0_send_byte (m (buf + word_of_int i)))) [];
     Some (sz, out)
   }"

text \<open>
  \<open>printf_buf\<close> is the address of an array of 1024 bytes on the stack.  A text that does not fit there with its closing zero
  overwrites what lies behind it; there is no result then.
\<close>

definition printk :: "u32 \<Rightarrow> u32 \<Rightarrow> u32 list \<Rightarrow> mem \<Rightarrow> (int \<times> u8 list \<times> mem) option" where
  "printk printf_buf fmt arg m = do {
     (printed, m) \<leftarrow> vsprintf printf_buf fmt arg m;
     _ \<leftarrow> (if printed < 1024 then Some () else None);
     (_, out) \<leftarrow> uart_puts printf_buf m;
     Some (printed, out, m)
   }"

abbreviation (input) LOG_LEVEL :: u8 where "LOG_LEVEL \<equiv> 4"

definition level_printk :: "u32 \<Rightarrow> u32 \<Rightarrow> u32 list \<Rightarrow> mem \<Rightarrow> (int \<times> u8 list \<times> mem) option" where
  "level_printk printf_buf fmt arg m =
     (let ch = m fmt in
      if is_digit ch \<and> ch - 48 > LOG_LEVEL then Some (0, [], m)
      else printk printf_buf (if is_digit ch then fmt + 1 else fmt) arg m)"

section \<open>What the format means\<close>

text \<open>
  The text of a format; \<open>sf\<close> gives the string an argument of \<^verbatim>\<open>%s\<close> points to.  As in the code,
  \<^verbatim>\<open>%o\<close> prints in decimal.  A format that ends in \<^verbatim>\<open>%\<close> has no meaning.
\<close>

definition number_text :: "u8 \<Rightarrow> u32 \<Rightarrow> u8 list" where
  "number_text c n =
     (if c = 100 \<or> c = 111 then dec_text (sint n)
      else map hex_digit (digits_of (if c = 117 then 10 else 16) (unat n)))"

fun render :: "(u32 \<Rightarrow> u8 list option) \<Rightarrow> u8 list \<Rightarrow> u32 list \<Rightarrow> u8 list option" where
  "render sf [] arg = Some []"
| "render sf [c] arg = (if c = 37 then None else Some [c])"
| "render sf (c # d # fs) arg =
     (if c \<noteq> 37 then do { out \<leftarrow> render sf (d # fs) arg; Some (c # out) }
      else if conv_flag d \<noteq> None then do {
        (n, arg) \<leftarrow> va_arg arg; out \<leftarrow> render sf fs arg; Some (number_text d n @ out) }
      else if d = 115 then do {
        (p, arg) \<leftarrow> va_arg arg; xs \<leftarrow> sf p; out \<leftarrow> render sf fs arg; Some (xs @ out) }
      else if d = 99 then do { (a, arg) \<leftarrow> va_arg arg; out \<leftarrow> render sf fs arg; Some (ucast a # out) }
      else if d = 37 then do { out \<leftarrow> render sf fs arg; Some (37 # out) }
      else do { out \<leftarrow> render sf fs arg; Some (37 # d # out) })"

lemma numbric_text:
  assumes "conv_flag c = Some f" and "buf \<noteq> NULL"
  shows "numbric buf n f m = Some (int (length (number_text c n)), write_bytes buf (number_text c n) m)"
  using assms num_to_str_spec [of 10 buf n m] num_to_str_spec [of 16 buf n m]
  by (auto simp: conv_flag_def numbric_def number_text_def itoa_spec uitoa_def hextoa_def split: if_splits)

section \<open>The loop writes the meaning\<close>

lemma span_shift: "span (p + of_nat k) n \<subseteq> span p (k + n)"
proof
  fix x assume "x \<in> span (p + of_nat k) n"
  then obtain i where "i < n" "x = p + of_nat (k + i)" by (auto simp: span_def add.assoc)
  then show "x \<in> span p (k + n)" unfolding span_def by (intro CollectI exI [of _ "k + i"]) simp
qed

lemma cstr_write:
  "span p (Suc (length ys)) \<inter> span q (length xs) = {} \<Longrightarrow> cstr (write_bytes q xs m) p ys \<longleftrightarrow> cstr m p ys"
  by (rule cstr_cong) (auto intro: write_bytes_other)

lemma cstr_suffix: "cstr m p (xs @ ys) \<Longrightarrow> cstr m (p + of_nat (length xs)) ys"
proof (induction xs arbitrary: p)
  case (Cons x xs)
  then have "cstr m (p + 1 + of_nat (length xs)) ys" by simp
  then show ?case by (simp add: add.assoc)
qed simp

text \<open>
  What the loop relies on: the format and the strings lie outside the \<open>n\<close> bytes of buffer it may
  still write, and the buffer does not contain address zero.
\<close>

definition fmt_ok :: "(u32 \<Rightarrow> u8 list option) \<Rightarrow> u32 \<Rightarrow> u8 list \<Rightarrow> u32 \<Rightarrow> nat \<Rightarrow> mem \<Rightarrow> bool" where
  "fmt_ok sf fmt f str n m \<longleftrightarrow>
     cstr m fmt f \<and> span fmt (Suc (length f)) \<inter> span str n = {} \<and> NULL \<notin> span str n \<and>
     (\<forall>p xs. sf p = Some xs \<longrightarrow> p \<noteq> NULL \<and> cstr m p xs \<and> span p (Suc (length xs)) \<inter> span str n = {})"

lemma fmt_ok_step:
  assumes ok: "fmt_ok sf fmt (fs @ f) str (length xs + n) m"
  shows "fmt_ok sf (fmt + of_nat (length fs)) f (str + of_nat (length xs)) n (write_bytes str xs m)"
proof -
  let ?B = "span str (length xs + n)"
  have sub: "span (str + of_nat (length xs)) n \<subseteq> ?B" "span str (length xs) \<subseteq> ?B"
    "span (fmt + of_nat (length fs)) (Suc (length f)) \<subseteq> span fmt (Suc (length (fs @ f)))"
    using span_shift [of fmt "length fs" "Suc (length f)"] span_shift span_mono [of "length xs" "length xs + n" str]
    by simp_all
  have f0: "cstr m fmt (fs @ f) \<Longrightarrow> cstr m (fmt + of_nat (length fs)) f"
    by (rule cstr_suffix)
  have "cstr (write_bytes str xs m) (fmt + of_nat (length fs)) f"
    using ok sub f0 by (subst cstr_write) (auto simp: fmt_ok_def)
  moreover have "cstr (write_bytes str xs m) p ys" if "sf p = Some ys" for p ys
    using ok sub that by (subst cstr_write) (fastforce simp: fmt_ok_def)+
  ultimately show ?thesis using ok sub unfolding fmt_ok_def by blast
qed

lemma fmt_ok_cstr:
  "fmt_ok sf fmt f str n m \<Longrightarrow> cstr m fmt f"
  "fmt_ok sf fmt f str n m \<Longrightarrow> 0 < n \<Longrightarrow> str \<noteq> NULL"
  by (auto simp: fmt_ok_def span_def)

text \<open>One piece of output: the loop writes \<open>xs\<close> and goes on behind it.\<close>

lemma loop_piece:
  assumes ok: "fmt_ok sf fmt (fs @ f) str (Suc (length xs + length out)) m"
    and turn: "vsprintf_loop str fmt arg 0 m = vsprintf_loop (str + of_nat (length xs))
      (fmt + of_nat (length fs)) arg' 0 (write_bytes str xs m)"
    and IH: "\<And>str m. fmt_ok sf (fmt + of_nat (length fs)) f str (Suc (length out)) m \<Longrightarrow>
      vsprintf_loop str (fmt + of_nat (length fs)) arg' 0 m =
        Some (str + of_nat (length out), write_bytes str out m)"
  shows "vsprintf_loop str fmt arg 0 m =
    Some (str + of_nat (length (xs @ out)), write_bytes str (xs @ out) m)"
proof -
  have "fmt_ok sf (fmt + of_nat (length fs)) f (str + of_nat (length xs)) (Suc (length out)) (write_bytes str xs m)"
    using fmt_ok_step [of sf fmt fs f str xs "Suc (length out)" m] ok by simp
  from turn IH [OF this] show ?thesis by (simp add: write_bytes_append add.assoc)
qed

lemma vsprintf_loop_render:
  "render sf f arg = Some out \<Longrightarrow> fmt_ok sf fmt f str (Suc (length out)) m \<Longrightarrow>
   vsprintf_loop str fmt arg 0 m = Some (str + of_nat (length out), write_bytes str out m)"
proof (induction sf f arg arbitrary: out fmt str m rule: render.induct)
  case (1 sf arg)
  then show ?case using fmt_ok_cstr(1) [OF 1(2)] by (subst vsprintf_loop.simps) simp
next
  case (2 sf c arg)
  then have c: "c \<noteq> 37" "out = [c]" by (auto split: if_splits)
  have "fmt + 1 \<noteq> str" using 2(2) c by (auto simp: fmt_ok_def span_Suc)
  then show ?case
    using fmt_ok_cstr(1) [OF 2(2)] c
    by (subst vsprintf_loop.simps, subst vsprintf_loop.simps) simp
next
  case (3 sf c d fs arg)
  note ok = "3.prems"(2)
  have cs: "m fmt = c" "c \<noteq> 0" "m (fmt + 1) = d" "d \<noteq> 0" using fmt_ok_cstr(1) [OF ok] by auto
  have nn: "str \<noteq> NULL" using fmt_ok_cstr(2) [OF ok] by simp
  note unf = vsprintf_loop.simps [of str fmt arg 0 m]
  consider (plain) "c \<noteq> 37" | (num) fl where "c = 37" "conv_flag d = Some fl"
    | (str) "c = 37" "d = 115" | (chr) "c = 37" "d = 99" | (pct) "c = 37" "d = 37"
    | (other) "c = 37" "conv_flag d = None" "d \<noteq> 115" "d \<noteq> 99" "d \<noteq> 37"
    by (cases "conv_flag d") auto
  then show ?case
  proof cases
    case plain
    then obtain out' where o: "render sf (d # fs) arg = Some out'" "out = [c] @ out'"
      using "3.prems"(1) by (auto simp: bind_eq_Some)
    show ?thesis
      unfolding o(2)
    proof (rule loop_piece [of sf fmt "[c]" "d # fs"])
      show "fmt_ok sf fmt ([c] @ d # fs) str (Suc (length [c] + length out')) m" using ok o(2) by simp
      show "vsprintf_loop str fmt arg 0 m = vsprintf_loop (str + of_nat (length [c]))
          (fmt + of_nat (length [c])) arg 0 (write_bytes str [c] m)"
        using unf cs plain by simp
    qed (use "3.IH"(1) [OF plain o(1)] in simp)
  next
    case num
    then obtain n arg' out' where o: "va_arg arg = Some (n, arg')" "render sf fs arg' = Some out'"
      "out = number_text d n @ out'"
      using "3.prems"(1) by (auto simp: bind_eq_Some)
    show ?thesis
      unfolding o(3)
    proof (rule loop_piece [of sf fmt "[c, d]" fs])
      show "fmt_ok sf fmt ([c, d] @ fs) str (Suc (length (number_text d n) + length out')) m"
        using ok o(3) by simp
      show "vsprintf_loop str fmt arg 0 m = vsprintf_loop (str + of_nat (length (number_text d n)))
          (fmt + of_nat (length [c, d])) arg' 0 (write_bytes str (number_text d n) m)"
        using unf cs num o(1) numbric_text [OF num(2) nn] by (simp add: Let_def add.assoc)
    qed (use "3.IH"(2) [OF _ _ o(1) _ o(2)] num in simp)
  next
    case str
    then obtain p arg' xs out' where o: "va_arg arg = Some (p, arg')" "sf p = Some xs"
      "render sf fs arg' = Some out'" "out = xs @ out'"
      using "3.prems"(1) by (auto simp: bind_eq_Some conv_flag_def)
    have p: "p \<noteq> NULL" "cstr m p xs" "span p (Suc (length xs)) \<inter> span str (Suc (length out)) = {}"
      using ok o(2) by (auto simp: fmt_ok_def)
    have sub: "span str (length xs) \<subseteq> span str (Suc (length out))" "span p (length xs) \<subseteq> span p (Suc (length xs))"
      using o(4) by (simp_all add: span_mono)
    have hb: "has_bytes m p xs"
    proof -
      have "has_bytes m q (ys @ zs) \<Longrightarrow> has_bytes m q ys" for q ys zs by (induction ys arbitrary: q) auto
      then show ?thesis using p(2) unfolding cstr_def by blast
    qed
    have cp: "strncpy str p (int (length xs)) m = Some (str, write_bytes str xs m)"
    proof (rule strncpy_bytes [OF hb _ nn p(1)])
      show "span str (length xs) \<inter> span p (length xs) = {}" using p(3) sub by (simp add: disjoint_iff subset_iff) metis
    qed
    show ?thesis
      unfolding o(4)
    proof (rule loop_piece [of sf fmt "[c, d]" fs])
      show "fmt_ok sf fmt ([c, d] @ fs) str (Suc (length xs + length out')) m" using ok o(4) by simp
      show "vsprintf_loop str fmt arg 0 m = vsprintf_loop (str + of_nat (length xs))
          (fmt + of_nat (length [c, d])) arg' 0 (write_bytes str xs m)"
        using unf cs str o(1) strlen_cstr [OF p(2,1)] cp by (simp add: Let_def add.assoc conv_flag_def)
    qed (use "3.IH"(3) [OF _ _ _ o(1) _ o(2,3)] str in \<open>simp add: conv_flag_def\<close>)
  next
    case chr
    then obtain a arg' out' where o: "va_arg arg = Some (a, arg')" "render sf fs arg' = Some out'"
      "out = [ucast a] @ out'"
      using "3.prems"(1) by (auto simp: bind_eq_Some conv_flag_def)
    show ?thesis
      unfolding o(3)
    proof (rule loop_piece [of sf fmt "[c, d]" fs])
      show "fmt_ok sf fmt ([c, d] @ fs) str (Suc (length [ucast a :: u8] + length out')) m" using ok o(3) by simp
      show "vsprintf_loop str fmt arg 0 m = vsprintf_loop (str + of_nat (length [ucast a :: u8]))
          (fmt + of_nat (length [c, d])) arg' 0 (write_bytes str [ucast a] m)"
        using unf cs chr o(1) by (simp add: Let_def add.assoc conv_flag_def)
    qed (use "3.IH"(4) [OF _ _ _ _ o(1) _ o(2)] chr in \<open>simp add: conv_flag_def\<close>)
  next
    case pct
    then obtain out' where o: "render sf fs arg = Some out'" "out = [37] @ out'"
      using "3.prems"(1) by (auto simp: bind_eq_Some conv_flag_def)
    show ?thesis
      unfolding o(2)
    proof (rule loop_piece [of sf fmt "[c, d]" fs])
      show "fmt_ok sf fmt ([c, d] @ fs) str (Suc (length [37 :: u8] + length out')) m" using ok o(2) by simp
      show "vsprintf_loop str fmt arg 0 m = vsprintf_loop (str + of_nat (length [37 :: u8]))
          (fmt + of_nat (length [c, d])) arg 0 (write_bytes str [37] m)"
        using unf cs pct by (simp add: Let_def add.assoc conv_flag_def)
    qed (use "3.IH"(5) [OF _ _ _ _ _ o(1)] pct in \<open>simp add: conv_flag_def\<close>)
  next
    case other
    then obtain out' where o: "render sf fs arg = Some out'" "out = [37, d] @ out'"
      using "3.prems"(1) by (auto simp: bind_eq_Some)
    show ?thesis
      unfolding o(2)
    proof (rule loop_piece [of sf fmt "[c, d]" fs])
      show "fmt_ok sf fmt ([c, d] @ fs) str (Suc (length [37, d] + length out')) m" using ok o(2) by simp
      show "vsprintf_loop str fmt arg 0 m = vsprintf_loop (str + of_nat (length [37, d]))
          (fmt + of_nat (length [c, d])) arg 0 (write_bytes str [37, d] m)"
        using unf cs other by (simp add: Let_def add.assoc)
    qed (use "3.IH"(6) [OF _ _ _ _ _ o(1)] other in simp)
  qed
qed

section \<open>Properties\<close>

lemma uart_puts_loop_cstr: "cstr m p xs \<Longrightarrow> uart_puts_loop p m = Some (concat (map platform_uart0_send_byte xs))"
proof (induction xs arbitrary: p)
  case Nil
  then show ?case by (subst uart_puts_loop.simps) simp
next
  case (Cons x xs)
  then show ?case by (subst uart_puts_loop.simps) simp
qed

lemma vsprintf_spec:
  assumes r: "render sf f arg = Some out" and ok: "fmt_ok sf fmt f buf (Suc (length out)) m"
    and len: "length out < 2 ^ 31"
  shows "vsprintf buf fmt arg m = Some (int (length out), write_bytes buf (out @ [0]) m)"
proof -
  have "sint (of_nat (length out) :: u32) = int (length out)"
    using len by (simp add: signed_of_nat signed_take_bit_int_eq_self)
  moreover have "buf \<noteq> NULL" using fmt_ok_cstr(2) [OF ok] by simp
  ultimately show ?thesis
    using vsprintf_loop_render [OF r ok] by (simp add: vsprintf_def write_bytes_append)
qed

text \<open>
  C12. \<^verbatim>\<open>vsprintf\<close> writes exactly the text its format and arguments stand for, with a closing
  zero, returns the length of the text, and touches no byte outside that range, provided the text has less than 1024 bytes, none of them zero, and the
  format and the strings do not overlap the buffer.  Printing it sends these bytes, a carriage return before each
  line feed.  A longer text overflows the buffer of \<^verbatim>\<open>printk\<close>, which then has no result.
\<close>

theorem vsprintf_renders:
  assumes "render sf f arg = Some out" and "fmt_ok sf fmt f buf (Suc (length out)) m"
    and "length out < 2 ^ 31" and "0 \<notin> set out"
  shows "if length out < 1024
    then vsprintf buf fmt arg m = Some (int (length out), write_bytes buf (out @ [0]) m) \<and>
      (\<forall>a. a \<notin> span buf (Suc (length out)) \<longrightarrow> write_bytes buf (out @ [0]) m a = m a) \<and>
      printk buf fmt arg m =
        Some (int (length out), concat (map platform_uart0_send_byte out), write_bytes buf (out @ [0]) m)
    else printk buf fmt arg m = None"
proof -
  note v = vsprintf_spec [OF assms(1-3)]
  have "cstr (write_bytes buf (out @ [0]) m) buf out"
    using has_bytes_write [of "out @ [0]" buf m] assms(3,4) by (simp add: cstr_def)
  moreover have "buf \<noteq> NULL" using fmt_ok_cstr(2) [OF assms(2)] by simp
  ultimately have "uart_puts buf (write_bytes buf (out @ [0]) m) =
      Some (int (length out), concat (map platform_uart0_send_byte out))"
    by (simp add: uart_puts_def strlen_cstr uart_puts_loop_cstr)
  moreover have "write_bytes buf (out @ [0]) m a = m a" if "a \<notin> span buf (Suc (length out))" for a
    using that by (intro write_bytes_other) simp
  ultimately show ?thesis using v by (simp add: printk_def)
qed

text \<open>The format \<^verbatim>\<open>n=%d\<close> and a line feed, at address 1.\<close>

definition fmt_mem :: mem where
  "fmt_mem a = (if a = 1 then 110 else if a = 2 then 61 else if a = 3 then 37 else if a = 4 then 100
     else if a = 5 then 10 else 0)"

theorem vsprintf_renders_witness:
  "\<exists>m'. printk 0x100 1 [-7] fmt_mem = Some (5, [110, 61, 45, 55, 13, 10], m')"
proof -
  have d: "digits_of 10 7 = [7]" by (subst digits_of.simps) simp
  have r: "render (\<lambda>_. None) [110, 61, 37, 100, 10] [-7] = Some [110, 61, 45, 55, 10]"
    by (simp add: conv_flag_def va_arg_def number_text_def dec_text_def d hex_def)
  have six: "(6 :: nat) = Suc (Suc (Suc (Suc (Suc (Suc 0)))))" by simp
  have "span 1 6 = {1, 2, 3, 4, 5, 6}" "span 0x100 6 = {0x100, 0x101, 0x102, 0x103, 0x104, 0x105}"
    by (simp_all add: six span_Suc)
  then have "fmt_ok (\<lambda>_. None) 1 [110, 61, 37, 100, 10] 0x100 6 fmt_mem"
    by (simp add: fmt_ok_def fmt_mem_def span_Suc)
  then show ?thesis
    using vsprintf_renders [OF r, of 1 "0x100" fmt_mem] by (simp add: platform_uart0_send_byte_def six)
qed

end
