(* ===== verification/Mmu.thy ===== *)
theory Mmu
  imports Prelude
begin

text \<open>
  The page tables: \<^verbatim>\<open>kernel/mmu.c\<close> and the descriptors of \<^verbatim>\<open>arch/arm/machine/arm920t_c.c\<close>.
  Memory is a map from word addresses to 32-bit words.  Flushing the translation buffer has no effect
  on memory and is left out.

  \<open>section_walk\<close> is the translation the ARM920T performs for a first-level section descriptor.
\<close>

type_synonym wmem = "u32 \<Rightarrow> u32"

section \<open>Descriptors\<close>

abbreviation (input) KERNEL_BASE_ADDRESS :: u32 where "KERNEL_BASE_ADDRESS \<equiv> 0x80000000"

abbreviation (input) TLB_ATTR_KERNEL_MEMORY :: u32 where "TLB_ATTR_KERNEL_MEMORY \<equiv> 1"
abbreviation (input) TLB_ATTR_DMA_MEMORY :: u32 where "TLB_ATTR_DMA_MEMORY \<equiv> 2"
abbreviation (input) TLB_ATTR_IO_MEMORY :: u32 where "TLB_ATTR_IO_MEMORY \<equiv> 4"
abbreviation (input) TLB_ATTR_USER_MEMORY :: u32 where "TLB_ATTR_USER_MEMORY \<equiv> 8"
abbreviation (input) TLB_ATTR_MEMORY_MASK :: u32 where "TLB_ATTR_MEMORY_MASK \<equiv> 0xf"

text \<open>
  \<^verbatim>\<open>(MST) | (WB << 2) | (AP_SRW_UN << 10) | C2_BIT4\<close>, the same with \<^verbatim>\<open>NCNB\<close>, the coarse page
  table \<^verbatim>\<open>0x01 | DOMAIN0\<close>, and the small page with full access and write back.
\<close>

definition MST_WB_AP_SRW_UN :: u32 where
  "MST_WB_AP_SRW_UN = 2 OR push_bit 2 3 OR push_bit 10 1 OR push_bit 4 1"

definition MST_NCNB_AP_SRW_UN :: u32 where
  "MST_NCNB_AP_SRW_UN = 2 OR push_bit 2 0 OR push_bit 10 1 OR push_bit 4 1"

definition CURDE_PAGE_TABLE :: u32 where
  "CURDE_PAGE_TABLE = 1 OR push_bit 5 0"

definition PGT_DES_DEFAULT :: u32 where
  "PGT_DES_DEFAULT = 2 OR push_bit 4 3 OR push_bit 6 3 OR push_bit 8 3 OR push_bit 10 3 OR push_bit 2 3"

definition arch_get_tlb_base :: u32 where
  "arch_get_tlb_base = KERNEL_BASE_ADDRESS"

definition arch_build_tlb_des :: "u32 \<Rightarrow> u32 \<Rightarrow> u32" where
  "arch_build_tlb_des pa attr =
     (if attr AND 3 = 1 then (pa AND 0xfffffc00) OR attr else (pa AND 0xfff00000) OR attr)"

definition arch_build_page_table_des :: "u32 \<Rightarrow> u32 \<Rightarrow> u32" where
  "arch_build_page_table_des pa attr = (pa AND 0xfffff000) OR attr"

definition arch_get_tlb_attr :: "u32 \<Rightarrow> u32" where
  "arch_get_tlb_attr flag =
     (let f = flag AND TLB_ATTR_MEMORY_MASK in
      if f = TLB_ATTR_KERNEL_MEMORY then MST_WB_AP_SRW_UN
      else if f = TLB_ATTR_DMA_MEMORY \<or> f = TLB_ATTR_IO_MEMORY then MST_NCNB_AP_SRW_UN
      else if f = TLB_ATTR_USER_MEMORY then CURDE_PAGE_TABLE
      else MST_WB_AP_SRW_UN)"

definition arch_get_page_table_attr :: "u32 \<Rightarrow> u32" where
  "arch_get_page_table_attr flag = PGT_DES_DEFAULT"

definition get_tlb_base :: u32 where
  "get_tlb_base = arch_get_tlb_base"

definition build_tlb_des :: "u32 \<Rightarrow> u32 \<Rightarrow> u32" where
  "build_tlb_des pa attr = arch_build_tlb_des pa attr"

definition build_page_table_des :: "u32 \<Rightarrow> u32 \<Rightarrow> u32" where
  "build_page_table_des pa attr = arch_build_page_table_des pa attr"

definition get_tlb_attr :: "u32 \<Rightarrow> u32" where
  "get_tlb_attr flag = arch_get_tlb_attr flag"

definition get_page_table_attr :: "u32 \<Rightarrow> u32" where
  "get_page_table_attr flag = arch_get_page_table_attr flag"

section \<open>Tables\<close>

text \<open>The loop counter starts at \<^verbatim>\<open>(va - 1) >> 20\<close>, the pointer always at the start of the table.\<close>

definition clear_tlb_entry :: "u32 \<Rightarrow> int \<Rightarrow> wmem \<Rightarrow> wmem option" where
  "clear_tlb_entry va sz m =
     (let va = (if va = 0 then 1 else va) in
      do {
        (m, _) \<leftarrow> for_loop (uint (drop_bit 20 (va - 1))) sz
          (\<lambda>i (m, tlb_base). Some (m(tlb_base := 0), tlb_base + 4)) (m, get_tlb_base);
        Some m
      })"

text \<open>\<^verbatim>\<open>size_t\<close> is a signed type: \<^verbatim>\<open>size >> 20\<close> is an arithmetic shift.\<close>

definition build_tlb_table_entry :: "u32 \<Rightarrow> u32 \<Rightarrow> u32 \<Rightarrow> u32 \<Rightarrow> wmem \<Rightarrow> (int \<times> wmem) option" where
  "build_tlb_table_entry vstart pstart sz flag m =
     (if is_aligin vstart SIZE_1M \<and> is_aligin vstart SIZE_1M \<and> is_aligin sz SIZE_1M then
        (let ps = pstart; tlb_base = get_tlb_base + 4 * drop_bit 20 vstart; attr = get_tlb_attr flag in
         do {
           (m, _, _) \<leftarrow> for_loop 0 (sint sz div 2 ^ 20)
             (\<lambda>i (m, tlb_base, ps).
                let m = m(tlb_base := build_tlb_des ps attr);
                    ps = (if flag AND TLB_ATTR_MEMORY_MASK = TLB_ATTR_USER_MEMORY then ps + SIZE_1K else ps + SIZE_1M)
                in Some (m, tlb_base + 4, ps)) (m, tlb_base, ps);
           Some (0, m)
         })
      else Some (- EINVAL, m))"

text \<open>\<^verbatim>\<open>build_page_table_entry\<close>; \<open>pa\<close> is \<^verbatim>\<open>va_to_pa(vstart)\<close>.\<close>

definition build_page_table_entry_pa :: "u32 \<Rightarrow> u32 \<Rightarrow> u32 \<Rightarrow> u32 \<Rightarrow> wmem \<Rightarrow> (int \<times> wmem) option" where
  "build_page_table_entry_pa base pa sz flag m =
     (if \<not> is_aligin sz PAGE_SIZE \<or> sint sz > sint SIZE_1M then Some (- EINVAL, m)
      else
        (let attr = get_page_table_attr flag in
         do {
           (m, _, _) \<leftarrow> for_loop 0 (sint sz div 2 ^ PAGE_SHIFT)
             (\<lambda>i (m, addr_base, pa). Some (m(addr_base := build_page_table_des pa attr), addr_base + 4, pa + PAGE_SIZE))
             (m, base, pa);
           Some (0, m)
         }))"

text \<open>What the processor does with a virtual address whose first-level descriptor is a section.\<close>

definition section_walk :: "u32 \<Rightarrow> wmem \<Rightarrow> u32 \<Rightarrow> u32 option" where
  "section_walk ttb m va =
     (let d = m (ttb + 4 * drop_bit 20 va) in
      if d AND 3 = 2 then Some ((d AND 0xfff00000) OR (va AND 0xfffff)) else None)"

section \<open>The loops\<close>

text \<open>A table of consecutive words.\<close>

lemma word_table_inj:
  assumes "0 \<le> i" "i < 2 ^ 30" "0 \<le> j" "j < 2 ^ 30" and "b + 4 * word_of_int i = (b + 4 * word_of_int j :: u32)"
  shows "i = j"
proof -
  have "uint (4 * word_of_int k :: u32) = 4 * k" if "0 \<le> k" "k < 2 ^ 30" for k
  proof -
    have "(4 * word_of_int k :: u32) = word_of_int (4 * k)" by simp
    then show ?thesis using that by (simp add: uint_word_of_int del: wi_hom_mult of_int_mult)
  qed
  with assms show ?thesis by (metis add_left_cancel mult_cancel_left zero_neq_numeral)
qed

lemma table_loop:
  fixes b x0 d :: u32
  assumes n: "0 \<le> n" "n \<le> 2 ^ 30"
  shows "\<exists>m' p x. for_loop 0 n (\<lambda>i (m, p, x). Some (m(p := f x), p + 4, x + d)) (m, b, x0) = Some (m', p, x) \<and>
    (\<forall>j. 0 \<le> j \<longrightarrow> j < n \<longrightarrow> m' (b + 4 * word_of_int j) = f (x0 + word_of_int j * d)) \<and>
    (\<forall>a. (\<forall>j. 0 \<le> j \<longrightarrow> j < n \<longrightarrow> a \<noteq> b + 4 * word_of_int j) \<longrightarrow> m' a = (m a :: u32))"
proof -
  define P where "P k s \<longleftrightarrow> (case s of (m', p, x) \<Rightarrow>
      p = b + 4 * word_of_int k \<and> x = x0 + word_of_int k * d \<and>
      (\<forall>j. 0 \<le> j \<longrightarrow> j < k \<longrightarrow> m' (b + 4 * word_of_int j) = f (x0 + word_of_int j * d)) \<and>
      (\<forall>a. (\<forall>j. 0 \<le> j \<longrightarrow> j < k \<longrightarrow> a \<noteq> b + 4 * word_of_int j) \<longrightarrow> m' a = m a))" for k s
  have "\<exists>s'. for_loop 0 n (\<lambda>i (m, p, x). Some (m(p := f x), p + 4, x + d)) (m, b, x0) = Some s' \<and> P n s'"
  proof (rule for_loop_inv)
    show "P 0 (m, b, x0)" by (simp add: P_def)
    fix k t
    assume k: "0 \<le> k" "k < n" and inv: "P k t"
    obtain m' p x where t: "t = (m', p, x)" by (cases t)
    have inv': "p = b + 4 * word_of_int k" "x = x0 + word_of_int k * d"
      "\<And>j. 0 \<le> j \<Longrightarrow> j < k \<Longrightarrow> m' (b + 4 * word_of_int j) = f (x0 + word_of_int j * d)"
      "\<And>a. (\<And>j. 0 \<le> j \<Longrightarrow> j < k \<Longrightarrow> a \<noteq> b + 4 * word_of_int j) \<Longrightarrow> m' a = m a"
      using inv unfolding P_def t by auto
    have ne: "b + 4 * word_of_int j \<noteq> p" if "0 \<le> j" "j < k" for j
      using word_table_inj [of j k b] that k n inv'(1) by auto
    have "(m'(p := f x)) (b + 4 * word_of_int j) = f (x0 + word_of_int j * d)" if "0 \<le> j" "j < k + 1" for j
    proof (cases "j = k")
      case True
      then show ?thesis using inv'(1,2) by simp
    next
      case False
      then show ?thesis using ne [of j] inv'(3) [of j] that by simp
    qed
    moreover have "(m'(p := f x)) a = m a" if a: "\<And>j. 0 \<le> j \<Longrightarrow> j < k + 1 \<Longrightarrow> a \<noteq> b + 4 * word_of_int j" for a
      using a [of k] inv'(4) [of a] a k inv'(1) by simp
    ultimately have "P (k + 1) (m'(p := f x), p + 4, x + d)"
      unfolding P_def by (simp add: inv'(1,2) algebra_simps)
    then show "\<exists>t'. (case t of (m, p, x) \<Rightarrow> Some (m(p := f x), p + 4, x + d)) = Some t' \<and> P (k + 1) t'"
      by (simp add: t)
  qed (rule n(1))
  then show ?thesis unfolding P_def by force
qed

lemma aligned_and: "is_aligin x SIZE_1M \<Longrightarrow> x AND 0xfff00000 = x"
proof -
  assume "is_aligin x SIZE_1M"
  then have "2 ^ 20 dvd unat x" using is_aligin_unat [of x 20] by simp
  moreover have "(0xfff00000 :: u32) = NOT (mask 20)" by (simp add: mask_eq_exp_minus_1)
  ultimately have "unat (x AND 0xfff00000) = unat x" by (simp only: unat_and_not_mask dvd_div_mult_self)
  then show ?thesis by (simp only: word_unat_eq_iff)
qed

text \<open>Section descriptors of kernel, DMA and I/O memory lead to the section they were built for.\<close>

lemma section_des:
  assumes "attr = MST_WB_AP_SRW_UN \<or> attr = MST_NCNB_AP_SRW_UN"
  shows "arch_build_tlb_des pa attr AND 3 = 2" "arch_build_tlb_des pa attr AND 0xfff00000 = pa AND 0xfff00000"
proof -
  have a: "attr AND 3 = 2" "attr AND 0xfff00000 = 0"
    using assms by (auto simp: MST_WB_AP_SRW_UN_def MST_NCNB_AP_SRW_UN_def)
  then have d: "arch_build_tlb_des pa attr = (pa AND 0xfff00000) OR attr" by (simp add: arch_build_tlb_des_def)
  show "arch_build_tlb_des pa attr AND 3 = 2" "arch_build_tlb_des pa attr AND 0xfff00000 = pa AND 0xfff00000"
    unfolding d word_ao_dist by (simp_all add: a and.assoc)
qed

lemma kernel_attr:
  "flag AND TLB_ATTR_MEMORY_MASK \<noteq> TLB_ATTR_USER_MEMORY \<Longrightarrow>
   get_tlb_attr flag = MST_WB_AP_SRW_UN \<or> get_tlb_attr flag = MST_NCNB_AP_SRW_UN"
  by (simp add: get_tlb_attr_def arch_get_tlb_attr_def Let_def)

text \<open>A virtual address split at its megabyte.\<close>

lemma section_split:
  assumes v: "is_aligin v SIZE_1M" and va: "unat v \<le> unat va" "unat va < unat v + k * 2 ^ 20"
  obtains i where "i < k" "drop_bit 20 va = drop_bit 20 v + of_nat i"
    "va = v + of_nat i * SIZE_1M + (va AND 0xfffff)"
proof -
  let ?i = "unat va div 2 ^ 20 - unat v div 2 ^ 20"
  have dv: "unat v = unat v div 2 ^ 20 * 2 ^ 20"
  proof -
    have "2 ^ 20 dvd unat v" using v is_aligin_unat [of v 20] by simp
    then show ?thesis by (simp only: dvd_div_mult_self)
  qed
  have le: "unat v div 2 ^ 20 \<le> unat va div 2 ^ 20" using va(1) by (rule div_le_mono)
  have "unat va div 2 ^ 20 < unat v div 2 ^ 20 + k"
  proof -
    have "unat va < (unat v div 2 ^ 20 + k) * 2 ^ 20" using va(2) dv by (simp add: add_mult_distrib)
    then show ?thesis by (simp add: less_mult_imp_div_less)
  qed
  then have k: "?i < k" using le by linarith
  have "drop_bit 20 va = drop_bit 20 v + of_nat ?i"
  proof -
    have "drop_bit 20 w = (of_nat (unat w div 2 ^ 20) :: u32)" for w :: u32
      by (simp only: unat_drop_bit [symmetric] of_nat_unat_u32)
    then show ?thesis using le by (simp flip: of_nat_add)
  qed
  moreover have "va = v + of_nat ?i * SIZE_1M + (va AND 0xfffff)"
  proof -
    have m: "(0xfffff :: u32) = mask 20" by (simp add: mask_eq_exp_minus_1)
    have 1: "va AND 0xfffff = of_nat (unat va mod 2 ^ 20)"
      by (metis m unat_mask_and of_nat_unat_u32)
    have 2: "v = of_nat (unat v div 2 ^ 20 * 2 ^ 20)" by (metis dv of_nat_unat_u32)
    have 3: "(SIZE_1M :: u32) = of_nat (2 ^ 20)" by simp
    have "v + of_nat ?i * SIZE_1M + (va AND 0xfffff) =
        of_nat (unat v div 2 ^ 20 * 2 ^ 20) + of_nat ?i * of_nat (2 ^ 20) + of_nat (unat va mod 2 ^ 20)"
      by (simp only: 1 3 2 [symmetric])
    also have "\<dots> = of_nat (unat v div 2 ^ 20 * 2 ^ 20 + ?i * 2 ^ 20 + unat va mod 2 ^ 20)"
      by (simp only: of_nat_add of_nat_mult)
    also have "unat v div 2 ^ 20 * 2 ^ 20 + ?i * 2 ^ 20 + unat va mod 2 ^ 20 = unat va"
      using le by (simp only: add_mult_distrib [symmetric] le_add_diff_inverse div_mult_mod_eq)
    finally show ?thesis by simp
  qed
  ultimately show thesis using that k by blast
qed

section \<open>Properties\<close>

lemma build_tlb_loop:
  assumes "is_aligin vstart SIZE_1M" and "sz = of_nat k * SIZE_1M" "k < 2048"
    and flag: "flag AND TLB_ATTR_MEMORY_MASK \<noteq> TLB_ATTR_USER_MEMORY"
  shows "\<exists>m'. build_tlb_table_entry vstart pstart sz flag m = Some (0, m') \<and>
    (\<forall>j < k. m' (get_tlb_base + 4 * drop_bit 20 vstart + 4 * of_nat j) =
       build_tlb_des (pstart + of_nat j * SIZE_1M) (get_tlb_attr flag)) \<and>
    (\<forall>a. (\<forall>j < k. a \<noteq> get_tlb_base + 4 * drop_bit 20 vstart + 4 * of_nat j) \<longrightarrow> m' a = m a)"
proof -
  let ?b = "get_tlb_base + 4 * drop_bit 20 vstart"
  have usz: "unat sz = k * 2 ^ 20"
  proof -
    have "sz = of_nat (k * 2 ^ 20)" using assms(2) by simp
    then have "unat sz = k * 2 ^ 20 mod 2 ^ 32" by (simp only: unat_of_nat_u32)
    then show ?thesis using assms(3) by simp
  qed
  have "is_aligin sz SIZE_1M" using usz is_aligin_unat [of sz 20] by simp
  moreover have "sint sz div 2 ^ 20 = int k"
  proof -
    have "sz = of_nat (k * 2 ^ 20)" using assms(2) by simp
    moreover have "k * 2 ^ 20 < 2 ^ 31" using assms(3) by simp
    ultimately have "sint sz = int (k * 2 ^ 20)" by (simp only: sint_of_nat_u32)
    then show ?thesis by simp
  qed
  moreover obtain m' p x where t: "for_loop 0 (int k)
      (\<lambda>i (m, p, x). Some (m(p := build_tlb_des x (get_tlb_attr flag)), p + 4, x + SIZE_1M)) (m, ?b, pstart) = Some (m', p, x)"
    "\<And>j. 0 \<le> j \<Longrightarrow> j < int k \<Longrightarrow> m' (?b + 4 * word_of_int j) = build_tlb_des (pstart + word_of_int j * SIZE_1M) (get_tlb_attr flag)"
    "\<And>a. (\<And>j. 0 \<le> j \<Longrightarrow> j < int k \<Longrightarrow> a \<noteq> ?b + 4 * word_of_int j) \<Longrightarrow> m' a = m a"
    using table_loop [of "int k" "\<lambda>x. build_tlb_des x (get_tlb_attr flag)" SIZE_1M m ?b pstart] assms(3) by auto
  ultimately have "build_tlb_table_entry vstart pstart sz flag m = Some (0, m')"
    using assms(1) flag by (simp add: build_tlb_table_entry_def Let_def)
  moreover have "m' (?b + 4 * of_nat j) = build_tlb_des (pstart + of_nat j * SIZE_1M) (get_tlb_attr flag)" if "j < k" for j
    using t(2) [of "int j"] that by simp
  moreover have "m' a = m a" if a: "\<And>j. j < k \<Longrightarrow> a \<noteq> ?b + 4 * of_nat j" for a
  proof (rule t(3))
    fix j assume j: "0 \<le> j" "j < int k"
    then obtain i where "j = int i" using nonneg_int_cases by blast
    with a [of i] j show "a \<noteq> ?b + 4 * word_of_int j" by simp
  qed
  ultimately show ?thesis by blast
qed

lemma section_base:
  assumes "is_aligin x SIZE_1M"
  shows "(p + x) AND 0xfff00000 = (p AND 0xfff00000) + x"
proof -
  let ?q = "(p AND 0xfff00000) + x" and ?r = "p AND 0xfffff"
  have "is_aligin (p AND 0xfff00000) (2 ^ 20)" by (simp add: is_aligin_def and.assoc)
  then have q: "is_aligin ?q SIZE_1M" using is_aligin_add [of "p AND 0xfff00000" 20 x] assms by simp
  have "?q AND ?r = (?q AND 0xfff00000) AND ?r" by (simp only: aligned_and [OF q])
  also have "\<dots> = 0" by (simp add: and.assoc and.left_commute [of _ p])
  finally have sum: "?q + ?r = ?q OR ?r" by (simp only: disjunctive_add_eq_or)
  have "(p AND 0xfff00000) AND ?r = 0" by (simp add: and.assoc and.left_commute [of _ p])
  then have "(p AND 0xfff00000) + ?r = (p AND 0xfff00000) OR ?r" by (simp only: disjunctive_add_eq_or)
  also have "\<dots> = p AND (0xfff00000 OR 0xfffff)" by (simp only: bit.conj_disj_distrib)
  also have "(0xfff00000 OR 0xfffff :: u32) = - 1" by simp
  also have "p AND - 1 = p" by (rule and.right_neutral)
  finally have "p + x = ?q + ?r" by (simp add: algebra_simps)
  then have "(p + x) AND 0xfff00000 = (?q AND 0xfff00000) OR (?r AND 0xfff00000)"
    unfolding sum by (simp only: bit.conj_disj_distrib2)
  then show ?thesis by (simp add: aligned_and [OF q] and.assoc)
qed

text \<open>
  C11. After \<^verbatim>\<open>build_tlb_table_entry\<close> for less than 2 GiB of kernel, DMA or I/O memory the processor translates every
  address of the mapped range to the corresponding physical address, counted from the megabyte of \<^verbatim>\<open>pstart\<close>, and the entries
  of all other megabytes are unchanged.  The virtual start and the size must be multiples of a megabyte, or the result is
  \<^verbatim>\<open>-EINVAL\<close> and nothing changes; a physical start that is not one is not refused, its low bits are ignored.
\<close>

theorem build_tlb_translates:
  assumes sz: "unat sz < 2 ^ 31" and flag: "flag AND TLB_ATTR_MEMORY_MASK \<noteq> TLB_ATTR_USER_MEMORY"
  shows "if is_aligin vstart SIZE_1M \<and> is_aligin sz SIZE_1M
    then \<exists>m'. build_tlb_table_entry vstart pstart sz flag m = Some (0, m') \<and>
      (\<forall>va. unat vstart \<le> unat va \<longrightarrow> unat va < unat vstart + unat sz \<longrightarrow>
         section_walk get_tlb_base m' va = Some ((pstart AND 0xfff00000) + (va - vstart))) \<and>
      (\<forall>a. (\<forall>j < unat sz div 2 ^ 20. a \<noteq> get_tlb_base + 4 * drop_bit 20 vstart + 4 * of_nat j) \<longrightarrow> m' a = m a)
    else build_tlb_table_entry vstart pstart sz flag m = Some (- EINVAL, m)"
proof (cases "is_aligin vstart SIZE_1M \<and> is_aligin sz SIZE_1M")
  case True
  then have v: "is_aligin vstart SIZE_1M" and al: "is_aligin sz SIZE_1M" by simp_all
  define k where "k = unat sz div 2 ^ 20"
  have "2 ^ 20 dvd unat sz" using is_aligin_unat [of sz 20] al by simp
  then have u: "unat sz = k * 2 ^ 20" by (simp add: k_def)
  then have k: "sz = of_nat k * SIZE_1M" "k < 2048"
    using sz by (auto simp: word_unat_eq_iff unat_word_ariths unat_of_nat_u32)
  obtain m' where m': "build_tlb_table_entry vstart pstart sz flag m = Some (0, m')"
    "\<And>j. j < k \<Longrightarrow> m' (get_tlb_base + 4 * drop_bit 20 vstart + 4 * of_nat j) =
       build_tlb_des (pstart + of_nat j * SIZE_1M) (get_tlb_attr flag)"
    "\<forall>a. (\<forall>j < k. a \<noteq> get_tlb_base + 4 * drop_bit 20 vstart + 4 * of_nat j) \<longrightarrow> m' a = m a"
    using build_tlb_loop [OF v k flag] by blast
  have "section_walk get_tlb_base m' va = Some ((pstart AND 0xfff00000) + (va - vstart))"
    if va: "unat vstart \<le> unat va" "unat va < unat vstart + k * 2 ^ 20" for va
  proof -
    obtain i where i: "i < k" "drop_bit 20 va = drop_bit 20 vstart + of_nat i"
      "va = vstart + of_nat i * SIZE_1M + (va AND 0xfffff)"
      using section_split [OF v va] .
    let ?q = "(pstart AND 0xfff00000) + of_nat i * SIZE_1M"
    have x: "is_aligin (of_nat i * SIZE_1M) SIZE_1M" using is_aligin_mult [of 20 "of_nat i"] by simp
    have ps: "is_aligin ?q SIZE_1M"
      using is_aligin_add [of "pstart AND 0xfff00000" 20 "of_nat i * 2 ^ 20"] x by (simp add: is_aligin_def and.assoc)
    have "get_tlb_base + 4 * drop_bit 20 va = get_tlb_base + 4 * drop_bit 20 vstart + 4 * of_nat i"
      using i(2) by (simp add: algebra_simps)
    then have d: "m' (get_tlb_base + 4 * drop_bit 20 va) = arch_build_tlb_des (pstart + of_nat i * SIZE_1M) (get_tlb_attr flag)"
      using m'(2) [OF i(1)] by (simp add: build_tlb_des_def add.assoc)
    have "?q OR (va AND 0xfffff) = ?q + (va AND 0xfffff)"
    proof -
      have "?q AND (va AND 0xfffff) = (?q AND 0xfff00000) AND (va AND 0xfffff)"
        by (simp only: aligned_and [OF ps])
      also have "\<dots> = 0" by (simp add: and.assoc and.left_commute [of _ va])
      finally show ?thesis by (simp only: disjunctive_add_eq_or)
    qed
    also have "\<dots> = (pstart AND 0xfff00000) + (va - vstart)" using i(3) by (simp add: algebra_simps)
    finally show ?thesis
      unfolding section_walk_def Let_def d section_des [OF kernel_attr [OF flag]] section_base [OF x] by simp
  qed
  then show ?thesis
    using m'(1,3) unfolding if_P [OF True] k_def [symmetric] u [folded k_def, symmetric] by blast
qed (auto simp: build_tlb_table_entry_def)

theorem build_tlb_translates_witness:
  "\<exists>m'. build_tlb_table_entry 0x80000000 0x30000000 0x4000000 TLB_ATTR_KERNEL_MEMORY (\<lambda>_. 0) = Some (0, m') \<and>
    section_walk get_tlb_base m' 0x80123456 = Some 0x30123456"
proof -
  have "is_aligin 0x80000000 SIZE_1M" "is_aligin 0x4000000 SIZE_1M" by (simp_all add: is_aligin_def)
  note c = if_P [OF conjI [OF this]]
  have "unat (0x4000000 :: u32) < 2 ^ 31" "TLB_ATTR_KERNEL_MEMORY AND TLB_ATTR_MEMORY_MASK \<noteq> TLB_ATTR_USER_MEMORY" by simp_all
  from build_tlb_translates [OF this, of "0x80000000" "0x30000000" "\<lambda>_. 0", unfolded c] obtain m'
    where m': "build_tlb_table_entry 0x80000000 0x30000000 0x4000000 TLB_ATTR_KERNEL_MEMORY (\<lambda>_. 0) = Some (0, m')"
      "\<forall>va. unat (0x80000000 :: u32) \<le> unat va \<longrightarrow> unat va < unat (0x80000000 :: u32) + unat (0x4000000 :: u32) \<longrightarrow>
         section_walk get_tlb_base m' va = Some ((0x30000000 AND 0xfff00000) + (va - 0x80000000))"
    by blast
  from m'(2) [rule_format, of "0x80123456"] have "section_walk get_tlb_base m' 0x80123456 = Some 0x30123456" by simp
  with m'(1) show ?thesis by blast
qed

end
