(* ===== verification/Mm.thy ===== *)
theory Mm
  imports Pid Bitops
begin

text \<open>
  The page allocator, \<^verbatim>\<open>mm/mm.c\<close>: the memory bank with its four zones, the array of
  \<^verbatim>\<open>struct page\<close>, the bit map of used pages, address conversion, allocation and release.

  \<^verbatim>\<open>struct page *\<close> is an index of the array \<^verbatim>\<open>_page_table\<close> (every such pointer of the
  code is computed from the array); outside the array it cannot be read or written.  The list
  head of page \<open>i\<close> is the node \<open>N_page\<close> of the list heap.  The operations lock the mutex of
  a zone: a definition named \<open>_locked\<close> is the code after the lock is taken, and the operation itself
  gives \<^const>\<open>None\<close> in its first component when its caller is suspended in the lock.
  The message output of the code has no effect on the state.
\<close>

section \<open>Data\<close>

abbreviation (input) ZONE_MAX_REGION :: nat where "ZONE_MAX_REGION \<equiv> 4"
abbreviation (input) MM_ZONE_NORMAL :: int where "MM_ZONE_NORMAL \<equiv> 0"
abbreviation (input) MM_ZONE_DMA :: int where "MM_ZONE_DMA \<equiv> 1"
abbreviation (input) MM_ZONE_RES :: int where "MM_ZONE_RES \<equiv> 2"
abbreviation (input) MM_ZONE_IO :: int where "MM_ZONE_IO \<equiv> 3"
abbreviation (input) MM_ZONE_UNKNOW :: int where "MM_ZONE_UNKNOW \<equiv> 4"
abbreviation (input) MM_ZONE_MASK :: u32 where "MM_ZONE_MASK \<equiv> 3"

abbreviation (input) GFP_ZONE_ID_MASK :: u32 where "GFP_ZONE_ID_MASK \<equiv> 0xf"
abbreviation (input) GFP_KERNEL :: u32 where "GFP_KERNEL \<equiv> 1"
abbreviation (input) GFP_DMA :: u32 where "GFP_DMA \<equiv> 2"
abbreviation (input) GFP_PGT :: u32 where "GFP_PGT \<equiv> 0x11"
abbreviation (input) GFP_USER :: u32 where "GFP_USER \<equiv> 0x101"
abbreviation (input) GFP_SLAB :: u32 where "GFP_SLAB \<equiv> 0x41"
abbreviation (input) GFP_SLAB_HEADER :: u32 where "GFP_SLAB_HEADER \<equiv> 0x81"
abbreviation (input) GFP_PAGE_HEADER :: u32 where "GFP_PAGE_HEADER \<equiv> 0x20"
abbreviation (input) GFP_SLAB_FLAG :: u32 where "GFP_SLAB_FLAG \<equiv> 0x40"
abbreviation (input) GFP_SLAB_HEADER_FLAG :: u32 where "GFP_SLAB_HEADER_FLAG \<equiv> 0x80"

record mm_section =
  phy_start :: u32
  vir_start :: u32
  sec_size :: u32
  pv_offset :: u32
  maped :: bool

text \<open>The mutex of zone \<open>i\<close> is \<open>ZoneMutex i\<close>.\<close>

record mm_zone =
  memory_section :: "mm_section list"
  nr_section :: int
  z_total_size :: u32
  z_free_size :: u32
  z_page_num :: u32
  z_free_pages :: u32
  bm_start :: u32
  bm_end :: u32
  bm_current :: u32

record mm_bank =
  total_size :: u32
  total_page :: u32
  total_section :: u32
  zone :: "mm_zone list"

text \<open>
  \<^verbatim>\<open>free_base\<close> and \<^verbatim>\<open>extra_size\<close> are a union; the last three members are bit fields.
\<close>

record page =
  phy_address :: u32
  pg_flag :: u32
  pg_free_base :: u32
  pg_free_size :: u16
  pg_count :: u8
  pg_usage :: u8

record mstate =
  ks :: kstate
  bank :: mm_bank
  page_table :: "page list"
  page_map :: "u32 list"
  kernel_start :: u32

definition on_ks :: "(kstate \<Rightarrow> kstate) \<Rightarrow> mstate \<Rightarrow> mstate" where
  "on_ks f s = s\<lparr>ks := f (ks s)\<rparr>"

definition get_zone :: "int \<Rightarrow> mstate \<Rightarrow> mm_zone option" where
  "get_zone i s = lget (zone (bank s)) i"

definition put_zone :: "int \<Rightarrow> mm_zone \<Rightarrow> mstate \<Rightarrow> mstate option" where
  "put_zone i z s = do {
     zs \<leftarrow> lput (zone (bank s)) i z;
     Some (s\<lparr>bank := (bank s)\<lparr>zone := zs\<rparr>\<rparr>)
   }"

definition page_read :: "int \<Rightarrow> mstate \<Rightarrow> page option" where
  "page_read pg s = lget (page_table s) pg"

definition page_write :: "int \<Rightarrow> page \<Rightarrow> mstate \<Rightarrow> mstate option" where
  "page_write pg p s = do {
     pt \<leftarrow> lput (page_table s) pg p;
     Some (s\<lparr>page_table := pt\<rparr>)
   }"

section \<open>Pages and addresses\<close>

definition mm_free_page :: "u32 \<Rightarrow> mstate \<Rightarrow> u32 option" where
  "mm_free_page flag s =
     (let flag = flag AND MM_ZONE_MASK in
      for_loop 0 MM_ZONE_UNKNOW
        (\<lambda>i sum. if flag AND word_of_int i = word_of_int i then do {
             z \<leftarrow> get_zone i s;
             Some (sum + z_free_pages z)
           } else Some sum) 0)"

definition page_state :: "int \<Rightarrow> mstate \<Rightarrow> int option" where
  "page_state n s = os_read_bit (page_map s) n"

definition get_page :: "int \<Rightarrow> int" where
  "get_page i = i"

definition va_to_page :: "u32 \<Rightarrow> mstate \<Rightarrow> int" where
  "va_to_page va s = get_page (uint (drop_bit PAGE_SHIFT (va - kernel_start s)))"

definition va_to_page_id :: "u32 \<Rightarrow> mstate \<Rightarrow> int" where
  "va_to_page_id va s = uint (drop_bit PAGE_SHIFT (va - kernel_start s))"

definition page_id_to_va :: "int \<Rightarrow> mstate \<Rightarrow> u32" where
  "page_id_to_va index s = kernel_start s + push_bit PAGE_SHIFT (word_of_int index)"

definition page_to_page_id :: "int \<Rightarrow> int" where
  "page_to_page_id pg = pg"

definition page_to_va :: "int \<Rightarrow> mstate \<Rightarrow> u32" where
  "page_to_va pg s = page_id_to_va (page_to_page_id pg) s"

definition page_to_pa :: "int \<Rightarrow> mstate \<Rightarrow> u32 option" where
  "page_to_pa pg s = do { p \<leftarrow> page_read pg s; Some (phy_address p) }"

text \<open>
  The nested loops of \<^verbatim>\<open>va_get_pv_offset\<close> and \<^verbatim>\<open>pa_get_pv_offset\<close> with their test as an
  argument; \<open>n\<close> is \<^verbatim>\<open>zone->nr_section - j\<close>.
\<close>

fun scan_sections :: "(mm_section \<Rightarrow> bool) \<Rightarrow> nat \<Rightarrow> int \<Rightarrow> mm_zone \<Rightarrow> mm_section option option" where
  "scan_sections P 0 j z = Some None"
| "scan_sections P (Suc n) j z = do {
     s \<leftarrow> lget (memory_section z) j;
     if P s then Some (Some s) else scan_sections P n (j + 1) z
   }"

fun scan_zones :: "(mm_section \<Rightarrow> bool) \<Rightarrow> mm_zone list \<Rightarrow> mm_section option option" where
  "scan_zones P [] = Some None"
| "scan_zones P (z # zs) = do {
     r \<leftarrow> scan_sections P (nat (nr_section z)) 0 z;
     case r of None \<Rightarrow> scan_zones P zs | Some s \<Rightarrow> Some (Some s)
   }"

definition va_get_pv_offset :: "u32 \<Rightarrow> mstate \<Rightarrow> u32 option" where
  "va_get_pv_offset va s = do {
     r \<leftarrow> scan_zones (\<lambda>sc. vir_start sc \<le> va \<and> va \<le> vir_start sc + sec_size sc) (zone (bank s));
     Some (case r of None \<Rightarrow> 0 | Some sc \<Rightarrow> pv_offset sc)
   }"

definition pa_get_pv_offset :: "u32 \<Rightarrow> mstate \<Rightarrow> u32 option" where
  "pa_get_pv_offset pa s = do {
     r \<leftarrow> scan_zones (\<lambda>sc. phy_start sc \<le> pa \<and> pa \<le> phy_start sc + sec_size sc) (zone (bank s));
     Some (case r of None \<Rightarrow> 0 | Some sc \<Rightarrow> pv_offset sc)
   }"

definition pa_to_va :: "u32 \<Rightarrow> mstate \<Rightarrow> u32 option" where
  "pa_to_va pa s = do {
     pv \<leftarrow> pa_get_pv_offset pa s;
     Some (if pv \<noteq> 0 then pa + pv else 0)
   }"

definition pa_to_page :: "u32 \<Rightarrow> mstate \<Rightarrow> int option" where
  "pa_to_page pa s = do { va \<leftarrow> pa_to_va pa s; Some (va_to_page va s) }"

definition va_to_pa :: "u32 \<Rightarrow> mstate \<Rightarrow> u32 option" where
  "va_to_pa va s = page_to_pa (va_to_page va s) s"

definition page_get :: "int \<Rightarrow> mstate \<Rightarrow> mstate option" where
  "page_get pg s = do {
     p \<leftarrow> page_read pg s;
     page_write pg (p\<lparr>pg_usage := pg_usage p + 1\<rparr>) s
   }"

section \<open>Allocation\<close>

text \<open>
  One round of the loop of \<^verbatim>\<open>init_pages\<close>; \<^verbatim>\<open>flag\<close> keeps the header bit from the first
  page on.
\<close>

definition init_page :: "u32 \<Rightarrow> int \<Rightarrow> int \<Rightarrow> u32 \<times> mstate \<Rightarrow> (u32 \<times> mstate) option" where
  "init_page index count i = (\<lambda>(flag, s). do {
     let pg = get_page i;
     p \<leftarrow> page_read pg s;
     let va = page_to_va pg s;
     pv \<leftarrow> va_get_pv_offset va s;
     let p = p\<lparr>phy_address := va - pv, pg_usage := 0\<rparr>;
     let s = on_ks (on_lists (init_list (N_page (word_of_int pg)))) s;
     let p = p\<lparr>pg_count := (if i = uint index then word_of_int count else word_of_int i)\<rparr>;
     let flag = (if i = uint index then flag OR GFP_PAGE_HEADER else flag);
     let p = p\<lparr>pg_free_size := 4096, pg_free_base := va, pg_flag := flag\<rparr>;
     s \<leftarrow> page_write pg p s;
     s \<leftarrow> page_get pg s;
     Some (flag, s)
   })"

definition init_pages :: "u32 \<Rightarrow> int \<Rightarrow> u32 \<Rightarrow> mstate \<Rightarrow> (int \<times> mstate) option" where
  "init_pages index count flag s = do {
     (_, s) \<leftarrow> for_loop (uint index) (uint (index + word_of_int count)) (init_page index count) (flag, s);
     Some (get_page (uint index), s)
   }"

definition update_memory_bitmap :: "u32 \<Rightarrow> int \<Rightarrow> bool \<Rightarrow> mstate \<Rightarrow> mstate option" where
  "update_memory_bitmap index count update s = do {
     pm \<leftarrow> for_loop (uint index) (uint (index + word_of_int count))
       (\<lambda>i pm. if update then os_set_bit pm i else os_clear_bit pm i) (page_map s);
     Some (s\<lparr>page_map := pm\<rparr>)
   }"

partial_function (option) find_continous_loop ::
  "u32 list \<Rightarrow> mm_zone \<Rightarrow> int \<Rightarrow> int \<Rightarrow> bool \<Rightarrow> int \<Rightarrow> u32 option" where
  "find_continous_loop pm z count i again acc = do {
     b \<leftarrow> os_read_bit pm i;
     let acc = (if b = 0 then acc + 1 else acc);
     if b = 0 \<and> acc = count then Some (word_of_int (i - count + 1))
     else do {
       let (again, acc, i) =
         (if word_of_int i = bm_end z then (True, 0, sint (bm_start z - 1)) else (again, acc, i));
       if again \<and> word_of_int i = bm_current z then Some 0
       else find_continous_loop pm z count (i + 1) again acc
     }
   }"

definition find_continous_pages :: "mm_zone \<Rightarrow> int \<Rightarrow> mstate \<Rightarrow> u32 option" where
  "find_continous_pages z count s =
     find_continous_loop (page_map s) z count (sint (bm_current z)) False 0"

definition zone_unlock :: "int \<Rightarrow> mstate \<Rightarrow> mstate option" where
  "zone_unlock zid s = do {
     k \<leftarrow> mutex_unlock (ZoneMutex (nat zid)) (ks s);
     Some (s\<lparr>ks := k\<rparr>)
   }"

definition with_zone_lock ::
  "int \<Rightarrow> (mstate \<Rightarrow> ('a \<times> mstate) option) \<Rightarrow> mstate \<Rightarrow> ('a option \<times> mstate) option" where
  "with_zone_lock zid f s = do {
     (r, k) \<leftarrow> mutex_lock (ZoneMutex (nat zid)) (ks s);
     let s = s\<lparr>ks := k\<rparr>;
     case r of
       Lock_suspended \<Rightarrow> Some (None, s)
     | Lock_return _ \<Rightarrow> do { (v, s) \<leftarrow> f s; Some (Some v, s) }
   }"

definition get_free_pages_locked :: "int \<Rightarrow> int \<Rightarrow> u32 \<Rightarrow> mstate \<Rightarrow> (u32 \<times> mstate) option" where
  "get_free_pages_locked zid count flag s = do {
     z \<leftarrow> get_zone zid s;
     if z_free_pages z < word_of_int count then do { s \<leftarrow> zone_unlock zid s; Some (NULL, s) }
     else do {
       index \<leftarrow> find_continous_pages z count s;
       if index = 0 then do { s \<leftarrow> zone_unlock zid s; Some (NULL, s) }
       else do {
         s \<leftarrow> update_memory_bitmap index count True s;
         s \<leftarrow> put_zone zid (z\<lparr>bm_current := index + word_of_int count,
           z_free_size := z_free_size z - word_of_int count * PAGE_SIZE,
           z_free_pages := z_free_pages z - word_of_int count\<rparr>) s;
         s \<leftarrow> zone_unlock zid s;
         (pg, s) \<leftarrow> init_pages index count flag s;
         Some (page_to_va pg s, s)
       }
     }
   }"

text \<open>\<^verbatim>\<open>_get_free_pages\<close>, the helper of \<^verbatim>\<open>get_free_pages\<close>.\<close>

definition gfp_zone_id :: "u32 \<Rightarrow> int" where
  "gfp_zone_id flag = uint (drop_bit 1 (flag AND GFP_ZONE_ID_MASK))"

definition get_free_pages_zone :: "int \<Rightarrow> u32 \<Rightarrow> mstate \<Rightarrow> (u32 option \<times> mstate) option" where
  "get_free_pages_zone count flag s =
     (let zid = gfp_zone_id flag in
      if zid \<ge> MM_ZONE_UNKNOW then Some (Some NULL, s)
      else with_zone_lock zid (get_free_pages_locked zid count flag) s)"

definition get_free_pages :: "int \<Rightarrow> u32 \<Rightarrow> mstate \<Rightarrow> (u32 option \<times> mstate) option" where
  "get_free_pages count flag s =
     (if count \<le> 0 then Some (Some NULL, s) else get_free_pages_zone count flag s)"

definition get_free_page :: "u32 \<Rightarrow> mstate \<Rightarrow> (u32 option \<times> mstate) option" where
  "get_free_page flag s = get_free_pages 1 flag s"

section \<open>Release\<close>

definition free_pages_locked :: "int \<Rightarrow> int \<Rightarrow> mstate \<Rightarrow> (unit \<times> mstate) option" where
  "free_pages_locked pg zid s = do {
     let index = page_to_page_id pg;
     p \<leftarrow> page_read pg s;
     let count = uint (pg_count p);
     s \<leftarrow> update_memory_bitmap (word_of_int index) count False s;
     z \<leftarrow> get_zone zid s;
     let z = z\<lparr>z_free_size := z_free_size z + word_of_int count * PAGE_SIZE,
               z_free_pages := z_free_pages z + word_of_int count\<rparr>;
     let z = (if bm_current z = word_of_int (index + count) then z\<lparr>bm_current := word_of_int index\<rparr> else z);
     s \<leftarrow> put_zone zid z s;
     s \<leftarrow> zone_unlock zid s;
     Some ((), s)
   }"

definition free_pages :: "u32 \<Rightarrow> mstate \<Rightarrow> (unit option \<times> mstate) option" where
  "free_pages addr s =
     (if \<not> is_aligin addr PAGE_SIZE then Some (Some (), s)
      else do {
        let pg = va_to_page addr s;
        p \<leftarrow> page_read pg s;
        if pg_flag p AND GFP_PAGE_HEADER \<noteq> 0 then do {
          let zid = gfp_zone_id (pg_flag p);
          z \<leftarrow> get_zone zid s;
          with_zone_lock zid (free_pages_locked pg zid) s
        }
        else Some (Some (), s)
      })"

definition page_put :: "int \<Rightarrow> mstate \<Rightarrow> (unit option \<times> mstate) option" where
  "page_put pg s = do {
     p \<leftarrow> page_read pg s;
     let p = p\<lparr>pg_usage := pg_usage p - 1\<rparr>;
     s \<leftarrow> page_write pg p s;
     if pg_usage p = 0 then free_pages (page_to_va pg s) s else Some (Some (), s)
   }"

section \<open>Allocation at an offset in a megabyte\<close>

text \<open>The inner loop of \<^verbatim>\<open>get_free_page_aligin\<close>: the first free page or the end.\<close>

partial_function (option) scan_megabytes ::
  "u32 \<Rightarrow> u32 \<Rightarrow> int \<Rightarrow> mstate \<Rightarrow> int option option" where
  "scan_megabytes j e offset s =
     (if j < e then do {
        let i = va_to_page_id j s + offset;
        b \<leftarrow> page_state i s;
        if b = 0 then Some (Some i) else scan_megabytes (j + SIZE_1M) e offset s
      } else Some None)"

fun scan_aligin :: "nat \<Rightarrow> int \<Rightarrow> mm_zone \<Rightarrow> int \<Rightarrow> mstate \<Rightarrow> int option" where
  "scan_aligin 0 i z offset s = Some 0"
| "scan_aligin (Suc n) i z offset s = do {
     sc \<leftarrow> lget (memory_section z) i;
     r \<leftarrow> scan_megabytes (vir_start sc) (vir_start sc + sec_size sc) offset s;
     case r of Some k \<Rightarrow> Some k | None \<Rightarrow> scan_aligin n (i + 1) z offset s
   }"

definition get_free_page_aligin_locked :: "int \<Rightarrow> int \<Rightarrow> u32 \<Rightarrow> mstate \<Rightarrow> (u32 \<times> mstate) option" where
  "get_free_page_aligin_locked zid offset flag s = do {
     z \<leftarrow> get_zone zid s;
     i \<leftarrow> scan_aligin (nat (nr_section z)) 0 z offset s;
     if i \<noteq> 0 then do {
       s \<leftarrow> update_memory_bitmap (word_of_int i) 1 True s;
       s \<leftarrow> put_zone zid (z\<lparr>z_free_size := z_free_size z - PAGE_SIZE, z_free_pages := z_free_pages z - 1\<rparr>) s;
       s \<leftarrow> zone_unlock zid s;
       (pg, s) \<leftarrow> init_pages (word_of_int i) 1 flag s;
       Some (page_to_va pg s, s)
     }
     else do { s \<leftarrow> zone_unlock zid s; Some (NULL, s) }
   }"

definition get_free_page_aligin :: "u32 \<Rightarrow> u32 \<Rightarrow> mstate \<Rightarrow> (u32 option \<times> mstate) option" where
  "get_free_page_aligin aligin flag s =
     (let offset = uint (drop_bit PAGE_SHIFT (aligin AND 0x000fffff)); zid = gfp_zone_id flag in
      if zid \<ge> MM_ZONE_UNKNOW then Some (Some NULL, s)
      else with_zone_lock zid (get_free_page_aligin_locked zid offset flag) s)"

end
