(* ===== verification/MmFind.thy ===== *)
theory MmFind
  imports Mm
begin

text \<open>
  Address conversion and the search for free pages: \<open>pick_pages\<close> is what
  \<^verbatim>\<open>find_continous_pages\<close> computes, in terms of the list of free pages.
\<close>

section \<open>Page numbers and addresses\<close>

lemma uint_drop_push_page:
  assumes "0 \<le> pg" "pg < 2 ^ 20"
  shows "uint (drop_bit 12 (push_bit 12 (word_of_int pg) :: u32)) = pg"
proof -
  have "pg * 4096 < 2 ^ 32" using assms by simp
  then have "uint (push_bit 12 (word_of_int pg) :: u32) = pg * 4096"
    using assms by (simp add: push_bit_eq_mult uint_word_ariths uint_word_of_int)
  then show ?thesis by (simp add: drop_bit_eq_div uint_div)
qed

lemma va_to_page_to_va: "0 \<le> pg \<Longrightarrow> pg < 2 ^ 20 \<Longrightarrow> va_to_page (page_to_va pg s) s = pg"
  by (simp add: va_to_page_def page_to_va_def page_id_to_va_def page_to_page_id_def get_page_def
      uint_drop_push_page)

lemma push_drop_page: "is_aligin x PAGE_SIZE \<Longrightarrow> push_bit 12 (drop_bit 12 x) = x" for x :: u32
proof -
  assume "is_aligin x PAGE_SIZE"
  then have "x AND mask 12 = 0" by (simp add: is_aligin_def mask_eq_exp_minus_1)
  then have "take_bit 12 x = 0" by (simp add: take_bit_eq_mask)
  then show ?thesis using bits_ident [of 12 x] by simp
qed

lemma page_to_va_of_va:
  assumes "is_aligin (va - kernel_start s) PAGE_SIZE"
  shows "page_to_va (va_to_page va s) s = va"
  using push_drop_page [OF assms]
  by (simp add: va_to_page_def page_to_va_def page_id_to_va_def page_to_page_id_def get_page_def)

lemma page_to_va_aligin:
  assumes "is_aligin (kernel_start s) PAGE_SIZE"
  shows "is_aligin (page_to_va pg s) PAGE_SIZE"
proof -
  have "is_aligin (push_bit 12 (word_of_int pg :: u32)) (2 ^ 12)"
    using is_aligin_mult [of 12 "word_of_int pg"] by (simp add: push_bit_eq_mult)
  then show ?thesis
    using is_aligin_add [of "kernel_start s" 12 "push_bit 12 (word_of_int pg)"] assms
    by (simp add: page_to_va_def page_id_to_va_def page_to_page_id_def)
qed

section \<open>The search\<close>

definition free_in :: "u32 list \<Rightarrow> int \<Rightarrow> int \<Rightarrow> int list" where
  "free_in pm a b = filter (\<lambda>i. \<not> bm_bit pm i) [a..b]"

definition pick_pages :: "u32 list \<Rightarrow> mm_zone \<Rightarrow> int \<Rightarrow> u32" where
  "pick_pages pm z count =
     (let f1 = free_in pm (uint (bm_current z)) (uint (bm_end z));
          f2 = free_in pm (uint (bm_start z)) (uint (bm_current z))
      in if count \<le> int (length f1) then word_of_int (f1 ! nat (count - 1) - count + 1)
         else if count \<le> int (length f2) then word_of_int (f2 ! nat (count - 1) - count + 1)
         else 0)"

lemma free_in_Cons:
  "a \<le> b \<Longrightarrow> free_in pm a b = (if bm_bit pm a then free_in pm (a + 1) b else a # free_in pm (a + 1) b)"
  by (simp add: free_in_def upto_rec1)

lemma free_in_empty [simp]: "b < a \<Longrightarrow> free_in pm a b = []"
  by (simp add: free_in_def)

lemma set_free_in: "i \<in> set (free_in pm a b) \<longleftrightarrow> a \<le> i \<and> i \<le> b \<and> \<not> bm_bit pm i"
  by (auto simp: free_in_def)

lemma word_eq_uint: "0 \<le> i \<Longrightarrow> i < 2 ^ 32 \<Longrightarrow> word_of_int i = w \<longleftrightarrow> i = uint w" for w :: u32
  by (simp add: word_uint_eq_iff uint_word_of_int)

lemma loop_unfold:
  assumes "0 \<le> i" "i < bm_size pm" "bm_size pm \<le> 2 ^ 31"
  shows "find_continous_loop pm z count i again acc =
    (let acc = (if bm_bit pm i then acc else acc + 1) in
     if \<not> bm_bit pm i \<and> acc = count then Some (word_of_int (i - count + 1))
     else let (again, acc, i) = (if i = uint (bm_end z) then (True, 0, sint (bm_start z - 1)) else (again, acc, i)) in
       if again \<and> word_of_int i = bm_current z then Some 0
       else find_continous_loop pm z count (i + 1) again acc)"
  using assms
  by (subst find_continous_loop.simps) (simp add: os_bits.rd word_eq_uint Let_def)

text \<open>A stretch of the map without a turning point.\<close>

lemma loop_run:
  assumes "0 \<le> a" "b \<le> bm_size pm" "bm_size pm \<le> 2 ^ 31" "a \<le> b" "acc < count"
    and "\<And>i. a \<le> i \<Longrightarrow> i < b \<Longrightarrow> i \<noteq> uint (bm_end z) \<and> \<not> (again \<and> i = uint (bm_current z))"
  shows "find_continous_loop pm z count a again acc =
    (let f = free_in pm a (b - 1) in
     if count - acc \<le> int (length f) then Some (word_of_int (f ! nat (count - acc - 1) - count + 1))
     else find_continous_loop pm z count b again (acc + int (length f)))"
  using assms
proof (induction "nat (b - a)" arbitrary: a acc)
  case 0
  then show ?case by simp
next
  case (Suc n)
  then have ab: "a < b" by simp
  have turn: "a \<noteq> uint (bm_end z)" "\<not> (again \<and> word_of_int a = bm_current z)"
    using Suc.prems(6) [of a] ab Suc.prems(1-3) by (auto simp: word_eq_uint)
  let ?acc = "if bm_bit pm a then acc else acc + 1"
  show ?case
  proof (cases "\<not> bm_bit pm a \<and> ?acc = count")
    case True
    then have "find_continous_loop pm z count a again acc = Some (word_of_int (a - count + 1))"
      using Suc.prems ab by (subst loop_unfold) (auto simp: Let_def)
    with True ab show ?thesis by (auto simp: free_in_Cons)
  next
    case False
    then have step: "find_continous_loop pm z count a again acc = find_continous_loop pm z count (a + 1) again ?acc"
      using Suc.prems ab turn by (subst loop_unfold) (auto simp: Let_def)
    let ?f = "free_in pm (a + 1) (b - 1)"
    have IH: "find_continous_loop pm z count (a + 1) again ?acc =
      (if count - ?acc \<le> int (length ?f) then Some (word_of_int (?f ! nat (count - ?acc - 1) - count + 1))
       else find_continous_loop pm z count b again (?acc + int (length ?f)))"
      using Suc.hyps(1) [of "a + 1" ?acc] Suc.hyps(2) Suc.prems False ab by (simp add: Let_def split: if_splits)
    show ?thesis
    proof (cases "bm_bit pm a")
      case True
      with step IH ab show ?thesis by (simp add: free_in_Cons)
    next
      case bit: False
      then have "nat (count - acc - 1) = Suc (nat (count - (acc + 1) - 1))"
        using False Suc.prems(5) by auto
      with step IH ab bit show ?thesis by (auto simp: free_in_Cons algebra_simps)
    qed
  qed
qed

definition zone_wf :: "u32 list \<Rightarrow> mm_zone \<Rightarrow> bool" where
  "zone_wf pm z \<longleftrightarrow> bm_start z \<le> bm_current z \<and> bm_current z \<le> bm_end z \<and>
     uint (bm_end z) < bm_size pm \<and> bm_size pm \<le> 2 ^ 31"

lemma free_in_last:
  "a \<le> b \<Longrightarrow> free_in pm a b = free_in pm a (b - 1) @ (if bm_bit pm b then [] else [b])"
  by (simp add: free_in_def upto_rec2)

text \<open>The last page of a stretch: the loop returns there, or turns.\<close>

lemma loop_pass:
  assumes "0 \<le> a" "a \<le> b" "b < bm_size pm" "bm_size pm \<le> 2 ^ 31" "0 < count"
    and stop: "\<And>i. a \<le> i \<Longrightarrow> i < b \<Longrightarrow> i \<noteq> uint (bm_end z) \<and> \<not> (again \<and> i = uint (bm_current z))"
  shows "find_continous_loop pm z count a again 0 =
    (let f = free_in pm a b in
     if count \<le> int (length f) then Some (word_of_int (f ! nat (count - 1) - count + 1))
     else let (again, acc, i) = (if b = uint (bm_end z) then (True, 0, sint (bm_start z - 1)) else (again, int (length f), b)) in
       if again \<and> word_of_int i = bm_current z then Some 0
       else find_continous_loop pm z count (i + 1) again acc)"
proof -
  let ?f = "free_in pm a (b - 1)"
  have run: "find_continous_loop pm z count a again 0 =
     (if count \<le> int (length ?f) then Some (word_of_int (?f ! nat (count - 1) - count + 1))
      else find_continous_loop pm z count b again (int (length ?f)))"
    using loop_run [of a b pm 0 count z again] assms by simp
  have last: "free_in pm a b = ?f @ (if bm_bit pm b then [] else [b])"
    by (rule free_in_last [OF assms(2)])
  show ?thesis
  proof (cases "count \<le> int (length ?f)")
    case True
    then have "nat (count - 1) < length ?f" using assms(5) by linarith
    with run last True show ?thesis by (simp add: Let_def nth_append)
  next
    case False
    have b: "0 \<le> b" using assms(1,2) by simp
    let ?acc = "int (length ?f)"
    show ?thesis
    proof (cases "bm_bit pm b")
      case True
      then have "free_in pm a b = ?f" using last by simp
      with True False run loop_unfold [OF b assms(3,4), of z count again ?acc] show ?thesis by (simp add: Let_def)
    next
      case bit: False
      then have f: "free_in pm a b = ?f @ [b]" using last by simp
      have l: "find_continous_loop pm z count a again 0 = find_continous_loop pm z count b again ?acc"
        using run False by simp
      show ?thesis
      proof (cases "?acc + 1 = count")
        case True
        then have "nat (count - 1) = length ?f" by simp
        with l bit True loop_unfold [OF b assms(3,4), of z count again ?acc] show ?thesis
          by (simp add: Let_def f)
      next
        case neq: False
        with False have "\<not> count \<le> int (length (?f @ [b]))" by simp
        with l bit neq loop_unfold [OF b assms(3,4), of z count again ?acc] show ?thesis
          by (simp add: Let_def f add.commute)
      qed
    qed
  qed
qed

lemma find_continous_pick:
  assumes wf: "zone_wf (page_map s) z" and count: "0 < count"
    and ends: "bm_current z < bm_end z \<or> count \<le> int (length (free_in (page_map s) (uint (bm_start z)) (uint (bm_current z))))"
  shows "find_continous_pages z count s = Some (pick_pages (page_map s) z count)"
proof -
  let ?pm = "page_map s"
  let ?c = "uint (bm_current z)" and ?e = "uint (bm_end z)" and ?b = "uint (bm_start z)"
  have u: "?b \<le> ?c" "?c \<le> ?e" "?e < bm_size ?pm" "bm_size ?pm \<le> 2 ^ 31" "0 \<le> ?b"
    using wf by (simp_all add: zone_wf_def word_le_def)
  have sc: "sint (bm_current z) = ?c"
    using u by (intro sint_uint_u32) simp
  have sb: "sint (bm_start z - 1) + 1 = ?b"
    using u by (intro sint_pred_u32) simp
  have nb: "bm_start z - 1 \<noteq> bm_current z"
  proof
    assume "bm_start z - 1 = bm_current z"
    then show False using sb sc u(1) by simp
  qed
  have first: "find_continous_pages z count s =
      (let f = free_in ?pm ?c ?e in
       if count \<le> int (length f) then Some (word_of_int (f ! nat (count - 1) - count + 1))
       else find_continous_loop ?pm z count ?b True 0)"
    unfolding find_continous_pages_def sc
    using loop_pass [of ?c ?e ?pm count z False] u count sb nb by (simp add: Let_def)
  have "find_continous_loop ?pm z count ?b True 0 =
      (let f = free_in ?pm ?b ?c in
       if count \<le> int (length f) then Some (word_of_int (f ! nat (count - 1) - count + 1)) else Some 0)"
    using loop_pass [of ?b ?c ?pm count z True] u count ends by (auto simp: Let_def word_less_def)
  with first show ?thesis by (simp add: pick_pages_def Let_def)
qed

text \<open>At the end of the zone with too few free pages in it the search goes round for ever.\<close>

definition goes_round :: "u32 list \<Rightarrow> mm_zone \<Rightarrow> int \<Rightarrow> int \<Rightarrow> int \<Rightarrow> bool" where
  "goes_round pm z count i acc \<longleftrightarrow> zone_wf pm z \<and> bm_current z = bm_end z \<and> uint (bm_start z) \<le> i \<and> i \<le> uint (bm_end z) \<and>
     acc + int (length (free_in pm i (uint (bm_end z)))) < count \<and>
     int (length (free_in pm (uint (bm_start z)) (uint (bm_end z)))) < count"

lemma goes_round_step:
  assumes g: "goes_round pm z count i acc"
  shows "\<exists>i' again' acc'. goes_round pm z count i' acc' \<and>
    (\<forall>f. (do { b \<leftarrow> os_read_bit pm i;
       let acc = (if b = 0 then acc + 1 else acc);
       if b = 0 \<and> acc = count then Some (word_of_int (i - count + 1))
       else do {
         let (again, acc, i) = (if word_of_int i = bm_end z then (True, 0, sint (bm_start z - 1)) else (again, acc, i));
         if again \<and> word_of_int i = bm_current z then Some (0 :: u32) else f pm z count (i + 1) again acc } }) =
     f pm z count i' again' acc')"
proof -
  let ?e = "uint (bm_end z)" and ?b = "uint (bm_start z)" and ?acc = "if bm_bit pm i then acc else acc + 1"
  have w: "?b \<le> ?e" "?b \<le> i" "i \<le> ?e" "?e < bm_size pm" "bm_size pm \<le> 2 ^ 31" "bm_current z = bm_end z"
    "acc + int (length (free_in pm i ?e)) < count" "int (length (free_in pm ?b ?e)) < count"
    using g by (simp_all add: goes_round_def zone_wf_def word_le_def)
  have i0: "0 \<le> i" "i < bm_size pm" using w order.trans [OF uint_ge_0 w(2)] by simp_all
  have rd: "os_read_bit pm i = Some (of_bool (bm_bit pm i))" using i0 w(5) by (simp add: os_bits.rd)
  have le: "?acc < count" "?acc + int (length (free_in pm (i + 1) ?e)) < count" using w(3,7) by (simp_all add: free_in_Cons split: if_splits)
  have sb: "sint (bm_start z - 1) + 1 = ?b" using w by (intro sint_pred_u32) simp
  show ?thesis
  proof (cases "i = ?e")
    case True
    have "sint (bm_end z) = ?e" using w by (intro sint_uint_u32) simp
    then have "bm_start z - 1 \<noteq> bm_end z" using sb w(1) by auto
    moreover have "goes_round pm z count ?b 0" using g w by (simp add: goes_round_def)
    ultimately show ?thesis
      using rd le True sb w(6) by (intro exI [of _ ?b] exI [of _ True] exI [of _ 0]) (auto simp: Let_def)
  next
    case False
    then have "word_of_int i \<noteq> bm_end z" using i0 w(5) by (simp add: word_eq_uint)
    moreover have "goes_round pm z count (i + 1) ?acc" using g le(2) w False by (simp add: goes_round_def)
    ultimately show ?thesis
      using rd le w(6) by (intro exI [of _ "i + 1"] exI [of _ again] exI [of _ ?acc]) (auto simp: Let_def)
  qed
qed

lemma loop_for_ever:
  assumes "find_continous_loop pm z count i again acc = Some r"
  shows "\<not> goes_round pm z count i acc"
proof (rule find_continous_loop.raw_induct [OF _ assms, where P = "\<lambda>pm z count i again acc r. \<not> goes_round pm z count i acc"], rule notI)
  fix f :: "u32 list \<Rightarrow> mm_zone \<Rightarrow> int \<Rightarrow> int \<Rightarrow> bool \<Rightarrow> int \<Rightarrow> u32 option" and pm z count i again acc r
  assume IH: "\<And>pm z count i again acc r. f pm z count i again acc = Some r \<Longrightarrow> \<not> goes_round pm z count i acc"
  assume g: "goes_round pm z count i acc"
  assume b: "(do { b \<leftarrow> os_read_bit pm i;
       let acc = (if b = 0 then acc + 1 else acc);
       if b = 0 \<and> acc = count then Some (word_of_int (i - count + 1))
       else do {
         let (again, acc, i) = (if word_of_int i = bm_end z then (True, 0, sint (bm_start z - 1)) else (again, acc, i));
         if again \<and> word_of_int i = bm_current z then Some 0 else f pm z count (i + 1) again acc } }) = Some r"
  obtain i' again' acc' where "goes_round pm z count i' acc'" "f pm z count i' again' acc' = Some r"
    using goes_round_step [OF g, of again] b by metis
  with IH show False by blast
qed

lemma find_continous_none:
  assumes wf: "zone_wf (page_map s) z" and cur: "bm_current z = bm_end z"
    and few: "int (length (free_in (page_map s) (uint (bm_start z)) (uint (bm_end z)))) < count"
  shows "find_continous_pages z count s = None"
proof -
  let ?pm = "page_map s" and ?e = "uint (bm_end z)" and ?b = "uint (bm_start z)"
  have u: "?b \<le> ?e" "?e < bm_size ?pm" "bm_size ?pm \<le> 2 ^ 31" using wf cur by (simp_all add: zone_wf_def word_le_def)
  have sc: "sint (bm_current z) = ?e" using u cur by (simp add: sint_uint_u32)
  have "length (free_in ?pm ?e ?e) \<le> length (free_in ?pm ?b ?e)" using free_in_last [OF u(1), of ?pm] by (simp add: free_in_last [of ?e ?e])
  then have "goes_round ?pm z count ?e 0" using wf cur few u by (simp add: goes_round_def)
  then show ?thesis using loop_for_ever [of ?pm z count ?e False 0] sc unfolding find_continous_pages_def by fastforce
qed

end
