(* ===== verification/MmAlloc.thy ===== *)
theory MmAlloc
  imports MmFind
begin

text \<open>
  The effect of allocating and of releasing pages.  \<open>pages_taken\<close> and \<open>pages_freed\<close> are the abstract
  operations on the bit map, the counters of the zone and the array of pages.
\<close>

section \<open>Sections\<close>

definition sections_of :: "mm_zone \<Rightarrow> mm_section list" where
  "sections_of z = take (nat (nr_section z)) (memory_section z)"

definition sections_wf :: "mm_zone list \<Rightarrow> bool" where
  "sections_wf zs \<longleftrightarrow> (\<forall>z \<in> set zs. nr_section z \<le> int (length (memory_section z)))"

lemma scan_sections_find:
  "0 \<le> j \<Longrightarrow> nat j + n \<le> length (memory_section z) \<Longrightarrow>
   scan_sections P n j z = Some (List.find P (take n (drop (nat j) (memory_section z))))"
proof (induction n arbitrary: j)
  case (Suc n)
  then have "drop (nat j) (memory_section z) = memory_section z ! nat j # drop (Suc (nat j)) (memory_section z)"
    by (intro Cons_nth_drop_Suc [symmetric]) simp
  moreover have "nat (j + 1) = Suc (nat j)" using Suc.prems(1) by simp
  ultimately show ?case using Suc by simp
qed simp

lemma find_append: "List.find P (xs @ ys) = (case List.find P xs of None \<Rightarrow> List.find P ys | Some x \<Rightarrow> Some x)"
  by (induction xs) auto

lemma scan_zones_find:
  "sections_wf zs \<Longrightarrow> scan_zones P zs = Some (List.find P (concat (map sections_of zs)))"
proof (induction zs)
  case (Cons z zs)
  then have "nr_section z \<le> int (length (memory_section z))" by (simp add: sections_wf_def)
  then have "nat (nr_section z) \<le> length (memory_section z)" by linarith
  with Cons show ?case
    by (simp add: scan_sections_find sections_of_def find_append sections_wf_def split: option.split)
qed (simp add: sections_wf_def)

text \<open>The offset the code finds for a virtual address.\<close>

definition pv_of :: "mm_zone list \<Rightarrow> u32 \<Rightarrow> u32" where
  "pv_of zs va =
     (case List.find (\<lambda>sc. vir_start sc \<le> va \<and> va \<le> vir_start sc + sec_size sc) (concat (map sections_of zs))
      of None \<Rightarrow> 0 | Some sc \<Rightarrow> pv_offset sc)"

lemma va_get_pv_offset_eq: "sections_wf (zone (bank s)) \<Longrightarrow> va_get_pv_offset va s = Some (pv_of (zone (bank s)) va)"
  by (simp add: va_get_pv_offset_def scan_zones_find pv_of_def)

section \<open>Initialising the pages of an allocation\<close>

lemma page_read_write: "page_write pg p s = Some s' \<Longrightarrow> page_read i s' = (if i = pg then Some p else page_read i s)"
  by (auto simp: page_write_def page_read_def bind_eq_Some lget_lput)

lemma page_write_sel:
  assumes "page_write pg p s = Some s'"
  shows "ks s' = ks s" "bank s' = bank s" "page_map s' = page_map s" "kernel_start s' = kernel_start s"
    "length (page_table s') = length (page_table s)"
  using assms by (auto simp: page_write_def bind_eq_Some dest: lput_length)

lemma page_in: "0 \<le> i \<Longrightarrow> i < int (length (page_table s)) \<Longrightarrow> page_read i s = Some (page_table s ! nat i)"
  by (simp add: page_read_def)

lemma page_write_in:
  "0 \<le> i \<Longrightarrow> i < int (length (page_table s)) \<Longrightarrow> page_write i p s = Some (s\<lparr>page_table := (page_table s)[nat i := p]\<rparr>)"
  by (simp add: page_write_def)

definition new_page :: "mstate \<Rightarrow> int \<Rightarrow> int \<Rightarrow> u32 \<Rightarrow> int \<Rightarrow> page" where
  "new_page s idx count flag i =
     \<lparr>phy_address = page_to_va i s - pv_of (zone (bank s)) (page_to_va i s),
      pg_flag = flag OR GFP_PAGE_HEADER, pg_free_base = page_to_va i s, pg_free_size = 4096,
      pg_count = (if i = idx then word_of_int count else word_of_int i), pg_usage = 1\<rparr>"

definition page_nodes :: "int \<Rightarrow> int \<Rightarrow> node set" where
  "page_nodes a b = (\<lambda>i. N_page (word_of_int i)) ` {a..<b}"

definition with_nodes :: "node set \<Rightarrow> node lists \<Rightarrow> node lists" where
  "with_nodes N F = (\<lambda>n. if n \<in> N then Some [] else F n)"

lemma with_nodes_empty [simp]: "with_nodes {} F = F"
  by (simp add: with_nodes_def)

lemma with_nodes_insert: "with_nodes (insert n N) F = (with_nodes N F)(n \<mapsto> [])"
  by (auto simp: with_nodes_def)

lemma page_nodes_empty [simp]: "page_nodes a a = {}"
  by (simp add: page_nodes_def)

lemma page_nodes_step: "a \<le> k \<Longrightarrow> page_nodes a (k + 1) = insert (N_page (word_of_int k)) (page_nodes a k)"
proof -
  assume "a \<le> k"
  then have "{a..<k + 1} = insert k {a..<k}" by auto
  then show ?thesis by (simp add: page_nodes_def)
qed

text \<open>A page whose list head is in no list of the kernel.\<close>

definition page_idle :: "node lists \<Rightarrow> int \<Rightarrow> bool" where
  "page_idle F i \<longleftrightarrow> F (N_page (word_of_int i)) \<in> {None, Some []} \<and>
     (\<forall>r xs. F r = Some xs \<longrightarrow> N_page (word_of_int i) \<notin> set xs)"

lemma page_idle_with_nodes: "page_idle F i \<Longrightarrow> page_idle (with_nodes N F) i"
  by (auto simp: page_idle_def with_nodes_def split: if_splits)

lemma foreign_page [simp]: "foreign (N_page p)"
  by (simp add: foreign_def sched_heads_def)

lemma init_list_self: "lnext h n = n \<Longrightarrow> lpre h n = n \<Longrightarrow> init_list n h = h" for h :: "'n lheap"
  by (cases h) (simp add: init_list_def set_next_def set_pre_def fun_upd_idem Let_def)

lemma kinv_init_node:
  assumes k: "kinv F s" and p: "page_idle F i"
  shows "kinv (F(N_page (word_of_int i) \<mapsto> [])) (on_lists (init_list (N_page (word_of_int i))) s)"
proof (rule kinv_foreign [OF k])
  let ?n = "N_page (word_of_int i)"
  show "list_rel (init_list ?n (lists s)) (F(?n \<mapsto> []))"
  proof (cases "F ?n")
    case None
    with p have "fresh F ?n" by (simp add: page_idle_def fresh_def)
    then show ?thesis by (rule os_list.rel_init [OF kinv_rel [OF k]])
  next
    case (Some xs)
    with p have xs: "F ?n = Some []" by (simp add: page_idle_def)
    then have "dlist (lists s) ?n []" by (rule list_rel_dlist [OF kinv_rel [OF k]])
    then have "init_list ?n (lists s) = lists s" by (intro init_list_self) (simp_all add: dlist_def)
    with xs show ?thesis using kinv_rel [OF k] by (simp add: fun_upd_idem)
  qed
qed simp_all

definition ks_lists :: "kstate \<Rightarrow> kstate \<Rightarrow> bool" where
  "ks_lists k k' \<longleftrightarrow> k' = k\<lparr>lists := lists k'\<rparr>"

lemma ks_lists_refl [simp]: "ks_lists k k"
  by (simp add: ks_lists_def)

lemma ks_lists_on: "ks_lists k k' \<Longrightarrow> ks_lists k (on_lists f k')"
  by (cases k; cases k') (simp add: ks_lists_def on_lists_def)

lemma ks_lists_sel:
  assumes "ks_lists k k'"
  shows "mutex_count k' = mutex_count k" "current k' = current k" "task k' = task k" "cpsr k' = cpsr k"
  using assms by (cases k; cases k'; simp add: ks_lists_def)+

text \<open>One round of the loop, and the loop.\<close>

definition pages_new :: "int \<Rightarrow> int \<Rightarrow> u32 \<Rightarrow> int \<Rightarrow> node lists \<Rightarrow> mstate \<Rightarrow> mstate \<Rightarrow> bool" where
  "pages_new idx count flag k F s s' \<longleftrightarrow>
     bank s' = bank s \<and> page_map s' = page_map s \<and> kernel_start s' = kernel_start s \<and>
     length (page_table s') = length (page_table s) \<and>
     (\<forall>i. page_read i s' = (if idx \<le> i \<and> i < k then Some (new_page s idx count flag i) else page_read i s)) \<and>
     ks_lists (ks s) (ks s') \<and> kinv (with_nodes (page_nodes idx k) F) (ks s')"

lemma page_to_va_cong: "kernel_start s' = kernel_start s \<Longrightarrow> page_to_va i s' = page_to_va i s"
  by (simp add: page_to_va_def page_id_to_va_def)

lemma init_page_step:
  assumes wf: "sections_wf (zone (bank s))" and idx: "0 \<le> idx" "idx < 2 ^ 32"
    and i: "idx \<le> i" "i < int (length (page_table s))" and idle: "page_idle F i"
    and t: "pages_new idx count flag i F s t"
  shows "\<exists>t'. init_page (word_of_int idx) count i (if i = idx then flag else flag OR GFP_PAGE_HEADER, t) =
      Some (flag OR GFP_PAGE_HEADER, t') \<and> pages_new idx count flag (i + 1) F s t'"
proof -
  let ?n = "N_page (word_of_int i)"
  let ?t1 = "on_ks (on_lists (init_list ?n)) t"
  let ?p = "(new_page s idx count flag i)\<lparr>pg_usage := 0\<rparr>"
  have ui: "uint (word_of_int idx :: u32) = idx" using idx by (simp add: uint_word_of_int)
  have eq: "bank t = bank s" "kernel_start t = kernel_start s" "length (page_table t) = length (page_table s)"
    using t by (simp_all add: pages_new_def)
  have r: "0 \<le> i" "i < int (length (page_table t))" using i idx eq by simp_all
  have t1: "bank ?t1 = bank t" "page_table ?t1 = page_table t" "kernel_start ?t1 = kernel_start t" "page_map ?t1 = page_map t"
    "ks ?t1 = on_lists (init_list ?n) (ks t)"
    by (simp_all add: on_ks_def)
  obtain t2 where t2: "page_write i ?p ?t1 = Some t2"
    using page_write_in [of i ?t1] r t1(2) by simp
  have r2: "0 \<le> i" "i < int (length (page_table t2))" using r page_write_sel(5) [OF t2] t1(2) by simp_all
  obtain t3 where t3: "page_write i (new_page s idx count flag i) t2 = Some t3"
    using page_write_in [of i t2] r2 by simp
  have "page_read i t2 = Some ?p" using page_read_write [OF t2] by simp
  then have get: "page_get i t2 = Some t3"
    using t3 by (simp add: page_get_def new_page_def)
  have "init_page (word_of_int idx) count i (if i = idx then flag else flag OR GFP_PAGE_HEADER, t) =
      Some (flag OR GFP_PAGE_HEADER, t3)"
    using page_in [OF r] va_get_pv_offset_eq [of t] wf t2 get ui
    by (cases "page_table t ! nat i"; cases "i = idx") (simp_all add: init_page_def get_page_def eq(1) page_to_va_cong [OF eq(2)] new_page_def Let_def)
  moreover have "pages_new idx count flag (i + 1) F s t3"
  proof -
    have "kinv ((with_nodes (page_nodes idx i) F)(?n \<mapsto> [])) (on_lists (init_list ?n) (ks t))"
      using t idle by (intro kinv_init_node page_idle_with_nodes) (simp_all add: pages_new_def)
    moreover have "page_read j t3 = (if idx \<le> j \<and> j < i + 1 then Some (new_page s idx count flag j) else page_read j s)" for j
      using page_read_write [OF t3, of j] page_read_write [OF t2, of j] t i(1) t1(2)
      by (auto simp: pages_new_def page_read_def)
    ultimately show ?thesis
      using t i(1) page_write_sel [OF t3] page_write_sel [OF t2] t1
      by (simp add: pages_new_def page_nodes_step with_nodes_insert ks_lists_on)
  qed
  ultimately show ?thesis by blast
qed

lemma init_pages_spec:
  assumes wf: "sections_wf (zone (bank s))" and k: "kinv F (ks s)"
    and idx: "0 \<le> idx" "0 < count" "idx + count \<le> int (length (page_table s))" "idx + count < 2 ^ 32"
    and idle: "\<And>i. idx \<le> i \<Longrightarrow> i < idx + count \<Longrightarrow> page_idle F i"
  shows "\<exists>s'. init_pages (word_of_int idx) count flag s = Some (idx, s') \<and>
    pages_new idx count flag (idx + count) F s s'"
proof -
  let ?P = "\<lambda>i (fl, t). fl = (if i = idx then flag else flag OR GFP_PAGE_HEADER) \<and> pages_new idx count flag i F s t"
  have base: "?P idx (flag, s)" using k by (auto simp: pages_new_def)
  have step: "\<exists>t'. init_page (word_of_int idx) count i t = Some t' \<and> ?P (i + 1) t'"
    if i: "idx \<le> i" "i < idx + count" and t: "?P i t" for i t
  proof -
    obtain fl u where fl: "t = (fl, u)" "fl = (if i = idx then flag else flag OR GFP_PAGE_HEADER)"
      "pages_new idx count flag i F s u" using t by (cases t) auto
    have "idx < 2 ^ 32" "i < int (length (page_table s))" using idx i by linarith+
    from init_page_step [OF wf idx(1) this(1) i(1) this(2) idle [OF i] fl(3)] i(1) show ?thesis
      unfolding fl(1) fl(2) by auto
  qed
  have u: "uint (word_of_int idx :: u32) = idx" "uint (word_of_int idx + word_of_int count :: u32) = idx + count"
    using idx by (simp_all add: uint_word_of_int flip: of_int_add)
  obtain t' where "for_loop idx (idx + count) (init_page (word_of_int idx) count) (flag, s) = Some t'" "?P (idx + count) t'"
    using for_loop_inv [of ?P idx "(flag, s)" "idx + count" "init_page (word_of_int idx) count", OF base _ step] idx(2) by auto
  then show ?thesis unfolding init_pages_def u by (cases t') (auto simp: get_page_def)
qed


section \<open>The zone lock\<close>

definition ks_quiet :: "kstate \<Rightarrow> kstate \<Rightarrow> bool" where
  "ks_quiet k k' \<longleftrightarrow> mutex_count k' = mutex_count k \<and> mutex_frame k k' \<and> task k' = task k"

lemma ks_quiet_trans: "ks_quiet k k' \<Longrightarrow> ks_quiet k' k'' \<Longrightarrow> ks_quiet k k''"
  by (cases k; cases k'; cases k'') (auto simp: ks_quiet_def mutex_frame_def woken_def)

lemma ks_lists_quiet: "ks_lists k k' \<Longrightarrow> ks_quiet k k'"
  by (cases k; cases k') (auto simp: ks_quiet_def mutex_frame_def woken_def ks_lists_def)

lemma mutex_free_cong:
  "mutex_count k' = mutex_count k \<Longrightarrow> current k' = current k \<Longrightarrow> mutex_free m F k' \<longleftrightarrow> mutex_free m F k"
  by (simp add: mutex_free_def)

lemma mutex_free_nodes:
  assumes "mutex_free m F k"
  shows "mutex_free m (with_nodes (page_nodes a b) F) k"
  using assms by (auto simp: mutex_free_def with_nodes_def page_nodes_def fresh_def split: if_splits)

lemma mutex_free_quiet: "ks_quiet k k' \<Longrightarrow> mutex_free m F k' \<longleftrightarrow> mutex_free m F k"
  by (rule mutex_free_cong) (auto simp: ks_quiet_def dest: mutex_frame_sel)

lemma zone_lock:
  assumes k: "kinv F k" and free: "mutex_free m F k"
  obtains k1 k2 where "mutex_lock m k = Some (Lock_return 0, k1)" "mutex_unlock m k1 = Some k2"
    "kinv F k2" "ks_quiet k k2"
proof -
  obtain k1 where k1: "mutex_lock_timeout m (-1) k = Some (Lock_return 0, k1)" "mutex_frame k k1"
    and un: "\<And>s2 :: kstate. lists s2 = lists k1 \<Longrightarrow> os_sched_count s2 = os_sched_count k1 \<Longrightarrow>
      sched_list_count s2 = sched_list_count k1 \<Longrightarrow> idle s2 = idle k1 \<Longrightarrow> current s2 = current k1 \<Longrightarrow>
      mutex_count s2 = mutex_count k1 \<Longrightarrow> task s2 = task k1 \<Longrightarrow>
      \<exists>s3. mutex_unlock m s2 = Some s3 \<and> kinv F s3 \<and> mutex_free m F s3 \<and> mutex_frame s2 s3 \<and>
        mutex_count s3 = mutex_count k \<and> task s3 = task k"
    using lock_unlock [OF k free, of "-1"] by blast
  obtain k2 where k2: "mutex_unlock m k1 = Some k2" "kinv F k2" "mutex_frame k1 k2"
    "mutex_count k2 = mutex_count k" "task k2 = task k"
    using un [of k1] by auto
  have "mutex_frame k k2"
    using k1(2) k2(3) by (cases k; cases k1; cases k2) (simp add: mutex_frame_def)
  with that [of k1 k2] k1(1) k2 show thesis by (simp add: mutex_lock_def ks_quiet_def)
qed

section \<open>The allocator's invariant\<close>

definition minv :: "node lists \<Rightarrow> mstate \<Rightarrow> bool" where
  "minv F s \<longleftrightarrow> kinv F (ks s) \<and> (\<forall>i < 4. mutex_free (ZoneMutex i) F (ks s)) \<and>
     length (zone (bank s)) = 4 \<and> sections_wf (zone (bank s)) \<and>
     length (page_table s) \<le> 2 ^ 20 \<and> bm_size (page_map s) \<le> 2 ^ 31 \<and> is_aligin (kernel_start s) PAGE_SIZE"

definition same_bits :: "(int \<Rightarrow> bool) \<Rightarrow> mstate \<Rightarrow> mstate \<Rightarrow> bool" where
  "same_bits P s s' \<longleftrightarrow> bm_size (page_map s') = bm_size (page_map s) \<and>
     (\<forall>i. 0 \<le> i \<longrightarrow> i < bm_size (page_map s) \<longrightarrow> bm_bit (page_map s') i = P i)"

declare same_bits_def [page_ops]

lemma update_memory_bitmap_spec:
  assumes "0 \<le> idx" "0 \<le> count" "idx + count \<le> bm_size (page_map s)" "bm_size (page_map s) \<le> 2 ^ 31"
  shows "\<exists>pm. update_memory_bitmap (word_of_int idx) count update s = Some (s\<lparr>page_map := pm\<rparr>) \<and>
    same_bits (\<lambda>i. if idx \<le> i \<and> i < idx + count then update else bm_bit (page_map s) i) s (s\<lparr>page_map := pm\<rparr>)"
proof -
  have u: "uint (word_of_int idx :: u32) = idx" "uint (word_of_int idx + word_of_int count :: u32) = idx + count"
    using assms by (simp_all add: uint_word_of_int flip: of_int_add)
  have r: "idx \<le> idx + count" "idx + count \<le> 2 ^ 32" using assms by simp_all
  have "\<exists>pm. for_loop idx (idx + count) (\<lambda>i pm. if update then os_set_bit pm i else os_clear_bit pm i) (page_map s) = Some pm \<and>
      bm_size pm = bm_size (page_map s) \<and> (\<forall>i. 0 \<le> i \<longrightarrow> i < bm_size (page_map s) \<longrightarrow>
        bm_bit pm i = (if idx \<le> i \<and> i < idx + count then update else bm_bit (page_map s) i))"
    using os_bits.set_range [OF assms(1) r(1) assms(3) r(2)] os_bits.clear_range [OF assms(1) r(1) assms(3) r(2)]
    by (cases update) fastforce+
  then show ?thesis unfolding update_memory_bitmap_def u by (auto simp: same_bits_def)
qed

lemma get_zone_put: "put_zone zid z s = Some s' \<Longrightarrow> get_zone j s' = (if j = zid then Some z else get_zone j s)"
  by (auto simp: put_zone_def get_zone_def bind_eq_Some lget_lput)

lemma put_zone_in:
  "get_zone zid s = Some z0 \<Longrightarrow> put_zone zid z s = Some (s\<lparr>bank := (bank s)\<lparr>zone := (zone (bank s))[nat zid := z]\<rparr>\<rparr>)"
  by (auto simp: put_zone_def get_zone_def lget_Some)

definition same_sections :: "mstate \<Rightarrow> mstate \<Rightarrow> bool" where
  "same_sections s s' \<longleftrightarrow> length (zone (bank s')) = length (zone (bank s)) \<and>
     map memory_section (zone (bank s')) = map memory_section (zone (bank s)) \<and>
     map nr_section (zone (bank s')) = map nr_section (zone (bank s))"

lemma same_sections_update:
  assumes "get_zone zid s = Some z0" "memory_section z = memory_section z0" "nr_section z = nr_section z0"
    "zone (bank s') = (zone (bank s))[nat zid := z]"
  shows "same_sections s s'"
  using assms by (auto simp: same_sections_def get_zone_def lget_Some map_update list_update_same_conv)

lemma sections_of_same: "same_sections s s' \<Longrightarrow> map sections_of (zone (bank s')) = map sections_of (zone (bank s))"
  by (auto simp: same_sections_def sections_of_def list_eq_iff_nth_eq)

lemma sections_wf_same: "same_sections s s' \<Longrightarrow> sections_wf (zone (bank s')) \<longleftrightarrow> sections_wf (zone (bank s))"
proof -
  have eq: "sections_wf zs \<longleftrightarrow> (\<forall>i < length zs. map nr_section zs ! i \<le> int (length (map memory_section zs ! i)))" for zs
    by (simp add: sections_wf_def all_set_conv_all_nth)
  assume "same_sections s s'"
  then show ?thesis unfolding eq by (simp add: same_sections_def)
qed

lemma new_page_same:
  "same_sections s s' \<Longrightarrow> kernel_start s' = kernel_start s \<Longrightarrow> new_page s' idx count flag i = new_page s idx count flag i"
  using sections_of_same [of s s'] page_to_va_cong [of s' s] by (simp add: new_page_def pv_of_def)

section \<open>Allocation\<close>

definition zone_take :: "int \<Rightarrow> int \<Rightarrow> mm_zone \<Rightarrow> mm_zone" where
  "zone_take idx count z = z\<lparr>bm_current := word_of_int idx + word_of_int count,
     z_free_size := z_free_size z - word_of_int count * PAGE_SIZE,
     z_free_pages := z_free_pages z - word_of_int count\<rparr>"

definition pages_taken :: "int \<Rightarrow> int \<Rightarrow> u32 \<Rightarrow> int \<Rightarrow> mm_zone \<Rightarrow> mstate \<Rightarrow> mstate \<Rightarrow> bool" where
  "pages_taken idx count flag zid z s s' \<longleftrightarrow>
     same_bits (\<lambda>i. idx \<le> i \<and> i < idx + count \<or> bm_bit (page_map s) i) s s' \<and>
     (\<forall>j. get_zone j s' = (if j = zid then Some z else get_zone j s)) \<and>
     (\<forall>i. page_read i s' = (if idx \<le> i \<and> i < idx + count then Some (new_page s idx count flag i) else page_read i s)) \<and>
     kernel_start s' = kernel_start s \<and> same_sections s s' \<and> ks_quiet (ks s) (ks s')"

declare pages_taken_def [page_ops]

text \<open>The part of an allocation after the search: mark, count, unlock and initialise.\<close>

lemma take_pages:
  assumes inv: "minv F s" and z: "get_zone zid s = Some z"
    and z': "memory_section z' = memory_section z" "nr_section z' = nr_section z"
    and idx: "0 \<le> idx" "0 < count" "idx + count \<le> int (length (page_table s))" "idx + count \<le> bm_size (page_map s)"
    and idle: "\<And>i. idx \<le> i \<Longrightarrow> i < idx + count \<Longrightarrow> page_idle F i"
    and un: "mutex_unlock (ZoneMutex (nat zid)) k1 = Some k2" "kinv F k2" "ks_quiet (ks s) k2"
  shows "\<exists>s'. do {
      s1 \<leftarrow> update_memory_bitmap (word_of_int idx) count True (s\<lparr>ks := k1\<rparr>);
      s2 \<leftarrow> put_zone zid z' s1;
      s3 \<leftarrow> zone_unlock zid s2;
      (pg, s4) \<leftarrow> init_pages (word_of_int idx) count flag s3;
      Some (page_to_va pg s4, s4)
    } = Some (page_to_va idx s, s') \<and> pages_taken idx count flag zid z' s s' \<and>
    minv (with_nodes (page_nodes idx (idx + count)) F) s'"
proof -
  have wf: "sections_wf (zone (bank s))" "bm_size (page_map s) \<le> 2 ^ 31" "length (page_table s) \<le> 2 ^ 20"
    using inv by (simp_all add: minv_def)
  obtain pm where pm: "update_memory_bitmap (word_of_int idx) count True (s\<lparr>ks := k1\<rparr>) = Some (s\<lparr>ks := k1, page_map := pm\<rparr>)"
    "same_bits (\<lambda>i. if idx \<le> i \<and> i < idx + count then True else bm_bit (page_map s) i) s (s\<lparr>ks := k1, page_map := pm\<rparr>)"
    using update_memory_bitmap_spec [of idx count "s\<lparr>ks := k1\<rparr>" True] idx wf by (auto simp: same_bits_def)
  let ?s3 = "s\<lparr>ks := k2, page_map := pm, bank := (bank s)\<lparr>zone := (zone (bank s))[nat zid := z']\<rparr>\<rparr>"
  have put: "put_zone zid z' (s\<lparr>ks := k1, page_map := pm\<rparr>) =
      Some (s\<lparr>ks := k1, page_map := pm, bank := (bank s)\<lparr>zone := (zone (bank s))[nat zid := z']\<rparr>\<rparr>)"
    using put_zone_in [of zid "s\<lparr>ks := k1, page_map := pm\<rparr>" z z'] z by (simp add: get_zone_def)
  have unl: "zone_unlock zid (s\<lparr>ks := k1, page_map := pm, bank := (bank s)\<lparr>zone := (zone (bank s))[nat zid := z']\<rparr>\<rparr>) = Some ?s3"
    using un(1) by (simp add: zone_unlock_def)
  have ss: "same_sections s ?s3" by (rule same_sections_update [OF z z']) simp
  have lim: "idx + count < 2 ^ 32" using idx(3) wf(3) by simp
  obtain s' where s': "init_pages (word_of_int idx) count flag ?s3 = Some (idx, s')"
    "pages_new idx count flag (idx + count) F ?s3 s'"
    using init_pages_spec [of ?s3 F idx count flag] sections_wf_same [OF ss] wf un(2) idx lim idle by auto
  have eq: "bank s' = bank ?s3" "page_map s' = pm" "kernel_start s' = kernel_start s" "length (page_table s') = length (page_table s)"
    "ks_lists k2 (ks s')" "kinv (with_nodes (page_nodes idx (idx + count)) F) (ks s')"
    using s'(2) by (simp_all add: pages_new_def)
  have q: "ks_quiet (ks s) (ks s')" using un(3) ks_lists_quiet [OF eq(5)] ks_quiet_trans by blast
  have ss': "same_sections s s'" using ss eq(1) by (simp add: same_sections_def)
  have "page_read i s' = (if idx \<le> i \<and> i < idx + count then Some (new_page s idx count flag i) else page_read i s)" for i
    using s'(2) new_page_same [OF ss, of idx count flag i] by (simp add: pages_new_def page_read_def)
  moreover have "get_zone j s' = (if j = zid then Some z' else get_zone j s)" for j
    using get_zone_put [OF put, of j] eq(1) by (simp add: get_zone_def)
  ultimately have "pages_taken idx count flag zid z' s s'"
    using pm(2) eq q ss' by (auto simp: page_ops)
  moreover have "minv (with_nodes (page_nodes idx (idx + count)) F) s'"
    using inv eq q sections_wf_same [OF ss'] ss' pm(2)
    by (simp add: minv_def mutex_free_nodes mutex_free_quiet [OF q] same_sections_def same_bits_def)
  ultimately show ?thesis
    using pm(1) put unl s'(1) page_to_va_cong [OF eq(3)] by (intro exI [of _ s']) simp
qed

lemma get_free_pages_spec:
  assumes inv: "minv F s" and flag: "zid = gfp_zone_id flag" "zid < 4" and z: "get_zone zid s = Some z"
    and count: "0 < count" "count \<le> uint (z_free_pages z)"
    and idx: "0 < idx" "idx + count \<le> int (length (page_table s))" "idx + count \<le> bm_size (page_map s)"
    and find: "find_continous_pages z count s = Some (word_of_int idx)"
    and idle: "\<And>i. idx \<le> i \<Longrightarrow> i < idx + count \<Longrightarrow> page_idle F i"
  shows "\<exists>s'. get_free_pages count flag s = Some (Some (page_to_va idx s), s') \<and>
    pages_taken idx count flag zid (zone_take idx count z) s s' \<and>
    minv (with_nodes (page_nodes idx (idx + count)) F) s'"
proof -
  have id0: "0 \<le> zid" unfolding flag(1) gfp_zone_id_def by simp
  have free: "mutex_free (ZoneMutex (nat zid)) F (ks s)" and k: "kinv F (ks s)"
    using inv flag(2) id0 by (simp_all add: minv_def)
  obtain k1 k2 where lk: "mutex_lock (ZoneMutex (nat zid)) (ks s) = Some (Lock_return 0, k1)"
    "mutex_unlock (ZoneMutex (nat zid)) k1 = Some k2" "kinv F k2" "ks_quiet (ks s) k2"
    using zone_lock [OF k free] .
  have lim: "idx < 2 ^ 32" "idx + count \<le> 2 ^ 20" using idx(2) count(1) inv by (simp_all add: minv_def)
  have nz: "(word_of_int idx :: u32) \<noteq> 0" using idx(1) lim word_eq_uint [of idx 0] by simp
  have nl: "\<not> z_free_pages z < word_of_int count"
    using count lim idx(1) uint_bounded [of "z_free_pages z"] by (simp add: word_less_def uint_word_of_int)
  have "find_continous_pages z count (s\<lparr>ks := k1\<rparr>) = Some (word_of_int idx)" "get_zone zid (s\<lparr>ks := k1\<rparr>) = Some z"
    using find z by (simp_all add: find_continous_pages_def get_zone_def)
  then obtain s' where s': "get_free_pages_locked zid count flag (s\<lparr>ks := k1\<rparr>) = Some (page_to_va idx s, s')"
    "pages_taken idx count flag zid (zone_take idx count z) s s'" "minv (with_nodes (page_nodes idx (idx + count)) F) s'"
    using take_pages [OF inv z _ _ _ count(1) idx(2,3) idle lk(2-4), of "zone_take idx count z" flag] idx(1) nz nl
    by (auto simp: get_free_pages_locked_def zone_take_def)
  then show ?thesis
    using lk(1) count(1) flag by (simp add: get_free_pages_def get_free_pages_zone_def with_zone_lock_def Let_def)
qed


section \<open>Release\<close>

lemma gfp_zone_id_header [simp]: "gfp_zone_id (flag OR GFP_PAGE_HEADER) = gfp_zone_id flag"
  by (simp add: gfp_zone_id_def word_ao_dist)

definition zone_give :: "int \<Rightarrow> int \<Rightarrow> mm_zone \<Rightarrow> mm_zone" where
  "zone_give idx count z =
     (let z = z\<lparr>z_free_size := z_free_size z + word_of_int count * PAGE_SIZE,
                z_free_pages := z_free_pages z + word_of_int count\<rparr>
      in if bm_current z = word_of_int (idx + count) then z\<lparr>bm_current := word_of_int idx\<rparr> else z)"

lemma free_pages_locked_eq:
  "free_pages_locked pg zid s = do {
     p \<leftarrow> page_read pg s;
     s \<leftarrow> update_memory_bitmap (word_of_int pg) (uint (pg_count p)) False s;
     z \<leftarrow> get_zone zid s;
     s \<leftarrow> put_zone zid (zone_give pg (uint (pg_count p)) z) s;
     s \<leftarrow> zone_unlock zid s;
     Some ((), s)
   }"
  by (simp only: free_pages_locked_def zone_give_def page_to_page_id_def Let_def)

definition pages_freed :: "int \<Rightarrow> int \<Rightarrow> int \<Rightarrow> mm_zone \<Rightarrow> mstate \<Rightarrow> mstate \<Rightarrow> bool" where
  "pages_freed idx count zid z s s' \<longleftrightarrow>
     same_bits (\<lambda>i. \<not> (idx \<le> i \<and> i < idx + count) \<and> bm_bit (page_map s) i) s s' \<and>
     (\<forall>j. get_zone j s' = (if j = zid then Some (zone_give idx count z) else get_zone j s)) \<and>
     page_table s' = page_table s \<and>
     kernel_start s' = kernel_start s \<and> same_sections s s' \<and> ks_quiet (ks s) (ks s')"

declare pages_freed_def [page_ops]

lemma free_pages_spec:
  assumes inv: "minv F s" and pg: "page_read pg s = Some p" "pg_flag p AND GFP_PAGE_HEADER \<noteq> 0"
    and zid: "zid = gfp_zone_id (pg_flag p)" and z: "get_zone zid s = Some z"
    and count: "count = uint (pg_count p)" "pg + count \<le> bm_size (page_map s)"
  shows "\<exists>s'. free_pages (page_to_va pg s) s = Some (Some (), s') \<and> pages_freed pg count zid z s s' \<and> minv F s'"
proof -
  have wf: "length (page_table s) \<le> 2 ^ 20" "bm_size (page_map s) \<le> 2 ^ 31" "is_aligin (kernel_start s) PAGE_SIZE"
    "length (zone (bank s)) = 4" using inv by (simp_all add: minv_def)
  have pg0: "0 \<le> pg" "pg < 2 ^ 20" using pg(1) wf(1) by (auto simp: page_read_def lget_Some)
  have id0: "0 \<le> zid" "zid < 4" using z wf(4) by (auto simp: get_zone_def lget_Some)
  obtain k1 k2 where lk: "mutex_lock (ZoneMutex (nat zid)) (ks s) = Some (Lock_return 0, k1)"
    "mutex_unlock (ZoneMutex (nat zid)) k1 = Some k2" "kinv F k2" "ks_quiet (ks s) k2"
    using zone_lock [of F "ks s" "ZoneMutex (nat zid)"] inv id0 by (auto simp: minv_def)
  obtain pm where pm: "update_memory_bitmap (word_of_int pg) count False (s\<lparr>ks := k1\<rparr>) = Some (s\<lparr>ks := k1, page_map := pm\<rparr>)"
    "same_bits (\<lambda>i. if pg \<le> i \<and> i < pg + count then False else bm_bit (page_map s) i) s (s\<lparr>ks := k1, page_map := pm\<rparr>)"
    using update_memory_bitmap_spec [of pg count "s\<lparr>ks := k1\<rparr>" False] pg0 count wf(2) by (auto simp: same_bits_def)
  let ?z = "zone_give pg count z"
  let ?s' = "s\<lparr>ks := k2, page_map := pm, bank := (bank s)\<lparr>zone := (zone (bank s))[nat zid := ?z]\<rparr>\<rparr>"
  have put: "put_zone zid ?z (s\<lparr>ks := k1, page_map := pm\<rparr>) =
      Some (s\<lparr>ks := k1, page_map := pm, bank := (bank s)\<lparr>zone := (zone (bank s))[nat zid := ?z]\<rparr>\<rparr>)"
    using put_zone_in [of zid "s\<lparr>ks := k1, page_map := pm\<rparr>" z ?z] z by (simp add: get_zone_def)
  have "page_read pg (s\<lparr>ks := k1\<rparr>) = Some p" "get_zone zid (s\<lparr>ks := k1, page_map := pm\<rparr>) = Some z"
    using pg(1) z by (simp_all add: page_read_def get_zone_def)
  then have "free_pages_locked pg zid (s\<lparr>ks := k1\<rparr>) = Some ((), ?s')"
    using pm(1) put lk(2)
    by (simp add: free_pages_locked_eq zone_unlock_def flip: count(1))
  then have eq: "free_pages (page_to_va pg s) s = Some (Some (), ?s')"
    using page_to_va_aligin [OF wf(3)] va_to_page_to_va [OF pg0] pg z lk(1) zid
    by (simp add: free_pages_def with_zone_lock_def Let_def)
  have ss: "same_sections s ?s'" by (rule same_sections_update [OF z]) (simp_all add: zone_give_def Let_def)
  have "get_zone j ?s' = (if j = zid then Some ?z else get_zone j s)" for j
    using get_zone_put [OF put, of j] by (simp add: get_zone_def)
  then have "pages_freed pg count zid z s ?s'"
    using pm(2) lk(4) ss by (simp add: page_ops)
  moreover have "minv F ?s'"
    using inv lk(3) sections_wf_same [OF ss] ss pm(2)
    by (simp add: minv_def mutex_free_quiet [OF lk(4)] same_bits_def)
  ultimately show ?thesis using eq by blast
qed

section \<open>Mutexes of a new kernel\<close>

lemma list_rel_unused:
  assumes "list_rel h F" "fresh F n"
  shows "list_rel (init_list n h) F"
proof -
  have "list_rel (init_list n h) (F(n \<mapsto> []))" by (rule list_rel_init [OF assms])
  moreover have "F n = None" using assms(2) by (simp add: fresh_def)
  ultimately show ?thesis unfolding list_rel_def by (metis fun_upd_apply option.distinct(1))
qed

lemma kinv_init_mutex:
  assumes k: "kinv F s" and f: "fresh F (M_wait m)" "fresh F (M_task m)"
  shows "kinv (F(M_wait m \<mapsto> [])) (init_mutex m s)"
proof -
  let ?F = "F(M_wait m \<mapsto> [])"
  have "list_rel (init_list (M_wait m) (lists s)) ?F" by (rule list_rel_init [OF kinv_rel [OF k] f(1)])
  moreover have "fresh ?F (M_task m)" using f(2) by (auto simp: fresh_def)
  ultimately have "list_rel (init_list (M_task m) (init_list (M_wait m) (lists s))) ?F" by (rule list_rel_unused)
  moreover have "init_mutex m s = on_lists (\<lambda>h. init_list (M_task m) (init_list (M_wait m) h)) (set_mutex_count m 0 s)"
    by (simp add: init_mutex_def on_lists_def init_list_def set_mutex_count_def set_next_def set_pre_def Let_def fun_upd_twist)
  ultimately show ?thesis
    using kinv_foreign [of F "set_mutex_count m 0 s" "\<lambda>h. init_list (M_task m) (init_list (M_wait m) h)" "M_wait m" "[]"] k
    by simp
qed

end
