(* ===== verification/MmProps.thy ===== *)
theory MmProps
  imports MmAlloc SchedProps
begin

text \<open>
  The properties of the page allocator, with instances on a machine whose normal zone is one
  megabyte at the physical address \<open>0x30000000\<close>, mapped at the kernel's base, the first two pages in use.
\<close>

section \<open>A concrete machine\<close>

definition demo_section :: mm_section where
  "demo_section = \<lparr>phy_start = 0x30000000, vir_start = 0xc0000000, sec_size = 0x100000,
     pv_offset = 0x90000000, maped = True\<rparr>"

definition no_section :: mm_section where
  "no_section = \<lparr>phy_start = 0, vir_start = 0, sec_size = 0, pv_offset = 0, maped = False\<rparr>"

definition demo_zone :: mm_zone where
  "demo_zone = \<lparr>memory_section = [demo_section, no_section, no_section, no_section], nr_section = 1,
     z_total_size = 0x100000, z_free_size = 0xfe000, z_page_num = 256, z_free_pages = 254,
     bm_start = 0, bm_end = 256, bm_current = 2\<rparr>"

definition no_zone :: mm_zone where
  "no_zone = \<lparr>memory_section = replicate 4 no_section, nr_section = 0, z_total_size = 0, z_free_size = 0,
     z_page_num = 0, z_free_pages = 0, bm_start = 256, bm_end = 256, bm_current = 256\<rparr>"

definition no_page :: page where
  "no_page = \<lparr>phy_address = 0, pg_flag = 0, pg_free_base = 0, pg_free_size = 0, pg_count = 0, pg_usage = 0\<rparr>"

definition demo_ks :: kstate where
  "demo_ks = init_mutex (ZoneMutex 3) (init_mutex (ZoneMutex 2) (init_mutex (ZoneMutex 1) (init_mutex (ZoneMutex 0) booted)))"

definition demo_F :: "node lists" where
  "demo_F = (boot_lists 0x2000)(M_wait (ZoneMutex 0) \<mapsto> [], M_wait (ZoneMutex 1) \<mapsto> [],
     M_wait (ZoneMutex 2) \<mapsto> [], M_wait (ZoneMutex 3) \<mapsto> [])"

definition machine :: "u32 list \<Rightarrow> mstate" where
  "machine pm = \<lparr>ks = demo_ks, bank = \<lparr>total_size = 0x100000, total_page = 256, total_section = 1,
     zone = [demo_zone, no_zone, no_zone, no_zone]\<rparr>, page_table = replicate 257 no_page,
     page_map = pm, kernel_start = 0xc0000000\<rparr>"

lemma boot_fresh: "foreign n \<Longrightarrow> boot_lists 0x2000 n = None \<Longrightarrow> fresh (boot_lists 0x2000) n"
  by (auto simp: fresh_def boot_lists_def split: if_splits)

lemma boot_zone_none:
  "boot_lists 0x2000 (M_wait (ZoneMutex i)) = None" "boot_lists 0x2000 (M_task (ZoneMutex i)) = None"
  "boot_lists 0x2000 (N_page p) = None"
  by (simp_all add: boot_lists_def boot_heads_def)

lemma demo_ks_kinv: "kinv demo_F demo_ks"
proof -
  have f: "fresh (boot_lists 0x2000) (M_wait (ZoneMutex i))" "fresh (boot_lists 0x2000) (M_task (ZoneMutex i))" for i
    by (auto intro: boot_fresh simp: boot_zone_none)
  show ?thesis
    unfolding demo_F_def demo_ks_def
    using f by (intro kinv_init_mutex) (auto simp: fresh_def kready_kinv(1) [OF booted_ready] split: if_splits)
qed

lemma init_mutex_sel [simp]:
  "mutex_count (init_mutex m s) = (mutex_count s)(m := 0)" "current (init_mutex m s) = current s"
  "task (init_mutex m s) = task s" "idle (init_mutex m s) = idle s"
  by (simp_all add: init_mutex_def Let_def)

lemma demo_ks_ready: "kready demo_F demo_ks"
  using demo_ks_kinv booted_ready by (simp add: kready_def demo_ks_def init_mutex_def Let_def set_mutex_count_def on_lists_def)

lemma demo_mutexes: "i < 4 \<Longrightarrow> mutex_free (ZoneMutex i) demo_F demo_ks"
proof -
  assume "i < 4"
  then consider "i = 0" | "i = 1" | "i = 2" | "i = 3" by linarith
  then have "mutex_count demo_ks (ZoneMutex i) = 0" "demo_F (M_wait (ZoneMutex i)) = Some []"
    by (cases; simp add: demo_ks_def demo_F_def)+
  moreover have "fresh demo_F (M_task (ZoneMutex i))"
    using boot_fresh [of "M_task (ZoneMutex i)"] by (auto simp: fresh_def demo_F_def boot_zone_none split: if_splits)
  moreover have "demo_F (N_mutex_get (current demo_ks)) = Some []"
    by (simp add: demo_F_def demo_ks_def booted_task boot_lists_def boot_heads_def)
  ultimately show ?thesis by (simp add: mutex_free_def)
qed

lemma demo_page_idle: "page_idle demo_F i"
  using boot_fresh [of "N_page (word_of_int i)"]
  by (auto simp: page_idle_def demo_F_def boot_zone_none fresh_def split: if_splits)

lemma machine_minv: "length pm = 9 \<Longrightarrow> minv demo_F (machine pm)"
  using demo_ks_kinv demo_mutexes
  by (simp add: minv_def machine_def sections_wf_def demo_zone_def no_zone_def bm_size_def is_aligin_def)

lemma machine_zone: "get_zone 0 (machine pm) = Some demo_zone"
  by (simp add: get_zone_def machine_def lget_def)

lemma machine_zone_wf: "length pm = 9 \<Longrightarrow> zone_wf (page_map (machine pm)) demo_zone"
  by (simp add: zone_wf_def machine_def demo_zone_def bm_size_def)

section \<open>Properties\<close>

lemma page_state_bit:
  assumes "0 \<le> i" "i < bm_size (page_map s)" "bm_size (page_map s) \<le> 2 ^ 31"
  shows "page_state i s = Some (of_bool (bm_bit (page_map s) i))"
  unfolding page_state_def using assms by (intro os_bits.rd) auto

lemma first_free:
  assumes "f1 @ f2 \<noteq> []" and f: "f1 = free_in pm (uint (bm_current z)) (uint (bm_end z))"
    "f2 = free_in pm (uint (bm_start z)) (uint (bm_current z))"
  shows "pick_pages pm z 1 = word_of_int (hd (f1 @ f2))"
  unfolding pick_pages_def Let_def f [symmetric] using assms(1) by (cases f1; cases f2) auto

lemma get_free_page_picks:
  assumes inv: "minv F s" and zid: "zid = gfp_zone_id flag" and z: "get_zone zid s = Some z"
    and wf: "zone_wf (page_map s) z" "bm_current z < bm_end z" "uint (bm_end z) < int (length (page_table s))"
    and free: "0 < uint (z_free_pages z)" "\<exists>i. uint (bm_start z) \<le> i \<and> i < uint (bm_end z) \<and> \<not> bm_bit (page_map s) i"
    and kern: "bm_bit (page_map s) 0"
    and idle: "\<And>i. 0 \<le> i \<Longrightarrow> i < bm_size (page_map s) \<Longrightarrow> \<not> bm_bit (page_map s) i \<Longrightarrow> page_idle F i"
  obtains pg s' where "get_free_pages 1 flag s = Some (Some (page_to_va pg s), s')" "0 < pg"
    "uint (bm_start z) \<le> pg" "pg \<le> uint (bm_end z)" "\<not> bm_bit (page_map s) pg"
    "pages_taken pg 1 flag zid (zone_take pg 1 z) s s'" "minv (with_nodes (page_nodes pg (pg + 1)) F) s'"
proof -
  let ?f1 = "free_in (page_map s) (uint (bm_current z)) (uint (bm_end z))"
  let ?f2 = "free_in (page_map s) (uint (bm_start z)) (uint (bm_current z))"
  have u: "uint (bm_start z) \<le> uint (bm_current z)" "uint (bm_current z) \<le> uint (bm_end z)"
    "uint (bm_end z) < bm_size (page_map s)" "bm_size (page_map s) \<le> 2 ^ 31"
    using wf(1) by (simp_all add: zone_wf_def word_le_def)
  have ne: "?f1 @ ?f2 \<noteq> []"
  proof -
    from free(2) obtain i where i: "uint (bm_start z) \<le> i" "i < uint (bm_end z)" "\<not> bm_bit (page_map s) i" by blast
    then have "i \<in> set (?f1 @ ?f2)" by (cases "i \<le> uint (bm_current z)") (simp_all add: set_free_in)
    then show ?thesis by (metis empty_iff empty_set)
  qed
  obtain pg where pg: "pg = hd (?f1 @ ?f2)" by blast
  have "pg \<in> set (?f1 @ ?f2)" unfolding pg by (rule list.set_sel(1) [OF ne])
  then have mem: "uint (bm_start z) \<le> pg" "pg \<le> uint (bm_end z)" "\<not> bm_bit (page_map s) pg"
    using u by (auto simp: set_free_in)
  have pg0: "0 < pg"
  proof -
    have "0 \<le> pg" using mem(1) by (rule order.trans [OF uint_ge_0])
    moreover have "pg \<noteq> 0" using mem(3) kern by metis
    ultimately show ?thesis by simp
  qed
  have "find_continous_pages z 1 s = Some (word_of_int pg)"
    using find_continous_pick [OF wf(1), of 1] wf(2) first_free [OF ne refl refl] pg by simp
  moreover have only: "page_idle F i" if "pg \<le> i" "i < pg + 1" for i
  proof -
    have "i = pg" using that by simp
    then show ?thesis using idle [of pg] mem(2,3) pg0 u(3) by simp
  qed
  moreover have "zid < 4" using z inv by (auto simp: get_zone_def lget_Some minv_def)
  ultimately obtain s' where s': "get_free_pages 1 flag s = Some (Some (page_to_va pg s), s')"
    "pages_taken pg 1 flag zid (zone_take pg 1 z) s s'" "minv (with_nodes (page_nodes pg (pg + 1)) F) s'"
    using get_free_pages_spec [OF inv zid _ z _ _ pg0, of 1] free(1) mem(2) wf(3) u only by auto
  with pg0 mem show thesis by (intro that)
qed

text \<open>
  When a zone has a free page, \<^verbatim>\<open>get_free_page\<close> returns the address of a page of the zone's
  range that was free and is now marked as used, with one reference and its physical address; the
  state of every other page is unchanged and the zone's counters are one page lower.
\<close>

theorem get_free_page_takes_free_page:
  assumes inv: "minv F s" and zid: "zid = gfp_zone_id flag" and z: "get_zone zid s = Some z"
    and wf: "zone_wf (page_map s) z" "bm_current z < bm_end z" "uint (bm_end z) < int (length (page_table s))"
    and free: "0 < uint (z_free_pages z)" "\<exists>i. uint (bm_start z) \<le> i \<and> i < uint (bm_end z) \<and> \<not> bm_bit (page_map s) i"
    and kern: "bm_bit (page_map s) 0"
    and idle: "\<And>i. 0 \<le> i \<Longrightarrow> i < bm_size (page_map s) \<Longrightarrow> \<not> bm_bit (page_map s) i \<Longrightarrow> page_idle F i"
  shows "\<exists>pg s'. get_free_page flag s = Some (Some (page_to_va pg s), s') \<and>
    uint (bm_start z) \<le> pg \<and> pg \<le> uint (bm_end z) \<and>
    page_state pg s = Some 0 \<and> page_state pg s' = Some 1 \<and>
    (\<forall>i. 0 \<le> i \<longrightarrow> i < bm_size (page_map s) \<longrightarrow> i \<noteq> pg \<longrightarrow> page_state i s' = page_state i s) \<and>
    page_read pg s' = Some (new_page s pg 1 flag pg) \<and> (\<forall>i. i \<noteq> pg \<longrightarrow> page_read i s' = page_read i s) \<and>
    get_zone zid s' = Some (zone_take pg 1 z) \<and> minv (with_nodes (page_nodes pg (pg + 1)) F) s'"
proof -
  obtain pg s' where g: "get_free_pages 1 flag s = Some (Some (page_to_va pg s), s')" and pg0: "0 < pg"
    and mem: "uint (bm_start z) \<le> pg" "pg \<le> uint (bm_end z)" "\<not> bm_bit (page_map s) pg"
    and s': "pages_taken pg 1 flag zid (zone_take pg 1 z) s s'" "minv (with_nodes (page_nodes pg (pg + 1)) F) s'"
    by (rule get_free_page_picks [OF assms])
  have u: "uint (bm_end z) < bm_size (page_map s)" "bm_size (page_map s) \<le> 2 ^ 31"
    using wf(1) by (simp_all add: zone_wf_def)
  have size: "bm_size (page_map s') = bm_size (page_map s)" using s'(1) by (simp add: page_ops)
  have bits: "bm_bit (page_map s') i = (i = pg \<or> bm_bit (page_map s) i)" if "0 \<le> i" "i < bm_size (page_map s)" for i
    using s'(1) that by (auto simp: page_ops)
  have state: "page_state i s' = Some (of_bool (i = pg \<or> bm_bit (page_map s) i))" if "0 \<le> i" "i < bm_size (page_map s)" for i
    using page_state_bit [of i s'] that u(2) bits [OF that] size by simp
  have ip: "0 \<le> pg" "pg < bm_size (page_map s)" using pg0 mem(2) u(1) by simp_all
  have "page_state pg s = Some 0" using page_state_bit [OF ip u(2)] mem(3) by simp
  moreover have "page_state pg s' = Some 1" using state [OF ip] by simp
  moreover have "page_state i s' = page_state i s" if "0 \<le> i" "i < bm_size (page_map s)" "i \<noteq> pg" for i
    using state [OF that(1,2)] page_state_bit [OF that(1,2) u(2)] that(3) by simp
  moreover have "page_read pg s' = Some (new_page s pg 1 flag pg)" "i \<noteq> pg \<Longrightarrow> page_read i s' = page_read i s"
    "get_zone zid s' = Some (zone_take pg 1 z)" for i
    using s'(1) by (auto simp: pages_taken_def)
  ultimately show ?thesis using g s'(2) mem(1,2) by (intro exI [of _ pg] exI [of _ s']) (simp add: get_free_page_def)
qed

lemma zone_id_kernel: "gfp_zone_id GFP_KERNEL = 0"
  by (simp add: gfp_zone_id_def)

theorem get_free_page_takes_free_page_witness:
  "\<exists>pg s'. get_free_page GFP_KERNEL (machine [3, 0, 0, 0, 0, 0, 0, 0, 0]) = Some (Some (page_to_va pg (machine [3, 0, 0, 0, 0, 0, 0, 0, 0])), s') \<and>
    page_state pg (machine [3, 0, 0, 0, 0, 0, 0, 0, 0]) = Some 0 \<and> page_state pg s' = Some 1"
proof -
  let ?m = "machine [3, 0, 0, 0, 0, 0, 0, 0, 0]"
  have "bm_bit (page_map ?m) 0" "\<not> bm_bit (page_map ?m) 2" by (simp_all add: machine_def bm_bit_def)
  then show ?thesis
    using get_free_page_takes_free_page [OF machine_minv zone_id_kernel [symmetric] machine_zone machine_zone_wf, of "[3, 0, 0, 0, 0, 0, 0, 0, 0]"]
      demo_page_idle
    by (fastforce simp: demo_zone_def machine_def)
qed


text \<open>
  C17. The search of a zone whose current position lies between its first page and its end, for a positive number of pages: when that
  position is before the end, or enough pages up to it are free, \<^verbatim>\<open>find_continous_pages\<close> ends and computes the reference
  \<open>pick_pages\<close>: it counts the free
  pages from the current position to the end of the zone, inclusive, and then from its start, and
  returns the position of the last one counted less the number of pages wanted plus one.  When the position is the end
  of the zone and fewer pages are free, the search never ends.
\<close>

theorem find_continous_pages_reference:
  assumes "zone_wf (page_map s) z" "0 < count"
  shows "find_continous_pages z count s =
    (if bm_current z < bm_end z \<or> count \<le> int (length (free_in (page_map s) (uint (bm_start z)) (uint (bm_current z))))
     then Some (pick_pages (page_map s) z count) else None)"
proof (cases "bm_current z < bm_end z \<or> count \<le> int (length (free_in (page_map s) (uint (bm_start z)) (uint (bm_current z))))")
  case True
  then show ?thesis using find_continous_pick [OF assms] by simp
next
  case False
  then have "bm_current z = bm_end z" using assms(1) by (auto simp: zone_wf_def intro: order.antisym)
  with False show ?thesis using find_continous_none [OF assms(1), of count] by simp
qed

theorem find_continous_pages_reference_witness:
  "find_continous_pages demo_zone 2 (machine [3, 0, 0, 0, 0, 0, 0, 0, 0]) =
   Some (pick_pages [3, 0, 0, 0, 0, 0, 0, 0, 0] demo_zone 2) \<and>
   find_continous_pages (demo_zone\<lparr>bm_current := 256\<rparr>) 1000 (machine [3, 0, 0, 0, 0, 0, 0, 0, 0]) = None"
proof -
  let ?m = "machine [3, 0, 0, 0, 0, 0, 0, 0, 0]" and ?z = "demo_zone\<lparr>bm_current := 256\<rparr>"
  have z: "bm_current demo_zone < bm_end demo_zone" by (simp add: demo_zone_def)
  have wf: "zone_wf (page_map ?m) ?z" "\<not> bm_current ?z < bm_end ?z" by (simp_all add: zone_wf_def machine_def demo_zone_def bm_size_def)
  have "length (free_in (page_map ?m) (uint (bm_start ?z)) (uint (bm_current ?z))) \<le> length [0..256]"
    unfolding free_in_def by (rule order.trans [OF length_filter_le]) (simp add: demo_zone_def)
  then have few: "\<not> 1000 \<le> int (length (free_in (page_map ?m) (uint (bm_start ?z)) (uint (bm_current ?z))))" by simp
  show ?thesis
    using find_continous_pages_reference [OF machine_zone_wf, of "[3, 0, 0, 0, 0, 0, 0, 0, 0]" 2] z
      find_continous_pages_reference [OF wf(1), of 1000] wf(2) few by (simp add: machine_def)
qed

lemma free_in_append: "a \<le> m \<Longrightarrow> m \<le> b + 1 \<Longrightarrow> free_in pm a b = free_in pm a (m - 1) @ free_in pm m b"
proof -
  assume "a \<le> m" "m \<le> b + 1"
  then show ?thesis using upto_split1 [of a m b] by (cases "m = b + 1") (simp_all add: free_in_def)
qed

lemma free_in_all: "(\<And>i. a \<le> i \<Longrightarrow> i \<le> b \<Longrightarrow> \<not> bm_bit pm i) \<Longrightarrow> free_in pm a b = [a..b]"
  by (simp add: free_in_def)

lemma nth_upto': "a + int n \<le> b \<Longrightarrow> [a..b] ! n = a + int n"
  by (simp add: nth_upto)

lemma pick_block:
  assumes "0 < count" "uint (bm_current z) + count \<le> uint (bm_end z)"
    and "\<And>i. uint (bm_current z) \<le> i \<Longrightarrow> i < uint (bm_current z) + count \<Longrightarrow> \<not> bm_bit pm i"
  shows "pick_pages pm z count = bm_current z"
proof -
  let ?c = "uint (bm_current z)" and ?e = "uint (bm_end z)"
  have "free_in pm ?c ?e = [?c..?c + count - 1] @ free_in pm (?c + count) ?e"
    using free_in_append [of ?c "?c + count" ?e pm] free_in_all [of ?c "?c + count - 1" pm] assms by simp
  moreover have "[?c..?c + count - 1] ! nat (count - 1) = ?c + count - 1"
    using nth_upto' [of ?c "nat (count - 1)" "?c + count - 1"] assms(1) by simp
  moreover have "nat (count - 1) < length [?c..?c + count - 1]" using assms(1) by simp
  ultimately show ?thesis by (simp add: pick_pages_def Let_def nth_append)
qed

lemma get_block:
  assumes inv: "minv F s" and zid: "zid = gfp_zone_id flag" and z: "get_zone zid s = Some z"
    and wf: "zone_wf (page_map s) z" "uint (bm_end z) < int (length (page_table s))" "0 < uint (bm_current z)"
    and count: "0 < count" "count \<le> uint (z_free_pages z)" "uint (bm_current z) + count \<le> uint (bm_end z)"
    and free: "\<And>i. uint (bm_current z) \<le> i \<Longrightarrow> i < uint (bm_current z) + count \<Longrightarrow> \<not> bm_bit (page_map s) i"
    and idle: "\<And>i. uint (bm_current z) \<le> i \<Longrightarrow> i < uint (bm_current z) + count \<Longrightarrow> page_idle F i"
  obtains c s' where "c = uint (bm_current z)" "get_free_pages count flag s = Some (Some (page_to_va c s), s')"
    "pages_taken c count flag zid (zone_take c count z) s s'" "minv (with_nodes (page_nodes c (c + count)) F) s'"
proof -
  let ?c = "uint (bm_current z)"
  have "bm_current z < bm_end z" using count by (simp add: word_less_def)
  then have "find_continous_pages z count s = Some (word_of_int ?c)"
    using find_continous_pick [OF wf(1) count(1)] pick_block [OF count(1,3) free] by simp
  moreover have "zid < 4" using z inv by (auto simp: get_zone_def lget_Some minv_def)
  moreover have "?c + count \<le> bm_size (page_map s)" "?c + count \<le> int (length (page_table s))"
    using count(3) wf by (simp_all add: zone_wf_def)
  ultimately show thesis
    using get_free_pages_spec [OF inv zid _ z count(1,2) wf(3)] idle that by blast
qed

text \<open>
  When the \<open>count\<close> pages from the zone's current position are free, \<^verbatim>\<open>get_free_pages\<close> returns
  their first address: exactly these pages become used, the zone's counters drop by \<open>count\<close>, and the
  current position moves behind them.
\<close>

theorem get_free_pages_block:
  assumes "minv F s" "zid = gfp_zone_id flag" "get_zone zid s = Some z"
    and "zone_wf (page_map s) z" "uint (bm_end z) < int (length (page_table s))" "0 < uint (bm_current z)"
    and "0 < count" "count \<le> uint (z_free_pages z)" "uint (bm_current z) + count \<le> uint (bm_end z)"
    and "\<And>i. uint (bm_current z) \<le> i \<Longrightarrow> i < uint (bm_current z) + count \<Longrightarrow> \<not> bm_bit (page_map s) i"
    and "\<And>i. uint (bm_current z) \<le> i \<Longrightarrow> i < uint (bm_current z) + count \<Longrightarrow> page_idle F i"
  shows "\<exists>s'. get_free_pages count flag s = Some (Some (page_to_va (uint (bm_current z)) s), s') \<and>
    (\<forall>i. 0 \<le> i \<longrightarrow> i < bm_size (page_map s) \<longrightarrow> page_state i s' =
      (if uint (bm_current z) \<le> i \<and> i < uint (bm_current z) + count then Some 1 else page_state i s)) \<and>
    get_zone zid s' = Some (zone_take (uint (bm_current z)) count z)"
proof -
  obtain c s' where c: "c = uint (bm_current z)" "get_free_pages count flag s = Some (Some (page_to_va c s), s')"
    "pages_taken c count flag zid (zone_take c count z) s s'"
    using get_block [OF assms] by metis
  have size: "bm_size (page_map s) \<le> 2 ^ 31" "bm_size (page_map s') = bm_size (page_map s)"
    using assms(4) c(3) by (simp_all add: zone_wf_def pages_taken_def same_bits_def)
  have "page_state i s' = (if c \<le> i \<and> i < c + count then Some 1 else page_state i s)"
    if "0 \<le> i" "i < bm_size (page_map s)" for i
    using c(3) that page_state_bit [of i s] page_state_bit [of i s'] size by (auto simp: page_ops)
  then show ?thesis using c by (auto simp: pages_taken_def)
qed

lemma demo_block_free:
  assumes "uint (bm_current demo_zone) \<le> i" "i < uint (bm_current demo_zone) + 3"
  shows "\<not> bm_bit (page_map (machine [3, 0, 0, 0, 0, 0, 0, 0, 0])) i"
proof -
  from assms consider "i = 2" | "i = 3" | "i = 4" by (fastforce simp: demo_zone_def)
  then show ?thesis by cases (simp_all add: machine_def bm_bit_def bit_numeral_rec)
qed

lemma demo_block_sizes:
  "uint (bm_end demo_zone) < int (length (page_table (machine pm)))" "0 < uint (bm_current demo_zone)"
  "(0::int) < 3" "(3::int) \<le> uint (z_free_pages demo_zone)" "uint (bm_current demo_zone) + 3 \<le> uint (bm_end demo_zone)"
  by (simp_all add: demo_zone_def machine_def)

theorem get_free_pages_block_witness:
  "\<exists>s'. get_free_pages 3 GFP_KERNEL (machine [3, 0, 0, 0, 0, 0, 0, 0, 0]) = Some (Some 0xc0002000, s') \<and>
    page_state 4 s' = Some 1"
  using get_free_pages_block [OF machine_minv zone_id_kernel [symmetric] machine_zone machine_zone_wf demo_block_sizes demo_block_free demo_page_idle]
  by (auto simp: bm_size_def machine_def demo_zone_def page_to_va_def page_id_to_va_def page_to_page_id_def)

text \<open>
  C16. When the next \<open>count\<close> pages from the zone's current position on are all free and lie in the zone, the
  position is not page 0 and \<open>count\<close> is between 1 and 255, the limit of the counter of a block: the call of \<^verbatim>\<open>free_pages\<close>
  on the result of \<^verbatim>\<open>get_free_pages\<close> restores the bit map and every zone, the current position included.
\<close>

theorem alloc_free_roundtrip:
  assumes "minv F s" "zid = gfp_zone_id flag" "get_zone zid s = Some z"
    and "zone_wf (page_map s) z" "uint (bm_end z) < int (length (page_table s))" "0 < uint (bm_current z)"
    and "0 < count" "count \<le> uint (z_free_pages z)" "uint (bm_current z) + count \<le> uint (bm_end z)"
    and "\<And>i. uint (bm_current z) \<le> i \<Longrightarrow> i < uint (bm_current z) + count \<Longrightarrow> \<not> bm_bit (page_map s) i"
    and "\<And>i. uint (bm_current z) \<le> i \<Longrightarrow> i < uint (bm_current z) + count \<Longrightarrow> page_idle F i"
    and "count \<le> 255"
  shows "\<exists>va s1 s2. get_free_pages count flag s = Some (Some va, s1) \<and> free_pages va s1 = Some (Some (), s2) \<and>
    (\<forall>i. 0 \<le> i \<longrightarrow> i < bm_size (page_map s) \<longrightarrow> page_state i s2 = page_state i s) \<and>
    (\<forall>j. get_zone j s2 = get_zone j s)"
proof -
  obtain c s1 where c: "c = uint (bm_current z)" "get_free_pages count flag s = Some (Some (page_to_va c s), s1)"
    "pages_taken c count flag zid (zone_take c count z) s s1" "minv (with_nodes (page_nodes c (c + count)) F) s1"
    using get_block [OF assms(1-11)] by metis
  have t: "page_read c s1 = Some (new_page s c count flag c)" "get_zone zid s1 = Some (zone_take c count z)"
    "kernel_start s1 = kernel_start s" "bm_size (page_map s1) = bm_size (page_map s)"
    using c(3) assms(7) by (simp_all add: page_ops)
  have n: "pg_flag (new_page s c count flag c) AND GFP_PAGE_HEADER \<noteq> 0"
    "zid = gfp_zone_id (pg_flag (new_page s c count flag c))" "count = uint (pg_count (new_page s c count flag c))"
    using assms(2,7,12) by (simp_all add: new_page_def word_ao_dist2 uint_word_of_int)
  have lim: "c + count \<le> bm_size (page_map s1)" using c(1) assms(4,9) t(4) by (simp add: zone_wf_def)
  obtain s2 where s2: "free_pages (page_to_va c s1) s1 = Some (Some (), s2)"
    "pages_freed c count zid (zone_take c count z) s1 s2"
    using free_pages_spec [OF c(4) t(1) n(1,2) t(2) n(3) lim] by blast
  have size: "bm_size (page_map s) \<le> 2 ^ 31" "bm_size (page_map s2) = bm_size (page_map s)"
    using assms(4) s2(2) t(4) by (simp_all add: zone_wf_def pages_freed_def same_bits_def)
  have "page_state i s2 = page_state i s" if i: "0 \<le> i" "i < bm_size (page_map s)" for i
  proof -
    have "bm_bit (page_map s2) i \<longleftrightarrow> bm_bit (page_map s) i"
      using s2(2) c(3) i t(4) assms(10) [of i] c(1) by (auto simp: pages_freed_def pages_taken_def same_bits_def)
    then show ?thesis using page_state_bit [of i s] page_state_bit [of i s2] i size by simp
  qed
  moreover have "get_zone j s2 = get_zone j s" for j
  proof -
    have "zone_give c count (zone_take c count z) = z"
      by (cases z) (simp add: zone_give_def zone_take_def c(1) Let_def)
    with s2(2) c(3) assms(3) show ?thesis by (simp add: pages_freed_def pages_taken_def)
  qed
  ultimately show ?thesis using c(2) s2(1) page_to_va_cong [OF t(3)] by auto
qed

theorem alloc_free_roundtrip_witness:
  "\<exists>va s1 s2. get_free_pages 3 GFP_KERNEL (machine [3, 0, 0, 0, 0, 0, 0, 0, 0]) = Some (Some va, s1) \<and>
    free_pages va s1 = Some (Some (), s2) \<and> get_zone 0 s2 = Some demo_zone"
  using alloc_free_roundtrip [OF machine_minv zone_id_kernel [symmetric] machine_zone machine_zone_wf demo_block_sizes demo_block_free demo_page_idle]
    machine_zone by auto


text \<open>
  \<^verbatim>\<open>get_free_pages\<close> refuses a count that is not positive, a flag that names no zone and a
  count above the zone's free pages: it returns \<^verbatim>\<open>NULL\<close> and no page, zone or bit changes.
\<close>

theorem get_free_pages_refuses:
  assumes inv: "minv F s"
    and "count \<le> 0 \<or> gfp_zone_id flag \<ge> MM_ZONE_UNKNOW \<or>
      (\<exists>z. get_zone (gfp_zone_id flag) s = Some z \<and> uint (z_free_pages z) < count \<and> count < 2 ^ 31)"
  shows "\<exists>s'. get_free_pages count flag s = Some (Some NULL, s') \<and> bank s' = bank s \<and>
    page_map s' = page_map s \<and> page_table s' = page_table s \<and> kernel_start s' = kernel_start s \<and> minv F s'"
proof (cases "count \<le> 0 \<or> gfp_zone_id flag \<ge> MM_ZONE_UNKNOW")
  case True
  then show ?thesis using inv by (auto simp: get_free_pages_def get_free_pages_zone_def)
next
  case False
  let ?id = "gfp_zone_id flag"
  obtain z where z: "get_zone ?id s = Some z" "uint (z_free_pages z) < count" "count < 2 ^ 31"
    using assms(2) False by blast
  have id0: "0 \<le> ?id" "?id < 4" using z(1) inv by (auto simp: get_zone_def lget_Some minv_def)
  obtain k1 k2 where lk: "mutex_lock (ZoneMutex (nat ?id)) (ks s) = Some (Lock_return 0, k1)"
    "mutex_unlock (ZoneMutex (nat ?id)) k1 = Some k2" "kinv F k2" "ks_quiet (ks s) k2"
    using zone_lock [of F "ks s" "ZoneMutex (nat ?id)"] inv id0 by (auto simp: minv_def)
  have "z_free_pages z < word_of_int count" using z(2,3) False by (simp add: word_less_def uint_word_of_int)
  then have "get_free_pages_locked ?id count flag (s\<lparr>ks := k1\<rparr>) = Some (NULL, s\<lparr>ks := k2\<rparr>)"
    using z(1) lk(2) by (simp add: get_free_pages_locked_def get_zone_def zone_unlock_def)
  then have "get_free_pages count flag s = Some (Some NULL, s\<lparr>ks := k2\<rparr>)"
    using False lk(1) by (simp add: get_free_pages_def get_free_pages_zone_def with_zone_lock_def Let_def)
  moreover have "minv F (s\<lparr>ks := k2\<rparr>)"
    using inv lk(3) mutex_free_quiet [OF lk(4)] by (simp add: minv_def)
  ultimately show ?thesis by auto
qed

theorem get_free_pages_refuses_witness:
  "\<exists>s'. get_free_pages 255 GFP_KERNEL (machine [3, 0, 0, 0, 0, 0, 0, 0, 0]) = Some (Some NULL, s') \<and>
    page_map s' = [3, 0, 0, 0, 0, 0, 0, 0, 0]"
  using get_free_pages_refuses [OF machine_minv, of "[3, 0, 0, 0, 0, 0, 0, 0, 0]" 255 GFP_KERNEL]
  by (auto simp: zone_id_kernel machine_zone) (auto simp: demo_zone_def machine_def)

text \<open>
  C19. The search does not start anew at a used page: with the page at the current position free,
  the next one used and the one after it free, a request for two pages is given the used page and
  its successor.
\<close>

theorem fragmented_block_overlaps:
  assumes inv: "minv F s" and zid: "zid = gfp_zone_id flag" and z: "get_zone zid s = Some z"
    and wf: "zone_wf (page_map s) z" "uint (bm_end z) < int (length (page_table s))"
    and c: "c = uint (bm_current z)" "c + 2 < uint (bm_end z)" "2 \<le> uint (z_free_pages z)"
    and bits: "\<not> bm_bit (page_map s) c" "bm_bit (page_map s) (c + 1)" "\<not> bm_bit (page_map s) (c + 2)"
    and idle: "\<And>i. page_idle F i"
  shows "\<exists>s'. get_free_pages 2 flag s = Some (Some (page_to_va (c + 1) s), s') \<and> page_state (c + 1) s = Some 1 \<and>
    page_read (c + 1) s' = Some (new_page s (c + 1) 2 flag (c + 1))"
proof -
  have c0: "0 \<le> c" unfolding c(1) by simp
  have lim: "c + 3 \<le> bm_size (page_map s)" "c + 3 \<le> int (length (page_table s))" "bm_size (page_map s) \<le> 2 ^ 31"
    using wf c(2) by (simp_all add: zone_wf_def)
  have "free_in (page_map s) c (uint (bm_end z)) = c # (c + 2) # free_in (page_map s) (c + 3) (uint (bm_end z))"
    using bits c(2) by (simp add: free_in_Cons add.assoc)
  then have "pick_pages (page_map s) z 2 = word_of_int (c + 1)"
    unfolding pick_pages_def c(1) [symmetric] by (simp add: Let_def)
  moreover have "bm_current z < bm_end z" using c by (simp add: word_less_def)
  ultimately have "find_continous_pages z 2 s = Some (word_of_int (c + 1))"
    using find_continous_pick [OF wf(1), of 2] by simp
  moreover have "zid < 4" using z inv by (auto simp: get_zone_def lget_Some minv_def)
  ultimately obtain s' where "get_free_pages 2 flag s = Some (Some (page_to_va (c + 1) s), s')"
    "pages_taken (c + 1) 2 flag zid (zone_take (c + 1) 2 z) s s'"
    using get_free_pages_spec [OF inv zid _ z, of 2 "c + 1"] c0 c(3) lim idle by auto
  moreover have "page_state (c + 1) s = Some 1" using page_state_bit [of "c + 1" s] bits(2) c0 lim by simp
  ultimately show ?thesis by (auto simp: pages_taken_def)
qed

theorem fragmented_block_overlaps_witness:
  "\<exists>s'. get_free_pages 2 GFP_KERNEL (machine [0xb, 0, 0, 0, 0, 0, 0, 0, 0]) = Some (Some 0xc0003000, s') \<and>
    page_state 3 (machine [0xb, 0, 0, 0, 0, 0, 0, 0, 0]) = Some 1"
proof -
  let ?pm = "[0xb, 0, 0, 0, 0, 0, 0, 0, 0]"
  have "uint (bm_end demo_zone) < int (length (page_table (machine ?pm)))" "(2::int) = uint (bm_current demo_zone)"
    "2 + 2 < uint (bm_end demo_zone)" "2 \<le> uint (z_free_pages demo_zone)"
    "\<not> bm_bit (page_map (machine ?pm)) 2" "bm_bit (page_map (machine ?pm)) (2 + 1)" "\<not> bm_bit (page_map (machine ?pm)) (2 + 2)"
    by (simp_all add: demo_zone_def machine_def bm_bit_def bit_numeral_rec)
  from fragmented_block_overlaps [OF machine_minv zone_id_kernel [symmetric] machine_zone machine_zone_wf this demo_page_idle]
  show ?thesis by (auto simp: machine_def page_to_va_def page_id_to_va_def page_to_page_id_def)
qed

end
