(* ===== verification/MmBoot.thy ===== *)
theory MmBoot
  imports MmAlloc Mmu
begin

text \<open>
  How the memory management starts, \<^verbatim>\<open>mm/mm.c\<close>: registering the memory regions of the platform,
  sorting them, filling the zones, splitting a zone for DMA off the normal one, giving every section its
  virtual address, building the kernel's translation table and the array and bit map of pages.

  The values of the boot code, \<^verbatim>\<open>kernel_start\<close>, \<^verbatim>\<open>kernel_phy_start\<close> and \<^verbatim>\<open>bss_end\<close>, are
  arguments, and so is \<open>junk\<close>, what the memory of the page array holds before it is
  initialised.
\<close>

section \<open>Regions\<close>

abbreviation (input) MEM_MAX_REGION :: int where "MEM_MAX_REGION \<equiv> 16"
abbreviation (input) MM_SECTION_ALIGIN :: u32 where "MM_SECTION_ALIGIN \<equiv> SIZE_1M"
abbreviation (input) NORMAL_MEM :: int where "NORMAL_MEM \<equiv> 0"
abbreviation (input) DMA_MEM :: int where "DMA_MEM \<equiv> 1"
abbreviation (input) IO_MEM :: int where "IO_MEM \<equiv> 3"
abbreviation (input) UNKNOW_MEM :: int where "UNKNOW_MEM \<equiv> 4"

record memory_region =
  r_start :: u32
  r_size :: u32
  r_attr :: int

record platform_info =
  region :: "memory_region list"
  region_nr :: int

definition init_platform_memory_region :: "platform_info \<Rightarrow> platform_info option" where
  "init_platform_memory_region info = do {
     info \<leftarrow> for_loop 0 MEM_MAX_REGION
       (\<lambda>i info. do {
          rs \<leftarrow> lput (region info) i \<lparr>r_start = 0, r_size = 0, r_attr = UNKNOW_MEM\<rparr>;
          Some (info\<lparr>region := rs\<rparr>)
        }) info;
     Some (info\<lparr>region_nr := 0\<rparr>)
   }"

definition register_memory_region :: "u32 \<Rightarrow> u32 \<Rightarrow> int \<Rightarrow> platform_info \<Rightarrow> platform_info option" where
  "register_memory_region start sz attr info =
     (let nr = region_nr info in
      if nr < MEM_MAX_REGION then
        (let new_start = baligin start MM_SECTION_ALIGIN;
             sz = sz - (new_start - start);
             sz = min_aligin sz MM_SECTION_ALIGIN
         in if is_aligin sz MM_SECTION_ALIGIN \<and> sz \<ge> PAGE_SIZE then do {
              rs \<leftarrow> lput (region info) nr \<lparr>r_start = new_start, r_size = sz, r_attr = attr\<rparr>;
              Some (info\<lparr>region := rs, region_nr := nr + 1\<rparr>)
            }
            else Some info)
      else Some info)"

definition tq2440_parse_memory_region :: "platform_info \<Rightarrow> platform_info option" where
  "tq2440_parse_memory_region info = do {
     info \<leftarrow> register_memory_region 0x30000000 (64 * 1024 * 1024) NORMAL_MEM info;
     register_memory_region 0x48000000 (0x5b000020 - 0x48000000) IO_MEM info
   }"

section \<open>Zones\<close>

definition init_memory_section :: "mm_section \<Rightarrow> mm_section" where
  "init_memory_section s = s\<lparr>phy_start := 0, vir_start := 0, sec_size := 0, pv_offset := 0, maped := False\<rparr>"

definition init_memory_bank :: "mstate \<Rightarrow> (int \<times> mstate) option" where
  "init_memory_bank s = do {
     let s = s\<lparr>bank := (bank s)\<lparr>total_size := 0, total_page := 0\<rparr>\<rparr>;
     s \<leftarrow> for_loop 0 MM_ZONE_UNKNOW
       (\<lambda>i s. do {
          z \<leftarrow> get_zone i s;
          let z = z\<lparr>nr_section := 0\<rparr>;
          let s = on_ks (init_mutex (ZoneMutex (nat i))) s;
          ss \<leftarrow> for_loop 0 (int ZONE_MAX_REGION)
            (\<lambda>j ss. do { x \<leftarrow> lget ss j; lput ss j (init_memory_section x) }) (memory_section z);
          put_zone i (z\<lparr>memory_section := ss\<rparr>) s
        }) s;
     Some (0, s)
   }"

definition insert_region_to_zone :: "memory_region \<Rightarrow> mm_zone \<Rightarrow> (u32 \<times> mm_zone) option" where
  "insert_region_to_zone r z =
     (if nr_section z = int ZONE_MAX_REGION then Some (0, z)
      else do {
        sc \<leftarrow> lget (memory_section z) (nr_section z);
        let sc = sc\<lparr>phy_start := r_start r, sec_size := r_size r\<rparr>;
        ss \<leftarrow> lput (memory_section z) (nr_section z) sc;
        let total = z_total_size z + sec_size sc;
        let num = drop_bit PAGE_SHIFT total;
        Some (sec_size sc, z\<lparr>memory_section := ss, nr_section := nr_section z + 1, z_total_size := total,
          z_free_size := total, z_page_num := num, z_free_pages := num\<rparr>)
      })"

text \<open>The three parts of \<^verbatim>\<open>handle_platform_memory_region\<close>: sort, insert, split.\<close>

definition find_min_region :: "int \<Rightarrow> int \<Rightarrow> memory_region list \<Rightarrow> int option" where
  "find_min_region i n rs =
     for_loop (i + 1) n
       (\<lambda>j m. do {
          a \<leftarrow> lget rs m;
          b \<leftarrow> lget rs j;
          Some (if r_start a > r_start b then j else m)
        }) i"

definition sort_regions :: "int \<Rightarrow> memory_region list \<Rightarrow> memory_region list option" where
  "sort_regions n rs =
     for_loop 0 n
       (\<lambda>i rs. do {
          m \<leftarrow> find_min_region i n rs;
          if m \<noteq> i then do {
            rtmp \<leftarrow> lget rs i;
            x \<leftarrow> lget rs m;
            rs \<leftarrow> lput rs i x;
            lput rs m rtmp
          }
          else Some rs
        }) rs"

definition insert_regions :: "platform_info \<Rightarrow> mm_bank \<Rightarrow> mm_bank option" where
  "insert_regions info b =
     for_loop 0 (region_nr info)
       (\<lambda>i b. do {
          r \<leftarrow> lget (region info) i;
          z \<leftarrow> lget (zone b) (r_attr r);
          (sz, z) \<leftarrow> insert_region_to_zone r z;
          zs \<leftarrow> lput (zone b) (r_attr r) z;
          let b = b\<lparr>zone := zs\<rparr>;
          Some (if r_attr r \<noteq> IO_MEM \<and> r_attr r \<noteq> UNKNOW_MEM then b\<lparr>total_size := total_size b + sz\<rparr> else b)
        }) b"

definition max_section :: "mm_zone \<Rightarrow> int option" where
  "max_section z =
     for_loop 0 (nr_section z)
       (\<lambda>i pr. do {
          a \<leftarrow> lget (memory_section z) i;
          p \<leftarrow> lget (memory_section z) pr;
          Some (if sec_size a > sec_size p then i else pr)
        }) 0"

text \<open>
  The search for a section of about the size wanted gives it with its index; the index counts only when a
  section was found.
\<close>

definition dma_candidate :: "mm_zone \<Rightarrow> mm_section \<Rightarrow> u32 \<Rightarrow> (mm_section \<times> int) option" where
  "dma_candidate z pr sz =
     for_loop 0 (nr_section z)
       (\<lambda>i (tmp, j). do {
          a \<leftarrow> lget (memory_section z) i;
          Some (if sec_size a < sec_size pr \<and> sec_size a \<ge> sz \<and> sec_size a < sec_size tmp then (a, i) else (tmp, j))
        }) (pr, 0)"

definition alloc_dma_zone :: "mm_bank \<Rightarrow> mm_bank option" where
  "alloc_dma_zone b = do {
     z \<leftarrow> lget (zone b) MM_ZONE_NORMAL;
     let sz = baligin (drop_bit 4 (z_total_size z)) 0x100000;
     i \<leftarrow> max_section z;
     pr \<leftarrow> lget (memory_section z) i;
     (tmp, j) \<leftarrow> (if nr_section z > 1 then dma_candidate z pr sz else Some (pr, 0));
     (z, rtmp) \<leftarrow>
       (if nr_section z > 1 \<and> sec_size tmp \<noteq> sec_size pr \<and> sec_size tmp - sz \<le> drop_bit 5 (z_total_size z) then do {
          sj \<leftarrow> lget (memory_section z) j;
          ss \<leftarrow> lput (memory_section z) j (sj\<lparr>sec_size := 0, phy_start := 0, pv_offset := 0\<rparr>);
          Some (z\<lparr>memory_section := ss, nr_section := nr_section z - 1\<rparr>,
                \<lparr>r_start = phy_start tmp, r_size = sec_size tmp, r_attr = DMA_MEM\<rparr>)
        }
        else do {
          ss \<leftarrow> lput (memory_section z) i (pr\<lparr>sec_size := sec_size pr - sz\<rparr>);
          Some (z\<lparr>memory_section := ss\<rparr>,
                \<lparr>r_start = phy_start pr + sec_size pr - sz, r_size = sz, r_attr = DMA_MEM\<rparr>)
        });
     let num = z_page_num z - drop_bit PAGE_SHIFT (r_size rtmp);
     let z = z\<lparr>z_total_size := z_total_size z - r_size rtmp, z_free_size := z_free_size z - r_size rtmp,
               z_page_num := num, z_free_pages := num\<rparr>;
     zs \<leftarrow> lput (zone b) MM_ZONE_NORMAL z;
     d \<leftarrow> lget zs MM_ZONE_DMA;
     (_, d) \<leftarrow> insert_region_to_zone rtmp d;
     zs \<leftarrow> lput zs MM_ZONE_DMA d;
     Some (b\<lparr>zone := zs\<rparr>)
   }"

definition handle_platform_memory_region ::
  "platform_info \<Rightarrow> mm_bank \<Rightarrow> (int \<times> platform_info \<times> mm_bank) option" where
  "handle_platform_memory_region info b = do {
     rs \<leftarrow> sort_regions (region_nr info) (region info);
     let info = info\<lparr>region := rs\<rparr>;
     b \<leftarrow> insert_regions info b;
     d \<leftarrow> lget (zone b) MM_ZONE_DMA;
     b \<leftarrow> (if nr_section d = 0 then alloc_dma_zone b else Some b);
     Some (0, info, b)
   }"

section \<open>Virtual addresses\<close>

definition map_section_to_virtual :: "mm_section \<Rightarrow> u32 \<Rightarrow> u32 \<times> mm_section" where
  "map_section_to_virtual sc map_base =
     (sec_size sc, sc\<lparr>vir_start := map_base, pv_offset := map_base - phy_start sc, maped := True\<rparr>)"

definition map_zone_to_virtual :: "mm_zone \<Rightarrow> u32 \<Rightarrow> (u32 \<times> mm_zone) option" where
  "map_zone_to_virtual z map_base = do {
     (z, new_base) \<leftarrow> for_loop 0 (nr_section z)
       (\<lambda>i (z, new_base). do {
          sc \<leftarrow> lget (memory_section z) i;
          if sec_size sc > 0 \<and> \<not> maped sc then do {
            let (sz, sc) = map_section_to_virtual sc new_base;
            ss \<leftarrow> lput (memory_section z) i sc;
            Some (z\<lparr>memory_section := ss\<rparr>, new_base + sz)
          }
          else Some (z, new_base)
        }) (z, map_base);
     Some (new_base - map_base, z)
   }"

text \<open>The loop that maps the section the kernel is loaded at; \<open>n\<close> is \<^verbatim>\<open>zone->nr_section - i\<close>.\<close>

fun map_kernel_section :: "nat \<Rightarrow> int \<Rightarrow> u32 \<Rightarrow> mm_zone \<Rightarrow> u32 \<Rightarrow> (u32 \<times> mm_zone) option" where
  "map_kernel_section 0 i kernel_phy_start z map_base = Some (map_base, z)"
| "map_kernel_section (Suc n) i kernel_phy_start z map_base = do {
     sc \<leftarrow> lget (memory_section z) i;
     if phy_start sc = kernel_phy_start then do {
       let (sz, sc) = map_section_to_virtual sc map_base;
       ss \<leftarrow> lput (memory_section z) i sc;
       Some (map_base + sz, z\<lparr>memory_section := ss\<rparr>)
     }
     else map_kernel_section n (i + 1) kernel_phy_start z map_base
   }"

definition map_zone_memory :: "u32 \<Rightarrow> u32 \<Rightarrow> mm_bank \<Rightarrow> (u32 \<times> mm_bank) option" where
  "map_zone_memory kstart kernel_phy_start b = do {
     z \<leftarrow> lget (zone b) MM_ZONE_NORMAL;
     (map_base, z) \<leftarrow> map_kernel_section (nat (nr_section z)) 0 kernel_phy_start z kstart;
     zs \<leftarrow> lput (zone b) MM_ZONE_NORMAL z;
     (map_base, zs) \<leftarrow> for_loop 0 MM_ZONE_UNKNOW
       (\<lambda>i (map_base, zs). do {
          z \<leftarrow> lget zs i;
          (sz, z) \<leftarrow> map_zone_to_virtual z map_base;
          zs \<leftarrow> lput zs i z;
          Some (map_base + sz, zs)
        }) (map_base, zs);
     Some (map_base, b\<lparr>zone := zs\<rparr>)
   }"

section \<open>The translation table\<close>

definition zone_attr :: "int \<Rightarrow> u32" where
  "zone_attr i =
     (if i = MM_ZONE_NORMAL then TLB_ATTR_KERNEL_MEMORY
      else if i = MM_ZONE_DMA then TLB_ATTR_DMA_MEMORY
      else if i = MM_ZONE_IO then TLB_ATTR_IO_MEMORY
      else TLB_ATTR_KERNEL_MEMORY)"

definition map_memory :: "u32 \<Rightarrow> u32 \<Rightarrow> mm_bank \<Rightarrow> wmem \<Rightarrow> wmem option" where
  "map_memory kstart bss_end b m = do {
     let already_map = baligin (bss_end - kstart) 0x100000;
     for_loop 0 MM_ZONE_UNKNOW
       (\<lambda>i m. do {
          z \<leftarrow> lget (zone b) i;
          let flag = zone_attr i;
          for_loop 0 (nr_section z)
            (\<lambda>j m. do {
               sc \<leftarrow> lget (memory_section z) j;
               m \<leftarrow> (if vir_start sc = kstart then do {
                  (_, m) \<leftarrow> build_tlb_table_entry (vir_start sc - already_map) (phy_start sc - already_map)
                    (sec_size sc - already_map) flag m;
                  Some m
                } else Some m);
               (_, m) \<leftarrow> build_tlb_table_entry (vir_start sc) (phy_start sc) (sec_size sc) flag m;
               Some m
             }) m
        }) m
   }"

definition clear_user_tlb :: "wmem \<Rightarrow> wmem option" where
  "clear_user_tlb m = clear_tlb_entry 0x0 2048 m"

section \<open>The array and the bit map of pages\<close>

abbreviation (input) sizeof_page :: u32 where "sizeof_page \<equiv> 24"

text \<open>The loop that looks for the kernel's section; without one the offset is not initialised.\<close>

fun kernel_pv_offset :: "nat \<Rightarrow> int \<Rightarrow> u32 \<Rightarrow> mm_zone \<Rightarrow> u32 option" where
  "kernel_pv_offset 0 i kstart z = None"
| "kernel_pv_offset (Suc n) i kstart z = do {
     sc \<leftarrow> lget (memory_section z) i;
     if kstart = vir_start sc then Some (pv_offset sc) else kernel_pv_offset n (i + 1) kstart z
   }"

definition init_kernel_page :: "u32 \<Rightarrow> int \<Rightarrow> u32 \<times> mstate \<Rightarrow> (u32 \<times> mstate) option" where
  "init_kernel_page pv i = (\<lambda>(tmp, s). do {
     pm \<leftarrow> os_set_bit (page_map s) i;
     let s = s\<lparr>page_map := pm\<rparr>;
     p \<leftarrow> page_read i s;
     let s = on_ks (on_lists (init_list (N_page (word_of_int i)))) s;
     s \<leftarrow> page_write i (p\<lparr>phy_address := tmp - pv, pg_free_size := 0, pg_free_base := 0, pg_count := 0, pg_usage := 1\<rparr>) s;
     Some (tmp + PAGE_SIZE, s)
   })"

definition init_page_table_map :: "page list \<Rightarrow> u32 \<Rightarrow> mstate \<Rightarrow> (int \<times> mstate) option" where
  "init_page_table_map junk kernel_end s = do {
     let n = total_page (bank s);
     z \<leftarrow> get_zone MM_ZONE_NORMAL s;
     let pt = baligin kernel_end 4;
     let pm = baligin (pt + sizeof_page * n) 4;
     let tmp = pm + 4 * bits_to_long n;
     let s = s\<lparr>page_table := take (unat n) junk, page_map := replicate (unat (bits_to_long n)) 0\<rparr>;
     let sz = baligin (tmp - kernel_start s) PAGE_SIZE;
     let z = z\<lparr>z_free_size := z_free_size z - sz\<rparr>;
     let sz = drop_bit PAGE_SHIFT sz;
     let z = z\<lparr>z_free_pages := z_free_pages z - sz\<rparr>;
     pv \<leftarrow> kernel_pv_offset (nat (nr_section z)) 0 (kernel_start s) z;
     (_, s) \<leftarrow> for_loop 0 (uint sz) (init_kernel_page pv) (kernel_start s, s);
     s \<leftarrow> put_zone MM_ZONE_NORMAL (z\<lparr>bm_start := 0, bm_current := sz, bm_end := z_page_num z\<rparr>) s;
     let i = z_page_num z;
     d \<leftarrow> get_zone MM_ZONE_DMA s;
     s \<leftarrow> put_zone MM_ZONE_DMA (d\<lparr>bm_start := i, bm_current := i, bm_end := i + z_page_num d\<rparr>) s;
     let i = i + z_page_num d;
     r \<leftarrow> get_zone MM_ZONE_RES s;
     s \<leftarrow> put_zone MM_ZONE_RES (r\<lparr>bm_start := i, bm_current := i, bm_end := i + z_page_num r\<rparr>) s;
     Some (0, s)
   }"

text \<open>\<^verbatim>\<open>mm_init\<close>; \<open>parse\<close> is the member \<^verbatim>\<open>parse_memory_region\<close> of the platform.\<close>

definition mm_init ::
  "(platform_info \<Rightarrow> platform_info option) \<Rightarrow> page list \<Rightarrow> u32 \<Rightarrow> u32 \<Rightarrow> platform_info \<Rightarrow> wmem \<Rightarrow> mstate \<Rightarrow>
   (int \<times> platform_info \<times> wmem \<times> mstate) option" where
  "mm_init parse junk bss_end kernel_phy_start info m s = do {
     let kernel_end = bss_end;
     info \<leftarrow> init_platform_memory_region info;
     info \<leftarrow> parse info;
     (_, s) \<leftarrow> init_memory_bank s;
     (_, info, b) \<leftarrow> handle_platform_memory_region info (bank s);
     let b = b\<lparr>total_section := word_of_int (region_nr info), total_page := drop_bit PAGE_SHIFT (total_size b)\<rparr>;
     (_, b) \<leftarrow> map_zone_memory (kernel_start s) kernel_phy_start b;
     let s = s\<lparr>bank := b\<rparr>;
     m \<leftarrow> map_memory (kernel_start s) bss_end b m;
     (_, s) \<leftarrow> init_page_table_map junk kernel_end s;
     m \<leftarrow> clear_user_tlb m;
     Some (0, info, m, s)
   }"

text \<open>\<^verbatim>\<open>build_page_table_entry\<close> of \<^verbatim>\<open>kernel/mmu.c\<close> and \<^verbatim>\<open>request_io_mem\<close> of \<^verbatim>\<open>kernel/io.c\<close>.\<close>

definition build_page_table_entry :: "u32 \<Rightarrow> u32 \<Rightarrow> u32 \<Rightarrow> u32 \<Rightarrow> mstate \<Rightarrow> wmem \<Rightarrow> (int \<times> wmem) option" where
  "build_page_table_entry base vstart sz flag s m = do {
     pa \<leftarrow> va_to_pa vstart s;
     build_page_table_entry_pa base pa sz flag m
   }"

definition request_io_mem :: "u32 \<Rightarrow> mstate \<Rightarrow> u32 option" where
  "request_io_mem addr s = pa_to_va addr s"

end
