(* ===== verification/MmBootProps.thy ===== *)
theory MmBootProps
  imports MmBoot SchedProps "HOL-Library.Multiset"
begin

text \<open>
  What the boot of the memory management establishes: regions inside what the platform registered,
  sorted; the layout of the TQ2440 board; and the page map after initialisation.
\<close>

section \<open>Sorting the regions\<close>

lemma find_min_region_spec:
  assumes "0 \<le> i" "i < n" "n \<le> int (length rs)"
  shows "\<exists>m. find_min_region i n rs = Some m \<and> i \<le> m \<and> m < n \<and>
    (\<forall>k. i \<le> k \<longrightarrow> k < n \<longrightarrow> r_start (rs ! nat m) \<le> r_start (rs ! nat k))"
proof -
  let ?P = "\<lambda>j m. i \<le> m \<and> m < n \<and> (\<forall>k. i \<le> k \<longrightarrow> k < j \<longrightarrow> r_start (rs ! nat m) \<le> r_start (rs ! nat k))"
  have "\<exists>t'. (do { a \<leftarrow> lget rs m; b \<leftarrow> lget rs j; Some (if r_start a > r_start b then j else m) }) = Some t' \<and> ?P (j + 1) t'"
    if j: "i + 1 \<le> j" "j < n" and m: "?P j m" for j m
  proof -
    have "nat m < length rs" "nat j < length rs" using j m assms by linarith+
    then have get: "lget rs m = Some (rs ! nat m)" "lget rs j = Some (rs ! nat j)"
      using j m assms by (simp_all add: lget_def)
    have "r_start (rs ! nat (if r_start (rs ! nat m) > r_start (rs ! nat j) then j else m)) \<le> r_start (rs ! nat k)"
      if "i \<le> k" "k < j + 1" for k
      using m that by (cases "k = j") (auto simp: not_less intro: order.trans less_imp_le)
    then show ?thesis using get j m by auto
  qed
  moreover have "?P (i + 1) i" using assms by auto
  ultimately show ?thesis
    unfolding find_min_region_def using for_loop_inv [of ?P "i + 1" i n] assms(2) by simp
qed

definition sorted_upto :: "int \<Rightarrow> int \<Rightarrow> memory_region list \<Rightarrow> bool" where
  "sorted_upto i n rs \<longleftrightarrow> (\<forall>a b. 0 \<le> a \<longrightarrow> a < i \<longrightarrow> a \<le> b \<longrightarrow> b < n \<longrightarrow> r_start (rs ! nat a) \<le> r_start (rs ! nat b))"

lemma sort_step:
  assumes i: "0 \<le> i" "i < n" and n: "n \<le> int (length rs)" and s: "sorted_upto i n rs"
    and m: "i \<le> m" "m < n" "\<And>k. i \<le> k \<Longrightarrow> k < n \<Longrightarrow> r_start (rs ! nat m) \<le> r_start (rs ! nat k)"
  shows "sorted_upto (i + 1) n (rs[nat i := rs ! nat m, nat m := rs ! nat i])"
  unfolding sorted_upto_def
proof (intro allI impI)
  fix a b
  assume ab: "0 \<le> a" "a < i + 1" "a \<le> b" "b < n"
  let ?rs = "rs[nat i := rs ! nat m, nat m := rs ! nat i]"
  have nth: "?rs ! nat k = rs ! nat (if k = m then i else if k = i then m else k)" if "0 \<le> k" "k < n" for k
    using that i m n by (auto simp: nth_list_update)
  show "r_start (?rs ! nat a) \<le> r_start (?rs ! nat b)"
  proof (cases "a = i")
    case True
    then show ?thesis using ab i m nth [of a] nth [of b] m(3) [of i] m(3) [of b] by auto
  next
    case False
    then have "a < i" using ab by simp
    moreover have "r_start (rs ! nat a) \<le> r_start (rs ! nat c)" if "a \<le> c" "c < n" for c
      using s that \<open>a < i\<close> ab by (simp add: sorted_upto_def)
    ultimately show ?thesis using ab i m nth [of a] nth [of b] by auto
  qed
qed

lemma sort_regions_spec:
  assumes n: "0 \<le> n" "n \<le> int (length rs)"
  shows "\<exists>rs'. sort_regions n rs = Some rs' \<and> mset rs' = mset rs \<and> sorted_upto n n rs' \<and>
    drop (nat n) rs' = drop (nat n) rs"
proof -
  let ?P = "\<lambda>i rs'. mset rs' = mset rs \<and> sorted_upto i n rs' \<and> drop (nat n) rs' = drop (nat n) rs"
  have "\<exists>t'. (do {
          m \<leftarrow> find_min_region i n t;
          if m \<noteq> i then do { rtmp \<leftarrow> lget t i; x \<leftarrow> lget t m; t \<leftarrow> lput t i x; lput t m rtmp }
          else Some t }) = Some t' \<and> ?P (i + 1) t'"
    if i: "0 \<le> i" "i < n" and t: "?P i t" for i t
  proof -
    have len: "n \<le> int (length t)" using n t by (metis size_mset)
    obtain m where m: "find_min_region i n t = Some m" "i \<le> m" "m < n"
      "\<And>k. i \<le> k \<Longrightarrow> k < n \<Longrightarrow> r_start (t ! nat m) \<le> r_start (t ! nat k)"
      using find_min_region_spec [OF i len] by blast
    let ?t = "t[nat i := t ! nat m, nat m := t ! nat i]"
    have sorted: "sorted_upto (i + 1) n ?t" using sort_step [OF i len _ m(2,3,4)] t by blast
    have "mset ?t = mset t" using mset_swap [of "nat m" t "nat i"] i m len by simp
    moreover have "drop (nat n) ?t = drop (nat n) t" using i m by (simp add: drop_update_cancel)
    moreover have "(if m \<noteq> i then do { rtmp \<leftarrow> lget t i; x \<leftarrow> lget t m; t \<leftarrow> lput t i x; lput t m rtmp } else Some t) = Some ?t"
      using i m len by (auto simp: lget_def lput_def)
    ultimately show ?thesis using m(1) sorted t by simp
  qed
  moreover have "?P 0 rs" by (simp add: sorted_upto_def)
  ultimately show ?thesis
    unfolding sort_regions_def using for_loop_inv [of ?P 0 rs n] n(1) by simp
qed

text \<open>
  The memory regions are sorted by their start address, none is lost or changed, and the unused
  entries of the table stay.
\<close>

theorem regions_sorted:
  assumes "0 \<le> n" "n \<le> int (length rs)"
  shows "\<exists>rs'. sort_regions n rs = Some rs' \<and> mset rs' = mset rs \<and>
    sorted (map r_start (take (nat n) rs')) \<and> drop (nat n) rs' = drop (nat n) rs"
proof -
  obtain rs' where rs': "sort_regions n rs = Some rs'" "mset rs' = mset rs" "sorted_upto n n rs'"
    "drop (nat n) rs' = drop (nat n) rs"
    using sort_regions_spec [OF assms] by blast
  have "r_start (rs' ! a) \<le> r_start (rs' ! b)" if "a \<le> b" "b < nat n" for a b
  proof -
    have "int a < n" "int b < n" using that by linarith+
    with rs'(3) [unfolded sorted_upto_def, rule_format, of "int a" "int b"] that show ?thesis by simp
  qed
  then have "sorted (map r_start (take (nat n) rs'))" by (simp add: sorted_iff_nth_mono)
  with rs' show ?thesis by blast
qed

theorem regions_sorted_witness:
  "\<exists>rs'. sort_regions 2 [\<lparr>r_start = 9, r_size = 1, r_attr = 3\<rparr>, \<lparr>r_start = 4, r_size = 2, r_attr = 0\<rparr>] = Some rs' \<and>
    sorted (map r_start (take 2 rs'))"
  using regions_sorted [of 2 "[\<lparr>r_start = 9, r_size = 1, r_attr = 3\<rparr>, \<lparr>r_start = 4, r_size = 2, r_attr = 0\<rparr>]"]
  by auto

section \<open>Registering a region\<close>

lemma register_size:
  fixes start sz :: u32
  assumes "unat start + unat sz < 2 ^ 32" "unat start + 2 ^ 20 \<le> 2 ^ 32"
    and "unat (baligin start SIZE_1M) - unat start \<le> unat sz"
  shows "unat (sz - (baligin start SIZE_1M - start)) = unat start + unat sz - unat (baligin start SIZE_1M)"
    and "unat start \<le> unat (baligin start SIZE_1M)"
proof -
  show ge: "unat start \<le> unat (baligin start SIZE_1M)"
    using baligin_least(2) [of 20 start] assms(2) by simp
  then have "unat (baligin start SIZE_1M - start) = unat (baligin start SIZE_1M) - unat start"
    by (simp add: unat_sub word_le_nat_alt)
  then show "unat (sz - (baligin start SIZE_1M - start)) = unat start + unat sz - unat (baligin start SIZE_1M)"
    using assms(3) ge by (simp add: unat_sub word_le_nat_alt)
qed

lemma min_aligin_1M:
  "unat (min_aligin x SIZE_1M) = unat x div 2 ^ 20 * 2 ^ 20" "is_aligin (min_aligin x SIZE_1M) SIZE_1M"
proof -
  have "(NOT (SIZE_1M - 1) :: u32) = NOT (mask 20)" by (simp add: mask_eq_exp_minus_1)
  then show u: "unat (min_aligin x SIZE_1M) = unat x div 2 ^ 20 * 2 ^ 20"
    by (simp only: min_aligin_def unat_and_not_mask)
  then show "is_aligin (min_aligin x SIZE_1M) SIZE_1M"
    using is_aligin_unat [of "min_aligin x SIZE_1M" 20] by simp
qed

text \<open>
  \<^verbatim>\<open>register_memory_region\<close> enters a region that is aligned to a megabyte and lies inside the
  memory given to it, or, when less than one aligned megabyte of it is left, changes nothing.
\<close>

theorem register_region_inside:
  assumes nr: "0 \<le> region_nr info" "region_nr info < MEM_MAX_REGION" "length (region info) = 16"
    and fit: "unat start + unat sz < 2 ^ 32" "unat start + 2 ^ 20 \<le> 2 ^ 32"
      "unat (baligin start SIZE_1M) - unat start \<le> unat sz"
  shows "\<exists>info'. register_memory_region start sz attr info = Some info' \<and>
    (info' = info \<or>
     (\<exists>r. region_nr info' = region_nr info + 1 \<and> region info' = (region info)[nat (region_nr info) := r] \<and>
       r_attr r = attr \<and> is_aligin (r_start r) SIZE_1M \<and> is_aligin (r_size r) SIZE_1M \<and> PAGE_SIZE \<le> r_size r \<and>
       unat start \<le> unat (r_start r) \<and> unat (r_start r) + unat (r_size r) \<le> unat start + unat sz))"
proof -
  let ?n = "baligin start SIZE_1M" and ?z = "min_aligin (sz - (baligin start SIZE_1M - start)) SIZE_1M"
  let ?r = "\<lparr>r_start = ?n, r_size = ?z, r_attr = attr\<rparr>"
  have n: "is_aligin ?n SIZE_1M" "unat start \<le> unat ?n"
    using baligin_least [of 20 start] fit(2) by simp_all
  have "unat ?z \<le> unat (sz - (?n - start))" unfolding min_aligin_1M(1) by (rule div_times_less_eq_dividend)
  then have z: "unat ?n + unat ?z \<le> unat start + unat sz"
    using register_size [OF fit] fit(3) by linarith
  show ?thesis
  proof (cases "PAGE_SIZE \<le> ?z")
    case True
    then have "register_memory_region start sz attr info =
        Some (info\<lparr>region := (region info)[nat (region_nr info) := ?r], region_nr := region_nr info + 1\<rparr>)"
      using nr min_aligin_1M(2) by (simp add: register_memory_region_def Let_def lput_def)
    with True n z min_aligin_1M(2) show ?thesis by (intro exI conjI disjI2) (assumption | simp)+
  next
    case False
    then have "register_memory_region start sz attr info = Some info"
      by (simp add: register_memory_region_def Let_def)
    then show ?thesis by blast
  qed
qed

theorem register_region_inside_witness:
  "\<exists>info'. register_memory_region 0x30000800 0x4000000 0
      \<lparr>region = replicate 16 \<lparr>r_start = 0, r_size = 0, r_attr = 4\<rparr>, region_nr = 0\<rparr> = Some info' \<and>
    (region_nr info' = 0 \<or> r_start (region info' ! 0) = 0x30100000 \<or> 0x30000800 \<le> unat (r_start (region info' ! 0)))"
  using register_region_inside [of "\<lparr>region = replicate 16 \<lparr>r_start = 0, r_size = 0, r_attr = 4\<rparr>, region_nr = 0\<rparr>"
      "0x30000800" "0x4000000" 0]
  by (auto simp: baligin_def)

section \<open>The TQ2440 board\<close>

definition no_region :: memory_region where
  "no_region = \<lparr>r_start = 0, r_size = 0, r_attr = 0\<rparr>"

definition null_section :: mm_section where
  "null_section = \<lparr>phy_start = 0, vir_start = 0, sec_size = 0, pv_offset = 0, maped = False\<rparr>"

definition null_zone :: mm_zone where
  "null_zone = \<lparr>memory_section = replicate 4 null_section, nr_section = 0, z_total_size = 0, z_free_size = 0,
     z_page_num = 0, z_free_pages = 0, bm_start = 0, bm_end = 0, bm_current = 0\<rparr>"

definition null_bank :: mm_bank where
  "null_bank = \<lparr>total_size = 0, total_page = 0, total_section = 0, zone = replicate 4 null_zone\<rparr>"

definition board_zone :: "u32 \<Rightarrow> u32 \<Rightarrow> u32 \<Rightarrow> mm_zone" where
  "board_zone pa va sz = null_zone\<lparr>memory_section :=
       \<lparr>phy_start = pa, vir_start = va, sec_size = sz, pv_offset = va - pa, maped = True\<rparr> # replicate 3 null_section,
     nr_section := 1, z_total_size := sz, z_free_size := sz, z_page_num := sz div 4096, z_free_pages := sz div 4096\<rparr>"

text \<open>
  On the TQ2440 the 64 megabytes of memory become 60 for the kernel at its base and 4, split off the
  top, for DMA right behind; the I/O registers follow; no two sections share physical or virtual addresses.
\<close>

theorem tq2440_layout:
  "do { info \<leftarrow> init_platform_memory_region \<lparr>region = replicate 16 no_region, region_nr = 0\<rparr>;
        info \<leftarrow> tq2440_parse_memory_region info;
        (_, info, b) \<leftarrow> handle_platform_memory_region info null_bank;
        map_zone_memory 0x80000000 0x30000000 b } =
   Some (0x97000000, null_bank\<lparr>total_size := 0x4000000, zone := [board_zone 0x30000000 0x80000000 0x3c00000,
     board_zone 0x33c00000 0x83c00000 0x400000, null_zone, board_zone 0x48000000 0x84000000 0x13000000]\<rparr>)"
  by code_simp

section \<open>The page map after initialisation\<close>

lemma init_kernel_page_step:
  assumes "0 \<le> i" "i < int (length (page_table t))" "i < bm_size (page_map t)" "bm_size (page_map t) \<le> 2 ^ 31"
  shows "\<exists>p t'. init_kernel_page pv i (a, t) = Some (a + PAGE_SIZE, t') \<and> bank t' = bank t \<and> kernel_start t' = kernel_start t \<and>
    length (page_table t') = length (page_table t) \<and>
    same_bits (\<lambda>j. j = i \<or> bm_bit (page_map t) j) t t' \<and> phy_address p = a - pv \<and> pg_usage p = 1 \<and>
    (\<forall>j. page_read j t' = (if j = i then Some p else page_read j t))"
proof -
  obtain pm where pm: "os_set_bit (page_map t) i = Some pm" "bm_size pm = bm_size (page_map t)"
    "\<forall>j. 0 \<le> j \<longrightarrow> j < bm_size (page_map t) \<longrightarrow> bm_bit pm j = (j = i \<or> bm_bit (page_map t) j)"
    using os_bits.st [of i "page_map t"] assms by auto
  let ?p = "(page_table t ! nat i)\<lparr>phy_address := a - pv, pg_free_size := 0, pg_free_base := 0, pg_count := 0, pg_usage := 1\<rparr>"
  let ?t = "on_ks (on_lists (init_list (N_page (word_of_int i)))) (t\<lparr>page_map := pm\<rparr>)"
  have tt: "page_table ?t = page_table t" "bank ?t = bank t" "kernel_start ?t = kernel_start t" "page_map ?t = pm"
    by (simp_all add: on_ks_def)
  obtain t' where t': "page_write i ?p ?t = Some t'" using page_write_in [of i ?t] assms tt(1) by simp
  have "page_read i (t\<lparr>page_map := pm\<rparr>) = Some (page_table t ! nat i)" using assms by (simp add: page_read_def)
  then have "init_kernel_page pv i (a, t) = Some (a + PAGE_SIZE, t')"
    using pm(1) t' by (simp add: init_kernel_page_def)
  moreover have "page_read j t' = (if j = i then Some ?p else page_read j t)" for j
    using page_read_write [OF t', of j] tt(1) by (simp add: page_read_def)
  moreover have "same_bits (\<lambda>j. j = i \<or> bm_bit (page_map t) j) t t'"
    using page_write_sel(3) [OF t'] tt pm by (simp add: same_bits_def)
  ultimately show ?thesis using page_write_sel [OF t'] tt
    by (intro exI [of _ ?p] exI [of _ t'] conjI) simp_all
qed

lemma init_kernel_pages:
  assumes K: "0 \<le> K" "K \<le> int (length (page_table s))" "K \<le> bm_size (page_map s)" "bm_size (page_map s) \<le> 2 ^ 31"
  shows "\<exists>a' t. for_loop 0 K (init_kernel_page pv) (a, s) = Some (a', t) \<and> bank t = bank s \<and> kernel_start t = kernel_start s \<and>
    same_bits (\<lambda>j. j < K \<or> bm_bit (page_map s) j) s t \<and>
    (\<forall>j. 0 \<le> j \<longrightarrow> j < K \<longrightarrow> (\<exists>p. page_read j t = Some p \<and> phy_address p = a + word_of_int j * PAGE_SIZE - pv \<and> pg_usage p = 1))"
proof -
  let ?P = "\<lambda>k (a', t). a' = a + word_of_int k * PAGE_SIZE \<and> bank t = bank s \<and> kernel_start t = kernel_start s \<and>
    length (page_table t) = length (page_table s) \<and> same_bits (\<lambda>j. j < k \<or> bm_bit (page_map s) j) s t \<and>
    (\<forall>j. 0 \<le> j \<longrightarrow> j < k \<longrightarrow> (\<exists>p. page_read j t = Some p \<and> phy_address p = a + word_of_int j * PAGE_SIZE - pv \<and> pg_usage p = 1))"
  have "\<exists>u'. init_kernel_page pv k u = Some u' \<and> ?P (k + 1) u'" if k: "0 \<le> k" "k < K" and u: "?P k u" for k u
  proof -
    obtain b t where bt: "u = (b, t)" by (cases u)
    have size: "bm_size (page_map t) = bm_size (page_map s)" "length (page_table t) = length (page_table s)"
      using u bt by (simp_all add: same_bits_def)
    obtain p t' where t': "init_kernel_page pv k (b, t) = Some (b + PAGE_SIZE, t')" "bank t' = bank t" "kernel_start t' = kernel_start t"
      "length (page_table t') = length (page_table t)" "same_bits (\<lambda>j. j = k \<or> bm_bit (page_map t) j) t t'"
      "phy_address p = b - pv" "pg_usage p = 1" "\<forall>j. page_read j t' = (if j = k then Some p else page_read j t)"
      using init_kernel_page_step [of k t pv b] k K size by auto
    have "same_bits (\<lambda>j. j < k + 1 \<or> bm_bit (page_map s) j) s t'"
      using t'(5) u bt by (auto simp: same_bits_def)
    then show ?thesis using t' u bt by (auto simp: algebra_simps)
  qed
  moreover have "?P 0 (a, s)" by (auto simp: same_bits_def)
  ultimately have "\<exists>u'. for_loop 0 K (init_kernel_page pv) (a, s) = Some u' \<and> ?P K u'"
    using for_loop_inv [of ?P 0 "(a, s)" K "init_kernel_page pv"] K(1) by blast
  then show ?thesis by auto
qed

text \<open>The address behind the page array and the bit map, and the pages up to there.\<close>

definition tables_end :: "u32 \<Rightarrow> u32 \<Rightarrow> u32" where
  "tables_end kernel_end n = baligin (baligin kernel_end 4 + sizeof_page * n) 4 + 4 * bits_to_long n"

definition kernel_pages :: "u32 \<Rightarrow> u32 \<Rightarrow> u32 \<Rightarrow> u32" where
  "kernel_pages kernel_end n kstart = drop_bit PAGE_SHIFT (baligin (tables_end kernel_end n - kstart) PAGE_SIZE)"

lemma bm_bit_replicate: "0 \<le> i \<Longrightarrow> i < 32 * int n \<Longrightarrow> \<not> bm_bit (replicate n 0) i"
  by (simp add: bm_bit_def nth_replicate nat_less_iff div_less_iff_less_mult)

lemma bits_to_long_size: "unat n mod 64 = 0 \<Longrightarrow> bm_size (replicate (unat (bits_to_long n)) 0) = uint n + 32"
proof -
  assume n: "unat n mod 64 = 0"
  then obtain q where "unat n = 64 * q" by auto
  then have "32 * (unat n div 64 * 2 + 1) = unat n + 32" by simp
  then have "int (32 * (unat n div 64 * 2 + 1)) = int (unat n + 32)" by (rule arg_cong)
  then show ?thesis by (simp add: bm_size_def bits_to_long_unat)
qed

text \<open>
  C18. After \<^verbatim>\<open>init_page_table_map\<close> exactly the pages from the kernel's base to the end of the page
  array and its bit map are in use, each with one reference and its physical address; the normal zone
  starts searching behind them and has that many free pages less.
\<close>

theorem page_map_after_init:
  assumes z: "get_zone 0 s = Some z" and len: "length (zone (bank s)) = 4"
    and n: "n = total_page (bank s)" "unat n mod 64 = 0" "unat n \<le> length junk" "uint n \<le> 2 ^ 20"
    and pv: "kernel_pv_offset (nat (nr_section z)) 0 (kernel_start s) z = Some pv"
    and K: "K = kernel_pages kernel_end n (kernel_start s)" "K \<le> n"
  shows "\<exists>s' z'. init_page_table_map junk kernel_end s = Some (0, s') \<and>
    (\<forall>i. 0 \<le> i \<longrightarrow> i < uint n \<longrightarrow> page_state i s' = Some (of_bool (i < uint K))) \<and>
    (\<forall>i. 0 \<le> i \<longrightarrow> i < uint K \<longrightarrow> (\<exists>p. page_read i s' = Some p \<and> pg_usage p = 1 \<and>
       phy_address p = kernel_start s + word_of_int i * PAGE_SIZE - pv)) \<and>
    get_zone 0 s' = Some z' \<and> bm_start z' = 0 \<and> bm_current z' = K \<and> bm_end z' = z_page_num z \<and>
    z_free_pages z' = z_free_pages z - K"
proof -
  let ?s1 = "s\<lparr>page_table := take (unat n) junk, page_map := replicate (unat (bits_to_long n)) 0\<rparr>"
  have size: "bm_size (page_map ?s1) = uint n + 32" using bits_to_long_size [OF n(2)] by simp
  have un: "int (unat n) = uint n" by simp
  have K0: "0 \<le> uint K" "uint K \<le> int (length (page_table ?s1))" "uint K \<le> bm_size (page_map ?s1)" "bm_size (page_map ?s1) \<le> 2 ^ 31"
    using K(2) n(3,4) un size by (simp_all add: word_le_def)
  obtain a t where t: "for_loop 0 (uint K) (init_kernel_page pv) (kernel_start s, ?s1) = Some (a, t)"
    "bank t = bank s" "kernel_start t = kernel_start s" "same_bits (\<lambda>j. j < uint K \<or> bm_bit (page_map ?s1) j) ?s1 t"
    and pages: "\<forall>j. 0 \<le> j \<longrightarrow> j < uint K \<longrightarrow> (\<exists>p. page_read j t = Some p \<and>
       phy_address p = kernel_start s + word_of_int j * PAGE_SIZE - pv \<and> pg_usage p = 1)"
    using init_kernel_pages [OF K0, of pv "kernel_start s"] by auto
  let ?sz = "baligin (tables_end kernel_end n - kernel_start s) PAGE_SIZE"
  let ?z1 = "z\<lparr>z_free_size := z_free_size z - ?sz, z_free_pages := z_free_pages z - K\<rparr>"
  let ?z' = "?z1\<lparr>bm_start := 0, bm_current := K, bm_end := z_page_num z\<rparr>"
  have pv1: "kernel_pv_offset m i k ?z1 = kernel_pv_offset m i k z" for m i k
    by (induction m arbitrary: i) (simp_all cong: if_cong)
  obtain d r where dr: "get_zone 1 s = Some d" "get_zone 2 s = Some r" using len by (auto simp: get_zone_def lget_def)
  have zt: "get_zone j t = get_zone j s" for j using t(2) by (simp add: get_zone_def)
  obtain s2 where s2: "put_zone 0 ?z' t = Some s2" using put_zone_in [of 0 t z] z zt by simp
  have g2: "get_zone j s2 = (if j = 0 then Some ?z' else get_zone j s)" for j using get_zone_put [OF s2] zt by simp
  let ?d = "d\<lparr>bm_start := z_page_num z, bm_current := z_page_num z, bm_end := z_page_num z + z_page_num d\<rparr>"
  obtain s3 where s3: "put_zone 1 ?d s2 = Some s3" using put_zone_in [of 1 s2 d] g2 dr by simp
  have g3: "get_zone j s3 = (if j = 1 then Some ?d else get_zone j s2)" for j using get_zone_put [OF s3] .
  let ?i = "z_page_num z + z_page_num d"
  let ?r = "r\<lparr>bm_start := ?i, bm_current := ?i, bm_end := ?i + z_page_num r\<rparr>"
  obtain s4 where s4: "put_zone 2 ?r s3 = Some s4" using put_zone_in [of 2 s3 r] g2 g3 dr by simp
  have eq: "page_map s4 = page_map t" "page_table s4 = page_table t"
    using s2 s3 s4 by (auto simp: put_zone_def bind_eq_Some)
  have "init_page_table_map junk kernel_end s = Some (0, s4)"
    using z pv pv1 t(1) s2 s3 s4 g2 g3 dr
    by (simp add: init_page_table_map_def Let_def get_zone_def K(1) kernel_pages_def tables_end_def flip: n(1))
  moreover have "page_state i s4 = Some (of_bool (i < uint K))" if i: "0 \<le> i" "i < uint n" for i
  proof -
    have "page_state i s4 = Some (of_bool (bm_bit (page_map t) i))"
      unfolding page_state_def eq using i t(4) size K0(4) by (intro os_bits.rd) (simp_all add: same_bits_def)
    moreover have "bm_bit (page_map t) i \<longleftrightarrow> i < uint K"
      using t(4) i size bm_bit_replicate [of i "unat (bits_to_long n)"] by (simp add: same_bits_def bm_size_def)
    ultimately show ?thesis by simp
  qed
  moreover have "get_zone 0 s4 = Some ?z'" using get_zone_put [OF s4, of 0] g2 g3 by simp
  ultimately show ?thesis using pages eq(2)
    by (intro exI [of _ s4] exI [of _ ?z'] conjI) (simp_all add: page_read_def, blast)
qed

definition board :: mstate where
  "board = \<lparr>ks = blank, bank = null_bank\<lparr>total_page := 16384, zone := [board_zone 0x30000000 0x80000000 0x3c00000,
     board_zone 0x33c00000 0x83c00000 0x400000, null_zone, board_zone 0x48000000 0x84000000 0x13000000]\<rparr>,
     page_table = [], page_map = [], kernel_start = 0x80000000\<rparr>"

definition board_pages :: "page list" where
  "board_pages = replicate 16384 \<lparr>phy_address = 0, pg_flag = 0, pg_free_base = 0, pg_free_size = 0,
     pg_count = 0, pg_usage = 0\<rparr>"

theorem page_map_after_init_witness:
  "\<exists>s'. init_page_table_map board_pages 0x80080000 board = Some (0, s') \<and> page_state 224 s' = Some 1 \<and> page_state 225 s' = Some 0"
proof -
  have K: "225 = kernel_pages 0x80080000 16384 (kernel_start board)" by (simp add: board_def kernel_pages_def) code_simp
  have "get_zone 0 board = Some (board_zone 0x30000000 0x80000000 0x3c00000)" "length (zone (bank board)) = 4"
    "16384 = total_page (bank board)"
    "kernel_pv_offset (nat (nr_section (board_zone 0x30000000 0x80000000 0x3c00000))) 0 (kernel_start board)
       (board_zone 0x30000000 0x80000000 0x3c00000) = Some 0x50000000"
    by (simp_all add: board_def get_zone_def lget_def board_zone_def null_zone_def)
  moreover have "unat (16384 :: u32) \<le> length board_pages" by (simp add: board_pages_def)
  ultimately obtain s' where s': "init_page_table_map board_pages 0x80080000 board = Some (0, s')"
    "\<And>i. 0 \<le> i \<Longrightarrow> i < uint (16384 :: u32) \<Longrightarrow> page_state i s' = Some (of_bool (i < uint (225 :: u32)))"
    using page_map_after_init [of board "board_zone 0x30000000 0x80000000 0x3c00000" 16384 board_pages "0x50000000" 225 "0x80080000"] K
    by auto
  from s'(2) [of 224] s'(2) [of 225] s'(1) show ?thesis by auto
qed

end
