(* ===== verification/PagePool.thy ===== *)
theory PagePool
  imports MmProps
begin

text \<open>
  The page allocator over a whole life: any sequence of \<^verbatim>\<open>get_free_page\<close> and \<^verbatim>\<open>free_pages\<close> of pages
  that were handed out.  The locale \<open>pool\<close> is the contract of an allocator of single items, with the
  set of free items and the set of items handed out; the page allocator provides it.
\<close>

section \<open>The contract of a pool\<close>

text \<open>A step of a pool, with the number of times an item was asked for and the items handed out.\<close>

inductive pool_step ::
  "('s \<Rightarrow> ('p option \<times> 's) option) \<Rightarrow> ('p \<Rightarrow> 's \<Rightarrow> 's option) \<Rightarrow> nat \<times> 'p set \<times> 's \<Rightarrow> nat \<times> 'p set \<times> 's \<Rightarrow> bool"
  for take_item give_item where
  step_take: "take_item s = Some (Some p, s') \<Longrightarrow> pool_step take_item give_item (k, Own, s) (Suc k, insert p Own, s')"
| step_full: "take_item s = Some (None, s') \<Longrightarrow> pool_step take_item give_item (k, Own, s) (Suc k, Own, s')"
| step_give: "p \<in> Own \<Longrightarrow> give_item p s = Some s' \<Longrightarrow> pool_step take_item give_item (k, Own, s) (k, Own - {p}, s')"

inductive_cases pool_stepE: "pool_step take_item give_item (k, Own, s) (k', Own', s')"

text \<open>\<open>rel b Fr Own s\<close>: the items \<open>Fr\<close> are free, \<open>Own\<close> handed out, and \<open>b\<close> more can be asked for.\<close>

locale pool =
  fixes take_item :: "'s \<Rightarrow> ('p option \<times> 's) option" and give_item :: "'p \<Rightarrow> 's \<Rightarrow> 's option"
    and rel :: "nat \<Rightarrow> 'p set \<Rightarrow> 'p set \<Rightarrow> 's \<Rightarrow> bool"
  assumes take_free: "rel (Suc b) Fr Own s \<Longrightarrow> Fr \<noteq> {} \<Longrightarrow>
      \<exists>p s'. take_item s = Some (Some p, s') \<and> p \<in> Fr \<and> rel b (Fr - {p}) (insert p Own) s'"
    and take_full: "rel (Suc b) {} Own s \<Longrightarrow> \<exists>s'. take_item s = Some (None, s') \<and> rel b {} Own s'"
    and give_own: "rel b Fr Own s \<Longrightarrow> p \<in> Own \<Longrightarrow> \<exists>s'. give_item p s = Some s' \<and> rel b (insert p Fr) (Own - {p}) s'"
    and apart: "rel b Fr Own s \<Longrightarrow> Fr \<inter> Own = {}"
begin

lemma step_rel:
  assumes "pool_step take_item give_item (k, Own, s) (k', Own', s')" "rel (n - k) Fr Own s" "k' \<le> n"
  shows "\<exists>Fr'. rel (n - k') Fr' Own' s' \<and> Fr' \<union> Own' = Fr \<union> Own"
  using assms(1)
proof (rule pool_stepE)
  fix p assume p: "k' = Suc k" "Own' = insert p Own" "take_item s = Some (Some p, s')"
  then have r: "rel (Suc (n - k')) Fr Own s" using assms(2,3) by (simp add: Suc_diff_Suc)
  then have "Fr \<noteq> {}" using take_full [of _ Own s] p by auto
  with p take_free [OF r] show ?thesis by auto
next
  assume p: "k' = Suc k" "Own' = Own" "take_item s = Some (None, s')"
  then have r: "rel (Suc (n - k')) Fr Own s" using assms(2,3) by (simp add: Suc_diff_Suc)
  then have "Fr = {}" using take_free [OF r] p by auto
  with p take_full [of _ Own s] r show ?thesis by auto
next
  fix p assume "k' = k" "Own' = Own - {p}" "p \<in> Own" "give_item p s = Some s'"
  with give_own [OF assms(2)] show ?thesis by fastforce
qed

lemma step_count: "pool_step take_item give_item (k, Own, s) (k', Own', s') \<Longrightarrow> k \<le> k'"
  by (erule pool_stepE) simp_all

lemma steps_rel:
  assumes "(pool_step take_item give_item)\<^sup>*\<^sup>* (0, Own0, s0) (k, Own, s)" "rel n Fr0 Own0 s0" "k \<le> n"
  shows "\<exists>Fr. rel (n - k) Fr Own s \<and> Fr \<union> Own = Fr0 \<union> Own0"
  using assms(1,3)
proof (induction "(k, Own, s)" arbitrary: k Own s rule: rtranclp_induct)
  case base
  with assms(2) show ?case by auto
next
  case (step y)
  obtain k1 Own1 s1 where y: "y = (k1, Own1, s1)" by (cases y)
  have "k1 \<le> k" using step.hyps(2) y step_count by blast
  then obtain Fr1 where "rel (n - k1) Fr1 Own1 s1" "Fr1 \<union> Own1 = Fr0 \<union> Own0" using step.hyps(3) [OF y] step.prems by auto
  with step_rel [of k1 Own1 s1 k Own s n Fr1] step.hyps(2) y step.prems show ?case by auto
qed

text \<open>After any sequence of steps an item is free or handed out, and the pool serves as long as one is free.\<close>

lemma pool_life:
  assumes "(pool_step take_item give_item)\<^sup>*\<^sup>* (0, {}, s0) (k, Own, s)" "rel n Fr0 {} s0" "k < n"
  shows "rel (n - k) (Fr0 - Own) Own s" "Own \<subseteq> Fr0"
    "Own \<noteq> Fr0 \<Longrightarrow> \<exists>p s'. take_item s = Some (Some p, s') \<and> p \<in> Fr0 - Own"
    "Own = Fr0 \<Longrightarrow> \<exists>s'. take_item s = Some (None, s')"
    "p \<in> Own \<Longrightarrow> \<exists>s'. give_item p s = Some s'"
proof -
  obtain Fr where Fr: "rel (n - k) Fr Own s" "Fr \<union> Own = Fr0" using steps_rel [OF assms(1,2)] assms(3) by auto
  have eq: "Fr = Fr0 - Own" "Own \<subseteq> Fr0" using Fr(2) apart [OF Fr(1)] by auto
  show r: "rel (n - k) (Fr0 - Own) Own s" "Own \<subseteq> Fr0" using Fr(1) eq by simp_all
  have more: "rel (Suc (n - Suc k)) (Fr0 - Own) Own s" using r(1) assms(3) by (simp add: Suc_diff_Suc)
  show "Own \<noteq> Fr0 \<Longrightarrow> \<exists>p s'. take_item s = Some (Some p, s') \<and> p \<in> Fr0 - Own"
    using take_free [OF more] r(2) by blast
  show "Own = Fr0 \<Longrightarrow> \<exists>s'. take_item s = Some (None, s')" using take_full [of _ Own s] more by auto
  show "p \<in> Own \<Longrightarrow> \<exists>s'. give_item p s = Some s'" using give_own [OF r(1)] by blast
qed

end

section \<open>The page allocator as a pool\<close>

definition take_page :: "u32 \<Rightarrow> mstate \<Rightarrow> (int option \<times> mstate) option" where
  "take_page flag s = do {
     (r, s) \<leftarrow> get_free_page flag s;
     a \<leftarrow> r;
     Some (if a = NULL then None else Some (va_to_page a s), s)
   }"

definition give_page :: "int \<Rightarrow> mstate \<Rightarrow> mstate option" where
  "give_page pg s = do {
     (r, s) \<leftarrow> free_pages (page_to_va pg s) s;
     _ \<leftarrow> r;
     Some s
   }"

definition used_pages :: "mstate \<Rightarrow> int set" where
  "used_pages s = {i. 0 \<le> i \<and> i < bm_size (page_map s) \<and> bm_bit (page_map s) i}"

definition free_pages_of :: "mm_zone \<Rightarrow> mstate \<Rightarrow> int set" where
  "free_pages_of z s = {uint (bm_start z)..<uint (bm_end z)} - used_pages s"

text \<open>The free pages from the current position of the zone on, which the search finds before it starts again at the beginning.\<close>

definition ahead :: "mm_zone \<Rightarrow> mstate \<Rightarrow> int set" where
  "ahead z s = {i \<in> free_pages_of z s. uint (bm_current z) \<le> i}"

text \<open>
  The zone of \<open>flag\<close>: its counter is the number of its free pages; page 0, which the kernel occupies, is in use; no page lies
  at the address 0.
\<close>

definition zone_pool :: "u32 \<Rightarrow> node lists \<Rightarrow> mm_zone \<Rightarrow> mstate \<Rightarrow> bool" where
  "zone_pool flag F z s \<longleftrightarrow> minv F s \<and> get_zone (gfp_zone_id flag) s = Some z \<and> zone_wf (page_map s) z \<and>
     uint (bm_end z) < int (length (page_table s)) \<and> 0 \<in> used_pages s \<and>
     uint (z_free_pages z) = int (card (free_pages_of z s)) \<and>
     (\<forall>i \<in> {uint (bm_start z)..<uint (bm_end z)}. page_to_va i s \<noteq> NULL)"

text \<open>
  The search also looks at the page behind the zone.  It can be asked \<open>n\<close> more times for a page of the zone if that page is in use, or
  if \<open>n\<close> free pages are ahead.
\<close>

definition serves :: "nat \<Rightarrow> mm_zone \<Rightarrow> mstate \<Rightarrow> bool" where
  "serves n z s \<longleftrightarrow> uint (bm_end z) \<in> used_pages s \<or> n \<le> card (ahead z s)"

definition owned_page :: "u32 \<Rightarrow> page \<Rightarrow> bool" where
  "owned_page flag p \<longleftrightarrow> pg_flag p AND GFP_PAGE_HEADER \<noteq> 0 \<and> gfp_zone_id (pg_flag p) = gfp_zone_id flag \<and> pg_count p = 1"

definition page_rel :: "u32 \<Rightarrow> int set \<Rightarrow> nat \<Rightarrow> int set \<Rightarrow> int set \<Rightarrow> mstate \<Rightarrow> bool" where
  "page_rel flag U b Fr Own s \<longleftrightarrow> (\<exists>F z. zone_pool flag F z s \<and> serves b z s \<and> Fr = free_pages_of z s \<and> used_pages s = U \<union> Own \<and> U \<inter> Own = {} \<and> 0 \<in> U \<and>
     Own \<subseteq> {uint (bm_start z)..<uint (bm_end z)} \<and> (\<forall>i \<in> Fr \<union> Own. page_idle F i) \<and>
     (\<forall>i \<in> Own. \<exists>p. page_read i s = Some p \<and> owned_page flag p))"

lemma page_relI:
  assumes "zone_pool flag F z s" "serves b z s" "Fr = free_pages_of z s" "used_pages s = U \<union> Own" "U \<inter> Own = {}" "0 \<in> U"
    "Own \<subseteq> {uint (bm_start z)..<uint (bm_end z)}" "\<And>i. i \<in> Fr \<union> Own \<Longrightarrow> page_idle F i"
    "\<And>i. i \<in> Own \<Longrightarrow> \<exists>p. page_read i s = Some p \<and> owned_page flag p"
  shows "page_rel flag U b Fr Own s"
  using assms unfolding page_rel_def by blast

lemma zone_bounds:
  assumes "zone_pool flag F z s"
  shows "uint (bm_start z) \<le> uint (bm_current z)" "uint (bm_current z) \<le> uint (bm_end z)"
    "uint (bm_end z) < bm_size (page_map s)" "bm_size (page_map s) \<le> 2 ^ 31"
    "bm_bit (page_map s) 0" "uint (bm_end z) < 2 ^ 20"
  using assms by (auto simp: zone_pool_def zone_wf_def word_le_def used_pages_def minv_def)

lemma in_free_pages:
  assumes "zone_pool flag F z s"
  shows "i \<in> free_pages_of z s \<longleftrightarrow> uint (bm_start z) \<le> i \<and> i < uint (bm_end z) \<and> \<not> bm_bit (page_map s) i"
  using zone_bounds(3) [OF assms] order.trans [OF uint_ge_0, of "bm_start z" i] by (auto simp: free_pages_of_def used_pages_def)

lemma free_in_hd:
  assumes "x \<in> set (free_in pm a b)"
  shows "hd (free_in pm a b) \<le> x"
proof -
  have "sorted (free_in pm a b)" unfolding free_in_def by (intro sorted_wrt_filter sorted_upto)
  with assms show ?thesis by (cases "free_in pm a b") auto
qed

lemma ahead_finite [simp]: "finite (ahead z s)"
  by (rule finite_subset [of _ "{uint (bm_start z)..<uint (bm_end z)}"]) (auto simp: ahead_def free_pages_of_def)

lemma pool_picks:
  assumes pool: "zone_pool flag F z s" and ne: "free_pages_of z s \<noteq> {}" and sv: "serves (Suc b) z s"
  shows "\<exists>pg \<in> free_pages_of z s. find_continous_pages z 1 s = Some (word_of_int pg) \<and>
    (ahead z s \<noteq> {} \<longrightarrow> pg \<in> ahead z s \<and> (\<forall>i \<in> ahead z s. pg \<le> i))"
proof -
  let ?f1 = "free_in (page_map s) (uint (bm_current z)) (uint (bm_end z))"
  let ?f2 = "free_in (page_map s) (uint (bm_start z)) (uint (bm_current z))"
  note u = zone_bounds [OF pool]
  obtain i where i: "uint (bm_start z) \<le> i" "i < uint (bm_end z)" "\<not> bm_bit (page_map s) i"
    using ne in_free_pages [OF pool] by blast
  then have "i \<in> set (?f1 @ ?f2)" by (cases "i \<le> uint (bm_current z)") (simp_all add: set_free_in)
  then have fne: "?f1 @ ?f2 \<noteq> []" by (metis empty_iff empty_set)
  have "i \<in> set ?f2" if "\<not> bm_current z < bm_end z"
    using that i u(2) by (simp add: set_free_in word_less_def)
  then have "bm_current z < bm_end z \<or> 1 \<le> int (length ?f2)"
    by (cases ?f2) auto
  then have find: "find_continous_pages z 1 s = Some (word_of_int (hd (?f1 @ ?f2)))"
    using find_continous_pick [of s z 1] first_free [OF fne refl refl] pool by (simp add: zone_pool_def)
  have first: "hd (?f1 @ ?f2) \<le> j" "uint (bm_current z) \<le> hd (?f1 @ ?f2)" if "j \<in> ahead z s" for j
  proof -
    have j: "j \<in> set ?f1" using that in_free_pages [OF pool, of j] by (simp add: ahead_def set_free_in)
    then have ne1: "?f1 \<noteq> []" by (metis empty_iff empty_set)
    have hd1: "hd (?f1 @ ?f2) = hd ?f1" by (rule hd_append2 [OF ne1])
    show "hd (?f1 @ ?f2) \<le> j" unfolding hd1 by (rule free_in_hd [OF j])
    have "hd ?f1 \<in> set ?f1" by (rule list.set_sel(1) [OF ne1])
    then show "uint (bm_current z) \<le> hd (?f1 @ ?f2)" unfolding hd1 by (simp add: set_free_in)
  qed
  have "hd (?f1 @ ?f2) \<in> set (?f1 @ ?f2)" by (rule list.set_sel(1) [OF fne])
  then have h: "uint (bm_start z) \<le> hd (?f1 @ ?f2)" "hd (?f1 @ ?f2) \<le> uint (bm_end z)" "\<not> bm_bit (page_map s) (hd (?f1 @ ?f2))"
    using u by (auto simp: set_free_in)
  have "hd (?f1 @ ?f2) < uint (bm_end z)"
  proof (cases "ahead z s = {}")
    case True
    then have "bm_bit (page_map s) (uint (bm_end z))" using sv by (simp add: serves_def used_pages_def)
    then have "hd (?f1 @ ?f2) \<noteq> uint (bm_end z)" using h(3) by metis
    with h(2) show ?thesis by simp
  next
    case False
    then obtain j where j: "j \<in> ahead z s" by blast
    then have "j < uint (bm_end z)" by (simp add: ahead_def in_free_pages [OF pool])
    with first(1) [OF j] show ?thesis by simp
  qed
  with h have "hd (?f1 @ ?f2) \<in> free_pages_of z s" by (simp add: in_free_pages [OF pool])
  then show ?thesis using find first by (intro bexI [of _ "hd (?f1 @ ?f2)"]) (auto simp: ahead_def)
qed

lemma used_pages_taken:
  assumes "pages_taken pg 1 flag zid z' s s'" "0 \<le> pg" "pg < bm_size (page_map s)"
  shows "used_pages s' = insert pg (used_pages s)"
  using assms by (auto simp: used_pages_def pages_taken_def same_bits_def)

lemma used_pages_freed:
  assumes "pages_freed pg 1 zid z s s'"
  shows "used_pages s' = used_pages s - {pg}"
  using assms by (auto simp: used_pages_def pages_freed_def same_bits_def)

lemma pages_taken_length:
  assumes "pages_taken pg count flag zid z s s'" "0 \<le> i" "i < int (length (page_table s))"
  shows "i < int (length (page_table s'))"
proof -
  have "\<exists>p. page_read i s' = Some p" using assms(1) page_in [OF assms(2,3)] by (simp add: pages_taken_def)
  then show ?thesis by (auto simp: page_read_def lget_Some)
qed

lemma free_pages_of_finite [simp]: "finite (free_pages_of z s)"
  by (simp add: free_pages_of_def)

lemma zone_take_sel [simp]:
  "bm_start (zone_take pg n z) = bm_start z" "bm_end (zone_take pg n z) = bm_end z"
  "bm_current (zone_take pg n z) = word_of_int pg + word_of_int n" "z_free_pages (zone_take pg n z) = z_free_pages z - word_of_int n"
  by (simp_all add: zone_take_def)

lemma zone_give_sel [simp]:
  "bm_start (zone_give pg n z) = bm_start z" "bm_end (zone_give pg n z) = bm_end z"
  "bm_current (zone_give pg n z) = (if bm_current z = word_of_int (pg + n) then word_of_int pg else bm_current z)"
  "z_free_pages (zone_give pg n z) = z_free_pages z + word_of_int n"
  by (simp_all add: zone_give_def Let_def)

lemma pool_take:
  assumes pool: "zone_pool flag F z s" and pg: "pg \<in> free_pages_of z s"
    and t: "pages_taken pg 1 flag (gfp_zone_id flag) (zone_take pg 1 z) s s'" "minv F' s'"
  shows "zone_pool flag F' (zone_take pg 1 z) s'" "free_pages_of (zone_take pg 1 z) s' = free_pages_of z s - {pg}"
    "used_pages s' = insert pg (used_pages s)"
proof -
  note u = zone_bounds [OF pool]
  have b: "uint (bm_start z) \<le> pg" "pg < uint (bm_end z)" using pg in_free_pages [OF pool] by blast+
  have p0: "0 \<le> pg" using b(1) by (rule order.trans [OF uint_ge_0])
  show used: "used_pages s' = insert pg (used_pages s)" using used_pages_taken [OF t(1) p0] b(2) u(3) by simp
  then show fr: "free_pages_of (zone_take pg 1 z) s' = free_pages_of z s - {pg}" by (auto simp: free_pages_of_def)
  have card: "card (free_pages_of z s) = Suc (card (free_pages_of z s - {pg}))"
    using card_Suc_Diff1 [of "free_pages_of z s" pg] pg by simp
  have fp: "uint (z_free_pages z) = int (card (free_pages_of z s))" using pool by (simp add: zone_pool_def)
  then have "uint (z_free_pages z - 1) = int (card (free_pages_of z s - {pg}))"
    using card by (subst uint_minus_simple_alt [THEN iffD1]) (simp_all add: word_le_def)
  moreover have "uint (word_of_int pg + 1 :: u32) = pg + 1"
    using p0 b(2) u(6) by (simp add: uint_word_ariths uint_word_of_int)
  moreover have "page_to_va i s' = page_to_va i s" for i using t(1) by (intro page_to_va_cong) (simp add: pages_taken_def)
  ultimately show "zone_pool flag F' (zone_take pg 1 z) s'"
    using pool t fr used b u pages_taken_length [OF t(1), of "uint (bm_end z)"]
    by (simp add: zone_pool_def zone_wf_def word_le_def pages_taken_def same_bits_def)
qed

lemma diff_put_back: "x \<in> A \<Longrightarrow> A - (B - {x}) = insert x (A - B)"
  by blast

lemma pool_give:
  assumes pool: "zone_pool flag F z s" and pg: "uint (bm_start z) \<le> pg" "pg < uint (bm_end z)" "pg \<in> used_pages s" "pg \<noteq> 0"
    and t: "pages_freed pg 1 (gfp_zone_id flag) z s s'" "minv F s'"
  shows "zone_pool flag F (zone_give pg 1 z) s'" "free_pages_of (zone_give pg 1 z) s' = insert pg (free_pages_of z s)"
    "used_pages s' = used_pages s - {pg}"
proof -
  note u = zone_bounds [OF pool]
  show used: "used_pages s' = used_pages s - {pg}" by (rule used_pages_freed [OF t(1)])
  then show fr: "free_pages_of (zone_give pg 1 z) s' = insert pg (free_pages_of z s)"
    using diff_put_back [of pg "{uint (bm_start z)..<uint (bm_end z)}" "used_pages s"] pg(1,2) by (simp add: free_pages_of_def)
  have card: "card (insert pg (free_pages_of z s)) = Suc (card (free_pages_of z s))"
    using pg(3) by (intro card_insert_disjoint) (simp_all add: free_pages_of_def)
  have "card (insert pg (free_pages_of z s)) \<le> card {0..<uint (bm_end z)}"
    using pg order.trans [OF uint_ge_0, of "bm_start z"] by (intro card_mono) (auto simp: free_pages_of_def)
  then have "Suc (card (free_pages_of z s)) \<le> unat (bm_end z)" using card by simp
  then have "int (Suc (card (free_pages_of z s))) \<le> int (unat (bm_end z))" by (simp only: of_nat_le_iff)
  then have "int (card (free_pages_of z s)) + 1 \<le> uint (bm_end z)" by simp
  moreover have "uint (z_free_pages z) = int (card (free_pages_of z s))" using pool by (simp add: zone_pool_def)
  ultimately have "uint (z_free_pages z + 1) = int (card (insert pg (free_pages_of z s)))"
    using card u(6) by (simp add: uint_word_ariths)
  moreover have "uint (word_of_int pg :: u32) = pg"
    using pg u(6) order.trans [OF uint_ge_0, of "bm_start z" pg] by (simp add: uint_word_of_int)
  moreover have "page_to_va i s' = page_to_va i s" for i using t(1) by (intro page_to_va_cong) (simp add: pages_freed_def)
  moreover have "bm_size (page_map s') = bm_size (page_map s)" "page_table s' = page_table s"
    "get_zone (gfp_zone_id flag) s' = Some (zone_give pg 1 z)"
    using t(1) by (simp_all add: page_ops)
  moreover have "0 \<in> used_pages s'" using pool used pg(4) by (auto simp: zone_pool_def)
  ultimately show "zone_pool flag F (zone_give pg 1 z) s'"
    using pool t(2) fr pg(1,2) by (simp add: zone_pool_def zone_wf_def word_le_def)
qed

lemma serves_take:
  assumes pool: "zone_pool flag F z s" and pg: "pg \<in> free_pages_of z s" and first: "ahead z s \<noteq> {} \<longrightarrow> pg \<in> ahead z s \<and> (\<forall>i \<in> ahead z s. pg \<le> i)"
    and used: "used_pages s' = insert pg (used_pages s)" and sv: "serves (Suc b) z s"
  shows "serves b (zone_take pg 1 z) s'" "ahead z s \<noteq> {} \<Longrightarrow> ahead (zone_take pg 1 z) s' = ahead z s - {pg}"
proof -
  have b: "uint (bm_start z) \<le> pg" "pg < uint (bm_end z)" using pg in_free_pages [OF pool] by blast+
  have "uint (word_of_int pg + 1 :: u32) = pg + 1"
    using b order.trans [OF uint_ge_0 b(1)] zone_bounds(6) [OF pool] by (simp add: uint_word_ariths uint_word_of_int)
  then show ah: "ahead z s \<noteq> {} \<Longrightarrow> ahead (zone_take pg 1 z) s' = ahead z s - {pg}"
    using first used by (auto simp: ahead_def free_pages_of_def)
  show "serves b (zone_take pg 1 z) s'"
  proof (cases "ahead z s = {}")
    case True
    then show ?thesis using sv used by (simp add: serves_def)
  next
    case False
    then show ?thesis using sv used ah [OF False] False first by (auto simp: serves_def)
  qed
qed

lemma serves_give:
  assumes pool: "zone_pool flag F z s" and pg: "uint (bm_start z) \<le> pg" "pg < uint (bm_end z)" and used: "used_pages s' = used_pages s - {pg}"
    and sv: "serves b z s"
  shows "serves b (zone_give pg 1 z) s'"
proof -
  have u: "uint (word_of_int pg :: u32) = pg" "uint (word_of_int (pg + 1) :: u32) = pg + 1"
    using pg order.trans [OF uint_ge_0 pg(1)] zone_bounds(6) [OF pool] by (subst uint_word_of_int; simp)+
  have fr: "i \<in> free_pages_of (zone_give pg 1 z) s'" if "i \<in> free_pages_of z s" for i
    using that used by (simp add: free_pages_of_def)
  have cur: "uint (bm_current (zone_give pg 1 z)) \<le> uint (bm_current z)"
  proof (cases "bm_current z = word_of_int (pg + 1)")
    case True
    then have "bm_current (zone_give pg 1 z) = word_of_int pg" by (simp only: zone_give_sel refl if_True)
    then have "uint (bm_current (zone_give pg 1 z)) = pg" "uint (bm_current z) = pg + 1" using True u by (simp_all only:)
    then show ?thesis by simp
  next
    case False
    then show ?thesis by (simp only: zone_give_sel if_False)
  qed
  have "ahead z s \<subseteq> ahead (zone_give pg 1 z) s'"
  proof
    fix i assume "i \<in> ahead z s"
    then show "i \<in> ahead (zone_give pg 1 z) s'" using fr [of i] cur unfolding ahead_def by simp
  qed
  then have "card (ahead z s) \<le> card (ahead (zone_give pg 1 z) s')" by (intro card_mono) simp_all
  moreover have "uint (bm_end z) \<in> used_pages s' \<longleftrightarrow> uint (bm_end z) \<in> used_pages s" using used pg(2) by simp
  ultimately show ?thesis using sv unfolding serves_def zone_give_sel by linarith
qed

lemma new_page_owned: "owned_page flag (new_page s pg 1 flag pg)"
  by (simp add: owned_page_def new_page_def word_ao_dist2)

lemma pool_serves:
  assumes pool: "zone_pool flag F z s" and ne: "free_pages_of z s \<noteq> {}" and sv: "serves (Suc b) z s"
    and idle: "\<And>i. i \<in> free_pages_of z s \<Longrightarrow> ahead z s \<noteq> {} \<longrightarrow> i \<in> ahead z s \<Longrightarrow> page_idle F i"
  obtains pg s' where "get_free_page flag s = Some (Some (page_to_va pg s), s')" "pg \<in> free_pages_of z s" "page_to_va pg s \<noteq> NULL"
    "0 < pg" "pg < 2 ^ 20" "pages_taken pg 1 flag (gfp_zone_id flag) (zone_take pg 1 z) s s'"
    "minv (with_nodes (page_nodes pg (pg + 1)) F) s'" "ahead z s \<noteq> {} \<longrightarrow> pg \<in> ahead z s \<and> (\<forall>i \<in> ahead z s. pg \<le> i)"
proof -
  obtain pg where pg: "pg \<in> free_pages_of z s" "find_continous_pages z 1 s = Some (word_of_int pg)"
    "ahead z s \<noteq> {} \<longrightarrow> pg \<in> ahead z s \<and> (\<forall>i \<in> ahead z s. pg \<le> i)"
    using pool_picks [OF pool ne sv] by blast
  note u = zone_bounds [OF pool]
  have b: "uint (bm_start z) \<le> pg" "pg < uint (bm_end z)" "\<not> bm_bit (page_map s) pg"
    using pg(1) in_free_pages [OF pool] by blast+
  have p0: "0 < pg" using order.trans [OF uint_ge_0 b(1)] b(3) u(5) by (cases "pg = 0") auto
  have z: "minv F s" "get_zone (gfp_zone_id flag) s = Some z" "uint (bm_end z) < int (length (page_table s))"
    "uint (z_free_pages z) = int (card (free_pages_of z s))" "page_to_va pg s \<noteq> NULL"
    using pool b by (simp_all add: zone_pool_def)
  have c1: "1 \<le> uint (z_free_pages z)" using z(4) ne card_gt_0_iff [of "free_pages_of z s"] by simp
  have only: "page_idle F i" if "pg \<le> i" "i < pg + 1" for i
  proof -
    have "i = pg" using that by simp
    then show ?thesis using idle pg(1,3) by blast
  qed
  have "gfp_zone_id flag < 4" using z(1,2) by (auto simp: get_zone_def lget_Some minv_def)
  then obtain s' where s': "get_free_pages 1 flag s = Some (Some (page_to_va pg s), s')"
    "pages_taken pg 1 flag (gfp_zone_id flag) (zone_take pg 1 z) s s'" "minv (with_nodes (page_nodes pg (pg + 1)) F) s'"
    using get_free_pages_spec [OF z(1) refl _ z(2) _ c1 p0 _ _ pg(2) only] b u(3) z(3) by auto
  show thesis by (rule that [OF _ pg(1) z(5) p0 _ s'(2,3) pg(3)]) (use s'(1) b(2) u(6) in \<open>simp_all add: get_free_page_def\<close>)
qed

lemma take_page_free:
  assumes rel: "page_rel flag U (Suc b) Fr Own s" and ne: "Fr \<noteq> {}"
  shows "\<exists>pg s'. take_page flag s = Some (Some pg, s') \<and> pg \<in> Fr \<and> page_rel flag U b (Fr - {pg}) (insert pg Own) s'"
proof -
  obtain F z where pool: "zone_pool flag F z s" and sv: "serves (Suc b) z s" and Fr: "Fr = free_pages_of z s" and U: "used_pages s = U \<union> Own" "U \<inter> Own = {}" "0 \<in> U"
    and own: "Own \<subseteq> {uint (bm_start z)..<uint (bm_end z)}" "\<forall>i \<in> Own. \<exists>p. page_read i s = Some p \<and> owned_page flag p"
    and idle: "\<forall>i \<in> Fr \<union> Own. page_idle F i"
    using rel by (auto simp: page_rel_def)
  obtain pg s' where s': "get_free_page flag s = Some (Some (page_to_va pg s), s')"
    "pages_taken pg 1 flag (gfp_zone_id flag) (zone_take pg 1 z) s s'" "minv (with_nodes (page_nodes pg (pg + 1)) F) s'"
    and pg: "pg \<in> free_pages_of z s" "page_to_va pg s \<noteq> NULL" "0 < pg" "pg < 2 ^ 20"
    and first: "ahead z s \<noteq> {} \<longrightarrow> pg \<in> ahead z s \<and> (\<forall>i \<in> ahead z s. pg \<le> i)"
    by (rule pool_serves [OF pool _ sv]) (use ne Fr idle in auto)
  have bd: "uint (bm_start z) \<le> pg" "pg < uint (bm_end z)" using pg(1) in_free_pages [OF pool] by blast+
  note t = pool_take [OF pool pg(1) s'(2,3)]
  have "va_to_page (page_to_va pg s) s' = pg"
    using va_to_page_to_va [of pg s'] page_to_va_cong [of s' s pg] s'(2) pg(3,4) by (simp add: pages_taken_def)
  then have "take_page flag s = Some (Some pg, s')"
    using s'(1) pg(2) by (simp add: take_page_def)
  moreover have "\<exists>p. page_read i s' = Some p \<and> owned_page flag p" if "i \<in> insert pg Own" for i
    using that own(2) s'(2) new_page_owned [of flag s pg] by (cases "i = pg") (auto simp: pages_taken_def)
  moreover have "pg \<notin> used_pages s" using pg(1) by (simp add: free_pages_of_def)
  moreover have "\<forall>i \<in> Fr - {pg} \<union> insert pg Own. page_idle (with_nodes (page_nodes pg (pg + 1)) F) i"
    using idle pg(1) Fr by (auto intro: page_idle_with_nodes)
  moreover have "Fr - {pg} = free_pages_of (zone_take pg 1 z) s'" using t(2) Fr by simp
  moreover have "used_pages s' = U \<union> insert pg Own" using t(3) U(1) by simp
  moreover have "U \<inter> insert pg Own = {}" using U(1,2) \<open>pg \<notin> used_pages s\<close> by simp
  moreover have "insert pg Own \<subseteq> {uint (bm_start (zone_take pg 1 z))..<uint (bm_end (zone_take pg 1 z))}"
    using own(1) bd(1,2) by simp
  ultimately have "page_rel flag U b (Fr - {pg}) (insert pg Own) s'"
    using U(3) by (intro page_relI [OF t(1) serves_take(1) [OF pool pg(1) first t(3) sv]]) blast+
  with \<open>take_page flag s = Some (Some pg, s')\<close> pg(1) Fr show ?thesis by blast
qed

lemma take_page_full:
  assumes rel: "page_rel flag U (Suc b) {} Own s"
  shows "\<exists>s'. take_page flag s = Some (None, s') \<and> page_rel flag U b {} Own s'"
proof -
  obtain F z where pool: "zone_pool flag F z s" and sv: "serves (Suc b) z s" and Fr: "free_pages_of z s = {}" and rest: "used_pages s = U \<union> Own" "U \<inter> Own = {}" "0 \<in> U"
    "Own \<subseteq> {uint (bm_start z)..<uint (bm_end z)}" "\<forall>i \<in> Own. \<exists>p. page_read i s = Some p \<and> owned_page flag p" "\<forall>i \<in> Own. page_idle F i"
    using rel by (auto simp: page_rel_def)
  have z: "minv F s" "get_zone (gfp_zone_id flag) s = Some z" "uint (z_free_pages z) < 1"
    using pool Fr by (simp_all add: zone_pool_def)
  obtain s' where s': "get_free_pages 1 flag s = Some (Some NULL, s')" "bank s' = bank s" "page_map s' = page_map s"
    "page_table s' = page_table s" "minv F s'" "kernel_start s' = kernel_start s"
    using get_free_pages_refuses [OF z(1), of 1 flag] z(2,3) by auto
  have "used_pages s' = used_pages s" "free_pages_of z s' = free_pages_of z s" "page_read i s' = page_read i s" for i
    using s'(3,4) by (simp_all add: used_pages_def free_pages_of_def page_read_def)
  moreover have "page_to_va i s' = page_to_va i s" for i by (rule page_to_va_cong [OF s'(6)])
  moreover have "serves b z s'"
  proof -
    have "ahead z s = {}" using Fr by (simp add: ahead_def)
    then show ?thesis using sv s'(3) by (simp add: serves_def used_pages_def)
  qed
  ultimately have "page_rel flag U b {} Own s'"
    unfolding page_rel_def using pool Fr rest s'
    by (intro exI [of _ F] exI [of _ z]) (simp add: zone_pool_def get_zone_def)
  with s'(1) show ?thesis by (simp add: take_page_def get_free_page_def)
qed

lemma give_page_own:
  assumes rel: "page_rel flag U k Fr Own s" and pg: "pg \<in> Own"
  shows "\<exists>s'. give_page pg s = Some s' \<and> page_rel flag U k (insert pg Fr) (Own - {pg}) s'"
proof -
  obtain F z where pool: "zone_pool flag F z s" and sv: "serves k z s" and Fr: "Fr = free_pages_of z s" and U: "used_pages s = U \<union> Own" "U \<inter> Own = {}" "0 \<in> U"
    and own: "Own \<subseteq> {uint (bm_start z)..<uint (bm_end z)}" "\<forall>i \<in> Own. \<exists>p. page_read i s = Some p \<and> owned_page flag p"
    and idle: "\<forall>i \<in> Fr \<union> Own. page_idle F i"
    using rel by (auto simp: page_rel_def)
  obtain p where p: "page_read pg s = Some p" "owned_page flag p" using own(2) pg by blast
  have b: "uint (bm_start z) \<le> pg" "pg < uint (bm_end z)" "pg \<in> used_pages s" "pg \<noteq> 0" using pg own(1) U by auto
  note u = zone_bounds [OF pool]
  have z: "minv F s" "get_zone (gfp_zone_id flag) s = Some z" using pool by (simp_all add: zone_pool_def)
  have h: "pg_flag p AND GFP_PAGE_HEADER \<noteq> 0" "gfp_zone_id flag = gfp_zone_id (pg_flag p)" "1 = uint (pg_count p)"
    using p(2) by (simp_all add: owned_page_def)
  obtain s' where s': "free_pages (page_to_va pg s) s = Some (Some (), s')" "pages_freed pg 1 (gfp_zone_id flag) z s s'" "minv F s'"
    using free_pages_spec [OF z(1) p(1) h(1,2) z(2) h(3)] b(2) u(3) by auto
  note t = pool_give [OF pool b s'(2,3)]
  have "page_read i s' = page_read i s" for i using s'(2) by (simp add: pages_freed_def page_read_def)
  moreover have "used_pages s' = U \<union> (Own - {pg})" using t(3) U pg by auto
  moreover have "\<forall>i \<in> insert pg Fr \<union> (Own - {pg}). page_idle F i" using idle pg by blast
  moreover have "insert pg Fr = free_pages_of (zone_give pg 1 z) s'" using t(2) Fr by simp
  moreover have "Own - {pg} \<subseteq> {uint (bm_start (zone_give pg 1 z))..<uint (bm_end (zone_give pg 1 z))}"
    using own(1) by auto
  ultimately have "page_rel flag U k (insert pg Fr) (Own - {pg}) s'"
    using U(2,3) own(2) by (intro page_relI [OF t(1) serves_give [OF pool b(1,2) t(3) sv]]) auto
  with s'(1) show ?thesis by (simp add: give_page_def)
qed

interpretation pages: pool "take_page flag" give_page "page_rel flag U" for flag U
proof unfold_locales
  fix b Fr Own s p
  show "page_rel flag U (Suc b) Fr Own s \<Longrightarrow> Fr \<noteq> {} \<Longrightarrow>
    \<exists>p s'. take_page flag s = Some (Some p, s') \<and> p \<in> Fr \<and> page_rel flag U b (Fr - {p}) (insert p Own) s'"
    by (rule take_page_free)
  show "page_rel flag U (Suc b) {} Own s \<Longrightarrow> \<exists>s'. take_page flag s = Some (None, s') \<and> page_rel flag U b {} Own s'"
    by (rule take_page_full)
  show "page_rel flag U b Fr Own s \<Longrightarrow> p \<in> Own \<Longrightarrow> \<exists>s'. give_page p s = Some s' \<and> page_rel flag U b (insert p Fr) (Own - {p}) s'"
    by (rule give_page_own)
  show "page_rel flag U b Fr Own s \<Longrightarrow> Fr \<inter> Own = {}"
    by (auto simp: page_rel_def free_pages_of_def)
qed

section \<open>Properties\<close>

lemma page_rel_start:
  assumes "zone_pool flag F z s" "serves n z s" "\<And>i. i \<in> free_pages_of z s \<Longrightarrow> page_idle F i"
  shows "page_rel flag (used_pages s) n (free_pages_of z s) {} s"
  using assms by (intro page_relI [OF assms(1,2)]) (auto simp: zone_pool_def)

lemma page_rel_counter:
  assumes "page_rel flag U b Fr Own s"
  shows "\<exists>z. get_zone (gfp_zone_id flag) s = Some z \<and> uint (z_free_pages z) = int (card Fr)" "used_pages s = U \<union> Own"
  using assms by (auto simp: page_rel_def zone_pool_def)

text \<open>
  C15. A zone in its life: after any sequence of \<open>k\<close> calls of \<^verbatim>\<open>get_free_page\<close> and of releases of pages it has handed out,
  the pages in use are those used at the start and those handed out, no page is
  handed out twice, and the zone's counter is the number of its free pages.  As long as one is free
  the next call returns one, otherwise it returns \<^verbatim>\<open>NULL\<close>, and every page handed out can be released.  This holds for ever if the page
  behind the zone is in use, which the search takes for one of the zone; otherwise, as on the board after boot, as long as fewer calls
  were made than there were free pages from the zone's current position on.
\<close>

theorem zone_life:
  assumes "zone_pool flag F z s0" "\<And>i. i \<in> free_pages_of z s0 \<Longrightarrow> page_idle F i"
    and "(pool_step (take_page flag) give_page)\<^sup>*\<^sup>* (0, {}, s0) (k, Own, s)"
    and "uint (bm_end z) \<in> used_pages s0 \<or> k < card (ahead z s0)"
  shows "used_pages s = used_pages s0 \<union> Own \<and> Own \<subseteq> free_pages_of z s0 \<and>
    (\<exists>z'. get_zone (gfp_zone_id flag) s = Some z' \<and> uint (z_free_pages z') = uint (z_free_pages z) - int (card Own)) \<and>
    (\<exists>r s'. take_page flag s = Some (r, s') \<and>
      (if Own = free_pages_of z s0 then r = None else \<exists>pg. r = Some pg \<and> pg \<in> free_pages_of z s0 - Own)) \<and>
    (\<forall>pg \<in> Own. \<exists>s'. give_page pg s = Some s')"
proof -
  have "serves (Suc k) z s0" using assms(4) by (auto simp: serves_def)
  note l = pages.pool_life [OF assms(3) page_rel_start [OF assms(1) this assms(2)] lessI]
  have own: "Own \<subseteq> free_pages_of z s0" by (rule l(2))
  have "uint (z_free_pages z) = int (card (free_pages_of z s0))" using assms(1) by (simp add: zone_pool_def)
  moreover have "card (free_pages_of z s0 - Own) = card (free_pages_of z s0) - card Own" "card Own \<le> card (free_pages_of z s0)"
    using own finite_subset [OF own] by (auto intro: card_Diff_subset card_mono)
  ultimately have "\<exists>z'. get_zone (gfp_zone_id flag) s = Some z' \<and> uint (z_free_pages z') = uint (z_free_pages z) - int (card Own)"
    using page_rel_counter(1) [OF l(1)] by auto
  moreover have "\<exists>r s'. take_page flag s = Some (r, s') \<and>
      (if Own = free_pages_of z s0 then r = None else \<exists>pg. r = Some pg \<and> pg \<in> free_pages_of z s0 - Own)"
    using l(3,4) by (cases "Own = free_pages_of z s0") auto
  ultimately show ?thesis using page_rel_counter(2) [OF l(1)] own l(5) by blast
qed

text \<open>The machine of the examples: of the 256 pages of its zone the first two are in use, and the page behind it is free.\<close>

abbreviation demo_map :: "u32 list" where
  "demo_map \<equiv> [3, 0, 0, 0, 0, 0, 0, 0, 0]"

lemma demo_map_bit:
  assumes "0 \<le> i" "i < 288"
  shows "bm_bit demo_map i \<longleftrightarrow> i < 2"
proof (cases "nat i div 32")
  case 0
  then have "nat i < 32" by simp
  have three: "(3 :: u32) = mask 2" by (simp add: mask_eq_exp_minus_1)
  have "bit (3 :: u32) (nat i) \<longleftrightarrow> nat i < 2" unfolding three bit_mask_iff using \<open>nat i < 32\<close> by auto
  with 0 \<open>nat i < 32\<close> assms(1) show ?thesis by (simp add: bm_bit_def nat_less_iff)
next
  case (Suc k)
  then have "k < 8" "\<not> i < 2" using assms by (linarith, auto)
  then have "demo_map ! (nat i div 32) = 0" unfolding Suc by (simp add: nth_Cons')
  with \<open>\<not> i < 2\<close> show ?thesis by (simp add: bm_bit_def)
qed

lemma demo_map_free: "free_pages_of demo_zone (machine demo_map) = {2..<256}" "ahead demo_zone (machine demo_map) = {2..<256}"
proof -
  have pm: "page_map (machine demo_map) = demo_map" by (simp add: machine_def)
  have sz: "bm_size demo_map = 288" by (simp add: bm_size_def)
  have "i \<in> used_pages (machine demo_map) \<longleftrightarrow> i \<in> {0..<2}" for i
  proof (cases "0 \<le> i \<and> i < 288")
    case True
    then show ?thesis using demo_map_bit [of i] unfolding used_pages_def pm sz mem_Collect_eq atLeastLessThan_iff by blast
  next
    case False
    then have "\<not> (0 \<le> i \<and> i < 2)" by linarith
    with False show ?thesis unfolding used_pages_def pm sz mem_Collect_eq atLeastLessThan_iff by blast
  qed
  then have "used_pages (machine demo_map) = {0..<2}" by (rule set_eqI)
  then show fr: "free_pages_of demo_zone (machine demo_map) = {2..<256}"
    unfolding free_pages_of_def by (simp add: demo_zone_def ivl_diff)
  have "uint (bm_current demo_zone) \<le> 2" by (simp add: demo_zone_def)
  then show "ahead demo_zone (machine demo_map) = {2..<256}" unfolding ahead_def fr by auto
qed

lemma demo_map_pool: "zone_pool GFP_KERNEL demo_F demo_zone (machine demo_map)"
proof -
  have "page_to_va i (machine demo_map) \<noteq> NULL" if "i \<in> {0..<256}" for i
  proof
    assume "page_to_va i (machine demo_map) = NULL"
    then have "(0xc0000000 :: u32) + push_bit 12 (word_of_int i) = 0"
      by (simp add: machine_def page_to_va_def page_id_to_va_def page_to_page_id_def)
    then have "uint ((0xc0000000 :: u32) + push_bit 12 (word_of_int i)) = 0" by simp
    with that show False by (simp add: push_bit_eq_mult uint_word_ariths uint_word_of_int)
  qed
  moreover have "0 \<in> used_pages (machine demo_map)"
    using demo_map_bit [of 0] by (simp add: used_pages_def machine_def bm_size_def)
  ultimately show ?thesis
    using machine_minv [of demo_map] machine_zone machine_zone_wf [of demo_map] demo_map_free(1)
    by (simp add: zone_pool_def zone_id_kernel) (simp add: demo_zone_def machine_def)
qed

theorem zone_life_witness:
  "\<exists>pg s pg' s'. take_page GFP_KERNEL (machine demo_map) = Some (Some pg, s) \<and> take_page GFP_KERNEL s = Some (Some pg', s') \<and> pg' \<noteq> pg \<and>
     (\<exists>s''. give_page pg s = Some s'')"
proof -
  note z = zone_life [OF demo_map_pool demo_page_idle]
  have "2 \<in> {2..<256 :: int}" "3 \<in> {2..<256 :: int}" by simp_all
  then have two: "{} \<noteq> {2..<256 :: int}" "{pg} \<noteq> {2..<256 :: int}" for pg by (blast, metis numeral_eq_iff semiring_norm(89) singletonD)
  have "\<exists>pg s. take_page GFP_KERNEL (machine demo_map) = Some (Some pg, s)"
    using z [OF rtranclp.rtrancl_refl] two(1) unfolding demo_map_free by auto
  then obtain pg s where s: "take_page GFP_KERNEL (machine demo_map) = Some (Some pg, s)" by blast
  have "(pool_step (take_page GFP_KERNEL) give_page)\<^sup>*\<^sup>* (0, {}, machine demo_map) (1, {pg}, s)"
    using step_take [of "take_page GFP_KERNEL" "machine demo_map" pg s give_page 0 "{}"] s by (intro r_into_rtranclp) simp
  from z [OF this, unfolded demo_map_free] have l: "\<exists>r s'. take_page GFP_KERNEL s = Some (r, s') \<and>
      (if {pg} = {2..<256} then r = None else \<exists>pg'. r = Some pg' \<and> pg' \<in> {2..<256} - {pg})" "\<forall>q \<in> {pg}. \<exists>s''. give_page q s = Some s''"
    by simp_all
  have "\<exists>pg' s'. take_page GFP_KERNEL s = Some (Some pg', s') \<and> pg' \<noteq> pg"
    using l(1) two(2) [of pg] by (metis Diff_iff insertI1)
  with s l(2) show ?thesis by blast
qed

end
