(* ===== verification/Platform.thy ===== *)
theory Platform
  imports MmBoot
begin

text \<open>
  The S3C2440 board, \<^verbatim>\<open>arch/arm/machine/s3c2440_c.c\<close>, and the dispatch of interrupts,
  \<^verbatim>\<open>kernel/interrupt.c\<close> and \<^verbatim>\<open>arch/arm/machine/arm920t_c.c\<close>.

  The device registers are what a read at their address returns.  What a write does to them is up to the
  device and not the code: it is the argument \<open>dev\<close>, a function of the width of the access in bits, the
  address and the value.  The locale \<open>irq_controller\<close> states what the code relies on.  A call through a
  function pointer is the argument \<open>call\<close>, a function of the pointer and its argument.
\<close>

section \<open>Registers\<close>

type_synonym device = "nat \<Rightarrow> u32 \<Rightarrow> u32 \<Rightarrow> (u32 \<Rightarrow> u32) \<Rightarrow> (u32 \<Rightarrow> u32)"

record irq_des =
  irq_fn :: u32
  irq_arg :: u32

record pstate =
  ms :: mstate
  regs :: "u32 \<Rightarrow> u32"
  irq_base :: u32
  timer_base :: u32
  clk_base :: u32
  uart_base :: u32
  HCLK :: u32
  FCLK :: u32
  PCLK :: u32
  UCLK :: u32
  irq_table :: "irq_des list option"

definition ioread32 :: "u32 \<Rightarrow> pstate \<Rightarrow> u32" where
  "ioread32 a s = regs s a"

definition iowrite :: "device \<Rightarrow> nat \<Rightarrow> u32 \<Rightarrow> u32 \<Rightarrow> pstate \<Rightarrow> pstate" where
  "iowrite dev w v a s = s\<lparr>regs := dev w a v (regs s)\<rparr>"

abbreviation (input) iowrite32 :: "device \<Rightarrow> u32 \<Rightarrow> u32 \<Rightarrow> pstate \<Rightarrow> pstate" where
  "iowrite32 dev v a s \<equiv> iowrite dev 32 v a s"

abbreviation (input) iowrite16 :: "device \<Rightarrow> u32 \<Rightarrow> u32 \<Rightarrow> pstate \<Rightarrow> pstate" where
  "iowrite16 dev v a s \<equiv> iowrite dev 16 v a s"

abbreviation (input) TIMER_BASE :: u32 where "TIMER_BASE \<equiv> 0x51000000"
abbreviation (input) IRQ_BASE :: u32 where "IRQ_BASE \<equiv> 0x4a000000"
abbreviation (input) CLK_BASE :: u32 where "CLK_BASE \<equiv> 0x4c000000"
abbreviation (input) UART_BASE :: u32 where "UART_BASE \<equiv> 0x50000000"

text \<open>Offsets of the registers from their base.\<close>

abbreviation (input) TCFG0 :: u32 where "TCFG0 \<equiv> 0x00"
abbreviation (input) TCFG1 :: u32 where "TCFG1 \<equiv> 0x04"
abbreviation (input) TCON :: u32 where "TCON \<equiv> 0x08"
abbreviation (input) TCNTB4 :: u32 where "TCNTB4 \<equiv> 0x3c"
abbreviation (input) SRCPND :: u32 where "SRCPND \<equiv> 0x0"
abbreviation (input) INTMOD :: u32 where "INTMOD \<equiv> 0x04"
abbreviation (input) INTMSK :: u32 where "INTMSK \<equiv> 0x08"
abbreviation (input) INTPND :: u32 where "INTPND \<equiv> 0x10"
abbreviation (input) INTOFFSET :: u32 where "INTOFFSET \<equiv> 0x14"
abbreviation (input) SUBSRCPND :: u32 where "SUBSRCPND \<equiv> 0x18"
abbreviation (input) INTSUBMSK :: u32 where "INTSUBMSK \<equiv> 0x1c"
abbreviation (input) MPLLCON :: u32 where "MPLLCON \<equiv> 0x04"
abbreviation (input) UPLLCON :: u32 where "UPLLCON \<equiv> 0x08"
abbreviation (input) CLKDIVN :: u32 where "CLKDIVN \<equiv> 0x14"
abbreviation (input) CAMDIVN :: u32 where "CAMDIVN \<equiv> 0x18"
abbreviation (input) ULCON0 :: u32 where "ULCON0 \<equiv> 0x00"
abbreviation (input) UCON0 :: u32 where "UCON0 \<equiv> 0x04"
abbreviation (input) UFCON0 :: u32 where "UFCON0 \<equiv> 0x08"
abbreviation (input) UMCON0 :: u32 where "UMCON0 \<equiv> 0x0c"
abbreviation (input) UBRDIV0 :: u32 where "UBRDIV0 \<equiv> 0x28"
abbreviation (input) UBRDIV1 :: u32 where "UBRDIV1 \<equiv> 0x4028"

section \<open>Clocks\<close>

definition platform_clk_init :: "pstate \<Rightarrow> pstate" where
  "platform_clk_init st =
     (let fin = 12000000;
          tmp = ioread32 (clk_base st + MPLLCON) st;
          m = drop_bit 12 tmp AND 0xff;
          p = drop_bit 4 tmp AND 0x3f;
          s = tmp AND 0x03;
          fclk = ((m + 8) * (fin div 100) * 2) div ((p + 2) * push_bit (unat s) 1) * 100;
          tmp = ioread32 (clk_base st + CLKDIVN) st;
          m = drop_bit 1 tmp AND 0x03;
          p = tmp AND 0x01;
          tmp = ioread32 (clk_base st + CAMDIVN) st;
          s = drop_bit 8 tmp;
          hclk = (if m = 0 then fclk
                  else if m = 1 then drop_bit 1 fclk
                  else if m = 2 then (if s AND 2 \<noteq> 0 then drop_bit 3 fclk else drop_bit 2 fclk)
                  else (if s AND 1 \<noteq> 0 then fclk div 6 else fclk div 3));
          pclk = (if p \<noteq> 0 then drop_bit 1 hclk else hclk);
          tmp = ioread32 (clk_base st + UPLLCON) st;
          m = drop_bit 12 tmp AND 0xff;
          p = drop_bit 4 tmp AND 0x3f;
          s = tmp AND 0x03;
          uclk = ((m + 8) * fin) div ((p + 2) * push_bit (unat s) 1)
      in st\<lparr>FCLK := fclk, HCLK := hclk, PCLK := pclk, UCLK := uclk\<rparr>)"

text \<open>
  \<^verbatim>\<open>(int)(PCLK / 16. / 115200 + 0.5) - 1\<close>: the quotient is a multiple of \<open>1 / 1843200\<close>, so the
  rounding of the double arithmetic does not reach the next integer.
\<close>

definition platform_uart0_init :: "device \<Rightarrow> pstate \<Rightarrow> int \<times> pstate" where
  "platform_uart0_init dev s =
     (let val = word_of_int ((uint (PCLK s) + 921600) div 1843200 - 1);
          s = iowrite32 dev 0x1 (uart_base s + UFCON0) s;
          s = iowrite32 dev 0x0 (uart_base s + UMCON0) s;
          s = iowrite32 dev 0x03 (uart_base s + ULCON0) s;
          s = iowrite32 dev 0x345 (uart_base s + UCON0) s;
          s = iowrite32 dev val (uart_base s + UBRDIV1) s;
          s = iowrite32 dev val (uart_base s + UBRDIV0) s
      in (0, s))"

definition console_early_init :: "device \<Rightarrow> pstate \<Rightarrow> int \<times> pstate" where
  "console_early_init dev s =
     (let s = s\<lparr>clk_base := CLK_BASE, uart_base := UART_BASE\<rparr>;
          s = platform_clk_init s;
          (_, s) = platform_uart0_init dev s
      in (0, s))"

definition console_late_init :: "pstate \<Rightarrow> (int \<times> pstate) option" where
  "console_late_init s = do {
     c \<leftarrow> request_io_mem CLK_BASE (ms s);
     u \<leftarrow> request_io_mem UART_BASE (ms s);
     Some (0, s\<lparr>clk_base := c, uart_base := u\<rparr>)
   }"

section \<open>The interrupt controller\<close>

definition platform_get_irq_id :: "pstate \<Rightarrow> int" where
  "platform_get_irq_id s = sint (ioread32 (irq_base s + INTOFFSET) s)"

definition platform_irq_init :: "device \<Rightarrow> pstate \<Rightarrow> (int \<times> pstate) option" where
  "platform_irq_init dev s = do {
     b \<leftarrow> request_io_mem IRQ_BASE (ms s);
     let s = s\<lparr>irq_base := b\<rparr>;
     if b = NULL then Some (- ENOMEM, s)
     else do {
       let s = iowrite32 dev 0xffffffff (irq_base s + INTMSK) s;
       let s = iowrite32 dev 0xffffffff (irq_base s + INTSUBMSK) s;
       let s = iowrite32 dev 0 (irq_base s + INTMOD) s;
       Some (0, s)
     }
   }"

abbreviation (input) CAM :: int where "CAM \<equiv> 6"
abbreviation (input) WDT_AC97 :: int where "WDT_AC97 \<equiv> 9"
abbreviation (input) TIMER4 :: int where "TIMER4 \<equiv> 14"
abbreviation (input) UART2 :: int where "UART2 \<equiv> 15"
abbreviation (input) UART1 :: int where "UART1 \<equiv> 23"
abbreviation (input) UART0 :: int where "UART0 \<equiv> 28"
abbreviation (input) ADC :: int where "ADC \<equiv> 31"

text \<open>
  The bits of the sub mask a source has: \<^verbatim>\<open>AC_97\<close>, \<^verbatim>\<open>WDT\<close>, \<^verbatim>\<open>RXD0\<close> and so on.  The shift
  \<^verbatim>\<open>bit(nr)\<close> is defined in C for numbers below 32 only.
\<close>

definition platform_disable_irq :: "device \<Rightarrow> int \<Rightarrow> pstate \<Rightarrow> (int \<times> pstate) option" where
  "platform_disable_irq dev nr s =
     (if nr < 0 \<or> 32 \<le> nr then None else let int_msk = ioread32 (irq_base s + INTMSK) s;
          int_submsk = ioread32 (irq_base s + INTSUBMSK) s;
          int_msk = int_msk OR bitm (nat nr);
          int_submsk =
            (if nr = WDT_AC97 then int_submsk OR (bitm 14 OR bitm 13)
             else if nr = UART0 then int_submsk OR (bitm 0 OR bitm 1 OR bitm 2)
             else if nr = UART1 then int_submsk OR (bitm 3 OR bitm 4 OR bitm 5)
             else if nr = UART2 then int_submsk OR (bitm 6 OR bitm 7 OR bitm 8)
             else if nr = ADC then int_submsk OR (bitm 10 OR bitm 9)
             else if nr = CAM then int_submsk OR (bitm 12 OR bitm 11)
             else int_submsk);
          s = iowrite32 dev int_msk (irq_base s + INTMSK) s;
          s = iowrite32 dev int_submsk (irq_base s + INTSUBMSK) s
      in Some (0, s))"

definition platform_enable_irq :: "device \<Rightarrow> int \<Rightarrow> pstate \<Rightarrow> (int \<times> pstate) option" where
  "platform_enable_irq dev nr s =
     (if nr < 0 \<or> 32 \<le> nr then None else let int_msk = ioread32 (irq_base s + INTMSK) s;
          int_submsk = ioread32 (irq_base s + INTSUBMSK) s;
          int_msk = int_msk AND NOT (bitm (nat nr));
          int_submsk =
            (if nr = WDT_AC97 then int_submsk AND (NOT (bitm 14) AND NOT (bitm 13))
             else if nr = UART0 then int_submsk AND (NOT (bitm 0) AND NOT (bitm 1) AND NOT (bitm 2))
             else if nr = UART1 then int_submsk AND (NOT (bitm 3) AND NOT (bitm 4) AND NOT (bitm 5))
             else if nr = UART2 then int_submsk AND (NOT (bitm 6) AND NOT (bitm 7) AND NOT (bitm 8))
             else if nr = ADC then int_submsk AND (NOT (bitm 10) AND NOT (bitm 9))
             else if nr = CAM then int_submsk AND (NOT (bitm 12) AND NOT (bitm 11))
             else int_submsk);
          s = iowrite32 dev int_msk (irq_base s + INTMSK) s;
          s = iowrite32 dev int_submsk (irq_base s + INTSUBMSK) s
      in Some (0, s))"

definition platform_irq_clean_pending :: "device \<Rightarrow> pstate \<Rightarrow> pstate" where
  "platform_irq_clean_pending dev s =
     (let s = iowrite32 dev (ioread32 (irq_base s + SUBSRCPND) s) (irq_base s + SUBSRCPND) s;
          s = iowrite32 dev (ioread32 (irq_base s + SRCPND) s) (irq_base s + SRCPND) s
      in iowrite32 dev (ioread32 (irq_base s + INTPND) s) (irq_base s + INTPND) s)"

section \<open>Dispatch\<close>

abbreviation (input) IRQ_NR :: int where "IRQ_NR \<equiv> 512"

text \<open>
  \<^verbatim>\<open>arch_get_irq_description\<close> adds the number to the base of the table: \<open>Some None\<close> is the null
  pointer, which only the number 0 gives when there is no table; other numbers outside the table, or
  without a table, point to no object.
\<close>

definition arch_get_irq_description :: "int \<Rightarrow> pstate \<Rightarrow> irq_des option option" where
  "arch_get_irq_description nr s =
     (case irq_table s of
        None \<Rightarrow> if nr = 0 then Some None else None
      | Some t \<Rightarrow> (case lget t nr of None \<Rightarrow> None | Some d \<Rightarrow> Some (Some d)))"

definition get_irq_description :: "int \<Rightarrow> pstate \<Rightarrow> irq_des option option" where
  "get_irq_description nr s = arch_get_irq_description nr s"

definition put_irq_description :: "int \<Rightarrow> irq_des \<Rightarrow> pstate \<Rightarrow> pstate option" where
  "put_irq_description nr d s = do {
     t \<leftarrow> irq_table s;
     t \<leftarrow> lput t nr d;
     Some (s\<lparr>irq_table := Some t\<rparr>)
   }"

definition arch_register_irq :: "device \<Rightarrow> int \<Rightarrow> u32 \<Rightarrow> u32 \<Rightarrow> pstate \<Rightarrow> (int \<times> pstate) option" where
  "arch_register_irq dev nr fn arg s = do {
     des \<leftarrow> arch_get_irq_description nr s;
     case des of
       None \<Rightarrow> Some (1, s)
     | Some d \<Rightarrow>
         if irq_fn d = NULL then do {
           s \<leftarrow> put_irq_description nr (d\<lparr>irq_fn := fn, irq_arg := arg\<rparr>) s;
           (_, s) \<leftarrow> platform_enable_irq dev nr s;
           Some (0, s)
         }
         else Some (1, s)
   }"

definition on_kernel :: "(kstate \<Rightarrow> kstate) \<Rightarrow> pstate \<Rightarrow> pstate" where
  "on_kernel f s = s\<lparr>ms := on_ks f (ms s)\<rparr>"

definition register_irq :: "device \<Rightarrow> int \<Rightarrow> u32 \<Rightarrow> u32 \<Rightarrow> pstate \<Rightarrow> (int \<times> pstate) option" where
  "register_irq dev nr fn arg s =
     (if nr > IRQ_NR - 1 \<or> fn = NULL then Some (- EINVAL, s)
      else do {
        let flags = fst (enter_critical (ks (ms s)));
        let s = on_kernel (\<lambda>k. snd (enter_critical k)) s;
        (err, s) \<leftarrow> arch_register_irq dev nr fn arg s;
        let s = on_kernel (exit_critical flags) s;
        Some (err, s)
      })"

type_synonym fcall = "u32 \<Rightarrow> u32 \<Rightarrow> pstate \<Rightarrow> (int \<times> pstate) option"

definition do_irq_handler :: "fcall \<Rightarrow> int \<Rightarrow> pstate \<Rightarrow> (int \<times> pstate) option" where
  "do_irq_handler call nr s = do {
     let s = on_kernel (\<lambda>k. k\<lparr>in_interrupt := True\<rparr>) s;
     des \<leftarrow> get_irq_description nr s;
     case des of
       None \<Rightarrow> Some (- EINVAL, s)
     | Some d \<Rightarrow> do {
         (ret, s) \<leftarrow> call (irq_fn d) (irq_arg d) s;
         let s = on_kernel (\<lambda>k. k\<lparr>in_interrupt := False\<rparr>) s;
         Some (ret, s)
       }
   }"

definition irq_handler :: "device \<Rightarrow> fcall \<Rightarrow> pstate \<Rightarrow> pstate option" where
  "irq_handler dev call s = do {
     let nr = platform_get_irq_id s;
     let s = platform_irq_clean_pending dev s;
     (_, s) \<leftarrow> do_irq_handler call nr s;
     Some s
   }"

text \<open>\<^verbatim>\<open>arch_irq_init\<close>; a page that was allocated is cleared, so every entry of the table is null.\<close>

definition arch_irq_init :: "device \<Rightarrow> pstate \<Rightarrow> (int option \<times> pstate) option" where
  "arch_irq_init dev s = do {
     let nr = page_nr (512 * 8);
     (r, m) \<leftarrow> get_free_pages (uint nr) GFP_KERNEL (ms s);
     let s = s\<lparr>ms := m\<rparr>;
     case r of
       None \<Rightarrow> Some (None, s)
     | Some a \<Rightarrow>
         if a = NULL then Some (Some (- ENOMEM), s\<lparr>irq_table := None\<rparr>)
         else do {
           let s = s\<lparr>irq_table := Some (replicate (unat (push_bit PAGE_SHIFT nr) div 8) \<lparr>irq_fn = 0, irq_arg = 0\<rparr>)\<rparr>;
           (_, s) \<leftarrow> platform_irq_init dev s;
           Some (Some 0, s)
         }
   }"

section \<open>The timer\<close>

definition platform_timer_tick_handler :: "u32 \<Rightarrow> pstate \<Rightarrow> (int \<times> pstate) option" where
  "platform_timer_tick_handler arg s = do {
     k \<leftarrow> os_tick_handler (ks (ms s));
     Some (0, on_kernel (\<lambda>_. k) s)
   }"

text \<open>\<open>handler\<close> is the address of \<^verbatim>\<open>platform_timer_tick_handler\<close>.\<close>

definition timer_tick_init :: "device \<Rightarrow> u32 \<Rightarrow> pstate \<Rightarrow> (int \<times> pstate) option" where
  "timer_tick_init dev handler s = do {
     b \<leftarrow> request_io_mem TIMER_BASE (ms s);
     let s = s\<lparr>timer_base := b\<rparr>;
     if b = NULL then Some (- ENOMEM, s)
     else do {
       let s = iowrite32 dev (push_bit 8 249) (timer_base s + TCFG0) s;
       let s = iowrite32 dev (push_bit 16 0) (timer_base s + TCFG1) s;
       let s = iowrite16 dev 64536 (timer_base s + TCNTB4) s;
       let s = iowrite32 dev (push_bit 21 1) (timer_base s + TCON) s;
       let s = iowrite32 dev (bitm 20 OR bitm 22) (timer_base s + TCON) s;
       (_, s) \<leftarrow> register_irq dev TIMER4 handler NULL s;
       Some (0, s)
     }
   }"

end
