(* ===== verification/PlatformProps.thy ===== *)
theory PlatformProps
  imports Platform MmProps
begin

text \<open>
  Properties of the board code: the clock formulas, the masks of the interrupt controller, and the way
  of a timer interrupt from the controller to the scheduler.
\<close>

section \<open>What the code relies on in the interrupt controller\<close>

text \<open>
  The mask registers hold what is written to them; writing a pending register clears the bits
  written as one; a write changes no other of the registers, except that clearing \<^verbatim>\<open>INTPND\<close> may change
  \<^verbatim>\<open>INTOFFSET\<close>.
\<close>

definition irq_regs :: "u32 \<Rightarrow> u32 set" where
  "irq_regs b = {b + SRCPND, b + INTMOD, b + INTMSK, b + INTPND, b + SUBSRCPND, b + INTSUBMSK}"

locale irq_controller =
  fixes dev :: device and b :: u32
  assumes mask_holds: "a = b + INTMSK \<or> a = b + INTSUBMSK \<Longrightarrow> dev 32 a v r a = v"
    and pending_clears: "a = b + SRCPND \<or> a = b + INTPND \<or> a = b + SUBSRCPND \<Longrightarrow> dev 32 a v r a = r a AND NOT v"
    and others_stay: "a \<in> irq_regs b \<Longrightarrow> a' \<in> irq_regs b \<Longrightarrow> a' \<noteq> a \<Longrightarrow> dev 32 a v r a' = r a'"
begin

lemma write_mask:
  assumes "irq_base s = b"
  shows "ioread32 (b + INTMSK) (iowrite dev 32 v2 (b + INTSUBMSK) (iowrite dev 32 v1 (b + INTMSK) s)) = v1"
    and "ioread32 (b + INTSUBMSK) (iowrite dev 32 v2 (b + INTSUBMSK) (iowrite dev 32 v1 (b + INTMSK) s)) = v2"
  using mask_holds others_stay [of "b + INTSUBMSK" "b + INTMSK"]
  by (simp_all add: ioread32_def iowrite_def irq_regs_def)

text \<open>Acknowledging clears exactly what was pending when the registers were read.\<close>

lemma clean_pending:
  assumes "irq_base s = b"
  shows "\<forall>p \<in> {SRCPND, INTPND, SUBSRCPND}. ioread32 (b + p) (platform_irq_clean_pending dev s) = 0"
    and "\<forall>p \<in> {INTMSK, INTSUBMSK, INTMOD}. ioread32 (b + p) (platform_irq_clean_pending dev s) = ioread32 (b + p) s"
proof -
  have ne: "b \<noteq> b + 0x10" "b \<noteq> b + 0x18" "b \<noteq> b + 0x8" "b \<noteq> b + 0x1c" "b \<noteq> b + 4" by simp_all
  note d = platform_irq_clean_pending_def Let_def ioread32_def iowrite_def assms
  show "\<forall>p \<in> {SRCPND, INTPND, SUBSRCPND}. ioread32 (b + p) (platform_irq_clean_pending dev s) = 0"
    using pending_clears others_stay ne by (simp add: d irq_regs_def)
  show "\<forall>p \<in> {INTMSK, INTSUBMSK, INTMOD}. ioread32 (b + p) (platform_irq_clean_pending dev s) = ioread32 (b + p) s"
    using others_stay ne by (simp add: d irq_regs_def)
qed

end

text \<open>The controller of the S3C2440 at the address \<open>b\<close>, other addresses being plain memory.\<close>

definition s3c_dev :: "u32 \<Rightarrow> device" where
  "s3c_dev b w a v r = r(a := if a \<in> {b + SRCPND, b + INTPND, b + SUBSRCPND} then r a AND NOT v else v)"

interpretation s3c: irq_controller "s3c_dev b" b
  by unfold_locales (auto simp: s3c_dev_def irq_regs_def)

section \<open>Masks\<close>

definition sub_bits :: "int \<Rightarrow> nat set" where
  "sub_bits nr = (if nr = WDT_AC97 then {13, 14} else if nr = UART0 then {0, 1, 2} else if nr = UART1 then {3, 4, 5}
     else if nr = UART2 then {6, 7, 8} else if nr = ADC then {9, 10} else if nr = CAM then {11, 12} else {})"

lemma iowrite_base [simp]: "irq_base (iowrite dev w v a s) = irq_base s" "irq_table (iowrite dev w v a s) = irq_table s"
  "ms (iowrite dev w v a s) = ms s"
  by (simp_all add: iowrite_def)

lemma enable_irq_eq:
  assumes "0 \<le> nr" "nr < 32"
  shows "\<exists>n. platform_enable_irq dev nr s = Some (0, iowrite dev 32 n (irq_base s + INTSUBMSK)
      (iowrite dev 32 (ioread32 (irq_base s + INTMSK) s AND NOT (bitm (nat nr))) (irq_base s + INTMSK) s)) \<and>
    (\<forall>k < 32. bit n k = (bit (ioread32 (irq_base s + INTSUBMSK) s) k \<and> k \<notin> sub_bits nr))"
  unfolding platform_enable_irq_def Let_def using assms
  by (intro exI conjI, simp, intro allI impI) (auto simp: sub_bits_def bit_and_iff bit_not_iff)

lemma disable_irq_eq:
  assumes "0 \<le> nr" "nr < 32"
  shows "\<exists>n. platform_disable_irq dev nr s = Some (0, iowrite dev 32 n (irq_base s + INTSUBMSK)
      (iowrite dev 32 (ioread32 (irq_base s + INTMSK) s OR bitm (nat nr)) (irq_base s + INTMSK) s)) \<and>
    (\<forall>k < 32. bit n k = (bit (ioread32 (irq_base s + INTSUBMSK) s) k \<or> k \<in> sub_bits nr))"
  unfolding platform_disable_irq_def Let_def using assms
  by (intro exI conjI, simp, intro allI impI) (auto simp: sub_bits_def bit_or_iff)

text \<open>
  Enabling an interrupt clears its bit and the bits of its sub sources in the mask registers and no
  other; disabling it sets them again.
\<close>

theorem irq_masks:
  assumes dev: "irq_controller dev (irq_base s)" and nr: "0 \<le> nr" "nr < 32"
  shows "\<exists>s1 s2. platform_enable_irq dev nr s = Some (0, s1) \<and> platform_disable_irq dev nr s1 = Some (0, s2) \<and>
    (\<forall>k < 32. bit (ioread32 (irq_base s + INTMSK) s1) k = (bit (ioread32 (irq_base s + INTMSK) s) k \<and> k \<noteq> nat nr) \<and>
      bit (ioread32 (irq_base s + INTSUBMSK) s1) k = (bit (ioread32 (irq_base s + INTSUBMSK) s) k \<and> k \<notin> sub_bits nr) \<and>
      bit (ioread32 (irq_base s + INTMSK) s2) k = (bit (ioread32 (irq_base s + INTMSK) s) k \<or> k = nat nr) \<and>
      bit (ioread32 (irq_base s + INTSUBMSK) s2) k = (bit (ioread32 (irq_base s + INTSUBMSK) s) k \<or> k \<in> sub_bits nr))"
proof -
  let ?b = "irq_base s"
  note w = irq_controller.write_mask [OF dev]
  obtain n1 s1 where s1: "platform_enable_irq dev nr s = Some (0, s1)" "s1 = iowrite dev 32 n1 (?b + INTSUBMSK)
      (iowrite dev 32 (ioread32 (?b + INTMSK) s AND NOT (bitm (nat nr))) (?b + INTMSK) s)"
    "\<And>k. k < 32 \<Longrightarrow> bit n1 k = (bit (ioread32 (?b + INTSUBMSK) s) k \<and> k \<notin> sub_bits nr)"
    using enable_irq_eq [OF nr, of dev s] by blast
  have r1: "irq_base s1 = ?b" "ioread32 (?b + INTMSK) s1 = ioread32 (?b + INTMSK) s AND NOT (bitm (nat nr))"
    "ioread32 (?b + INTSUBMSK) s1 = n1"
    using w [of s] by (simp_all add: s1(2))
  obtain n2 s2 where s2: "platform_disable_irq dev nr s1 = Some (0, s2)" "s2 = iowrite dev 32 n2 (?b + INTSUBMSK)
      (iowrite dev 32 (ioread32 (?b + INTMSK) s1 OR bitm (nat nr)) (?b + INTMSK) s1)"
    "\<And>k. k < 32 \<Longrightarrow> bit n2 k = (bit n1 k \<or> k \<in> sub_bits nr)"
    using disable_irq_eq [OF nr, of dev s1] r1 by auto
  have r2: "ioread32 (?b + INTMSK) s2 = ioread32 (?b + INTMSK) s1 OR bitm (nat nr)" "ioread32 (?b + INTSUBMSK) s2 = n2"
    using w [of s1] r1(1) by (simp_all add: s2(2))
  have "nat nr < 32" using nr by simp
  then show ?thesis
    using s1(1,3) s2(1,3) r1(2,3) r2
    by (intro exI [of _ s1] exI [of _ s2]) (auto simp: bit_and_not_bitm bit_or_bitm)
qed

definition board_regs :: "u32 \<Rightarrow> u32" where
  "board_regs a = (if a = 0x4c000004 then 0x5c011 else if a = 0x4c000008 then 0x38022 else if a = 0x4c000014 then 5
     else if a = 0x8600001c \<or> a = 0x86000008 then 0xffffffff else if a = 0x86000014 then 14 else 0)"

definition board_state :: "irq_des list option \<Rightarrow> pstate" where
  "board_state t = \<lparr>ms = machine [3, 0, 0, 0, 0, 0, 0, 0, 0], regs = board_regs, irq_base = 0x86000000, timer_base = 0,
     clk_base = 0x4c000000, uart_base = 0, HCLK = 0, FCLK = 0, PCLK = 0, UCLK = 0, irq_table = t\<rparr>"

theorem irq_masks_witness:
  "\<exists>s1 s2. platform_enable_irq (s3c_dev 0x86000000) 28 (board_state None) = Some (0, s1) \<and>
    \<not> bit (ioread32 0x86000008 s1) 28 \<and> bit (ioread32 0x86000008 s1) 27 \<and> \<not> bit (ioread32 0x8600001c s1) 2 \<and>
    platform_disable_irq (s3c_dev 0x86000000) 28 s1 = Some (0, s2) \<and> bit (ioread32 0x86000008 s2) 28"
proof -
  let ?s = "board_state None"
  have b: "irq_base ?s = 0x86000000" "ioread32 0x86000008 ?s = 0xffffffff" "ioread32 0x8600001c ?s = 0xffffffff"
    by (simp_all add: board_state_def board_regs_def ioread32_def)
  obtain s1 s2 where s: "platform_enable_irq (s3c_dev 0x86000000) 28 ?s = Some (0, s1)"
    "platform_disable_irq (s3c_dev 0x86000000) 28 s1 = Some (0, s2)"
    and k: "\<And>k. k < 32 \<Longrightarrow> bit (ioread32 0x86000008 s1) k = (bit (0xffffffff :: u32) k \<and> k \<noteq> 28)"
      "\<And>k. k < 32 \<Longrightarrow> bit (ioread32 0x8600001c s1) k = (bit (0xffffffff :: u32) k \<and> k \<notin> sub_bits 28)"
      "\<And>k. k < 32 \<Longrightarrow> bit (ioread32 0x86000008 s2) k = (bit (0xffffffff :: u32) k \<or> k = 28)"
    using irq_masks [of "s3c_dev 0x86000000" ?s 28] s3c.irq_controller_axioms b by auto
  have "bit (0xffffffff :: u32) 27" by simp
  then show ?thesis using s k(1) [of 28] k(1) [of 27] k(2) [of 2] k(3) [of 28]
    by (auto simp: sub_bits_def)
qed

section \<open>Clocks\<close>

lemma and_mask_bound: "unat (w AND 0xff :: u32) \<le> 255" "unat (w AND 0x3f :: u32) \<le> 63" "unat (w AND 3 :: u32) \<le> 3"
proof -
  have m: "(0xff :: u32) = mask 8" "(0x3f :: u32) = mask 6" "(3 :: u32) = mask 2" by (simp_all add: mask_eq_exp_minus_1)
  show "unat (w AND 0xff :: u32) \<le> 255" "unat (w AND 0x3f :: u32) \<le> 63" "unat (w AND 3 :: u32) \<le> 3"
    unfolding m unat_mask_and by (simp_all add: less_Suc_eq_le [symmetric])
qed

text \<open>The divisor of a clock: \<open>(p + 2) * 2 ^ s\<close>.\<close>

lemma clk_divisor:
  fixes p s :: u32
  assumes p: "unat p \<le> 63" and s: "unat s \<le> 3"
  shows "unat ((p + 2) * push_bit (unat s) 1) = (unat p + 2) * 2 ^ unat s"
proof -
  have "(2::nat) ^ unat s \<le> 2 ^ 3" using s by (intro power_increasing) auto
  moreover have "unat (push_bit (unat s) 1 :: u32) = 2 ^ unat s"
    using s unat_power_u32 [of "unat s"] by (simp add: push_bit_eq_mult)
  moreover have "unat (p + 2) = unat p + 2" using p unat_add_u32 [of p 2] by simp
  moreover have "(unat p + 2) * 2 ^ unat s \<le> 65 * 2 ^ 3" using p calculation(1) by (intro mult_le_mono) auto
  ultimately show ?thesis using unat_mult_u32 [of "p + 2" "push_bit (unat s) 1"] by simp
qed

text \<open>The pll formulas on the fields of their register.\<close>

definition pll_m :: "u32 \<Rightarrow> nat" where "pll_m r = unat (drop_bit 12 r AND 0xff)"
definition pll_p :: "u32 \<Rightarrow> nat" where "pll_p r = unat (drop_bit 4 r AND 0x3f)"
definition pll_s :: "u32 \<Rightarrow> nat" where "pll_s r = unat (r AND 3)"

lemma fclk_exact:
  "unat (((drop_bit 12 r AND 0xff) + 8) * (12000000 div 100) * 2 div
      (((drop_bit 4 r AND 0x3f) + 2) * push_bit (unat (r AND 0x03)) 1) * 100) =
   (pll_m r + 8) * 240000 div ((pll_p r + 2) * 2 ^ pll_s r) * 100"
proof -
  let ?m = "drop_bit 12 r AND 0xff :: u32"
  have m: "unat ?m \<le> 255" by (rule and_mask_bound)
  have "unat (?m + 8) = unat ?m + 8" using m unat_add_u32 [of ?m 8] by simp
  then have n: "unat ((?m + 8) * 240000) = (unat ?m + 8) * 240000"
    using m unat_mult_u32 [of "?m + 8" 240000] by simp
  have d: "unat (((drop_bit 4 r AND 0x3f) + 2) * push_bit (unat (r AND 3)) 1 :: u32) = (pll_p r + 2) * 2 ^ pll_s r"
    unfolding pll_p_def pll_s_def by (rule clk_divisor) (rule and_mask_bound)+
  let ?q = "(?m + 8) * 240000 div (((drop_bit 4 r AND 0x3f) + 2) * push_bit (unat (r AND 3)) 1) :: u32"
  have q: "unat ?q = (pll_m r + 8) * 240000 div ((pll_p r + 2) * 2 ^ pll_s r)"
    unfolding unat_div n d pll_m_def ..
  have "1 \<le> (2::nat) ^ pll_s r" by simp
  then have "2 * 1 \<le> (pll_p r + 2) * 2 ^ pll_s r" by (intro mult_le_mono) auto
  then have "(pll_m r + 8) * 240000 div ((pll_p r + 2) * 2 ^ pll_s r) \<le> (pll_m r + 8) * 240000 div 2"
    by (intro div_le_mono2) auto
  also have "\<dots> \<le> 263 * 120000" using m by (simp add: pll_m_def)
  finally have "unat ?q * 100 < 2 ^ 32" unfolding q by simp
  then have "unat (?q * 100) = unat ?q * 100" using unat_mult_u32 [of ?q 100] by simp
  then show ?thesis unfolding q by (simp add: mult.assoc)
qed

lemma uclk_exact:
  "unat (((drop_bit 12 r AND 0xff) + 8) * 12000000 div
      (((drop_bit 4 r AND 0x3f) + 2) * push_bit (unat (r AND 0x03)) 1) :: u32) =
   (pll_m r + 8) * 12000000 div ((pll_p r + 2) * 2 ^ pll_s r)"
proof -
  let ?m = "drop_bit 12 r AND 0xff :: u32"
  have m: "unat ?m \<le> 255" by (rule and_mask_bound)
  have "unat (?m + 8) = unat ?m + 8" using m unat_add_u32 [of ?m 8] by simp
  then have n: "unat ((?m + 8) * 12000000) = (unat ?m + 8) * 12000000"
    using m unat_mult_u32 [of "?m + 8" 12000000] by simp
  have d: "unat (((drop_bit 4 r AND 0x3f) + 2) * push_bit (unat (r AND 3)) 1 :: u32) = (pll_p r + 2) * 2 ^ pll_s r"
    unfolding pll_p_def pll_s_def by (rule clk_divisor) (rule and_mask_bound)+
  show ?thesis unfolding unat_div n d pll_m_def ..
qed

text \<open>
  Whatever the clock registers hold, no product of \<^verbatim>\<open>platform_clk_init\<close> overflows 32 bits: the
  core and USB clocks are the quotients of the data sheet, and the peripheral clock is at most the bus
  clock, which is at most the core clock.
\<close>

theorem clocks_exact:
  "let s' = platform_clk_init s; mpll = ioread32 (clk_base s + MPLLCON) s; upll = ioread32 (clk_base s + UPLLCON) s in
   unat (FCLK s') = (pll_m mpll + 8) * 240000 div ((pll_p mpll + 2) * 2 ^ pll_s mpll) * 100 \<and>
   unat (UCLK s') = (pll_m upll + 8) * 12000000 div ((pll_p upll + 2) * 2 ^ pll_s upll) \<and>
   PCLK s' \<le> HCLK s' \<and> HCLK s' \<le> FCLK s'"
proof -
  have drop: "drop_bit k w \<le> w" for w :: u32 and k
    by (simp add: word_le_nat_alt unat_drop_bit)
  have quot: "w div n \<le> w" for w n :: u32
    by (simp add: word_le_nat_alt unat_div)
  let ?s = "platform_clk_init s"
  have f: "unat (FCLK ?s) = (let r = ioread32 (clk_base s + MPLLCON) s in (pll_m r + 8) * 240000 div ((pll_p r + 2) * 2 ^ pll_s r) * 100)"
    using fclk_exact [of "ioread32 (clk_base s + MPLLCON) s"] by (simp add: platform_clk_init_def Let_def)
  have u: "unat (UCLK ?s) = (let r = ioread32 (clk_base s + UPLLCON) s in (pll_m r + 8) * 12000000 div ((pll_p r + 2) * 2 ^ pll_s r))"
    using uclk_exact [of "ioread32 (clk_base s + UPLLCON) s"] by (simp add: platform_clk_init_def Let_def)
  have "PCLK ?s = drop_bit 1 (HCLK ?s) \<or> PCLK ?s = HCLK ?s"
    by (simp add: platform_clk_init_def Let_def del: drop_bit_drop_bit)
  then have "PCLK ?s \<le> HCLK ?s" using drop by (metis order.refl)
  moreover have "HCLK ?s \<le> FCLK ?s" by (simp add: platform_clk_init_def Let_def drop quot)
  ultimately show ?thesis using f u by (simp add: Let_def)
qed

section \<open>From the timer to the scheduler\<close>

lemma on_kernel_sel [simp]:
  "ks (ms (on_kernel f s)) = f (ks (ms s))" "regs (on_kernel f s) = regs s" "irq_table (on_kernel f s) = irq_table s"
  "irq_base (on_kernel f s) = irq_base s"
  by (simp_all add: on_kernel_def on_ks_def)

lemma clean_pending_sel [simp]:
  "ms (platform_irq_clean_pending dev s) = ms s" "irq_table (platform_irq_clean_pending dev s) = irq_table s"
  by (simp_all add: platform_irq_clean_pending_def Let_def)

lemma kinv_in_interrupt [simp]: "kinv F (k\<lparr>in_interrupt := i\<rparr>) \<longleftrightarrow> kinv F k"
  by (rule kinv_cong) simp_all

lemma register_irq_spec:
  assumes t: "irq_table s = Some t" and nr: "0 \<le> nr" "nr < 32" "nat nr < length t" and free: "irq_fn (t ! nat nr) = NULL"
    and fn: "fn \<noteq> NULL"
  shows "\<exists>s'. register_irq dev nr fn arg s = Some (0, s') \<and> irq_base s' = irq_base s \<and>
    irq_table s' = Some (t[nat nr := \<lparr>irq_fn = fn, irq_arg = arg\<rparr>]) \<and> ks (ms s') = ks (ms s)"
proof -
  let ?k = "ks (ms s)"
  have d: "(t ! nat nr)\<lparr>irq_fn := fn, irq_arg := arg\<rparr> = \<lparr>irq_fn = fn, irq_arg = arg\<rparr>" by (cases "t ! nat nr") simp
  have restore: "exit_critical (cpsr ?k) (snd (enter_critical ?k)) = ?k"
    by (cases ?k) (simp add: critical_defs msr_cpsr_c_restore)
  let ?s1 = "on_kernel (\<lambda>k. snd (enter_critical k)) s"
  let ?s2 = "?s1\<lparr>irq_table := Some (t[nat nr := \<lparr>irq_fn = fn, irq_arg = arg\<rparr>])\<rparr>"
  obtain n where n: "platform_enable_irq dev nr ?s2 = Some (0, iowrite dev 32 n (irq_base ?s2 + INTSUBMSK)
      (iowrite dev 32 (ioread32 (irq_base ?s2 + INTMSK) ?s2 AND NOT (bitm (nat nr))) (irq_base ?s2 + INTMSK) ?s2))"
    using enable_irq_eq [OF nr(1,2), of dev ?s2] by blast
  show ?thesis
    using t nr free fn n restore
    by (simp add: register_irq_def arch_register_irq_def arch_get_irq_description_def put_irq_description_def
        lget_def lput_def d critical_cpsr Let_def)
qed

text \<open>
  C20. A handler registered for the timer is called when the controller reports the timer's number: the
  tick runs on the scheduler state with the interrupt flag set, the flag is clear afterwards, and the
  exit from the interrupt leaves a consistent scheduler running its choice.
\<close>

theorem timer_interrupt_ticks:
  assumes t: "irq_table s = Some t" "14 < length t" "irq_fn (t ! 14) = NULL"
    and h: "h \<noteq> NULL" "call h = platform_timer_tick_handler" and ready: "kready F (ks (ms s))"
  shows "\<exists>s1. register_irq dev TIMER4 h NULL s = Some (0, s1) \<and> ks (ms s1) = ks (ms s) \<and>
    (platform_get_irq_id s1 = TIMER4 \<longrightarrow>
     (\<exists>s2 k F'. irq_handler dev call s1 = Some s2 \<and> os_tick_handler ((ks (ms s))\<lparr>in_interrupt := True\<rparr>) = Some k \<and>
        ks (ms s2) = k\<lparr>in_interrupt := False\<rparr> \<and> kready F' (os_exit_irq (ks (ms s2)))))"
proof -
  let ?k = "(ks (ms s))\<lparr>in_interrupt := True\<rparr>"
  obtain s1 where s1: "register_irq dev TIMER4 h NULL s = Some (0, s1)"
    "irq_table s1 = Some (t[14 := \<lparr>irq_fn = h, irq_arg = NULL\<rparr>])" "ks (ms s1) = ks (ms s)"
    using register_irq_spec [OF t(1), of 14 h dev NULL] t h by auto
  have kinv: "kinv F ?k" "next_run ?k = current ?k" using ready by (simp_all add: kready_def)
  obtain k F' where k: "os_tick_handler ?k = Some k" "kinv F' (os_exit_irq k)"
    "in_interrupt k = in_interrupt ?k" "schedule_running k = schedule_running ?k"
    using os_tick_handler_spec [OF kinv] by blast
  have "os_exit_irq (k\<lparr>in_interrupt := False\<rparr>) = (os_exit_irq k)\<lparr>in_interrupt := False\<rparr>"
    by (simp add: os_exit_irq_def)
  moreover have "next_run (os_exit_irq k) = current (os_exit_irq k)" "schedule_running (os_exit_irq k) = schedule_running k"
    by (simp_all add: os_exit_irq_def)
  ultimately have ready': "kready F' (os_exit_irq (k\<lparr>in_interrupt := False\<rparr>))"
    using k ready by (simp add: kready_def)
  have "\<exists>s2. irq_handler dev call s1 = Some s2 \<and> ks (ms s2) = k\<lparr>in_interrupt := False\<rparr>" if "platform_get_irq_id s1 = TIMER4"
    using that s1 t(2) h(2) k(1)
    by (simp add: irq_handler_def do_irq_handler_def get_irq_description_def arch_get_irq_description_def lget_def
        platform_timer_tick_handler_def)
  with s1 k(1) ready' show ?thesis by metis
qed

theorem timer_interrupt_ticks_witness:
  "\<exists>s1 s2. register_irq (s3c_dev 0x86000000) TIMER4 0x80010000 NULL (board_state (Some (replicate 512 \<lparr>irq_fn = 0, irq_arg = 0\<rparr>))) = Some (0, s1) \<and>
    irq_handler (s3c_dev 0x86000000) (\<lambda>f. if f = 0x80010000 then platform_timer_tick_handler else (\<lambda>_ _. None)) s1 = Some s2"
proof -
  let ?t = "replicate 512 \<lparr>irq_fn = 0, irq_arg = 0\<rparr> :: irq_des list"
  let ?s = "board_state (Some ?t)"
  let ?call = "(\<lambda>f. if f = 0x80010000 then platform_timer_tick_handler else (\<lambda>_ _. None)) :: fcall"
  have "kready demo_F (ks (ms ?s))" using demo_ks_ready by (simp add: board_state_def machine_def)
  moreover have "irq_table ?s = Some ?t" "14 < length ?t" "irq_fn (?t ! 14) = NULL" by (simp_all add: board_state_def)
  ultimately obtain s1 where s1: "register_irq (s3c_dev 0x86000000) TIMER4 0x80010000 NULL ?s = Some (0, s1)"
    and run: "platform_get_irq_id s1 = TIMER4 \<Longrightarrow> \<exists>s2. irq_handler (s3c_dev 0x86000000) ?call s1 = Some s2"
    using timer_interrupt_ticks [of ?s ?t "0x80010000" ?call demo_F "s3c_dev 0x86000000"] by auto
  have "platform_get_irq_id s1 = TIMER4"
    using s1 by (auto simp: board_state_def register_irq_def arch_register_irq_def arch_get_irq_description_def
        put_irq_description_def lget_def lput_def platform_enable_irq_def Let_def platform_get_irq_id_def ioread32_def
        iowrite_def on_kernel_def s3c_dev_def board_regs_def)
  with s1 run show ?thesis by blast
qed

end
