(* ===== verification/Slab.thy ===== *)
theory Slab
  imports MmAlloc Kstring
begin

text \<open>
  The slab allocator, \<^verbatim>\<open>mm/slab.c\<close>.  A \<^verbatim>\<open>struct slab_header\<close> is known by its address: its
  members are in \<open>headers\<close>, its list head is the node \<open>N_header\<close>.  A \<^verbatim>\<open>struct page *\<close> is a page
  number, \<^const>\<open>None\<close> for \<^verbatim>\<open>NULL\<close>.

  An operation that can be suspended in a mutex is a \<open>kop\<close>: \<open>kthen\<close> runs the second operation on the
  value of the first unless the first is suspended.
\<close>

section \<open>Operations that can be suspended\<close>

type_synonym ('a, 's) kop = "'s \<Rightarrow> ('a option \<times> 's) option"

definition kret :: "'a \<Rightarrow> ('a, 's) kop" where
  "kret x s = Some (Some x, s)"

definition kthen :: "('a, 's) kop \<Rightarrow> ('a \<Rightarrow> ('b, 's) kop) \<Rightarrow> ('b, 's) kop" where
  "kthen m f s = do {
     (r, s) \<leftarrow> m s;
     if r = None then Some (None, s) else f (the r) s
   }"

definition kread :: "('s \<Rightarrow> 'a option) \<Rightarrow> ('a, 's) kop" where
  "kread g s = do { x \<leftarrow> g s; Some (Some x, s) }"

definition kmod :: "('s \<Rightarrow> 's option) \<Rightarrow> (unit, 's) kop" where
  "kmod g s = do { s \<leftarrow> g s; Some (Some (), s) }"

lemma kop_simps [simp]:
  "kret x s = Some (Some x, s)"
  "m s = Some (Some x, s') \<Longrightarrow> kthen m f s = f x s'"
  "m s = Some (None, s') \<Longrightarrow> kthen m f s = Some (None, s')"
  "m s = None \<Longrightarrow> kthen m f s = None"
  "kread g s = (case g s of None \<Rightarrow> None | Some x \<Rightarrow> Some (Some x, s))"
  "kmod h s = (case h s of None \<Rightarrow> None | Some s' \<Rightarrow> Some (Some (), s'))"
  by (simp_all add: kret_def kthen_def kread_def kmod_def split: option.split)

section \<open>Data\<close>

record slab_header =
  sh_base :: u32
  sh_size :: int

record sstate =
  sm :: mstate
  headers :: "u32 \<Rightarrow> slab_header option"
  slab_page_current :: "int option"
  table_page_current :: "int option"
  table_total_pages :: int
  page_current :: int
  header_in_page :: int

abbreviation (input) SLAB_HEADER_SIZE :: int where "SLAB_HEADER_SIZE \<equiv> 16"
abbreviation (input) SLAB_STEP :: int where "SLAB_STEP \<equiv> 16"
abbreviation (input) SLAB_NODE :: int where "SLAB_NODE \<equiv> 255"
abbreviation (input) GFP_RES :: u32 where "GFP_RES \<equiv> 4"

definition list_id :: "int \<Rightarrow> int" where
  "list_id sz = sz div 2 ^ 4 - 1"

definition sl :: "(node lheap \<Rightarrow> node lheap) \<Rightarrow> sstate \<Rightarrow> sstate" where
  "sl f s = s\<lparr>sm := on_ks (on_lists f) (sm s)\<rparr>"

definition sheap :: "sstate \<Rightarrow> node lheap" where
  "sheap s = lists (ks (sm s))"

definition mm_op :: "('a, mstate) kop \<Rightarrow> ('a, sstate) kop" where
  "mm_op f s = do { (r, m) \<leftarrow> f (sm s); Some (r, s\<lparr>sm := m\<rparr>) }"

definition mm_upd :: "(mstate \<Rightarrow> mstate option) \<Rightarrow> sstate \<Rightarrow> sstate option" where
  "mm_upd f s = do { m \<leftarrow> f (sm s); Some (s\<lparr>sm := m\<rparr>) }"

definition page_upd :: "int \<Rightarrow> (page \<Rightarrow> page) \<Rightarrow> sstate \<Rightarrow> sstate option" where
  "page_upd pg f s = do {
     p \<leftarrow> page_read pg (sm s);
     mm_upd (page_write pg (f p)) s
   }"

fun header_entry :: "node \<Rightarrow> u32 option" where
  "header_entry (N_header h) = Some h"
| "header_entry _ = None"

definition int_aligin :: "int \<Rightarrow> int \<Rightarrow> int" where
  "int_aligin n b = (n + b - 1) AND NOT (b - 1)"

section \<open>Headers\<close>

definition get_new_alloc_size :: "int \<Rightarrow> u32 \<Rightarrow> int" where
  "get_new_alloc_size sz flag =
     (if flag AND GFP_DMA \<noteq> 0 \<or> flag AND GFP_RES \<noteq> 0 then int_aligin sz 4096
      else int_aligin sz SLAB_STEP)"

text \<open>\<^verbatim>\<open>dir\<close> is \<^verbatim>\<open>PAGE_TO_SLAB\<close>.\<close>

definition header_list_switch :: "u32 \<Rightarrow> int \<Rightarrow> node \<Rightarrow> bool \<Rightarrow> sstate \<Rightarrow> sstate" where
  "header_list_switch h pg l dir s =
     (if dir then sl (list_add l (N_header h)) (sl (list_del (N_header h)) s)
      else sl (list_add (N_page (word_of_int pg)) (N_header h)) (sl (list_del (N_header h)) s))"

definition add_slab_header_to_page :: "int \<Rightarrow> u32 \<Rightarrow> sstate \<Rightarrow> sstate" where
  "add_slab_header_to_page pg h s = sl (list_add (N_page (word_of_int pg)) (N_header h)) s"

definition add_slab_header_to_list :: "u32 \<Rightarrow> sstate \<Rightarrow> sstate option" where
  "add_slab_header_to_list h s = do {
     x \<leftarrow> headers s h;
     let i = list_id (sh_size x);
     if 0 \<le> i \<and> i < SLAB_NODE then Some (sl (list_add (N_slab i) (N_header h)) s) else None
   }"

definition init_slab_header :: "u32 \<Rightarrow> int \<Rightarrow> u32 \<Rightarrow> sstate \<Rightarrow> sstate option" where
  "init_slab_header h sz base s =
     (if h = NULL then None
      else Some (sl (init_list (N_header h)) (s\<lparr>headers := (headers s)(h \<mapsto> \<lparr>sh_base = base, sh_size = sz\<rparr>)\<rparr>)))"

definition get_slab_header_from_page :: "int \<Rightarrow> sstate \<Rightarrow> (u32 \<times> sstate) option" where
  "get_slab_header_from_page pg s = do {
     p \<leftarrow> page_read pg (sm s);
     s \<leftarrow> page_upd pg (\<lambda>p. p\<lparr>pg_free_base := pg_free_base p + word_of_int SLAB_HEADER_SIZE,
       pg_free_size := pg_free_size p - word_of_int SLAB_HEADER_SIZE\<rparr>) s;
     s \<leftarrow> mm_upd (page_get pg) s;
     Some (pg_free_base p, s)
   }"

definition header_from_page :: "int \<Rightarrow> (u32, sstate) kop" where
  "header_from_page pg s = do { (h, s) \<leftarrow> get_slab_header_from_page pg s; Some (Some h, s) }"

definition get_new_slab_header :: "(u32, sstate) kop" where
  "get_new_slab_header s =
     (if \<not> is_list_empty N_free_header (sheap s) then do {
        h \<leftarrow> header_entry (lnext (sheap s) N_free_header);
        Some (Some h, sl (list_del (N_header h)) s)
      }
      else if uint (word_of_int (header_in_page s) :: u32) < 4096 div SLAB_HEADER_SIZE \<and> table_page_current s \<noteq> None then
        header_from_page (the (table_page_current s)) (s\<lparr>header_in_page := header_in_page s + 1\<rparr>)
      else
        kthen (mm_op (get_free_page GFP_SLAB_HEADER)) (\<lambda>base.
          if base = NULL then kret NULL
          else (\<lambda>s. do {
            let pg = va_to_page base (sm s);
            s \<leftarrow> page_upd pg (\<lambda>p. p\<lparr>pg_free_base := page_to_va pg (sm s), pg_free_size := 4096\<rparr>) s;
            let s = sl (list_add N_table_list (N_page (word_of_int pg))) s;
            let s = s\<lparr>table_total_pages := table_total_pages s + 1\<rparr>;
            let s = s\<lparr>page_current := table_total_pages s - 1, header_in_page := 1, table_page_current := Some pg\<rparr>;
            header_from_page pg s
          })) s)"

text \<open>The common part of \<^verbatim>\<open>get_slab_from_page\<close> and \<^verbatim>\<open>get_slab_from_page_free\<close>.\<close>

definition carve_slab :: "int \<Rightarrow> int \<Rightarrow> u32 \<Rightarrow> sstate \<Rightarrow> sstate option" where
  "carve_slab pg sz h s = do {
     p \<leftarrow> page_read pg (sm s);
     s \<leftarrow> init_slab_header h sz (pg_free_base p) s;
     s \<leftarrow> page_upd pg (\<lambda>p. p\<lparr>pg_free_size := pg_free_size p - word_of_int sz,
       pg_free_base := pg_free_base p + word_of_int sz\<rparr>) s;
     let s = add_slab_header_to_page pg h s;
     mm_upd (page_get pg) s
   }"

definition get_slab_from_page :: "int \<Rightarrow> int \<Rightarrow> (u32, sstate) kop" where
  "get_slab_from_page pg sz =
     kthen get_new_slab_header (\<lambda>h.
       if h = NULL then kret NULL
       else kthen (kmod (carve_slab pg sz h)) (\<lambda>_. kret h))"

definition update_slab_free_page :: "int \<Rightarrow> (unit, sstate) kop" where
  "update_slab_free_page pg s = do {
     p \<leftarrow> page_read pg (sm s);
     (new, old) \<leftarrow> (case slab_page_current s of
        None \<Rightarrow> Some (pg, None)
      | Some c \<Rightarrow> do {
          q \<leftarrow> page_read c (sm s);
          Some (if pg_free_size p > pg_free_size q then (pg, Some c) else (c, Some pg))
        });
     let s = s\<lparr>slab_page_current := Some new\<rparr>;
     case old of
       None \<Rightarrow> Some (Some (), s)
     | Some c \<Rightarrow> do {
         q \<leftarrow> page_read c (sm s);
         if pg_free_size q > 16
         then kthen (get_slab_from_page c (uint (pg_free_size q))) (\<lambda>h. kmod (add_slab_header_to_list h)) s
         else Some (Some (), s)
       }
   }"

section \<open>Release of a slice\<close>

definition kfree_header_slab :: "int \<Rightarrow> u32 \<Rightarrow> (unit, sstate) kop" where
  "kfree_header_slab pg addr s = do {
     _ \<leftarrow> headers s addr;
     let s = sl (list_del (N_header addr)) s;
     let s = sl (list_add N_free_header (N_header addr)) s;
     mm_op (page_put pg) s
   }"

partial_function (option) find_slice :: "node \<Rightarrow> node \<Rightarrow> u32 \<Rightarrow> sstate \<Rightarrow> u32 option option" where
  "find_slice head l addr s =
     (if l = head then Some None
      else do {
        h \<leftarrow> header_entry l;
        x \<leftarrow> headers s h;
        if sh_base x = addr then Some (Some h) else find_slice head (lnext (sheap s) l) addr s
      })"

definition kfree_slice_slab :: "int \<Rightarrow> u32 \<Rightarrow> (unit, sstate) kop" where
  "kfree_slice_slab pg addr s = do {
     let head = N_page (word_of_int pg);
     _ \<leftarrow> page_read pg (sm s);
     r \<leftarrow> find_slice head (lnext (sheap s) head) addr s;
     case r of
       Some h \<Rightarrow> do {
         s \<leftarrow> add_slab_header_to_list h (sl (list_del (N_header h)) s);
         mm_op (page_put pg) s
       }
     | None \<Rightarrow> Some (Some (), s)
   }"

section \<open>Allocation\<close>

partial_function (option) get_slab_in_list :: "int \<Rightarrow> u32 \<Rightarrow> sstate \<Rightarrow> (u32 option \<times> sstate) option" where
  "get_slab_in_list sz flag s =
     (if flag AND GFP_KERNEL = 0 then Some (Some NULL, s)
      else if \<not> (0 \<le> list_id sz \<and> list_id sz < SLAB_NODE) then None
      else if is_list_empty (N_slab (list_id sz)) (sheap s) then Some (Some NULL, s)
      else do {
        h \<leftarrow> header_entry (lnext (sheap s) (N_slab (list_id sz)));
        x \<leftarrow> headers s h;
        b \<leftarrow> page_state (va_to_page_id (sh_base x) (sm s)) (sm s);
        if b = 0 then do {
          (r, s) \<leftarrow> kfree_header_slab (va_to_page (sh_base x) (sm s)) (sh_base x) s;
          if r = None then Some (None, s) else get_slab_in_list sz flag s
        }
        else do {
          let pg = va_to_page (sh_base x) (sm s);
          let s = header_list_switch h pg (N_slab (list_id sz)) False s;
          Some (Some (sh_base x), s)
        }
      })"

definition get_slab_from_page_free :: "int \<Rightarrow> u32 \<Rightarrow> (u32, sstate) kop" where
  "get_slab_from_page_free sz flag s =
     (case slab_page_current s of
        None \<Rightarrow> Some (Some NULL, s)
      | Some pg \<Rightarrow> do {
          b \<leftarrow> page_state (page_to_page_id pg) (sm s);
          if b = 0 then Some (Some NULL, s\<lparr>slab_page_current := None\<rparr>)
          else do {
            p \<leftarrow> page_read pg (sm s);
            if sz > uint (pg_free_size p) then Some (Some NULL, s)
            else kthen get_new_slab_header (\<lambda>h.
              if h = NULL then kret NULL
              else kthen (kmod (carve_slab pg sz h)) (\<lambda>_.
                kthen (kread (\<lambda>s. headers s h)) (\<lambda>x. kret (sh_base x)))) s
          }
        })"

definition get_kernel_slab :: "int \<Rightarrow> u32 \<Rightarrow> (u32, sstate) kop" where
  "get_kernel_slab sz flag =
     (let count = uint (page_nr (word_of_int sz)) in
      if is_aligin (word_of_int sz) PAGE_SIZE then mm_op (get_free_pages count flag)
      else let leave_size = sz - (count - 1) * 4096 in
        kthen (mm_op (get_free_pages count flag)) (\<lambda>base.
          if base = NULL then kret NULL
          else let endp = base + word_of_int (count - 1) * PAGE_SIZE in
            kthen (kmod (\<lambda>s. if count > 1
                then page_upd (va_to_page base (sm s)) (\<lambda>p. p\<lparr>pg_count := pg_count p - 1, pg_free_base := word_of_int leave_size\<rparr>) s
                else Some s)) (\<lambda>_.
            kthen (kmod (\<lambda>s. page_upd (va_to_page endp (sm s)) (\<lambda>p. p\<lparr>pg_flag := pg_flag p OR GFP_SLAB_FLAG,
                pg_usage := pg_usage p - 1\<rparr>) s)) (\<lambda>_.
            kthen (\<lambda>s. get_slab_from_page (va_to_page endp (sm s)) leave_size s) (\<lambda>_.
            kthen (\<lambda>s. update_slab_free_page (va_to_page endp (sm s)) s) (\<lambda>_.
            kret base))))))"

definition get_new_slab :: "int \<Rightarrow> u32 \<Rightarrow> (u32, sstate) kop" where
  "get_new_slab sz flag =
     (if flag = GFP_DMA \<or> flag = GFP_RES then mm_op (get_free_pages (uint (page_nr (word_of_int sz))) flag)
      else get_kernel_slab sz flag)"

definition slab_lock :: "(unit, sstate) kop" where
  "slab_lock s = do {
     (r, k) \<leftarrow> mutex_lock SlabMutex (ks (sm s));
     let s = s\<lparr>sm := (sm s)\<lparr>ks := k\<rparr>\<rparr>;
     case r of Lock_suspended \<Rightarrow> Some (None, s) | Lock_return _ \<Rightarrow> Some (Some (), s)
   }"

definition slab_unlock :: "(unit, sstate) kop" where
  "slab_unlock = kmod (mm_upd (\<lambda>m. do { k \<leftarrow> mutex_unlock SlabMutex (ks m); Some (m\<lparr>ks := k\<rparr>) }))"

text \<open>The body of \<^verbatim>\<open>__kmalloc\<close> under the lock.\<close>

definition kmalloc_locked :: "int \<Rightarrow> int \<Rightarrow> u32 \<Rightarrow> (u32, sstate) kop" where
  "kmalloc_locked sz new_size flag =
     (if flag = GFP_DMA \<or> flag = GFP_RES \<or> sz \<ge> 4096 then get_new_slab new_size flag
      else kthen (get_slab_in_list new_size flag) (\<lambda>r.
        if r \<noteq> NULL then kret r
        else kthen (get_slab_from_page_free new_size flag) (\<lambda>r.
          if r \<noteq> NULL then kret r else get_new_slab new_size flag)))"

definition kmalloc_size :: "int \<Rightarrow> u32 \<Rightarrow> (u32, sstate) kop" where
  "kmalloc_size sz flag =
     (let new_size = get_new_alloc_size sz flag in
      kthen slab_lock (\<lambda>_.
      kthen (kmalloc_locked sz new_size flag) (\<lambda>r.
      kthen slab_unlock (\<lambda>_. kret r))))"

definition kmalloc :: "int \<Rightarrow> u32 \<Rightarrow> (u32, sstate) kop" where
  "kmalloc sz flag =
     (if sz \<le> 0 then kret NULL
      else if flag \<noteq> GFP_KERNEL \<and> flag \<noteq> GFP_DMA \<and> flag \<noteq> GFP_RES then kret NULL
      else kmalloc_size sz flag)"

text \<open>\<^verbatim>\<open>kzalloc\<close> clears the memory it got, at address 0 when it got none.\<close>

definition kzalloc :: "int \<Rightarrow> u32 \<Rightarrow> (u32, sstate \<times> mem) kop" where
  "kzalloc sz flag = (\<lambda>(s, m). do {
     (r, s) \<leftarrow> kmalloc sz flag s;
     case r of
       None \<Rightarrow> Some (None, (s, m))
     | Some a \<Rightarrow> do { m \<leftarrow> memset a 0 sz m; Some (Some a, (s, m)) }
   })"

section \<open>Release\<close>

text \<open>
  \<^verbatim>\<open>free_pages(pg)\<close> is called with the address of the \<^verbatim>\<open>struct page\<close> and not of its memory;
  \<open>page_addr\<close> is that address.
\<close>

definition kfree_page_slab :: "u32 \<Rightarrow> int \<Rightarrow> u32 \<Rightarrow> (unit, sstate) kop" where
  "kfree_page_slab page_addr pg addr s = do {
     p \<leftarrow> page_read pg (sm s);
     let last_page = pg + uint (pg_count p);
     kthen (mm_op (free_pages page_addr)) (\<lambda>_ s.
       kfree_slice_slab last_page (page_to_va last_page (sm s)) s) s
   }"

text \<open>\<open>page_base\<close> is the address of the page array.\<close>

definition kfree_kernel_mem :: "u32 \<Rightarrow> u32 \<Rightarrow> (unit, sstate) kop" where
  "kfree_kernel_mem page_base addr =
     kthen slab_lock (\<lambda>_ s. do {
       let pg = va_to_page addr (sm s);
       p \<leftarrow> page_read pg (sm s);
       if pg_flag p AND GFP_SLAB_FLAG \<noteq> 0 then kthen (kfree_slice_slab pg addr) (\<lambda>_. slab_unlock) s
       else if \<not> is_aligin addr PAGE_SIZE then Some (Some (), s)
       else kthen (kfree_page_slab (page_base + 24 * word_of_int pg) pg addr) (\<lambda>_. slab_unlock) s
     })"

definition kfree_user_mem :: "u32 \<Rightarrow> (unit, sstate) kop" where
  "kfree_user_mem addr = kret ()"

definition kfree :: "u32 \<Rightarrow> u32 \<Rightarrow> (unit, sstate) kop" where
  "kfree page_base addr =
     (if addr \<noteq> NULL then
        if addr < SIZE_1G then kfree_kernel_mem page_base addr else kfree_user_mem addr
      else kret ())"

definition slab_init :: "sstate \<Rightarrow> (int \<times> sstate) option" where
  "slab_init s = do {
     s \<leftarrow> for_loop 0 SLAB_NODE (\<lambda>i s. Some (sl (init_list (N_slab i)) s)) s;
     let s = s\<lparr>sm := on_ks (init_mutex SlabMutex) (sm s)\<rparr>;
     let s = s\<lparr>table_page_current := None\<rparr>;
     let s = sl (init_list N_table_list) s;
     let s = sl (init_list N_free_header) s;
     Some (0, s\<lparr>table_total_pages := 0, page_current := -1, header_in_page := -1\<rparr>)
   }"

end
