(* ===== verification/SlabProps.thy ===== *)
theory SlabProps
  imports Slab MmProps
begin

text \<open>
  Properties of the slab allocator: rounding of sizes, allocation from the current page, and the sizes
  and releases the code does not handle.
\<close>

section \<open>Rounding\<close>

lemma int_aligin_eq: "int_aligin n (2 ^ k) = (n + 2 ^ k - 1) div 2 ^ k * 2 ^ k"
proof -
  let ?x = "n + 2 ^ k - 1"
  have "(?x AND mask k) + (?x AND NOT (mask k)) = ?x"
    using plus_and_or [of "?x AND mask k" "?x AND NOT (mask k)"] by (simp add: bit.conj_disj_distrib [symmetric] and.assoc and.left_commute)
  moreover have "?x AND mask k = ?x mod 2 ^ k" by (simp add: take_bit_eq_mask [symmetric] take_bit_eq_mod)
  ultimately have "?x AND NOT (mask k) = ?x - ?x mod 2 ^ k" by simp
  also have "\<dots> = ?x div 2 ^ k * 2 ^ k" by (simp add: minus_mod_eq_div_mult)
  finally show ?thesis by (simp add: int_aligin_def mask_eq_exp_minus_1)
qed

lemma alloc_size_kernel: "get_new_alloc_size sz GFP_KERNEL = (sz + 15) div 16 * 16"
  using int_aligin_eq [of sz 4] by (simp add: get_new_alloc_size_def)

lemma alloc_size_bounds:
  assumes "0 < sz" "sz \<le> 4080" and n: "n = get_new_alloc_size sz GFP_KERNEL"
  shows "sz \<le> n" "n < sz + 16" "n mod 16 = 0" "16 \<le> n" "n \<le> 4080" "0 \<le> list_id n" "list_id n < SLAB_NODE"
proof -
  have "(sz + 15) mod 16 < 16" "(sz + 15) mod 16 \<ge> 0" by simp_all
  moreover have eq: "n = (sz + 15) - (sz + 15) mod 16" using n by (simp add: alloc_size_kernel minus_mod_eq_div_mult)
  ultimately show 1: "sz \<le> n" "n < sz + 16" by linarith+
  show m: "n mod 16 = 0" using n by (simp add: alloc_size_kernel)
  then obtain q where q: "n = 16 * q" by auto
  with 1 assms show "16 \<le> n" "n \<le> 4080" by presburger+
  then show "0 \<le> list_id n" "list_id n < SLAB_NODE" using q by (simp_all add: list_id_def)
qed

section \<open>Allocation from the current page\<close>

lemma sl_sel [simp]:
  "headers (sl f s) = headers s" "slab_page_current (sl f s) = slab_page_current s"
  "table_page_current (sl f s) = table_page_current s" "header_in_page (sl f s) = header_in_page s"
  "ks (sm (sl f s)) = on_lists f (ks (sm s))" "page_read i (sm (sl f s)) = page_read i (sm s)"
  "page_map (sm (sl f s)) = page_map (sm s)" "page_table (sm (sl f s)) = page_table (sm s)"
  "bank (sm (sl f s)) = bank (sm s)" "kernel_start (sm (sl f s)) = kernel_start (sm s)"
  by (simp_all add: sl_def on_ks_def page_read_def)

lemma foreign_slab [simp]: "foreign (N_header h)" "foreign (N_slab i)" "foreign N_free_header" "foreign N_table_list"
  by (simp_all add: foreign_def sched_heads_def)

text \<open>Changing a page record through \<open>page_upd\<close>, \<open>page_get\<close>.\<close>

definition spage :: "int \<Rightarrow> page \<Rightarrow> sstate \<Rightarrow> sstate" where
  "spage pg p s = s\<lparr>sm := (sm s)\<lparr>page_table := (page_table (sm s))[nat pg := p]\<rparr>\<rparr>"

lemma page_upd_eq: "page_read pg (sm s) = Some p \<Longrightarrow> page_upd pg f s = Some (spage pg (f p) s)"
  by (auto simp: page_upd_def mm_upd_def page_write_def page_read_def lget_Some spage_def)

lemma page_get_eq: "page_read pg (sm s) = Some p \<Longrightarrow> mm_upd (page_get pg) s = Some (spage pg (p\<lparr>pg_usage := pg_usage p + 1\<rparr>) s)"
  by (auto simp: mm_upd_def page_get_def page_write_def page_read_def lget_Some spage_def)

lemma spage_read [simp]:
  "page_read pg (sm s) = Some p \<Longrightarrow> page_read i (sm (spage pg q s)) = (if i = pg then Some q else page_read i (sm s))"
  by (auto simp: spage_def page_read_def lget_def nth_list_update)

lemma spage_sel [simp]:
  "headers (spage pg p s) = headers s" "slab_page_current (spage pg p s) = slab_page_current s"
  "table_page_current (spage pg p s) = table_page_current s" "header_in_page (spage pg p s) = header_in_page s"
  "ks (sm (spage pg p s)) = ks (sm s)" "page_map (sm (spage pg p s)) = page_map (sm s)"
  by (simp_all add: spage_def)

lemma sheap_ks: "sheap s = lists (ks (sm s))"
  by (simp add: sheap_def)

lemma header_from_page_eq:
  assumes "page_read hp (sm s) = Some q"
  shows "\<exists>q'. header_from_page hp s = Some (Some (pg_free_base q), spage hp q' s) \<and> pg_free_base q' = pg_free_base q + 16"
proof -
  let ?q = "q\<lparr>pg_free_base := pg_free_base q + 16, pg_free_size := pg_free_size q - 16\<rparr>"
  have "spage hp r (spage hp ?q s) = spage hp r s" for r by (simp add: spage_def)
  then have "header_from_page hp s = Some (Some (pg_free_base q), spage hp (?q\<lparr>pg_usage := pg_usage q + 1\<rparr>) s)"
    using assms page_upd_eq [OF assms] page_get_eq [of hp "spage hp ?q s" ?q]
    by (simp add: header_from_page_def get_slab_header_from_page_def)
  then show ?thesis by (intro exI [of _ "?q\<lparr>pg_usage := pg_usage q + 1\<rparr>"]) simp
qed

definition slab_ok :: "node lists \<Rightarrow> int \<Rightarrow> int \<Rightarrow> sstate \<Rightarrow> bool" where
  "slab_ok F pg hp s \<longleftrightarrow>
     kinv F (ks (sm s)) \<and> mutex_free SlabMutex F (ks (sm s)) \<and>
     F N_free_header = Some [] \<and>
     slab_page_current s = Some pg \<and> table_page_current s = Some hp \<and> pg \<noteq> hp \<and> 0 \<le> header_in_page s \<and>
     page_state pg (sm s) = Some 1 \<and>
     (\<exists>xs. F (N_page (word_of_int pg)) = Some xs \<and> (\<forall>n \<in> set xs. foreign n)) \<and>
     (\<exists>p. page_read pg (sm s) = Some p) \<and>
     (\<exists>q. page_read hp (sm s) = Some q \<and>
       (\<forall>j. 0 \<le> j \<longrightarrow> j < 256 - header_in_page s \<longrightarrow>
         fresh F (N_header (pg_free_base q + 16 * word_of_int j)) \<and> pg_free_base q + 16 * word_of_int j \<noteq> NULL))"

lemma slab_okE:
  assumes "slab_ok F pg hp s"
  obtains xs q where "kinv F (ks (sm s))" "mutex_free SlabMutex F (ks (sm s))" "F N_free_header = Some []"
    "slab_page_current s = Some pg" "table_page_current s = Some hp" "pg \<noteq> hp" "page_state pg (sm s) = Some 1"
    "F (N_page (word_of_int pg)) = Some xs" "\<And>n. n \<in> set xs \<Longrightarrow> foreign n" "page_read hp (sm s) = Some q"
    "0 \<le> header_in_page s"
    "\<And>j. 0 \<le> j \<Longrightarrow> j < 256 - header_in_page s \<Longrightarrow>
      fresh F (N_header (pg_free_base q + 16 * word_of_int j)) \<and> pg_free_base q + 16 * word_of_int j \<noteq> NULL"
  using assms unfolding slab_ok_def by blast

lemma lock_section:
  assumes k: "kinv F k" and free: "mutex_free m F k"
  obtains k1 xs where "F (N_mutex_get (current k)) = Some xs" "mutex_lock m k = Some (Lock_return 0, k1)"
    "kinv (F(N_mutex_get (current k) \<mapsto> xs @ [M_task m])) k1" "mutex_frame k k1" "task k1 = task k"
    "\<And>G k2. kinv (G(N_mutex_get (current k) \<mapsto> xs @ [M_task m])) k2 \<Longrightarrow> G (N_mutex_get (current k)) = Some xs \<Longrightarrow>
      G (M_wait m) = Some [] \<Longrightarrow> mutex_count k2 = mutex_count k1 \<Longrightarrow>
      \<exists>k3. mutex_unlock m k2 = Some k3 \<and> kinv G k3 \<and> mutex_count k3 = mutex_count k \<and> mutex_frame k2 k3 \<and> task k3 = task k2"
proof -
  let ?r = "N_mutex_get (current k)"
  obtain xs where xs: "F ?r = Some xs" "\<And>n. n \<in> set xs \<Longrightarrow> foreign n"
    and c: "mutex_count k m = 0" "fresh F (M_task m)"
    using free by (auto simp: mutex_free_def)
  obtain k1 where k1: "mutex_lock_timeout m (-1) k = Some (Lock_return 0, k1)"
    "kinv (F(?r \<mapsto> xs @ [M_task m])) k1" "mutex_count k1 = (mutex_count k)(m := 1)" "mutex_frame k k1" "task k1 = task k"
    using mutex_lock_free [OF k c(1) xs(1) c(2) xs(2)] by blast
  have nt: "M_task m \<notin> set xs" using c(2) xs(1) by (auto simp: fresh_def)
  show thesis
  proof (rule that [OF xs(1) _ k1(2,4,5)])
    show "mutex_lock m k = Some (Lock_return 0, k1)" using k1(1) by (simp add: mutex_lock_def)
    fix G k2
    assume g: "kinv (G(?r \<mapsto> xs @ [M_task m])) k2" "G ?r = Some xs" "G (M_wait m) = Some []" "mutex_count k2 = mutex_count k1"
    have "(G(?r \<mapsto> xs @ [M_task m]))(M_wait m \<mapsto> [], ?r \<mapsto> remove1 (M_task m) (xs @ [M_task m])) = G"
      using g(2,3) nt by (auto simp: fun_eq_iff remove1_append)
    moreover have "(mutex_count k2)(m := 0) = mutex_count k" using g(4) k1(3) c(1) by (auto simp: fun_eq_iff)
    moreover have "foreign n" if "n \<in> set (xs @ [M_task m])" for n using that xs(2) by auto
    moreover have "dlist (lists k2) (M_wait m) []" by (rule list_rel_dlist [OF kinv_rel [OF g(1)]]) (simp add: g(3))
    then have "lnext (lists k2) (M_wait m) = M_wait m" by (simp add: dlist_def)
    note mutex_unlock_no_waiters [OF this]
    ultimately show "\<exists>k3. mutex_unlock m k2 = Some k3 \<and> kinv G k3 \<and> mutex_count k3 = mutex_count k \<and> mutex_frame k2 k3 \<and> task k3 = task k2"
      using mutex_unlock_spec [OF g(1), of m "[]" "current k" "xs @ [M_task m]"] g(3,4) k1(3) by auto
  qed
qed

definition mm_same :: "mstate \<Rightarrow> mstate \<Rightarrow> bool" where
  "mm_same m m' \<longleftrightarrow> bank m' = bank m \<and> page_map m' = page_map m \<and> kernel_start m' = kernel_start m \<and>
     length (page_table m') = length (page_table m)"

lemma carve_slab_spec:
  assumes k: "kinv F (ks (sm s))" and pg: "page_read pg (sm s) = Some p" and h: "h \<noteq> NULL" "fresh F (N_header h)"
    and xs: "F (N_page (word_of_int pg)) = Some xs" "\<And>n. n \<in> set xs \<Longrightarrow> foreign n"
  shows "\<exists>s' p'. carve_slab pg sz h s = Some s' \<and> kinv (F(N_page (word_of_int pg) \<mapsto> N_header h # xs)) (ks (sm s')) \<and>
    ks_lists (ks (sm s)) (ks (sm s')) \<and>
    headers s' = (headers s)(h \<mapsto> \<lparr>sh_base = pg_free_base p, sh_size = sz\<rparr>) \<and>
    pg_free_base p' = pg_free_base p + word_of_int sz \<and> pg_free_size p' = pg_free_size p - word_of_int sz \<and>
    (\<forall>i. page_read i (sm s') = (if i = pg then Some p' else page_read i (sm s))) \<and>
    page_map (sm s') = page_map (sm s) \<and> mm_same (sm s) (sm s') \<and> slab_page_current s' = slab_page_current s \<and>
    table_page_current s' = table_page_current s \<and> header_in_page s' = header_in_page s"
proof -
  let ?n = "N_page (word_of_int pg)"
  let ?s1 = "sl (init_list (N_header h)) (s\<lparr>headers := (headers s)(h \<mapsto> \<lparr>sh_base = pg_free_base p, sh_size = sz\<rparr>)\<rparr>)"
  let ?p1 = "p\<lparr>pg_free_size := pg_free_size p - word_of_int sz, pg_free_base := pg_free_base p + word_of_int sz\<rparr>"
  let ?s2 = "add_slab_header_to_page pg h (spage pg ?p1 ?s1)"
  let ?p2 = "?p1\<lparr>pg_usage := pg_usage p + 1\<rparr>"
  have r1: "page_read pg (sm ?s1) = Some p" using pg by (simp add: sl_def on_ks_def page_read_def)
  have r2: "page_read i (sm ?s2) = (if i = pg then Some ?p1 else page_read i (sm s))" for i
    using r1 by (simp add: add_slab_header_to_page_def)
  have eq: "carve_slab pg sz h s = Some (spage pg ?p2 ?s2)"
    using pg h(1) page_upd_eq [OF r1] page_get_eq [of pg ?s2 ?p1] r2
    by (simp add: carve_slab_def init_slab_header_def)
  let ?g = "\<lambda>l. list_add ?n (N_header h) (init_list (N_header h) l)"
  have ks: "ks (sm (spage pg ?p2 ?s2)) = on_lists ?g (ks (sm s))"
    by (simp add: add_slab_header_to_page_def on_lists_def)
  have "list_rel (?g (lists (ks (sm s)))) (F(?n \<mapsto> N_header h # xs))"
    by (rule os_list.rel_add [OF list_rel_unused [OF kinv_rel [OF k] h(2)] xs(1) h(2)])
  then have "kinv (F(?n \<mapsto> N_header h # xs)) (ks (sm (spage pg ?p2 ?s2)))"
    unfolding ks using xs(2) by (intro kinv_foreign [OF k]) auto
  moreover have "ks_lists (ks (sm s)) (ks (sm (spage pg ?p2 ?s2)))" unfolding ks by (rule ks_lists_on) (simp add: ks_lists_def)
  moreover have "page_read i (sm (spage pg ?p2 ?s2)) = (if i = pg then Some ?p2 else page_read i (sm s))" for i
    using spage_read [of pg ?s2 ?p1 i ?p2] r2 by simp
  ultimately show ?thesis
    using eq by (intro exI [of _ "spage pg ?p2 ?s2"] exI [of _ ?p2])
      (simp add: add_slab_header_to_page_def mm_same_def spage_def)
qed

text \<open>
  What \<^verbatim>\<open>kmalloc\<close> does when the size has no cached memory and the current page has room: the address
  after the last allocation of the page, whose free part shrinks by the rounded size.
\<close>

lemma page_state_cong: "page_map m' = page_map m \<Longrightarrow> page_state i m' = page_state i m"
  by (simp add: page_state_def)

lemma kmalloc_from_page:
  assumes ok: "slab_ok F pg hp s" and sz: "0 < sz" "sz \<le> 4080" "n = get_new_alloc_size sz GFP_KERNEL"
    and p: "page_read pg (sm s) = Some p" "n \<le> uint (pg_free_size p)" "pg_free_base p \<noteq> NULL"
    and room: "header_in_page s < 256" and empty: "F (N_slab (list_id n)) = Some []"
  shows "\<exists>s' p' h xs. kmalloc sz GFP_KERNEL s = Some (Some (pg_free_base p), s') \<and>
    F (N_page (word_of_int pg)) = Some xs \<and> fresh F (N_header h) \<and>
    slab_ok (F(N_page (word_of_int pg) \<mapsto> N_header h # xs)) pg hp s' \<and>
    mm_same (sm s) (sm s') \<and> ks_quiet (ks (sm s)) (ks (sm s')) \<and> (\<forall>i. i \<noteq> pg \<longrightarrow> i \<noteq> hp \<longrightarrow> page_read i (sm s') = page_read i (sm s)) \<and>
    page_read pg (sm s') = Some p' \<and> pg_free_base p' = pg_free_base p + word_of_int n \<and>
    pg_free_size p' = pg_free_size p - word_of_int n \<and>
    headers s' h = Some \<lparr>sh_base = pg_free_base p, sh_size = n\<rparr> \<and>
    header_in_page s' = header_in_page s + 1"
proof -
  note b = alloc_size_bounds [OF sz]
  let ?k = "ks (sm s)" and ?n = "N_page (word_of_int pg)"
  obtain xs q where o: "kinv F ?k" "mutex_free SlabMutex F ?k" "F N_free_header = Some []" "slab_page_current s = Some pg"
    "table_page_current s = Some hp" "pg \<noteq> hp" "page_state pg (sm s) = Some 1" "F ?n = Some xs" "\<And>n. n \<in> set xs \<Longrightarrow> foreign n"
    "page_read hp (sm s) = Some q" "0 \<le> header_in_page s"
    and hs: "\<And>j. 0 \<le> j \<Longrightarrow> j < 256 - header_in_page s \<Longrightarrow>
      fresh F (N_header (pg_free_base q + 16 * word_of_int j)) \<and> pg_free_base q + 16 * word_of_int j \<noteq> NULL"
    by (rule slab_okE [OF ok]) blast
  let ?h = "pg_free_base q"
  have h: "fresh F (N_header ?h)" "?h \<noteq> NULL" using hs [of 0] room by auto
  obtain k1 ys where lk: "F (N_mutex_get (current ?k)) = Some ys" "mutex_lock SlabMutex ?k = Some (Lock_return 0, k1)"
    "kinv (F(N_mutex_get (current ?k) \<mapsto> ys @ [M_task SlabMutex])) k1" "mutex_frame ?k k1" "task k1 = task ?k"
    and un: "\<And>G k2. kinv (G(N_mutex_get (current ?k) \<mapsto> ys @ [M_task SlabMutex])) k2 \<Longrightarrow> G (N_mutex_get (current ?k)) = Some ys \<Longrightarrow>
      G (M_wait SlabMutex) = Some [] \<Longrightarrow> mutex_count k2 = mutex_count k1 \<Longrightarrow>
      \<exists>k3. mutex_unlock SlabMutex k2 = Some k3 \<and> kinv G k3 \<and> mutex_count k3 = mutex_count ?k \<and> mutex_frame k2 k3 \<and> task k3 = task k2"
    by (rule lock_section [OF o(1,2)]) blast
  let ?F1 = "F(N_mutex_get (current ?k) \<mapsto> ys @ [M_task SlabMutex])"
  let ?s1 = "s\<lparr>sm := (sm s)\<lparr>ks := k1\<rparr>\<rparr>"
  have lock: "slab_lock s = Some (Some (), ?s1)" using lk(2) by (simp add: slab_lock_def)
  have rel: "list_rel (lists k1) ?F1" by (rule kinv_rel [OF lk(3)])
  have none: "get_slab_in_list n GFP_KERNEL ?s1 = Some (Some NULL, ?s1)"
    using os_list.rel_empty [OF rel, of "N_slab (list_id n)" "[]"] empty b
    by (subst get_slab_in_list.simps) (simp add: sheap_def)
  have hip: "uint (word_of_int (header_in_page s) :: u32) = header_in_page s"
    using o(11) room by (simp add: uint_word_of_int)
  let ?s2 = "?s1\<lparr>header_in_page := header_in_page s + 1\<rparr>"
  obtain q' where q': "header_from_page hp ?s2 = Some (Some ?h, spage hp q' ?s2)" "pg_free_base q' = ?h + 16"
    using header_from_page_eq [of hp ?s2 q] o(10) by (auto simp: page_read_def)
  have new: "get_new_slab_header ?s1 = Some (Some ?h, spage hp q' ?s2)"
    using os_list.rel_empty [OF rel, of N_free_header "[]"] o(3,5) room q'(1)
    by (simp add: get_new_slab_header_def sheap_def hip)
  have rd: "page_read i (sm (spage hp q' ?s2)) = (if i = hp then Some q' else page_read i (sm s))" for i
    using spage_read [of hp ?s2 q i q'] o(10) by (simp add: page_read_def)
  have f1: "fresh ?F1 (N_header ?h)" using h(1) lk(1) by (auto simp: fresh_def)
  obtain s3 p' where s3: "carve_slab pg n ?h (spage hp q' ?s2) = Some s3"
    "kinv (?F1(?n \<mapsto> N_header ?h # xs)) (ks (sm s3))" "ks_lists k1 (ks (sm s3))"
    "headers s3 = (headers s)(?h \<mapsto> \<lparr>sh_base = pg_free_base p, sh_size = n\<rparr>)"
    "pg_free_base p' = pg_free_base p + word_of_int n" "pg_free_size p' = pg_free_size p - word_of_int n"
    "\<And>i. page_read i (sm s3) = (if i = pg then Some p' else if i = hp then Some q' else page_read i (sm s))"
    "page_map (sm s3) = page_map (sm s)" "slab_page_current s3 = Some pg" "table_page_current s3 = Some hp"
    "header_in_page s3 = header_in_page s + 1" "mm_same (sm s) (sm s3)"
    using carve_slab_spec [of ?F1 "spage hp q' ?s2" pg p ?h xs n] lk(3) rd o p(1) h(2) f1 by (auto simp: mm_same_def spage_def)
  have ps: "page_state pg (sm ?s1) = Some 1" "page_read pg (sm ?s1) = Some p"
    using o(7) p(1) by (simp_all add: page_state_def page_read_def)
  have free: "get_slab_from_page_free n GFP_KERNEL ?s1 = Some (Some (pg_free_base p), s3)"
    using o(4) ps p(2) new h(2) s3(1,4) by (simp add: get_slab_from_page_free_def page_to_page_id_def)
  have body: "kmalloc_locked sz n GFP_KERNEL ?s1 = Some (Some (pg_free_base p), s3)"
    using sz(2) none free p(3) by (simp add: kmalloc_locked_def)
  let ?G = "F(?n \<mapsto> N_header ?h # xs)"
  have "?G(N_mutex_get (current ?k) \<mapsto> ys @ [M_task SlabMutex]) = ?F1(?n \<mapsto> N_header ?h # xs)" by auto
  then obtain k3 where k3: "mutex_unlock SlabMutex (ks (sm s3)) = Some k3" "kinv ?G k3" "mutex_count k3 = mutex_count ?k"
    "mutex_frame (ks (sm s3)) k3" "task k3 = task (ks (sm s3))"
    using un [of ?G "ks (sm s3)"] s3(2) lk(1) o(2) ks_lists_sel(1) [OF s3(3)] by (auto simp: mutex_free_def)
  let ?s4 = "s3\<lparr>sm := (sm s3)\<lparr>ks := k3\<rparr>\<rparr>"
  have "slab_unlock s3 = Some (Some (), ?s4)" using k3(1) by (simp add: slab_unlock_def mm_upd_def)
  then have res: "kmalloc sz GFP_KERNEL s = Some (Some (pg_free_base p), ?s4)"
    using sz lock body by (simp add: kmalloc_def kmalloc_size_def)
  have cur: "current k3 = current ?k"
    using mutex_frame_sel(1) [OF k3(4)] mutex_frame_sel(1) [OF lk(4)] ks_lists_sel(2) [OF s3(3)] by simp
  have mf: "mutex_free SlabMutex ?G k3"
    using o(2,8) k3(3) cur by (auto simp: mutex_free_def fresh_def split: if_splits)
  have fresh': "fresh ?G (N_header (pg_free_base q' + 16 * word_of_int j)) \<and> pg_free_base q' + 16 * word_of_int j \<noteq> NULL"
    if "0 \<le> j" "j < 256 - (header_in_page s + 1)" for j
  proof -
    have eq: "pg_free_base q' + 16 * word_of_int j = ?h + 16 * word_of_int (j + 1)" by (simp add: q'(2) algebra_simps)
    have "(16 * word_of_int (j + 1) :: u32) \<noteq> 0"
    proof -
      have "(16 * word_of_int (j + 1) :: u32) = word_of_int (16 * (j + 1))" by (simp add: algebra_simps)
      moreover have "uint (word_of_int (16 * (j + 1)) :: u32) = 16 * (j + 1)"
        using that o(11) unfolding uint_word_of_int by simp
      ultimately show ?thesis using that(1) by (metis add_nonneg_pos less_irrefl mult_pos_pos uint_0_eq zero_less_numeral zero_less_one)
    qed
    then have ne: "N_header (pg_free_base q' + 16 * word_of_int j) \<noteq> N_header ?h" unfolding eq by simp
    have old: "fresh F (N_header (pg_free_base q' + 16 * word_of_int j))" "pg_free_base q' + 16 * word_of_int j \<noteq> NULL"
      using hs [of "j + 1"] that unfolding eq by simp_all
    show ?thesis using old ne o(8) by (simp add: fresh_def)
  qed
  have "slab_ok ?G pg hp ?s4"
    unfolding slab_ok_def
  proof (intro conjI)
    show "\<exists>xs. ?G ?n = Some xs \<and> (\<forall>n \<in> set xs. foreign n)" using o(9) by simp
    show "\<exists>q. page_read hp (sm ?s4) = Some q \<and> (\<forall>j. 0 \<le> j \<longrightarrow> j < 256 - header_in_page ?s4 \<longrightarrow>
         fresh ?G (N_header (pg_free_base q + 16 * word_of_int j)) \<and> pg_free_base q + 16 * word_of_int j \<noteq> NULL)"
      using s3(7) [of hp] o(6) s3(11) fresh' by (intro exI [of _ q']) (simp add: page_read_def)
    show "page_state pg (sm ?s4) = Some 1" using o(7) s3(8) by (simp add: page_state_def)
    show "\<exists>p. page_read pg (sm ?s4) = Some p" using s3(7) [of pg] by (simp add: page_read_def)
  qed (use k3(2) mf o s3 in simp_all)
  moreover have "page_read pg (sm ?s4) = Some p'" using s3(7) [of pg] by (simp add: page_read_def)
  moreover have "headers ?s4 ?h = Some \<lparr>sh_base = pg_free_base p, sh_size = n\<rparr>" using s3(4) by simp
  moreover have "header_in_page ?s4 = header_in_page s + 1" using s3(11) by simp
  moreover have "mm_same (sm s) (sm ?s4)" using s3(12) by (simp add: mm_same_def)
  moreover have "ks_quiet ?k k3"
    using lk(4,5) s3(3) k3(3,4,5) by (cases ?k; cases k1; cases k3; cases "ks (sm s3)") (simp add: ks_quiet_def mutex_frame_def ks_lists_def)
  moreover have "page_read i (sm ?s4) = page_read i (sm s)" if "i \<noteq> pg" "i \<noteq> hp" for i
    using s3(7) [of i] that by (simp add: page_read_def)
  ultimately show ?thesis using res s3(5,6) o(8) h(1)
    by (intro exI [of _ ?s4] exI [of _ p'] exI [of _ ?h] exI [of _ xs]) simp
qed

section \<open>Sequences of allocations\<close>

text \<open>Callers that allocate one after the other, and the addresses they get.\<close>

fun kmallocs :: "int list \<Rightarrow> sstate \<Rightarrow> (u32 list \<times> sstate) option" where
  "kmallocs [] s = Some ([], s)"
| "kmallocs (n # ns) s = do {
     (r, s) \<leftarrow> kmalloc n GFP_KERNEL s;
     a \<leftarrow> r;
     (as, s) \<leftarrow> kmallocs ns s;
     Some (a # as, s)
   }"

fun slab_addrs :: "u32 \<Rightarrow> int list \<Rightarrow> u32 list" where
  "slab_addrs b [] = []"
| "slab_addrs b (n # ns) = b # slab_addrs (b + word_of_int (get_new_alloc_size n GFP_KERNEL)) ns"

definition slab_total :: "int list \<Rightarrow> int" where
  "slab_total ns = (\<Sum>n\<leftarrow>ns. get_new_alloc_size n GFP_KERNEL)"

lemma slab_total_simps [simp]:
  "slab_total [] = 0" "slab_total (n # ns) = get_new_alloc_size n GFP_KERNEL + slab_total ns"
  by (simp_all add: slab_total_def)

definition slab_sizes :: "int list \<Rightarrow> bool" where
  "slab_sizes ns \<longleftrightarrow> (\<forall>n \<in> set ns. 0 < n \<and> n \<le> 4080)"

lemma slab_sizes_simps [simp]: "slab_sizes []" "slab_sizes (n # ns) \<longleftrightarrow> 0 < n \<and> n \<le> 4080 \<and> slab_sizes ns"
  by (auto simp: slab_sizes_def)

lemma slab_total_ge: "slab_sizes ns \<Longrightarrow> 0 \<le> slab_total ns"
proof (induction ns)
  case (Cons n ns)
  then show ?case using alloc_size_bounds(4) [of n] by simp
qed simp

lemma alloc_size_uint:
  assumes "0 < n" "n \<le> 4080"
  shows "uint (word_of_int (get_new_alloc_size n GFP_KERNEL) :: u32) = get_new_alloc_size n GFP_KERNEL"
    "uint (word_of_int (get_new_alloc_size n GFP_KERNEL) :: u16) = get_new_alloc_size n GFP_KERNEL"
  using alloc_size_bounds(4,5) [OF assms refl] by (simp_all add: uint_word_of_int)

lemma uint_add_u32: "uint a + uint b < 2 ^ 32 \<Longrightarrow> uint (a + b) = uint a + uint (b :: u32)"
  by (simp add: uint_word_ariths)

lemma kmallocs_spec:
  assumes "slab_ok F pg hp s" "slab_sizes ns" "\<And>n. n \<in> set ns \<Longrightarrow> F (N_slab (list_id (get_new_alloc_size n GFP_KERNEL))) = Some []"
    "page_read pg (sm s) = Some p" "pg_free_base p \<noteq> NULL" "slab_total ns \<le> uint (pg_free_size p)"
    "uint (pg_free_base p) + uint (pg_free_size p) < 2 ^ 32" "header_in_page s + int (length ns) \<le> 256"
  shows "\<exists>s'. kmallocs ns s = Some (slab_addrs (pg_free_base p) ns, s')"
  using assms
proof (induction ns arbitrary: F s p)
  case (Cons n ns)
  let ?n = "get_new_alloc_size n GFP_KERNEL"
  have n: "0 < n" "n \<le> 4080" and ns: "slab_sizes ns" using Cons.prems(2) by simp_all
  note b = alloc_size_bounds [OF n refl] and u = alloc_size_uint [OF n]
  have fit: "?n \<le> uint (pg_free_size p)" using Cons.prems(6) slab_total_ge [OF ns] by simp
  obtain s1 F1 p1 where s1: "kmalloc n GFP_KERNEL s = Some (Some (pg_free_base p), s1)" "slab_ok F1 pg hp s1"
    "page_read pg (sm s1) = Some p1" "pg_free_base p1 = pg_free_base p + word_of_int ?n"
    "pg_free_size p1 = pg_free_size p - word_of_int ?n" "header_in_page s1 = header_in_page s + 1"
    "\<And>i. F1 (N_slab i) = F (N_slab i)"
    using kmalloc_from_page [OF Cons.prems(1) n refl Cons.prems(4) fit Cons.prems(5)] Cons.prems(3,8) by force
  have sz: "uint (pg_free_size p1) = uint (pg_free_size p) - ?n"
    using fit u uint_sub_lem [of "word_of_int ?n" "pg_free_size p"] unfolding s1(5) by metis
  have ba: "uint (pg_free_base p1) = uint (pg_free_base p) + ?n"
    using uint_add_u32 [of "pg_free_base p" "word_of_int ?n"] fit u Cons.prems(7) unfolding s1(4) by simp
  then have "pg_free_base p1 \<noteq> NULL" using b(4) by (metis add_nonneg_pos less_irrefl uint_0_eq uint_ge_0 zero_less_numeral order_less_le_trans)
  then obtain s' where "kmallocs ns s1 = Some (slab_addrs (pg_free_base p1) ns, s')"
    using Cons.IH [OF s1(2) ns _ s1(3)] Cons.prems(3,6,7,8) s1(6,7) sz ba by auto
  then show ?case using s1(1,4) by simp
qed simp

lemma slab_total_append [simp]: "slab_total (xs @ ys) = slab_total xs + slab_total ys"
  by (simp add: slab_total_def)

lemma slab_total_take:
  assumes "slab_sizes ns" "i \<le> j"
  shows "slab_total (take i ns) \<le> slab_total (take j ns)"
proof -
  have "take j ns = take i ns @ take (j - i) (drop i ns)" using assms(2) by (metis le_add_diff_inverse take_add)
  moreover have "slab_sizes (take (j - i) (drop i ns))"
    using assms(1) by (auto simp: slab_sizes_def dest: in_set_takeD in_set_dropD)
  ultimately show ?thesis using slab_total_ge by simp
qed

lemma slab_total_step:
  assumes "slab_sizes ns" "i < length ns" "i < j"
  shows "slab_total (take i ns) + ns ! i \<le> slab_total (take j ns)"
proof -
  have "0 < ns ! i" "ns ! i \<le> 4080" using assms(1,2) by (simp_all add: slab_sizes_def)
  then have "ns ! i \<le> get_new_alloc_size (ns ! i) GFP_KERNEL" using alloc_size_bounds(1) by blast
  moreover have "slab_total (take (Suc i) ns) = slab_total (take i ns) + get_new_alloc_size (ns ! i) GFP_KERNEL"
    using assms(2) by (simp add: take_Suc_conv_app_nth)
  ultimately show ?thesis using slab_total_take [OF assms(1), of "Suc i" j] assms(3) by simp
qed

lemma slab_addrs_nth:
  assumes "slab_sizes ns" "uint b + slab_total ns < 2 ^ 32" "i < length ns"
  shows "uint (slab_addrs b ns ! i) = uint b + slab_total (take i ns)"
  using assms
proof (induction ns arbitrary: b i)
  case (Cons n ns)
  have n: "0 < n" "n \<le> 4080" and ns: "slab_sizes ns" using Cons.prems(1) by simp_all
  let ?w = "word_of_int (get_new_alloc_size n GFP_KERNEL) :: u32"
  have "uint (b + ?w) = uint b + get_new_alloc_size n GFP_KERNEL"
    using uint_add_u32 [of b ?w] alloc_size_uint [OF n] Cons.prems(2) slab_total_ge [OF ns] by simp
  then show ?case using Cons.IH [OF ns, of "b + ?w" "i - 1"] Cons.prems(2,3) by (cases i) simp_all
qed simp

lemma slab_addrs_length [simp]: "length (slab_addrs b ns) = length ns"
  by (induction ns arbitrary: b) simp_all

text \<open>
  C21. Allocations of 1 to 4080 bytes that fit in the rest of the current slab page, made while no
  released memory of their sizes is cached, all succeed: each gets its own part of the free range of
  the page, the parts are disjoint, in the order of the calls, and as long as asked for.
\<close>

theorem kmalloc_sequence_disjoint:
  assumes "slab_ok F pg hp s" "slab_sizes ns"
    and "\<And>n. n \<in> set ns \<Longrightarrow> F (N_slab (list_id (get_new_alloc_size n GFP_KERNEL))) = Some []"
    and p: "page_read pg (sm s) = Some p" "pg_free_base p \<noteq> NULL" "slab_total ns \<le> uint (pg_free_size p)"
    "uint (pg_free_base p) + uint (pg_free_size p) < 2 ^ 32" and "header_in_page s + int (length ns) \<le> 256"
  shows "\<exists>as s'. kmallocs ns s = Some (as, s') \<and> length as = length ns \<and>
    (\<forall>i < length ns. uint (pg_free_base p) \<le> uint (as ! i) \<and>
       uint (as ! i) + ns ! i \<le> uint (pg_free_base p) + uint (pg_free_size p)) \<and>
    (\<forall>j < length ns. \<forall>i < j. uint (as ! i) + ns ! i \<le> uint (as ! j))"
proof -
  let ?b = "pg_free_base p"
  have nth: "uint (slab_addrs ?b ns ! i) = uint ?b + slab_total (take i ns)" if "i < length ns" for i
    using slab_addrs_nth [OF assms(2) _ that] p(3,4) by simp
  have "uint ?b \<le> uint (slab_addrs ?b ns ! i) \<and> uint (slab_addrs ?b ns ! i) + ns ! i \<le> uint ?b + uint (pg_free_size p)"
    if "i < length ns" for i
    using nth [OF that] slab_total_step [OF assms(2) that that] slab_total_take [OF assms(2), of 0 i] p(3) by simp
  moreover have "uint (slab_addrs ?b ns ! i) + ns ! i \<le> uint (slab_addrs ?b ns ! j)" if "j < length ns" "i < j" for i j
    using nth that slab_total_step [OF assms(2), of i j] by simp
  ultimately show ?thesis using kmallocs_spec [OF assms] by auto
qed

section \<open>Initialisation\<close>

lemma kinv_init_list:
  assumes k: "kinv F k" and n: "fresh F n" "foreign n"
  shows "kinv (F(n \<mapsto> [])) (on_lists (init_list n) k)"
  using n by (intro kinv_foreign [OF k] list_rel_init [OF kinv_rel [OF k]]) auto

definition slab_lists :: "int \<Rightarrow> node lists \<Rightarrow> node lists" where
  "slab_lists i F = (\<lambda>n. case n of N_slab j \<Rightarrow> if 0 \<le> j \<and> j < i then Some [] else F n | _ \<Rightarrow> F n)"

lemma slab_lists_simps [simp]:
  "slab_lists i F (N_slab j) = (if 0 \<le> j \<and> j < i then Some [] else F (N_slab j))"
  "(\<And>j. n \<noteq> N_slab j) \<Longrightarrow> slab_lists i F n = F n"
  by (auto simp: slab_lists_def split: node.split)

lemma slab_lists_step: "0 \<le> i \<Longrightarrow> slab_lists (i + 1) F = (slab_lists i F)(N_slab i \<mapsto> [])"
  by (auto simp: slab_lists_def fun_eq_iff split: node.split)

lemma slab_lists_fresh: "fresh F n \<Longrightarrow> (\<And>j. n \<noteq> N_slab j) \<Longrightarrow> fresh (slab_lists i F) n"
  by (auto simp: fresh_def slab_lists_def split: node.splits if_splits)

definition slab_init_lists :: "node lists \<Rightarrow> node lists" where
  "slab_init_lists F = (slab_lists SLAB_NODE F)(M_wait SlabMutex \<mapsto> [], N_table_list \<mapsto> [], N_free_header \<mapsto> [])"

lemma slab_init_spec:
  assumes k: "kinv F (ks (sm s))"
    and f: "\<And>i. fresh F (N_slab i)" "fresh F N_table_list" "fresh F N_free_header"
      "fresh F (M_wait SlabMutex)" "fresh F (M_task SlabMutex)"
  shows "\<exists>k. slab_init s = Some (0, s\<lparr>sm := (sm s)\<lparr>ks := k\<rparr>, table_page_current := None,
      table_total_pages := 0, page_current := -1, header_in_page := -1\<rparr>) \<and>
    kinv (slab_init_lists F) k \<and> k = (ks (sm s))\<lparr>lists := lists k, mutex_count := (mutex_count (ks (sm s)))(SlabMutex := 0)\<rparr>"
proof -
  let ?P = "\<lambda>i t. \<exists>k. t = s\<lparr>sm := (sm s)\<lparr>ks := k\<rparr>\<rparr> \<and> kinv (slab_lists i F) k \<and> ks_lists (ks (sm s)) k"
  have "\<exists>t. for_loop 0 SLAB_NODE (\<lambda>i s. Some (sl (init_list (N_slab i)) s)) s = Some t \<and> ?P SLAB_NODE t"
  proof (rule for_loop_inv)
    have "slab_lists 0 F = F" by (auto simp: slab_lists_def fun_eq_iff split: node.split)
    then show "?P 0 s" using k by (intro exI [of _ "ks (sm s)"]) (simp add: ks_lists_def)
    fix i t assume i: "0 \<le> i" "i < SLAB_NODE" and "?P i t"
    then obtain k1 where k1: "t = s\<lparr>sm := (sm s)\<lparr>ks := k1\<rparr>\<rparr>" "kinv (slab_lists i F) k1" "ks_lists (ks (sm s)) k1" by blast
    have "fresh (slab_lists i F) (N_slab i)"
      using f(1) [of i] by (auto simp: fresh_def slab_lists_def split: node.splits if_splits)
    then have "kinv (slab_lists (i + 1) F) (on_lists (init_list (N_slab i)) k1)"
      unfolding slab_lists_step [OF i(1)] by (intro kinv_init_list [OF k1(2)]) simp_all
    then show "\<exists>t'. Some (sl (init_list (N_slab i)) t) = Some t' \<and> ?P (i + 1) t'"
      using k1 ks_lists_on by (simp add: sl_def on_ks_def) blast
  qed simp
  then obtain k1 where k1: "for_loop 0 SLAB_NODE (\<lambda>i s. Some (sl (init_list (N_slab i)) s)) s = Some (s\<lparr>sm := (sm s)\<lparr>ks := k1\<rparr>\<rparr>)"
    "kinv (slab_lists SLAB_NODE F) k1" "ks_lists (ks (sm s)) k1" by blast
  let ?F = "slab_lists SLAB_NODE F"
  note fr = f(2-5) [THEN slab_lists_fresh, of SLAB_NODE, simplified]
  have k2: "kinv (?F(M_wait SlabMutex \<mapsto> [])) (init_mutex SlabMutex k1)"
    by (rule kinv_init_mutex [OF k1(2)]) (use fr in simp_all)
  have "kinv (?F(M_wait SlabMutex \<mapsto> [], N_table_list \<mapsto> [])) (on_lists (init_list N_table_list) (init_mutex SlabMutex k1))"
    by (rule kinv_init_list [OF k2]) (use fr in \<open>auto simp: fresh_def\<close>)
  then have "kinv (slab_init_lists F) (on_lists (init_list N_free_header) (on_lists (init_list N_table_list) (init_mutex SlabMutex k1)))"
    unfolding slab_init_lists_def by (rule kinv_init_list) (use fr in \<open>auto simp: fresh_def\<close>)
  moreover let ?K = "on_lists (init_list N_free_header) (on_lists (init_list N_table_list) (init_mutex SlabMutex k1))"
  have "?K = (ks (sm s))\<lparr>lists := lists ?K, mutex_count := (mutex_count (ks (sm s)))(SlabMutex := 0)\<rparr>"
    using k1(3) by (cases "ks (sm s)"; cases k1) (simp add: ks_lists_def init_mutex_eq on_lists_def set_mutex_count_def)
  ultimately show ?thesis
    using k1(1) by (intro exI [of _ ?K] conjI) (simp_all add: slab_init_def sl_def on_ks_def)
qed

text \<open>
  A machine after \<^verbatim>\<open>slab_init\<close> whose page 2 has become the current slab page, its first 256 bytes
  allocated, and page 3 the current header page with one header in use.
\<close>

definition slab_boot :: sstate where
  "slab_boot = \<lparr>sm = machine (0xf # replicate 8 0), headers = Map.empty, slab_page_current = None,
     table_page_current = None, table_total_pages = 0, page_current = 0, header_in_page = 0\<rparr>"

definition slab_page :: "page" where
  "slab_page = no_page\<lparr>pg_free_base := 0xc0002100, pg_free_size := 0xf00\<rparr>"

definition slab_demo :: sstate where
  "slab_demo = (case slab_init slab_boot of Some (_, s) \<Rightarrow>
     sl (init_list (N_page 2)) (spage 2 slab_page (spage 3 (no_page\<lparr>pg_free_base := 0xc0003010, pg_free_size := 0xff0\<rparr>)
       (s\<lparr>slab_page_current := Some 2, table_page_current := Some 3, header_in_page := 1\<rparr>))))"

definition slab_demo_F :: "node lists" where
  "slab_demo_F = (slab_init_lists demo_F)(N_page 2 \<mapsto> [])"

lemma demo_F_fresh:
  "fresh demo_F (N_slab i)" "fresh demo_F N_table_list" "fresh demo_F N_free_header" "fresh demo_F (N_page p)"
  "fresh demo_F (M_wait SlabMutex)" "fresh demo_F (M_task SlabMutex)" "fresh demo_F (N_header h)"
  by (auto simp: fresh_def demo_F_def boot_lists_def boot_heads_def split: if_splits)

lemma slab_demo_ok: "slab_ok slab_demo_F 2 3 slab_demo" "page_read 2 (sm slab_demo) = Some slab_page" "header_in_page slab_demo = 1"
  "ks (sm slab_demo) = demo_ks\<lparr>lists := lists (ks (sm slab_demo)), mutex_count := (mutex_count demo_ks)(SlabMutex := 0)\<rparr>"
  "mm_same (machine (0xf # replicate 8 0)) (sm slab_demo)"
proof -
  have "kinv demo_F (ks (sm slab_boot))" using demo_ks_kinv by (simp add: slab_boot_def machine_def)
  note init = slab_init_spec [OF this demo_F_fresh(1,2,3,5,6)]
  then obtain k where k: "slab_init slab_boot = Some (0, slab_boot\<lparr>sm := (sm slab_boot)\<lparr>ks := k\<rparr>, table_page_current := None,
      table_total_pages := 0, page_current := -1, header_in_page := -1\<rparr>)"
    "kinv (slab_init_lists demo_F) k" "k = demo_ks\<lparr>lists := lists k, mutex_count := (mutex_count demo_ks)(SlabMutex := 0)\<rparr>"
    by (auto simp: slab_boot_def machine_def)
  have kc: "current k = current demo_ks" "mutex_count k SlabMutex = 0" by (subst k(3); simp)+
  have fr: "fresh (slab_init_lists demo_F) n" if "fresh demo_F n" "foreign n" "\<And>j. n \<noteq> N_slab j"
      "n \<noteq> M_wait SlabMutex" "n \<noteq> N_table_list" "n \<noteq> N_free_header" for n
    using slab_lists_fresh [OF that(1,3)] that by (auto simp: slab_init_lists_def fresh_def split: if_splits)
  have d: "slab_demo = sl (init_list (N_page 2)) (spage 2 slab_page (spage 3 (no_page\<lparr>pg_free_base := 0xc0003010, pg_free_size := 0xff0\<rparr>)
       (slab_boot\<lparr>sm := (sm slab_boot)\<lparr>ks := k\<rparr>, table_total_pages := 0, page_current := -1,
         slab_page_current := Some 2, table_page_current := Some 3, header_in_page := 1\<rparr>)))"
    by (simp add: slab_demo_def k(1))
  have ks: "ks (sm slab_demo) = on_lists (init_list (N_page 2)) k" by (simp add: d)
  have "on_lists g k = demo_ks\<lparr>lists := lists (on_lists g k), mutex_count := (mutex_count demo_ks)(SlabMutex := 0)\<rparr>" for g
    by (subst (1) k(3)) (simp add: on_lists_def)
  then show "ks (sm slab_demo) = demo_ks\<lparr>lists := lists (ks (sm slab_demo)), mutex_count := (mutex_count demo_ks)(SlabMutex := 0)\<rparr>"
    unfolding ks .
  show "mm_same (machine (0xf # replicate 8 0)) (sm slab_demo)" by (simp add: d mm_same_def slab_boot_def spage_def)
  have kinv: "kinv slab_demo_F (ks (sm slab_demo))"
    unfolding slab_demo_F_def ks by (rule kinv_init_list [OF k(2)]) (rule fr, simp_all add: demo_F_fresh)
  have fr2: "fresh slab_demo_F n" if "fresh demo_F n" "foreign n" "\<And>j. n \<noteq> N_slab j"
      "n \<noteq> M_wait SlabMutex" "n \<noteq> N_table_list" "n \<noteq> N_free_header" "n \<noteq> N_page 2" for n
    using fr [OF that(1-6)] that(7) by (auto simp: slab_demo_F_def fresh_def split: if_splits)
  show rp: "page_read 2 (sm slab_demo) = Some slab_page" and hip: "header_in_page slab_demo = 1"
    by (simp_all add: d spage_def page_read_def lget_def slab_boot_def machine_def sl_def on_ks_def)
  have rd: "page_read 3 (sm slab_demo) = Some (no_page\<lparr>pg_free_base := 0xc0003010, pg_free_size := 0xff0\<rparr>)"
    by (simp add: d spage_def page_read_def lget_def slab_boot_def machine_def sl_def on_ks_def)
  have nz: "0xc0003010 + 16 * word_of_int j \<noteq> (NULL :: u32)" if "0 \<le> j" "j < 255" for j
  proof -
    have "(16 * word_of_int j :: u32) = word_of_int (16 * j)" by simp
    moreover have "uint (word_of_int (16 * j) :: u32) = 16 * j" using that unfolding uint_word_of_int by simp
    ultimately have "uint (0xc0003010 + 16 * word_of_int j :: u32) = 0xc0003010 + 16 * j"
      using that uint_add_u32 [of "0xc0003010" "16 * word_of_int j"] by simp
    then show ?thesis using that by (metis add_nonneg_pos add.commute less_irrefl mult_nonneg_nonneg uint_0_eq zero_le_numeral zero_less_numeral)
  qed
  have mf: "mutex_free SlabMutex slab_demo_F (ks (sm slab_demo))"
    using kc fr2 [of "M_task SlabMutex"] demo_mutexes [of 0]
    by (auto simp: mutex_free_def ks demo_F_fresh slab_demo_F_def slab_init_lists_def)
  show "slab_ok slab_demo_F 2 3 slab_demo"
    unfolding slab_ok_def
  proof (intro conjI)
    show "\<exists>q. page_read 3 (sm slab_demo) = Some q \<and> (\<forall>j. 0 \<le> j \<longrightarrow> j < 256 - header_in_page slab_demo \<longrightarrow>
         fresh slab_demo_F (N_header (pg_free_base q + 16 * word_of_int j)) \<and> pg_free_base q + 16 * word_of_int j \<noteq> NULL)"
      using rd nz hip fr2 [of "N_header h" for h] demo_F_fresh(7) by simp
    show "page_state 2 (sm slab_demo) = Some 1"
      by (simp add: d slab_boot_def machine_def page_state_bit bm_bit_def bm_size_def)
  qed (use kinv mf rp hip in \<open>simp_all add: slab_demo_F_def slab_init_lists_def d\<close>)
qed

theorem kmalloc_sequence_disjoint_witness:
  "\<exists>as s'. kmallocs [10, 4, 100] slab_demo = Some (as, s') \<and> length as = 3 \<and>
    (\<forall>i < 3. 0xc0002100 \<le> uint (as ! i) \<and> uint (as ! i) + [10, 4, 100] ! i \<le> 0xc0003000) \<and>
    (\<forall>j < 3. \<forall>i < j. uint (as ! i) + [10, 4, 100] ! i \<le> uint (as ! j))"
proof -
  have sz: "get_new_alloc_size 10 GFP_KERNEL = 16" "get_new_alloc_size 4 GFP_KERNEL = 16" "get_new_alloc_size 100 GFP_KERNEL = 112"
    by (simp_all add: alloc_size_kernel)
  have "slab_demo_F (N_slab (list_id (get_new_alloc_size n GFP_KERNEL))) = Some []" if "n \<in> set [10, 4, 100]" for n
    using that sz by (auto simp: slab_demo_F_def slab_init_lists_def list_id_def)
  from kmalloc_sequence_disjoint [OF slab_demo_ok(1), of "[10, 4, 100]", OF _ this slab_demo_ok(2)]
  show ?thesis by (simp add: sz slab_page_def slab_demo_ok(3) no_page_def numeral_3_eq_3 del: kmallocs.simps)
qed

section \<open>Releases and sizes the code does not handle\<close>

text \<open>
  Memory released with \<^verbatim>\<open>kfree\<close> is not handed out again: after an allocation in the kernel's
  address range (from \<open>0x40000000\<close>) and its release, an allocation of the same size gets the next part
  of the page, the state being as if \<^verbatim>\<open>kfree\<close> had not been called.
\<close>

theorem kfree_does_not_recycle:
  assumes ok: "slab_ok F pg hp s" and sz: "0 < sz" "sz \<le> 4080" "n = get_new_alloc_size sz GFP_KERNEL"
    and p: "page_read pg (sm s) = Some p" "2 * n \<le> uint (pg_free_size p)" "0x40000000 \<le> pg_free_base p"
      "uint (pg_free_base p) + n < 2 ^ 32"
    and room: "header_in_page s < 255" and empty: "F (N_slab (list_id n)) = Some []"
  shows "\<exists>a s1 s2. kmalloc sz GFP_KERNEL s = Some (Some a, s1) \<and> kfree pb a s1 = Some (Some (), s1) \<and>
    kmalloc sz GFP_KERNEL s1 = Some (Some (a + word_of_int n), s2) \<and> a = pg_free_base p"
proof -
  note b = alloc_size_bounds [OF sz] and u = alloc_size_uint [OF sz(1,2), folded sz(3)]
  have ub: "0x40000000 \<le> uint (pg_free_base p)" using p(3) by (simp add: word_le_def)
  then have nz: "pg_free_base p \<noteq> NULL" by auto
  have fit: "n \<le> uint (pg_free_size p)" "header_in_page s < 256" using p(2) b(4) room by linarith+
  obtain s1 F1 p1 where s1: "kmalloc sz GFP_KERNEL s = Some (Some (pg_free_base p), s1)" "slab_ok F1 pg hp s1"
    "page_read pg (sm s1) = Some p1" "pg_free_base p1 = pg_free_base p + word_of_int n"
    "pg_free_size p1 = pg_free_size p - word_of_int n" "header_in_page s1 = header_in_page s + 1"
    "\<And>i. F1 (N_slab i) = F (N_slab i)"
    using kmalloc_from_page [OF ok sz p(1) fit(1) nz fit(2) empty] by force
  have "uint (pg_free_size p1) = uint (pg_free_size p) - n"
    using fit(1) u(2) uint_sub_lem [of "word_of_int n" "pg_free_size p"] unfolding s1(5) by metis
  then have fit1: "n \<le> uint (pg_free_size p1)" using p(2) by simp
  have "uint (pg_free_base p1) = uint (pg_free_base p) + n"
    using uint_add_u32 [of "pg_free_base p" "word_of_int n"] u(1) p(4) unfolding s1(4) by simp
  then have "pg_free_base p1 \<noteq> NULL" using ub b(4) by auto
  then obtain s2 where "kmalloc sz GFP_KERNEL s1 = Some (Some (pg_free_base p1), s2)"
    using kmalloc_from_page [OF s1(2) sz s1(3) fit1] s1(6,7) room empty by auto
  moreover have "kfree pb (pg_free_base p) s1 = Some (Some (), s1)"
    using p(3) nz by (auto simp: kfree_def kfree_user_mem_def)
  ultimately show ?thesis using s1(1,4) by auto
qed

theorem kfree_does_not_recycle_witness:
  "\<exists>a s1 s2. kmalloc 20 GFP_KERNEL slab_demo = Some (Some a, s1) \<and> kfree 0xc0100000 a s1 = Some (Some (), s1) \<and>
    kmalloc 20 GFP_KERNEL s1 = Some (Some (a + 32), s2) \<and> a = 0xc0002100"
proof -
  have n: "32 = get_new_alloc_size 20 GFP_KERNEL" by (simp add: alloc_size_kernel)
  show ?thesis
    using kfree_does_not_recycle [OF slab_demo_ok(1) _ _ n slab_demo_ok(2), of "0xc0100000"]
    by (simp add: slab_page_def slab_demo_ok(3) no_page_def slab_demo_F_def slab_init_lists_def list_id_def)
qed

text \<open>
  A request of 4081 to 4095 bytes is rounded to a whole page, whose cache list would be the
  element 255 of an array of 255: while the slab mutex is free, \<^verbatim>\<open>kmalloc\<close> has no defined result.
\<close>

theorem kmalloc_list_index_out_of_range:
  assumes "kinv F (ks (sm s))" "mutex_free SlabMutex F (ks (sm s))" "4080 < sz" "sz < 4096"
  shows "list_id (get_new_alloc_size sz GFP_KERNEL) = SLAB_NODE \<and> kmalloc sz GFP_KERNEL s = None"
proof -
  have "(sz + 15) div 16 = 256" using assms(3,4) by presburger
  then have n: "get_new_alloc_size sz GFP_KERNEL = 4096" by (simp add: alloc_size_kernel)
  obtain k1 where "mutex_lock SlabMutex (ks (sm s)) = Some (Lock_return 0, k1)"
    by (rule lock_section [OF assms(1,2)])
  then have "slab_lock s = Some (Some (), s\<lparr>sm := (sm s)\<lparr>ks := k1\<rparr>\<rparr>)" by (simp add: slab_lock_def)
  moreover have "kmalloc_locked sz 4096 GFP_KERNEL t = None" for t
    using assms(4) by (simp add: kmalloc_locked_def get_slab_in_list.simps list_id_def)
  ultimately show ?thesis using n assms(3) by (simp add: kmalloc_def kmalloc_size_def list_id_def)
qed

theorem kmalloc_list_index_out_of_range_witness: "kmalloc 4090 GFP_KERNEL slab_demo = None"
proof -
  have "kinv slab_demo_F (ks (sm slab_demo))" "mutex_free SlabMutex slab_demo_F (ks (sm slab_demo))"
    using slab_demo_ok(1) by (simp_all add: slab_ok_def)
  from kmalloc_list_index_out_of_range [OF this, of 4090] show ?thesis by simp
qed

end
