(* ===== verification/Lib.thy ===== *)
theory Lib
  imports Kstring
begin

text \<open>
  The assembly routine \<^verbatim>\<open>memcpy\<close>, \<^verbatim>\<open>arch/arm/machine/lib.S\<close>, and \<^verbatim>\<open>copy_page_va\<close> of
  \<^verbatim>\<open>mm/mm.c\<close>.  The registers of the routine are the arguments of its loops.  A multiple load or store
  ignores the two low bits of its address, as the ARM920T does.
\<close>

section \<open>Definitions\<close>

primrec copy_left :: "nat \<Rightarrow> u32 \<Rightarrow> u32 \<Rightarrow> mem \<Rightarrow> mem" where
  "copy_left 0 r0 r1 m = m"
| "copy_left (Suc n) r0 r1 m = copy_left n (r0 + 1) (r1 + 1) (m(r0 := m r1))"

definition ldm_stm :: "u32 \<Rightarrow> u32 \<Rightarrow> mem \<Rightarrow> mem" where
  "ldm_stm r0 r1 m =
     (let t = r0 AND NOT 3; s = r1 AND NOT 3
      in (\<lambda>a. if a - t < 16 then m (s + (a - t)) else m a))"

function copy_bigger_16 :: "u32 \<Rightarrow> u32 \<Rightarrow> u32 \<Rightarrow> mem \<Rightarrow> mem" where
  "copy_bigger_16 r0 r1 r2 m =
     (if r2 <s 16 then copy_left (unat r2) r0 r1 m
      else copy_bigger_16 (r0 + 16) (r1 + 16) (r2 - 16) (ldm_stm r0 r1 m))"
  by pat_completeness auto
termination
proof (relation "measure (\<lambda>(r0, r1, r2, m). unat r2)")
  fix r0 r1 r2 :: u32 and m :: mem
  assume "\<not> r2 <s 16"
  then have "16 \<le> sint r2" by (simp add: word_sless_alt)
  then have "16 \<le> uint r2" using sint_uint_u32 [of r2] by (cases "uint r2 < 2 ^ 31") simp_all
  then have le: "16 \<le> r2" by (simp add: word_le_def)
  then have "unat (r2 - 16) = unat r2 - 16" by (simp add: unat_sub)
  moreover have "16 \<le> unat r2" using le by (simp add: word_le_nat_alt)
  ultimately show "((r0 + 16, r1 + 16, r2 - 16, ldm_stm r0 r1 m), r0, r1, r2, m) \<in> measure (\<lambda>(r0, r1, r2, m). unat r2)"
    by simp
qed simp

declare copy_bigger_16.simps [simp del]

definition memcpy :: "u32 \<Rightarrow> u32 \<Rightarrow> u32 \<Rightarrow> mem \<Rightarrow> mem" where
  "memcpy r0 r1 r2 m =
     (let k = r0 AND 3 in
      if k \<noteq> r1 AND 3 then copy_left (unat r2) r0 r1 m
      else copy_bigger_16 (r0 + k) (r1 + k) (r2 - k) (copy_left (unat k) r0 r1 m))"

definition copy_page_va :: "u32 \<Rightarrow> u32 \<Rightarrow> mem \<Rightarrow> mem" where
  "copy_page_va target source m = memcpy target source 4096 m"

section \<open>Copying as one step\<close>

definition mcopy :: "nat \<Rightarrow> u32 \<Rightarrow> u32 \<Rightarrow> mem \<Rightarrow> mem" where
  "mcopy n t s m = (\<lambda>a. if unat (a - t) < n then m (s + (a - t)) else m a)"

text \<open>No byte of the source is one of the target.\<close>

definition apart :: "nat \<Rightarrow> u32 \<Rightarrow> u32 \<Rightarrow> bool" where
  "apart n t s \<longleftrightarrow> (\<forall>i < n. n \<le> unat (s + of_nat i - t))"

lemma unat_sub_shift:
  assumes "n + k \<le> 2 ^ 32"
  shows "unat (a - (t + of_nat n)) < k \<longleftrightarrow> n \<le> unat (a - t) \<and> unat (a - t :: u32) < n + k"
proof (cases "n < 2 ^ 32")
  case True
  let ?d = "a - t" and ?e = "a - (t + of_nat n)"
  have n: "unat (of_nat n :: u32) = n" using True by (simp add: unat_of_nat_u32)
  have de: "?d = ?e + of_nat n" by simp
  show ?thesis
  proof
    assume "unat ?e < k"
    then have "unat ?d = unat ?e + n" unfolding de using n assms by (subst unat_add_u32) simp_all
    with \<open>unat ?e < k\<close> show "n \<le> unat ?d \<and> unat ?d < n + k" by simp
  next
    assume d: "n \<le> unat ?d \<and> unat ?d < n + k"
    have "unat (?d - of_nat n) = unat ?d - n" using d n by (subst unat_sub) (simp_all add: word_le_nat_alt)
    then show "unat ?e < k" using d by (simp add: diff_diff_eq) linarith
  qed
next
  case False
  with assms have "k = 0" by simp
  then show ?thesis by simp
qed

lemma mcopy_mcopy:
  assumes ap: "apart (n + k) t s" and le: "n + k \<le> 2 ^ 32"
  shows "mcopy k (t + of_nat n) (s + of_nat n) (mcopy n t s m) = mcopy (n + k) t s m"
proof
  fix a
  have far: "mcopy n t s m (s + (a - t)) = m (s + (a - t))" if "unat (a - t) < n + k"
  proof -
    have "n + k \<le> unat (s + of_nat (unat (a - t)) - t)" using ap that unfolding apart_def by blast
    then show ?thesis by (simp add: mcopy_def)
  qed
  have eq: "s + of_nat n + (a - (t + of_nat n)) = s + (a - t)" by simp
  show "mcopy k (t + of_nat n) (s + of_nat n) (mcopy n t s m) a = mcopy (n + k) t s m a"
  proof (cases "unat (a - t) < n + k")
    case True
    then show ?thesis
      unfolding mcopy_def [of k] mcopy_def [of "n + k"] unat_sub_shift [OF le] eq far [OF True]
      by (auto simp: mcopy_def)
  next
    case False
    then show ?thesis unfolding mcopy_def [of k] unat_sub_shift [OF le] by (simp add: mcopy_def)
  qed
qed

lemma apart_mono: "apart n t s \<Longrightarrow> k \<le> n \<Longrightarrow> apart k t s"
  unfolding apart_def by (meson le_trans less_le_trans)

lemma apart_shift:
  assumes ap: "apart (n + k) t s" and le: "n + k \<le> 2 ^ 32"
  shows "apart k (t + of_nat n) (s + of_nat n)"
  unfolding apart_def
proof (intro allI impI)
  fix i assume i: "i < k"
  then have "n + k \<le> unat (s + of_nat (n + i) - t)" using ap unfolding apart_def by (meson nat_add_left_cancel_less)
  then have "\<not> unat (s + of_nat (n + i) - (t + of_nat n)) < k" unfolding unat_sub_shift [OF le] by simp
  then show "k \<le> unat (s + of_nat n + of_nat i - (t + of_nat n))" by (simp add: add.assoc)
qed

lemma copy_left_eq: "apart n t s \<Longrightarrow> n \<le> 2 ^ 32 \<Longrightarrow> copy_left n t s m = mcopy n t s m"
proof (induction n arbitrary: t s m)
  case 0
  show ?case by (simp add: mcopy_def)
next
  case (Suc n)
  have "m(t := m s) = mcopy 1 t s m" by (auto simp: mcopy_def fun_eq_iff unat_eq_0)
  moreover have "apart n (t + 1) (s + 1)" using apart_shift [of 1 n t s] Suc.prems by simp
  ultimately show ?case using Suc.IH [of "t + 1" "s + 1" "mcopy 1 t s m"] mcopy_mcopy [of 1 n t s m] Suc.prems by simp
qed

lemma ldm_stm_eq: "r0 AND 3 = 0 \<Longrightarrow> r1 AND 3 = 0 \<Longrightarrow> ldm_stm r0 r1 m = mcopy 16 r0 r1 m"
proof -
  have al: "r AND - 4 = r" if "r AND 3 = 0" for r :: u32
  proof -
    have "(r AND 3) OR (r AND NOT 3) = r" by (simp add: bit.conj_disj_distrib [symmetric])
    with that show ?thesis by simp
  qed
  assume "r0 AND 3 = 0" "r1 AND 3 = 0"
  then show ?thesis by (simp add: ldm_stm_def mcopy_def al word_less_nat_alt Let_def)
qed

lemma unat_and3: "unat (r AND 3 :: u32) = unat r mod 4"
proof -
  have "r AND 3 = take_bit 2 r" by (simp add: take_bit_eq_mask mask_eq_exp_minus_1)
  then show ?thesis using unsigned_take_bit_eq [of 2 r, where 'a = nat] by (simp add: take_bit_eq_mod)
qed

lemma and3_add: "unat ((a + b) AND 3 :: u32) = (unat (a AND 3) + unat (b AND 3)) mod 4"
  unfolding unat_and3 unat_word_ariths by (simp add: mod_mod_cancel mod_add_eq)

lemma copy_bigger_16_eq:
  assumes "r0 AND 3 = 0" "r1 AND 3 = 0" "unat r2 < 2 ^ 31" "apart (unat r2) r0 r1"
  shows "copy_bigger_16 r0 r1 r2 m = mcopy (unat r2) r0 r1 m"
  using assms
proof (induction r0 r1 r2 m rule: copy_bigger_16.induct)
  case (1 r0 r1 r2 m)
  have u: "sint r2 = int (unat r2)" using 1(4) sint_of_nat_u32 [of "unat r2"] by simp
  have sl: "r2 <s 16 \<longleftrightarrow> unat r2 < 16"
    unfolding word_sless_alt u using of_nat_less_iff [of "unat r2" 16, where 'a = int] by simp
  show ?case
  proof (cases "unat r2 < 16")
    case True
    then have "r2 <s 16" using sl by simp
    then show ?thesis using 1 copy_left_eq [of "unat r2" r0 r1 m] by (simp add: copy_bigger_16.simps)
  next
    case False
    then have ns: "\<not> r2 <s 16" using sl by simp
    have d: "unat (r2 - 16) = unat r2 - 16" using False by (simp add: unat_sub word_le_nat_alt)
    have ap: "apart (16 + unat (r2 - 16)) r0 r1" using d False 1(5) by simp
    have al: "(r + 16) AND 3 = 0" if "r AND 3 = 0" for r :: u32
      using and3_add [of r 16] that by (simp add: unat_eq_0)
    have "copy_bigger_16 (r0 + 16) (r1 + 16) (r2 - 16) (ldm_stm r0 r1 m) =
        mcopy (unat (r2 - 16)) (r0 + of_nat 16) (r1 + of_nat 16) (mcopy 16 r0 r1 m)"
      using "1.IH" [OF ns] 1(2,3,4) d apart_shift [OF ap] al ldm_stm_eq by simp
    also have "\<dots> = mcopy (unat r2) r0 r1 m" using mcopy_mcopy [OF ap] d False 1(4) by simp
    finally show ?thesis using ns by (simp add: copy_bigger_16.simps)
  qed
qed

lemma memcpy_mcopy:
  assumes sz: "unat n < 2 ^ 31" "apart (unat n) t s"
    and off: "t AND 3 \<noteq> s AND 3 \<or> t AND 3 = 0 \<or> t AND 3 = 2 \<and> 2 \<le> n"
  shows "memcpy t s n m = mcopy (unat n) t s m"
proof (cases "t AND 3 = s AND 3")
  case False
  then show ?thesis using copy_left_eq [of "unat n" t s m] sz by (simp add: memcpy_def)
next
  case eq: True
  show ?thesis
  proof (cases "t AND 3 = 0")
    case True
    then show ?thesis using eq copy_bigger_16_eq [of t s n m] sz by (simp add: memcpy_def)
  next
    case False
    with eq off have k: "t AND 3 = 2" "s AND 3 = 2" "2 \<le> n" by auto
    have al: "(r + 2) AND 3 = 0" if "r AND 3 = 2" for r :: u32
      using and3_add [of r 2] that by (simp add: unat_eq_0)
    have d: "unat (n - 2) = unat n - 2" "2 \<le> unat n" using k(3) by (simp_all add: unat_sub word_le_nat_alt)
    have tot: "2 + unat (n - 2) = unat n" using d by linarith
    then have ap: "apart (2 + unat (n - 2)) t s" using sz(2) by simp
    have "copy_left 2 t s m = mcopy 2 t s m"
      using copy_left_eq [OF apart_mono [OF ap]] by simp
    moreover have "copy_bigger_16 (t + 2) (s + 2) (n - 2) (mcopy 2 t s m) = mcopy (unat (n - 2)) (t + of_nat 2) (s + of_nat 2) (mcopy 2 t s m)"
      using copy_bigger_16_eq [of "t + 2" "s + 2" "n - 2"] al k d sz(1) apart_shift [OF ap] by simp
    moreover have "\<dots> = mcopy (unat n) t s m" using mcopy_mcopy [OF ap, unfolded tot] sz(1) by simp
    ultimately show ?thesis using k by (simp add: memcpy_def)
  qed
qed

text \<open>
  C30. \<^verbatim>\<open>memcpy\<close> of less than 2 GiB copies exactly its size when source and target do not overlap and their offsets in a
  word differ, or are both 0, or are both 2 and the size is at least 2: every byte of the target is that of the source before the
  call, and no other byte changes.  Equal odd offsets, and the sizes 0 and 1 at offset 2, are excluded.
\<close>

theorem memcpy_copies:
  assumes "unat n < 2 ^ 31" "apart (unat n) t s"
    and "t AND 3 \<noteq> s AND 3 \<or> t AND 3 = 0 \<or> t AND 3 = 2 \<and> 2 \<le> n"
  shows "memcpy t s n m a = (if unat (a - t) < unat n then m (s + (a - t)) else m a)"
  by (simp add: memcpy_mcopy [OF assms] mcopy_def)

theorem memcpy_copies_witness:
  "\<forall>a. memcpy 0x2002 0x1006 0x100 (\<lambda>a. ucast a) a =
     (if unat (a - 0x2002) < 0x100 then ucast (0x1006 + (a - 0x2002)) else ucast a)"
proof
  fix a
  have "apart (unat (0x100 :: u32)) 0x2002 0x1006"
    unfolding apart_def
  proof (intro allI impI)
    fix i assume i: "i < unat (0x100 :: u32)"
    have "unat (0x1006 + of_nat i - 0x2002 :: u32) = unat (of_nat i - 0xffc :: u32)" by (simp add: algebra_simps)
    also have "of_nat i - 0xffc = (of_nat (i + 0xfffff004) :: u32)" by simp
    also have "unat (of_nat (i + 0xfffff004) :: u32) = i + 0xfffff004" using i by (subst unat_of_nat_u32) simp_all
    finally show "unat (0x100 :: u32) \<le> unat (0x1006 + of_nat i - 0x2002 :: u32)" by simp
  qed
  from memcpy_copies [OF _ this, of "\<lambda>a. ucast a" a]
  show "memcpy 0x2002 0x1006 0x100 (\<lambda>a. ucast a) a =
     (if unat (a - 0x2002) < 0x100 then ucast (0x1006 + (a - 0x2002)) else ucast a)" by simp
qed

text \<open>With both offsets 1 the first word of the target is not that of the source.\<close>

lemma memcpy_offset_one: "memcpy 0x2001 0x1001 32 (\<lambda>a. ucast (drop_bit 8 a)) 0x2000 \<noteq> ucast (drop_bit 8 (0x2000 :: u32))"
  by code_simp

end
