(* ===== verification/Context.thy ===== *)
theory Context
  imports Sched Mmu
begin

text \<open>
  The context of a task: \<^verbatim>\<open>pt_regs\<close> (\<^verbatim>\<open>arch/arm/include/asm/asm_sched.h\<close>), how the kernel builds it
  (\<^verbatim>\<open>arch/arm/machine/arm920t_c.c\<close>) and how \<^verbatim>\<open>arch_switch_task_sw\<close>
  (\<^verbatim>\<open>arch/arm/machine/arm920t_s.S\<close>) saves and loads it.  The kernel stacks are in a memory of words.
\<close>

section \<open>Definitions\<close>

record pt_regs =
  r_gen :: "u32 list"      \<comment> \<open>\<^verbatim>\<open>r0\<close> to \<^verbatim>\<open>r12\<close>\<close>
  r_spsr :: u32
  r_lr :: u32
  r_sp :: u32
  r_cpsr :: u32
  r_pc :: u32

abbreviation (input) USER_MODE :: u32 where "USER_MODE \<equiv> 0x10"
abbreviation (input) SVC_MODE :: u32 where "SVC_MODE \<equiv> 0x13"
abbreviation (input) MODE_MASK :: u32 where "MODE_MASK \<equiv> 0x1f"
abbreviation (input) NO_INT :: u32 where "NO_INT \<equiv> 0xc0"
abbreviation (input) KERNEL_STACK_SIZE :: u32 where "KERNEL_STACK_SIZE \<equiv> 0x1000"
abbreviation (input) PROCESS_USER_STACK_BASE :: u32 where "PROCESS_USER_STACK_BASE \<equiv> 0x80000000"
abbreviation (input) PROCESS_USER_EXEC_BASE :: u32 where "PROCESS_USER_EXEC_BASE \<equiv> 0x00401000"
abbreviation (input) PROCESS_USER_BASE :: u32 where "PROCESS_USER_BASE \<equiv> 0x00400000"

text \<open>The loop that counts the arguments of a program, over the words of \<^verbatim>\<open>argv\<close>.\<close>

partial_function (option) count_args :: "u32 \<Rightarrow> u32 \<Rightarrow> wmem \<Rightarrow> u32 option" where
  "count_args tmp n m = (if m tmp \<noteq> 0 then count_args (tmp + 4) (n + 1) m else Some n)"

definition arch_init_pt_regs :: "u32 \<Rightarrow> u32 \<Rightarrow> wmem \<Rightarrow> pt_regs option" where
  "arch_init_pt_regs fn arg m = do {
     (a0, a1, sp, pc, psr) \<leftarrow>
       (if fn \<noteq> NULL then Some (arg, 1, 13, fn, SVC_MODE)
        else do {
          n \<leftarrow> (if arg \<noteq> NULL then count_args arg 0 m else Some 0);
          Some (n, PROCESS_USER_BASE, PROCESS_USER_STACK_BASE, PROCESS_USER_EXEC_BASE, USER_MODE)
        });
     Some \<lparr>r_gen = [a0, a1, 2, 3, 4, 5, 6, 7, 8, 9, 10, 11, 12], r_spsr = 15, r_lr = 14, r_sp = sp,
           r_cpsr = psr, r_pc = pc\<rparr>
   }"

text \<open>\<^verbatim>\<open>*(--stack_base) = x\<close> for each \<open>x\<close> of a list.\<close>

fun push_words :: "u32 list \<Rightarrow> u32 \<Rightarrow> wmem \<Rightarrow> u32 \<times> wmem" where
  "push_words [] p m = (p, m)"
| "push_words (x # xs) p m = push_words xs (p - 4) (m(p - 4 := x))"

definition arch_set_up_task_stack :: "u32 \<Rightarrow> pt_regs \<Rightarrow> kstate \<Rightarrow> wmem \<Rightarrow> int \<times> kstate \<times> wmem" where
  "arch_set_up_task_stack t regs s m =
     (if stack_base (task s t) = NULL then (- EFAULT, s, m)
      else
        (let s = upd_task t (\<lambda>ts. ts\<lparr>stack_base := stack_origin ts\<rparr>) s;
             s = upd_task t (\<lambda>ts. ts\<lparr>stack_base := stack_base ts + KERNEL_STACK_SIZE\<rparr>) s;
             (p, m) = push_words ([r_pc regs, r_cpsr regs, r_sp regs, r_lr regs, r_spsr regs] @ rev (r_gen regs))
               (stack_base (task s t)) m
         in (0, upd_task t (\<lambda>ts. ts\<lparr>stack_base := p\<rparr>) s, m)))"

definition arch_set_task_return_value :: "pt_regs \<Rightarrow> u32 \<Rightarrow> kstate \<Rightarrow> pt_regs" where
  "arch_set_task_return_value regs t s = regs\<lparr>r_gen := (r_gen regs)[0 := word_of_int (t_pid (task s t))]\<rparr>"

section \<open>The registers of the processor\<close>

text \<open>
  \<open>c_sp\<close>, \<open>c_lr\<close> and \<open>c_spsr\<close> are the registers of the supervisor mode; the others have the name of their mode.
\<close>

record cpu =
  c_gen :: "u32 list"
  c_sp :: u32
  c_lr :: u32
  c_spsr :: u32
  c_sp_usr :: u32
  c_lr_usr :: u32
  c_cpsr :: u32
  c_pc :: u32
  c_sp_irq :: u32
  c_lr_irq :: u32
  c_spsr_irq :: u32
  c_sp_abt :: u32
  c_lr_abt :: u32
  c_spsr_abt :: u32
  c_sp_und :: u32
  c_lr_und :: u32
  c_spsr_und :: u32
  c_control :: u32    \<comment> \<open>register \<^verbatim>\<open>c1\<close> of the coprocessor \<^verbatim>\<open>p15\<close>\<close>

text \<open>
  The first part of \<^verbatim>\<open>arch_switch_task_sw\<close>, up to the call of \<^verbatim>\<open>switch_task\<close>: the stack pointer
  it stores afterwards in \<^verbatim>\<open>current->stack_base\<close>, and the stack.
\<close>

definition sw_save :: "cpu \<Rightarrow> wmem \<Rightarrow> u32 \<times> wmem" where
  "sw_save c m =
     (let (sp, m) = push_words [c_lr c] (c_sp c) m;
          sp = sp - 16;
          (sp, m) = push_words (rev (c_gen c)) sp m;
          m = m(sp + 64 := c_cpsr c);
          m = m(sp + 52 := c_spsr c);
          m = m(sp + 56 := c_lr c);
          m = m(sp + 60 := sp - 72)
      in (sp, m))"

text \<open>
  The second part: \<open>sp\<close> is \<^verbatim>\<open>next_run->stack_base\<close>.  The final \<^verbatim>\<open>ldmfd sp!, {pc}^\<close> copies
  \<^verbatim>\<open>spsr\<close> to \<^verbatim>\<open>cpsr\<close>.
\<close>

definition sw_load :: "u32 \<Rightarrow> wmem \<Rightarrow> cpu \<Rightarrow> cpu" where
  "sw_load sp m c =
     (let mode = m (sp + 64) AND MODE_MASK;
          c = (if mode = USER_MODE then c\<lparr>c_sp_usr := m (sp + 60), c_lr_usr := m (sp + 56)\<rparr> else c);
          c = (if mode = SVC_MODE then c\<lparr>c_lr := m (sp + 56), c_spsr := m (sp + 52)\<rparr> else c);
          c = c\<lparr>c_spsr := m (sp + 64)\<rparr>;
          c = c\<lparr>c_gen := map (\<lambda>i. m (sp + 4 * of_nat i)) [0..<13]\<rparr>;
          sp = sp + 52 + 16
      in c\<lparr>c_pc := m sp, c_sp := sp + 4, c_cpsr := c_spsr c\<rparr>)"

section \<open>What is on the stack\<close>

text \<open>The words \<open>xs\<close> from \<open>p\<close> upwards.\<close>

definition words_at :: "wmem \<Rightarrow> u32 \<Rightarrow> u32 list \<Rightarrow> bool" where
  "words_at m p xs \<longleftrightarrow> (\<forall>i < length xs. m (p + 4 * of_nat i) = xs ! i)"

definition frame_words :: "pt_regs \<Rightarrow> u32 list" where
  "frame_words r = r_gen r @ [r_spsr r, r_lr r, r_sp r, r_cpsr r, r_pc r]"

lemma word_step_inj:
  assumes "i < j" "j < 2 ^ 30"
  shows "q + 4 * of_nat i \<noteq> q + 4 * (of_nat j :: u32)"
proof
  assume "q + 4 * of_nat i = q + 4 * (of_nat j :: u32)"
  then have "(of_nat (4 * i) :: u32) = of_nat (4 * j)" by simp
  then have "unat (of_nat (4 * i) :: u32) = unat (of_nat (4 * j) :: u32)" by simp
  then show False using assms by (simp add: unat_of_nat_u32 del: of_nat_mult)
qed

lemma push_words_spec:
  assumes "length xs < 2 ^ 30" "push_words xs p m = (q, m')"
  shows "p = q + 4 * of_nat (length xs)" "words_at m' q (rev xs)"
    "(\<And>i. i < length xs \<Longrightarrow> a \<noteq> q + 4 * of_nat i) \<Longrightarrow> m' a = m a"
proof -
  have "p = q + 4 * of_nat (length xs) \<and> words_at m' q (rev xs) \<and>
    (\<forall>a. (\<forall>i < length xs. a \<noteq> q + 4 * of_nat i) \<longrightarrow> m' a = m a)"
    using assms
  proof (induction xs arbitrary: p m)
    case Nil
    then show ?case by (simp add: words_at_def)
  next
    case (Cons x xs)
    let ?n = "length xs"
    have n: "?n < 2 ^ 30" and run: "push_words xs (p - 4) (m(p - 4 := x)) = (q, m')" using Cons.prems by simp_all
    have IH: "p - 4 = q + 4 * of_nat ?n" "words_at m' q (rev xs)"
      "\<And>a. (\<And>i. i < ?n \<Longrightarrow> a \<noteq> q + 4 * of_nat i) \<Longrightarrow> m' a = (m(p - 4 := x)) a"
      using Cons.IH [OF n run] by blast+
    have p: "p = q + 4 * of_nat (Suc ?n)" using IH(1) by (simp add: algebra_simps)
    have last: "m' (q + 4 * of_nat ?n) = x"
      using IH(3) [of "q + 4 * of_nat ?n"] word_step_inj [of _ ?n q] Cons.prems(1) IH(1) by fastforce
    have "m' (q + 4 * of_nat i) = (rev xs @ [x]) ! i" if "i < Suc ?n" for i
      using that IH(2) last by (cases "i = ?n") (auto simp: words_at_def nth_append)
    moreover have "m' a = m a" if "\<forall>i < Suc ?n. a \<noteq> q + 4 * of_nat i" for a
      using IH(3) [of a] that IH(1) by simp
    ultimately show ?case using p by (simp add: words_at_def)
  qed
  then show "p = q + 4 * of_nat (length xs)" "words_at m' q (rev xs)"
    "(\<And>i. i < length xs \<Longrightarrow> a \<noteq> q + 4 * of_nat i) \<Longrightarrow> m' a = m a" by auto
qed

text \<open>A frame as \<^verbatim>\<open>arch_switch_task_sw\<close> finds it.\<close>

lemma all_less_add: "(\<forall>i < a + b. P i) \<longleftrightarrow> (\<forall>i < a. P i) \<and> (\<forall>i < (b :: nat). P (a + i))"
proof (intro iffI conjI allI impI)
  fix i assume P: "(\<forall>i < a. P i) \<and> (\<forall>i < b. P (a + i))" "i < a + b"
  then show "P i" by (cases "i < a") (auto dest: spec [of _ "i - a"])
qed auto

lemma words_at_append: "words_at m p (xs @ ys) \<longleftrightarrow> words_at m p xs \<and> words_at m (p + 4 * of_nat (length xs)) ys"
  by (simp add: words_at_def all_less_add nth_append algebra_simps)

lemma words_at_Cons: "words_at m p (x # xs) \<longleftrightarrow> m p = x \<and> words_at m (p + 4) xs"
  using words_at_append [of m p "[x]" xs] by (simp add: words_at_def)

lemma words_at_Nil: "words_at m p []"
  by (simp add: words_at_def)

lemma sw_load_frame:
  assumes w: "words_at m sp (frame_words r)" and len: "length (r_gen r) = 13"
  shows "c_gen (sw_load sp m c) = r_gen r" "c_pc (sw_load sp m c) = r_pc r" "c_cpsr (sw_load sp m c) = r_cpsr r"
    "c_sp (sw_load sp m c) = sp + 72"
    "r_cpsr r AND MODE_MASK = USER_MODE \<Longrightarrow> c_sp_usr (sw_load sp m c) = r_sp r \<and> c_lr_usr (sw_load sp m c) = r_lr r"
    "r_cpsr r AND MODE_MASK = SVC_MODE \<Longrightarrow> c_lr (sw_load sp m c) = r_lr r"
proof -
  have g: "words_at m sp (r_gen r)" and f: "m (sp + 52) = r_spsr r" "m (sp + 56) = r_lr r" "m (sp + 60) = r_sp r"
    "m (sp + 64) = r_cpsr r" "m (sp + 68) = r_pc r"
    using w len by (simp_all add: frame_words_def words_at_append words_at_Cons add.assoc)
  have "map (\<lambda>i. m (sp + 4 * of_nat i)) [0..<13] = r_gen r"
    using g len by (intro nth_equalityI) (auto simp: words_at_def)
  then show "c_gen (sw_load sp m c) = r_gen r" by (simp add: sw_load_def Let_def)
  show "c_pc (sw_load sp m c) = r_pc r" "c_cpsr (sw_load sp m c) = r_cpsr r" "c_sp (sw_load sp m c) = sp + 72"
    using f by (simp_all add: sw_load_def Let_def add.assoc)
  show "r_cpsr r AND MODE_MASK = USER_MODE \<Longrightarrow> c_sp_usr (sw_load sp m c) = r_sp r \<and> c_lr_usr (sw_load sp m c) = r_lr r"
    "r_cpsr r AND MODE_MASK = SVC_MODE \<Longrightarrow> c_lr (sw_load sp m c) = r_lr r"
    using f by (simp_all add: sw_load_def Let_def)
qed

lemma words_at_cong: "(\<And>i. i < length xs \<Longrightarrow> m' (p + 4 * of_nat i) = m (p + 4 * of_nat i)) \<Longrightarrow> words_at m p xs \<Longrightarrow> words_at m' p xs"
  by (simp add: words_at_def)

lemma sw_save_frame:
  assumes "sw_save c m = (sp, m')" and len: "length (c_gen c) = 13"
  shows "sp + 72 = c_sp c" "words_at m' sp (frame_words
    \<lparr>r_gen = c_gen c, r_spsr = c_spsr c, r_lr = c_lr c, r_sp = sp - 72, r_cpsr = c_cpsr c, r_pc = c_lr c\<rparr>)"
proof -
  obtain m1 m2 where p: "push_words (rev (c_gen c)) (c_sp c - 4 - 16) m1 = (sp, m2)" "m1 = m(c_sp c - 4 := c_lr c)"
    and m': "m' = m2(sp + 64 := c_cpsr c, sp + 52 := c_spsr c, sp + 56 := c_lr c, sp + 60 := sp - 72)"
    using assms(1) by (auto simp: sw_save_def Let_def split: prod.splits)
  have "length (rev (c_gen c)) < 2 ^ 30" using len by simp
  note ps = push_words_spec [OF this p(1)]
  show sp: "sp + 72 = c_sp c" using ps(1) len by (simp add: algebra_simps)
  have pc: "m2 (sp + 68) = c_lr c"
  proof -
    have "sp + 68 \<noteq> sp + 4 * of_nat i" if "i < 13" for i
      using word_step_inj [of i 17 sp] that by auto
    then have "m2 (sp + 68) = m1 (sp + 68)" using ps(3) [of "sp + 68"] len by simp
    moreover have "sp + 68 = c_sp c - 4" using sp by (simp add: algebra_simps)
    ultimately show ?thesis by (simp only: p(2) fun_upd_same)
  qed
  have "words_at m' sp (c_gen c)"
  proof (rule words_at_cong)
    show "words_at m2 sp (c_gen c)" using ps(2) by simp
    fix i assume "i < length (c_gen c)"
    then have i: "i < 13" using len by simp
    then show "m' (sp + 4 * of_nat i) = m2 (sp + 4 * of_nat i)"
      using word_step_inj [of i 16 sp] word_step_inj [of i 13 sp] word_step_inj [of i 14 sp] word_step_inj [of i 15 sp]
      by (simp add: m')
  qed
  moreover have "m' (sp + 52) = c_spsr c" "m' (sp + 56) = c_lr c" "m' (sp + 60) = sp - 72" "m' (sp + 64) = c_cpsr c"
    "m' (sp + 68) = c_lr c" using pc by (simp_all add: m')
  ultimately show "words_at m' sp (frame_words
    \<lparr>r_gen = c_gen c, r_spsr = c_spsr c, r_lr = c_lr c, r_sp = sp - 72, r_cpsr = c_cpsr c, r_pc = c_lr c\<rparr>)"
    using len by (simp add: frame_words_def words_at_append words_at_Cons words_at_Nil add.assoc)
qed

definition demo_cpu :: cpu where
  "demo_cpu = \<lparr>c_gen = map of_nat [100..<113], c_sp = 0xc0009000, c_lr = 0xc0000100, c_spsr = 0x10, c_sp_usr = 0x7ffff000,
     c_lr_usr = 0x401020, c_cpsr = 0x13, c_pc = 0xc0000200, c_sp_irq = 0xc000b000, c_lr_irq = 0, c_spsr_irq = 0, c_sp_abt = 0xc000c000,
     c_lr_abt = 0, c_spsr_abt = 0, c_sp_und = 0xc000d000, c_lr_und = 0, c_spsr_und = 0, c_control = 1\<rparr>"

section \<open>The first context of a task\<close>

lemma set_up_stack_frame:
  assumes "stack_base (task s t) \<noteq> NULL" "length (r_gen regs) = 13"
  shows "\<exists>sp m'. arch_set_up_task_stack t regs s m = (0, upd_task t (\<lambda>ts. ts\<lparr>stack_base := sp\<rparr>) s, m') \<and>
    sp + 72 = stack_origin (task s t) + KERNEL_STACK_SIZE \<and> words_at m' sp (frame_words regs) \<and>
    (\<forall>a. (\<forall>i < 18. a \<noteq> sp + 4 * of_nat i) \<longrightarrow> m' a = m a)"
proof -
  let ?xs = "[r_pc regs, r_cpsr regs, r_sp regs, r_lr regs, r_spsr regs] @ rev (r_gen regs)"
  let ?p = "stack_origin (task s t) + KERNEL_STACK_SIZE"
  obtain sp m' where run: "push_words ?xs ?p m = (sp, m')" by (cases "push_words ?xs ?p m")
  have len: "length ?xs = 18" using assms(2) by simp
  note ps = push_words_spec [OF _ run, unfolded len]
  have "upd_task t (\<lambda>ts. ts\<lparr>stack_base := x\<rparr>) (upd_task t (\<lambda>ts. ts\<lparr>stack_base := y\<rparr>)
      (upd_task t (\<lambda>ts. ts\<lparr>stack_base := z\<rparr>) s)) = upd_task t (\<lambda>ts. ts\<lparr>stack_base := x\<rparr>) s" for x y z
    by (simp add: upd_task_def)
  then have "arch_set_up_task_stack t regs s m = (0, upd_task t (\<lambda>ts. ts\<lparr>stack_base := sp\<rparr>) s, m')"
    using assms(1) run by (simp add: arch_set_up_task_stack_def upd_task_def)
  moreover have "words_at m' sp (frame_words regs)" using ps(2) by (simp add: frame_words_def)
  moreover have "sp + 72 = ?p" using ps(1) by simp
  moreover have "\<forall>a. (\<forall>i < 18. a \<noteq> sp + 4 * of_nat i) \<longrightarrow> m' a = m a" using ps(3) by simp
  ultimately show ?thesis by blast
qed

lemma init_pt_regs_kernel:
  "fn \<noteq> NULL \<Longrightarrow> arch_init_pt_regs fn arg m = Some \<lparr>r_gen = [arg, 1, 2, 3, 4, 5, 6, 7, 8, 9, 10, 11, 12], r_spsr = 15,
     r_lr = 14, r_sp = 13, r_cpsr = SVC_MODE, r_pc = fn\<rparr>"
  by (simp add: arch_init_pt_regs_def)

end
