(* ===== verification/Task.thy ===== *)
theory Task
  imports Slab MmBoot Lib Context Pid
begin

text \<open>
  Tasks, \<^verbatim>\<open>kernel/task.c\<close>: memory of a task, fork, switch of the page tables, release and kill.

  The page tables and the kernel stacks are in the memory of words \<open>wm\<close>, all other pages in the memory
  of bytes \<open>bm\<close>: no page is used as both.  A \<^verbatim>\<open>struct task_struct\<close> is known by its address.
\<close>

section \<open>State\<close>

record tstate =
  ss :: sstate
  wm :: wmem
  bm :: mem

abbreviation tk :: "tstate \<Rightarrow> kstate" where
  "tk s \<equiv> ks (sm (ss s))"

definition on_k :: "(kstate \<Rightarrow> kstate) \<Rightarrow> tstate \<Rightarrow> tstate" where
  "on_k f s = s\<lparr>ss := (ss s)\<lparr>sm := on_ks f (sm (ss s))\<rparr>\<rparr>"

definition kern_op :: "('a, kstate) kop \<Rightarrow> ('a, tstate) kop" where
  "kern_op f s = do { (r, k) \<leftarrow> f (tk s); Some (r, on_k (\<lambda>_. k) s) }"

definition slab_op :: "('a, sstate) kop \<Rightarrow> ('a, tstate) kop" where
  "slab_op f s = do { (r, t) \<leftarrow> f (ss s); Some (r, s\<lparr>ss := t\<rparr>) }"

abbreviation (input) kdo :: "(tstate \<Rightarrow> tstate) \<Rightarrow> (unit, tstate) kop" where
  "kdo f \<equiv> kmod (\<lambda>s. Some (f s))"

fun page_entry :: "node \<Rightarrow> int option" where
  "page_entry (N_page p) = Some (uint p)"
| "page_entry _ = None"

fun p_entry :: "node \<Rightarrow> u32 option" where
  "p_entry (N_p t) = Some t"
| "p_entry _ = None"

fun mutex_entry :: "node \<Rightarrow> mutex_ref option" where
  "mutex_entry (M_task m) = Some m"
| "mutex_entry _ = None"

abbreviation (input) PROCESS_MAP_STACK :: u32 where "PROCESS_MAP_STACK \<equiv> 0"
abbreviation (input) PROCESS_MAP_ELF :: u32 where "PROCESS_MAP_ELF \<equiv> 1"
abbreviation (input) PROCESS_MAP_MASK :: u32 where "PROCESS_MAP_MASK \<equiv> 0xf"
abbreviation (input) PROCESS_STACK_SIZE :: u32 where "PROCESS_STACK_SIZE \<equiv> 0x4000"
abbreviation (input) PROCESS_IMAGE_SIZE :: u32 where "PROCESS_IMAGE_SIZE \<equiv> 0x100000"

text \<open>\<^verbatim>\<open>sizeof(struct task_struct)\<close> with four-byte enumerations.\<close>

definition TASK_STRUCT_SIZE :: int where
  "TASK_STRUCT_SIZE = 220"

section \<open>Initialisation of the structure\<close>

definition init_mm_struct :: "u32 \<Rightarrow> u32 \<Rightarrow> kstate \<Rightarrow> kstate" where
  "init_mm_struct t user_sp k =
     (if t_flag (task k t) AND PROCESS_TYPE_USER \<noteq> 0 then
        (let mmp = t_mm (task k (t_parent (task k t)));
             k = upd_task t (\<lambda>ts. ts\<lparr>t_mm := \<lparr>elf_size = elf_size mmp,
               stack_size = sint (PROCESS_USER_STACK_BASE - user_sp), stack_curr = None, elf_curr = None\<rparr>\<rparr>) k
         in on_lists (\<lambda>h. init_list (N_elf_image_list t) (init_list (N_elf_stack_list t)
              (init_list (N_elf_list t) (init_list (N_stack_list t) h)))) k)
      else k)"

text \<open>\<^verbatim>\<open>strncpy\<close> into the name: 16 bytes, whatever they are.\<close>

definition copy_name :: "u8 list \<Rightarrow> task_struct \<Rightarrow> task_struct" where
  "copy_name n ts = ts\<lparr>t_name := take PROCESS_NAME_SIZE n @ drop PROCESS_NAME_SIZE (t_name ts)\<rparr>"

definition init_task_fields :: "u32 \<Rightarrow> u32 \<Rightarrow> u32 \<Rightarrow> kstate \<Rightarrow> kstate" where
  "init_task_fields t parent flag k =
     (let p = task k parent;
          k = upd_task t (\<lambda>ts. ts\<lparr>t_uid := t_uid p, stack_base := NULL\<rparr>) k;
          k = upd_task t (copy_name (t_name p)) k;
          k = upd_task t (\<lambda>ts. ts\<lparr>t_flag := flag, t_state := PROCESS_STATE_PREPARE, t_parent := parent\<rparr>) k;
          k = on_lists (init_list (N_p t)) k;
          k = on_lists (init_list (N_child t)) k;
          k = init_mutex (TaskMutex t) k;
          (flags, k) = enter_critical k;
          k = on_lists (list_add (N_child parent) (N_p t)) k
      in exit_critical flags k)"

definition init_task_struct :: "u32 \<Rightarrow> u32 \<Rightarrow> (int, tstate) kop" where
  "init_task_struct t flag =
     (\<lambda>s. let parent = (if flag AND PROCESS_TYPE_KERNEL \<noteq> 0 then idle (tk s) else current (tk s)) in
      kthen (kern_op (get_new_pid t)) (\<lambda>pid.
      kthen (kdo (on_k (upd_task t (\<lambda>ts. ts\<lparr>t_pid := pid\<rparr>)))) (\<lambda>_.
      if pid < 0 then kret (- EINVAL)
      else kthen (kdo (on_k (init_task_fields t parent flag))) (\<lambda>_. kret 0))) s)"

section \<open>Release of the memory\<close>

text \<open>\<^verbatim>\<open>_release_task_memory\<close>; the node keeps its links when it is taken off the list.\<close>

partial_function (option) release_list :: "node \<Rightarrow> node \<Rightarrow> tstate \<Rightarrow> (unit option \<times> tstate) option" where
  "release_list head l s =
     (if l = head then Some (Some (), s)
      else do {
        pg \<leftarrow> page_entry l;
        let s = on_k (on_lists (list_del l)) s;
        (r, s) \<leftarrow> slab_op (mm_op (free_pages (page_to_va pg (sm (ss s))))) s;
        if r = None then Some (None, s) else release_list head (lnext (lists (tk s)) l) s
      })"

definition release_task_list :: "node \<Rightarrow> (unit, tstate) kop" where
  "release_task_list head s = release_list head (lnext (lists (tk s)) head) s"

definition release_task_page_table :: "u32 \<Rightarrow> (unit, tstate) kop" where
  "release_task_page_table t = kthen (release_task_list (N_stack_list t)) (\<lambda>_. release_task_list (N_elf_list t))"

definition release_task_pages :: "u32 \<Rightarrow> (unit, tstate) kop" where
  "release_task_pages t = kthen (release_task_list (N_elf_stack_list t)) (\<lambda>_. release_task_list (N_elf_image_list t))"

definition release_kernel_stack :: "u32 \<Rightarrow> (unit, tstate) kop" where
  "release_kernel_stack t =
     (\<lambda>s. kthen (if stack_origin (task (tk s) t) \<noteq> NULL
                 then slab_op (mm_op (free_pages (stack_origin (task (tk s) t)))) else kret ()) (\<lambda>_.
          kdo (on_k (upd_task t (\<lambda>ts. ts\<lparr>stack_base := NULL, stack_origin := NULL\<rparr>)))) s)"

definition release_task_memory :: "u32 \<Rightarrow> (unit, tstate) kop" where
  "release_task_memory t =
     (\<lambda>s. kthen (if t_flag (task (tk s) t) AND PROCESS_TYPE_USER \<noteq> 0
                 then kthen (release_task_pages t) (\<lambda>_. release_task_page_table t) else kret ()) (\<lambda>_.
          release_kernel_stack t) s)"

section \<open>Allocation of the memory\<close>

text \<open>
  One of the two loops of \<^verbatim>\<open>alloc_page_table\<close>; \<open>off\<close> is added to the free address of the page.  The
  result says whether every page was allocated.
\<close>

fun alloc_pgt_loop :: "nat \<Rightarrow> node \<Rightarrow> u32 \<Rightarrow> (bool, tstate) kop" where
  "alloc_pgt_loop 0 head off = kret True"
| "alloc_pgt_loop (Suc n) head off =
     kthen (slab_op (mm_op (get_free_page GFP_PGT))) (\<lambda>addr.
     if addr = NULL then kret False
     else kthen (\<lambda>s. let pg = va_to_page addr (sm (ss s)) in
            kthen (slab_op (kmod (page_upd pg (\<lambda>p. p\<lparr>pg_free_base := pg_free_base p + off\<rparr>)))) (\<lambda>_.
            kdo (on_k (on_lists (list_add_tail head (N_page (word_of_int pg)))))) s) (\<lambda>_.
          alloc_pgt_loop n head off))"

definition alloc_page_table :: "u32 \<Rightarrow> (int, tstate) kop" where
  "alloc_page_table t =
     (let s = nat (uint (drop_bit 20 (PROCESS_STACK_SIZE + SIZE_1M - 1)));
          e = nat (uint (drop_bit 20 (PROCESS_IMAGE_SIZE + SIZE_1M - 1)));
          error = kthen (release_task_page_table t) (\<lambda>_. kret (- ENOMEM))
      in kthen (alloc_pgt_loop s (N_stack_list t) (PAGE_SIZE - 4)) (\<lambda>ok.
         if \<not> ok then error
         else kthen (kdo (on_k (\<lambda>k. upd_task t (\<lambda>ts. ts\<lparr>t_mm := (t_mm ts)\<lparr>stack_curr :=
                Some (list_next (N_stack_list t) (lists k))\<rparr>\<rparr>) k))) (\<lambda>_.
              kthen (alloc_pgt_loop e (N_elf_list t) 0) (\<lambda>ok.
              if \<not> ok then error
              else kthen (kdo (on_k (\<lambda>k. upd_task t (\<lambda>ts. ts\<lparr>t_mm := (t_mm ts)\<lparr>elf_curr :=
                     Some (list_next (N_elf_list t) (lists k))\<rparr>\<rparr>) k))) (\<lambda>_. kret 0)))))"

text \<open>The search of \<^verbatim>\<open>task_map_memory\<close> for a page table with room.\<close>

partial_function (option) find_pgt :: "node option \<Rightarrow> tstate \<Rightarrow> int option option" where
  "find_pgt l s =
     (case l of
        None \<Rightarrow> Some None
      | Some n \<Rightarrow> do {
          pg \<leftarrow> page_entry n;
          p \<leftarrow> page_read pg (sm (ss s));
          if pg_free_size p = 0 then find_pgt (Some (list_next n (lists (tk s)))) s else Some (Some pg)
        })"

definition task_map_memory :: "u32 \<Rightarrow> u32 \<Rightarrow> u32 \<Rightarrow> tstate \<Rightarrow> (int \<times> tstate) option" where
  "task_map_memory addr t flag s =
     (let ms = t_mm (task (tk s) t); flag_new = flag AND PROCESS_MAP_MASK in
      if flag_new \<noteq> PROCESS_MAP_STACK \<and> flag_new \<noteq> PROCESS_MAP_ELF then Some (- EINVAL, s)
      else do {
        r \<leftarrow> find_pgt (if flag_new = PROCESS_MAP_STACK then stack_curr ms else elf_curr ms) s;
        case r of
          None \<Rightarrow> Some (- ENOMEM, s)
        | Some pg \<Rightarrow> do {
            p \<leftarrow> page_read pg (sm (ss s));
            (_, w) \<leftarrow> build_page_table_entry (pg_free_base p) addr PAGE_SIZE 0 (sm (ss s)) (wm s);
            t \<leftarrow> page_upd pg (\<lambda>p. p\<lparr>pg_free_base := (if flag_new = PROCESS_MAP_ELF then pg_free_base p + 4 else pg_free_base p - 4),
              pg_free_size := pg_free_size p - 4\<rparr>) (ss s);
            Some (0, s\<lparr>ss := t, wm := w\<rparr>)
          }
      })"

text \<open>One of the two loops of \<^verbatim>\<open>alloc_memory_and_map\<close>.\<close>

fun alloc_map_loop :: "nat \<Rightarrow> u32 \<Rightarrow> u32 \<Rightarrow> node \<Rightarrow> (bool, tstate) kop" where
  "alloc_map_loop 0 t flag head = kret True"
| "alloc_map_loop (Suc n) t flag head =
     kthen (slab_op (mm_op (get_free_page GFP_KERNEL))) (\<lambda>addr.
     if addr = NULL then kret False
     else kthen (kmod (\<lambda>s. do {
            (_, s) \<leftarrow> task_map_memory addr t flag s;
            let pg = va_to_page addr (sm (ss s));
            Some (on_k (on_lists (list_add_tail head (N_page (word_of_int pg)))) s)
          })) (\<lambda>_. alloc_map_loop n t flag head))"

definition alloc_memory_and_map :: "u32 \<Rightarrow> (int, tstate) kop" where
  "alloc_memory_and_map t =
     (let s = uint (page_nr PROCESS_STACK_SIZE); e = uint (page_nr PROCESS_IMAGE_SIZE);
          out = kthen (release_task_memory t) (\<lambda>_. kret (- ENOMEM))
      in kthen (kread (\<lambda>st. mm_free_page 0 (sm (ss st)))) (\<lambda>free.
         if free < word_of_int (s + e) then kret (- ENOMEM)
         else kthen (alloc_map_loop (nat s) t PROCESS_MAP_STACK (N_elf_stack_list t)) (\<lambda>ok.
           if \<not> ok then out
           else kthen (alloc_map_loop (nat e) t PROCESS_MAP_ELF (N_elf_image_list t)) (\<lambda>ok.
             if \<not> ok then out else kret 0))))"

definition alloc_kernel_stack :: "u32 \<Rightarrow> (int, tstate) kop" where
  "alloc_kernel_stack t =
     (\<lambda>s. if stack_base (task (tk s) t) \<noteq> NULL then kret (- EINVAL) s
          else kthen (slab_op (mm_op (get_free_pages (uint (drop_bit PAGE_SHIFT KERNEL_STACK_SIZE)) GFP_KERNEL))) (\<lambda>a.
               kthen (kdo (on_k (upd_task t (\<lambda>ts. ts\<lparr>stack_base := a, stack_origin := a\<rparr>)))) (\<lambda>_.
               kret (if a = NULL then - ENOMEM else 0))) s)"

definition alloc_memory_for_task :: "u32 \<Rightarrow> (int, tstate) kop" where
  "alloc_memory_for_task t =
     (let error = kthen (release_kernel_stack t) (\<lambda>_. kret (- ENOMEM)) in
      kthen (alloc_kernel_stack t) (\<lambda>ret.
      if ret \<noteq> 0 then kret ret
      else (\<lambda>s. if t_flag (task (tk s) t) AND PROCESS_TYPE_USER \<noteq> 0 then
             kthen (alloc_page_table t) (\<lambda>ret.
             if ret \<noteq> 0 then error
             else kthen (alloc_memory_and_map t) (\<lambda>ret. if ret \<noteq> 0 then error else kret ret)) s
           else kret ret s)))"

section \<open>Copy of the parent\<close>

text \<open>One of the two loops of \<^verbatim>\<open>copy_process_memory\<close>.\<close>

fun copy_pages_loop :: "nat \<Rightarrow> node \<Rightarrow> node \<Rightarrow> tstate \<Rightarrow> tstate option" where
  "copy_pages_loop 0 old new s = Some s"
| "copy_pages_loop (Suc n) old new s = do {
     let old = list_next old (lists (tk s));
     let new = list_next new (lists (tk s));
     po \<leftarrow> page_entry old;
     pn \<leftarrow> page_entry new;
     copy_pages_loop n old new
       (s\<lparr>bm := copy_page_va (page_to_va pn (sm (ss s))) (page_to_va po (sm (ss s))) (bm s)\<rparr>)
   }"

text \<open>\<^verbatim>\<open>flush_cache\<close> has no effect on the memory the model has.\<close>

definition copy_process_memory :: "u32 \<Rightarrow> u32 \<Rightarrow> tstate \<Rightarrow> (int \<times> tstate) option" where
  "copy_process_memory old new st = do {
     let mm = t_mm (task (tk st) new);
     let s = int_aligin (stack_size mm) 4096 div 2 ^ PAGE_SHIFT;
     let e = int_aligin (elf_size mm + 4096) 4096 div 2 ^ PAGE_SHIFT;
     st \<leftarrow> copy_pages_loop (nat s) (N_elf_stack_list old) (N_elf_stack_list new) st;
     st \<leftarrow> copy_pages_loop (nat e) (N_elf_image_list old) (N_elf_image_list new) st;
     Some (0, st)
   }"

definition copy_process :: "u32 \<Rightarrow> tstate \<Rightarrow> (int \<times> tstate) option" where
  "copy_process new s =
     (let old = t_parent (task (tk s) new) in
      if old \<noteq> NULL then do { (_, s) \<leftarrow> copy_process_memory old new s; Some (0, s) } else Some (0, s))"

section \<open>Switch\<close>

text \<open>The loops of \<^verbatim>\<open>switch_task\<close>: \<open>down\<close> for the stack, whose addresses descend.\<close>

partial_function (option) load_page_tables :: "bool \<Rightarrow> node \<Rightarrow> node \<Rightarrow> u32 \<Rightarrow> tstate \<Rightarrow> tstate option" where
  "load_page_tables down head l base s =
     (if l = head then Some s
      else do {
        pg \<leftarrow> page_entry l;
        pa \<leftarrow> page_to_pa pg (sm (ss s));
        (_, w) \<leftarrow> build_tlb_table_entry (if down then base - 4 * SIZE_1M else base) pa (4 * SIZE_1M) TLB_ATTR_USER_MEMORY (wm s);
        load_page_tables down head (lnext (lists (tk s)) l) (if down then base - 4 * SIZE_1M else base + 4 * SIZE_1M) (s\<lparr>wm := w\<rparr>)
      })"

definition switch_task :: "u32 \<Rightarrow> u32 \<Rightarrow> tstate \<Rightarrow> (int \<times> tstate) option" where
  "switch_task cur nxt s =
     (if cur = NULL \<or> nxt = NULL then Some (- EINVAL, s)
      else if t_flag (task (tk s) nxt) AND PROCESS_TYPE_KERNEL \<noteq> 0 then Some (0, s)
      else do {
        s \<leftarrow> load_page_tables True (N_stack_list nxt) (lnext (lists (tk s)) (N_stack_list nxt)) PROCESS_USER_STACK_BASE s;
        s \<leftarrow> load_page_tables False (N_elf_list nxt) (lnext (lists (tk s)) (N_elf_list nxt)) PROCESS_USER_BASE s;
        Some (0, s)
      })"

section \<open>Fork\<close>

text \<open>
  \<open>name\<close> is \<^const>\<open>None\<close> for the null pointer, otherwise the bytes from the name on; \<open>page_base\<close>, the
  address of the page array, is for \<^verbatim>\<open>kfree\<close>.
\<close>

definition fork_new_task :: "u32 \<Rightarrow> u8 list option \<Rightarrow> u32 \<Rightarrow> u32 \<Rightarrow> (u32, tstate) kop" where
  "fork_new_task page_base name user_sp flag =
     kthen (slab_op (kmalloc TASK_STRUCT_SIZE GFP_KERNEL)) (\<lambda>new.
     if new = NULL then kret NULL
     else
       (let exit = (\<lambda>ret. if ret \<noteq> 0 then kthen (slab_op (kfree page_base new)) (\<lambda>_. kret NULL) else kret new) in
        kthen (init_task_struct new flag) (\<lambda>ret.
        if ret \<noteq> 0 then exit ret
        else
          kthen (kdo (on_k (init_mm_struct new user_sp))) (\<lambda>_.
          kthen (kdo (on_k (init_sched_struct new))) (\<lambda>_.
          kthen (kdo (on_k (case name of None \<Rightarrow> (\<lambda>k. k) | Some n \<Rightarrow> upd_task new (copy_name n)))) (\<lambda>_.
          kthen (alloc_memory_for_task new) (\<lambda>ret. exit ret)))))))"

definition do_fork :: "u32 \<Rightarrow> u8 list option \<Rightarrow> pt_regs \<Rightarrow> u32 \<Rightarrow> u32 \<Rightarrow> (int \<times> pt_regs, tstate) kop" where
  "do_fork page_base name regs user_sp flag =
     kthen (fork_new_task page_base name user_sp flag) (\<lambda>new.
     if new = NULL then kret (- ENOMEM, regs)
     else (\<lambda>s. do {
       s \<leftarrow> (if flag AND PROCESS_TYPE_USER \<noteq> 0 then do { (_, s) \<leftarrow> copy_process new s; Some s } else Some s);
       let regs = (if flag AND PROCESS_FLAG_FORK \<noteq> 0 then arch_set_task_return_value regs new (tk s) else regs);
       let (_, k, w) = arch_set_up_task_stack new regs (tk s) (wm s);
       let s = on_k (\<lambda>_. k) (s\<lparr>wm := w\<rparr>);
       k \<leftarrow> set_task_state new PROCESS_STATE_PREPARE (tk s);
       Some (Some (0, regs), on_k (\<lambda>_. k) s)
     }))"

definition kthread_run :: "u32 \<Rightarrow> u8 list option \<Rightarrow> u32 \<Rightarrow> u32 \<Rightarrow> (int, tstate) kop" where
  "kthread_run page_base name fn arg s = do {
     regs \<leftarrow> arch_init_pt_regs fn arg (wm s);
     kthen (do_fork page_base name regs 0 PROCESS_TYPE_KERNEL) (\<lambda>(ret, _). kret ret) s
   }"

text \<open>\<^verbatim>\<open>sys_fork\<close> of \<^verbatim>\<open>arch/arm/machine/syscall.c\<close> on the registers of the caller.\<close>

definition sys_fork :: "u32 \<Rightarrow> pt_regs \<Rightarrow> (int \<times> pt_regs, tstate) kop" where
  "sys_fork page_base regs = do_fork page_base None regs (r_sp regs) (PROCESS_TYPE_USER OR PROCESS_FLAG_FORK)"

section \<open>Kill\<close>

definition release_task :: "u32 \<Rightarrow> u32 \<Rightarrow> (unit, tstate) kop" where
  "release_task page_base t =
     (if t \<noteq> NULL then kthen (release_task_memory t) (\<lambda>_. slab_op (kfree page_base t)) else kret ())"

text \<open>
  The loop of \<^verbatim>\<open>kill_task\<close> over the children: the child is put in another list before the loop goes on to
  the next node.
\<close>

partial_function (option) adopt_children :: "u32 \<Rightarrow> node \<Rightarrow> kstate \<Rightarrow> kstate option" where
  "adopt_children t l k =
     (if l = N_child t then Some k
      else do {
        c \<leftarrow> p_entry l;
        let k = upd_task c (\<lambda>ts. ts\<lparr>t_parent := t_parent (task k t)\<rparr>) k;
        let k = on_lists (list_add_tail (N_child (t_parent (task k t))) l) k;
        adopt_children t (lnext (lists k) l) k
      })"

partial_function (option) unlock_all :: "u32 \<Rightarrow> node \<Rightarrow> kstate \<Rightarrow> kstate option" where
  "unlock_all t l k =
     (if l = N_mutex_get t then Some k
      else do {
        m \<leftarrow> mutex_entry l;
        k \<leftarrow> mutex_unlock m k;
        unlock_all t (lnext (lists k) l) k
      })"

text \<open>The critical section of \<^verbatim>\<open>kill_task\<close>.\<close>

definition unlink_task :: "u32 \<Rightarrow> kstate \<Rightarrow> kstate option" where
  "unlink_task t k = do {
     let (flags, k) = enter_critical k;
     let k = on_lists (list_del (N_p t)) k;
     k \<leftarrow> adopt_children t (lnext (lists k) (N_child t)) k;
     let k = (if \<not> is_list_empty (N_wait t) (lists k) then on_lists (list_del (N_wait t)) k else k);
     k \<leftarrow> unlock_all t (lnext (lists k) (N_mutex_get t)) k;
     Some (exit_critical flags k)
   }"

definition kill_task :: "u32 \<Rightarrow> u32 \<Rightarrow> (int, tstate) kop" where
  "kill_task page_base t =
     (if t = NULL then kret (- EINVAL)
      else
        kthen (kern_op (kmod (set_task_state t PROCESS_STATE_IDLE))) (\<lambda>_.
        kthen (kern_op (sched_remove_task t)) (\<lambda>ret.
        if ret \<noteq> 0 then kret ret
        else
          kthen (kern_op (kmod (unlink_task t))) (\<lambda>_.
          kthen (release_task page_base t) (\<lambda>_. kret 0)))))"

end
