(* ===== verification/TaskProps.thy ===== *)
theory TaskProps
  imports Task SlabProps MmBootProps
begin

text \<open>
  Properties of the task code: the page tables the processor uses after a switch, and the first run of a
  new kernel thread.
\<close>

section \<open>Switch of the page tables\<close>

definition user_des :: "u32 \<Rightarrow> u32 \<Rightarrow> u32" where
  "user_des pa k = ((pa + 0x400 * k) AND 0xfffffc00) OR CURDE_PAGE_TABLE"

lemma user_attr: "get_tlb_attr TLB_ATTR_USER_MEMORY = CURDE_PAGE_TABLE"
  by (simp add: get_tlb_attr_def arch_get_tlb_attr_def)

lemma user_tlb_des: "build_tlb_des (pa + 0x400 * k) CURDE_PAGE_TABLE = user_des pa k"
  by (simp add: build_tlb_des_def arch_build_tlb_des_def user_des_def CURDE_PAGE_TABLE_def)

lemma build_user_entries:
  assumes "is_aligin v SIZE_1M"
  shows "build_tlb_table_entry v pa (4 * SIZE_1M) TLB_ATTR_USER_MEMORY m =
    (let t = get_tlb_base + 4 * drop_bit 20 v in
     Some (0, m(t := user_des pa 0, t + 4 := user_des pa 1, t + 8 := user_des pa 2, t + 12 := user_des pa 3)))"
proof -
  have "sint (4 * SIZE_1M) div 2 ^ 20 = 4" "is_aligin (4 * SIZE_1M) SIZE_1M" by (simp_all add: is_aligin_def)
  then show ?thesis
    using assms user_tlb_des [of pa 0] user_tlb_des [of pa 1] user_tlb_des [of pa 2] user_tlb_des [of pa 3]
    by (simp add: build_tlb_table_entry_def user_attr for_loop_step Let_def add.assoc)
qed

lemma load_one_page_table:
  assumes rel: "list_rel (lists (tk s)) F" and l: "F head = Some [N_page p]" "N_page p \<noteq> head"
    and pg: "page_read (uint p) (sm (ss s)) = Some P" and v: "v = (if down then base - 4 * SIZE_1M else base)" "is_aligin v SIZE_1M"
  shows "load_page_tables down head (lnext (lists (tk s)) head) base s =
    (let t = get_tlb_base + 4 * drop_bit 20 v; pa = phy_address P in
     Some (s\<lparr>wm := (wm s)(t := user_des pa 0, t + 4 := user_des pa 1, t + 8 := user_des pa 2, t + 12 := user_des pa 3)\<rparr>))"
proof -
  have d: "dlist (lists (tk s)) head [N_page p]" by (rule list_rel_dlist [OF rel l(1)])
  then have n: "lnext (lists (tk s)) head = N_page p" "lnext (lists (tk s)) (N_page p) = head"
    by (simp_all add: dlist_def)
  have pa: "page_to_pa (uint p) (sm (ss s)) = Some (phy_address P)" using pg by (simp add: page_to_pa_def)
  have fin: "load_page_tables down head head b t = Some t" for b t by (subst load_page_tables.simps) simp
  show ?thesis
    unfolding n(1) using l(2) pa v build_user_entries [OF v(2)] n(2) fin
    by (subst load_page_tables.simps) (auto simp: Let_def)
qed

lemma des_addr_inj:
  assumes "unat a < 4096" "unat b < 4096"
  shows "get_tlb_base + 4 * a = get_tlb_base + 4 * b \<longleftrightarrow> a = b"
proof -
  have "unat a = unat b" if "get_tlb_base + 4 * a = get_tlb_base + 4 * b"
  proof -
    have "unat (4 * a) = unat (4 * b)" using that by simp
    moreover have "unat (4 * a) = 4 * unat a" using assms unat_mult_u32 [of 4 a] by simp
    moreover have "unat (4 * b) = 4 * unat b" using assms unat_mult_u32 [of 4 b] by simp
    ultimately show ?thesis by simp
  qed
  then show ?thesis by (metis word_unat_eq_iff)
qed

lemma megabyte_range:
  assumes "unat lo = a * 2 ^ 20" "unat hi = b * 2 ^ 20"
  shows "lo \<le> va \<and> va < hi \<longleftrightarrow> a \<le> unat (drop_bit 20 va :: u32) \<and> unat (drop_bit 20 va :: u32) < b"
proof -
  have u: "unat (drop_bit 20 va :: u32) = unat va div 2 ^ 20" by (simp add: unat_drop_bit)
  have "a * 2 ^ 20 \<le> unat va \<longleftrightarrow> a \<le> unat va div 2 ^ 20" by (simp add: less_eq_div_iff_mult_less_eq)
  moreover have "unat va < b * 2 ^ 20 \<longleftrightarrow> unat va div 2 ^ 20 < b" by (simp add: div_less_iff_less_mult)
  ultimately show ?thesis unfolding word_le_nat_alt word_less_nat_alt u assms by simp
qed

lemma megabyte_bound: "unat (drop_bit 20 va :: u32) < 4096"
  using unsigned_less [of va, where 'a = nat] by (simp add: unat_drop_bit div_less_iff_less_mult)

text \<open>The descriptors of the stack and of the image of a task whose page tables are at \<open>p\<close> and \<open>q\<close>.\<close>

definition user_tables :: "u32 \<Rightarrow> u32 \<Rightarrow> wmem \<Rightarrow> wmem" where
  "user_tables p q m = m(get_tlb_base + 4 * 0x7fc := user_des p 0, get_tlb_base + 4 * 0x7fd := user_des p 1,
     get_tlb_base + 4 * 0x7fe := user_des p 2, get_tlb_base + 4 * 0x7ff := user_des p 3,
     get_tlb_base + 4 * 4 := user_des q 0, get_tlb_base + 4 * 5 := user_des q 1,
     get_tlb_base + 4 * 6 := user_des q 2, get_tlb_base + 4 * 7 := user_des q 3)"

lemma switch_user_task:
  assumes "list_rel (lists (tk s)) F" and t: "cur \<noteq> NULL" "nxt \<noteq> NULL" "t_flag (task (tk s) nxt) AND PROCESS_TYPE_KERNEL = 0"
    and st: "F (N_stack_list nxt) = Some [N_page p]" "page_read (uint p) (sm (ss s)) = Some P"
    and el: "F (N_elf_list nxt) = Some [N_page q]" "page_read (uint q) (sm (ss s)) = Some Q"
  shows "switch_task cur nxt s = Some (0, s\<lparr>wm := user_tables (phy_address P) (phy_address Q) (wm s)\<rparr>)"
proof -
  let ?g = "\<lambda>k. get_tlb_base + 4 * k :: u32"
  let ?w1 = "(wm s)(?g 0x7fc := user_des (phy_address P) 0, ?g 0x7fd := user_des (phy_address P) 1,
    ?g 0x7fe := user_des (phy_address P) 2, ?g 0x7ff := user_des (phy_address P) 3)"
  let ?w = "?w1(?g 4 := user_des (phy_address Q) 0, ?g 5 := user_des (phy_address Q) 1,
    ?g 6 := user_des (phy_address Q) 2, ?g 7 := user_des (phy_address Q) 3)"
  have "load_page_tables True (N_stack_list nxt) (lnext (lists (tk s)) (N_stack_list nxt)) PROCESS_USER_STACK_BASE s = Some (s\<lparr>wm := ?w1\<rparr>)"
    using load_one_page_table [OF assms(1) st(1) _ st(2), of "0x7fc00000" True "0x80000000"] by (simp add: is_aligin_def Let_def add.assoc)
  moreover have "load_page_tables False (N_elf_list nxt) (lnext (lists (tk s)) (N_elf_list nxt)) PROCESS_USER_BASE (s\<lparr>wm := ?w1\<rparr>) = Some (s\<lparr>wm := ?w\<rparr>)"
    using load_one_page_table [of "s\<lparr>wm := ?w1\<rparr>" F "N_elf_list nxt" q Q "0x400000" False "0x400000"] assms(1) el
    by (simp add: is_aligin_def Let_def add.assoc)
  ultimately show ?thesis using t unfolding user_tables_def by (simp add: switch_task_def)
qed

text \<open>
  C25. After \<^verbatim>\<open>switch_task\<close> to a user task the first-level descriptor of every address of its stack (the
  4 MB below \<open>0x80000000\<close>) and of its image (4 MB from \<open>0x400000\<close>) points to the part of the task's own
  page-table page for that megabyte; all other descriptors and the rest of the state are unchanged.
\<close>

theorem switch_task_installs:
  assumes "list_rel (lists (tk s)) F" and t: "cur \<noteq> NULL" "nxt \<noteq> NULL" "t_flag (task (tk s) nxt) AND PROCESS_TYPE_KERNEL = 0"
    and st: "F (N_stack_list nxt) = Some [N_page p]" "page_read (uint p) (sm (ss s)) = Some P"
    and el: "F (N_elf_list nxt) = Some [N_page q]" "page_read (uint q) (sm (ss s)) = Some Q"
  shows "\<exists>w. switch_task cur nxt s = Some (0, s\<lparr>wm := w\<rparr>) \<and>
    (\<forall>va. w (get_tlb_base + 4 * drop_bit 20 va) =
      (let mb = drop_bit 20 va in
       if 0x7fc00000 \<le> va \<and> va < 0x80000000 then user_des (phy_address P) (mb - 0x7fc)
       else if 0x400000 \<le> va \<and> va < 0x800000 then user_des (phy_address Q) (mb - 4)
       else wm s (get_tlb_base + 4 * mb)))"
proof -
  let ?g = "\<lambda>k. get_tlb_base + 4 * k :: u32"
  let ?w = "(wm s)(?g 0x7fc := user_des (phy_address P) 0, ?g 0x7fd := user_des (phy_address P) 1,
    ?g 0x7fe := user_des (phy_address P) 2, ?g 0x7ff := user_des (phy_address P) 3,
    ?g 4 := user_des (phy_address Q) 0, ?g 5 := user_des (phy_address Q) 1,
    ?g 6 := user_des (phy_address Q) 2, ?g 7 := user_des (phy_address Q) 3)"
  have "switch_task cur nxt s = Some (0, s\<lparr>wm := ?w\<rparr>)"
    using switch_user_task [OF assms] unfolding user_tables_def .
  moreover have "?w (get_tlb_base + 4 * drop_bit 20 va) = (let mb = drop_bit 20 va in
       if 0x7fc00000 \<le> va \<and> va < 0x80000000 then user_des (phy_address P) (mb - 0x7fc)
       else if 0x400000 \<le> va \<and> va < 0x800000 then user_des (phy_address Q) (mb - 4)
       else wm s (get_tlb_base + 4 * mb))" for va
  proof -
    let ?mb = "drop_bit 20 va :: u32"
    have ne: "?g ?mb \<noteq> ?g k" if "unat k < 4096" "unat ?mb \<noteq> unat k" for k
      using that(2) des_addr_inj [OF megabyte_bound [of va] that(1)] by auto
    have r1: "0x7fc00000 \<le> va \<and> va < 0x80000000 \<longleftrightarrow> 0x7fc \<le> unat ?mb \<and> unat ?mb < 0x800"
      by (rule megabyte_range) simp_all
    have r2: "0x400000 \<le> va \<and> va < 0x800000 \<longleftrightarrow> 4 \<le> unat ?mb \<and> unat ?mb < 8"
      by (rule megabyte_range) simp_all
    have eqs: "?mb = k \<longleftrightarrow> unat ?mb = unat k" for k by (simp add: word_unat_eq_iff)
    consider "unat ?mb \<in> {4, 5, 6, 7}" | "unat ?mb \<in> {0x7fc, 0x7fd, 0x7fe, 0x7ff}"
      | "unat ?mb \<notin> {4, 5, 6, 7} \<union> {0x7fc, 0x7fd, 0x7fe, 0x7ff}" by blast
    then show ?thesis
    proof cases
      case 1
      then have "?mb = 4 \<or> ?mb = 5 \<or> ?mb = 6 \<or> ?mb = 7" by (auto simp: eqs)
      then show ?thesis unfolding Let_def r1 r2 by auto
    next
      case 2
      then have "?mb = 0x7fc \<or> ?mb = 0x7fd \<or> ?mb = 0x7fe \<or> ?mb = 0x7ff" by (auto simp: eqs)
      then show ?thesis unfolding Let_def r1 r2 by auto
    next
      case 3
      then have c: "\<not> (0x7fc \<le> unat ?mb \<and> unat ?mb < 0x800)" "\<not> (4 \<le> unat ?mb \<and> unat ?mb < 8)" by auto
      show ?thesis unfolding Let_def r1 r2 if_not_P [OF c(1)] if_not_P [OF c(2)]
        using 3 ne [of 4] ne [of 5] ne [of 6] ne [of 7] ne [of "0x7fc"] ne [of "0x7fd"] ne [of "0x7fe"] ne [of "0x7ff"] by simp
    qed
  qed
  ultimately show ?thesis by blast
qed

section \<open>A new kernel thread\<close>

lemma kinv_upd_dead:
  assumes "\<not> live F k a"
  shows "kinv F (upd_task a f k) \<longleftrightarrow> kinv F k"
proof -
  have t: "live F k u \<Longrightarrow> task (upd_task a f k) u = task k u" for u using assms by auto
  have l: "live F (upd_task a f k) u \<longleftrightarrow> live F k u" for u by (rule live_cong) simp
  have b: "base_inv F (upd_task a f k) \<longleftrightarrow> base_inv F k" by (rule base_inv_cong) simp_all
  have "sem_inv {} F (upd_task a f k) \<longleftrightarrow> sem_inv {} F k"
    unfolding sem_inv_def l using t by (simp cong: conj_cong imp_cong) 
  moreover have "cur_inv F (upd_task a f k) \<longleftrightarrow> cur_inv F k"
    unfolding cur_inv_def l using t by (simp cong: conj_cong imp_cong) 
  ultimately show ?thesis using b by (simp add: kinv_defs)
qed

definition task_unused :: "u32 \<Rightarrow> node lists \<Rightarrow> kstate \<Rightarrow> bool" where
  "task_unused a F k \<longleftrightarrow> a \<noteq> NULL \<and> \<not> live F k a \<and> (\<forall>n \<in> {N_p a, N_child a, N_mutex_get a, N_wait a, M_wait (TaskMutex a),
     M_task (TaskMutex a), N_prio_running a, N_system a, N_sleep a, N_idle a}. fresh F n)"

text \<open>The list heads of a new task, child of \<open>j\<close>.\<close>

definition family :: "u32 \<Rightarrow> u32 \<Rightarrow> node list \<Rightarrow> node lists \<Rightarrow> node lists" where
  "family a j cs F = F(N_child a \<mapsto> [], M_wait (TaskMutex a) \<mapsto> [], N_child j \<mapsto> N_p a # cs)"

lemma kinv_unused:
  assumes k: "kinv F k" and n: "fresh F n"
  shows "kinv F (on_lists (init_list n) k)"
proof -
  have "list_rel (init_list n (lists k)) F" by (rule list_rel_unused [OF kinv_rel [OF k] n])
  then have "base_inv F (on_lists (init_list n) k)" using k by (simp add: kinv_defs base_inv_def on_lists_def)
  moreover have "sem_inv {} F (on_lists (init_list n) k)"
    using k sem_inv_cong [of "{}" "on_lists (init_list n) k" k F] by (simp add: kinv_defs on_lists_def)
  moreover have "cur_inv F (on_lists (init_list n) k)" using k by (simp add: kinv_def cur_inv_def live_def on_lists_def)
  ultimately show ?thesis by (simp add: kinv_defs)
qed

lemma init_task_fields_spec:
  assumes k: "kinv F k" and a: "task_unused a F k" and cs: "F (N_child j) = Some cs" "\<And>n. n \<in> set cs \<Longrightarrow> foreign n"
  shows "\<exists>k'. init_task_fields a j flag k = k' \<and> kinv (family a j cs F) k' \<and>
    (\<forall>u. u \<noteq> a \<longrightarrow> task k' u = task k u) \<and> t_flag (task k' a) = flag \<and> t_parent (task k' a) = j \<and> stack_base (task k' a) = NULL \<and>
    t_pid (task k' a) = t_pid (task k a) \<and>
    k' = k\<lparr>lists := lists k', task := task k', mutex_count := (mutex_count k)(TaskMutex a := 0)\<rparr>"
proof -
  have fr: "fresh F (N_p a)" "fresh F (N_child a)" "fresh F (M_wait (TaskMutex a))" "fresh F (M_task (TaskMutex a))"
    and dead: "\<not> live F k a" using a by (simp_all add: task_unused_def)
  have ne: "j \<noteq> a" using fr(2) cs(1) by (auto simp: fresh_def)
  let ?p = "task k j"
  let ?k1 = "upd_task a (\<lambda>ts. ts\<lparr>t_flag := flag, t_state := PROCESS_STATE_PREPARE, t_parent := j\<rparr>)
    (upd_task a (copy_name (t_name ?p)) (upd_task a (\<lambda>ts. ts\<lparr>t_uid := t_uid ?p, stack_base := NULL\<rparr>) k))"
  have d: "\<not> live F (upd_task a f m) a" if "\<not> live F m a" for f m using that live_cong [of "upd_task a f m" m F a] by simp
  have k1: "kinv F ?k1" using k dead d by (simp add: kinv_upd_dead)
  let ?k2 = "on_lists (init_list (N_child a)) (on_lists (init_list (N_p a)) ?k1)"
  have k2: "kinv (F(N_child a \<mapsto> [])) ?k2"
    by (rule kinv_init_list [OF kinv_unused [OF k1 fr(1)] fr(2)]) simp
  let ?k3 = "init_mutex (TaskMutex a) ?k2"
  have k3: "kinv (F(N_child a \<mapsto> [], M_wait (TaskMutex a) \<mapsto> [])) ?k3"
    using fr by (intro kinv_init_mutex [OF k2]) (auto simp: fresh_def)
  let ?k4 = "exit_critical (fst (enter_critical ?k3)) (on_lists (list_add (N_child j) (N_p a)) (snd (enter_critical ?k3)))"
  have eq: "init_task_fields a j flag k = ?k4"
    by (simp add: init_task_fields_def Let_def split_beta)
  have "list_rel (list_add (N_child j) (N_p a) (lists ?k3)) (family a j cs F)"
    unfolding family_def
    using fr cs ne by (intro os_list.rel_add [OF kinv_rel [OF k3]]) (auto simp: fresh_def)
  then have k4: "kinv (family a j cs F) (on_lists (list_add (N_child j) (N_p a)) ?k3)"
    unfolding family_def using cs(2) by (intro kinv_foreign [OF k3]) auto
  have restore: "exit_critical (fst (enter_critical m)) (on_lists g (snd (enter_critical m))) = on_lists g m" for g m
    by (cases m) (simp add: critical_defs msr_cpsr_c_restore on_lists_def)
  have eq4: "?k4 = on_lists (list_add (N_child j) (N_p a)) ?k3" by (rule restore)
  show ?thesis
    unfolding eq eq4 using k4
    by (simp add: init_mutex_eq set_mutex_count_def on_lists_def upd_task_def copy_name_def)
qed

lemma init_sched_struct_spec:
  assumes k: "kinv F k" and dead: "\<not> live F k a" and flag: "t_flag (task k a) = PROCESS_TYPE_KERNEL"
    and fr: "fresh F (N_wait a)" "fresh F (N_mutex_get a)" "fresh F (N_idle a)" "fresh F (N_sleep a)" "fresh F (N_system a)" "fresh F (N_prio_running a)"
  shows "\<exists>k'. init_sched_struct a k = k' \<and> kinv (F(N_mutex_get a \<mapsto> [])) k' \<and> (\<forall>u. u \<noteq> a \<longrightarrow> task k' u = task k u) \<and>
    t_flag (task k' a) = PROCESS_TYPE_KERNEL \<and> t_pid (task k' a) = t_pid (task k a) \<and> t_parent (task k' a) = t_parent (task k a) \<and>
    stack_base (task k' a) = stack_base (task k a) \<and> t_state (task k' a) = PROCESS_STATE_UNKNOWN \<and>
    t_prio (task k' a) = (if t_pid (task k a) > 0 then KERNEL_THREAD_PRIO else KERNEL_THREAD_PRIO - 1) \<and>
    k' = k\<lparr>lists := lists k', task := task k'\<rparr>"
proof -
  let ?P = "if t_pid (task k a) > 0 then KERNEL_THREAD_PRIO else KERNEL_THREAD_PRIO - 1"
  let ?k1 = "upd_task a (\<lambda>ts. ts\<lparr>wait_time := -1, time_out := 0, run_count := 0, t_state := PROCESS_STATE_UNKNOWN,
      exit_state := PROCESS_STATE_UNKNOWN\<rparr>) (get_task_run_time a (upd_task a (\<lambda>ts. ts\<lparr>t_prio := ?P, pre_prio := ?P\<rparr>) k))"
  have d: "\<not> live F (upd_task a f m) a" if "\<not> live F m a" for f m using that live_cong [of "upd_task a f m" m F a] by simp
  have k1: "kinv F ?k1" using k dead d by (simp add: kinv_upd_dead get_task_run_time_def)
  let ?i = "\<lambda>n. on_lists (init_list n)"
  have "kinv F (?i (N_idle a) (?i (N_sleep a) (?i (N_system a) (?i (N_prio_running a) ?k1))))"
    using fr by (intro kinv_unused k1)
  then have k2: "kinv (F(N_mutex_get a \<mapsto> [])) (?i (N_mutex_get a) (?i (N_idle a) (?i (N_sleep a) (?i (N_system a) (?i (N_prio_running a) ?k1)))))"
    using fr by (intro kinv_init_list) simp_all
  have k3: "kinv (F(N_mutex_get a \<mapsto> [])) (?i (N_wait a) (?i (N_mutex_get a) (?i (N_idle a) (?i (N_sleep a) (?i (N_system a) (?i (N_prio_running a) ?k1))))))"
    using fr by (intro kinv_unused [OF k2]) (auto simp: fresh_def)
  have eq: "init_sched_struct a k = ?i (N_wait a) (?i (N_mutex_get a) (?i (N_idle a) (?i (N_sleep a) (?i (N_system a) (?i (N_prio_running a) ?k1)))))"
    using flag by (simp add: init_sched_struct_def Let_def on_lists_def)
  show ?thesis
    unfolding eq using k3 flag by (simp add: on_lists_def upd_task_def get_task_run_time_def)
qed

lemma mutex_free_transfer:
  assumes "mutex_free m F k" "mutex_count k' m = mutex_count k m" "current k' = current k" "G (M_wait m) = F (M_wait m)"
    "G (N_mutex_get (current k)) = F (N_mutex_get (current k))" "fresh G (M_task m)"
  shows "mutex_free m G k'"
  using assms by (simp add: mutex_free_def)

lemma init_mm_struct_kernel: "t_flag (task k a) = PROCESS_TYPE_KERNEL \<Longrightarrow> init_mm_struct a sp k = k"
  by (simp add: init_mm_struct_def)

lemma live_same: "G TaskSystem = F TaskSystem \<Longrightarrow> idle k' = idle k \<Longrightarrow> live G k' t \<longleftrightarrow> live F k t"
  by (simp add: live_def on_def)

text \<open>What the creation of a kernel thread \<open>a\<close> changes in the scheduler's state before the thread is ready.\<close>

definition thread_prio :: "kstate \<Rightarrow> int" where
  "thread_prio k = (if pid_current k > 0 then KERNEL_THREAD_PRIO else KERNEL_THREAD_PRIO - 1)"

definition new_thread :: "u32 \<Rightarrow> kstate \<Rightarrow> kstate \<Rightarrow> bool" where
  "new_thread a k k' \<longleftrightarrow>
     (\<forall>u. u \<noteq> a \<longrightarrow> task k' u = task k u) \<and> t_flag (task k' a) = PROCESS_TYPE_KERNEL \<and> t_parent (task k' a) = idle k \<and>
     t_pid (task k' a) = pid_current k \<and> t_state (task k' a) = PROCESS_STATE_UNKNOWN \<and> t_prio (task k' a) = thread_prio k \<and>
     pid_get_task (pid_current k) k' = Some a \<and> (\<forall>m. m \<noteq> TaskMutex a \<longrightarrow> mutex_count k' m = mutex_count k m) \<and>
     idle k' = idle k \<and> current k' = current k \<and> next_run k' = next_run k \<and>
     schedule_running k' = schedule_running k \<and> in_interrupt k' = in_interrupt k"

lemma new_threadD:
  assumes "new_thread a k k'"
  shows "u \<noteq> a \<Longrightarrow> task k' u = task k u" "t_flag (task k' a) = PROCESS_TYPE_KERNEL" "t_parent (task k' a) = idle k"
    "t_pid (task k' a) = pid_current k" "t_state (task k' a) = PROCESS_STATE_UNKNOWN" "t_prio (task k' a) = thread_prio k"
    "pid_get_task (pid_current k) k' = Some a" "m \<noteq> TaskMutex a \<Longrightarrow> mutex_count k' m = mutex_count k m"
    "idle k' = idle k" "current k' = current k" "next_run k' = next_run k"
    "schedule_running k' = schedule_running k" "in_interrupt k' = in_interrupt k"
  using assms by (simp_all add: new_thread_def)

lemma pid_get_task_cong: "pid_addr k' = pid_addr k \<Longrightarrow> pid_nr k' = pid_nr k \<Longrightarrow> pid_get_task i k' = pid_get_task i k"
  by (simp add: pid_get_task_def pid_read_def)

lemma new_thread_upd:
  assumes "new_thread a k k'" "t_flag (f (task k' a)) = t_flag (task k' a)" "t_parent (f (task k' a)) = t_parent (task k' a)"
    "t_pid (f (task k' a)) = t_pid (task k' a)" "t_state (f (task k' a)) = t_state (task k' a)" "t_prio (f (task k' a)) = t_prio (task k' a)"
  shows "new_thread a k (upd_task a f k')"
  using assms pid_get_task_cong [of "upd_task a f k'" k'] by (simp add: new_thread_def)

lemma new_thread_quiet: "new_thread a k k' \<Longrightarrow> ks_quiet k' k'' \<Longrightarrow> new_thread a k k''"
  using mutex_frame_sel [of k' k''] pid_get_task_cong [of k'' k'] by (simp add: new_thread_def ks_quiet_def)

text \<open>The structure of a kernel thread, before its memory.\<close>

lemma thread_struct:
  assumes k: "kinv F k" and un: "task_unused a F k" and cs: "F (N_child (idle k)) = Some cs" "\<And>n. n \<in> set cs \<Longrightarrow> foreign n"
    and pid: "mutex_free PidMapMutex F k" "pid_inv k" "pid_current k < pid_nr k" and kdef: "k = tk s"
  shows "\<exists>k1 k2. init_task_struct a PROCESS_TYPE_KERNEL s = Some (Some 0, on_k (\<lambda>_. k1) s) \<and>
    init_sched_struct a (init_mm_struct a sp k1) = k2 \<and> kinv ((family a (idle k) cs F)(N_mutex_get a \<mapsto> [])) k2 \<and>
    new_thread a k k2 \<and> stack_base (task k2 a) = NULL"
proof -
  let ?j = "idle k" and ?F2 = "family a (idle k) cs F"
  obtain ka where ka: "get_new_pid a k = Some (Some (pid_current k), ka)" "kinv F ka" "pid_frame k ka"
    "pid_get_task (pid_current k) ka = Some a"
    using get_new_pid_spec [OF k pid(1,2), of a] pid(3) by auto
  let ?kb = "upd_task a (\<lambda>ts. ts\<lparr>t_pid := pid_current k\<rparr>) ka"
  have dead: "\<not> live F ka a" using un ka(3) live_same [of F F ka k a] by (simp add: task_unused_def pid_frame_def)
  have kb: "kinv F ?kb" using ka(2) dead by (simp add: kinv_upd_dead)
  have unb: "task_unused a F ?kb" using un ka(3) by (simp add: task_unused_def pid_frame_def live_def)
  let ?k1 = "init_task_fields a ?j PROCESS_TYPE_KERNEL ?kb"
  have k1: "kinv ?F2 ?k1" "\<And>u. u \<noteq> a \<Longrightarrow> task ?k1 u = task ?kb u" "t_flag (task ?k1 a) = PROCESS_TYPE_KERNEL"
    "t_parent (task ?k1 a) = ?j" "stack_base (task ?k1 a) = NULL" "t_pid (task ?k1 a) = pid_current k"
    and f1: "?k1 = ?kb\<lparr>lists := lists ?k1, task := task ?k1, mutex_count := (mutex_count ?kb)(TaskMutex a := 0)\<rparr>"
    using init_task_fields_spec [OF kb unb cs, of PROCESS_TYPE_KERNEL] by auto
  have s1: "idle ?k1 = idle ka" "current ?k1 = current ka" "next_run ?k1 = next_run ka" "schedule_running ?k1 = schedule_running ka"
    "in_interrupt ?k1 = in_interrupt ka" "mutex_count ?k1 = (mutex_count ka)(TaskMutex a := 0)" "pid_addr ?k1 = pid_addr ka" "pid_nr ?k1 = pid_nr ka"
    by (subst f1; simp)+
  have fr: "fresh ?F2 n" if "n \<in> {N_wait a, N_mutex_get a, N_idle a, N_sleep a, N_system a, N_prio_running a}" for n
    using un that cs(1) by (auto simp: task_unused_def family_def fresh_def)
  have dead1: "\<not> live ?F2 ?k1 a" using dead s1(1) live_same [of ?F2 F ?k1 ka a] by (simp add: family_def)
  let ?k2 = "init_sched_struct a ?k1"
  have k2: "kinv (?F2(N_mutex_get a \<mapsto> [])) ?k2" "\<And>u. u \<noteq> a \<Longrightarrow> task ?k2 u = task ?k1 u" "t_flag (task ?k2 a) = PROCESS_TYPE_KERNEL"
    "t_pid (task ?k2 a) = t_pid (task ?k1 a)" "t_parent (task ?k2 a) = t_parent (task ?k1 a)" "stack_base (task ?k2 a) = stack_base (task ?k1 a)"
    "t_state (task ?k2 a) = PROCESS_STATE_UNKNOWN"
    "t_prio (task ?k2 a) = (if t_pid (task ?k1 a) > 0 then KERNEL_THREAD_PRIO else KERNEL_THREAD_PRIO - 1)"
    and f2: "?k2 = ?k1\<lparr>lists := lists ?k2, task := task ?k2\<rparr>"
    using init_sched_struct_spec [OF k1(1) dead1 k1(3)] fr by auto
  have s2: "idle ?k2 = idle ?k1" "current ?k2 = current ?k1" "next_run ?k2 = next_run ?k1" "schedule_running ?k2 = schedule_running ?k1"
    "in_interrupt ?k2 = in_interrupt ?k1" "mutex_count ?k2 = mutex_count ?k1" "pid_addr ?k2 = pid_addr ?k1" "pid_nr ?k2 = pid_nr ?k1"
    by (subst f2; simp)+
  have "0 \<le> pid_current k" using pid(2) by (auto simp: pid_inv_def)
  then have run: "init_task_struct a PROCESS_TYPE_KERNEL s = Some (Some 0, on_k (\<lambda>_. ?k1) s)"
    using ka(1) kdef by (simp add: init_task_struct_def kern_op_def on_k_def on_ks_def)
  have "pid_get_task (pid_current k) ?k2 = Some a" using ka(4) s1(7,8) s2(7,8) pid_get_task_cong [of ?k2 ka] by simp
  then show ?thesis
    using run init_mm_struct_kernel [OF k1(3)] k1 k2 s1 s2 ka(3)
    by (intro exI [of _ ?k1] exI [of _ ?k2]) (simp add: pid_frame_def new_thread_def thread_prio_def)
qed

text \<open>The kernel stack.\<close>

lemma kernel_stack:
  assumes inv: "minv F (sm (ss s))" and z: "get_zone 0 (sm (ss s)) = Some z" "zone_wf (page_map (sm (ss s))) z"
      "bm_current z < bm_end z" "uint (bm_end z) < int (length (page_table (sm (ss s))))" "0 < uint (z_free_pages z)"
      "\<exists>i. uint (bm_start z) \<le> i \<and> i < uint (bm_end z) \<and> \<not> bm_bit (page_map (sm (ss s))) i" "bm_bit (page_map (sm (ss s))) 0"
    and idle: "\<And>i. 0 \<le> i \<Longrightarrow> i < bm_size (page_map (sm (ss s))) \<Longrightarrow> \<not> bm_bit (page_map (sm (ss s))) i \<Longrightarrow> page_idle F i"
    and base: "0 < uint (kernel_start (sm (ss s)))" "uint (kernel_start (sm (ss s))) + 4096 * int (length (page_table (sm (ss s)))) \<le> 2 ^ 32"
    and nb: "stack_base (task (tk s) a) = NULL"
  shows "\<exists>t v n. alloc_kernel_stack a s = Some (Some 0, on_k (upd_task a (\<lambda>ts. ts\<lparr>stack_base := v, stack_origin := v\<rparr>)) (s\<lparr>ss := t\<rparr>)) \<and>
    v \<noteq> NULL \<and> ks_quiet (tk s) (ks (sm t)) \<and> kinv (F(N_page n \<mapsto> [])) (ks (sm t))"
proof -
  obtain pg m' where g: "get_free_pages 1 GFP_KERNEL (sm (ss s)) = Some (Some (page_to_va pg (sm (ss s))), m')" "0 < pg" "pg \<le> uint (bm_end z)"
    "pages_taken pg 1 GFP_KERNEL 0 (zone_take pg 1 z) (sm (ss s)) m'" "minv (with_nodes (page_nodes pg (pg + 1)) F) m'"
    by (rule get_free_page_picks [OF inv zone_id_kernel [symmetric] z idle]) blast+
  let ?m = "sm (ss s)" and ?v = "page_to_va pg (sm (ss s))"
  have v: "?v \<noteq> NULL"
  proof -
    have lt: "pg < int (length (page_table ?m))" "4096 * pg < 2 ^ 32" using g(3) z(4) base by linarith+
    have "uint (push_bit PAGE_SHIFT (word_of_int pg) :: u32) = 4096 * pg"
      using lt(2) g(2) by (simp add: push_bit_eq_mult uint_word_ariths uint_word_of_int)
    then have "uint ?v = uint (kernel_start ?m) + 4096 * pg"
      using uint_add_u32 [of "kernel_start ?m" "push_bit PAGE_SHIFT (word_of_int pg)"] lt base(2)
      by (simp add: page_to_va_def page_id_to_va_def page_to_page_id_def)
    then show ?thesis using g(2) base(1) by auto
  qed
  have n: "with_nodes (page_nodes pg (pg + 1)) F = F(N_page (word_of_int pg) \<mapsto> [])"
    by (simp add: page_nodes_step with_nodes_insert)
  have "kinv (F(N_page (word_of_int pg) \<mapsto> [])) (ks m')" "ks_quiet (ks ?m) (ks m')"
    using g(4,5) n by (simp_all add: minv_def pages_taken_def)
  moreover have "alloc_kernel_stack a s = Some (Some 0, on_k (upd_task a (\<lambda>ts. ts\<lparr>stack_base := ?v, stack_origin := ?v\<rparr>)) (s\<lparr>ss := (ss s)\<lparr>sm := m'\<rparr>\<rparr>))"
    using nb g(1) v by (simp add: alloc_kernel_stack_def slab_op_def mm_op_def)
  ultimately show ?thesis using v by (intro exI [of _ "(ss s)\<lparr>sm := m'\<rparr>"]) auto
qed

definition fork_ready :: "node lists \<Rightarrow> int \<Rightarrow> int \<Rightarrow> page \<Rightarrow> mm_zone \<Rightarrow> node list \<Rightarrow> tstate \<Rightarrow> bool" where
  "fork_ready F pg hp p z cs s \<longleftrightarrow>
     (let m = sm (ss s); k = ks m in
      kready F k \<and> slab_ok F pg hp (ss s) \<and> minv F m \<and>
      page_read pg m = Some p \<and> 224 \<le> uint (pg_free_size p) \<and> header_in_page (ss s) < 256 \<and> F (N_slab 13) = Some [] \<and>
      task_unused (pg_free_base p) F k \<and> F (N_child (idle k)) = Some cs \<and> (\<forall>n \<in> set cs. foreign n) \<and>
      mutex_free PidMapMutex F k \<and> pid_inv k \<and> pid_current k < pid_nr k \<and>
      get_zone 0 m = Some z \<and> zone_wf (page_map m) z \<and> bm_current z < bm_end z \<and> uint (bm_end z) < int (length (page_table m)) \<and>
      0 < uint (z_free_pages z) \<and> (\<exists>i. uint (bm_start z) \<le> i \<and> i < uint (bm_end z) \<and> \<not> bm_bit (page_map m) i) \<and>
      bm_bit (page_map m) 0 \<and> (\<forall>i. 0 \<le> i \<longrightarrow> i < bm_size (page_map m) \<longrightarrow> \<not> bm_bit (page_map m) i \<longrightarrow> page_idle F i) \<and>
      0 < uint (kernel_start m) \<and> uint (kernel_start m) + 4096 * int (length (page_table m)) \<le> 2 ^ 32)"

lemma fork_readyD:
  assumes "fork_ready F pg hp p z cs s"
  shows "kready F (tk s)" "slab_ok F pg hp (ss s)" "minv F (sm (ss s))" "page_read pg (sm (ss s)) = Some p" "224 \<le> uint (pg_free_size p)"
    "header_in_page (ss s) < 256" "F (N_slab 13) = Some []" "task_unused (pg_free_base p) F (tk s)" "F (N_child (idle (tk s))) = Some cs"
    "n \<in> set cs \<Longrightarrow> foreign n" "mutex_free PidMapMutex F (tk s)" "pid_inv (tk s)" "pid_current (tk s) < pid_nr (tk s)"
  using assms by (simp_all add: fork_ready_def Let_def)

lemma fork_ready_zone:
  assumes "fork_ready F pg hp p z cs s"
  shows "get_zone 0 (sm (ss s)) = Some z" "zone_wf (page_map (sm (ss s))) z"
      "bm_current z < bm_end z" "uint (bm_end z) < int (length (page_table (sm (ss s))))" "0 < uint (z_free_pages z)"
      "\<exists>i. uint (bm_start z) \<le> i \<and> i < uint (bm_end z) \<and> \<not> bm_bit (page_map (sm (ss s))) i" "bm_bit (page_map (sm (ss s))) 0"
     "0 \<le> i \<Longrightarrow> i < bm_size (page_map (sm (ss s))) \<Longrightarrow> \<not> bm_bit (page_map (sm (ss s))) i \<Longrightarrow> page_idle F i"
     "0 < uint (kernel_start (sm (ss s)))" "uint (kernel_start (sm (ss s))) + 4096 * int (length (page_table (sm (ss s)))) \<le> 2 ^ 32"
  using assms by (simp_all add: fork_ready_def Let_def)

lemma page_idle_family:
  assumes "page_idle F i" "N_page (word_of_int i) \<noteq> N_page q" "F (N_page q) = Some xs" "F (N_child j) = Some cs"
  shows "page_idle ((family a j cs (F(N_page q \<mapsto> N_header h # xs)))(N_mutex_get a \<mapsto> [])) i"
  using assms by (auto simp: page_idle_def family_def split: if_splits)

text \<open>The structure is allocated.\<close>

lemma fork_alloc:
  assumes r: "fork_ready F pg hp p z cs s"
  defines "a \<equiv> pg_free_base p"
  obtains t h xs where "slab_op (kmalloc TASK_STRUCT_SIZE GFP_KERNEL) s = Some (Some a, s\<lparr>ss := t\<rparr>)"
    "F (N_page (word_of_int pg)) = Some xs" "mm_same (sm (ss s)) (sm t)" "ks_quiet (tk s) (ks (sm t))"
    "kinv (F(N_page (word_of_int pg) \<mapsto> N_header h # xs)) (ks (sm t))"
    "task_unused a (F(N_page (word_of_int pg) \<mapsto> N_header h # xs)) (ks (sm t))"
    "mutex_free PidMapMutex (F(N_page (word_of_int pg) \<mapsto> N_header h # xs)) (ks (sm t))"
proof -
  let ?q = "N_page (word_of_int pg)" and ?k = "tk s"
  note R = fork_readyD [OF r, folded a_def]
  have n: "224 = get_new_alloc_size 220 GFP_KERNEL" by (simp add: alloc_size_kernel)
  have a0: "a \<noteq> NULL" using R(8) by (simp add: task_unused_def)
  obtain t h xs where t: "kmalloc 220 GFP_KERNEL (ss s) = Some (Some a, t)" "F ?q = Some xs" "fresh F (N_header h)"
    "slab_ok (F(?q \<mapsto> N_header h # xs)) pg hp t" "mm_same (sm (ss s)) (sm t)" "ks_quiet ?k (ks (sm t))"
    using kmalloc_from_page [of F pg hp "ss s" 220 224 p] R(2,4,5,6,7) n a0 by (auto simp: a_def list_id_def)
  let ?F1 = "F(?q \<mapsto> N_header h # xs)" and ?k1 = "ks (sm t)"
  have q: "mutex_count ?k1 = mutex_count ?k" "mutex_frame ?k ?k1" using t(6) by (simp_all add: ks_quiet_def)
  note f = mutex_frame_sel [OF q(2)]
  have fr: "fresh ?F1 x" if "fresh F x" "x \<noteq> N_header h" "x \<noteq> ?q" for x using that t(2) by (auto simp: fresh_def)
  have "task_unused a ?F1 ?k1" using R(8) fr f(2) live_same [of ?F1 F ?k1 ?k a] by (simp add: task_unused_def)
  moreover have "mutex_free PidMapMutex ?F1 ?k1"
    using f(1) q(1) fr [of "M_task PidMapMutex"] R(11) by (intro mutex_free_transfer [OF R(11)]) (simp_all add: mutex_free_def)
  moreover have "kinv ?F1 ?k1" using t(4) by (simp add: slab_ok_def)
  moreover have "slab_op (kmalloc TASK_STRUCT_SIZE GFP_KERNEL) s = Some (Some a, s\<lparr>ss := t\<rparr>)"
    using t(1) by (simp add: slab_op_def TASK_STRUCT_SIZE_def)
  ultimately show thesis using that t(2,5,6) by blast
qed

text \<open>The page allocator can serve the thread.\<close>

lemma fork_memory:
  assumes r: "fork_ready F pg hp p z cs s" and xs: "F (N_page (word_of_int pg)) = Some xs" and m: "mm_same (sm (ss s)) m"
    and a: "a = pg_free_base p" and k': "kinv G k'" "new_thread a (tk s) k'"
    and G: "G = (family a (idle (tk s)) cs (F(N_page (word_of_int pg) \<mapsto> N_header h # xs)))(N_mutex_get a \<mapsto> [])"
  shows "minv G (m\<lparr>ks := k'\<rparr>)"
    "0 \<le> i \<Longrightarrow> i < bm_size (page_map (sm (ss s))) \<Longrightarrow> \<not> bm_bit (page_map (sm (ss s))) i \<Longrightarrow> page_idle G i"
proof -
  let ?m = "sm (ss s)" and ?k = "tk s"
  note R = fork_readyD [OF r, folded a]
  have cur: "current ?k \<noteq> a" using R(1,8) by (auto simp: kready_def kinv_def cur_inv_def task_unused_def)
  have "mutex_free (ZoneMutex i) G k'" if "i < 4" for i
  proof -
    have f: "mutex_free (ZoneMutex i) F ?k" using R(3) that by (simp add: minv_def)
    moreover have "fresh G (M_task (ZoneMutex i))" using f xs R(9) by (auto simp: mutex_free_def family_def fresh_def G)
    ultimately show ?thesis
      using new_threadD(8,10) [OF k'(2)] cur by (intro mutex_free_transfer [OF f]) (simp_all add: family_def G)
  qed
  then show "minv G (m\<lparr>ks := k'\<rparr>)" using R(3) k'(1) m by (simp add: minv_def mm_same_def)
  have pgb: "0 \<le> pg" "pg < 2 ^ 20" using R(3,4) by (auto simp: page_read_def lget_Some minv_def)
  have ps: "bm_bit (page_map ?m) pg" if "pg < bm_size (page_map ?m)"
    using R(2,3) that pgb page_state_bit [of pg ?m] by (auto simp: slab_ok_def minv_def split: if_splits)
  assume i: "0 \<le> i" "i < bm_size (page_map ?m)" "\<not> bm_bit (page_map ?m) i"
  show "page_idle G i"
    unfolding G
  proof (rule page_idle_family [OF fork_ready_zone(8) [OF r i] _ xs R(9)])
    have "i \<noteq> pg" using i ps by auto
    moreover have "i < 2 ^ 32" using i(2) R(3) by (simp add: minv_def)
    ultimately show "N_page (word_of_int i) \<noteq> N_page (word_of_int pg)"
      using pgb i(1) word_eq_uint [of i "word_of_int pg"] by (simp add: uint_word_of_int)
  qed
qed

lemma fork_thread:
  assumes r: "fork_ready F pg hp p z cs s"
  defines "a \<equiv> pg_free_base p" and "k \<equiv> tk s"
  obtains s' F' where "fork_new_task pb name sp PROCESS_TYPE_KERNEL s = Some (Some a, s')" "wm s' = wm s" "kready F' (tk s')"
    "\<not> live F' (tk s') a" "\<And>i. F' (OsSched i) = F (OsSched i)" "F' (N_child (idle k)) = Some (N_p a # cs)"
    "new_thread a k (tk s')" "stack_base (task (tk s') a) \<noteq> NULL"
proof -
  let ?q = "N_page (word_of_int pg)"
  note R = fork_readyD [OF r, folded k_def a_def]
  obtain t1 h xs where t1: "slab_op (kmalloc TASK_STRUCT_SIZE GFP_KERNEL) s = Some (Some a, s\<lparr>ss := t1\<rparr>)" "F ?q = Some xs"
    "mm_same (sm (ss s)) (sm t1)" "ks_quiet k (ks (sm t1))" "kinv (F(?q \<mapsto> N_header h # xs)) (ks (sm t1))"
    "task_unused a (F(?q \<mapsto> N_header h # xs)) (ks (sm t1))" "mutex_free PidMapMutex (F(?q \<mapsto> N_header h # xs)) (ks (sm t1))"
    unfolding a_def k_def by (rule fork_alloc [OF r]) blast
  let ?F1 = "F(?q \<mapsto> N_header h # xs)" and ?k1 = "ks (sm t1)" and ?s1 = "s\<lparr>ss := t1\<rparr>"
  note f1 = mutex_frame_sel [of k ?k1]
  have q1: "mutex_frame k ?k1" "task ?k1 = task k" "mutex_count ?k1 = mutex_count k" using t1(4) by (simp_all add: ks_quiet_def)
  note f1 = mutex_frame_sel [OF q1(1)]
  have pre: "?F1 (N_child (idle ?k1)) = Some cs" "pid_inv ?k1" "pid_current ?k1 < pid_nr ?k1" "?k1 = tk ?s1"
    using R(9,12,13) f1 pid_inv_cong [of ?k1 k] by simp_all
  let ?F3 = "(family a (idle k) cs ?F1)(N_mutex_get a \<mapsto> [])"
  obtain k2 k3 where k2: "init_task_struct a PROCESS_TYPE_KERNEL ?s1 = Some (Some 0, on_k (\<lambda>_. k2) ?s1)"
    "init_sched_struct a (init_mm_struct a sp k2) = k3" "kinv ?F3 k3" "new_thread a ?k1 k3" "stack_base (task k3 a) = NULL"
    using thread_struct [OF t1(5,6) pre(1) R(10) t1(7) pre(2-4), of sp] unfolding f1(2) by blast
  have new3: "new_thread a k k3" using k2(4) f1 q1 by (simp add: new_thread_def thread_prio_def)
  define k4 where "k4 = (case name of None \<Rightarrow> (\<lambda>k. k) | Some n \<Rightarrow> upd_task a (copy_name n)) k3"
  have dead3: "\<not> live ?F3 k3 a"
    using R(8) new_threadD(9) [OF new3] live_same [of ?F3 F k3 k a] by (simp add: family_def task_unused_def)
  have k4: "kinv ?F3 k4" "new_thread a k k4" "stack_base (task k4 a) = NULL" "idle k4 = idle k3"
    using k2(3,5) dead3 new3 by (cases name; simp add: k4_def kinv_upd_dead new_thread_upd copy_name_def)+
  define s3 where "s3 = on_k (\<lambda>_. k4) ?s1"
  have tk3: "tk s3 = k4" and m3: "sm (ss s3) = (sm t1)\<lparr>ks := k4\<rparr>" by (simp_all add: s3_def on_k_def on_ks_def)
  have same: "bank (sm (ss s3)) = bank (sm (ss s))" "page_map (sm (ss s3)) = page_map (sm (ss s))"
    "kernel_start (sm (ss s3)) = kernel_start (sm (ss s))" "length (page_table (sm (ss s3))) = length (page_table (sm (ss s)))"
    using t1(3) by (simp_all add: m3 mm_same_def)
  note mem = fork_memory [OF r t1(2,3) a_def [THEN meta_eq_to_obj_eq] k4(1) k4(2) [unfolded k_def] , of h, folded k_def, OF refl, folded m3]
  note z = fork_ready_zone [OF r]
  have nb: "stack_base (task (tk s3) a) = NULL" using k4(3) by (simp add: tk3)
  have gz: "get_zone 0 (sm (ss s3)) = Some z" using z(1) same(1) by (simp add: get_zone_def)
  obtain t v n where st: "alloc_kernel_stack a s3 = Some (Some 0, on_k (upd_task a (\<lambda>ts. ts\<lparr>stack_base := v, stack_origin := v\<rparr>)) (s3\<lparr>ss := t\<rparr>))"
    "v \<noteq> NULL" "ks_quiet k4 (ks (sm t))" "kinv (?F3(N_page n \<mapsto> [])) (ks (sm t))"
    using kernel_stack [OF mem(1) gz, unfolded same, OF z(2-7) mem(2) z(9,10) nb, unfolded tk3] by blast
  let ?s4 = "on_k (upd_task a (\<lambda>ts. ts\<lparr>stack_base := v, stack_origin := v\<rparr>)) (s3\<lparr>ss := t\<rparr>)" and ?F4 = "?F3(N_page n \<mapsto> [])"
  have tk4: "tk ?s4 = upd_task a (\<lambda>ts. ts\<lparr>stack_base := v, stack_origin := v\<rparr>) (ks (sm t))" by (simp add: on_k_def on_ks_def)
  have new4: "new_thread a k (tk ?s4)" unfolding tk4 by (rule new_thread_upd [OF new_thread_quiet [OF k4(2) st(3)]]) simp_all
  have "idle (ks (sm t)) = idle k3" using new_threadD(9) [OF new4] new_threadD(9) [OF new3] by (simp add: tk4)
  then have dead4: "\<not> live ?F4 (ks (sm t)) a" using dead3 live_same [of ?F4 ?F3 "ks (sm t)" k3 a] by simp
  have mem4: "alloc_memory_for_task a s3 = Some (Some 0, ?s4)"
    using st(1) new_threadD(2) [OF new4] by (simp add: alloc_memory_for_task_def Let_def)
  have chain: "on_k (case name of None \<Rightarrow> (\<lambda>k. k) | Some n \<Rightarrow> upd_task a (copy_name n))
      (on_k (init_sched_struct a) (on_k (init_mm_struct a sp) (on_k (\<lambda>_. k2) ?s1))) = s3"
    by (simp add: on_k_def on_ks_def s3_def k4_def k2(2))
  have "a \<noteq> NULL" using R(8) by (simp add: task_unused_def)
  then have fork: "fork_new_task pb name sp PROCESS_TYPE_KERNEL s = Some (Some a, ?s4)"
    using t1(1) k2(1) chain mem4 by (simp add: fork_new_task_def Let_def)
  have "kinv ?F4 (tk ?s4)" using st(4) dead4 by (simp add: tk4 kinv_upd_dead)
  then have ready: "kready ?F4 (tk ?s4)" using R(1) new_threadD [OF new4] by (simp add: kready_def)
  have dead: "\<not> live ?F4 (tk ?s4) a" using dead4 by (simp add: tk4 live_def)
  show thesis
    by (rule that [OF fork _ ready dead _ _ new4]) (use st(2) in \<open>simp_all add: family_def on_k_def on_ks_def s3_def\<close>)
qed

text \<open>
  C22. When memory, a process identifier and a page are available, \<^verbatim>\<open>kthread_run\<close> returns 0 and adds one
  task: it has the next process identifier, is a child of the idle task, stands last in the queue of its
  priority, and its first switch in enters the function in supervisor mode with the argument in \<^verbatim>\<open>r0\<close>.
  The scheduler stays consistent and the caller goes on running; no other task changes.
\<close>

theorem kthread_run_ready:
  assumes r: "fork_ready F pg hp p z cs s" and fn: "fn \<noteq> NULL" and a: "a = pg_free_base p" and k: "k = tk s"
  shows "\<exists>s' F' q. kthread_run pb name fn arg s = Some (Some 0, s') \<and> kready F' (tk s') \<and> current (tk s') = current k \<and>
    F (OsSched (thread_prio k)) = Some q \<and> F' (OsSched (thread_prio k)) = Some (q @ [N_prio_running a]) \<and>
    F' (N_child (idle k)) = Some (N_p a # cs) \<and> pid_get_task (pid_current k) (tk s') = Some a \<and>
    t_pid (task (tk s') a) = pid_current k \<and> t_state (task (tk s') a) = PROCESS_STATE_PREPARE \<and>
    (\<forall>u. u \<noteq> a \<longrightarrow> task (tk s') u = task k u) \<and>
    (\<forall>c. let d = sw_load (stack_base (task (tk s') a)) (wm s') c in c_pc d = fn \<and> c_gen d ! 0 = arg \<and> c_cpsr d = SVC_MODE)"
proof -
  let ?regs = "\<lparr>r_gen = [arg, 1, 2, 3, 4, 5, 6, 7, 8, 9, 10, 11, 12], r_spsr = 15, r_lr = 14, r_sp = 13, r_cpsr = SVC_MODE, r_pc = fn\<rparr>"
  obtain s1 F1 where s1: "fork_new_task pb name 0 PROCESS_TYPE_KERNEL s = Some (Some a, s1)" "kready F1 (tk s1)"
    "\<not> live F1 (tk s1) a" "\<And>i. F1 (OsSched i) = F (OsSched i)" "F1 (N_child (idle k)) = Some (N_p a # cs)"
    "new_thread a k (tk s1)" "stack_base (task (tk s1) a) \<noteq> NULL"
    unfolding a k by (rule fork_thread [OF r, of pb name 0]) blast
  note n1 = new_threadD [OF s1(6)]
  obtain sp m where up: "arch_set_up_task_stack a ?regs (tk s1) (wm s1) = (0, upd_task a (\<lambda>ts. ts\<lparr>stack_base := sp\<rparr>) (tk s1), m)"
    "words_at m sp (frame_words ?regs)"
    using set_up_stack_frame [OF s1(7), of ?regs "wm s1"] by auto
  let ?k2 = "upd_task a (\<lambda>ts. ts\<lparr>stack_base := sp\<rparr>) (tk s1)"
  have a0: "a \<noteq> NULL" using fork_readyD(8) [OF r] by (simp add: a task_unused_def)
  have ready2: "kready F1 ?k2" using s1(2,3) by (simp add: kready_def kinv_upd_dead)
  have "\<not> live F1 ?k2 a" using s1(3) by (simp add: live_def)
  then have reg: "\<not> registered ?k2 a" using registered_live [OF kready_kinv(1) [OF ready2]] by simp
  have pr: "prio_ok (thread_prio k)" by (simp add: thread_prio_def prio_ok_def)
  obtain k3 where k3: "set_task_state a PROCESS_STATE_PREPARE ?k2 = Some k3" "kready (abs_new a (thread_prio k) F1) k3"
    "state_frame a PROCESS_STATE_PREPARE ?k2 k3"
    using new_ready [OF ready2 reg a0] n1(5,6) pr by auto
  note f3 = state_frame_sel [OF k3(3)]
  let ?s' = "on_k (\<lambda>_. k3) (on_k (\<lambda>_. ?k2) (s1\<lparr>wm := m\<rparr>))"
  have tk': "tk ?s' = k3" and wm': "wm ?s' = m" by (simp_all add: on_k_def on_ks_def)
  have fork: "do_fork pb name ?regs 0 PROCESS_TYPE_KERNEL s = Some (Some (0, ?regs), ?s')"
    using s1(1) a0 up(1) k3(1) by (simp add: do_fork_def on_k_def on_ks_def)
  have run: "kthread_run pb name fn arg s = Some (Some 0, ?s')"
    using init_pt_regs_kernel [OF fn, of arg "wm s"] fork by (simp add: kthread_run_def)
  obtain q where q: "F (OsSched (thread_prio k)) = Some q"
    using base_inv_prio [of F1 "tk s1" "thread_prio k"] pr s1(2,4) by (auto simp: kready_def kinv_def sched_inv_def)
  have F': "abs_new a (thread_prio k) F1 (OsSched (thread_prio k)) = Some (q @ [N_prio_running a])"
    "abs_new a (thread_prio k) F1 (N_child (idle k)) = Some (N_p a # cs)"
    using q s1(4,5) by (simp_all add: abs_new_def q_add_def)
  have tsk: "task k3 u = task k u" if "u \<noteq> a" for u using that f3(1) n1(1) by simp
  have pid: "pid_get_task (pid_current k) k3 = Some a" using n1(7) f3(9,10) pid_get_task_cong [of k3 "tk s1"] by simp
  have load: "let d = sw_load sp m c in c_pc d = fn \<and> c_gen d ! 0 = arg \<and> c_cpsr d = SVC_MODE" for c
    using sw_load_frame [OF up(2), of c] by (simp add: Let_def)
  show ?thesis
    unfolding tk' wm' using run k3(2) q F' tsk pid load f3(1,2) n1(4,10)
    by (intro exI [of _ ?s'] exI [of _ "abs_new a (thread_prio k) F1"] exI [of _ q]) (simp add: tk' wm')
qed

section \<open>Instances\<close>

definition fork_demo :: tstate where
  "fork_demo = \<lparr>ss = slab_demo, wm = (\<lambda>_. 0), bm = (\<lambda>_. 0)\<rparr>"

lemma slab_demo_F_None: "boot_lists 0x2000 n = None \<Longrightarrow> (\<And>i. n \<noteq> N_slab i) \<Longrightarrow> (\<And>m. n \<noteq> M_wait m) \<Longrightarrow>
    n \<noteq> N_table_list \<Longrightarrow> n \<noteq> N_free_header \<Longrightarrow> n \<noteq> N_page 2 \<Longrightarrow> slab_demo_F n = None"
  by (simp add: slab_demo_F_def slab_init_lists_def demo_F_def)

lemma slab_demo_F_empty: "slab_demo_F r = Some xs \<Longrightarrow> xs = []"
  by (auto simp: slab_demo_F_def slab_init_lists_def slab_lists_def demo_F_def boot_lists_def split: if_splits node.splits)

lemma slab_demo_F_fresh: "slab_demo_F n = None \<Longrightarrow> fresh slab_demo_F n"
  unfolding fresh_def by (metis empty_iff list.set(1) slab_demo_F_empty)

lemma slab_demo_F_task: "slab_demo_F (M_wait (TaskMutex t)) = (if t = 0x2000 then Some [] else None)"
  by (simp add: slab_demo_F_def slab_init_lists_def demo_F_def boot_lists_def boot_heads_def)

lemma init_mutex_pid [simp]:
  "pid_current (init_mutex m s) = pid_current s" "pid_nr (init_mutex m s) = pid_nr s"
  "pid_nr_free (init_mutex m s) = pid_nr_free s" "pid_addr (init_mutex m s) = pid_addr s"
  by (simp_all add: init_mutex_def Let_def)

lemma demo_k:
  "idle (ks (sm slab_demo)) = 0x2000" "current (ks (sm slab_demo)) = 0x2000" "mutex_count (ks (sm slab_demo)) m = (if m = SlabMutex then 0 else mutex_count demo_ks m)"
  "pid_current (ks (sm slab_demo)) = pid_current demo_ks" "pid_nr (ks (sm slab_demo)) = pid_nr demo_ks" "pid_inv (ks (sm slab_demo)) = pid_inv demo_ks"
  "next_run (ks (sm slab_demo)) = next_run demo_ks" "schedule_running (ks (sm slab_demo)) = schedule_running demo_ks"
  "in_interrupt (ks (sm slab_demo)) = in_interrupt demo_ks"
  by (subst slab_demo_ok(4); simp add: demo_ks_def booted_task pid_inv_def)+

lemma fork_demo_ready: "fork_ready slab_demo_F 2 3 slab_page demo_zone [] fork_demo"
proof -
  let ?k = "ks (sm slab_demo)"
  have ok: "slab_ok slab_demo_F 2 3 slab_demo" by (rule slab_demo_ok(1))
  then have kinv: "kinv slab_demo_F ?k" by (simp add: slab_ok_def)
  have ready: "kready slab_demo_F ?k" using kinv demo_ks_ready by (simp add: kready_def demo_k demo_ks_def booted_task)
  have zones: "mutex_free (ZoneMutex i) slab_demo_F ?k" if "i < 4" for i
  proof -
    have "slab_demo_F (M_task (ZoneMutex i)) = None" by (rule slab_demo_F_None) (simp_all add: boot_lists_def boot_heads_def)
    then show ?thesis
      using demo_mutexes [OF that] slab_demo_F_fresh demo_k
      by (intro mutex_free_transfer [OF demo_mutexes [OF that]])
        (simp_all add: slab_demo_F_def slab_init_lists_def demo_ks_def booted_task)
  qed
  have pid: "mutex_free PidMapMutex slab_demo_F ?k"
  proof -
    have "slab_demo_F (M_task PidMapMutex) = None" by (rule slab_demo_F_None) (simp_all add: boot_lists_def boot_heads_def)
    then show ?thesis
      using boot_pid(2) [of "0x2000" "0x1000" blank] slab_demo_F_fresh demo_k
      by (intro mutex_free_transfer [OF boot_pid(2) [of "0x2000" "0x1000" blank]])
        (simp_all add: slab_demo_F_def slab_init_lists_def demo_ks_def booted_def [symmetric] booted_task demo_F_def)
  qed
  have pinv: "pid_inv ?k" "pid_current ?k < pid_nr ?k"
    using boot_pid(1) [of "0x2000" "0x1000" blank] boot_sel(13,15) [of "0x2000" "0x1000" blank] pid_inv_cong [of demo_ks "boot 0x1000 0x2000 blank"]
    by (simp_all add: demo_k demo_ks_def booted_def PID_NR_def)
  have un: "task_unused 0xc0002100 slab_demo_F ?k"
    unfolding task_unused_def
  proof (intro conjI ballI)
    show "\<not> live slab_demo_F ?k 0xc0002100"
      using slab_demo_F_empty [of TaskSystem] by (auto simp: live_def on_def demo_k)
    fix n assume "n \<in> {N_p 0xc0002100, N_child 0xc0002100, N_mutex_get 0xc0002100, N_wait 0xc0002100, M_wait (TaskMutex 0xc0002100),
      M_task (TaskMutex 0xc0002100), N_prio_running 0xc0002100, N_system 0xc0002100, N_sleep 0xc0002100, N_idle 0xc0002100}"
    then have "slab_demo_F n = None"
      using slab_demo_F_task [of "0xc0002100"] by (auto intro!: slab_demo_F_None simp: boot_lists_def boot_heads_def)
    then show "fresh slab_demo_F n" by (rule slab_demo_F_fresh)
  qed simp
  have same: "bank (sm slab_demo) = bank (machine (0xf # replicate 8 0))" "page_map (sm slab_demo) = 0xf # replicate 8 0"
    "kernel_start (sm slab_demo) = 0xc0000000" "length (page_table (sm slab_demo)) = 257"
    using slab_demo_ok(5) by (simp_all add: mm_same_def machine_def)
  have minv: "minv slab_demo_F (sm slab_demo)"
    using kinv zones machine_minv [of "0xf # replicate 8 0"] same by (simp add: minv_def machine_def)
  have z: "get_zone 0 (sm slab_demo) = Some demo_zone" using machine_zone [of "0xf # replicate 8 0"] same(1) by (simp add: get_zone_def)
  have wf: "zone_wf (page_map (sm slab_demo)) demo_zone" using machine_zone_wf [of "0xf # replicate 8 0"] same(2) by (simp add: machine_def)
  have bits: "bm_bit (page_map (sm slab_demo)) 0" "\<not> bm_bit (page_map (sm slab_demo)) 4"
    by (simp_all add: same(2) bm_bit_def)
  have idle: "page_idle slab_demo_F i" for i
    unfolding page_idle_def
  proof (intro conjI allI impI)
    show "slab_demo_F (N_page (word_of_int i)) \<in> {None, Some []}"
      using slab_demo_F_empty [of "N_page (word_of_int i)"] by (cases "slab_demo_F (N_page (word_of_int i))") auto
    fix r xs assume "slab_demo_F r = Some xs"
    then show "N_page (word_of_int i) \<notin> set xs" using slab_demo_F_empty [of r xs] by simp
  qed
  have "slab_demo_F (N_child 0x2000) = Some []" "slab_demo_F (N_slab 13) = Some []"
    by (simp_all add: slab_demo_F_def slab_init_lists_def demo_F_def boot_lists_def boot_heads_def)
  moreover have "\<exists>i. uint (bm_start demo_zone) \<le> i \<and> i < uint (bm_end demo_zone) \<and> \<not> bm_bit (page_map (sm slab_demo)) i"
    using bits(2) by (intro exI [of _ 4]) (simp add: demo_zone_def)
  ultimately show ?thesis
    using ready ok minv slab_demo_ok(2,3) un pid pinv z wf bits(1) idle same(3,4)
    by (simp add: fork_ready_def fork_demo_def demo_k(1) slab_page_def no_page_def demo_zone_def)
qed

theorem kthread_run_ready_witness:
  "\<exists>s'. kthread_run 0xc0100000 None 0xc0000400 7 fork_demo = Some (Some 0, s') \<and>
    t_state (task (tk s') 0xc0002100) = PROCESS_STATE_PREPARE \<and> t_pid (task (tk s') 0xc0002100) = 0 \<and>
    (\<forall>c. let d = sw_load (stack_base (task (tk s') 0xc0002100)) (wm s') c in c_pc d = 0xc0000400 \<and> c_gen d ! 0 = 7)"
proof -
  have a: "0xc0002100 = pg_free_base slab_page" by (simp add: slab_page_def)
  have "pid_current (tk fork_demo) = 0"
    using boot_sel(15) [of "0x2000" "0x1000" blank] by (simp add: fork_demo_def demo_k demo_ks_def booted_def)
  then show ?thesis
    using kthread_run_ready [OF fork_demo_ready _ a refl, of "0xc0000400" "0xc0100000" None 7] by (auto simp: Let_def)
qed

text \<open>A user task at \<open>0x5000\<close> whose page tables are the pages 5 and 6.\<close>

definition switch_demo :: tstate where
  "switch_demo = (let l = N_stack_list 0x5000; e = N_elf_list 0x5000;
       k = on_lists (\<lambda>h. list_add e (N_page 6) (init_list e (list_add l (N_page 5) (init_list l h)))) demo_ks;
       k = upd_task 0x5000 (\<lambda>ts. ts\<lparr>t_flag := PROCESS_TYPE_USER\<rparr>) k;
       m = (machine (0x7f # replicate 8 0))\<lparr>ks := k, page_table := (replicate 257 no_page)
         [5 := no_page\<lparr>phy_address := 0x30005000\<rparr>, 6 := no_page\<lparr>phy_address := 0x30006000\<rparr>]\<rparr>
     in fork_demo\<lparr>ss := slab_demo\<lparr>sm := m\<rparr>\<rparr>)"

abbreviation switch_F :: "node lists" where
  "switch_F \<equiv> demo_F(N_stack_list 0x5000 \<mapsto> [], N_stack_list 0x5000 \<mapsto> [N_page 5], N_elf_list 0x5000 \<mapsto> [], N_elf_list 0x5000 \<mapsto> [N_page 6])"

lemma switch_demo_tables:
  "list_rel (lists (tk switch_demo)) switch_F"
  "page_read (uint (5 :: u32)) (sm (ss switch_demo)) = Some (no_page\<lparr>phy_address := 0x30005000\<rparr>)"
  "page_read (uint (6 :: u32)) (sm (ss switch_demo)) = Some (no_page\<lparr>phy_address := 0x30006000\<rparr>)"
  "t_flag (task (tk switch_demo) 0x5000) AND PROCESS_TYPE_KERNEL = 0"
proof -
  let ?l = "N_stack_list 0x5000" and ?e = "N_elf_list 0x5000"
  have fr: "fresh demo_F ?l" "fresh demo_F ?e" "fresh demo_F (N_page i)" for i
    by (auto simp: fresh_def demo_F_def boot_lists_def boot_heads_def split: if_splits)
  have "list_rel (list_add ?e (N_page 6) (init_list ?e (list_add ?l (N_page 5) (init_list ?l (lists demo_ks))))) switch_F"
    using fr by (intro os_list.rel_add os_list.rel_init kinv_rel [OF demo_ks_kinv]) (auto simp: fresh_def split: if_splits)
  then show "list_rel (lists (tk switch_demo)) switch_F" by (simp add: switch_demo_def Let_def on_lists_def)
  show "page_read (uint (5 :: u32)) (sm (ss switch_demo)) = Some (no_page\<lparr>phy_address := 0x30005000\<rparr>)"
    "page_read (uint (6 :: u32)) (sm (ss switch_demo)) = Some (no_page\<lparr>phy_address := 0x30006000\<rparr>)"
    by (simp_all add: switch_demo_def Let_def page_read_def lget_def)
  show "t_flag (task (tk switch_demo) 0x5000) AND PROCESS_TYPE_KERNEL = 0" by (simp add: switch_demo_def Let_def)
qed

theorem switch_task_installs_witness:
  "\<exists>s'. switch_task 0x2000 0x5000 switch_demo = Some (0, s') \<and>
    wm s' (get_tlb_base + 4 * drop_bit 20 0x7fffff00) = user_des 0x30005000 3 \<and>
    wm s' (get_tlb_base + 4 * drop_bit 20 0x00401000) = user_des 0x30006000 0 \<and>
    wm s' (get_tlb_base + 4 * drop_bit 20 0x80000000) = 0"
proof -
  note d = switch_demo_tables
  have "(0x2000 :: u32) \<noteq> NULL" "(0x5000 :: u32) \<noteq> NULL" "switch_F (N_stack_list 0x5000) = Some [N_page 5]" "switch_F (N_elf_list 0x5000) = Some [N_page 6]"
    by simp_all
  from switch_task_installs [OF d(1) this(1,2) d(4) this(3) d(2) this(4) d(3)]
  obtain w where w: "switch_task 0x2000 0x5000 switch_demo = Some (0, switch_demo\<lparr>wm := w\<rparr>)"
    and va: "\<forall>va. w (get_tlb_base + 4 * drop_bit 20 va) =
      (let mb = drop_bit 20 va in
       if 0x7fc00000 \<le> va \<and> va < 0x80000000 then user_des (phy_address (no_page\<lparr>phy_address := 0x30005000\<rparr>)) (mb - 0x7fc)
       else if 0x400000 \<le> va \<and> va < 0x800000 then user_des (phy_address (no_page\<lparr>phy_address := 0x30006000\<rparr>)) (mb - 4)
       else wm switch_demo (get_tlb_base + 4 * mb))"
    by blast
  have "wm switch_demo x = 0" for x by (simp add: switch_demo_def fork_demo_def Let_def)
  then show ?thesis
    using w spec [OF va, of "0x7fffff00"] spec [OF va, of "0x00401000"] spec [OF va, of "0x80000000"]
    by (intro exI [of _ "switch_demo\<lparr>wm := w\<rparr>"]) (simp add: Let_def)
qed

end
