(* ===== verification/Ramdisk.thy ===== *)
theory Ramdisk
  imports Task
begin

text \<open>
  The file system in memory, \<^verbatim>\<open>kernel/ramdisk.c\<close>, and the host program that makes its image,
  \<^verbatim>\<open>tools/genramdisk/genramdisk.c\<close>.  The headers of the image are read from the memory of bytes; an
  open \<^verbatim>\<open>struct file\<close> is a record known by its address.
\<close>

section \<open>Words in the memory of bytes\<close>

definition get32 :: "mem \<Rightarrow> u32 \<Rightarrow> u32" where
  "get32 m a = of_nat (unat (m a) + 256 * unat (m (a + 1)) + 65536 * unat (m (a + 2)) + 16777216 * unat (m (a + 3)))"

definition le32 :: "u32 \<Rightarrow> u8 list" where
  "le32 w = [ucast w, ucast (drop_bit 8 w), ucast (drop_bit 16 w), ucast (drop_bit 24 w)]"

definition put32 :: "u32 \<Rightarrow> u32 \<Rightarrow> mem \<Rightarrow> mem" where
  "put32 a w m = write_bytes a (le32 w) m"

section \<open>State\<close>

record os_file =
  f_base :: u32
  f_size :: u32
  f_curr :: u32

text \<open>
  \<open>ramdisk_start\<close> is \<^verbatim>\<open>__ramdisk_start\<close>, a word the linker fills; \<open>ramdisk_header\<close> and
  \<open>file_header\<close> are the static pointers.
\<close>

record fstate =
  ft :: tstate
  ramdisk_start :: u32
  ramdisk_header :: u32
  file_header :: u32
  files :: "u32 \<Rightarrow> os_file"

definition ft_op :: "('a, tstate) kop \<Rightarrow> ('a, fstate) kop" where
  "ft_op f s = do { (r, t) \<leftarrow> f (ft s); Some (r, s\<lparr>ft := t\<rparr>) }"

definition on_file :: "u32 \<Rightarrow> (os_file \<Rightarrow> os_file) \<Rightarrow> fstate \<Rightarrow> fstate" where
  "on_file a f s = s\<lparr>files := (files s)(a := f (files s a))\<rparr>"

definition on_bytes :: "(mem \<Rightarrow> mem) \<Rightarrow> fstate \<Rightarrow> fstate" where
  "on_bytes f s = s\<lparr>ft := (ft s)\<lparr>bm := f (bm (ft s))\<rparr>\<rparr>"

text \<open>\<^verbatim>\<open>sizeof\<close> of the two headers and of \<^verbatim>\<open>struct file\<close>.\<close>

abbreviation (input) RAMDISK_HEADER_SIZE :: u32 where "RAMDISK_HEADER_SIZE \<equiv> 32"
abbreviation (input) FILE_HEADER_SIZE :: u32 where "FILE_HEADER_SIZE \<equiv> 40"
abbreviation (input) FILE_SIZE :: int where "FILE_SIZE \<equiv> 12"

text \<open>The members of the headers that the kernel reads.\<close>

definition file_count :: "mem \<Rightarrow> u32 \<Rightarrow> int" where
  "file_count m h = sint (get32 m (h + 20))"

definition fh_base :: "mem \<Rightarrow> u32 \<Rightarrow> u32" where
  "fh_base m h = get32 m (h + 32)"

definition fh_size :: "mem \<Rightarrow> u32 \<Rightarrow> u32" where
  "fh_size m h = get32 m (h + 36)"

section \<open>Operations\<close>

text \<open>\<open>lit\<close> is the address of the string \<^verbatim>\<open>"ramdisk"\<close>.\<close>

definition mount_ramdisk :: "u32 \<Rightarrow> fstate \<Rightarrow> (u32 \<times> fstate) option" where
  "mount_ramdisk lit s =
     (let start = ramdisk_start s in
      if start = 0 then Some (start, s)
      else do {
        let s = s\<lparr>ramdisk_header := start\<rparr>;
        c \<leftarrow> strcmp (ramdisk_header s) lit (bm (ft s));
        if c \<noteq> 0 then Some (start, s\<lparr>ramdisk_header := NULL\<rparr>)
        else Some (start, s\<lparr>file_header := start + RAMDISK_HEADER_SIZE\<rparr>)
      })"

text \<open>
  The value of \<^verbatim>\<open>file->curr\<close>, which the code reads before it tests the pointer, is not used when the
  pointer is null.
\<close>

definition ramdisk_read :: "u32 \<Rightarrow> u32 \<Rightarrow> int \<Rightarrow> fstate \<Rightarrow> int \<times> fstate" where
  "ramdisk_read file buf sz s =
     (let f = files s file; start = f_curr f in
      if file = NULL then (0, s)
      else
        (let copy_size = (if f_base f + f_size f < start + word_of_int sz
               then sint (f_base f + f_size f - start) else sz);
             copy_size = (if copy_size < 0 then 0 else copy_size);
             s = on_bytes (memcpy buf start (word_of_int copy_size)) s;
             s = on_file file (\<lambda>f. f\<lparr>f_curr := f_curr f + word_of_int copy_size\<rparr>) s
         in (copy_size, s)))"

definition ramdisk_seek :: "u32 \<Rightarrow> u32 \<Rightarrow> fstate \<Rightarrow> int \<times> fstate" where
  "ramdisk_seek file offset s =
     (if file = NULL then (- EINVAL, s)
      else if f_size (files s file) < offset
      then (0, on_file file (\<lambda>f. f\<lparr>f_curr := f_base f + f_size f\<rparr>) s)
      else (0, on_file file (\<lambda>f. f\<lparr>f_curr := f_base f + offset\<rparr>) s))"

text \<open>The loop of \<^verbatim>\<open>ramdisk_open\<close> with the number of headers left.\<close>

fun open_loop :: "nat \<Rightarrow> u32 \<Rightarrow> u32 \<Rightarrow> (u32, fstate) kop" where
  "open_loop 0 name temp = kret NULL"
| "open_loop (Suc n) name temp =
     (\<lambda>s. do {
       c \<leftarrow> strcmp name temp (bm (ft s));
       if c = 0 then
         kthen (ft_op (slab_op (kmalloc FILE_SIZE GFP_KERNEL))) (\<lambda>file.
         if file = NULL then kret NULL
         else kthen (kmod (\<lambda>s. Some (on_file file (\<lambda>f.
                let b = ramdisk_start s + fh_base (bm (ft s)) temp
                in f\<lparr>f_base := b, f_size := fh_size (bm (ft s)) temp, f_curr := b\<rparr>) s))) (\<lambda>_. kret file)) s
       else open_loop n name (temp + FILE_HEADER_SIZE) s
     })"

definition ramdisk_open :: "u32 \<Rightarrow> (u32, fstate) kop" where
  "ramdisk_open name s =
     (if ramdisk_header s = NULL then None
      else open_loop (nat (file_count (bm (ft s)) (ramdisk_header s))) name (file_header s) s)"

text \<open>\<^verbatim>\<open>if (!file) kfree((void *)file);\<close>.\<close>

definition ramdisk_close :: "u32 \<Rightarrow> u32 \<Rightarrow> (unit, fstate) kop" where
  "ramdisk_close page_base file =
     (if file = NULL then ft_op (slab_op (kfree page_base file)) else kret ())"

section \<open>The program that makes the image\<close>

text \<open>
  An entry of the directory: its name and, when it can be opened, the bytes that reading it gives and whether
  \<^verbatim>\<open>read\<close> fails after them, as it does at once for a directory.  Addresses are
  offsets in the buffer.  The host has the byte order of the target.
\<close>

type_synonym dirent = "u8 list \<times> (u8 list \<times> bool) option"

abbreviation (input) RAMDISK_MAX_SIZE :: int where "RAMDISK_MAX_SIZE \<equiv> 1024 * 1024"

text \<open>
  The loop that reads a file in pieces of 512 bytes; \<^verbatim>\<open>read\<close> returns -1 when it fails, which the loop takes for a
  size; \<open>hdr\<close> is the header of the file and \<open>data\<close> where
  the next piece goes.  The result says whether the image fits.
\<close>

function read_file :: "u8 list \<Rightarrow> bool \<Rightarrow> int \<Rightarrow> int \<Rightarrow> mem \<Rightarrow> bool \<times> int \<times> mem" where
  "read_file xs fails hdr data m =
     (let chunk = take 512 xs; read_size = (if chunk = [] \<and> fails then - 1 else int (length chunk));
          m = write_bytes (word_of_int data) chunk m;
          data = data + read_size
      in if data > RAMDISK_MAX_SIZE then (False, data, m)
         else
           (let m = put32 (word_of_int hdr + 36) (get32 m (word_of_int hdr + 36) + word_of_int read_size) m
            in if read_size = 512 then read_file (drop 512 xs) fails hdr data m else (True, data, m)))"
  by pat_completeness auto
termination
  by (relation "measure (\<lambda>(xs, _). length xs)") (auto split: if_splits)

declare read_file.simps [simp del]

text \<open>
  The loop over the directory; \<open>path\<close> is the length of the path, whose names are put together in
  \<^verbatim>\<open>temp[123]\<close>.
\<close>

fun gen_files :: "nat \<Rightarrow> dirent list \<Rightarrow> int \<Rightarrow> int \<Rightarrow> mem \<Rightarrow> (bool \<times> int \<times> mem) option" where
  "gen_files path [] hdr data m = Some (True, data, m)"
| "gen_files path ((name, content) # ds) hdr data m =
     (if name = [46] \<or> name = [46, 46] then gen_files path ds hdr data m
      else if path + 1 + length name + 1 > 123 then None
      else
        (case content of
           None \<Rightarrow> gen_files path ds hdr data m
         | Some (xs, fails) \<Rightarrow>
             (let m = write_bytes (word_of_int hdr) (name @ [0]) m;
                  m = put32 (word_of_int hdr + 32) (word_of_int data) m;
                  m = put32 (word_of_int hdr + 36) 0 m;
                  (ok, data, m) = read_file xs fails hdr data m
              in if \<not> ok then Some (False, data, m)
                 else
                   (let fsize = get32 m (word_of_int hdr + 36);
                        data = (if fsize mod 4 \<noteq> 0 then data + (4 - uint (fsize mod 4)) else data)
                    in gen_files path ds (hdr + 40) data m))))"

text \<open>\<^verbatim>\<open>__gen_ramdisk\<close>: the error and the bytes that are written.\<close>

definition gen_ramdisk :: "nat \<Rightarrow> dirent list option \<Rightarrow> mem \<Rightarrow> (int \<times> u8 list option) option" where
  "gen_ramdisk path dir buf =
     (case dir of
        None \<Rightarrow> Some (- 13, None)
      | Some ds \<Rightarrow> do {
          let count = int (length ds) - 2;
          (ok, data, m) \<leftarrow> gen_files path ds 32 (32 + count * 40) buf;
          if \<not> ok then Some (- ENOMEM, None)
          else do {
            let m = write_bytes 0 [114, 97, 109, 100, 105, 115, 107, 0] m;
            let m = put32 20 (word_of_int count) m;
            let m = put32 16 (word_of_int data) m;
            Some (0, Some (map (\<lambda>i. m (of_nat i)) [0..<nat data]))
          }
        })"

end
