(* ===== verification/RamdiskProps.thy ===== *)
theory RamdiskProps
  imports Ramdisk SlabProps
begin

text \<open>
  The image that \<^verbatim>\<open>genramdisk\<close> makes, and that the kernel finds every file in it; what a read returns.
\<close>

section \<open>Bytes at small addresses\<close>

lemma of_nat_eq_u32: "j < 2 ^ 32 \<Longrightarrow> k < 2 ^ 32 \<Longrightarrow> (of_nat j :: u32) = of_nat k \<longleftrightarrow> j = k"
  by (metis unat_of_nat_u32 mod_less)

lemma write_bytes_at:
  "d + length xs \<le> 2 ^ 32 \<Longrightarrow> k < 2 ^ 32 \<Longrightarrow>
   write_bytes (of_nat d) xs m (of_nat k) = (if d \<le> k \<and> k < d + length xs then xs ! (k - d) else m (of_nat k))"
proof (induction xs arbitrary: d m)
  case (Cons x xs)
  have "(of_nat d + 1 :: u32) = of_nat (Suc d)" by simp
  moreover have "d < 2 ^ 32" using Cons.prems by simp
  ultimately show ?case using Cons of_nat_eq_u32 [of k d] by (auto simp: nth_Cons' not_less simp del: of_nat_Suc)
qed auto

lemma has_bytes_at: "has_bytes m p xs \<longleftrightarrow> (\<forall>i < length xs. m (p + of_nat i) = xs ! i)"
proof (induction xs arbitrary: p)
  case (Cons x xs)
  show ?case unfolding has_bytes.simps Cons by (auto simp: less_Suc_eq_0_disj add.assoc)
qed simp

lemma has_bytes_append: "has_bytes m p (xs @ ys) \<longleftrightarrow> has_bytes m p xs \<and> has_bytes m (p + of_nat (length xs)) ys"
  by (induction xs arbitrary: p) (simp_all add: add.assoc)

lemma le32_get: "has_bytes m a (le32 w) \<Longrightarrow> get32 m a = w"
proof -
  assume "has_bytes m a (le32 w)"
  then have b: "m a = ucast w" "m (a + 1) = ucast (drop_bit 8 w)" "m (a + 2) = ucast (drop_bit 16 w)" "m (a + 3) = ucast (drop_bit 24 w)"
    by (simp_all add: le32_def add.assoc)
  have u: "unat (ucast v :: u8) = unat v mod 256" for v :: u32
    by (simp add: unsigned_ucast_eq take_bit_eq_mod)
  have "unat w < 2 ^ 32" using unsigned_less [of w, where 'a = nat] by simp
  then have "unat w mod 256 + 256 * (unat w div 256 mod 256) + 65536 * (unat w div 65536 mod 256) + 16777216 * (unat w div 16777216 mod 256) = unat w"
  proof -
    let ?n = "unat w"
    have "?n div 16777216 mod 256 = ?n div 16777216" using \<open>unat w < 2 ^ 32\<close> by (simp add: div_less_mono less_mult_imp_div_less)
    moreover have "?n div 65536 = 256 * (?n div 16777216) + ?n div 65536 mod 256"
      using div_mult_mod_eq [of "?n div 65536" 256] by (simp add: div_mult2_eq [symmetric])
    moreover have "?n div 256 = 256 * (?n div 65536) + ?n div 256 mod 256"
      using div_mult_mod_eq [of "?n div 256" 256] by (simp add: div_mult2_eq [symmetric])
    moreover have "?n = 256 * (?n div 256) + ?n mod 256" by simp
    ultimately show ?thesis by linarith
  qed
  moreover have "(2 :: nat) ^ 8 = 256" "(2 :: nat) ^ 16 = 65536" "(2 :: nat) ^ 24 = 16777216" by simp_all
  ultimately show ?thesis unfolding get32_def b u unat_drop_bit by (simp only: of_nat_unat ucast_id)
qed

lemma le32_length [simp]: "length (le32 w) = 4"
  by (simp add: le32_def)

text \<open>Two memories that agree on \<open>n\<close> bytes.\<close>

lemma get32_cong: "(\<And>i. i < 4 \<Longrightarrow> m' (b + of_nat i) = m (a + of_nat i)) \<Longrightarrow> get32 m' b = get32 m a"
proof -
  assume a: "\<And>i. i < 4 \<Longrightarrow> m' (b + of_nat i) = m (a + of_nat i)"
  show ?thesis using a [of 0] a [of 1] a [of 2] a [of 3] by (simp add: get32_def)
qed

lemma put32_get: "get32 (put32 a w m) a = w"
  by (rule le32_get) (simp add: put32_def has_bytes_write)

lemma put32_at:
  "h + 4 \<le> 2 ^ 32 \<Longrightarrow> k < 2 ^ 32 \<Longrightarrow> \<not> (h \<le> k \<and> k < h + 4) \<Longrightarrow> put32 (of_nat h) w m (of_nat k) = m (of_nat k)"
  by (auto simp: put32_def write_bytes_at)

section \<open>One file\<close>

text \<open>\<open>m'\<close> differs from \<open>m\<close> only at the offsets \<open>D\<close>.\<close>

definition only_at :: "nat set \<Rightarrow> mem \<Rightarrow> mem \<Rightarrow> bool" where
  "only_at D m m' \<longleftrightarrow> (\<forall>k < 2 ^ 32. k \<notin> D \<longrightarrow> m' (of_nat k) = m (of_nat k))"

lemma only_at_refl: "only_at D m m"
  by (simp add: only_at_def)

lemma only_at_trans: "only_at D m m1 \<Longrightarrow> only_at E m1 m2 \<Longrightarrow> only_at (D \<union> E) m m2"
  by (simp add: only_at_def)

lemma only_at_mono: "only_at D m m' \<Longrightarrow> D \<subseteq> E \<Longrightarrow> only_at E m m'"
  by (auto simp: only_at_def)

lemma only_at_write: "d + length xs \<le> 2 ^ 32 \<Longrightarrow> only_at {d ..< d + length xs} m (write_bytes (of_nat d) xs m)"
  by (simp add: only_at_def write_bytes_at)

lemma only_at_put: "h + 4 \<le> 2 ^ 32 \<Longrightarrow> only_at {h ..< h + 4} m (put32 (of_nat h) w m)"
  by (simp add: only_at_def put32_at)

lemma only_at_bytes:
  "only_at D m m' \<Longrightarrow> D \<inter> {d ..< d + length xs} = {} \<Longrightarrow> d + length xs \<le> 2 ^ 32 \<Longrightarrow>
   has_bytes m' (of_nat d) xs \<longleftrightarrow> has_bytes m (of_nat d) xs"
proof -
  assume o: "only_at D m m'" "D \<inter> {d ..< d + length xs} = {}" "d + length xs \<le> 2 ^ 32"
  have "m' (of_nat d + of_nat i) = m (of_nat d + of_nat i)" if "i < length xs" for i
  proof -
    have "d + i \<in> {d ..< d + length xs}" "d + i < 2 ^ 32" using that o(3) by auto
    then have "m' (of_nat (d + i)) = m (of_nat (d + i))" using o(1,2) unfolding only_at_def by blast
    then show ?thesis by simp
  qed
  then show ?thesis by (simp add: has_bytes_at)
qed

lemma only_at_get:
  "only_at D m m' \<Longrightarrow> D \<inter> {h ..< h + 4} = {} \<Longrightarrow> h + 4 \<le> 2 ^ 32 \<Longrightarrow> get32 m' (of_nat h) = get32 m (of_nat h)"
proof -
  assume o: "only_at D m m'" "D \<inter> {h ..< h + 4} = {}" "h + 4 \<le> 2 ^ 32"
  have "m' (of_nat h + of_nat i) = m (of_nat h + of_nat i)" if "i < 4" for i
  proof -
    have "h + i \<in> {h ..< h + 4}" "h + i < 2 ^ 32" using that o(3) by auto
    then have "m' (of_nat (h + i)) = m (of_nat (h + i))" using o(1,2) unfolding only_at_def by blast
    then show ?thesis by simp
  qed
  then show ?thesis by (rule get32_cong)
qed

lemma write_then_has: "d + length xs \<le> 2 ^ 32 \<Longrightarrow> length xs < 2 ^ 32 \<Longrightarrow> has_bytes (write_bytes (of_nat d) xs m) (of_nat d) xs"
  by (rule has_bytes_write)

text \<open>Reading a file that fits.\<close>

lemma read_file_spec:
  assumes "h + 40 \<le> d" "d + length xs \<le> 1048576"
  shows "\<exists>m'. read_file xs False (int h) (int d) m = (True, int (d + length xs), m') \<and>
    has_bytes m' (of_nat d) xs \<and> get32 m' (of_nat h + 36) = get32 m (of_nat h + 36) + of_nat (length xs) \<and>
    only_at ({h + 36 ..< h + 40} \<union> {d ..< d + length xs}) m m'"
  using assms
proof (induction xs arbitrary: d m rule: length_induct)
  case (1 xs)
  let ?c = "take 512 xs"
  let ?n = "length ?c"
  let ?m1 = "write_bytes (of_nat d) ?c m"
  let ?s = "get32 m (of_nat h + 36) + of_nat ?n"
  let ?m2 = "put32 (of_nat h + 36) ?s ?m1"
  have h36: "(of_nat h + 36 :: u32) = of_nat (h + 36)" by simp
  have n: "?n \<le> length xs" by simp
  have o1: "only_at {d ..< d + ?n} m ?m1" using 1(2,3) by (intro only_at_write) simp
  have o2: "only_at {h + 36 ..< h + 40} ?m1 ?m2"
    using only_at_put [of "h + 36" ?m1 ?s] 1(2,3) unfolding h36 by (simp add: add.assoc del: of_nat_add)
  have o: "only_at ({h + 36 ..< h + 40} \<union> {d ..< d + ?n}) m ?m2"
    using only_at_trans [OF o1 o2] by (simp only: Un_commute)
  have dis: "{d ..< e} \<inter> {h + 36 ..< h + 36 + 4} = {}" "{h + 36 ..< h + 40} \<inter> {d ..< e} = {}" for e using 1(2) by auto
  have g1: "get32 ?m1 (of_nat h + 36) = get32 m (of_nat h + 36)"
    unfolding h36 using 1(2,3) by (intro only_at_get [OF o1 dis(1)]) simp
  have g2: "get32 ?m2 (of_nat h + 36) = ?s" by (rule put32_get)
  have b1: "has_bytes ?m1 (of_nat d) ?c" using 1(2,3) by (intro has_bytes_write) simp
  have b2: "has_bytes ?m2 (of_nat d) ?c"
    using only_at_bytes [OF o2 dis(2)] b1 1(2,3) by simp
  have step: "read_file xs False (int h) (int d) m =
      (if ?n = 512 then read_file (drop 512 xs) False (int h) (int (d + ?n)) ?m2 else (True, int (d + ?n), ?m2))"
  proof -
    have "\<not> 1024 * 1024 < int d + int ?n" using 1(3) n by linarith
    then show ?thesis by (subst read_file.simps) (simp add: Let_def g1)
  qed
  show ?case
  proof (cases "?n = 512")
    case False
    then have "?c = xs" by simp
    with False step b2 g2 o show ?thesis by auto
  next
    case True
    let ?r = "drop 512 xs"
    have len: "length xs = 512 + length ?r" using True by simp
    have "length ?r < length xs" using len by linarith
    moreover have "h + 40 \<le> d + ?n" using 1(2) by linarith
    moreover have "d + ?n + length ?r \<le> 1048576" using 1(3) len True by linarith
    ultimately obtain m' where m': "read_file ?r False (int h) (int (d + ?n)) ?m2 = (True, int (d + ?n + length ?r), m')"
      "has_bytes m' (of_nat (d + ?n)) ?r" "get32 m' (of_nat h + 36) = get32 ?m2 (of_nat h + 36) + of_nat (length ?r)"
      "only_at ({h + 36 ..< h + 40} \<union> {d + ?n ..< d + ?n + length ?r}) ?m2 m'"
      using 1(1) by blast
    have "has_bytes m' (of_nat d) ?c"
    proof -
      have "({h + 36 ..< h + 40} \<union> {d + ?n ..< d + ?n + length ?r}) \<inter> {d ..< d + length ?c} = {}" using 1(2) by auto
      moreover have "d + length ?c \<le> 2 ^ 32" using 1(3) n by simp
      ultimately show ?thesis using only_at_bytes [OF m'(4)] b2 by blast
    qed
    then have "has_bytes m' (of_nat d) (?c @ ?r)" unfolding has_bytes_append using m'(2) by simp
    moreover have "only_at ({h + 36 ..< h + 40} \<union> {d ..< d + length xs}) m m'"
      using only_at_trans [OF o m'(4)] 
    proof (rule only_at_mono)
      have "d + ?n \<le> d + length xs" "d + ?n + length ?r = d + length xs" using len True by linarith+
      then have "{d ..< d + ?n} \<subseteq> {d ..< d + length xs}" "{d + ?n ..< d + ?n + length ?r} \<subseteq> {d ..< d + length xs}"
        by (auto simp del: length_take length_drop)
      then show "{h + 36 ..< h + 40} \<union> {d ..< d + ?n} \<union> ({h + 36 ..< h + 40} \<union> {d + ?n ..< d + ?n + length ?r}) \<subseteq>
        {h + 36 ..< h + 40} \<union> {d ..< d + length xs}" by blast
    qed
    moreover have "get32 m' (of_nat h + 36) = get32 m (of_nat h + 36) + of_nat (length xs)"
    proof -
      have "(of_nat (length xs) :: u32) = of_nat ?n + of_nat (length ?r)" unfolding True using len by (metis of_nat_add)
      then show ?thesis unfolding m'(3) g2 by (simp only: add.assoc)
    qed
    moreover have "?c @ ?r = xs" "d + ?n + length ?r = d + length xs" using len True by (simp, linarith)
    ultimately show ?thesis using step m'(1) by (intro exI [of _ m']) (simp only: True if_True simp_thms)
  qed
qed

text \<open>A failing \<^verbatim>\<open>read\<close> moves the position back by one and makes the size one less.\<close>

lemma read_file_fails:
  assumes "data \<le> 1048576"
  shows "read_file [] True hdr data m =
    (True, data - 1, put32 (word_of_int hdr + 36) (get32 m (word_of_int hdr + 36) - 1) m)"
  using assms by (subst read_file.simps) (simp add: Let_def)

section \<open>The whole image\<close>

definition is_dot :: "u8 list \<Rightarrow> bool" where
  "is_dot n \<longleftrightarrow> n = [46] \<or> n = [46, 46]"

text \<open>The files of a directory, and the size of a file with its padding.\<close>

fun dir_files :: "dirent list \<Rightarrow> (u8 list \<times> u8 list) list" where
  "dir_files [] = []"
| "dir_files ((n, None) # ds) = dir_files ds"
| "dir_files ((n, Some (xs, e)) # ds) = (if is_dot n then dir_files ds else (n, xs) # dir_files ds)"

definition pad4 :: "nat \<Rightarrow> nat" where
  "pad4 n = (if n mod 4 = 0 then n else n + (4 - n mod 4))"

primrec data_end :: "(u8 list \<times> u8 list) list \<Rightarrow> nat \<Rightarrow> nat" where
  "data_end [] d = d"
| "data_end (f # fs) d = data_end fs (d + pad4 (length (snd f)))"

lemma data_end_ge: "d \<le> data_end fs d"
proof (induction fs arbitrary: d)
  case (Cons f fs)
  have "d \<le> d + pad4 (length (snd f))" by simp
  also have "\<dots> \<le> data_end fs (d + pad4 (length (snd f)))" by (rule Cons)
  finally show ?case by simp
qed simp

lemma pad4_ge: "n \<le> pad4 n"
  using mod_less_divisor [of 4 n] by (auto simp: pad4_def)

text \<open>
  The headers of \<open>fs\<close> from offset \<open>h\<close> on and their data from offset \<open>d\<close> on, in an image at \<open>base\<close>.
\<close>

fun layout :: "u32 \<Rightarrow> (u8 list \<times> u8 list) list \<Rightarrow> nat \<Rightarrow> nat \<Rightarrow> mem \<Rightarrow> bool" where
  "layout base [] h d m \<longleftrightarrow> True"
| "layout base ((n, xs) # fs) h d m \<longleftrightarrow>
     has_bytes m (base + of_nat h) (n @ [0]) \<and> get32 m (base + of_nat (h + 32)) = of_nat d \<and>
     get32 m (base + of_nat (h + 36)) = of_nat (length xs) \<and> has_bytes m (base + of_nat d) xs \<and>
     layout base fs (h + 40) (d + pad4 (length xs)) m"

text \<open>The layout is that of a copy of the image.\<close>

lemma layout_move:
  assumes "layout b fs h d m" "h + 40 * length fs \<le> d" "\<And>f. f \<in> set fs \<Longrightarrow> length (fst f) \<le> 31"
    "\<And>k. h \<le> k \<Longrightarrow> k < h + 40 * length fs \<Longrightarrow> m' (b' + of_nat k) = m (b + of_nat k)"
    "\<And>k. d \<le> k \<Longrightarrow> k < data_end fs d \<Longrightarrow> m' (b' + of_nat k) = m (b + of_nat k)"
  shows "layout b' fs h d m'"
  using assms
proof (induction fs arbitrary: h d)
  case (Cons f fs)
  obtain n xs where f: "f = (n, xs)" by (cases f)
  let ?d = "d + pad4 (length xs)"
  have d: "d + length xs \<le> data_end fs ?d"
    using pad4_ge [of "length xs"] data_end_ge [of ?d fs] by linarith
  have n: "length n \<le> 31" using Cons.prems(3) [of f] f by simp
  have a: "m' (b' + of_nat h + of_nat i) = m (b + of_nat h + of_nat i)" if "i < 40" for i
    using Cons.prems(4) [of "h + i"] that by (simp add: add.assoc)
  have "has_bytes m' (b' + of_nat h) (n @ [0]) = has_bytes m (b + of_nat h) (n @ [0])"
    unfolding has_bytes_at using n a by simp
  moreover have g: "get32 m' (b' + of_nat (h + j)) = get32 m (b + of_nat (h + j))" if "j \<le> 36" for j
    using a [of "j + _"] that by (intro get32_cong) (simp add: add.assoc)
  moreover note g [of 32] g [of 36]
  moreover have "has_bytes m' (b' + of_nat d) xs = has_bytes m (b + of_nat d) xs"
    unfolding has_bytes_at
  proof (intro all_cong1 imp_cong refl)
    fix i assume "i < length xs"
    then have "d \<le> d + i" "d + i < data_end (f # fs) d" using d f by simp_all
    from Cons.prems(5) [OF this] show "(m' (b' + of_nat d + of_nat i) = xs ! i) = (m (b + of_nat d + of_nat i) = xs ! i)"
      by (simp add: add.assoc)
  qed
  moreover have "layout b' fs (h + 40) ?d m'"
  proof (rule Cons.IH)
    show "layout b fs (h + 40) ?d m" using Cons.prems(1) f by simp
    show "h + 40 + 40 * length fs \<le> ?d" using Cons.prems(2) by simp
    show "length (fst g) \<le> 31" if "g \<in> set fs" for g using Cons.prems(3) that by simp
    show "m' (b' + of_nat k) = m (b + of_nat k)" if "h + 40 \<le> k" "k < h + 40 + 40 * length fs" for k
      using Cons.prems(4) that by simp
    show "m' (b' + of_nat k) = m (b + of_nat k)" if "?d \<le> k" "k < data_end fs ?d" for k
      using Cons.prems(5) [of k] that f by simp
  qed
  ultimately show ?case using Cons.prems(1) unfolding f layout.simps by simp
qed simp

lemma layout_only_at:
  assumes "layout 0 fs h d m" "h + 40 * length fs \<le> d" "\<And>f. f \<in> set fs \<Longrightarrow> length (fst f) \<le> 31"
    "only_at D m m'" "D \<inter> ({h ..< h + 40 * length fs} \<union> {d ..< data_end fs d}) = {}" "data_end fs d \<le> 2 ^ 32"
  shows "layout 0 fs h d m'"
proof (rule layout_move [OF assms(1,2,3)])
  fix k assume k: "h \<le> k" "k < h + 40 * length fs"
  moreover have "k < 2 ^ 32" using k assms(2,6) data_end_ge [of d fs] by linarith
  ultimately have "m' (of_nat k) = m (of_nat k)" using assms(4,5) unfolding only_at_def by auto
  then show "m' (0 + of_nat k) = m (0 + of_nat k)" by simp
next
  fix k assume k: "d \<le> k" "k < data_end fs d"
  then have "k < 2 ^ 32" using assms(6) by linarith
  with k have "m' (of_nat k) = m (of_nat k)" using assms(4,5) unfolding only_at_def by auto
  then show "m' (0 + of_nat k) = m (0 + of_nat k)" by simp
qed

text \<open>Every entry that is not the directory or its parent can be opened and read and has a name that fits.\<close>

definition dir_ok :: "nat \<Rightarrow> dirent list \<Rightarrow> bool" where
  "dir_ok path ds \<longleftrightarrow> (\<forall>(n, c) \<in> set ds. is_dot n \<or> (\<exists>xs. c = Some (xs, False)) \<and> length n \<le> 31 \<and> path + length n \<le> 121)"

lemma dir_files_names: "dir_ok path ds \<Longrightarrow> f \<in> set (dir_files ds) \<Longrightarrow> length (fst f) \<le> 31"
  by (induction ds rule: dir_files.induct) (auto simp: dir_ok_def split: if_splits)

text \<open>The header and the data of one file.\<close>

definition gen_header :: "u8 list \<Rightarrow> nat \<Rightarrow> nat \<Rightarrow> mem \<Rightarrow> mem" where
  "gen_header n h d m = put32 (of_nat h + 36) 0 (put32 (of_nat h + 32) (of_nat d) (write_bytes (of_nat h) (n @ [0]) m))"

lemma gen_header_spec:
  assumes "length n \<le> 31" "h + 40 \<le> 1048576"
  shows "has_bytes (gen_header n h d m) (of_nat h) (n @ [0])" "get32 (gen_header n h d m) (of_nat (h + 32)) = of_nat d"
    "get32 (gen_header n h d m) (of_nat h + 36) = 0" "only_at {h ..< h + 40} m (gen_header n h d m)"
proof -
  let ?m1 = "write_bytes (of_nat h) (n @ [0]) m" and ?g = "gen_header n h d m"
  let ?m2 = "put32 (of_nat (h + 32)) (of_nat d) ?m1"
  have g: "?g = put32 (of_nat (h + 36)) 0 ?m2" by (simp add: gen_header_def)
  have o1: "only_at {h ..< h + length (n @ [0])} m ?m1" using assms by (intro only_at_write) simp
  have o2: "only_at {h + 32 ..< h + 32 + 4} ?m1 ?m2" using assms by (intro only_at_put) simp
  have o3: "only_at {h + 36 ..< h + 36 + 4} ?m2 ?g" unfolding g using assms by (intro only_at_put) simp
  have o23: "only_at ({h + 32 ..< h + 32 + 4} \<union> {h + 36 ..< h + 36 + 4}) ?m1 ?g" by (rule only_at_trans [OF o2 o3])
  have "has_bytes ?m1 (of_nat h) (n @ [0])" using assms by (intro has_bytes_write) simp
  moreover have "({h + 32 ..< h + 32 + 4} \<union> {h + 36 ..< h + 36 + 4}) \<inter> {h ..< h + length (n @ [0])} = {}" using assms by auto
  moreover have "h + length (n @ [0]) \<le> 2 ^ 32" using assms by simp
  ultimately show "has_bytes ?g (of_nat h) (n @ [0])" using only_at_bytes [OF o23] by blast
  have "{h + 36 ..< h + 36 + 4} \<inter> {h + 32 ..< h + 32 + 4} = {}" by auto
  moreover have "h + 32 + 4 \<le> 2 ^ 32" using assms by simp
  ultimately have "get32 ?g (of_nat (h + 32)) = get32 ?m2 (of_nat (h + 32))" by (rule only_at_get [OF o3])
  then show "get32 ?g (of_nat (h + 32)) = of_nat d" by (simp only: put32_get)
  show "get32 ?g (of_nat h + 36) = 0" unfolding gen_header_def by (rule put32_get)
  show "only_at {h ..< h + 40} m ?g" by (rule only_at_mono [OF only_at_trans [OF o1 o23]]) (use assms in auto)
qed

lemma gen_file_spec:
  assumes "length n \<le> 31" "h + 40 \<le> d" "d + length xs \<le> 1048576"
  shows "\<exists>m'. read_file xs False (int h) (int d) (gen_header n h d m) = (True, int (d + length xs), m') \<and>
    has_bytes m' (of_nat h) (n @ [0]) \<and> get32 m' (of_nat (h + 32)) = of_nat d \<and> get32 m' (of_nat h + 36) = of_nat (length xs) \<and>
    has_bytes m' (of_nat d) xs \<and> only_at ({h ..< h + 40} \<union> {d ..< d + length xs}) m m'"
proof -
  have h: "h + 40 \<le> 1048576" using assms by linarith
  note g = gen_header_spec [OF assms(1) h, where d = d and m = m]
  let ?D = "{h + 36 ..< h + 40} \<union> {d ..< d + length xs}"
  obtain m' where m': "read_file xs False (int h) (int d) (gen_header n h d m) = (True, int (d + length xs), m')"
    "has_bytes m' (of_nat d) xs" "get32 m' (of_nat h + 36) = get32 (gen_header n h d m) (of_nat h + 36) + of_nat (length xs)"
    "only_at ?D (gen_header n h d m) m'"
    using read_file_spec [OF assms(2,3)] by blast
  have "?D \<inter> {h ..< h + length (n @ [0])} = {}" "h + length (n @ [0]) \<le> 2 ^ 32" using assms by auto
  with g(1) have "has_bytes m' (of_nat h) (n @ [0])" using only_at_bytes [OF m'(4)] by blast
  moreover have "?D \<inter> {h + 32 ..< h + 32 + 4} = {}" "h + 32 + 4 \<le> 2 ^ 32" using assms by auto
  with g(2) have "get32 m' (of_nat (h + 32)) = of_nat d" using only_at_get [OF m'(4)] by metis
  moreover have "only_at ({h ..< h + 40} \<union> {d ..< d + length xs}) m m'"
    by (rule only_at_mono [OF only_at_trans [OF g(4) m'(4)]]) auto
  ultimately show ?thesis using m'(1-3) g(3) by auto
qed

lemma pad4_next:
  "n < 2 ^ 32 \<Longrightarrow> (if (of_nat n :: u32) mod 4 \<noteq> 0 then int (d + n) + (4 - uint ((of_nat n :: u32) mod 4)) else int (d + n)) =
   int (d + pad4 n)"
proof -
  assume "n < 2 ^ 32"
  then have "unat ((of_nat n :: u32) mod 4) = n mod 4" by (simp add: unat_mod unat_of_nat_u32)
  then have "uint ((of_nat n :: u32) mod 4) = int (n mod 4)" by (metis uint_nat)
  moreover from this have "(of_nat n :: u32) mod 4 = 0 \<longleftrightarrow> n mod 4 = 0" by (metis of_nat_eq_0_iff uint_0_iff)
  ultimately show ?thesis using mod_less_divisor [of 4 n] by (auto simp: pad4_def)
qed

lemma gen_files_spec:
  assumes "dir_ok path ds" "h + 40 * length (dir_files ds) \<le> d" "data_end (dir_files ds) d \<le> 1048576"
  shows "\<exists>m'. gen_files path ds (int h) (int d) m = Some (True, int (data_end (dir_files ds) d), m') \<and>
    layout 0 (dir_files ds) h d m' \<and>
    only_at ({h ..< h + 40 * length (dir_files ds)} \<union> {d ..< data_end (dir_files ds) d}) m m'"
  using assms
proof (induction ds arbitrary: h d m)
  case Nil
  then show ?case by (simp add: only_at_refl)
next
  case (Cons e ds)
  obtain n c where e: "e = (n, c)" by (cases e)
  have ok: "dir_ok path ds" using Cons.prems(1) by (simp add: dir_ok_def)
  show ?case
  proof (cases "is_dot n")
    case True
    then have "dir_files (e # ds) = dir_files ds" by (cases c) (auto simp: e)
    moreover have "gen_files path (e # ds) (int h) (int d) m = gen_files path ds (int h) (int d) m"
      using True by (simp add: e is_dot_def)
    ultimately show ?thesis using Cons.IH [OF ok] Cons.prems by simp
  next
    case False
    then obtain xs where xs: "c = Some (xs, False)" and n: "length n \<le> 31" "path + length n \<le> 121"
      using Cons.prems(1) by (auto simp: dir_ok_def e)
    have fs: "dir_files (e # ds) = (n, xs) # dir_files ds" using False by (simp add: e xs)
    let ?fs = "dir_files ds" and ?d = "d + pad4 (length xs)"
    have hd: "h + 40 + 40 * length ?fs \<le> d" using Cons.prems(2) by (simp add: fs)
    have de: "data_end ?fs ?d \<le> 1048576" using Cons.prems(3) by (simp add: fs)
    have dx: "d + length xs \<le> ?d" "?d \<le> data_end ?fs ?d" using pad4_ge data_end_ge by simp_all
    have "h + 40 \<le> d" using hd by linarith
    moreover have "d + length xs \<le> 1048576" using dx de by linarith
    ultimately obtain m1 where m1: "read_file xs False (int h) (int d) (gen_header n h d m) = (True, int (d + length xs), m1)"
      "has_bytes m1 (of_nat h) (n @ [0])" "get32 m1 (of_nat (h + 32)) = of_nat d" "get32 m1 (of_nat h + 36) = of_nat (length xs)"
      "has_bytes m1 (of_nat d) xs" "only_at ({h ..< h + 40} \<union> {d ..< d + length xs}) m m1"
      using gen_file_spec [OF n(1)] by blast
    have "h + 40 + 40 * length ?fs \<le> ?d" using hd by simp
    then obtain m2 where m2: "gen_files path ds (int (h + 40)) (int ?d) m1 = Some (True, int (data_end ?fs ?d), m2)"
      "layout 0 ?fs (h + 40) ?d m2" "only_at ({h + 40 ..< h + 40 + 40 * length ?fs} \<union> {?d ..< data_end ?fs ?d}) m1 m2"
      using Cons.IH [OF ok _ de] by blast
    have "length xs < 2 ^ 32" using dx de by simp
    note pn = pad4_next [OF this, of d]
    have "gen_files path (e # ds) (int h) (int d) m = gen_files path ds (int (h + 40)) (if (of_nat (length xs) :: u32) mod 4 \<noteq> 0
        then int (d + length xs) + (4 - uint ((of_nat (length xs) :: u32) mod 4)) else int (d + length xs)) m1"
      using False n(2) m1(1) unfolding e xs gen_header_def by (simp add: is_dot_def Let_def m1(4) add.commute)
    then have "gen_files path (e # ds) (int h) (int d) m = gen_files path ds (int (h + 40)) (int ?d) m1" unfolding pn .
    moreover have "layout 0 ((n, xs) # ?fs) h d m2"
    proof -
      let ?D = "{h + 40 ..< h + 40 + 40 * length ?fs} \<union> {?d ..< data_end ?fs ?d}"
      have "?D \<inter> {h ..< h + length (n @ [0])} = {}" "h + length (n @ [0]) \<le> 2 ^ 32" using n hd de dx by auto
      then have "has_bytes m2 (of_nat h) (n @ [0])" using only_at_bytes [OF m2(3)] m1(2) by blast
      moreover have "?D \<inter> {h + 32 ..< h + 32 + 4} = {}" "h + 32 + 4 \<le> 2 ^ 32" using hd de dx by auto
      then have "get32 m2 (of_nat (h + 32)) = of_nat d" using only_at_get [OF m2(3)] m1(3) by metis
      moreover have "?D \<inter> {h + 36 ..< h + 36 + 4} = {}" "h + 36 + 4 \<le> 2 ^ 32" using hd de dx by auto
      then have "get32 m2 (of_nat (h + 36)) = get32 m1 (of_nat (h + 36))" using only_at_get [OF m2(3)] by blast
      moreover have "?D \<inter> {d ..< d + length xs} = {}" "d + length xs \<le> 2 ^ 32" using hd de dx by auto
      then have "has_bytes m2 (of_nat d) xs" using only_at_bytes [OF m2(3)] m1(5) by blast
      ultimately show ?thesis using m2(2) m1(4) by simp
    qed
    moreover have "only_at ({h ..< h + 40 * length ((n, xs) # ?fs)} \<union> {d ..< data_end ((n, xs) # ?fs) d}) m m2"
      by (rule only_at_mono [OF only_at_trans [OF m1(6) m2(3)]]) (use dx in auto)
    ultimately show ?thesis unfolding fs using m2(1) by simp
  qed
qed

abbreviation (input) ramdisk_name :: "u8 list" where
  "ramdisk_name \<equiv> [114, 97, 109, 100, 105, 115, 107]"

text \<open>What the kernel finds in the memory of an image.\<close>

definition image_at :: "u32 \<Rightarrow> (u8 list \<times> u8 list) list \<Rightarrow> mem \<Rightarrow> bool" where
  "image_at base fs m \<longleftrightarrow> cstr m base ramdisk_name \<and> file_count m base = int (length fs) \<and>
     layout base fs 32 (32 + 40 * length fs) m"

text \<open>A directory with its two dot entries, one of each.\<close>

definition dir_dots :: "dirent list \<Rightarrow> bool" where
  "dir_dots ds \<longleftrightarrow> length (filter (\<lambda>(n, c). is_dot n) ds) = 2"

lemma dir_files_length: "dir_ok path ds \<Longrightarrow> length ds = length (dir_files ds) + length (filter (\<lambda>(n, c). is_dot n) ds)"
  by (induction ds rule: dir_files.induct) (auto simp: dir_ok_def)

lemma gen_image:
  assumes ok: "dir_ok path ds" "dir_dots ds" and fits: "data_end (dir_files ds) (32 + 40 * length (dir_files ds)) \<le> 1048576"
  shows "\<exists>img. gen_ramdisk path (Some ds) buf = Some (0, Some img) \<and>
    length img = data_end (dir_files ds) (32 + 40 * length (dir_files ds)) \<and>
    (\<forall>base m. has_bytes m base img \<longrightarrow> image_at base (dir_files ds) m)"
proof -
  let ?fs = "dir_files ds"
  let ?d = "32 + 40 * length ?fs"
  let ?e = "data_end ?fs ?d"
  have cnt: "int (length ds) - 2 = int (length ?fs)" using dir_files_length [OF ok(1)] ok(2) by (simp add: dir_dots_def)
  have de: "?d \<le> ?e" by (rule data_end_ge)
  obtain m1 where m1: "gen_files path ds 32 (32 + int (length ?fs) * 40) buf = Some (True, int ?e, m1)" "layout 0 ?fs 32 ?d m1"
    using gen_files_spec [OF ok(1) _ fits, of 32 buf] by (auto simp: algebra_simps)
  define nm where "nm = ramdisk_name @ [0]"
  then have len: "length nm = 8" and nm_eq: "[114, 97, 109, 100, 105, 115, 107, 0] = nm" by simp_all
  let ?m2 = "write_bytes 0 nm m1"
  let ?m3 = "put32 20 (word_of_int (int (length ?fs))) ?m2"
  let ?m4 = "put32 16 (word_of_int (int ?e)) ?m3"
  let ?img = "map (\<lambda>i. ?m4 (of_nat i)) [0..<?e]"
  have o1: "only_at {0 ..< 8} m1 ?m2" 
    using only_at_write [of 0 nm m1] len by simp
  have o2: "only_at {20 ..< 24} ?m2 ?m3" using only_at_put [of 20 ?m2 "word_of_int (int (length ?fs))"] by simp
  have o3: "only_at {16 ..< 20} ?m3 ?m4" using only_at_put [of 16 ?m3 "word_of_int (int ?e)"] by simp
  have o23: "only_at ({20 ..< 24} \<union> {16 ..< 20}) ?m2 ?m4" by (rule only_at_trans [OF o2 o3])
  have o: "only_at ({0 ..< 8} \<union> ({20 ..< 24} \<union> {16 ..< 20})) m1 ?m4" by (rule only_at_trans [OF o1 o23])
  have "has_bytes ?m2 0 nm" by (rule has_bytes_write) (simp add: len)
  moreover have "({20 ..< 24} \<union> {16 ..< 20}) \<inter> {0 ..< (8 :: nat)} = {}" by auto
  ultimately have nm: "has_bytes ?m4 0 nm" using only_at_bytes [OF o23, of 0 nm] len by simp
  have c: "get32 ?m4 20 = of_nat (length ?fs)"
    using only_at_get [OF o3, of 20] put32_get [of 20 "word_of_int (int (length ?fs))" ?m2] by simp
  have l: "layout 0 ?fs 32 ?d ?m4"
    by (rule layout_only_at [OF m1(2) _ _ o]) (use dir_files_names [OF ok(1)] fits in auto)
  have gen: "gen_ramdisk path (Some ds) buf = Some (0, Some ?img)"
    using m1(1) by (simp add: gen_ramdisk_def cnt Let_def nm_eq)
  have "image_at base ?fs m" if "has_bytes m base ?img" for base m
  proof -
    have cp: "m (base + of_nat k) = ?m4 (of_nat k)" if "k < ?e" for k
      using that \<open>has_bytes m base ?img\<close> by (simp add: has_bytes_at)
    have "m (base + of_nat i) = nm ! i" if "i < 8" for i
      using cp [of i] that de nm by (simp add: has_bytes_at len)
    then have "has_bytes m base nm" by (simp add: has_bytes_at len)
    then have "cstr m base ramdisk_name" by (simp add: cstr_def nm_def)
    moreover have "get32 m (base + 20) = get32 ?m4 20"
      using cp [of "20 + _"] de by (intro get32_cong) (simp add: add.assoc)
    then have "file_count m base = int (length ?fs)"
    proof -
      assume "get32 m (base + 20) = get32 ?m4 20"
      moreover have "length ?fs < 2 ^ 31" using de fits by simp
      ultimately show ?thesis unfolding file_count_def c by (simp add: sint_of_nat_u32)
    qed
    moreover have "layout base ?fs 32 ?d m"
      using cp de by (intro layout_move [OF l]) (use dir_files_names [OF ok(1)] in auto)
    ultimately show ?thesis by (simp add: image_at_def)
  qed
  with gen show ?thesis by (intro exI [of _ ?img]) auto
qed

section \<open>The kernel finds the files\<close>

lemma mount_image:
  "image_at (ramdisk_start s) fs (bm (ft s)) \<Longrightarrow> ramdisk_start s \<noteq> 0 \<Longrightarrow> cstr (bm (ft s)) lit ramdisk_name \<Longrightarrow>
   mount_ramdisk lit s = Some (ramdisk_start s, s\<lparr>ramdisk_header := ramdisk_start s, file_header := ramdisk_start s + 32\<rparr>)"
  using strcmp_cstr [of "bm (ft s)" "ramdisk_start s" ramdisk_name lit ramdisk_name] cmp_bytes_0 [of ramdisk_name ramdisk_name]
  by (simp add: mount_ramdisk_def image_at_def Let_def)

lemma ramdisk_start_sel [simp]:
  "ramdisk_start (s\<lparr>ft := t\<rparr>) = ramdisk_start s" "bm (ft (s\<lparr>ft := (ft s)\<lparr>ss := u\<rparr>\<rparr>)) = bm (ft s)"
  by simp_all

lemma open_loop_finds:
  assumes "layout (ramdisk_start s) fs h d (bm (ft s))" "distinct (map fst fs)" "\<And>f. f \<in> set fs \<Longrightarrow> 0 \<notin> set (fst f)"
    "(n, xs) \<in> set fs" "cstr (bm (ft s)) name n" "kmalloc FILE_SIZE GFP_KERNEL (ss (ft s)) = Some (Some a, u)" "a \<noteq> NULL"
  shows "\<exists>b. open_loop (length fs) name (ramdisk_start s + of_nat h) s =
      Some (Some a, on_file a (\<lambda>_. \<lparr>f_base = b, f_size = of_nat (length xs), f_curr = b\<rparr>) (s\<lparr>ft := (ft s)\<lparr>ss := u\<rparr>\<rparr>)) \<and>
    has_bytes (bm (ft s)) b xs"
  using assms(1-4)
proof (induction fs arbitrary: h d)
  case (Cons g fs)
  obtain k ys where g: "g = (k, ys)" by (cases g)
  have "cstr (bm (ft s)) (ramdisk_start s + of_nat h) k" using Cons.prems(1) Cons.prems(3) [of g] by (simp add: g cstr_def)
  then have cmp: "strcmp name (ramdisk_start s + of_nat h) (bm (ft s)) = Some (cmp_bytes n k)"
    by (rule strcmp_cstr [OF assms(5)])
  show ?case
  proof (cases "n = k")
    case True
    have "k \<notin> fst ` set fs" using Cons.prems(2) by (simp add: g)
    then have "xs = ys" using Cons.prems(4) True by (force simp: g)
    moreover have "fh_base (bm (ft s)) (ramdisk_start s + of_nat h) = of_nat d" "fh_size (bm (ft s)) (ramdisk_start s + of_nat h) = of_nat (length ys)"
      "has_bytes (bm (ft s)) (ramdisk_start s + of_nat d) ys"
      using Cons.prems(1) by (simp_all add: g fh_base_def fh_size_def add.assoc)
    moreover have fu: "f\<lparr>f_base := b, f_size := z, f_curr := c\<rparr> = \<lparr>f_base = b, f_size = z, f_curr = c\<rparr>" for f :: os_file and b z c by (cases f) simp
    ultimately show ?thesis using cmp True assms(6,7)
      by (intro exI [of _ "ramdisk_start s + of_nat d"])
        (simp add: cmp_bytes_0 ft_op_def slab_op_def on_file_def Let_def fu)
  next
    case False
    then have "cmp_bytes n k \<noteq> 0" by (simp add: cmp_bytes_0)
    moreover have "ramdisk_start s + of_nat h + 40 = ramdisk_start s + of_nat (h + 40)" by simp
    moreover have "(n, xs) \<in> set fs" using Cons.prems(4) False by (simp add: g)
    moreover have "layout (ramdisk_start s) fs (h + 40) (d + pad4 (length ys)) (bm (ft s))" using Cons.prems(1) by (simp add: g)
    ultimately show ?thesis using Cons.IH [of "h + 40" "d + pad4 (length ys)"] Cons.prems(2,3) cmp by (simp add: add.assoc)
  qed
qed simp

text \<open>
  C31. The image of a directory is built and mounted without loss: when the directory has its two dot
  entries, its other entries can be opened and read, have distinct names of at most 31 bytes and fit in 1 MB, \<^verbatim>\<open>genramdisk\<close> writes an
  image; wherever this image is in memory, \<^verbatim>\<open>mount_ramdisk\<close> accepts it and \<^verbatim>\<open>ramdisk_open\<close> of each
  name returns a file of the size of the original at whose base its bytes are.
\<close>

theorem ramdisk_roundtrip:
  assumes dir: "dir_ok path ds" "dir_dots ds" "data_end (dir_files ds) (32 + 40 * length (dir_files ds)) \<le> 1048576"
    and names: "distinct (map fst (dir_files ds))" "\<And>f. f \<in> set (dir_files ds) \<Longrightarrow> 0 \<notin> set (fst f)"
  shows "\<exists>img. gen_ramdisk path (Some ds) buf = Some (0, Some img) \<and>
    length img = data_end (dir_files ds) (32 + 40 * length (dir_files ds)) \<and>
    (\<forall>s lit name n xs a u. has_bytes (bm (ft s)) (ramdisk_start s) img \<longrightarrow> ramdisk_start s \<noteq> 0 \<longrightarrow> cstr (bm (ft s)) lit ramdisk_name \<longrightarrow>
      (n, xs) \<in> set (dir_files ds) \<longrightarrow> cstr (bm (ft s)) name n \<longrightarrow> kmalloc FILE_SIZE GFP_KERNEL (ss (ft s)) = Some (Some a, u) \<longrightarrow> a \<noteq> NULL \<longrightarrow>
      (\<exists>s1 s2. mount_ramdisk lit s = Some (ramdisk_start s, s1) \<and> ramdisk_open name s1 = Some (Some a, s2) \<and> bm (ft s2) = bm (ft s) \<and>
        f_size (files s2 a) = of_nat (length xs) \<and> f_curr (files s2 a) = f_base (files s2 a) \<and> has_bytes (bm (ft s2)) (f_base (files s2 a)) xs))"
proof -
  obtain img where img: "gen_ramdisk path (Some ds) buf = Some (0, Some img)"
    "length img = data_end (dir_files ds) (32 + 40 * length (dir_files ds))" "\<And>base m. has_bytes m base img \<Longrightarrow> image_at base (dir_files ds) m"
    using gen_image [OF dir] by blast
  have "\<exists>s1 s2. mount_ramdisk lit s = Some (ramdisk_start s, s1) \<and> ramdisk_open name s1 = Some (Some a, s2) \<and> bm (ft s2) = bm (ft s) \<and>
      f_size (files s2 a) = of_nat (length xs) \<and> f_curr (files s2 a) = f_base (files s2 a) \<and> has_bytes (bm (ft s2)) (f_base (files s2 a)) xs"
    if i: "has_bytes (bm (ft s)) (ramdisk_start s) img" and st: "ramdisk_start s \<noteq> 0" and lit: "cstr (bm (ft s)) lit ramdisk_name"
      and nx: "(n, xs) \<in> set (dir_files ds)" "cstr (bm (ft s)) name n" "kmalloc FILE_SIZE GFP_KERNEL (ss (ft s)) = Some (Some a, u)" "a \<noteq> NULL"
    for s lit name n xs a u
  proof -
    note ia = img(3) [OF i]
    let ?s1 = "s\<lparr>ramdisk_header := ramdisk_start s, file_header := ramdisk_start s + 32\<rparr>"
    have l: "layout (ramdisk_start ?s1) (dir_files ds) 32 (32 + 40 * length (dir_files ds)) (bm (ft ?s1))"
      and c: "file_count (bm (ft s)) (ramdisk_start s) = int (length (dir_files ds))"
      using ia by (simp_all add: image_at_def)
    obtain b where b: "open_loop (length (dir_files ds)) name (ramdisk_start ?s1 + of_nat 32) ?s1 =
        Some (Some a, on_file a (\<lambda>_. \<lparr>f_base = b, f_size = of_nat (length xs), f_curr = b\<rparr>) (?s1\<lparr>ft := (ft ?s1)\<lparr>ss := u\<rparr>\<rparr>))"
      "has_bytes (bm (ft s)) b xs"
      using open_loop_finds [OF l names(1) names(2) nx(1), of name a u] nx(2-4) by auto
    then have "ramdisk_open name ?s1 = Some (Some a, on_file a (\<lambda>_. \<lparr>f_base = b, f_size = of_nat (length xs), f_curr = b\<rparr>) (?s1\<lparr>ft := (ft ?s1)\<lparr>ss := u\<rparr>\<rparr>))"
      using st c by (simp add: ramdisk_open_def)
    with mount_image [OF ia st lit] b(2) show ?thesis by (simp add: on_file_def)
  qed
  with img(1,2) show ?thesis by (intro exI [of _ img]) blast
qed

lemma ramdisk_read_eq:
  assumes "file \<noteq> NULL" "c = (if f_base (files s file) + f_size (files s file) < f_curr (files s file) + word_of_int sz
      then sint (f_base (files s file) + f_size (files s file) - f_curr (files s file)) else sz)" "0 \<le> c"
  shows "ramdisk_read file buf sz s = (c, on_file file (\<lambda>f. f\<lparr>f_curr := f_curr f + word_of_int c\<rparr>)
    (on_bytes (memcpy buf (f_curr (files s file)) (word_of_int c)) s))"
  using assms by (simp add: ramdisk_read_def Let_def)

text \<open>
  C32. Reading at an offset: after \<^verbatim>\<open>ramdisk_seek\<close>, \<^verbatim>\<open>ramdisk_read\<close> returns the bytes of the file from
  that offset, as many as are asked for and not more than the file has, and moves the position by their number.
  It changes nothing else: not the memory outside these bytes of the buffer, not the base and size of
  the file, no other open file.  The buffer does not overlap the bytes that are read, the file and the request end below 4 GB, and the
  buffer and the first byte that is read differ in their two lowest address bits, or both are word-aligned, or both have the offset 2 and at least
  two bytes are read; these are the cases in which \<^verbatim>\<open>memcpy\<close> copies.
\<close>

theorem seek_read_bytes:
  assumes f: "file \<noteq> NULL" "f = files s file" "has_bytes (bm (ft s)) (f_base f) xs" "f_size f = of_nat (length xs)"
    and len: "length xs < 2 ^ 31" "unat (f_base f) + length xs < 2 ^ 32"
    and sz: "0 \<le> sz" "unat (f_base f) + min (unat off) (length xs) + nat sz < 2 ^ 32"
    and k: "k = min (nat sz) (length xs - unat off)" "start = f_base f + of_nat (min (unat off) (length xs))"
    and cp: "apart k buf start" "buf AND 3 \<noteq> start AND 3 \<or> buf AND 3 = 0 \<or> buf AND 3 = 2 \<and> 2 \<le> k"
  shows "\<exists>s1 s2. ramdisk_seek file off s = (0, s1) \<and> ramdisk_read file buf sz s1 = (int k, s2) \<and>
    has_bytes (bm (ft s2)) buf (take k (drop (unat off) xs)) \<and> (\<forall>a. k \<le> unat (a - buf) \<longrightarrow> bm (ft s2) a = bm (ft s) a) \<and>
    s2 = s\<lparr>ft := (ft s)\<lparr>bm := bm (ft s2)\<rparr>, files := (files s)(file := f\<lparr>f_curr := start + of_nat k\<rparr>)\<rparr>"
proof -
  let ?p = "min (unat off) (length xs)" and ?b = "f_base f"
  let ?s1 = "on_file file (\<lambda>f. f\<lparr>f_curr := start\<rparr>) s"
  let ?m = "mcopy k buf start (bm (ft s))"
  let ?s2 = "on_file file (\<lambda>f. f\<lparr>f_curr := f_curr f + of_nat k\<rparr>) (on_bytes (\<lambda>_. ?m) ?s1)"
  have ul: "unat (of_nat (length xs) :: u32) = length xs" using len(1) by (simp add: unat_of_nat_u32)
  have "f_size f < off \<longleftrightarrow> length xs < unat off" by (simp add: f(4) word_less_nat_alt ul)
  then have seek: "ramdisk_seek file off s = (0, ?s1)"
    using f(1) by (auto simp: ramdisk_seek_def f(2) [symmetric] k(2) on_file_def f(4) min_def)
  have up: "unat start = unat ?b + ?p"
  proof -
    have "unat (of_nat ?p :: u32) = ?p" using len(1) by (simp add: unat_of_nat_u32)
    then show ?thesis using len(2) unfolding k(2) by (subst unat_add_u32) simp_all
  qed
  have ue: "unat (?b + f_size f) = unat ?b + length xs" using len(2) ul unfolding f(4) by (subst unat_add_u32) simp_all
  have us: "unat (start + word_of_int sz) = unat ?b + ?p + nat sz"
  proof -
    have "unat (word_of_int sz :: u32) = nat sz" using sz unat_of_nat_u32 [of "nat sz"] by simp
    then show ?thesis using sz(2) up by (subst unat_add_u32) simp_all
  qed
  have cmp: "?b + f_size f < start + word_of_int sz \<longleftrightarrow> length xs < ?p + nat sz" by (simp add: word_less_nat_alt ue us)
  have df: "sint (?b + f_size f - start) = int (length xs - ?p)"
  proof -
    have "?b + f_size f - start = of_nat (length xs) - of_nat ?p" by (simp add: f(4) k(2))
    then have "?b + f_size f - start = of_nat (length xs - ?p)" by (simp add: of_nat_diff)
    moreover have "length xs - ?p < 2 ^ 31" using len(1) by linarith
    ultimately show ?thesis by (simp only: sint_of_nat_u32)
  qed
  have size: "(if ?b + f_size f < start + word_of_int sz then sint (?b + f_size f - start) else sz) = int k"
    unfolding cmp df k(1) using sz(1) by auto
  have kb: "k < 2 ^ 31" using len(1) by (simp add: k(1))
  have uk: "unat (of_nat k :: u32) = k" using kb by (simp add: unat_of_nat_u32)
  have mc: "memcpy buf start (of_nat k) (bm (ft s)) = ?m"
    using memcpy_mcopy [of "of_nat k" buf start "bm (ft s)"] kb cp by (simp add: uk word_le_nat_alt)
  have fs: "files ?s1 file = f\<lparr>f_curr := start\<rparr>" by (simp add: on_file_def f(2))
  have "int k = (if f_base (files ?s1 file) + f_size (files ?s1 file) < f_curr (files ?s1 file) + word_of_int sz
      then sint (f_base (files ?s1 file) + f_size (files ?s1 file) - f_curr (files ?s1 file)) else sz)"
    unfolding fs using size by (simp split: if_splits)
  from ramdisk_read_eq [OF f(1) this, of buf] have "ramdisk_read file buf sz ?s1 = (int k, ?s2)"
    unfolding fs by (simp add: mc on_bytes_def on_file_def)
  moreover have "has_bytes ?m buf (take k (drop (unat off) xs))"
    unfolding has_bytes_at
  proof (intro allI impI)
    fix i assume "i < length (take k (drop (unat off) xs))"
    then have i: "i < k" "i < length xs - unat off" by simp_all
    then have "unat (of_nat i :: u32) = i" using kb by (simp add: unat_of_nat_u32)
    then have "?m (buf + of_nat i) = bm (ft s) (start + of_nat i)" using i by (simp add: mcopy_def)
    also have "\<dots> = bm (ft s) (?b + of_nat (unat off + i))" using i by (simp add: k(2) add.assoc)
    also have "\<dots> = xs ! (unat off + i)" using f(3) i unfolding has_bytes_at by (metis add.commute less_diff_conv)
    finally show "?m (buf + of_nat i) = take k (drop (unat off) xs) ! i" using i by simp
  qed
  ultimately show ?thesis using seek by (intro exI [of _ ?s1] exI [of _ ?s2]) (simp add: on_file_def on_bytes_def mcopy_def f(2))
qed

text \<open>
  A directory with the files \<open>init\<close>, of five bytes, and \<open>a\<close>, of none, and a memory with its image at
  \<open>0xc0300000\<close>.
\<close>

definition demo_dir :: "dirent list" where
  "demo_dir = [([46], None), ([105, 110, 105, 116], Some ([1, 2, 3, 4, 5], False)), ([46, 46], None), ([97], Some ([], False))]"

definition demo_disk :: "sstate \<Rightarrow> u8 list \<Rightarrow> fstate" where
  "demo_disk u img = \<lparr>ft = \<lparr>ss = u, wm = (\<lambda>_. 0),
     bm = (\<lambda>a. if a - 0xc0300000 < 120 then img ! unat (a - 0xc0300000)
       else if a - 0xc0400000 < 8 then (ramdisk_name @ [0]) ! unat (a - 0xc0400000)
       else if a - 0xc0400100 < 5 then [105, 110, 105, 116, 0] ! unat (a - 0xc0400100) else 0)\<rparr>,
     ramdisk_start = 0xc0300000, ramdisk_header = 0, file_header = 0, files = (\<lambda>_. \<lparr>f_base = 0, f_size = 0, f_curr = 0\<rparr>)\<rparr>"

lemma demo_dir_files: "dir_files demo_dir = [([105, 110, 105, 116], [1, 2, 3, 4, 5]), ([97], [])]"
  by (simp add: demo_dir_def is_dot_def)

lemma slab_demo_kmalloc: "\<exists>u. kmalloc 12 GFP_KERNEL slab_demo = Some (Some 0xc0002100, u)"
proof -
  have n: "16 = get_new_alloc_size 12 GFP_KERNEL" by (simp add: get_new_alloc_size_def int_aligin_def)
  show ?thesis
    using kmalloc_from_page [OF slab_demo_ok(1) _ _ n slab_demo_ok(2)]
    by (force simp: slab_page_def slab_demo_ok(3) no_page_def slab_demo_F_def slab_init_lists_def list_id_def)
qed

theorem ramdisk_roundtrip_witness:
  "\<exists>img s1 s2. gen_ramdisk 4 (Some demo_dir) (\<lambda>_. 0xff) = Some (0, Some img) \<and>
     mount_ramdisk 0xc0400000 (demo_disk slab_demo img) = Some (0xc0300000, s1) \<and> ramdisk_open 0xc0400100 s1 = Some (Some 0xc0002100, s2) \<and>
     f_size (files s2 0xc0002100) = 5 \<and> has_bytes (bm (ft s2)) (f_base (files s2 0xc0002100)) [1, 2, 3, 4, 5]"
proof -
  have dir: "dir_ok 4 demo_dir" "dir_dots demo_dir" by (simp_all add: dir_ok_def dir_dots_def demo_dir_def is_dot_def)
  have fits: "data_end (dir_files demo_dir) (32 + 40 * length (dir_files demo_dir)) \<le> 1048576"
    by (simp add: demo_dir_files pad4_def)
  have names: "distinct (map fst (dir_files demo_dir))" "\<And>f. f \<in> set (dir_files demo_dir) \<Longrightarrow> 0 \<notin> set (fst f)"
    by (auto simp: demo_dir_files)
  note rt = ramdisk_roundtrip [OF dir fits names, of "\<lambda>_. 0xff"]
  obtain img where img: "gen_ramdisk 4 (Some demo_dir) (\<lambda>_. 0xff) = Some (0, Some img)" "length img = 120"
    and found: "\<And>s lit name n xs a u. has_bytes (bm (ft s)) (ramdisk_start s) img \<Longrightarrow> ramdisk_start s \<noteq> 0 \<Longrightarrow> cstr (bm (ft s)) lit ramdisk_name \<Longrightarrow>
      (n, xs) \<in> set (dir_files demo_dir) \<Longrightarrow> cstr (bm (ft s)) name n \<Longrightarrow> kmalloc 12 GFP_KERNEL (ss (ft s)) = Some (Some a, u) \<Longrightarrow> a \<noteq> NULL \<Longrightarrow>
      (\<exists>s1 s2. mount_ramdisk lit s = Some (ramdisk_start s, s1) \<and> ramdisk_open name s1 = Some (Some a, s2) \<and> bm (ft s2) = bm (ft s) \<and>
        f_size (files s2 a) = of_nat (length xs) \<and> f_curr (files s2 a) = f_base (files s2 a) \<and> has_bytes (bm (ft s2)) (f_base (files s2 a)) xs)"
  proof -
    have "data_end (dir_files demo_dir) (32 + 40 * length (dir_files demo_dir)) = 120" by (simp add: demo_dir_files pad4_def)
    with rt show thesis using that by (simp only:) blast
  qed
  let ?s = "demo_disk slab_demo img"
  have "has_bytes (bm (ft ?s)) (ramdisk_start ?s) img"
    unfolding has_bytes_at img(2)
  proof (intro allI impI)
    fix i :: nat assume i: "i < 120"
    then have "unat (of_nat i :: u32) = i" by (simp add: unat_of_nat_u32)
    with i show "bm (ft ?s) (ramdisk_start ?s + of_nat i) = img ! i" by (simp add: demo_disk_def word_less_nat_alt)
  qed
  moreover have "ramdisk_start ?s = 0xc0300000" "ss (ft ?s) = slab_demo" by (simp_all add: demo_disk_def)
  moreover have "cstr (bm (ft ?s)) 0xc0400000 ramdisk_name" "cstr (bm (ft ?s)) 0xc0400100 [105, 110, 105, 116]"
    by (simp_all add: demo_disk_def)
  moreover have "([105, 110, 105, 116], [1, 2, 3, 4, 5]) \<in> set (dir_files demo_dir)" by (simp add: demo_dir_files)
  ultimately obtain s1 s2 where "mount_ramdisk 0xc0400000 ?s = Some (0xc0300000, s1)" "ramdisk_open 0xc0400100 s1 = Some (Some 0xc0002100, s2)"
    "f_size (files s2 0xc0002100) = 5" "has_bytes (bm (ft s2)) (f_base (files s2 0xc0002100)) [1, 2, 3, 4, 5]"
    using found [of ?s "0xc0400000" "[105, 110, 105, 116]" "[1, 2, 3, 4, 5]" "0xc0400100" "0xc0002100"] slab_demo_kmalloc by auto
  with img(1) show ?thesis by blast
qed

theorem seek_read_bytes_witness:
  "\<exists>s1 s2. ramdisk_seek 0x100 3 ((demo_disk slab_demo (map of_nat [0..<120]))\<lparr>files := (\<lambda>_. \<lparr>f_base = 0xc0300010, f_size = 50, f_curr = 0\<rparr>)\<rparr>) = (0, s1) \<and>
    ramdisk_read 0x100 0xd0000000 4096 s1 = (47, s2) \<and> has_bytes (bm (ft s2)) 0xd0000000 [19, 20, 21]"
proof -
  let ?s = "(demo_disk slab_demo (map of_nat [0..<120]))\<lparr>files := (\<lambda>_. \<lparr>f_base = 0xc0300010, f_size = 50, f_curr = 0\<rparr>)\<rparr>"
  let ?xs = "map of_nat [16..<66]"
  let ?f = "\<lparr>f_base = 0xc0300010, f_size = 50, f_curr = 0\<rparr>"
  have hb: "has_bytes (bm (ft ?s)) (f_base ?f) ?xs"
    unfolding has_bytes_at os_file.simps
  proof (intro allI impI)
    fix i assume "i < length (map of_nat [16..<66])"
    then have i: "i < 50" by simp
    have "(0xc0300010 + of_nat i - 0xc0300000 :: u32) = of_nat (16 + i)" by simp
    moreover have "unat (of_nat (16 + i) :: u32) = 16 + i" using i by (subst unat_of_nat_u32) simp
    ultimately show "bm (ft ?s) (0xc0300010 + of_nat i) = ?xs ! i" using i by (simp add: demo_disk_def word_less_nat_alt del: upt_rec_numeral)
  qed
  have ap: "apart 47 0xd0000000 0xc0300013"
    unfolding apart_def
  proof (intro allI impI)
    fix i :: nat assume i: "i < 47"
    have "(0xc0300013 + of_nat i - 0xd0000000 :: u32) = of_nat (i + 0xf0300013)" by simp
    moreover have "unat (of_nat (i + 0xf0300013) :: u32) = i + 0xf0300013" using i by (subst unat_of_nat_u32) simp_all
    ultimately have "unat (0xc0300013 + of_nat i - 0xd0000000 :: u32) = i + 0xf0300013" by (simp only:)
    then show "47 \<le> unat (0xc0300013 + of_nat i - 0xd0000000 :: u32)" by (simp only:)
  qed
  have len: "length ?xs = 50" by simp
  have "(0x100 :: u32) \<noteq> NULL" "?f = files ?s 0x100" "f_size ?f = of_nat (length ?xs)" "length ?xs < 2 ^ 31" "unat (f_base ?f) + length ?xs < 2 ^ 32"
    "(0 :: int) \<le> 4096" "unat (f_base ?f) + min (unat (3 :: u32)) (length ?xs) + nat 4096 < 2 ^ 32"
    "47 = min (nat 4096) (length ?xs - unat (3 :: u32))" "(0xc0300013 :: u32) = f_base ?f + of_nat (min (unat (3 :: u32)) (length ?xs))"
    "(0xd0000000 :: u32) AND 3 \<noteq> 0xc0300013 AND 3 \<or> (0xd0000000 :: u32) AND 3 = 0 \<or> (0xd0000000 :: u32) AND 3 = 2 \<and> 2 \<le> (47 :: nat)"
    unfolding len by simp_all
  from seek_read_bytes [OF this(1,2) hb this(3-9) ap this(10)]
  obtain s1 s2 where "ramdisk_seek 0x100 3 ?s = (0, s1)" "ramdisk_read 0x100 0xd0000000 4096 s1 = (int 47, s2)"
    and b: "has_bytes (bm (ft s2)) 0xd0000000 (take 47 (drop (unat (3 :: u32)) ?xs))"
    by blast
  moreover have "take 47 (drop (unat (3 :: u32)) ?xs) = [19, 20, 21] @ drop 3 (take 47 (drop (unat (3 :: u32)) ?xs))" by simp
  with b have "has_bytes (bm (ft s2)) 0xd0000000 [19, 20, 21]" by (metis has_bytes_append)
  ultimately show ?thesis by (metis of_nat_numeral)
qed

end
