(* ===== verification/Syscall.thy ===== *)
theory Syscall
  imports Task Printk
begin

text \<open>
  System calls: the table and its initialisation (\<^verbatim>\<open>kernel/syscall.c\<close>), the entry of the software
  interrupt (\<^verbatim>\<open>arch/arm/machine/entry.S\<close>), the dispatch (\<^verbatim>\<open>arch/arm/machine/syscall_entry.S\<close>) and
  \<^verbatim>\<open>sys_write\<close> (\<^verbatim>\<open>arch/arm/machine/syscall.c\<close>).

  The list of the defined system calls, which the linker puts together, is an argument, and so is the call
  of a function at an address.
\<close>

section \<open>The table\<close>

record ystate =
  yt :: tstate
  syscall_table_base :: u32

abbreviation (input) NR_SYSCALL_BASE :: int where "NR_SYSCALL_BASE \<equiv> 0x900000"
abbreviation (input) SYSCALL_NR :: int where "SYSCALL_NR \<equiv> 1024"

definition on_words :: "(wmem \<Rightarrow> wmem) \<Rightarrow> ystate \<Rightarrow> ystate" where
  "on_words f s = s\<lparr>yt := (yt s)\<lparr>wm := f (wm (yt s))\<rparr>\<rparr>"

definition install_syscall :: "int \<Rightarrow> u32 \<Rightarrow> ystate \<Rightarrow> int \<times> ystate" where
  "install_syscall nr addr s =
     (let real_nr = nr - NR_SYSCALL_BASE in
      if real_nr > SYSCALL_NR - 1 \<or> real_nr < 0 \<or> addr = NULL then (- EINVAL, s)
      else
        (let tmp = syscall_table_base s + 4 * word_of_int real_nr in
         if wm (yt s) tmp = 0 then (0, on_words (\<lambda>w. w(tmp := addr)) s) else (- EINVAL, s)))"

definition default_syscall_handler :: int where
  "default_syscall_handler = 0"

text \<open>\<^verbatim>\<open>memset\<close> of whole words to 0.\<close>

primrec clear_words :: "nat \<Rightarrow> u32 \<Rightarrow> wmem \<Rightarrow> wmem" where
  "clear_words 0 p w = w"
| "clear_words (Suc n) p w = clear_words n (p + 4) (w(p := 0))"

text \<open>The loop of \<^verbatim>\<open>syscall_init\<close>; an entry that cannot be installed is only reported.\<close>

primrec install_all :: "(int \<times> u32) list \<Rightarrow> ystate \<Rightarrow> ystate" where
  "install_all [] s = s"
| "install_all (e # es) s = install_all es (snd (install_syscall (fst e) (snd e) s))"

text \<open>\<^verbatim>\<open>panic\<close> does not return.\<close>

definition syscall_init :: "(int \<times> u32) list \<Rightarrow> (int, ystate) kop" where
  "syscall_init table s =
     (let pages = uint (page_nr (word_of_int SYSCALL_NR * 4)) in
      do {
        (r, t) \<leftarrow> slab_op (mm_op (get_free_pages pages GFP_KERNEL)) (yt s);
        let s = s\<lparr>yt := t\<rparr>;
        case r of
          None \<Rightarrow> Some (None, s)
        | Some base \<Rightarrow>
            let s = s\<lparr>syscall_table_base := base\<rparr> in
            if base = NULL then None
            else Some (Some 0, install_all table (on_words (clear_words (nat (pages * 2 ^ PAGE_SHIFT) div 4) base) s))
      })"

section \<open>The entry and the dispatch\<close>

text \<open>
  \<^verbatim>\<open>software_interrupt\<close> up to the call of \<^verbatim>\<open>_syscall_handler\<close>: the processor is in supervisor mode with
  the return address in \<^verbatim>\<open>lr\<close> and the status of the user in \<^verbatim>\<open>spsr\<close>.
\<close>

definition swi_enter :: "cpu \<Rightarrow> wmem \<Rightarrow> u32 \<times> wmem" where
  "swi_enter c m =
     (let (sp, m) = push_words [c_lr c] (c_sp c) m;
          (sp, m) = push_words [c_spsr c] sp m;
          sp = sp - 12;
          (sp, m) = push_words (rev (c_gen c)) sp m;
          m = m(sp + 60 := c_sp_usr c);
          m = m(sp + 56 := c_lr_usr c)
      in (sp, m))"

text \<open>The rest of \<^verbatim>\<open>software_interrupt\<close>.\<close>

definition swi_exit :: "u32 \<Rightarrow> wmem \<Rightarrow> cpu \<Rightarrow> cpu" where
  "swi_exit sp m c =
     (let c = c\<lparr>c_sp_usr := m (sp + 60)\<rparr>;
          c = c\<lparr>c_lr_usr := m (sp + 56)\<rparr>;
          c = c\<lparr>c_spsr := m (sp + 64)\<rparr>;
          c = c\<lparr>c_gen := map (\<lambda>i. m (sp + 4 * of_nat i)) [0..<13]\<rparr>;
          sp = sp + 52 + 16
      in c\<lparr>c_pc := m sp, c_sp := sp + 4, c_cpsr := c_spsr c\<rparr>)"

text \<open>
  \<^verbatim>\<open>_syscall_handler\<close>: \<open>r8\<close> is the address of the saved registers, \<open>call\<close> the call of a function with
  seven arguments, four of them in registers, and \<open>dflt\<close> the address of the default handler.  The frame
  of the routine is below the saved registers and is not kept.
\<close>

definition syscall_handler :: "(u32 \<Rightarrow> u32 list \<Rightarrow> (u32, ystate) kop) \<Rightarrow> u32 \<Rightarrow> u32 \<Rightarrow> (unit, ystate) kop" where
  "syscall_handler call dflt r8 s =
     (let m = wm (yt s);
          args = map (\<lambda>i. m (r8 + 4 * of_nat i)) [0..<7];
          r7 = m (r8 + 28) - word_of_int NR_SYSCALL_BASE;
          r6 = m (syscall_table_base s + push_bit 2 r7);
          r6 = (if r6 = 0 then dflt else r6)
      in kthen (call r6 args) (\<lambda>r0. kmod (\<lambda>s. Some (on_words (\<lambda>w. w(r8 := r0)) s))) s)"

text \<open>A whole system call of the user.\<close>

definition software_interrupt :: "(u32 \<Rightarrow> u32 list \<Rightarrow> (u32, ystate) kop) \<Rightarrow> u32 \<Rightarrow> cpu \<Rightarrow> (cpu, ystate) kop" where
  "software_interrupt call dflt c s =
     (let (sp, m) = swi_enter c (wm (yt s)) in
      kthen (syscall_handler call dflt sp) (\<lambda>_. kread (\<lambda>s. Some (swi_exit sp (wm (yt s)) c))) (on_words (\<lambda>_. m) s))"

section \<open>Write\<close>

text \<open>
  \<^verbatim>\<open>sys_write\<close>: the number of bytes and the bytes sent; for another descriptor than 1 the function ends
  without a value.
\<close>

definition sys_write :: "int \<Rightarrow> u32 \<Rightarrow> int \<Rightarrow> mem \<Rightarrow> (int \<times> u8 list) option" where
  "sys_write fd buf count m = (if fd = 1 then uart_put_char buf count m else None)"

end
