(* ===== verification/SyscallProps.thy ===== *)
theory SyscallProps
  imports Syscall MmProps
begin

text \<open>
  The table of the system calls after \<^verbatim>\<open>syscall_init\<close>, and a system call as the user sees it.
\<close>

section \<open>The table\<close>

lemma clear_words_spec:
  "clear_words n p w a = (if \<exists>i < n. a = p + 4 * of_nat i then 0 else w a)"
proof (induction n arbitrary: p w)
  case (Suc n)
  have "(\<exists>i < Suc n. a = p + 4 * of_nat i) \<longleftrightarrow> a = p \<or> (\<exists>i < n. a = p + 4 + 4 * of_nat i)"
    by (auto simp: less_Suc_eq_0_disj algebra_simps intro: exI [of _ "Suc _"])
  then have "(if \<exists>i < n. a = p + 4 + 4 * of_nat i then 0 else (w(p := 0)) a) = (if \<exists>i < Suc n. a = p + 4 * of_nat i then 0 else w a)"
    by (simp only: fun_upd_apply) (cases "a = p"; simp only: simp_thms if_True if_False if_cancel)
  then show ?case unfolding clear_words.simps Suc .
qed simp

abbreviation slot :: "ystate \<Rightarrow> nat \<Rightarrow> u32" where
  "slot s j \<equiv> syscall_table_base s + 4 * of_nat j"

lemma slot_inj: "i < 1024 \<Longrightarrow> j < 1024 \<Longrightarrow> slot s i = slot s j \<longleftrightarrow> i = j"
  using word_step_inj [of i j "syscall_table_base s"] word_step_inj [of j i "syscall_table_base s"]
  by (cases i j rule: linorder_cases) auto

text \<open>The first entry of a number counts.\<close>

fun first_addr :: "(int \<times> u32) list \<Rightarrow> int \<Rightarrow> u32" where
  "first_addr [] nr = 0"
| "first_addr ((n, a) # es) nr = (if n = nr \<and> a \<noteq> 0 then a else first_addr es nr)"

lemma install_syscall_words:
  assumes "j < 1024" "nr = NR_SYSCALL_BASE + int j"
  shows "wm (yt (snd (install_syscall n a s))) (slot s j) =
    (if wm (yt s) (slot s j) = 0 \<and> n = nr \<and> a \<noteq> 0 then a else wm (yt s) (slot s j))"
proof (cases "0 \<le> n - NR_SYSCALL_BASE \<and> n - NR_SYSCALL_BASE < 1024")
  case True
  then obtain i where i: "n - NR_SYSCALL_BASE = int i" "i < 1024" by (metis nonneg_int_cases of_nat_less_numeral_iff)
  then have "n = nr \<longleftrightarrow> i = j" using assms(2) by auto
  with i slot_inj [OF assms(1) i(2), of s] show ?thesis
    by (auto simp: install_syscall_def on_words_def Let_def split: if_splits)
next
  case False
  then have "n \<noteq> nr" using assms by auto
  with False show ?thesis by (auto simp: install_syscall_def)
qed

lemma install_syscall_frame:
  "\<exists>w. snd (install_syscall n a s) = on_words (\<lambda>_. w) s \<and> (\<forall>x. (\<forall>j < 1024. x \<noteq> slot s j) \<longrightarrow> w x = wm (yt s) x)"
proof (cases "0 \<le> n - NR_SYSCALL_BASE \<and> n - NR_SYSCALL_BASE < 1024")
  case True
  then obtain i where i: "n - NR_SYSCALL_BASE = int i" "i < 1024" by (metis nonneg_int_cases of_nat_less_numeral_iff)
  have "install_syscall n a s = (if a = 0 then (- EINVAL, s) else if wm (yt s) (slot s i) = 0
      then (0, on_words (\<lambda>w. w(slot s i := a)) s) else (- EINVAL, s))"
    using i by (simp add: install_syscall_def Let_def)
  then show ?thesis using i(2) by (auto simp: on_words_def intro: exI [of _ "wm (yt s)"])
next
  case False
  then have "snd (install_syscall n a s) = s" by (auto simp: install_syscall_def)
  then show ?thesis by (auto simp: on_words_def intro: exI [of _ "wm (yt s)"])
qed

lemma install_all_spec:
  "\<exists>w. install_all es s = on_words (\<lambda>_. w) s \<and> (\<forall>x. (\<forall>j < 1024. x \<noteq> slot s j) \<longrightarrow> w x = wm (yt s) x) \<and>
    (\<forall>j < 1024. w (slot s j) = (if wm (yt s) (slot s j) = 0 then first_addr es (NR_SYSCALL_BASE + int j) else wm (yt s) (slot s j)))"
proof (induction es arbitrary: s)
  case Nil
  show ?case by (auto simp: on_words_def intro: exI [of _ "wm (yt s)"])
next
  case (Cons e es)
  obtain n a where e: "e = (n, a)" by (cases e)
  let ?s = "snd (install_syscall n a s)"
  obtain v where v: "?s = on_words (\<lambda>_. v) s" "\<And>x. (\<forall>j < 1024. x \<noteq> slot s j) \<Longrightarrow> v x = wm (yt s) x"
    using install_syscall_frame [of n a s] by blast
  have at: "wm (yt ?s) = v" "syscall_table_base ?s = syscall_table_base s" by (simp_all add: v(1) on_words_def)
  obtain w where w: "install_all es ?s = on_words (\<lambda>_. w) ?s" "\<And>x. (\<forall>j < 1024. x \<noteq> slot s j) \<Longrightarrow> w x = v x"
    "\<And>j. j < 1024 \<Longrightarrow> w (slot s j) = (if v (slot s j) = 0 then first_addr es (NR_SYSCALL_BASE + int j) else v (slot s j))"
    using Cons.IH [of ?s] unfolding at by blast
  have "v (slot s j) = (if wm (yt s) (slot s j) = 0 \<and> n = NR_SYSCALL_BASE + int j \<and> a \<noteq> 0 then a else wm (yt s) (slot s j))" if "j < 1024" for j
    using install_syscall_words [OF that refl, of n a s] at(1) by simp
  then have "w (slot s j) = (if wm (yt s) (slot s j) = 0 then first_addr (e # es) (NR_SYSCALL_BASE + int j) else wm (yt s) (slot s j))"
    if "j < 1024" for j
    using w(3) [OF that] that by (auto simp: e)
  moreover have "install_all (e # es) s = on_words (\<lambda>_. w) s" using w(1) by (simp add: e v(1) on_words_def)
  ultimately show ?case using v(2) w(2) by (intro exI [of _ w]) simp
qed

text \<open>
  C33. When a page is available, \<^verbatim>\<open>syscall_init\<close> returns 0 and the entry of every number from
  \<open>0x900000\<close> to \<open>0x9003ff\<close> is the address of the first definition with that number, or 0 when there is
  none; the memory outside the page of the table is unchanged.
\<close>

theorem syscall_init_installs:
  assumes page: "get_free_pages 1 GFP_KERNEL (sm (ss (yt s))) = Some (Some base, m)" and base: "base \<noteq> NULL"
  shows "\<exists>s'. syscall_init table s = Some (Some 0, s') \<and> syscall_table_base s' = base \<and>
    (\<forall>j < 1024. wm (yt s') (base + 4 * of_nat j) = first_addr table (0x900000 + int j)) \<and>
    (\<forall>x. (\<forall>j < 1024. x \<noteq> base + 4 * of_nat j) \<longrightarrow> wm (yt s') x = wm (yt s) x) \<and> sm (ss (yt s')) = m"
proof -
  let ?s = "s\<lparr>yt := (yt s)\<lparr>ss := (ss (yt s))\<lparr>sm := m\<rparr>\<rparr>, syscall_table_base := base\<rparr>"
  let ?c = "on_words (clear_words 1024 base) ?s"
  have pg: "uint (page_nr (word_of_int 1024 * 4)) = 1" by (simp add: page_nr_def baligin_def)
  have init: "syscall_init table s = Some (Some 0, install_all table ?c)"
    using page base unfolding syscall_init_def Let_def pg by (simp add: slab_op_def mm_op_def)
  obtain w where w: "install_all table ?c = on_words (\<lambda>_. w) ?c" "\<And>x. (\<forall>j < 1024. x \<noteq> slot ?c j) \<Longrightarrow> w x = wm (yt ?c) x"
    "\<And>j. j < 1024 \<Longrightarrow> w (slot ?c j) = (if wm (yt ?c) (slot ?c j) = 0 then first_addr table (0x900000 + int j) else wm (yt ?c) (slot ?c j))"
    using install_all_spec [of table ?c] by blast
  have b: "syscall_table_base ?c = base" by (simp add: on_words_def)
  have cw: "wm (yt ?c) x = (if \<exists>j < 1024. x = base + 4 * of_nat j then 0 else wm (yt s) x)" for x
    by (simp add: on_words_def clear_words_spec)
  show ?thesis
  proof (intro exI conjI)
    show "syscall_init table s = Some (Some 0, on_words (\<lambda>_. w) ?c)" using init w(1) by simp
    show "\<forall>j < 1024. wm (yt (on_words (\<lambda>_. w) ?c)) (base + 4 * of_nat j) = first_addr table (0x900000 + int j)"
      using w(3) cw unfolding b by (auto simp: on_words_def)
    show "\<forall>x. (\<forall>j < 1024. x \<noteq> base + 4 * of_nat j) \<longrightarrow> wm (yt (on_words (\<lambda>_. w) ?c)) x = wm (yt s) x"
      using w(2) cw unfolding b by (auto simp: on_words_def)
  qed (simp_all add: on_words_def)
qed

section \<open>A system call\<close>

text \<open>The registers that \<^verbatim>\<open>software_interrupt\<close> leaves on the stack.\<close>

lemma swi_enter_frame:
  assumes "swi_enter c m = (sp, m')" and len: "length (c_gen c) = 13"
  shows "sp = c_sp c - 72" "words_at m' sp (c_gen c)" "m' (sp + 56) = c_lr_usr c" "m' (sp + 60) = c_sp_usr c"
    "m' (sp + 64) = c_spsr c" "m' (sp + 68) = c_lr c" "(\<And>i. i < 18 \<Longrightarrow> a \<noteq> sp + 4 * of_nat i) \<Longrightarrow> m' a = m a"
proof -
  let ?m1 = "m(c_sp c - 4 := c_lr c, c_sp c - 4 - 4 := c_spsr c)"
  obtain m2 where p: "push_words (rev (c_gen c)) (c_sp c - 4 - 4 - 12) ?m1 = (sp, m2)"
    and m': "m' = m2(sp + 60 := c_sp_usr c, sp + 56 := c_lr_usr c)"
    using assms(1) by (auto simp: swi_enter_def Let_def split: prod.splits)
  have "length (rev (c_gen c)) < 2 ^ 30" using len by simp
  note pw = push_words_spec [OF this p]
  have "c_sp c - 4 - 4 - 12 = sp + 4 * of_nat 13" using pw(1) len by simp
  then have sp: "c_sp c = sp + 72" by (simp add: algebra_simps)
  then show "sp = c_sp c - 72" by simp
  have other: "m2 (sp + 4 * of_nat j) = ?m1 (sp + 4 * of_nat j)" if "13 \<le> j" "j < 18" for j
  proof (rule pw(3))
    fix i assume "i < length (rev (c_gen c))"
    then have "i < j" "j < 2 ^ 30" using that len by simp_all
    from word_step_inj [OF this, of sp] show "sp + 4 * of_nat j \<noteq> sp + 4 * of_nat i" by (rule not_sym)
  qed
  have at: "sp + 4 * of_nat i \<noteq> sp + 60" "sp + 4 * of_nat i \<noteq> sp + 56" if "i < 13" for i
    using word_step_inj [of i 15 sp] word_step_inj [of i 14 sp] that by auto
  have "words_at m2 sp (c_gen c)" using pw(2) by simp
  then show "words_at m' sp (c_gen c)" unfolding m' by (rule words_at_cong [rotated]) (use at len in simp)
  show "m' (sp + 56) = c_lr_usr c" "m' (sp + 60) = c_sp_usr c" by (simp_all add: m')
  show "m' (sp + 64) = c_spsr c" "m' (sp + 68) = c_lr c"
    using other [of 16] other [of 17] by (simp_all add: m' sp)
  show "m' a = m a" if "\<And>i. i < 18 \<Longrightarrow> a \<noteq> sp + 4 * of_nat i"
  proof -
    have "m2 a = ?m1 a" using that len by (intro pw(3)) simp
    then show ?thesis using that [of 14] that [of 15] that [of 16] that [of 17] by (simp add: m' sp add.commute)
  qed
qed

text \<open>
  C34. A system call with a number from \<open>0x900000\<close> to \<open>0x9003ff\<close> in \<^verbatim>\<open>r7\<close> calls the function in the
  table, or the default handler when there is none, with \<^verbatim>\<open>r0\<close> to \<^verbatim>\<open>r6\<close> as arguments; when this
  function returns and has not changed the saved registers, the user goes on behind the call with the
  result in \<^verbatim>\<open>r0\<close> and with all other registers, both stack pointers and the status as before.
\<close>

theorem syscall_returns:
  assumes len: "length (c_gen c) = 13" and nr: "c_gen c ! 7 = 0x900000 + of_nat j" "j < 1024"
    and tab: "syscall_table_base s + 4 * of_nat j = a" "\<And>i. i < 18 \<Longrightarrow> a \<noteq> c_sp c - 72 + 4 * of_nat i"
    and s1: "s1 = on_words (\<lambda>w. snd (swi_enter c w)) s"
    and call: "call (if wm (yt s) a = 0 then dflt else wm (yt s) a) (take 7 (c_gen c)) s1 = Some (Some ret, s2)"
    and keep: "\<And>i. i < 18 \<Longrightarrow> wm (yt s2) (c_sp c - 72 + 4 * of_nat i) = wm (yt s1) (c_sp c - 72 + 4 * of_nat i)"
  shows "\<exists>d s3. software_interrupt call dflt c s = Some (Some d, s3) \<and> c_gen d = (c_gen c)[0 := ret] \<and>
    c_pc d = c_lr c \<and> c_cpsr d = c_spsr c \<and> c_sp d = c_sp c \<and> c_sp_usr d = c_sp_usr c \<and> c_lr_usr d = c_lr_usr c \<and>
    (\<exists>w. s3 = on_words (\<lambda>_. w) s2)"
proof -
  obtain sp m where e: "swi_enter c (wm (yt s)) = (sp, m)" by (cases "swi_enter c (wm (yt s))")
  note f = swi_enter_frame [OF e len]
  have s1': "s1 = on_words (\<lambda>_. m) s" "wm (yt s1) = m" "syscall_table_base s1 = syscall_table_base s"
    by (simp_all add: s1 on_words_def e)
  have gen: "m (sp + 4 * of_nat i) = c_gen c ! i" if "i < 13" for i using f(2) len that by (simp add: words_at_def)
  have args: "map (\<lambda>i. m (sp + 4 * of_nat i)) [0..<7] = take 7 (c_gen c)"
    using gen len by (intro nth_equalityI) simp_all
  have "m (sp + 28) - word_of_int 0x900000 = of_nat j" using gen [of 7] nr(1) by simp
  moreover have "push_bit 2 (of_nat j :: u32) = 4 * of_nat j" by (simp add: push_bit_eq_mult)
  moreover have "m a = wm (yt s) a" using f(7) tab(2) f(1) by blast
  ultimately have h: "m (syscall_table_base s + push_bit 2 (m (sp + 28) - word_of_int 0x900000)) = wm (yt s) a"
    using tab(1) by (simp only:)
  let ?s3 = "on_words (\<lambda>w. w(sp := ret)) s2"
  let ?w = "(wm (yt s2))(sp := ret)"
  have "syscall_handler call dflt sp s1 = Some (Some (), ?s3)"
    using call unfolding syscall_handler_def Let_def s1'(2,3) args h by simp
  then have si: "software_interrupt call dflt c s = Some (Some (swi_exit sp ?w c), ?s3)"
    unfolding software_interrupt_def e Let_def split s1'(1) [symmetric] by (simp add: on_words_def)
  have k: "?w (sp + 4 * of_nat i) = (if i = 0 then ret else m (sp + 4 * of_nat i))" if "i < 18" for i
    using keep [OF that] word_step_inj [of 0 i sp] that unfolding f(1) [symmetric] s1'(2) by auto
  have "map (\<lambda>i. ?w (sp + 4 * of_nat i)) [0..<13] = (c_gen c)[0 := ret]"
  proof (rule nth_equalityI)
    fix i assume "i < length (map (\<lambda>i. ?w (sp + 4 * of_nat i)) [0..<13])"
    then have i: "i < 13" by simp
    then have "map (\<lambda>i. ?w (sp + 4 * of_nat i)) [0..<13] ! i = ?w (sp + 4 * of_nat i)" by (simp del: upt_rec_numeral fun_upd_apply)
    also have "\<dots> = (if i = 0 then ret else m (sp + 4 * of_nat i))" using k [of i] i by linarith
    finally show "map (\<lambda>i. ?w (sp + 4 * of_nat i)) [0..<13] ! i = (c_gen c)[0 := ret] ! i"
      using gen [OF i] len i by (simp add: nth_list_update)
  qed (simp add: len)
  then show ?thesis
    using si f(1,3-6) k [of 14] k [of 15] k [of 16] k [of 17]
    by (intro exI [of _ "swi_exit sp ?w c"] exI [of _ ?s3]) (auto simp: swi_exit_def Let_def on_words_def)
qed

definition demo_calls :: "(int \<times> u32) list" where
  "demo_calls = [(0x900001, 0xc0001000), (0x900014, 0xc0002000), (0x900001, 0xc0003000)]"

definition sys_demo :: ystate where
  "sys_demo = \<lparr>yt = \<lparr>ss = \<lparr>sm = machine [3, 0, 0, 0, 0, 0, 0, 0, 0], headers = (\<lambda>_. None), slab_page_current = None,
     table_page_current = None, table_total_pages = 0, page_current = 0, header_in_page = 0\<rparr>, wm = (\<lambda>_. 7), bm = (\<lambda>_. 0)\<rparr>,
     syscall_table_base = 0\<rparr>"

theorem syscall_init_installs_witness:
  "\<exists>s' base. syscall_init demo_calls sys_demo = Some (Some 0, s') \<and> syscall_table_base s' = base \<and>
    wm (yt s') (base + 4 * of_nat 1) = 0xc0001000 \<and> wm (yt s') (base + 4 * of_nat 2) = 0"
proof -
  let ?m = "machine [3, 0, 0, 0, 0, 0, 0, 0, 0]"
  have bits: "bm_bit (page_map ?m) 0" "\<not> bm_bit (page_map ?m) 2" by (simp_all add: machine_def bm_bit_def)
  have "\<exists>i. uint (bm_start demo_zone) \<le> i \<and> i < uint (bm_end demo_zone) \<and> \<not> bm_bit (page_map ?m) i"
    using bits(2) by (intro exI [of _ 2]) (simp add: demo_zone_def)
  then obtain pg m where pg: "get_free_pages 1 GFP_KERNEL ?m = Some (Some (page_to_va pg ?m), m)" "0 < pg" "pg \<le> uint (bm_end demo_zone)"
    using get_free_page_picks [OF machine_minv zone_id_kernel [symmetric] machine_zone machine_zone_wf _ _ _ _ bits(1) demo_page_idle]
    by (simp add: demo_zone_def machine_def) blast
  have "uint (0xc0000000 + 4096 * (word_of_int pg :: u32)) = 0xc0000000 + 4096 * pg"
    using pg(2,3) by (simp add: demo_zone_def uint_word_ariths uint_word_of_int)
  then have "page_to_va pg ?m \<noteq> NULL"
    using pg(2) by (auto simp: page_to_va_def page_id_to_va_def page_to_page_id_def machine_def push_bit_eq_mult mult.commute)
  moreover have "get_free_pages 1 GFP_KERNEL (sm (ss (yt sys_demo))) = Some (Some (page_to_va pg ?m), m)" using pg(1) by (simp add: sys_demo_def)
  ultimately obtain s' where s': "syscall_init demo_calls sys_demo = Some (Some 0, s')" "syscall_table_base s' = page_to_va pg ?m"
    "\<And>j. j < 1024 \<Longrightarrow> wm (yt s') (page_to_va pg ?m + 4 * of_nat j) = first_addr demo_calls (0x900000 + int j)"
    using syscall_init_installs by blast
  then show ?thesis using s'(3) [of 1] s'(3) [of 2] by (auto simp: demo_calls_def)
qed

text \<open>A handler that returns its address and the sum of two arguments.\<close>

definition demo_call :: "u32 \<Rightarrow> u32 list \<Rightarrow> (u32, ystate) kop" where
  "demo_call h args = kret (h + args ! 0 + args ! 1)"

theorem syscall_returns_witness:
  "\<exists>d s3. software_interrupt demo_call 0xc0005000 (demo_cpu\<lparr>c_gen := (c_gen demo_cpu)[7 := 0x900002]\<rparr>) (sys_demo\<lparr>syscall_table_base := 0xc0020000\<rparr>) =
     Some (Some d, s3) \<and> c_gen d ! 0 = 7 + 100 + 101 \<and> c_gen d ! 1 = 101 \<and> c_pc d = 0xc0000100 \<and> c_sp_usr d = 0x7ffff000"
proof -
  let ?c = "demo_cpu\<lparr>c_gen := (c_gen demo_cpu)[7 := 0x900002]\<rparr>" and ?s = "sys_demo\<lparr>syscall_table_base := 0xc0020000\<rparr>"
  let ?s1 = "on_words (\<lambda>w. snd (swi_enter ?c w)) ?s"
  have "length (c_gen ?c) = 13" "c_gen ?c ! 7 = 0x900000 + of_nat 2" "(2 :: nat) < 1024" "syscall_table_base ?s + 4 * of_nat 2 = 0xc0020008"
    by (simp_all add: demo_cpu_def)
  moreover have "(0xc0020008 :: u32) \<noteq> c_sp ?c - 72 + 4 * of_nat i" if "i < 18" for i
  proof
    assume "(0xc0020008 :: u32) = c_sp ?c - 72 + 4 * of_nat i"
    then have "(0xc0020008 :: u32) = of_nat (0xc0008fb8 + 4 * i)" by (simp add: demo_cpu_def)
    then have "unat (0xc0020008 :: u32) = unat (of_nat (0xc0008fb8 + 4 * i) :: u32)" by (simp only:)
    then show False using that by (subst (asm) unat_of_nat_u32) simp
  qed
  moreover have "demo_call (if wm (yt ?s) 0xc0020008 = 0 then 0xc0005000 else wm (yt ?s) 0xc0020008) (take 7 (c_gen ?c)) ?s1 = Some (Some (7 + 100 + 101), ?s1)"
    by (simp add: demo_call_def sys_demo_def demo_cpu_def)
  ultimately obtain d s3 where "software_interrupt demo_call 0xc0005000 ?c ?s = Some (Some d, s3)" "c_gen d = (c_gen ?c)[0 := 7 + 100 + 101]"
    "c_pc d = c_lr ?c" "c_sp_usr d = c_sp_usr ?c"
    using syscall_returns [of ?c 2 ?s "0xc0020008" ?s1 demo_call "0xc0005000" "7 + 100 + 101" ?s1] by blast
  then show ?thesis by (auto simp: demo_cpu_def)
qed

end
