(* ===== verification/Signal.thy ===== *)
theory Signal
  imports Task
begin

text \<open>
  Signals, \<^verbatim>\<open>kernel/signal.c\<close>, with \<^verbatim>\<open>sys_exit\<close> (\<^verbatim>\<open>arch/arm/machine/syscall.c\<close>), and the task that
  ends the others, \<^verbatim>\<open>system_killer\<close> (\<^verbatim>\<open>kernel/sched.c\<close>).  The call of a handler by its address is
  the argument \<open>call\<close>; \<open>page_base\<close>, the address of the page array, is for \<^verbatim>\<open>kfree\<close>.
\<close>

section \<open>Data\<close>

record signal =
  sg_from :: int
  sg_to :: int
  sg_sig :: u32
  sg_message :: u32

abbreviation (input) PROCESS_SIGNAL_KILL :: u32 where "PROCESS_SIGNAL_KILL \<equiv> 0"
abbreviation (input) MAX_SIGNAL :: u32 where "MAX_SIGNAL \<equiv> 4"

text \<open>The addresses in \<^verbatim>\<open>signal_table[MAX_SIGNAL]\<close>, 0 for none.\<close>

type_synonym signal_table = "u32 list"

definition no_handlers :: signal_table where
  "no_handlers = replicate 4 0"

section \<open>Kill\<close>

definition task_kill_self :: "u32 \<Rightarrow> kstate \<Rightarrow> (int \<times> kstate) option" where
  "task_kill_self t k = do {
     system_killer \<leftarrow> pid_get_task 0 k;
     if system_killer = NULL then Some (- EINVAL, k)
     else do {
       k \<leftarrow> set_task_state t PROCESS_STATE_IDLE k;
       (_, k) \<leftarrow> wakeup_task system_killer k;
       k \<leftarrow> sched k;
       Some (0, k)
     }
   }"

definition task_kill_other :: "u32 \<Rightarrow> u32 \<Rightarrow> u32 \<Rightarrow> (int, tstate) kop" where
  "task_kill_other page_base killer t = kill_task page_base t"

definition signal_kill :: "u32 \<Rightarrow> signal \<Rightarrow> (int, tstate) kop" where
  "signal_kill page_base sg s = do {
     from \<leftarrow> pid_get_task (sg_from sg) (tk s);
     to \<leftarrow> pid_get_task (sg_to sg) (tk s);
     if sg_from sg = sg_to sg then do {
       (r, k) \<leftarrow> task_kill_self from (tk s);
       Some (Some r, on_k (\<lambda>_. k) s)
     }
     else if t_prio (task (tk s) from) < t_prio (task (tk s) to) then task_kill_other page_base from to s
     else Some (Some (- EINVAL), s)
   }"

section \<open>Dispatch\<close>

definition is_vaild_signal :: "signal \<Rightarrow> kstate \<Rightarrow> bool option" where
  "is_vaild_signal sg k =
     (if MAX_SIGNAL \<le> sg_sig sg then Some False
      else do {
        from \<leftarrow> pid_get_task (sg_from sg) k;
        if from = NULL then Some False
        else do {
          to \<leftarrow> pid_get_task (sg_to sg) k;
          Some (to \<noteq> NULL)
        }
      })"

definition do_sys_signal :: "(u32 \<Rightarrow> signal \<Rightarrow> (int, tstate) kop) \<Rightarrow> signal_table \<Rightarrow> signal \<Rightarrow> (int, tstate) kop" where
  "do_sys_signal call tab sg s = do {
     v \<leftarrow> is_vaild_signal sg (tk s);
     if v then
       (let handler = tab ! unat (sg_sig sg) in
        if handler \<noteq> NULL then call handler sg s else Some (Some (- EINVAL), s))
     else Some (Some (- EINVAL), s)
   }"

definition sys_signal :: "(u32 \<Rightarrow> signal \<Rightarrow> (int, tstate) kop) \<Rightarrow> signal_table \<Rightarrow> int \<Rightarrow> u32 \<Rightarrow> u32 \<Rightarrow> (int, tstate) kop" where
  "sys_signal call tab pid sig arg s =
     do_sys_signal call tab \<lparr>sg_from = get_task_pid (current (tk s)) (tk s), sg_to = pid, sg_sig = sig, sg_message = arg\<rparr> s"

definition sys_exit :: "(u32 \<Rightarrow> signal \<Rightarrow> (int, tstate) kop) \<Rightarrow> signal_table \<Rightarrow> (unit, tstate) kop" where
  "sys_exit call tab s =
     kthen (sys_signal call tab (get_task_pid (current (tk s)) (tk s)) PROCESS_SIGNAL_KILL NULL) (\<lambda>_. kret ()) s"

definition register_signal_handler :: "u32 \<Rightarrow> u32 \<Rightarrow> signal_table \<Rightarrow> int \<times> signal_table" where
  "register_signal_handler sig handler tab =
     (if handler = NULL \<or> MAX_SIGNAL \<le> sig then (- EINVAL, tab) else (0, tab[unat sig := handler]))"

text \<open>\<open>addr\<close> is the address of \<^verbatim>\<open>signal_kill\<close>.\<close>

definition init_signal_handler :: "u32 \<Rightarrow> signal_table \<Rightarrow> signal_table" where
  "init_signal_handler addr tab = snd (register_signal_handler PROCESS_SIGNAL_KILL addr tab)"

section \<open>The killer\<close>

fun idle_entry :: "node \<Rightarrow> u32 option" where
  "idle_entry (N_idle t) = Some t"
| "idle_entry _ = None"

text \<open>The loop over the list of ended tasks, whose body unhooks the node it stands on.\<close>

partial_function (option) kill_ended :: "u32 \<Rightarrow> node \<Rightarrow> tstate \<Rightarrow> (unit option \<times> tstate) option" where
  "kill_ended page_base l s =
     (if l = TaskIdle then Some (Some (), s)
      else do {
        t \<leftarrow> idle_entry l;
        (r, s) \<leftarrow> kill_task page_base t s;
        if r = None then Some (None, s) else kill_ended page_base (lnext (lists (tk s)) l) s
      })"

text \<open>One round of \<^verbatim>\<open>system_killer\<close>; at its end the task sleeps until it is woken.\<close>

definition system_killer :: "u32 \<Rightarrow> (unit, tstate) kop" where
  "system_killer page_base s =
     kthen (\<lambda>s. kill_ended page_base (lnext (lists (tk s)) TaskIdle) s) (\<lambda>_ s. do {
       (_, k) \<leftarrow> suspend_task_timeout (current (tk s)) (-1) (tk s);
       Some (Some (), on_k (\<lambda>_. k) s)
     }) s"

end
