(* ===== verification/SignalProps.thy ===== *)
theory SignalProps
  imports Signal TaskProps
begin

text \<open>
  What killing a task does: the end of a kernel thread, by another task or by \<^verbatim>\<open>system_killer\<close>, and the
  exit of the running task; who may kill whom.
\<close>

section \<open>Changes of the scheduler's lists only\<close>

definition sched_only :: "node lists \<Rightarrow> node lists \<Rightarrow> bool" where
  "sched_only F F' \<longleftrightarrow> (\<forall>r. foreign r \<longrightarrow> F' r = F r) \<and> (\<forall>n. foreign n \<longrightarrow> fresh F n \<longrightarrow> fresh F' n)"

lemma sched_only_refl: "sched_only F F"
  by (simp add: sched_only_def)

lemma sched_only_trans: "sched_only F G \<Longrightarrow> sched_only G H \<Longrightarrow> sched_only F H"
  by (simp add: sched_only_def)

lemma q_del_fresh: "fresh F n \<Longrightarrow> fresh (q_del m r F) n"
  by (auto simp: fresh_def q_del_def dest: notin_set_remove1 split: if_splits)

lemma q_add_fresh: "fresh F n \<Longrightarrow> n \<noteq> m \<Longrightarrow> fresh (q_add m r F) n"
  by (auto simp: fresh_def q_add_def split: if_splits)

lemma q_del_only: "\<not> foreign r \<Longrightarrow> sched_only F (q_del m r F)"
  by (auto simp: sched_only_def q_del_def intro: q_del_fresh [unfolded q_del_def])

lemma q_add_only: "\<not> foreign r \<Longrightarrow> \<not> foreign m \<Longrightarrow> sched_only F (q_add m r F)"
  by (auto simp: sched_only_def q_add_def intro: q_add_fresh [unfolded q_add_def])

lemma not_foreign [simp]:
  "\<not> foreign (OsSched i)" "\<not> foreign TaskIdle" "\<not> foreign TaskSleep" "\<not> foreign TaskSystem" "\<not> foreign (N_idle t)"
  "\<not> foreign (N_prio_running t)" "\<not> foreign (N_sleep t)" "\<not> foreign (N_system t)"
  by (simp_all add: foreign_def sched_heads_def)

lemma set_state_only: "sched_only F (abs_set_state old new t p F)"
proof -
  have "sched_only F (abs_leave old t p F)" by (cases old) (simp_all add: sched_only_refl q_del_only)
  moreover have "sched_only G (abs_enter new t p G)" for G by (cases new) (simp_all add: sched_only_refl q_add_only)
  ultimately show ?thesis unfolding abs_set_state_def by (rule sched_only_trans)
qed

lemma abs_remove_only: "sched_only F (abs_remove t F)"
  unfolding abs_remove_def by (rule sched_only_trans [OF q_del_only q_del_only]) simp_all

lemma mutex_free_only:
  "sched_only F F' \<Longrightarrow> mutex_free m F k \<Longrightarrow> mutex_count k' = mutex_count k \<Longrightarrow> current k' = current k \<Longrightarrow> mutex_free m F' k'"
  by (auto simp: mutex_free_def sched_only_def)

section \<open>A task that ends\<close>

lemma set_task_idle:
  assumes k: "kinv F s" and t: "live F s t"
    and st: "t_state (task s t) \<in> {PROCESS_STATE_PREPARE, PROCESS_STATE_RUNNING, PROCESS_STATE_SLEEP, PROCESS_STATE_IDLE}"
  shows "\<exists>s' F'. set_task_state t PROCESS_STATE_IDLE s = Some s' \<and> kinv F' s' \<and> state_frame t PROCESS_STATE_IDLE s s' \<and>
    sched_only F F' \<and> (\<forall>u. live F' s' u \<longleftrightarrow> live F s u) \<and>
    (t_state (task s t) \<noteq> PROCESS_STATE_IDLE \<longrightarrow> F' = abs_set_state (t_state (task s t)) PROCESS_STATE_IDLE t (t_prio (task s t)) F)"
proof (cases "t_state (task s t) = PROCESS_STATE_IDLE")
  case True
  then have "set_task_state t PROCESS_STATE_IDLE s = Some s" by (intro set_task_state_ignored) (simp add: get_state_change_eq)
  with True k show ?thesis by (intro exI [of _ s] exI [of _ F]) (simp add: state_frame_id sched_only_refl)
next
  case False
  let ?F = "abs_set_state (t_state (task s t)) PROCESS_STATE_IDLE t (t_prio (task s t)) F"
  have "transition (t_state (task s t)) PROCESS_STATE_IDLE" using st False by (auto simp: transition_def)
  then obtain s' where s': "set_task_state t PROCESS_STATE_IDLE s = Some s'" "kinv ?F s'" "state_frame t PROCESS_STATE_IDLE s s'"
    using set_task_state_kinv [OF k t, of PROCESS_STATE_IDLE] by auto
  moreover have "live ?F s' u \<longleftrightarrow> live F s u" for u
    using live_cong [OF state_frame_sel(3) [OF s'(3)], of F] by (simp add: live_set_state)
  ultimately show ?thesis using set_state_only by blast
qed

text \<open>A kernel thread that is not running, with its parent's children \<open>cs\<close>, its stack and no children of its own.\<close>

definition ended_thread :: "node lists \<Rightarrow> u32 \<Rightarrow> node list \<Rightarrow> int \<Rightarrow> page \<Rightarrow> mm_zone \<Rightarrow> tstate \<Rightarrow> bool" where
  "ended_thread F t cs pg p z s \<longleftrightarrow>
     (let m = sm (ss s); k = ks m; ts = task k t in
      minv F m \<and> mutex_free PidMapMutex F k \<and> pid_inv k \<and>
      live F k t \<and> t \<noteq> idle k \<and> t \<noteq> current k \<and>
      t_state ts \<in> {PROCESS_STATE_PREPARE, PROCESS_STATE_SLEEP, PROCESS_STATE_IDLE} \<and> 1 < t_pid ts \<and> t_pid ts < pid_current k \<and>
      F (N_child (t_parent ts)) = Some cs \<and> N_p t \<in> set cs \<and> (\<forall>n \<in> set cs. foreign n) \<and> t_parent ts \<noteq> t \<and>
      F (N_child t) = Some [] \<and> F (N_wait t) = Some [] \<and> F (N_mutex_get t) = Some [] \<and>
      t_flag ts AND PROCESS_TYPE_USER = 0 \<and> 0x40000000 \<le> t \<and>
      stack_origin ts = page_to_va pg m \<and> stack_origin ts \<noteq> NULL \<and> page_read pg m = Some p \<and>
      pg_flag p AND GFP_PAGE_HEADER \<noteq> 0 \<and> get_zone (gfp_zone_id (pg_flag p)) m = Some z \<and>
      0 < uint (pg_count p) \<and> pg + uint (pg_count p) \<le> bm_size (page_map m))"

lemma ended_threadD:
  assumes "ended_thread F t cs pg p z s"
  shows "minv F (sm (ss s))" "mutex_free PidMapMutex F (tk s)" "pid_inv (tk s)" "live F (tk s) t" "t \<noteq> idle (tk s)"
    "t \<noteq> current (tk s)" "t_state (task (tk s) t) \<in> {PROCESS_STATE_PREPARE, PROCESS_STATE_SLEEP, PROCESS_STATE_IDLE}"
    "1 < t_pid (task (tk s) t)" "t_pid (task (tk s) t) < pid_current (tk s)"
    "F (N_child (t_parent (task (tk s) t))) = Some cs" "N_p t \<in> set cs" "\<forall>n \<in> set cs. foreign n" "t_parent (task (tk s) t) \<noteq> t"
    "F (N_child t) = Some []" "F (N_wait t) = Some []" "F (N_mutex_get t) = Some []" "t_flag (task (tk s) t) AND PROCESS_TYPE_USER = 0"
    "0x40000000 \<le> t" "stack_origin (task (tk s) t) = page_to_va pg (sm (ss s))" "stack_origin (task (tk s) t) \<noteq> NULL"
    "page_read pg (sm (ss s)) = Some p" "pg_flag p AND GFP_PAGE_HEADER \<noteq> 0" "get_zone (gfp_zone_id (pg_flag p)) (sm (ss s)) = Some z"
    "0 < uint (pg_count p)" "pg + uint (pg_count p) \<le> bm_size (page_map (sm (ss s)))"
  using assms unfolding ended_thread_def Let_def by blast+

text \<open>The part of \<^verbatim>\<open>kill_task\<close> in the critical section, for a task without children, waits and mutexes.\<close>

lemma kill_unhook:
  assumes k: "kinv F k" and cs: "F (N_child par) = Some cs" "N_p t \<in> set cs" "\<forall>n \<in> set cs. foreign n" "par \<noteq> t"
    and e: "F (N_child t) = Some []" "F (N_wait t) = Some []" "F (N_mutex_get t) = Some []"
  shows "\<exists>k'. unlink_task t k = Some k' \<and> kinv (F(N_child par \<mapsto> remove1 (N_p t) cs)) k' \<and> pid_frame k k' \<and>
    pid_addr k' = pid_addr k \<and> pid_nr k' = pid_nr k"
proof -
  let ?F = "F(N_child par \<mapsto> remove1 (N_p t) cs)"
  let ?k1 = "snd (enter_critical k)"
  let ?k2 = "on_lists (list_del (N_p t)) ?k1"
  let ?k3 = "exit_critical (fst (enter_critical k)) ?k2"
  have "list_rel (list_del (N_p t) (lists ?k1)) ?F"
    using os_list.rel_del [OF kinv_rel [OF k] cs(1,2)] by simp
  then have k2: "kinv ?F ?k2"
    using k cs(3) by (intro kinv_foreign) (auto dest: notin_set_remove1)
  have emp: "lnext (lists ?k2) r = r" if "?F r = Some []" for r
    using os_list.rel_empty [OF kinv_rel [OF k2] that] by (simp add: is_list_empty_def)
  have e2: "?F (N_child t) = Some []" "?F (N_wait t) = Some []" "?F (N_mutex_get t) = Some []"
    using e cs(4) by simp_all
  have a: "adopt_children t (lnext (lists ?k2) (N_child t)) ?k2 = Some ?k2"
    unfolding emp [OF e2(1)] by (subst adopt_children.simps) simp
  have u: "unlock_all t (lnext (lists ?k2) (N_mutex_get t)) ?k2 = Some ?k2"
    unfolding emp [OF e2(3)] by (subst unlock_all.simps) simp
  have w: "is_list_empty (N_wait t) (lists ?k2)" using os_list.rel_empty [OF kinv_rel [OF k2] e2(2)] by simp
  have "kinv ?F ?k3" using k2 by simp
  moreover have "pid_frame k ?k3" by (simp add: pid_frame_def)
  moreover have "pid_addr ?k3 = pid_addr k" "pid_nr ?k3 = pid_nr k" by simp_all
  ultimately show ?thesis using a u w by (intro exI [of _ ?k3]) (simp add: unlink_task_def split_beta Let_def del: on_lists_sel)
qed

lemma minv_ks:
  "minv F m \<Longrightarrow> kinv F' k \<Longrightarrow> (\<And>i. i < 4 \<Longrightarrow> mutex_free (ZoneMutex i) F' k) \<Longrightarrow> minv F' (m\<lparr>ks := k\<rparr>)"
  by (simp add: minv_def)

text \<open>The end of a kernel thread up to the release of its memory.\<close>

lemma kill_thread_lists:
  assumes e: "ended_thread F t cs pg p z s" and k: "k = tk s" and ts: "ts = task k t"
  shows "\<exists>k1 k2 k3 G. set_task_state t PROCESS_STATE_IDLE k = Some k1 \<and> sched_remove_task t k1 = Some (Some 0, k2) \<and>
    unlink_task t k2 = Some k3 \<and> minv G ((sm (ss s))\<lparr>ks := k3\<rparr>) \<and> \<not> live G k3 t \<and> G (N_child (t_parent ts)) = Some (remove1 (N_p t) cs) \<and>
    pid_get_task (t_pid ts) k3 = Some NULL \<and> task k3 = (task k)(t := ts\<lparr>t_state := PROCESS_STATE_IDLE\<rparr>) \<and>
    current k3 = current k \<and> (\<forall>u. u \<noteq> t \<longrightarrow> live G k3 u = live F k u)"
proof -
  note d = ended_threadD [OF e, folded k, folded ts]
  have kF: "kinv F k" and zone: "\<And>i. i < 4 \<Longrightarrow> mutex_free (ZoneMutex i) F k" using d(1) by (simp_all add: minv_def k)
  obtain k1 F1 where k1: "set_task_state t PROCESS_STATE_IDLE k = Some k1" "kinv F1 k1" "state_frame t PROCESS_STATE_IDLE k k1"
    "sched_only F F1" "\<And>u. live F1 k1 u \<longleftrightarrow> live F k u"
    using set_task_idle [OF kF d(4)] d(7) ts by blast
  note f1 = state_frame_sel [OF k1(3)]
  have "mutex_free PidMapMutex F1 k1" by (rule mutex_free_only [OF k1(4) d(2) f1(8) f1(2)])
  moreover have "pid_inv k1" using d(3) pid_inv_cong [OF f1(9-12)] by simp
  ultimately obtain k2 where k2: "sched_remove_task t k1 = Some (Some 0, k2)" "kinv (abs_remove t F1) k2"
    "\<not> live (abs_remove t F1) k2 t" "pid_get_task (t_pid ts) k2 = Some NULL" "pid_frame k1 k2"
    using sched_remove_task_spec [OF k1(2), of t] d(4-6,8,9) k1(5) f1(1,2,3,12) ts by auto
  have only: "sched_only F (abs_remove t F1)" by (rule sched_only_trans [OF k1(4) abs_remove_only])
  then have same: "foreign r \<Longrightarrow> abs_remove t F1 r = F r" for r by (simp add: sched_only_def)
  let ?G = "(abs_remove t F1)(N_child (t_parent ts) \<mapsto> remove1 (N_p t) cs)"
  obtain k3 where k3: "unlink_task t k2 = Some k3" "kinv ?G k3" "pid_frame k2 k3" "pid_addr k3 = pid_addr k2" "pid_nr k3 = pid_nr k2"
    using kill_unhook [OF k2(2), of "t_parent ts" cs t] d(10-16) same by auto
  have fr: "task k3 = (task k)(t := ts\<lparr>t_state := PROCESS_STATE_IDLE\<rparr>)" "current k3 = current k" "idle k3 = idle k"
    "mutex_count k3 = mutex_count k"
    using k2(5) k3(3) f1 ts by (simp_all add: pid_frame_def)
  have mf: "mutex_free (ZoneMutex i) ?G k3" if "i < 4" for i
  proof -
    have "fresh ?G (M_task (ZoneMutex i))"
      using only zone [OF that] d(10) by (auto simp: mutex_free_def sched_only_def fresh_def dest: notin_set_remove1 split: if_splits)
    then show ?thesis
      using mutex_free_transfer [OF zone [OF that], of k3 ?G] fr same by simp
  qed
  have "minv ?G ((sm (ss s))\<lparr>ks := k3\<rparr>)" by (rule minv_ks [OF d(1) k3(2) mf])
  moreover have lG: "live ?G k3 u \<longleftrightarrow> live (abs_remove t F1) k2 u" for u
    using fr(3) f1(3) k2(5) by (simp add: live_def on_def pid_frame_def)
  moreover have "live (abs_remove t F1) k2 u = live F k u" if "u \<noteq> t" for u
  proof -
    have "live (abs_remove t F1) k2 u = live F1 k1 u"
      using that k2(5) os_list.rel_distinct [OF kinv_rel [OF k1(2)], of TaskSystem]
      by (cases "F1 TaskSystem") (auto simp: live_def on_def abs_remove_def pid_frame_def in_set_remove1)
    then show ?thesis by (simp add: k1(5))
  qed
  moreover have "pid_get_task (t_pid ts) k3 = Some NULL"
    using k2(4) pid_get_task_cong [OF k3(4,5)] by simp
  ultimately show ?thesis using k1(1) k2(1,3) k3(1) fr(1,2) by (intro exI [of _ k1] exI [of _ k2] exI [of _ k3] exI [of _ ?G]) simp
qed

lemma release_thread:
  assumes e: "ended_thread F t cs pg p z s" and G: "minv G ((sm (ss s))\<lparr>ks := k\<rparr>)" and dead: "\<not> live G k t"
    and ts: "task k t = (task (tk s) t)\<lparr>t_state := PROCESS_STATE_IDLE\<rparr>"
  shows "\<exists>s'. release_task page_base t (on_k (\<lambda>_. k) s) = Some (Some (), s') \<and> kinv G (tk s') \<and> (\<forall>u. live G (tk s') u = live G k u) \<and>
    pid_addr (tk s') = pid_addr k \<and> pid_nr (tk s') = pid_nr k \<and> current (tk s') = current k \<and>
    (\<forall>u. u \<noteq> t \<longrightarrow> task (tk s') u = task k u) \<and>
    same_bits (\<lambda>i. \<not> (pg \<le> i \<and> i < pg + uint (pg_count p)) \<and> bm_bit (page_map (sm (ss s))) i) (sm (ss s)) (sm (ss s'))"
proof -
  note d = ended_threadD [OF e]
  let ?m = "sm (ss s)"
  let ?s3 = "on_k (\<lambda>_. k) s"
  have sm3: "sm (ss ?s3) = ?m\<lparr>ks := k\<rparr>" by (simp add: on_k_def on_ks_def)
  have "page_to_va pg ?m = page_to_va pg (?m\<lparr>ks := k\<rparr>)" by (simp add: page_to_va_def page_id_to_va_def)
  then have org: "stack_origin (task k t) = page_to_va pg (?m\<lparr>ks := k\<rparr>)" "stack_origin (task k t) \<noteq> NULL"
    using d(19,20) by (simp_all add: ts)
  obtain m4 where m4: "free_pages (page_to_va pg (?m\<lparr>ks := k\<rparr>)) (?m\<lparr>ks := k\<rparr>) = Some (Some (), m4)"
    "pages_freed pg (uint (pg_count p)) (gfp_zone_id (pg_flag p)) z (?m\<lparr>ks := k\<rparr>) m4" "minv G m4"
    using free_pages_spec [OF G _ d(22) refl _ refl] d(21,23,25) by (auto simp: page_read_def get_zone_def)
  let ?s4 = "?s3\<lparr>ss := (ss ?s3)\<lparr>sm := m4\<rparr>\<rparr>"
  let ?f = "\<lambda>ts. ts\<lparr>stack_base := NULL, stack_origin := NULL\<rparr>"
  let ?s5 = "on_k (upd_task t ?f) ?s4"
  have free: "slab_op (mm_op (free_pages (stack_origin (task k t)))) ?s3 = Some (Some (), ?s4)"
    using m4(1) by (simp add: slab_op_def mm_op_def sm3 org(1))
  have "t_flag (task k t) AND PROCESS_TYPE_USER = 0" using d(17) by (simp add: ts)
  then have rel: "release_task_memory t ?s3 = Some (Some (), ?s5)"
    using free org(2) by (simp add: release_task_memory_def release_kernel_stack_def sm3)
  have t0: "t \<noteq> NULL" "\<not> t < SIZE_1G" using d(18) by (auto simp: not_less)
  then have "slab_op (kfree page_base t) ?s5 = Some (Some (), ?s5)" by (simp add: slab_op_def kfree_def kfree_user_mem_def)
  then have run: "release_task page_base t ?s3 = Some (Some (), ?s5)" using rel t0(1) by (simp add: release_task_def)
  have k5: "tk ?s5 = upd_task t ?f (ks m4)" "page_map (sm (ss ?s5)) = page_map m4" by (simp_all add: on_k_def on_ks_def)
  have mf: "mutex_frame k (ks m4)" "task (ks m4) = task k" using m4(2) by (simp_all add: pages_freed_def ks_quiet_def)
  note q = mutex_frame_sel [OF mf(1)]
  have l: "live G (ks m4) u = live G k u" "live G (tk ?s5) u = live G (ks m4) u" for u
    unfolding k5(1) by (rule live_cong; simp add: q)+
  have "kinv G (ks m4)" using m4(3) by (simp add: minv_def)
  then have "kinv G (tk ?s5)" unfolding k5(1) using kinv_upd_dead [of G "ks m4" t] dead l by simp
  moreover have "same_bits (\<lambda>i. \<not> (pg \<le> i \<and> i < pg + uint (pg_count p)) \<and> bm_bit (page_map ?m) i) ?m (sm (ss ?s5))"
    using m4(2) k5(2) by (simp add: page_ops)
  moreover have "pid_addr (tk ?s5) = pid_addr k" "pid_nr (tk ?s5) = pid_nr k" "current (tk ?s5) = current k"
    "u \<noteq> t \<Longrightarrow> task (tk ?s5) u = task k u" for u unfolding k5(1) using q mf(2) by simp_all
  ultimately show ?thesis using run l by (intro exI [of _ ?s5]) blast
qed

text \<open>
  C35. Killing a kernel thread that is ready, asleep or already ended, but neither running nor the idle task, whose process identifier is above 1, which has no
  children, waits for no mutex and holds none, and whose structure lies above \<open>0x40000000\<close>: \<^verbatim>\<open>kill_task\<close> returns 0 and
  removes every trace of it: it is off the list of all tasks, its process identifier is free, it is no
  child of its parent any more, the pages of its stack are free and no other page is; all other tasks
  are as before and the scheduler stays consistent.
\<close>

theorem kill_thread_removes:
  assumes e: "ended_thread F t cs pg p z s" and k: "k = tk s"
  shows "\<exists>s' G. kill_task page_base t s = Some (Some 0, s') \<and> kinv G (tk s') \<and> \<not> registered (tk s') t \<and>
    pid_get_task (t_pid (task k t)) (tk s') = Some NULL \<and> G (N_child (t_parent (task k t))) = Some (remove1 (N_p t) cs) \<and>
    (\<forall>u. u \<noteq> t \<longrightarrow> task (tk s') u = task k u \<and> registered (tk s') u = registered k u) \<and> current (tk s') = current k \<and>
    (\<forall>i. 0 \<le> i \<longrightarrow> i < bm_size (page_map (sm (ss s))) \<longrightarrow> bm_bit (page_map (sm (ss s'))) i =
      (\<not> (pg \<le> i \<and> i < pg + uint (pg_count p)) \<and> bm_bit (page_map (sm (ss s))) i))"
proof -
  note d = ended_threadD [OF e]
  let ?m = "sm (ss s)" and ?ts = "task k t"
  obtain k1 k2 k3 G where kk: "set_task_state t PROCESS_STATE_IDLE k = Some k1" "sched_remove_task t k1 = Some (Some 0, k2)"
    "unlink_task t k2 = Some k3" "minv G (?m\<lparr>ks := k3\<rparr>)" "\<not> live G k3 t" "G (N_child (t_parent ?ts)) = Some (remove1 (N_p t) cs)"
    "pid_get_task (t_pid ?ts) k3 = Some NULL" "task k3 = (task k)(t := ?ts\<lparr>t_state := PROCESS_STATE_IDLE\<rparr>)" "current k3 = current k"
    "\<And>u. u \<noteq> t \<Longrightarrow> live G k3 u = live F k u"
    using kill_thread_lists [OF e k refl] by blast
  obtain s' where s': "release_task page_base t (on_k (\<lambda>_. k3) s) = Some (Some (), s')" "kinv G (tk s')" "\<And>u. live G (tk s') u = live G k3 u"
    "pid_addr (tk s') = pid_addr k3" "pid_nr (tk s') = pid_nr k3" "current (tk s') = current k3" "\<And>u. u \<noteq> t \<Longrightarrow> task (tk s') u = task k3 u"
    "same_bits (\<lambda>i. \<not> (pg \<le> i \<and> i < pg + uint (pg_count p)) \<and> bm_bit (page_map ?m) i) ?m (sm (ss s'))"
    using release_thread [OF e kk(4,5), of page_base] kk(8) k by auto
  have kill: "kill_task page_base t s = Some (Some 0, s')"
  proof -
    have "kern_op (kmod (set_task_state t PROCESS_STATE_IDLE)) s = Some (Some (), on_k (\<lambda>_. k1) s)"
      using kk(1) by (simp add: kern_op_def k)
    moreover have "kern_op (sched_remove_task t) (on_k (\<lambda>_. k1) s) = Some (Some 0, on_k (\<lambda>_. k2) s)"
      using kk(2) by (simp add: kern_op_def on_k_def on_ks_def)
    moreover have "kern_op (kmod (unlink_task t)) (on_k (\<lambda>_. k2) s) = Some (Some (), on_k (\<lambda>_. k3) s)"
      using kk(3) by (simp add: kern_op_def on_k_def on_ks_def)
    moreover have "t \<noteq> NULL" using d(18) by auto
    ultimately show ?thesis using s'(1) by (simp add: kill_task_def)
  qed
  have "kinv F k" using d(1) by (simp add: minv_def k)
  then have "registered (tk s') u = registered k u" if "u \<noteq> t" for u
    using registered_live [OF s'(2), of u] registered_live [of F k u] s'(3) kk(10) [OF that] by simp
  moreover have "\<not> registered (tk s') t" using registered_live [OF s'(2), of t] s'(3) kk(5) by simp
  moreover have "pid_get_task (t_pid ?ts) (tk s') = Some NULL" using kk(7) pid_get_task_cong [OF s'(4,5)] by simp
  ultimately show ?thesis
    using kill s'(2,6-8) kk(6,8,9) by (intro exI [of _ s'] exI [of _ G]) (simp add: same_bits_def)
qed

section \<open>The exit of the running task\<close>

text \<open>The states and the list of ended tasks after the running task has ended itself.\<close>

lemma task_kill_self_spec:
  assumes r: "kready F k" and st: "t_state (task k (current k)) = PROCESS_STATE_RUNNING"
    and z: "pid_get_task 0 k = Some z" "z \<noteq> NULL" "registered k z" "t_state (task k z) = PROCESS_STATE_SLEEP"
    and pr: "0 \<le> t_prio (task k z)" "t_prio (task k z) < MAX_PRIO - 1" and es: "F TaskIdle = Some es"
  shows "\<exists>k' G. task_kill_self (current k) k = Some (0, k') \<and> kready G k' \<and> G TaskIdle = Some (es @ [N_idle (current k)]) \<and>
    current k' \<noteq> current k \<and> t_state (task k' (current k)) = PROCESS_STATE_IDLE \<and>
    t_state (task k' z) = (if current k' = z then PROCESS_STATE_RUNNING else PROCESS_STATE_PREPARE)"
proof -
  let ?c = "current k"
  have kF: "kinv F k" by (rule kready_kinv(1) [OF r])
  have cz: "?c \<noteq> z" using st z(4) by auto
  have lc: "live F k ?c" using kF by (simp add: kinv_def cur_inv_def)
  let ?F1 = "abs_set_state PROCESS_STATE_RUNNING PROCESS_STATE_IDLE ?c (t_prio (task k ?c)) F"
  obtain k1 where k1: "set_task_state ?c PROCESS_STATE_IDLE k = Some k1" "kinv ?F1 k1" "state_frame ?c PROCESS_STATE_IDLE k k1"
    "\<And>u. live ?F1 k1 u \<longleftrightarrow> live F k u"
    using set_task_idle [OF kF lc] st by auto
  note f1 = state_frame_sel [OF k1(3)]
  have z1: "t_state (task k1 z) = PROCESS_STATE_SLEEP" "t_prio (task k1 z) = t_prio (task k z)" using f1(1) z(4) cz by simp_all
  have lz: "live ?F1 k1 z" using k1(4) registered_live [OF kF] z(3) by simp
  let ?F2 = "abs_set_state PROCESS_STATE_SLEEP PROCESS_STATE_PREPARE z (t_prio (task k z)) ?F1"
  obtain q k2 where k2: "wakeup_task z k1 = Some (q, k2)" "kinv ?F2 k2" "sched_frame k1 k2"
    "\<And>u. t_state (task k2 u) = (if u = z then PROCESS_STATE_PREPARE else t_state (task k1 u))"
    using wakeup_task_spec [OF k1(2) lz] z1 by auto
  have ready2: "kready ?F2 k2"
    by (rule kready_frame [OF k2(2,3) kready_frame [OF k1(2) state_frame_sched [OF k1(3)] r]])
  obtain k3 G where k3: "sched k2 = Some k3" "kready G k3" "resched ?F2 k2 (current k3) G k3"
    using sched_ready [OF ready2] by blast
  have cur: "current k2 = ?c" using sched_frame_sel(1) [OF k2(3)] f1(2) by simp
  have c2: "t_state (task k2 ?c) = PROCESS_STATE_IDLE" "t_state (task k2 z) = PROCESS_STATE_PREPARE" using k2(4) cz f1(1) by simp_all
  have "base_inv ?F1 k1" using k1(2) by (simp add: kinv_defs)
  then have "\<exists>xs. ?F1 (OsSched (t_prio (task k z))) = Some xs"
    using base_inv_prio [of ?F1 k1 "t_prio (task k z)"] pr by (auto simp: prio_ok_def)
  then have "?F2 (OsSched (t_prio (task k z))) \<noteq> Some []" by (auto simp: abs_set_state_def)
  then have "\<not> nothing_ready ?F2" using pr by (auto simp: nothing_ready_def)
  moreover have "\<not> first_ready ?F2 ?c p" for p using first_ready_task(2) [OF k2(2), of ?c p] c2(1) by auto
  ultimately have sw: "current k3 \<noteq> ?c" "G = abs_switch k2 (current k3) ?F2" "switch_states k2 (current k3) k3"
    using k3(3) by (auto simp: resched_def cur)
  have "G TaskIdle = Some (es @ [N_idle ?c])" using es c2(1) by (simp add: sw(2) abs_switch_def abs_set_state_def cur)
  moreover have "task_kill_self ?c k = Some (0, k3)" using z(1,2) k1(1) k2(1) k3(1) by (simp add: task_kill_self_def)
  ultimately show ?thesis
    using k3(2) sw(1) switch_states_sel(1) [OF sw(3), of ?c] switch_states_sel(1) [OF sw(3), of z] c2 cz cur
    by (intro exI [of _ k3] exI [of _ G]) auto
qed

text \<open>
  C36. \<^verbatim>\<open>exit\<close>, once \<^verbatim>\<open>init_signal_handler\<close> has run: the running task is put at the tail of the list of
  ended tasks, the task with identifier 0, which ends them, is woken, and another task runs.
\<close>

theorem exit_hands_over:
  assumes r: "kready F k" and k: "k = tk s" and st: "t_state (task k (current k)) = PROCESS_STATE_RUNNING"
    and c: "pid_get_task (t_pid (task k (current k))) k = Some (current k)" "current k \<noteq> NULL"
    and z: "pid_get_task 0 k = Some z" "z \<noteq> NULL" "registered k z" "t_state (task k z) = PROCESS_STATE_SLEEP"
    and pr: "0 \<le> t_prio (task k z)" "t_prio (task k z) < MAX_PRIO - 1" and es: "list_for_each TaskIdle (lists k) = Some es"
    and h: "call addr = signal_kill page_base" "addr \<noteq> NULL"
  shows "\<exists>s'. sys_exit call (init_signal_handler addr no_handlers) s = Some (Some (), s') \<and>
    list_for_each TaskIdle (lists (tk s')) = Some (es @ [N_idle (current k)]) \<and>
    t_state (task (tk s') (current k)) = PROCESS_STATE_IDLE \<and> current (tk s') \<noteq> current k \<and>
    t_state (task (tk s') z) = (if current (tk s') = z then PROCESS_STATE_RUNNING else PROCESS_STATE_PREPARE)"
proof -
  let ?c = "current k"
  have kF: "kinv F k" by (rule kready_kinv(1) [OF r])
  then have "base_inv F k" by (simp add: kinv_defs)
  from base_inv_name [OF this, of SN_idle] obtain xs where "F TaskIdle = Some xs" by auto
  with walk_list [OF kF this] es have F: "F TaskIdle = Some es" by simp
  obtain k' G where k': "task_kill_self ?c k = Some (0, k')" "kready G k'" "G TaskIdle = Some (es @ [N_idle ?c])"
    "current k' \<noteq> ?c" "t_state (task k' ?c) = PROCESS_STATE_IDLE"
    "t_state (task k' z) = (if current k' = z then PROCESS_STATE_RUNNING else PROCESS_STATE_PREPARE)"
    using task_kill_self_spec [OF r st z pr F] by blast
  let ?sg = "\<lparr>sg_from = t_pid (task k ?c), sg_to = t_pid (task k ?c), sg_sig = PROCESS_SIGNAL_KILL, sg_message = NULL\<rparr>"
  have "init_signal_handler addr no_handlers ! unat PROCESS_SIGNAL_KILL = addr"
    using h(2) by (simp add: init_signal_handler_def register_signal_handler_def no_handlers_def)
  moreover have "is_vaild_signal ?sg k = Some True" using c by (simp add: is_vaild_signal_def)
  moreover have "signal_kill page_base ?sg s = Some (Some 0, on_k (\<lambda>_. k') s)"
    using c(1) k'(1) k by (simp add: signal_kill_def)
  ultimately have "sys_exit call (init_signal_handler addr no_handlers) s = Some (Some (), on_k (\<lambda>_. k') s)"
    using h k by (simp add: sys_exit_def sys_signal_def do_sys_signal_def get_task_pid_def kthen_def kret_def)
  then show ?thesis
    using k'(4-6) walk_list [OF kready_kinv(1) [OF k'(2)] k'(3)] by (intro exI [of _ "on_k (\<lambda>_. k') s"]) (simp add: on_k_def on_ks_def)
qed

section \<open>An instance\<close>

text \<open>The kernel thread at \<open>0xc0004000\<close>, ready, a child of the idle task, its stack in page 5.\<close>

definition end_k :: kstate where
  "end_k = (let t = 0xc0004000;
       k = demo_ks\<lparr>pid_nr := 16, pid_current := 8, pid_nr_free := 8, pid_addr := Some ((replicate 16 0)[5 := t])\<rparr>;
       k = upd_task t (\<lambda>ts. ts\<lparr>t_state := PROCESS_STATE_UNKNOWN, t_parent := 0x2000, t_pid := 5, t_prio := 5,
         t_flag := PROCESS_TYPE_KERNEL, stack_origin := 0xc0005000\<rparr>) k
     in on_lists (\<lambda>h. list_add (N_child 0x2000) (N_p t)
          (init_list (N_mutex_get t) (init_list (N_wait t) (init_list (N_child t) h)))) k)"

definition end_page :: page where
  "end_page = no_page\<lparr>pg_flag := GFP_PAGE_HEADER, pg_count := 1\<rparr>"

definition end_demo :: tstate where
  "end_demo = (case set_task_state 0xc0004000 PROCESS_STATE_PREPARE end_k of Some k \<Rightarrow>
     \<lparr>ss = slab_boot\<lparr>sm := (machine (0x3f # replicate 8 0))\<lparr>ks := k, page_table := (replicate 257 no_page)[5 := end_page]\<rparr>\<rparr>,
      wm = (\<lambda>_. 0), bm = (\<lambda>_. 0)\<rparr>)"

definition end_F :: "node lists" where
  "end_F = demo_F(N_child 0xc0004000 \<mapsto> [], N_wait 0xc0004000 \<mapsto> [], N_mutex_get 0xc0004000 \<mapsto> [], N_child 0x2000 \<mapsto> [N_p 0xc0004000])"

lemma demo_F_empty: "demo_F r = Some xs \<Longrightarrow> xs = []"
  by (auto simp: demo_F_def boot_lists_def split: if_splits)

lemma demo_F_none:
  "t \<noteq> 0x2000 \<Longrightarrow> fresh demo_F (N_child t)" "t \<noteq> 0x2000 \<Longrightarrow> fresh demo_F (N_wait t)" "t \<noteq> 0x2000 \<Longrightarrow> fresh demo_F (N_mutex_get t)"
  "fresh demo_F (N_p t)" "demo_F (N_child 0x2000) = Some []"
  by (auto simp: fresh_def demo_F_def boot_lists_def boot_heads_def split: if_splits)

lemma end_k_sel:
  "current end_k = 0x2000" "idle end_k = 0x2000" "mutex_count end_k = mutex_count demo_ks"
  by (simp_all add: end_k_def Let_def demo_ks_def booted_task)

lemma end_k_ready: "kready end_F end_k"
proof -
  let ?t = "0xc0004000 :: u32"
  let ?k = "demo_ks\<lparr>pid_nr := 16, pid_current := 8, pid_nr_free := 8, pid_addr := Some ((replicate 16 0)[5 := ?t])\<rparr>"
  have "\<not> live demo_F ?k ?t" using demo_F_empty [of TaskSystem] by (auto simp: live_def on_def demo_ks_def booted_task)
  moreover have "kinv demo_F ?k" using demo_ks_kinv by (subst kinv_cong [of _ demo_ks]) simp_all
  ultimately have k0: "kinv demo_F (upd_task ?t f ?k)" for f by (simp add: kinv_upd_dead)
  let ?F = "demo_F(N_child ?t \<mapsto> [], N_wait ?t \<mapsto> [], N_mutex_get ?t \<mapsto> [])"
  have k1: "kinv ?F (on_lists (init_list (N_mutex_get ?t)) (on_lists (init_list (N_wait ?t)) (on_lists (init_list (N_child ?t)) (upd_task ?t f ?k))))" for f
    using demo_F_none(1-3) [of ?t] by (intro kinv_init_list k0) (auto simp: fresh_def split: if_splits dest: demo_F_empty)
  have "kinv end_F (on_lists (list_add (N_child 0x2000) (N_p ?t)) (on_lists (init_list (N_mutex_get ?t)) (on_lists (init_list (N_wait ?t))
      (on_lists (init_list (N_child ?t)) (upd_task ?t f ?k)))))" for f
    unfolding end_F_def
    using demo_F_none(4) [of ?t] by (intro kinv_foreign [OF k1] os_list.rel_add kinv_rel [OF k1]) (auto simp: demo_F_none fresh_def split: if_splits dest: demo_F_empty)
  then have "kinv end_F end_k" by (simp add: end_k_def Let_def on_lists_def)
  then show ?thesis using demo_ks_ready by (simp add: kready_def end_k_def Let_def demo_ks_def booted_task)
qed

lemma end_demo_ended: "ended_thread (abs_new 0xc0004000 5 end_F) 0xc0004000 [N_p 0xc0004000] 5 end_page demo_zone end_demo"
  "t_parent (task (tk end_demo) 0xc0004000) = 0x2000" "t_pid (task (tk end_demo) 0xc0004000) = 5"
  "page_map (sm (ss end_demo)) = 0x3f # replicate 8 0"
proof -
  let ?t = "0xc0004000 :: u32"
  let ?G = "abs_new ?t 5 end_F"
  have tsk: "t_state (task end_k ?t) = PROCESS_STATE_UNKNOWN" "t_prio (task end_k ?t) = 5" "t_pid (task end_k ?t) = 5"
    "t_parent (task end_k ?t) = 0x2000" "t_flag (task end_k ?t) = PROCESS_TYPE_KERNEL" "stack_origin (task end_k ?t) = 0xc0005000"
    by (simp_all add: end_k_def Let_def)
  have "\<not> registered end_k ?t"
    using registered_live [OF kready_kinv(1) [OF end_k_ready], of ?t] demo_F_empty [of TaskSystem]
    by (auto simp: live_def on_def end_k_sel end_F_def split: if_splits)
  then obtain k where k: "set_task_state ?t PROCESS_STATE_PREPARE end_k = Some k" "kready ?G k" "state_frame ?t PROCESS_STATE_PREPARE end_k k"
    using new_ready [OF end_k_ready, of ?t] tsk by (auto simp: prio_ok_def)
  note f = state_frame_sel [OF k(3)]
  have kk: "kinv ?G k" by (rule kready_kinv(1) [OF k(2)])
  have d: "sm (ss end_demo) = (machine (0x3f # replicate 8 0))\<lparr>ks := k, page_table := (replicate 257 no_page)[5 := end_page]\<rparr>"
    using k(1) by (simp add: end_demo_def)
  have "demo_F TaskSystem = Some []" by (simp add: demo_F_def boot_lists_def boot_heads_def)
  then have live: "live ?G k ?t" by (simp add: live_def on_def abs_new_def q_add_def end_F_def)
  have G: "?G r = demo_F r" if "foreign r" "r \<notin> {N_child ?t, N_wait ?t, N_mutex_get ?t, N_child 0x2000}" for r
    using that by (auto simp: abs_new_def q_add_def end_F_def)
  have Gf: "fresh ?G r" if "fresh demo_F r" "foreign r" "r \<notin> {N_child ?t, N_wait ?t, N_mutex_get ?t, N_child 0x2000, N_p ?t}" for r
    using that by (auto simp: abs_new_def end_F_def intro!: q_add_fresh) (auto simp: fresh_def split: if_splits)
  have mf: "mutex_free m ?G k" if "mutex_free m demo_F demo_ks" for m
    using that f(2,8) by (intro mutex_free_transfer [OF that]) (simp_all add: G Gf mutex_free_def end_k_sel demo_ks_def booted_task)
  have minv: "minv ?G (sm (ss end_demo))"
    unfolding d using minv_ks [OF machine_minv [of "0x3f # replicate 8 0"] kk mf [OF demo_mutexes]] by (simp add: minv_def machine_def)
  have pid: "mutex_free PidMapMutex ?G k"
    using boot_pid(2) [of "0x2000" "0x1000" blank]
    by (intro mf) (auto simp: mutex_free_def demo_ks_def booted_def [symmetric] booted_task demo_F_def fresh_def split: if_splits)
  have pinv: "pid_inv k" "pid_current k = 8"
    using f(9-12) by (auto simp: pid_inv_def end_k_def Let_def nth_list_update nth_Cons split: nat.splits)
  have sel: "?G (N_child 0x2000) = Some [N_p ?t]" "?G (N_child ?t) = Some []" "?G (N_wait ?t) = Some []" "?G (N_mutex_get ?t) = Some []"
    by (simp_all add: abs_new_def q_add_def end_F_def)
  have t: "task k ?t = (task end_k ?t)\<lparr>t_state := PROCESS_STATE_PREPARE\<rparr>" using f(1) by simp
  have pg: "page_read 5 (sm (ss end_demo)) = Some end_page" "get_zone 0 (sm (ss end_demo)) = Some demo_zone"
    "page_to_va 5 (sm (ss end_demo)) = 0xc0005000" "bm_size (page_map (sm (ss end_demo))) = 288"
    unfolding d using machine_zone by (simp_all add: page_read_def lget_def get_zone_def machine_def page_to_va_def page_id_to_va_def page_to_page_id_def bm_size_def)
  have pf: "gfp_zone_id (pg_flag end_page) = 0" "uint (pg_count end_page) = 1" "pg_flag end_page AND GFP_PAGE_HEADER \<noteq> 0"
    by (simp_all add: end_page_def gfp_zone_id_def)
  have ks: "ks (sm (ss end_demo)) = k" by (simp add: d)
  show "ended_thread ?G ?t [N_p ?t] 5 end_page demo_zone end_demo"
    unfolding ended_thread_def Let_def ks
    using minv pid pinv live sel pg pf f(2,3) by (simp add: t tsk end_k_sel)
  show "t_parent (task (tk end_demo) ?t) = 0x2000" "t_pid (task (tk end_demo) ?t) = 5" "page_map (sm (ss end_demo)) = 0x3f # replicate 8 0"
    by (simp_all add: ks t tsk) (simp add: d machine_def)
qed

theorem kill_thread_removes_witness:
  "\<exists>s'. kill_task 0xc0100000 0xc0004000 end_demo = Some (Some 0, s') \<and> \<not> registered (tk s') 0xc0004000 \<and>
    pid_get_task 5 (tk s') = Some NULL \<and> \<not> bm_bit (page_map (sm (ss s'))) 5 \<and> bm_bit (page_map (sm (ss s'))) 4"
proof -
  have bits: "bm_size (page_map (sm (ss end_demo))) = 288" "bm_bit (page_map (sm (ss end_demo))) 4" "uint (pg_count end_page) = 1"
    by (simp_all add: end_demo_ended(4) bm_size_def bm_bit_def end_page_def)
  obtain s' where s': "kill_task 0xc0100000 0xc0004000 end_demo = Some (Some 0, s')" "\<not> registered (tk s') 0xc0004000"
    "pid_get_task 5 (tk s') = Some NULL" and b: "\<And>i. 0 \<le> i \<Longrightarrow> i < 288 \<Longrightarrow> bm_bit (page_map (sm (ss s'))) i =
      (\<not> (5 \<le> i \<and> i < 6) \<and> bm_bit (page_map (sm (ss end_demo))) i)"
    using kill_thread_removes [OF end_demo_ended(1) refl, of "0xc0100000"] bits(1,3) end_demo_ended(3) by auto
  show ?thesis using s' b [of 5] b [of 4] bits(2) by auto
qed

text \<open>The killer at \<open>0x3000\<close> asleep, the task with identifier 7 running.\<close>

definition exit_k :: kstate where
  "exit_k = upd_task 0x2000 (\<lambda>ts. ts\<lparr>t_pid := 7\<rparr>)
     (demo\<lparr>pid_nr := 16, pid_current := 8, pid_nr_free := 8, pid_addr := Some ((replicate 16 0)[0 := 0x3000, 7 := 0x2000])\<rparr>)"

definition exit_demo :: tstate where
  "exit_demo = (case set_task_state 0x3000 PROCESS_STATE_SLEEP exit_k of Some k \<Rightarrow>
     \<lparr>ss = slab_boot\<lparr>sm := (machine (0x3f # replicate 8 0))\<lparr>ks := k\<rparr>\<rparr>, wm = (\<lambda>_. 0), bm = (\<lambda>_. 0)\<rparr>)"

theorem exit_hands_over_witness:
  "\<exists>s'. sys_exit (\<lambda>_. signal_kill 0xc0100000) (init_signal_handler 0xc0000100 no_handlers) exit_demo = Some (Some (), s') \<and>
    list_for_each TaskIdle (lists (tk s')) = Some [N_idle 0x2000] \<and> current (tk s') \<noteq> 0x2000"
proof -
  let ?F = "abs_set_state PROCESS_STATE_PREPARE PROCESS_STATE_SLEEP 0x3000 5 demo_lists"
  have k0: "kready demo_lists exit_k"
  proof -
    have "kinv demo_lists exit_k" using demo_kinv by (subst kinv_cong [of _ demo]) (simp_all add: exit_k_def)
    then show ?thesis using demo_ready by (simp add: kready_def exit_k_def)
  qed
  have l: "live demo_lists exit_k 0x3000" by (simp add: live_def on_def demo_lists_sel)
  have st: "t_state (task exit_k 0x3000) = PROCESS_STATE_PREPARE" "t_prio (task exit_k 0x3000) = 5"
    by (simp_all add: exit_k_def demo_task blank_task_def)
  obtain k where k: "set_task_state 0x3000 PROCESS_STATE_SLEEP exit_k = Some k" "kinv ?F k" "state_frame 0x3000 PROCESS_STATE_SLEEP exit_k k"
    using set_task_state_kinv [OF kready_kinv(1) [OF k0] l, of PROCESS_STATE_SLEEP] by (auto simp: st transition_def)
  note f = state_frame_sel [OF k(3)]
  have rk: "kready ?F k" by (rule kready_frame [OF k(2) state_frame_sched [OF k(3)] k0])
  have tk: "k = tk exit_demo" using k(1) by (simp add: exit_demo_def)
  have sel: "current k = 0x2000" "pid_get_task 0 k = Some 0x3000" "pid_get_task 7 k = Some 0x2000" "t_pid (task k 0x2000) = 7"
    "t_state (task k 0x2000) = PROCESS_STATE_RUNNING" "t_state (task k 0x3000) = PROCESS_STATE_SLEEP" "t_prio (task k 0x3000) = 5"
    using f by (simp_all add: exit_k_def demo_task blank_task_def pid_get_task_def pid_read_def)
  have "registered k 0x3000" using registered_live [OF k(2)] by (simp add: live_def on_def abs_set_state_def demo_lists_sel)
  moreover have "list_for_each TaskIdle (lists k) = Some []" by (rule walk_list [OF k(2)]) (simp add: abs_set_state_def demo_lists_sel)
  ultimately show ?thesis
    using exit_hands_over [OF rk tk, of "0x3000" "[]" "\<lambda>_. signal_kill 0xc0100000" "0xc0000100" "0xc0100000"] sel by auto
qed

end
