(* ===== verification/Elf.thy ===== *)
theory Elf
  imports Ramdisk
begin

text \<open>
  Executable files: reading the section headers (\<^verbatim>\<open>kernel/elf.c\<close>), loading the sections, the arguments
  of the program and exec (\<^verbatim>\<open>kernel/task.c\<close>, \<^verbatim>\<open>arch/arm/machine/syscall.c\<close>).

  The headers are read from the memory of bytes.  A \<^verbatim>\<open>struct elf_section\<close> is known by its address; its
  first member \<^verbatim>\<open>name[32]\<close> is in the memory of bytes at that address, the other members are a record.
\<close>

section \<open>Headers in memory\<close>

definition get16 :: "mem \<Rightarrow> u32 \<Rightarrow> int" where
  "get16 m a = uint (m a) + 256 * uint (m (a + 1))"

abbreviation (input) ELF_HEADER_SIZE :: int where "ELF_HEADER_SIZE \<equiv> 52"
abbreviation (input) SECTION_HEADER_SIZE :: u32 where "SECTION_HEADER_SIZE \<equiv> 40"
abbreviation (input) SHF_ALLOC :: u32 where "SHF_ALLOC \<equiv> 2"

text \<open>The members of \<^verbatim>\<open>elf_header\<close> and of \<^verbatim>\<open>elf_section_header\<close> that the code reads.\<close>

definition e_shoff :: "mem \<Rightarrow> u32 \<Rightarrow> u32" where "e_shoff m h = get32 m (h + 32)"
definition e_shentsize :: "mem \<Rightarrow> u32 \<Rightarrow> int" where "e_shentsize m h = get16 m (h + 46)"
definition e_shnum :: "mem \<Rightarrow> u32 \<Rightarrow> int" where "e_shnum m h = get16 m (h + 48)"
definition e_shstrndx :: "mem \<Rightarrow> u32 \<Rightarrow> int" where "e_shstrndx m h = get16 m (h + 50)"

definition sh_name :: "mem \<Rightarrow> u32 \<Rightarrow> u32" where "sh_name m h = get32 m h"
definition sh_flags :: "mem \<Rightarrow> u32 \<Rightarrow> u32" where "sh_flags m h = get32 m (h + 8)"
definition sh_addr :: "mem \<Rightarrow> u32 \<Rightarrow> u32" where "sh_addr m h = get32 m (h + 12)"
definition sh_offset :: "mem \<Rightarrow> u32 \<Rightarrow> u32" where "sh_offset m h = get32 m (h + 16)"
definition sh_sz :: "mem \<Rightarrow> u32 \<Rightarrow> u32" where "sh_sz m h = get32 m (h + 20)"

section \<open>State\<close>

record elf_section =
  es_offset :: u32
  es_size :: u32
  es_load_addr :: u32
  es_next :: u32

record elf_file =
  ef_alloc_size :: u32
  ef_head :: u32

abbreviation (input) ELF_SECTION_SIZE :: int where "ELF_SECTION_SIZE \<equiv> 48"
abbreviation (input) ELF_FILE_SIZE :: int where "ELF_FILE_SIZE \<equiv> 8"

record estate =
  fs :: fstate
  sections :: "u32 \<Rightarrow> elf_section"
  elf_files :: "u32 \<Rightarrow> elf_file"

abbreviation et :: "estate \<Rightarrow> tstate" where
  "et s \<equiv> ft (fs s)"

definition fs_op :: "('a, fstate) kop \<Rightarrow> ('a, estate) kop" where
  "fs_op f s = do { (r, t) \<leftarrow> f (fs s); Some (r, s\<lparr>fs := t\<rparr>) }"

definition et_op :: "('a, tstate) kop \<Rightarrow> ('a, estate) kop" where
  "et_op f = fs_op (ft_op f)"

definition on_et :: "(tstate \<Rightarrow> tstate) \<Rightarrow> estate \<Rightarrow> estate" where
  "on_et f s = s\<lparr>fs := (fs s)\<lparr>ft := f (et s)\<rparr>\<rparr>"

definition on_section :: "u32 \<Rightarrow> (elf_section \<Rightarrow> elf_section) \<Rightarrow> estate \<Rightarrow> estate" where
  "on_section a f s = s\<lparr>sections := (sections s)(a := f (sections s a))\<rparr>"

definition on_elf :: "u32 \<Rightarrow> (elf_file \<Rightarrow> elf_file) \<Rightarrow> estate \<Rightarrow> estate" where
  "on_elf a f s = s\<lparr>elf_files := (elf_files s)(a := f (elf_files s a))\<rparr>"

abbreviation (input) edo :: "(estate \<Rightarrow> estate) \<Rightarrow> (unit, estate) kop" where
  "edo f \<equiv> kmod (\<lambda>s. Some (f s))"

definition e_read :: "u32 \<Rightarrow> u32 \<Rightarrow> int \<Rightarrow> (int, estate) kop" where
  "e_read file buf sz = fs_op (\<lambda>s. let (r, s) = ramdisk_read file buf sz s in Some (Some r, s))"

definition e_seek :: "u32 \<Rightarrow> u32 \<Rightarrow> (int, estate) kop" where
  "e_seek file off = fs_op (\<lambda>s. let (r, s) = ramdisk_seek file off s in Some (Some r, s))"

definition e_kmalloc :: "int \<Rightarrow> (u32, estate) kop" where
  "e_kmalloc sz = et_op (slab_op (kmalloc sz GFP_KERNEL))"

definition e_kfree :: "u32 \<Rightarrow> u32 \<Rightarrow> (unit, estate) kop" where
  "e_kfree page_base a = et_op (slab_op (kfree page_base a))"

definition e_kzalloc :: "int \<Rightarrow> (u32, estate) kop" where
  "e_kzalloc sz = et_op (\<lambda>t. do {
     (r, (u, m)) \<leftarrow> kzalloc sz GFP_KERNEL (ss t, bm t);
     Some (r, t\<lparr>ss := u, bm := m\<rparr>)
   })"

section \<open>Section headers\<close>

text \<open>The end of the list of sections.\<close>

partial_function (option) last_section :: "u32 \<Rightarrow> (u32 \<Rightarrow> elf_section) \<Rightarrow> u32 option" where
  "last_section tmp x = (if es_next (x tmp) \<noteq> NULL then last_section (es_next (x tmp)) x else Some tmp)"

text \<open>A name of more than 31 bytes does not fit in \<^verbatim>\<open>name[32]\<close>.\<close>

definition elf_file_add_section :: "u32 \<Rightarrow> u32 \<Rightarrow> u32 \<Rightarrow> u32 \<Rightarrow> estate \<Rightarrow> estate option" where
  "elf_file_add_section ef header sec name s = do {
     let tmp = ef_head (elf_files s ef);
     let m = bm (et s);
     let s = on_section sec (\<lambda>x. x\<lparr>es_offset := sh_offset m header, es_size := sh_sz m header,
       es_load_addr := sh_addr m header, es_next := NULL\<rparr>) s;
     len \<leftarrow> strlen name m;
     if len > 31 then None
     else do {
       (_, m) \<leftarrow> strcpy sec name m;
       let s = on_et (\<lambda>t. t\<lparr>bm := m\<rparr>) s;
       let s = on_elf ef (\<lambda>f. f\<lparr>ef_alloc_size := ef_alloc_size f + es_size (sections s sec)\<rparr>) s;
       if tmp = NULL then Some (on_elf ef (\<lambda>f. f\<lparr>ef_head := sec\<rparr>) s)
       else do {
         l \<leftarrow> last_section tmp (sections s);
         Some (on_section l (\<lambda>x. x\<lparr>es_next := sec\<rparr>) s)
       }
     }
   }"

fun parse_loop :: "nat \<Rightarrow> u32 \<Rightarrow> u32 \<Rightarrow> u32 \<Rightarrow> (unit, estate) kop" where
  "parse_loop 0 tmp str ef = kret ()"
| "parse_loop (Suc n) tmp str ef =
     (\<lambda>s. if sh_flags (bm (et s)) tmp AND SHF_ALLOC \<noteq> 0 then
            kthen (e_kzalloc ELF_SECTION_SIZE) (\<lambda>sec.
            if sec = NULL then edo (on_elf ef (\<lambda>f. f\<lparr>ef_alloc_size := 0\<rparr>))
            else kthen (kmod (\<lambda>s. elf_file_add_section ef tmp sec (str + sh_name (bm (et s)) tmp)
                   (on_section sec (\<lambda>_. \<lparr>es_offset = 0, es_size = 0, es_load_addr = 0, es_next = 0\<rparr>) s))) (\<lambda>_.
                 parse_loop n (tmp + SECTION_HEADER_SIZE) str ef)) s
          else parse_loop n (tmp + SECTION_HEADER_SIZE) str ef s)"

definition parse_elf_info :: "u32 \<Rightarrow> int \<Rightarrow> u32 \<Rightarrow> (u32, estate) kop" where
  "parse_elf_info header section_num str =
     kthen (e_kzalloc ELF_FILE_SIZE) (\<lambda>ef.
     if ef = NULL then kret NULL
     else kthen (edo (on_elf ef (\<lambda>_. \<lparr>ef_alloc_size = 0, ef_head = 0\<rparr>))) (\<lambda>_.
          kthen (parse_loop (nat section_num) header str ef) (\<lambda>_. kret ef)))"

partial_function (option) release_sections :: "u32 \<Rightarrow> u32 \<Rightarrow> estate \<Rightarrow> (unit option \<times> estate) option" where
  "release_sections page_base tmp s =
     (if tmp = NULL then Some (Some (), s)
      else do {
        let next = es_next (sections s tmp);
        (r, s) \<leftarrow> e_kfree page_base tmp s;
        if r = None then Some (None, s) else release_sections page_base next s
      })"

definition release_elf_file :: "u32 \<Rightarrow> u32 \<Rightarrow> (unit, estate) kop" where
  "release_elf_file page_base ef =
     kthen (\<lambda>s. release_sections page_base (ef_head (elf_files s ef)) s) (\<lambda>_. e_kfree page_base ef)"

text \<open>
  \<open>hdr\<close> is the address of the header on the stack, \<open>mag\<close> that of the string \<^verbatim>\<open>"\177ELF"\<close>.  When there is
  no memory for the names the function returns a variable that was never assigned.
\<close>

definition get_elf_info :: "u32 \<Rightarrow> u32 \<Rightarrow> u32 \<Rightarrow> u32 \<Rightarrow> (u32, estate) kop" where
  "get_elf_info page_base hdr mag file =
     kthen (e_read file hdr ELF_HEADER_SIZE) (\<lambda>ret.
     if ret < 0 then kret NULL
     else (\<lambda>s. let m = bm (et s) in
       if strncmp mag hdr 4 m \<noteq> 0 then kret NULL s
       else let table = e_shnum m hdr * e_shentsize m hdr in
         kthen (e_kmalloc table) (\<lambda>header.
         if header = NULL then kret NULL
         else kthen (e_kmalloc 4096) (\<lambda>str.
           if str = NULL then kthen (e_kfree page_base header) (\<lambda>_ s. None)
           else
             (let go_out = (\<lambda>ef. kthen (e_kfree page_base str) (\<lambda>_. kthen (e_kfree page_base header) (\<lambda>_. kret ef))) in
              kthen (e_seek file (e_shoff m hdr)) (\<lambda>ret.
              if ret < 0 then kret NULL
              else kthen (e_read file header table) (\<lambda>ret.
                if ret < 0 then go_out NULL
                else (\<lambda>s. kthen (e_seek file (sh_offset (bm (et s)) (header + 40 * word_of_int (e_shstrndx (bm (et s)) hdr)))) (\<lambda>ret.
                  if ret < 0 then go_out NULL
                  else kthen (e_read file str 4096) (\<lambda>ret.
                    if ret < 0 then go_out NULL
                    else (\<lambda>s. kthen (parse_elf_info header (e_shnum (bm (et s)) hdr) str) (\<lambda>ef s.
                      if ef \<noteq> NULL \<and> ef_alloc_size (elf_files s ef) = 0
                      then kthen (release_elf_file page_base ef) (\<lambda>_. go_out NULL) s
                      else go_out ef s) s))) s)))))) s))"

section \<open>Loading a section\<close>

definition mm_upd_task :: "u32 \<Rightarrow> (mm_struct \<Rightarrow> mm_struct) \<Rightarrow> estate \<Rightarrow> estate" where
  "mm_upd_task t f = on_et (on_k (upd_task t (\<lambda>ts. ts\<lparr>t_mm := f (t_mm ts)\<rparr>)))"

fun list_nth :: "nat \<Rightarrow> node \<Rightarrow> node lheap \<Rightarrow> node" where
  "list_nth 0 l h = l"
| "list_nth (Suc n) l h = list_nth n (list_next l h) h"

text \<open>
  The do-while loop of \<^verbatim>\<open>load_elf_section\<close>; \<open>bss\<close> is the address of the string \<^verbatim>\<open>".bss"\<close>.
  Each round takes at least one byte, because the offset \<open>j\<close> is below 4096: the other case, in which the
  loop would not end, has no result.
\<close>

function load_pages :: "u32 \<Rightarrow> u32 \<Rightarrow> u32 \<Rightarrow> node \<Rightarrow> int \<Rightarrow> int \<Rightarrow> estate \<Rightarrow> (int \<times> estate) option" where
  "load_pages bss sec file l j k s = do {
     pg \<leftarrow> page_entry l;
     p \<leftarrow> page_read pg (sm (ss (et s)));
     let base_addr = pg_free_base p + word_of_int j;
     let j = (if k \<ge> 4096 then 4096 - j else k);
     (ok, s) \<leftarrow> (if strncmp sec bss 4 (bm (et s)) \<noteq> 0 then
           (let (i, f) = ramdisk_read file base_addr j (fs s) in Some (i \<ge> 0, s\<lparr>fs := f\<rparr>))
         else do { m \<leftarrow> memset base_addr 0 j (bm (et s)); Some (True, on_et (\<lambda>t. t\<lparr>bm := m\<rparr>) s) });
     if \<not> ok then Some (- EIO, s)
     else if k - j > 0 \<and> j > 0 then load_pages bss sec file (list_next l (lists (tk (et s)))) 0 (k - j) s
     else if k - j > 0 then None
     else Some (0, s)
   }"
  by pat_completeness auto
termination
  by (relation "measure (\<lambda>(_, _, _, _, _, k, _). nat k)") auto

declare load_pages.simps [simp del]

definition load_elf_section :: "u32 \<Rightarrow> u32 \<Rightarrow> u32 \<Rightarrow> u32 \<Rightarrow> (int, estate) kop" where
  "load_elf_section bss sec file t s =
     (let x = sections s sec in
      if es_load_addr x < 0x00401000 \<or> es_size x = 0 then Some (Some (- EINVAL), s)
      else do {
        let base = es_load_addr x - PROCESS_USER_BASE;
        let i = unat (drop_bit PAGE_SHIFT base);
        let j = uint (base mod PAGE_SIZE);
        let l = list_nth (Suc i) (N_elf_image_list t) (lists (tk (et s)));
        let k = sint (es_size x);
        let s = mm_upd_task t (\<lambda>ms. ms\<lparr>elf_size := elf_size ms + k\<rparr>) s;
        let s = s\<lparr>fs := snd (ramdisk_seek file (es_offset x) (fs s))\<rparr>;
        (r, s) \<leftarrow> load_pages bss sec file l j k s;
        Some (Some r, s)
      })"

partial_function (option) load_sections :: "u32 \<Rightarrow> u32 \<Rightarrow> u32 \<Rightarrow> u32 \<Rightarrow> estate \<Rightarrow> (int option \<times> estate) option" where
  "load_sections bss sec file t s =
     (if sec = NULL then Some (Some 0, s)
      else do {
        (r, s) \<leftarrow> load_elf_section bss sec file t s;
        if r \<noteq> Some 0 then Some (r, s) else load_sections bss (es_next (sections s sec)) file t s
      })"

definition load_elf_image :: "u32 \<Rightarrow> u32 \<Rightarrow> u32 \<Rightarrow> u32 \<Rightarrow> (int, estate) kop" where
  "load_elf_image bss t file ef s =
     (if t = NULL \<or> file = NULL \<or> ef = NULL then Some (Some (- ENOENT), s)
      else load_sections bss (ef_head (elf_files s ef)) file t (mm_upd_task t (\<lambda>ms. ms\<lparr>elf_size := 0\<rparr>) s))"

section \<open>Exec\<close>

abbreviation (input) MAX_ARGV :: nat where "MAX_ARGV \<equiv> 16"

text \<open>
  The loop of \<^verbatim>\<open>setup_task_argv\<close>: the pointers \<^verbatim>\<open>argv[i]\<close>, the table of the new task and the strings are in the memory of bytes.
\<close>

fun copy_args :: "nat \<Rightarrow> u32 \<Rightarrow> u32 \<Rightarrow> u32 \<Rightarrow> u32 \<Rightarrow> tstate \<Rightarrow> tstate option" where
  "copy_args 0 argv argv_base load_base table_base s = Some s"
| "copy_args (Suc n) argv argv_base load_base table_base s =
     (let a = get32 (bm s) argv in
      if a = NULL then Some s
      else do {
        len \<leftarrow> strlen a (bm s);
        (_, m) \<leftarrow> strcpy load_base a (bm s);
        let s = s\<lparr>bm := put32 table_base argv_base m\<rparr>;
        copy_args n (argv + 4) (baligin (argv_base + word_of_int len) 4) (baligin (load_base + word_of_int len) 4) (table_base + 4) s
      })"

definition setup_task_argv :: "u32 \<Rightarrow> u32 \<Rightarrow> tstate \<Rightarrow> (int \<times> tstate) option" where
  "setup_task_argv t argv s =
     (if argv = NULL then Some (- EINVAL, s)
      else do {
        let argv_base = PROCESS_USER_BASE + of_nat MAX_ARGV * 4;
        pg \<leftarrow> page_entry (list_next (N_elf_image_list t) (lists (tk s)));
        let load_base = page_to_va pg (sm (ss s));
        s \<leftarrow> copy_args MAX_ARGV argv argv_base (load_base + (argv_base - PROCESS_USER_BASE)) load_base s;
        Some (0, s)
      })"

text \<open>
  The addresses the code has as constants: of the page array for \<^verbatim>\<open>kfree\<close>, of the header on the stack,
  of the two strings.
\<close>

record exec_env =
  x_page_base :: u32
  x_hdr :: u32
  x_mag :: u32
  x_bss :: u32

definition name_bytes :: "u32 \<Rightarrow> mem \<Rightarrow> u8 list" where
  "name_bytes a m = map (\<lambda>i. m (a + of_nat i)) [0..<16]"

text \<open>The task that runs the program: a new one when a kernel task calls exec, otherwise the caller.\<close>

definition exec_task :: "exec_env \<Rightarrow> u32 \<Rightarrow> (u32, estate) kop" where
  "exec_task env name s =
     (let k = tk (et s) in
      if t_flag (task k (current k)) AND PROCESS_TYPE_KERNEL \<noteq> 0
      then et_op (fork_new_task (x_page_base env) (Some (name_bytes name (bm (et s)))) PROCESS_USER_STACK_BASE PROCESS_TYPE_USER) s
      else Some (Some (current k), on_et (on_k (upd_task (current k) (copy_name (name_bytes name (bm (et s)))))) s))"

text \<open>From \<^verbatim>\<open>err_open_file\<close> on.\<close>

definition exec_out :: "exec_env \<Rightarrow> u32 \<Rightarrow> int \<Rightarrow> pt_regs \<Rightarrow> (int \<times> pt_regs, estate) kop" where
  "exec_out env new err regs =
     (\<lambda>s. let k = tk (et s) in
      kthen (if err \<noteq> 0 \<and> t_flag (task k (current k)) AND PROCESS_TYPE_KERNEL \<noteq> 0
             then et_op (release_task (x_page_base env) new) else kret ()) (\<lambda>_. kret (err, regs)) s)"

text \<open>The part after the image is loaded; \<^verbatim>\<open>flush_cache\<close> has no effect on the memory the model has.\<close>

definition exec_start :: "u32 \<Rightarrow> u32 \<Rightarrow> (pt_regs, estate) kop" where
  "exec_start new argv s = do {
     regs \<leftarrow> arch_init_pt_regs NULL argv (get32 (bm (et s)));
     (_, t) \<leftarrow> setup_task_argv new argv (et s);
     let s = on_et (\<lambda>_. t) s;
     let k = tk (et s);
     if t_flag (task k (current k)) AND PROCESS_TYPE_KERNEL \<noteq> 0 then do {
       let (_, k, w) = arch_set_up_task_stack new regs (tk (et s)) (wm (et s));
       k \<leftarrow> set_task_state new PROCESS_STATE_PREPARE k;
       Some (Some regs, on_et (\<lambda>t. on_k (\<lambda>_. k) (t\<lparr>wm := w\<rparr>)) s)
     }
     else Some (Some regs, s)
   }"

definition do_exec :: "exec_env \<Rightarrow> u32 \<Rightarrow> u32 \<Rightarrow> pt_regs \<Rightarrow> (int \<times> pt_regs, estate) kop" where
  "do_exec env name argv regs =
     kthen (exec_task env name) (\<lambda>new.
     if new = NULL then kret (- ENOMEM, regs)
     else kthen (fs_op (ramdisk_open name)) (\<lambda>file.
       if file = NULL then exec_out env new (- ENOENT) regs
       else
         (let close = (\<lambda>err regs. kthen (fs_op (ramdisk_close (x_page_base env) file)) (\<lambda>_. exec_out env new err regs)) in
          kthen (get_elf_info (x_page_base env) (x_hdr env) (x_mag env) file) (\<lambda>elf.
          if elf = NULL then close (- EINVAL) regs
          else kthen (load_elf_image (x_bss env) new file elf) (\<lambda>err.
            if err \<noteq> 0 then kthen (release_elf_file (x_page_base env) elf) (\<lambda>_. close err regs)
            else kthen (exec_start new argv) (\<lambda>regs.
                 kthen (release_elf_file (x_page_base env) elf) (\<lambda>_. close 0 regs)))))))"

text \<open>\<open>init_argv\<close> is the address of the static array.\<close>

definition kernel_exec :: "exec_env \<Rightarrow> u32 \<Rightarrow> u32 \<Rightarrow> (int, estate) kop" where
  "kernel_exec env init_argv filename =
     kthen (edo (on_et (\<lambda>t. t\<lparr>wm := (wm t)(init_argv := filename, init_argv + 4 := NULL)\<rparr>))) (\<lambda>_.
     kthen (do_exec env filename init_argv \<lparr>r_gen = replicate 13 0, r_spsr = 0, r_lr = 0, r_sp = 0, r_cpsr = 0, r_pc = 0\<rparr>) (\<lambda>(ret, _).
     kret ret))"

definition sys_execve :: "exec_env \<Rightarrow> u32 \<Rightarrow> u32 \<Rightarrow> pt_regs \<Rightarrow> (u32 \<times> pt_regs, estate) kop" where
  "sys_execve env filename argv regs =
     kthen (do_exec env filename argv regs) (\<lambda>(ret, regs).
     kret (if ret = 0 then r_gen regs ! 0 else word_of_int ret, regs))"

end
