(* ===== verification/ElfProps.thy ===== *)
theory ElfProps
  imports Elf RamdiskProps
begin

text \<open>
  Loading a section of a program: whatever the pages of the image are, the bytes of the section end up
  at its load address, and nothing else of the image changes.
\<close>

section \<open>The image of a task\<close>

text \<open>The address of byte \<open>a\<close> of an image whose pages are at \<open>bs\<close>.\<close>

definition frame_at :: "u32 list \<Rightarrow> nat \<Rightarrow> u32" where
  "frame_at bs a = bs ! (a div 4096) + of_nat (a mod 4096)"

text \<open>The specification: bytes written one by one, from byte \<open>j\<close> of the image on.\<close>

primrec write_image :: "u32 list \<Rightarrow> nat \<Rightarrow> u8 list \<Rightarrow> mem \<Rightarrow> mem" where
  "write_image bs j [] m = m"
| "write_image bs j (x # xs) m = write_image bs (Suc j) xs (m(frame_at bs j := x))"

definition frames_ok :: "u32 list \<Rightarrow> bool" where
  "frames_ok bs \<longleftrightarrow> distinct bs \<and> (\<forall>b \<in> set bs. unat b mod 4096 = 0)"

lemma write_image_append: "write_image bs j (xs @ ys) m = write_image bs (j + length xs) ys (write_image bs j xs m)"
  by (induction xs arbitrary: j m) simp_all

lemma frame_at_shift: "frame_at (b # bs) (4096 + j) = frame_at bs j"
proof -
  have "(4096 + j) div 4096 = Suc (j div 4096)" by simp
  then show ?thesis by (simp only: frame_at_def nth_Cons_Suc) simp
qed

lemma write_image_shift: "write_image (b # bs) (4096 + j) xs m = write_image bs j xs m"
proof (induction xs arbitrary: j m)
  case (Cons x xs)
  show ?case using Cons [of "Suc j"] by (simp add: frame_at_shift fun_upd_def)
qed simp

lemma write_image_page: "j + length ys \<le> 4096 \<Longrightarrow> write_image (b # bs) j ys m = write_bytes (b + of_nat j) ys m"
proof (induction ys arbitrary: j m)
  case (Cons y ys)
  then have "frame_at (b # bs) j = b + of_nat j" by (simp add: frame_at_def)
  then show ?case using Cons.IH [of "Suc j"] Cons.prems by (simp add: add.assoc) (simp add: add.commute)
qed simp

lemma page_addr:
  assumes "unat b mod 4096 = 0" "i < 4096"
  shows "unat (b + of_nat i :: u32) = unat b + i"
proof -
  have "unat b < 2 ^ 32" using unsigned_less [of b, where 'a = nat] by simp
  moreover obtain q where q: "unat b = 4096 * q" using assms(1) by (metis mod_0_imp_dvd dvdE)
  ultimately have "q < 1048576" by simp
  then have "unat b + 4096 \<le> 2 ^ 32" using q by simp
  moreover have "unat (of_nat i :: u32) = i" using assms(2) by (simp add: unat_of_nat_u32)
  ultimately show ?thesis using assms(2) by (subst unat_add_u32) simp_all
qed

lemma frame_at_inj:
  assumes ok: "frames_ok bs" and i: "i div 4096 < length bs" "j div 4096 < length bs" and eq: "frame_at bs i = frame_at bs j"
  shows "i = j"
proof -
  have u: "unat (frame_at bs a) = unat (bs ! (a div 4096)) + a mod 4096" "unat (bs ! (a div 4096)) mod 4096 = 0"
    if "a div 4096 < length bs" for a
    using ok nth_mem [OF that] page_addr [of "bs ! (a div 4096)" "a mod 4096"] by (simp_all add: frames_ok_def frame_at_def)
  have e: "(x + a mod 4096) mod 4096 = a mod 4096" if "x mod 4096 = 0" for x a :: nat
    using that by (simp only: mod_add_left_eq [of x, symmetric] add_0 mod_mod_trivial)
  have eq: "unat (bs ! (i div 4096)) + i mod 4096 = unat (bs ! (j div 4096)) + j mod 4096" using u(1) i eq by metis
  then have m: "i mod 4096 = j mod 4096" using e [OF u(2) [OF i(1)]] e [OF u(2) [OF i(2)]] by metis
  with eq have "unat (bs ! (i div 4096)) = unat (bs ! (j div 4096))" by simp
  then have "bs ! (i div 4096) = bs ! (j div 4096)" by (simp only: word_unat_eq_iff)
  then have "i div 4096 = j div 4096" using ok i by (simp add: frames_ok_def nth_eq_iff_index_eq)
  with m show ?thesis by (metis div_mult_mod_eq)
qed

lemma write_image_other: "a \<notin> frame_at bs ` {j ..< j + length xs} \<Longrightarrow> write_image bs j xs m a = m a"
proof (induction xs arbitrary: j m)
  case (Cons x xs)
  then have "a \<noteq> frame_at bs j" "a \<notin> frame_at bs ` {Suc j ..< Suc j + length xs}" by auto
  then show ?case using Cons.IH [of "Suc j"] by simp
qed simp

lemma write_image_get:
  assumes "frames_ok bs" "j + length xs \<le> 4096 * length bs" "i < length xs"
  shows "write_image bs j xs m (frame_at bs (j + i)) = xs ! i"
  using assms(2,3)
proof (induction xs arbitrary: j i m)
  case (Cons x xs)
  have d: "a div 4096 < length bs" if "a < j + length (x # xs)" for a using that Cons.prems(1) by (simp add: less_mult_imp_div_less)
  show ?case
  proof (cases i)
    case 0
    have "frame_at bs j \<notin> frame_at bs ` {Suc j ..< Suc j + length xs}"
      using frame_at_inj [OF assms(1), of j] d by fastforce
    then show ?thesis using 0 write_image_other by simp
  next
    case (Suc i')
    then show ?thesis using Cons.IH [of "Suc j" i'] Cons.prems by simp
  qed
qed simp

section \<open>Sources of bytes\<close>

text \<open>
  What loading relies on in a source of bytes, a file or the zeros of \<^verbatim>\<open>.bss\<close>.  \<open>left D xs s\<close>: the
  bytes still to come are \<open>xs\<close>, and the source depends only on the addresses in \<open>D\<close>.  Reading \<open>n\<close> of
  them into an aligned buffer outside \<open>D\<close> writes just these bytes, and leaves the others to come.
\<close>

locale byte_source =
  fixes rd :: "u32 \<Rightarrow> int \<Rightarrow> 's \<Rightarrow> int \<times> 's"
    and memory :: "'s \<Rightarrow> mem"
    and rest :: "'s \<Rightarrow> 'r"
    and left :: "u32 set \<Rightarrow> u8 list \<Rightarrow> 's \<Rightarrow> bool"
  assumes rd: "left D xs s \<Longrightarrow> 0 < n \<Longrightarrow> n \<le> length xs \<Longrightarrow> n \<le> 4096 \<Longrightarrow> buf AND 3 = 0 \<Longrightarrow> span buf n \<inter> D = {} \<Longrightarrow>
    \<exists>s'. rd buf (int n) s = (int n, s') \<and> memory s' = write_bytes buf (take n xs) (memory s) \<and> rest s' = rest s \<and> left D (drop n xs) s'"

text \<open>The loop over the pages: \<open>j\<close> is the offset in the first one, \<open>k\<close> the number of bytes.\<close>

fun read_frames :: "(u32 \<Rightarrow> int \<Rightarrow> 's \<Rightarrow> int \<times> 's) \<Rightarrow> u32 list \<Rightarrow> nat \<Rightarrow> nat \<Rightarrow> 's \<Rightarrow> bool \<times> 's" where
  "read_frames rd [] j k s = (False, s)"
| "read_frames rd (b # bs) j k s =
     (let n = (if 4096 \<le> k then 4096 - j else k); (i, s) = rd (b + of_nat j) (int n) s in
      if i < 0 then (False, s) else if n < k then read_frames rd bs 0 (k - n) s else (True, s))"

lemma aligned_add: "unat b mod 4096 = 0 \<Longrightarrow> j mod 4 = 0 \<Longrightarrow> (b + of_nat j :: u32) AND 3 = 0"
proof -
  assume b: "unat b mod 4096 = 0" and j: "j mod 4 = 0"
  have "unat b mod 4 = 0" using b mod_mod_cancel [of 4 4096 "unat b"] by simp
  moreover have "unat (of_nat j :: u32) mod 4 = 0"
    using j mod_mod_cancel [of 4 "2 ^ 32 :: nat" j] by (simp add: unat_of_nat)
  ultimately have "unat ((b + of_nat j) AND 3) = 0" unfolding and3_add unfolding unat_and3 by simp
  then show ?thesis by (simp add: unat_eq_0)
qed

lemma span_inside: "j + n \<le> k \<Longrightarrow> span (b + of_nat j) n \<subseteq> span b k"
proof
  fix a assume "j + n \<le> k" "a \<in> span (b + of_nat j) n"
  then obtain i where "i < n" "a = b + of_nat (j + i)" by (auto simp: span_def add.assoc)
  with \<open>j + n \<le> k\<close> show "a \<in> span b k" unfolding span_def by (intro CollectI exI [of _ "j + i"]) simp
qed

context byte_source
begin

lemma load_frames:
  assumes "left D xs s" "0 < k" "k \<le> length xs" "j < 4096" "j mod 4 = 0" "4096 \<le> k \<or> j + k \<le> 4096"
    "j + k \<le> 4096 * length bs" "\<forall>b \<in> set bs. unat b mod 4096 = 0 \<and> span b 4096 \<inter> D = {}"
  shows "\<exists>s'. read_frames rd bs j k s = (True, s') \<and> memory s' = write_image bs j (take k xs) (memory s) \<and>
    rest s' = rest s \<and> left D (drop k xs) s'"
  using assms
proof (induction bs arbitrary: xs j k s)
  case (Cons b bs)
  let ?n = "if 4096 \<le> k then 4096 - j else k"
  have n: "0 < ?n" "?n \<le> length xs" "?n \<le> 4096" "j + ?n \<le> 4096" "?n \<le> k" using Cons.prems by auto
  have "span (b + of_nat j) ?n \<subseteq> span b 4096"
    by (rule span_inside [OF n(4)])
  then have d: "span (b + of_nat j) ?n \<inter> D = {}" using Cons.prems(8) by auto
  have al: "(b + of_nat j) AND 3 = 0" using Cons.prems(5,8) by (intro aligned_add) auto
  obtain s1 where s1: "rd (b + of_nat j) (int ?n) s = (int ?n, s1)" "memory s1 = write_bytes (b + of_nat j) (take ?n xs) (memory s)"
    "rest s1 = rest s" "left D (drop ?n xs) s1"
    using rd [OF Cons.prems(1) n(1-3) al d] by blast
  have w: "memory s1 = write_image (b # bs) j (take ?n xs) (memory s)"
    using s1(2) n(2,4) by (simp add: write_image_page)
  show ?case
  proof (cases "?n < k")
    case False
    then have "?n = k" using n(5) by simp
    then show ?thesis using s1 w by (intro exI [of _ s1]) (simp add: Let_def)
  next
    case True
    then have k: "4096 \<le> k" "j + ?n = 4096" using Cons.prems(4) by (auto split: if_splits)
    have "\<exists>s'. read_frames rd bs 0 (k - ?n) s1 = (True, s') \<and> memory s' = write_image bs 0 (take (k - ?n) (drop ?n xs)) (memory s1) \<and>
        rest s' = rest s1 \<and> left D (drop (k - ?n) (drop ?n xs)) s'"
      using Cons.prems True k by (intro Cons.IH s1(4)) auto
    then obtain s' where s': "read_frames rd bs 0 (k - ?n) s1 = (True, s')" "rest s' = rest s1" "left D (drop k xs) s'"
      "memory s' = write_image bs 0 (take (k - ?n) (drop ?n xs)) (memory s1)"
      using n(5) by (auto simp: add.commute)
    have "take k xs = take ?n xs @ take (k - ?n) (drop ?n xs)" using n(5) by (metis le_add_diff_inverse take_add)
    moreover have "length (take ?n xs) = ?n" using n(2) by simp
    ultimately have "write_image (b # bs) j (take k xs) (memory s) = write_image (b # bs) (4096 + 0) (take (k - ?n) (drop ?n xs)) (memory s1)"
      using k(2) w by (simp only: write_image_append add_0_right)
    also have "\<dots> = memory s'" unfolding write_image_shift using s'(4) by simp
    finally show ?thesis
      using s1(1,3) s'(1-3) True by (intro exI [of _ s']) (simp only: read_frames.simps Let_def split_def fst_conv snd_conv, simp)
  qed
qed simp

end

section \<open>An open file as a source\<close>

definition e_rd :: "u32 \<Rightarrow> u32 \<Rightarrow> int \<Rightarrow> estate \<Rightarrow> int \<times> estate" where
  "e_rd file buf n s = (let (i, f) = ramdisk_read file buf n (fs s) in (i, s\<lparr>fs := f\<rparr>))"

definition e_mem :: "estate \<Rightarrow> mem" where
  "e_mem s = bm (et s)"

definition e_rest :: "estate \<Rightarrow> sstate \<times> (u32 \<Rightarrow> u32) \<times> (u32 \<Rightarrow> elf_section) \<times> (u32 \<Rightarrow> elf_file) \<times> (u32 \<Rightarrow> u32 \<times> u32)" where
  "e_rest s = (ss (et s), wm (et s), sections s, elf_files s, (\<lambda>a. (f_base (files (fs s) a), f_size (files (fs s) a))))"

definition file_left :: "u32 \<Rightarrow> u32 set \<Rightarrow> u8 list \<Rightarrow> estate \<Rightarrow> bool" where
  "file_left file D xs s \<longleftrightarrow>
     (let f = files (fs s) file; p = f_curr f in
      file \<noteq> NULL \<and> has_bytes (e_mem s) p xs \<and> f_base f + f_size f = p + of_nat (length xs) \<and>
      unat p + length xs < 2 ^ 32 \<and> span p (length xs) \<subseteq> D)"

lemma span_drop: "n \<le> length xs \<Longrightarrow> span (p + of_nat n) (length (drop n xs)) \<subseteq> span p (length xs)"
  by (rule span_inside) simp

lemma mcopy_write:
  assumes "has_bytes m src (take n xs)" "n \<le> length xs" "n < 2 ^ 32"
  shows "mcopy n buf src m = write_bytes buf (take n xs) m"
proof
  fix a
  have u: "unat (of_nat i :: u32) = i" if "i < n" for i using that assms(3) by (simp add: unat_of_nat_u32)
  show "mcopy n buf src m a = write_bytes buf (take n xs) m a"
  proof (cases "unat (a - buf) < n")
    case True
    then obtain k where k: "a - buf = of_nat k" "k < n" using that [of "unat (a - buf)"] by simp
    then have a: "a = buf + of_nat k" by (metis add.commute diff_add_cancel)
    have "m (src + of_nat k) = take n xs ! k" using assms(1,2) k(2) unfolding has_bytes_at by simp
    moreover have "write_bytes buf (take n xs) m (buf + of_nat k) = take n xs ! k"
      using has_bytes_write [of "take n xs" buf m] assms(2,3) k(2) unfolding has_bytes_at by simp
    ultimately show ?thesis using True k(1) by (simp add: mcopy_def a)
  next
    case False
    then have "a \<notin> span buf n" using u by (auto simp: span_def)
    then show ?thesis using False write_bytes_other [of a buf "take n xs" m] assms(2) by (simp add: mcopy_def)
  qed
qed

lemma span_offset: "unat (a - p) < n \<Longrightarrow> a \<in> span p n"
  unfolding span_def by (intro CollectI exI [of _ "unat (a - p)"]) simp

lemma apart_span:
  assumes "span buf n \<inter> D = {}" "span src n \<subseteq> D"
  shows "apart n buf src"
  unfolding apart_def
proof (intro allI impI, rule ccontr)
  fix i assume "i < n" "\<not> n \<le> unat (src + of_nat i - buf)"
  then have "src + of_nat i \<in> span src n" "src + of_nat i \<in> span buf n" using span_offset [of "src + of_nat i" buf n] by (auto simp: span_def)
  then show False using assms by auto
qed

lemma file_read:
  assumes l: "file_left file D xs s" and n: "n \<le> length xs" "n \<le> 4096" and buf: "buf AND 3 = 0" "span buf n \<inter> D = {}"
  shows "\<exists>s'. e_rd file buf (int n) s = (int n, s') \<and> e_mem s' = write_bytes buf (take n xs) (e_mem s) \<and> e_rest s' = e_rest s \<and>
    file_left file D (drop n xs) s'"
proof -
  let ?f = "files (fs s) file" and ?m = "write_bytes buf (take n xs) (e_mem s)"
  let ?p = "f_curr ?f"
  have d: "file \<noteq> NULL" "has_bytes (e_mem s) ?p xs" "f_base ?f + f_size ?f = ?p + of_nat (length xs)"
    "unat ?p + length xs < 2 ^ 32" "span ?p (length xs) \<subseteq> D"
    using l by (simp_all add: file_left_def Let_def)
  have sub: "span ?p n \<subseteq> D" using d(5) span_inside [of 0 n "length xs" ?p] n(1) by auto
  have un: "unat (of_nat k :: u32) = k" if "k \<le> length xs" for k using that d(4) by (simp add: unat_of_nat_u32)
  have up: "unat (?p + of_nat k) = unat ?p + k" if "k \<le> length xs" for k using that d(4) un by (subst unat_add_u32) simp_all
  have le: "\<not> f_base ?f + f_size ?f < ?p + of_nat n" unfolding d(3) word_less_nat_alt using up n(1) by simp
  have bytes: "has_bytes (e_mem s) ?p (take n xs)" using d(2) by (metis append_take_drop_id has_bytes_append)
  have "memcpy buf ?p (of_nat n) (e_mem s) = mcopy n buf ?p (e_mem s)"
    using memcpy_mcopy [of "of_nat n" buf ?p] un [OF n(1)] n(2) apart_span [OF buf(2) sub] buf(1) by simp
  also have "\<dots> = ?m" using mcopy_write [OF bytes n(1)] n(2) by simp
  finally have cp: "memcpy buf ?p (of_nat n) (e_mem s) = ?m" .
  let ?s = "s\<lparr>fs := on_file file (\<lambda>f. f\<lparr>f_curr := f_curr f + of_nat n\<rparr>) (on_bytes (\<lambda>_. ?m) (fs s))\<rparr>"
  have "e_rd file buf (int n) s = (int n, ?s)"
    using ramdisk_read_eq [OF d(1), of "int n" "fs s" "int n" buf] le cp by (simp add: e_rd_def on_bytes_def e_mem_def)
  moreover have "file_left file D (drop n xs) ?s"
  proof -
    have "has_bytes (e_mem s) (?p + of_nat n) (drop n xs)"
      using d(2) n(1) has_bytes_append [of "e_mem s" ?p "take n xs" "drop n xs"] by simp
    moreover have "a \<notin> span buf n" if "a \<in> span (?p + of_nat n) (length (drop n xs))" for a
      using that buf(2) d(5) span_drop [OF n(1), of ?p] by blast
    ultimately have "has_bytes ?m (?p + of_nat n) (drop n xs)"
      using has_bytes_cong [of "?p + of_nat n" "drop n xs" ?m "e_mem s"] write_bytes_other [of _ buf "take n xs"] n(1) by simp
    moreover have "span (?p + of_nat n) (length xs - n) \<subseteq> D" using span_drop [OF n(1), of ?p] d(5) by simp
    moreover have "f_base ?f + f_size ?f = ?p + of_nat n + of_nat (length xs - n)" using d(3) n(1) by (simp add: of_nat_diff)
    ultimately show ?thesis using d(1,4) up [OF n(1)] n(1) by (simp add: file_left_def e_mem_def on_file_def on_bytes_def)
  qed
  ultimately show ?thesis by (intro exI [of _ ?s]) (simp add: e_mem_def e_rest_def on_file_def on_bytes_def fun_eq_iff)
qed

interpretation open_file: byte_source "e_rd f" e_mem e_rest "file_left f" for f
  by unfold_locales (rule file_read)

section \<open>The bytes of a section as a source\<close>

text \<open>The zeros of \<^verbatim>\<open>.bss\<close>.\<close>

definition zero_rd :: "u32 \<Rightarrow> int \<Rightarrow> estate \<Rightarrow> int \<times> estate" where
  "zero_rd buf n s = (n, on_et (\<lambda>t. t\<lparr>bm := the (memset buf 0 n (bm t))\<rparr>) s)"

definition zero_left :: "u32 set \<Rightarrow> u8 list \<Rightarrow> estate \<Rightarrow> bool" where
  "zero_left D xs s \<longleftrightarrow> xs = replicate (length xs) 0"

interpretation zeros: byte_source zero_rd e_mem e_rest zero_left
proof
  fix D xs and s :: estate and n buf assume "zero_left D xs s" "n \<le> length xs"
  then have z: "take n xs = replicate n 0" "drop n xs = replicate (length (drop n xs)) 0"
    unfolding zero_left_def by (metis min.absorb1 take_replicate, metis drop_replicate length_replicate)
  then show "\<exists>s'. zero_rd buf (int n) s = (int n, s') \<and> e_mem s' = write_bytes buf (take n xs) (e_mem s) \<and> e_rest s' = e_rest s \<and>
      zero_left D (drop n xs) s'"
    by (simp add: zero_rd_def memset_spec e_mem_def e_rest_def on_et_def zero_left_def)
qed

text \<open>The two together, as the loop of \<^verbatim>\<open>load_elf_section\<close> chooses between them.\<close>

definition sec_rd :: "u32 \<Rightarrow> u32 \<Rightarrow> u32 \<Rightarrow> u32 \<Rightarrow> int \<Rightarrow> estate \<Rightarrow> int \<times> estate" where
  "sec_rd bss sec file buf n s = (if strncmp sec bss 4 (e_mem s) \<noteq> 0 then e_rd file buf n s else zero_rd buf n s)"

definition sec_left :: "u32 \<Rightarrow> u32 \<Rightarrow> u32 \<Rightarrow> u32 set \<Rightarrow> u8 list \<Rightarrow> estate \<Rightarrow> bool" where
  "sec_left bss sec file D xs s \<longleftrightarrow> span sec 4 \<subseteq> D \<and> span bss 4 \<subseteq> D \<and>
     (if strncmp sec bss 4 (e_mem s) \<noteq> 0 then file_left file D xs s else zero_left D xs s)"

lemma strncmp_loop_cong:
  "(\<And>a. a \<in> span p n \<union> span q n \<Longrightarrow> m' a = m a) \<Longrightarrow> strncmp_loop n p q r m' = strncmp_loop n p q r m"
  by (induction n arbitrary: p q r) (simp_all add: span_Suc Let_def)

lemma strncmp_cong:
  "(\<And>a. a \<in> span p (unat n) \<union> span q (unat n) \<Longrightarrow> m' a = m a) \<Longrightarrow> strncmp p q n m' = strncmp p q n m"
  unfolding strncmp_def using strncmp_loop_cong [of p "unat n" q m' m 0] by simp

interpretation section_bytes: byte_source "sec_rd bss sec f" e_mem e_rest "sec_left bss sec f" for bss sec f
proof
  fix D xs s n buf
  assume l: "sec_left bss sec f D xs s" and n: "0 < n" "n \<le> length xs" "n \<le> 4096" and buf: "buf AND 3 = 0" "span buf n \<inter> D = {}"
  have "\<exists>s'. sec_rd bss sec f buf (int n) s = (int n, s') \<and> e_mem s' = write_bytes buf (take n xs) (e_mem s) \<and> e_rest s' = e_rest s \<and>
      (if strncmp sec bss 4 (e_mem s) \<noteq> 0 then file_left f D (drop n xs) s' else zero_left D (drop n xs) s')"
    using l open_file.rd [of f D xs s n buf] zeros.rd [of D xs s n buf] n buf
    by (cases "strncmp sec bss 4 (e_mem s) = 0") (simp_all add: sec_left_def sec_rd_def)
  then obtain s' where s': "sec_rd bss sec f buf (int n) s = (int n, s')" "e_mem s' = write_bytes buf (take n xs) (e_mem s)" "e_rest s' = e_rest s"
    "if strncmp sec bss 4 (e_mem s) \<noteq> 0 then file_left f D (drop n xs) s' else zero_left D (drop n xs) s'" by blast
  have "e_mem s' a = e_mem s a" if "a \<in> D" for a
    using that buf(2) n(2) s'(2) write_bytes_other [of a buf "take n xs"] by auto
  moreover have sub: "span sec 4 \<subseteq> D" "span bss 4 \<subseteq> D" using l unfolding sec_left_def by blast+
  ultimately have "e_mem s' a = e_mem s a" if "a \<in> span sec (unat (4 :: u32)) \<union> span bss (unat (4 :: u32))" for a
    using that by (simp, blast)
  from strncmp_cong [OF this] have "strncmp sec bss 4 (e_mem s') = strncmp sec bss 4 (e_mem s)" .
  then show "\<exists>s'. sec_rd bss sec f buf (int n) s = (int n, s') \<and> e_mem s' = write_bytes buf (take n xs) (e_mem s) \<and> e_rest s' = e_rest s \<and>
      sec_left bss sec f D (drop n xs) s'"
    using s' sub unfolding sec_left_def by (intro exI [of _ s']) simp
qed

section \<open>The loop over the pages\<close>

text \<open>The page of the list at node \<open>N_page w\<close> starts at \<open>b\<close>.\<close>

definition page_base_at :: "sstate \<Rightarrow> u32 \<Rightarrow> u32 \<Rightarrow> bool" where
  "page_base_at u w b \<longleftrightarrow> (\<exists>p. page_read (uint w) (sm u) = Some p \<and> pg_free_base p = b)"

lemma sec_rd_rest: "e_rest (snd (sec_rd bss sec file buf n s)) = e_rest s"
  by (simp add: sec_rd_def e_rd_def zero_rd_def e_rest_def on_et_def ramdisk_read_def on_file_def on_bytes_def Let_def fun_eq_iff)

lemma load_pages_step:
  assumes "page_entry l = Some pg" "page_read pg (sm (ss (et s))) = Some p"
    and n: "n = (if 4096 \<le> k then 4096 - j else k)" "0 \<le> n"
    and rd: "sec_rd bss sec file (pg_free_base p + word_of_int j) n s = (i, s')"
  shows "load_pages bss sec file l j k s =
    (if i < 0 then Some (- EIO, s')
     else if 0 < k - n \<and> 0 < n then load_pages bss sec file (list_next l (lists (tk (et s')))) 0 (k - n) s'
     else if 0 < k - n then None else Some (0, s'))"
proof (cases "strncmp sec bss 4 (bm (et s)) = 0")
  case True
  have "sec_rd bss sec file (pg_free_base p + word_of_int j) n s = zero_rd (pg_free_base p + word_of_int j) n s"
    using True by (simp add: sec_rd_def e_mem_def)
  then have "i = n" "s' = on_et (\<lambda>t. t\<lparr>bm := write_bytes (pg_free_base p + word_of_int j) (replicate (nat n) 0) (bm t)\<rparr>) s"
    using rd n(2) by (simp_all add: zero_rd_def memset_spec)
  then show ?thesis
    using assms(1,2) n(2) True
    by (subst load_pages.simps) (simp add: Let_def n(1) [symmetric] memset_spec on_et_def)
next
  case False
  have "sec_rd bss sec file (pg_free_base p + word_of_int j) n s = e_rd file (pg_free_base p + word_of_int j) n s"
    using False by (simp add: sec_rd_def e_mem_def)
  then obtain f where "ramdisk_read file (pg_free_base p + word_of_int j) n (fs s) = (i, f)" "s' = s\<lparr>fs := f\<rparr>"
    using rd by (auto simp: e_rd_def split: prod.splits)
  then show ?thesis
    using assms(1,2) False by (subst load_pages.simps) (simp add: Let_def n(1) [symmetric])
qed

lemma load_pages_frames:
  assumes "list_rel (lists (tk (et s))) F" "F r = Some (us @ map N_page ws)" "list_all2 (page_base_at (ss (et s))) ws bs"
    "0 < k" "j < 4096" "j + k \<le> 4096 * length bs"
  shows "load_pages bss sec file (hd (map N_page ws @ [r])) (int j) (int k) s =
    (case read_frames (sec_rd bss sec file) bs j k s of (ok, s') \<Rightarrow> Some (if ok then 0 else - EIO, s'))"
  using assms
proof (induction bs arbitrary: us ws j k s)
  case (Cons b bs)
  then obtain w ws' where ws: "ws = w # ws'" "page_base_at (ss (et s)) w b" "list_all2 (page_base_at (ss (et s))) ws' bs"
    by (auto simp: list_all2_Cons2)
  obtain p where p: "page_read (uint w) (sm (ss (et s))) = Some p" "pg_free_base p = b" using ws(2) by (auto simp: page_base_at_def)
  define n where "n = (if 4096 \<le> k then 4096 - j else k)"
  then have n: "0 < n" "n \<le> k" "int n = (if 4096 \<le> int k then 4096 - int j else int k)" "n < k \<Longrightarrow> 4096 \<le> k \<and> n = 4096 - j"
    using Cons.prems(4,5) by (auto simp: of_nat_diff split: if_splits)
  obtain i s1 where s1: "sec_rd bss sec file (b + of_nat j) (int n) s = (i, s1)" by fastforce
  have rest: "ss (et s1) = ss (et s)" using sec_rd_rest [of bss sec "file" "b + of_nat j" "int n" s] by (simp add: s1 e_rest_def)
  have nx: "list_next (N_page w) (lists (tk (et s1))) = hd (map N_page ws' @ [r])"
    unfolding list_next_def rest using list_rel_next [OF Cons.prems(1), of r us "N_page w" "map N_page ws'"] Cons.prems(2) ws(1) by simp
  have step: "load_pages bss sec file (N_page w) (int j) (int k) s =
      (if i < 0 then Some (- EIO, s1) else if n < k then load_pages bss sec file (hd (map N_page ws' @ [r])) 0 (int (k - n)) s1
       else Some (0, s1))"
    using load_pages_step [of "N_page w" "uint w" s p "int n" "int k" "int j" bss sec "file" i s1] p n(1-3) s1 nx
    by (simp add: of_nat_diff)
  have IH: "load_pages bss sec file (hd (map N_page ws' @ [r])) 0 (int (k - n)) s1 =
      (case read_frames (sec_rd bss sec file) bs 0 (k - n) s1 of (ok, s') \<Rightarrow> Some (if ok then 0 else - EIO, s'))" if "n < k"
    using Cons.IH [of s1 "us @ [N_page w]" ws' "k - n" 0] Cons.prems n(4) [OF that] that ws rest by simp
  have rf: "read_frames (sec_rd bss sec file) (b # bs) j k s =
      (if i < 0 then (False, s1) else if n < k then read_frames (sec_rd bss sec file) bs 0 (k - n) s1 else (True, s1))"
    unfolding read_frames.simps n_def [symmetric] Let_def s1 by simp
  show ?case unfolding rf using step IH by (simp add: ws(1))
qed simp

section \<open>A section\<close>

lemma list_nth_rel:
  assumes rel: "list_rel h F" and r: "F r = Some (us @ vs)"
  shows "length us = i \<Longrightarrow> list_nth (Suc i) r h = hd (vs @ [r])"
proof -
  have "list_nth (length us) (list_next r h) h = hd (vs @ [r])" using r
  proof (induction us arbitrary: vs rule: rev_induct)
    case Nil
    then show ?case using list_rel_dlist [OF rel, of r vs] by (cases vs) (auto simp: dlist_def list_next_def)
  next
    case (snoc u us)
    have nth: "list_nth (Suc n) l h = list_next (list_nth n l h) h" for n l by (induction n arbitrary: l) simp_all
    have "list_nth (length us) (list_next r h) h = u" using snoc.IH [of "u # vs"] snoc.prems by simp
    moreover have "lnext h u = hd (vs @ [r])" using list_rel_next [OF rel, of r us u vs] snoc.prems by simp
    ultimately show ?case unfolding length_append_singleton nth by (simp add: list_next_def)
  qed
  then show "length us = i \<Longrightarrow> ?thesis" by simp
qed

text \<open>
  The section \<open>sec\<close> of an open file and the image of task \<open>t\<close>: the pages \<open>ws\<close> of the image at the
  addresses \<open>bs\<close>, the section's bytes \<open>xs\<close> in the file (zeros for \<^verbatim>\<open>.bss\<close>).  \<open>D\<close> holds the disk and the
  two names; no page of the image meets it.
\<close>

definition loadable :: "u32 \<Rightarrow> u32 \<Rightarrow> u32 \<Rightarrow> u32 \<Rightarrow> node lists \<Rightarrow> u32 list \<Rightarrow> u32 list \<Rightarrow> u32 set \<Rightarrow> u8 list \<Rightarrow> estate \<Rightarrow> bool" where
  "loadable bss sec file t F ws bs D xs s \<longleftrightarrow>
     (let x = sections s sec; f = files (fs s) file; p = f_base f + es_offset x; a = unat (es_load_addr x) - 0x400000;
          k = length xs in
      list_rel (lists (tk (et s))) F \<and> F (N_elf_image_list t) = Some (map N_page ws) \<and> list_all2 (page_base_at (ss (et s))) ws bs \<and>
      frames_ok bs \<and> (\<forall>b \<in> set bs. span b 4096 \<inter> D = {}) \<and> span sec 4 \<subseteq> D \<and> span bss 4 \<subseteq> D \<and>
      0x401000 \<le> es_load_addr x \<and> es_load_addr x AND 3 = 0 \<and> es_size x = of_nat k \<and> 0 < k \<and> k < 2 ^ 31 \<and>
      (4096 \<le> k \<or> a mod 4096 + k \<le> 4096) \<and> a + k \<le> 4096 * length bs \<and> file \<noteq> NULL \<and>
      (if strncmp sec bss 4 (e_mem s) = 0 then xs = replicate k 0
       else has_bytes (e_mem s) p xs \<and> unat (es_offset x) + k \<le> unat (f_size f) \<and>
         unat (f_base f) + unat (f_size f) < 2 ^ 32 \<and> span (f_base f) (unat (f_size f)) \<subseteq> D))"

lemma write_image_drop: "i \<le> length bs \<Longrightarrow> write_image (drop i bs) j xs m = write_image bs (4096 * i + j) xs m"
proof (induction i arbitrary: bs)
  case (Suc i)
  then obtain b bs' where "bs = b # bs'" by (cases bs) auto
  then show ?case using Suc write_image_shift [of b bs' "4096 * i + j" xs m] by (simp add: add.assoc)
qed simp

text \<open>The state in which the loop starts.\<close>

lemma section_source:
  assumes l: "loadable bss sec file t F ws bs D xs s" and x: "x = sections s sec"
    and s1: "s1 = (mm_upd_task t g s)\<lparr>fs := snd (ramdisk_seek file (es_offset x) (fs (mm_upd_task t g s)))\<rparr>"
  shows "\<exists>ys. take (length xs) ys = xs \<and> sec_left bss sec file D ys s1"
proof -
  have mem: "e_mem s1 = e_mem s" by (simp add: s1 e_mem_def mm_upd_task_def on_et_def on_k_def on_ks_def ramdisk_seek_def on_file_def)
  note d = l [unfolded loadable_def Let_def]
  have sub: "span sec 4 \<subseteq> D" "span bss 4 \<subseteq> D" "file \<noteq> NULL" using d by blast+
  show ?thesis
  proof (cases "strncmp sec bss 4 (e_mem s) = 0")
    case True
    have "xs = replicate (length xs) 0" using d True by (simp split: if_splits)
    then show ?thesis using True sub by (intro exI [of _ xs]) (simp add: sec_left_def zero_left_def mem)
  next
    case False
    let ?f = "files (fs s) file"
    let ?o = "unat (es_offset x)" and ?n = "unat (f_size ?f)"
    have e: "has_bytes (e_mem s) (f_base ?f + es_offset x) xs" "?o + length xs \<le> ?n" "unat (f_base ?f) + ?n < 2 ^ 32"
      "span (f_base ?f) ?n \<subseteq> D"
      using d False by (simp_all add: x split: if_splits)
    let ?p = "f_base ?f + es_offset x"
    let ?ys = "map (\<lambda>i. e_mem s (?p + of_nat i)) [0..<?n - ?o]"
    have "take (length xs) ?ys = xs"
      using e(1,2) unfolding has_bytes_at by (intro nth_equalityI) (simp_all add: take_map)
    moreover have "file_left file D ?ys s1"
    proof -
      have fl: "files (fs s1) file = ?f\<lparr>f_curr := ?p\<rparr>"
        using sub(3) e(2) by (simp add: s1 ramdisk_seek_def on_file_def mm_upd_task_def on_et_def word_less_nat_alt not_less)
      have "span ?p (?n - ?o) \<subseteq> span (f_base ?f) ?n" using span_inside [of ?o "?n - ?o" ?n "f_base ?f"] e(2) by simp
      moreover have "unat ?p = unat (f_base ?f) + ?o" using e(2,3) by (subst unat_add_u32) simp_all
      moreover have "f_base ?f + f_size ?f = ?p + of_nat (?n - ?o)" using e(2) by (simp add: of_nat_diff)
      ultimately show ?thesis
        using e(2-4) sub(3) by (simp add: file_left_def fl mem has_bytes_at)
    qed
    ultimately show ?thesis using False sub by (intro exI [of _ ?ys]) (simp add: sec_left_def mem)
  qed
qed

text \<open>
  Loading a section of a program, when it is word aligned and, if shorter than a page, within one: byte
  \<open>i\<close> of the section is byte \<open>i\<close> from its load address on of the image, in whatever pages the image is; no
  other byte of memory changes.
\<close>

definition load_frame :: "u32 \<Rightarrow> estate \<Rightarrow> estate \<Rightarrow> bool" where
  "load_frame file s s' \<longleftrightarrow> sections s' = sections s \<and> lists (tk (et s')) = lists (tk (et s)) \<and>
     page_base_at (ss (et s')) = page_base_at (ss (et s)) \<and> f_base (files (fs s') file) = f_base (files (fs s) file) \<and>
     f_size (files (fs s') file) = f_size (files (fs s) file)"

definition image_offset :: "elf_section \<Rightarrow> nat" where
  "image_offset x = unat (es_load_addr x) - 0x400000"

lemma load_section:
  assumes l: "loadable bss sec file t F ws bs D xs s" and a: "a = image_offset (sections s sec)"
  shows "\<exists>s'. load_elf_section bss sec file t s = Some (Some 0, s') \<and> load_frame file s s' \<and> e_mem s' = write_image bs a xs (e_mem s) \<and>
    elf_size (t_mm (task (tk (et s')) t)) = elf_size (t_mm (task (tk (et s)) t)) + int (length xs)"
proof -
  let ?x = "sections s sec"
  let ?k = "length xs"
  let ?g = "\<lambda>ms. ms\<lparr>elf_size := elf_size ms + sint (es_size ?x)\<rparr>"
  define s1 where "s1 = (mm_upd_task t ?g s)\<lparr>fs := snd (ramdisk_seek file (es_offset ?x) (fs (mm_upd_task t ?g s)))\<rparr>"
  note a = a [unfolded image_offset_def]
  note d = l [unfolded loadable_def Let_def, folded a]
  have rel: "list_rel (lists (tk (et s))) F" "F (N_elf_image_list t) = Some (map N_page ws)" "list_all2 (page_base_at (ss (et s))) ws bs"
    and ok: "frames_ok bs" "\<forall>b \<in> set bs. span b 4096 \<inter> D = {}"
    and la: "0x401000 \<le> es_load_addr ?x" "es_load_addr ?x AND 3 = 0" "es_size ?x = of_nat ?k" "0 < ?k" "?k < 2 ^ 31"
    and k: "4096 \<le> ?k \<or> a mod 4096 + ?k \<le> 4096" "a + ?k \<le> 4096 * length bs"
    using d by blast+
  have sz: "sint (es_size ?x) = int ?k" using la(3,5) by (simp only: sint_of_nat_u32)
  have et1: "ss (et s1) = ss (et (mm_upd_task t ?g s))" "lists (tk (et s1)) = lists (tk (et s))" "e_mem s1 = e_mem s"
    by (simp_all add: s1_def e_mem_def mm_upd_task_def on_et_def on_k_def on_ks_def ramdisk_seek_def on_file_def)
  have pb: "page_base_at (ss (et s1)) = page_base_at (ss (et s))"
    unfolding et1(1) by (intro ext) (simp add: page_base_at_def page_read_def mm_upd_task_def on_et_def on_k_def on_ks_def)
  let ?base = "es_load_addr ?x - 0x400000"
  have base: "unat ?base = a" using la(1) by (simp add: a unat_sub word_le_nat_alt)
  let ?i = "a div 4096" and ?j = "a mod 4096"
  have ij: "unat (drop_bit 12 ?base) = ?i" "uint (?base mod 4096) = int ?j" "?j mod 4 = 0"
  proof -
    show "unat (drop_bit 12 ?base) = ?i" using base unat_drop_bit [of 12 ?base] by (simp only:) (simp add: drop_bit_eq_div)
    have "unat (?base mod 4096) = ?j" using base by (simp add: unat_mod)
    then show "uint (?base mod 4096) = int ?j" by (metis of_nat_unat ucast_id)
    have "unat (es_load_addr ?x) mod 4 = 0" using la(2) unat_and3 [of "es_load_addr ?x"] by simp
    moreover have "unat (es_load_addr ?x) = a + 4 * 0x100000" using la(1) by (simp add: a word_le_nat_alt)
    ultimately have "a mod 4 = 0" by (metis mod_mult_self2)
    then show "?j mod 4 = 0" using mod_mod_cancel [of 4 4096 a] by simp
  qed
  have il: "?i \<le> length bs" using k(2) div_mult_mod_eq [of a 4096] by linarith
  have ap: "?j + ?k \<le> 4096 * length (drop ?i bs)"
    unfolding length_drop diff_mult_distrib2 using k(2) div_mult_mod_eq [of a 4096] by linarith
  obtain ys where ys: "take ?k ys = xs" "sec_left bss sec file D ys s1" using section_source [OF l refl s1_def] by blast
  have kl: "?k \<le> length ys" using ys(1) by (metis length_take min.cobounded1)
  have fr: "\<forall>b \<in> set (drop ?i bs). unat b mod 4096 = 0 \<and> span b 4096 \<inter> D = {}"
    using ok by (auto simp: frames_ok_def dest!: in_set_dropD)
  obtain s' where s': "read_frames (sec_rd bss sec file) (drop ?i bs) ?j ?k s1 = (True, s')"
    "e_mem s' = write_image (drop ?i bs) ?j xs (e_mem s1)" "e_rest s' = e_rest s1"
    using section_bytes.load_frames [OF ys(2) la(4) kl _ ij(3) k(1) ap fr] ys(1) by auto
  have rel1: "list_rel (lists (tk (et s1))) F" using rel(1) et1(2) by simp
  have split: "F (N_elf_image_list t) = Some (map N_page (take ?i ws) @ map N_page (drop ?i ws))"
    using rel(2) by (simp flip: map_append)
  have "list_all2 (page_base_at (ss (et s1))) (drop ?i ws) (drop ?i bs)" using rel(3) pb by (simp add: list_all2_dropI)
  from load_pages_frames [OF rel1 split this la(4) _ ap, of bss sec "file"] s'(1)
  have run: "load_pages bss sec file (hd (map N_page (drop ?i ws) @ [N_elf_image_list t])) (int ?j) (int ?k) s1 = Some (0, s')" by simp
  have "length ws = length bs" using rel(3) by (rule list_all2_lengthD)
  then have nth: "list_nth (Suc ?i) (N_elf_image_list t) (lists (tk (et s))) = hd (map N_page (drop ?i ws) @ [N_elf_image_list t])"
    using list_nth_rel [OF rel(1) split, of ?i] il by simp
  have res: "load_elf_section bss sec file t s = Some (Some 0, s')"
  proof -
    have "\<not> es_load_addr ?x < 0x401000" "es_size ?x \<noteq> 0" using la(1) sz la(4) by (auto simp: not_less)
    then show ?thesis using run by (simp add: load_elf_section_def Let_def ij(1,2) nth sz [symmetric] s1_def del: list_nth.simps)
  qed
  have "load_frame file s s'"
    using s'(3) pb by (simp add: load_frame_def e_rest_def fun_eq_iff)
      (simp add: s1_def mm_upd_task_def on_et_def on_k_def on_ks_def ramdisk_seek_def on_file_def)
  moreover have "e_mem s' = write_image bs a xs (e_mem s)" using s'(2) et1(3) write_image_drop [OF il, of ?j xs] by simp
  moreover have "elf_size (t_mm (task (tk (et s')) t)) = elf_size (t_mm (task (tk (et s)) t)) + int ?k"
    using s'(3) sz by (simp add: e_rest_def et1(1) mm_upd_task_def on_et_def on_k_def on_ks_def)
  ultimately show ?thesis using res by blast
qed

section \<open>The image\<close>

text \<open>The sections of a file are a list linked by \<^verbatim>\<open>next\<close>.\<close>

primrec chain :: "(u32 \<Rightarrow> elf_section) \<Rightarrow> u32 \<Rightarrow> u32 list \<Rightarrow> bool" where
  "chain x a [] \<longleftrightarrow> a = NULL"
| "chain x a (b # bs) \<longleftrightarrow> a = b \<and> b \<noteq> NULL \<and> chain x (es_next (x b)) bs"

lemma chain_unique: "chain x a xs \<Longrightarrow> chain x a ys \<Longrightarrow> xs = ys"
  by (induction xs arbitrary: a ys) (case_tac ys; auto)+

lemma chain_append: "chain x a (us @ b # vs) \<Longrightarrow> chain x b (b # vs)"
  by (induction us arbitrary: a) auto

lemma chain_distinct: "chain x a xs \<Longrightarrow> distinct xs"
proof (induction xs arbitrary: a)
  case (Cons b bs)
  then have ch: "chain x b (b # bs)" by simp
  have "b \<notin> set bs"
  proof
    assume "b \<in> set bs"
    then obtain us vs where bs: "bs = us @ b # vs" by (auto simp: in_set_conv_decomp)
    then have "chain x b (b # vs)" using chain_append [of x b "b # us" b vs] ch by simp
    from chain_unique [OF ch this] bs show False by simp
  qed
  then show ?case using Cons.IH [of "es_next (x b)"] ch by simp
qed simp

lemma chain_cong: "(\<And>y. y \<in> set xs \<Longrightarrow> es_next (x' y) = es_next (x y)) \<Longrightarrow> chain x' a xs = chain x a xs"
  by (induction xs arbitrary: a) auto

lemma chain_null: "chain x a xs \<Longrightarrow> NULL \<notin> set xs"
  by (induction xs arbitrary: a) auto

text \<open>The loop that looks for the end of the list ends, at the last section; hooking a section behind it.\<close>

lemma last_section_chain: "chain x a xs \<Longrightarrow> xs \<noteq> [] \<Longrightarrow> last_section a x = Some (last xs)"
proof (induction xs arbitrary: a)
  case (Cons b bs)
  then show ?case by (cases bs) (subst last_section.simps, auto)+
qed simp

lemma chain_hook:
  assumes "chain x a xs" "xs \<noteq> []" "sec \<noteq> NULL" "es_next (x' sec) = NULL" "es_next (x' (last xs)) = sec"
    "\<And>y. y \<in> set xs \<Longrightarrow> y \<noteq> last xs \<Longrightarrow> es_next (x' y) = es_next (x y)"
  shows "chain x' a (xs @ [sec])"
  using assms
proof (induction xs arbitrary: a)
  case (Cons b bs)
  show ?case
  proof (cases "bs = []")
    case False
    then have l: "last bs \<in> set bs" "last (b # bs) = last bs" by simp_all
    moreover have "b \<notin> set bs" using chain_distinct [OF Cons.prems(1)] by simp
    ultimately have "b \<noteq> last (b # bs)" by auto
    then show ?thesis using Cons.IH [of "es_next (x b)"] Cons.prems False l by simp
  qed (use Cons.prems in simp)
qed simp

text \<open>
  C38. \<^verbatim>\<open>elf_file_add_section\<close> ends and appends the section to the list of the file: the sections before it
  stay in their order with their contents, its offset, size and load address are those of its header, its
  name is copied, and the size of the file's image grows by its size.
\<close>

theorem add_section_appends:
  assumes ch: "chain (sections s) (ef_head (elf_files s ef)) secs" and sec: "sec \<notin> set secs" "sec \<noteq> NULL"
    and nm: "cstr (e_mem s) name xs" "name \<noteq> NULL" "length xs \<le> 31" "span sec (Suc (length xs)) \<inter> span name (Suc (length xs)) = {}"
  shows "\<exists>s'. elf_file_add_section ef header sec name s = Some s' \<and> chain (sections s') (ef_head (elf_files s' ef)) (secs @ [sec]) \<and>
    es_offset (sections s' sec) = sh_offset (e_mem s) header \<and> es_size (sections s' sec) = sh_sz (e_mem s) header \<and>
    es_load_addr (sections s' sec) = sh_addr (e_mem s) header \<and> cstr (e_mem s') sec xs \<and>
    ef_alloc_size (elf_files s' ef) = ef_alloc_size (elf_files s ef) + sh_sz (e_mem s) header \<and>
    (\<forall>y \<in> set secs. es_offset (sections s' y) = es_offset (sections s y) \<and> es_size (sections s' y) = es_size (sections s y) \<and>
       es_load_addr (sections s' y) = es_load_addr (sections s y))"
proof -
  let ?h = "ef_head (elf_files s ef)" and ?m = "bm (et s)"
  let ?x = "(sections s)(sec := (sections s sec)\<lparr>es_offset := sh_offset ?m header, es_size := sh_sz ?m header,
       es_load_addr := sh_addr ?m header, es_next := NULL\<rparr>)"
  have len: "strlen name ?m = Some (int (length xs))" using nm(1,2) by (simp add: strlen_cstr e_mem_def)
  have cp: "strcpy sec name ?m = Some (sec, write_bytes sec (xs @ [0]) ?m)"
    using strcpy_loop_cstr [OF nm(1,4)] nm(2) sec(2) by (simp add: strcpy_def e_mem_def)
  have has: "has_bytes (write_bytes sec (xs @ [0]) ?m) sec (xs @ [0])" using nm(3) by (intro has_bytes_write) simp
  then have str: "cstr (write_bytes sec (xs @ [0]) ?m) sec xs" using nm(1) by (simp add: cstr_def)
  have ch': "chain ?x ?h secs" using ch sec(1) by (subst chain_cong [of secs ?x "sections s"]) auto
  show ?thesis
  proof (cases "secs = []")
    case True
    then have "?h = NULL" using ch by simp
    then show ?thesis using True len cp nm(3) sec(2) str
      by (simp add: elf_file_add_section_def Let_def on_section_def on_elf_def on_et_def e_mem_def)
  next
    case False
    then have h: "?h \<noteq> NULL" "last secs \<in> set secs" using ch by (cases secs; simp)+
    have last: "last_section ?h ?x = Some (last secs)" by (rule last_section_chain [OF ch' False])
    let ?x2 = "?x(last secs := (?x (last secs))\<lparr>es_next := sec\<rparr>)"
    have ne: "last secs \<noteq> sec" using h(2) sec(1) by auto
    have "chain ?x2 ?h (secs @ [sec])" using sec ne by (intro chain_hook [OF ch' False]) auto
    moreover have "es_offset (?x2 y) = es_offset (sections s y)" "es_size (?x2 y) = es_size (sections s y)"
      "es_load_addr (?x2 y) = es_load_addr (sections s y)" if "y \<in> set secs" for y using that sec(1) by auto
    ultimately show ?thesis using len cp nm(3) str h last ne
      by (simp add: elf_file_add_section_def Let_def on_section_def on_elf_def on_et_def e_mem_def)
  qed
qed

lemma loadable_step:
  assumes l: "loadable bss sec file t F ws bs D xs s" and f: "load_frame file s s'" and m: "\<And>a. a \<in> D \<Longrightarrow> e_mem s' a = e_mem s a"
  shows "loadable bss sec file t F ws bs D xs s'"
proof -
  note d = l [unfolded loadable_def Let_def]
  have sub: "span sec (unat (4 :: u32)) \<union> span bss (unat (4 :: u32)) \<subseteq> D" using d by simp
  then have cmp: "strncmp sec bss 4 (e_mem s') = strncmp sec bss 4 (e_mem s)" using m by (intro strncmp_cong) blast
  let ?f = "files (fs s) file" and ?x = "sections s sec"
  have bytes: "has_bytes (e_mem s') (f_base ?f + es_offset ?x) xs = has_bytes (e_mem s) (f_base ?f + es_offset ?x) xs"
    if "unat (es_offset ?x) + length xs \<le> unat (f_size ?f)" "span (f_base ?f) (unat (f_size ?f)) \<subseteq> D"
    using span_inside [OF that(1), of "f_base ?f"] that(2) m by (intro has_bytes_cong) auto
  show ?thesis
    using d f bytes unfolding loadable_def load_frame_def Let_def cmp
    by (cases "strncmp sec bss 4 (e_mem s) = 0") (simp_all del: span_def)
qed

lemma frame_at_span: "frame_at bs c \<in> span (bs ! (c div 4096)) 4096"
  unfolding span_def frame_at_def by (intro CollectI exI [of _ "c mod 4096"]) simp

lemma loadable_range: "loadable bss sec file t F ws bs D xs s \<Longrightarrow> frames_ok bs \<and> (\<forall>b \<in> set bs. span b 4096 \<inter> D = {}) \<and>
    image_offset (sections s sec) + length xs \<le> 4096 * length bs"
  unfolding loadable_def Let_def image_offset_def by blast

lemma write_image_keeps:
  assumes "\<forall>b \<in> set bs. span b 4096 \<inter> D = {}" "j + length xs \<le> 4096 * length bs" "a \<in> D"
  shows "write_image bs j xs m a = m a"
proof (rule write_image_other)
  show "a \<notin> frame_at bs ` {j ..< j + length xs}"
  proof
    assume "a \<in> frame_at bs ` {j ..< j + length xs}"
    then obtain c where c: "a = frame_at bs c" "c < j + length xs" by auto
    then have "c div 4096 < length bs" using assms(2) by (simp add: less_mult_imp_div_less)
    then show False using assms(1,3) frame_at_span [of bs c] nth_mem c(1) by blast
  qed
qed

lemma load_sections_spec:
  assumes "chain (sections s) a secs" "distinct secs" "\<forall>sec \<in> set secs. loadable bss sec file t F ws bs D (c sec) s"
    "\<forall>x \<in> set secs. \<forall>y \<in> set secs. x \<noteq> y \<longrightarrow> {image_offset (sections s x) ..< image_offset (sections s x) + length (c x)} \<inter>
       {image_offset (sections s y) ..< image_offset (sections s y) + length (c y)} = {}"
  shows "\<exists>s'. load_sections bss a file t s = Some (Some 0, s') \<and>
    (\<forall>sec \<in> set secs. \<forall>i < length (c sec). e_mem s' (frame_at bs (image_offset (sections s sec) + i)) = c sec ! i) \<and>
    (\<forall>n. n div 4096 < length bs \<longrightarrow> (\<forall>sec \<in> set secs. n \<notin> {image_offset (sections s sec) ..< image_offset (sections s sec) + length (c sec)}) \<longrightarrow>
       frames_ok bs \<longrightarrow> e_mem s' (frame_at bs n) = e_mem s (frame_at bs n)) \<and>
    elf_size (t_mm (task (tk (et s')) t)) = elf_size (t_mm (task (tk (et s)) t)) + (\<Sum>sec \<leftarrow> secs. int (length (c sec)))"
  using assms
proof (induction secs arbitrary: a s)
  case Nil
  then show ?case by (subst load_sections.simps) simp
next
  case (Cons x secs)
  let ?o = "\<lambda>y. image_offset (sections s y)"
  have ch: "a = x" "x \<noteq> NULL" "chain (sections s) (es_next (sections s x)) secs" using Cons.prems(1) by simp_all
  have lx: "loadable bss x file t F ws bs D (c x) s" using Cons.prems(3) by simp
  note rx = loadable_range [OF lx]
  obtain s1 where s1: "load_elf_section bss x file t s = Some (Some 0, s1)" "load_frame file s s1" "e_mem s1 = write_image bs (?o x) (c x) (e_mem s)"
    "elf_size (t_mm (task (tk (et s1)) t)) = elf_size (t_mm (task (tk (et s)) t)) + int (length (c x))"
    using load_section [OF lx refl] by blast
  have sec1: "sections s1 = sections s" using s1(2) by (simp add: load_frame_def)
  have keep: "e_mem s1 b = e_mem s b" if "b \<in> D" for b using write_image_keeps [OF _ _ that, of bs "?o x" "c x" "e_mem s"] rx s1(3) by simp
  have all: "\<forall>sec \<in> set secs. loadable bss sec file t F ws bs D (c sec) s1"
    using Cons.prems(3) loadable_step [OF _ s1(2) keep] by simp
  have dis: "{?o x ..< ?o x + length (c x)} \<inter> {?o y ..< ?o y + length (c y)} = {}" if "y \<in> set secs" for y
  proof -
    have "x \<noteq> y" using Cons.prems(2) that by auto
    then show ?thesis using Cons.prems(4) that by simp
  qed
  obtain s' where s': "load_sections bss (es_next (sections s1 x)) file t s1 = Some (Some 0, s')"
    "\<forall>sec \<in> set secs. \<forall>i < length (c sec). e_mem s' (frame_at bs (?o sec + i)) = c sec ! i"
    "\<And>n. n div 4096 < length bs \<Longrightarrow> (\<forall>sec \<in> set secs. n \<notin> {?o sec ..< ?o sec + length (c sec)}) \<Longrightarrow> frames_ok bs \<Longrightarrow>
       e_mem s' (frame_at bs n) = e_mem s1 (frame_at bs n)"
    "elf_size (t_mm (task (tk (et s')) t)) = elf_size (t_mm (task (tk (et s1)) t)) + (\<Sum>sec \<leftarrow> secs. int (length (c sec)))"
    using Cons.IH [of s1 "es_next (sections s1 x)"] ch(3) Cons.prems(2,4) all sec1 by auto
  have x: "e_mem s' (frame_at bs (?o x + i)) = c x ! i" if "i < length (c x)" for i
  proof -
    have b: "(?o x + i) div 4096 < length bs" using rx that by (simp add: less_mult_imp_div_less)
    have "?o x + i \<in> {?o x ..< ?o x + length (c x)}" using that by simp
    then have n: "\<forall>sec \<in> set secs. ?o x + i \<notin> {?o sec ..< ?o sec + length (c sec)}" using dis by blast
    show ?thesis using s'(3) [OF b n] rx write_image_get [of bs "?o x" "c x" i] that s1(3) by simp
  qed
  have out: "e_mem s' (frame_at bs n) = e_mem s (frame_at bs n)" if n: "n div 4096 < length bs" "frames_ok bs"
    "\<forall>sec \<in> set (x # secs). n \<notin> {?o sec ..< ?o sec + length (c sec)}" for n
  proof -
    have "frame_at bs n \<notin> frame_at bs ` {?o x ..< ?o x + length (c x)}"
    proof
      assume "frame_at bs n \<in> frame_at bs ` {?o x ..< ?o x + length (c x)}"
      then obtain q where q: "frame_at bs n = frame_at bs q" "q \<in> {?o x ..< ?o x + length (c x)}" by blast
      then have "q div 4096 < length bs" using rx by (simp add: less_mult_imp_div_less)
      from frame_at_inj [OF n(2,1) this q(1)] show False using q(2) n(3) by simp
    qed
    then show ?thesis using s'(3) [OF n(1) _ n(2)] n(3) write_image_other s1(3) by simp
  qed
  have "load_sections bss a file t s = Some (Some 0, s')"
    using s1(1) s'(1) ch(1,2) by (subst load_sections.simps) simp
  then show ?case using x s'(2,4) s1(4) out by (intro exI [of _ s']) simp
qed

text \<open>
  C37. Loading a program whose sections are not empty, lie in the file and, from \<open>0x401000\<close> on, in the pages of the image, do not overlap, are word
  aligned and, if shorter than a page, within one page; the pages are distinct and apart from the file:
  \<^verbatim>\<open>load_elf_image\<close> returns 0; byte \<open>i\<close> of every section (\<open>c\<close>: the bytes in the file, zeros
  for \<^verbatim>\<open>.bss\<close>) is byte \<open>i\<close> from its load address on of the image, in whatever pages the image is; and the
  size of the image is that of the sections together.
\<close>

theorem load_image:
  assumes "t \<noteq> NULL" "file \<noteq> NULL" "ef \<noteq> NULL" and ch: "chain (sections s) (ef_head (elf_files s ef)) secs"
    and l: "\<forall>sec \<in> set secs. loadable bss sec file t F ws bs D (c sec) s"
    and d: "\<forall>x \<in> set secs. \<forall>y \<in> set secs. x \<noteq> y \<longrightarrow> {image_offset (sections s x) ..< image_offset (sections s x) + length (c x)} \<inter>
       {image_offset (sections s y) ..< image_offset (sections s y) + length (c y)} = {}"
  shows "\<exists>s'. load_elf_image bss t file ef s = Some (Some 0, s') \<and>
    (\<forall>sec \<in> set secs. \<forall>i < length (c sec). e_mem s' (frame_at bs (image_offset (sections s sec) + i)) = c sec ! i) \<and>
    elf_size (t_mm (task (tk (et s')) t)) = (\<Sum>sec \<leftarrow> secs. int (length (c sec)))"
proof -
  let ?s = "mm_upd_task t (\<lambda>ms. ms\<lparr>elf_size := 0\<rparr>) s"
  have fr: "load_frame file s ?s" "e_mem ?s = e_mem s" "sections ?s = sections s" "elf_size (t_mm (task (tk (et ?s)) t)) = 0"
    by (simp_all add: load_frame_def e_mem_def mm_upd_task_def on_et_def on_k_def on_ks_def page_base_at_def [abs_def] page_read_def)
  have "\<forall>sec \<in> set secs. loadable bss sec file t F ws bs D (c sec) ?s" using l loadable_step [OF _ fr(1)] fr(2) by simp
  with load_sections_spec [of ?s "ef_head (elf_files s ef)" secs bss "file" t F ws bs D c] ch chain_distinct [OF ch] d fr(3)
  obtain s' where "load_sections bss (ef_head (elf_files s ef)) file t ?s = Some (Some 0, s')"
    "\<forall>sec \<in> set secs. \<forall>i < length (c sec). e_mem s' (frame_at bs (image_offset (sections s sec) + i)) = c sec ! i"
    "elf_size (t_mm (task (tk (et s')) t)) = (\<Sum>sec \<leftarrow> secs. int (length (c sec)))"
    unfolding fr(3,4) by auto
  then show ?thesis using assms(1-3) by (simp add: load_elf_image_def)
qed

section \<open>An instance\<close>

text \<open>
  A task at \<open>0x5000\<close> whose image is the pages 5 and 6, a file of 64 bytes at \<open>0xc0300010\<close>, and two sections: 8
  bytes at offset 4 of it, to be loaded at \<open>0x401010\<close>, and 12 bytes of \<^verbatim>\<open>.bss\<close> at \<open>0x401018\<close>.  A byte of memory is
  the end of its address, but for the two names.
\<close>

definition image_mem :: mem where
  "image_mem a = (if a - 0xc0300090 < 4 then ucast (a - 0xc0300090) else if a - 0xc03000a0 < 4 then ucast (a - 0xc03000a0) else ucast a)"

definition image_demo :: estate where
  "image_demo = (let r = N_elf_image_list 0x5000;
       k = on_lists (\<lambda>h. list_add r (N_page 5) (list_add r (N_page 6) (init_list r h))) demo_ks;
       m = (machine (0x7f # replicate 8 0))\<lparr>ks := k, page_table := (replicate 257 no_page)
         [5 := no_page\<lparr>pg_free_base := 0xc0005000\<rparr>, 6 := no_page\<lparr>pg_free_base := 0xc0006000\<rparr>]\<rparr>
     in \<lparr>fs = \<lparr>ft = \<lparr>ss = slab_boot\<lparr>sm := m\<rparr>, wm = (\<lambda>_. 0), bm = image_mem\<rparr>, ramdisk_start = 0xc0300000, ramdisk_header = 0, file_header = 0,
             files = (\<lambda>_. \<lparr>f_base = 0xc0300010, f_size = 64, f_curr = 0xc0300010\<rparr>)\<rparr>,
         sections = (\<lambda>a. if a = 0xc0300080 then \<lparr>es_offset = 4, es_size = 8, es_load_addr = 0x401010, es_next = 0xc03000a0\<rparr>
           else \<lparr>es_offset = 12, es_size = 12, es_load_addr = 0x401018, es_next = 0\<rparr>),
         elf_files = (\<lambda>_. \<lparr>ef_alloc_size = 20, ef_head = 0xc0300080\<rparr>)\<rparr>)"

definition image_bytes :: "u32 \<Rightarrow> u8 list" where
  "image_bytes sec = (if sec = 0xc0300080 then [20, 21, 22, 23, 24, 25, 26, 27] else replicate 12 0)"

lemma span_bounds: "a \<in> span p n \<Longrightarrow> unat p + n < 2 ^ 32 \<Longrightarrow> unat p \<le> unat a \<and> unat a < unat p + n"
proof -
  assume "a \<in> span p n" and n: "unat p + n < 2 ^ 32"
  then obtain i where i: "a = p + of_nat i" "i < n" by (auto simp: span_def)
  then have "unat (of_nat i :: u32) = i" using n by (simp add: unat_of_nat_u32)
  then have "unat a = unat p + i" using i n by (simp only: i(1)) (subst unat_add_u32, simp_all)
  then show ?thesis using i(2) by simp
qed

lemma image_demo_loadable:
  assumes "sec \<in> {0xc0300080, 0xc03000a0}"
  shows "loadable 0xc0300090 sec 0x100 0x5000 (demo_F(N_elf_image_list 0x5000 \<mapsto> [N_page 5, N_page 6])) [5, 6] [0xc0005000, 0xc0006000]
     {a. 0xc0300000 \<le> unat a \<and> unat a < 0xc0300100} (image_bytes sec) image_demo"
proof -
  let ?r = "N_elf_image_list 0x5000" and ?D = "{a :: u32. 0xc0300000 \<le> unat a \<and> unat a < 0xc0300100}"
  have fr: "fresh demo_F ?r" "fresh demo_F (N_page i)" for i
    by (auto simp: fresh_def demo_F_def boot_lists_def boot_heads_def split: if_splits)
  have "list_rel (list_add ?r (N_page 5) (list_add ?r (N_page 6) (init_list ?r (lists demo_ks))))
      (demo_F(?r \<mapsto> [], ?r \<mapsto> [N_page 6], ?r \<mapsto> [N_page 5, N_page 6]))"
    using fr by (intro os_list.rel_add os_list.rel_init kinv_rel [OF demo_ks_kinv]) (auto simp: fresh_def split: if_splits)
  then have rel: "list_rel (lists (tk (et image_demo))) (demo_F(?r \<mapsto> [N_page 5, N_page 6]))"
    by (simp add: image_demo_def Let_def on_lists_def)
  have pg: "list_all2 (page_base_at (ss (et image_demo))) [5, 6] [0xc0005000, 0xc0006000]"
    by (simp add: image_demo_def Let_def page_base_at_def page_read_def lget_def)
  have sub: "span 0xc0300080 4 \<subseteq> ?D" "span 0xc03000a0 4 \<subseteq> ?D" "span 0xc0300090 4 \<subseteq> ?D" "span 0xc0300010 64 \<subseteq> ?D"
    by (auto dest!: span_bounds)
  have dis: "span 0xc0005000 4096 \<inter> ?D = {}" "span 0xc0006000 4096 \<inter> ?D = {}"
    by (auto dest!: span_bounds)
  have mem: "e_mem image_demo = image_mem" by (simp add: e_mem_def image_demo_def Let_def)
  have four: "unat (4 :: u32) = Suc (Suc (Suc (Suc 0)))" by simp
  have cmp: "strncmp 0xc0300080 0xc0300090 4 image_mem \<noteq> 0" "strncmp 0xc03000a0 0xc0300090 4 image_mem = 0"
    unfolding strncmp_def four by (simp_all only: strncmp_loop.simps) (simp_all add: Let_def image_mem_def)
  have bytes: "has_bytes image_mem 0xc0300014 [20, 21, 22, 23, 24, 25, 26, 27]"
    by (simp add: image_mem_def)
  have f: "files (fs image_demo) 0x100 = \<lparr>f_base = 0xc0300010, f_size = 64, f_curr = 0xc0300010\<rparr>"
    and x: "sections image_demo 0xc0300080 = \<lparr>es_offset = 4, es_size = 8, es_load_addr = 0x401010, es_next = 0xc03000a0\<rparr>"
      "sections image_demo 0xc03000a0 = \<lparr>es_offset = 12, es_size = 12, es_load_addr = 0x401018, es_next = 0\<rparr>"
    by (simp_all add: image_demo_def Let_def)
  from assms consider "sec = 0xc0300080" | "sec = 0xc03000a0" by blast
  then show ?thesis
  proof cases
    case 1
    show ?thesis
      unfolding 1 loadable_def Let_def f x mem using rel pg sub dis cmp(1) bytes by (simp add: frames_ok_def image_bytes_def)
  next
    case 2
    show ?thesis
      unfolding 2 loadable_def Let_def f x mem using rel pg sub dis cmp(2) by (simp add: frames_ok_def image_bytes_def)
  qed
qed

lemma demo_frame: "i < 4000 \<Longrightarrow> frame_at [0xc0005000, 0xc0006000] (0x1010 + i) = 0xc0006010 + of_nat i"
  using frame_at_shift [of "0xc0005000" "[0xc0006000]" "16 + i"] by (simp add: frame_at_def)

theorem load_image_witness:
  "\<exists>s'. load_elf_image 0xc0300090 0x5000 0x100 0xc0300200 image_demo = Some (Some 0, s') \<and>
    e_mem s' 0xc0006010 = 20 \<and> e_mem s' 0xc0006017 = 27 \<and> e_mem s' 0xc0006018 = 0 \<and> elf_size (t_mm (task (tk (et s')) 0x5000)) = 20"
proof -
  let ?secs = "[0xc0300080, 0xc03000a0] :: u32 list" and ?bs = "[0xc0005000, 0xc0006000] :: u32 list"
  have o: "image_offset (sections image_demo 0xc0300080) = 0x1010" "image_offset (sections image_demo 0xc03000a0) = 0x1018"
    "length (image_bytes 0xc0300080) = 8" "length (image_bytes 0xc03000a0) = 12"
    by (simp_all add: image_demo_def Let_def image_offset_def image_bytes_def)
  have ch: "chain (sections image_demo) (ef_head (elf_files image_demo 0xc0300200)) ?secs"
    by (simp add: image_demo_def Let_def)
  have l: "\<forall>sec \<in> set ?secs. loadable 0xc0300090 sec 0x100 0x5000 (demo_F(N_elf_image_list 0x5000 \<mapsto> [N_page 5, N_page 6])) [5, 6] ?bs
     {a. 0xc0300000 \<le> unat a \<and> unat a < 0xc0300100} (image_bytes sec) image_demo"
    using image_demo_loadable by simp
  have d: "\<forall>x \<in> set ?secs. \<forall>y \<in> set ?secs. x \<noteq> y \<longrightarrow> {image_offset (sections image_demo x) ..< image_offset (sections image_demo x) + length (image_bytes x)} \<inter>
       {image_offset (sections image_demo y) ..< image_offset (sections image_demo y) + length (image_bytes y)} = {}"
    using o by auto
  obtain s' where s': "load_elf_image 0xc0300090 0x5000 0x100 0xc0300200 image_demo = Some (Some 0, s')"
    "\<And>i. i < 8 \<Longrightarrow> e_mem s' (frame_at ?bs (0x1010 + i)) = [20, 21, 22, 23, 24, 25, 26, 27] ! i"
    "\<And>i. i < 12 \<Longrightarrow> e_mem s' (frame_at ?bs (0x1018 + i)) = 0" "elf_size (t_mm (task (tk (et s')) 0x5000)) = 20"
    using load_image [OF _ _ _ ch l d] o by (auto simp: image_bytes_def)
  have "e_mem s' 0xc0006010 = 20" using s'(2) [of 0] demo_frame [of 0] by simp
  moreover have "e_mem s' 0xc0006017 = 27" using s'(2) [of 7] demo_frame [of 7] by simp
  moreover have "e_mem s' 0xc0006018 = 0" using s'(3) [of 0] demo_frame [of 8] by simp
  ultimately show ?thesis using s'(1,4) by blast
qed

theorem add_section_appends_witness:
  "\<exists>s'. elf_file_add_section 0xc0300200 0xc0300300 0xc0300400 0xc03000fd image_demo = Some s' \<and>
    chain (sections s') (ef_head (elf_files s' 0xc0300200)) [0xc0300080, 0xc03000a0, 0xc0300400] \<and>
    es_size (sections s' 0xc0300400) = 0x17161514 \<and> e_mem s' 0xc0300400 = 0xfd"
proof -
  have ch: "chain (sections image_demo) (ef_head (elf_files image_demo 0xc0300200)) [0xc0300080, 0xc03000a0]"
    by (simp add: image_demo_def Let_def)
  have mem: "e_mem image_demo = image_mem" by (simp add: e_mem_def image_demo_def Let_def)
  have str: "cstr (e_mem image_demo) 0xc03000fd [0xfd, 0xfe, 0xff]" by (simp add: mem image_mem_def)
  have sz: "sh_sz (e_mem image_demo) 0xc0300300 = 0x17161514" by (simp add: mem sh_sz_def get32_def image_mem_def)
  have d: "span 0xc0300400 (Suc (length [0xfd, 0xfe, 0xff :: u8])) \<inter> span 0xc03000fd (Suc (length [0xfd, 0xfe, 0xff :: u8])) = {}"
    by (auto dest!: span_bounds)
  show ?thesis
    using add_section_appends [OF ch _ _ str _ _ d, of "0xc0300300"] sz by (auto simp: cstr_def)
qed

end
