(* ===== verification/ArgvProps.thy ===== *)
theory ArgvProps
  imports ElfProps
begin

text \<open>
  The arguments of a program: where \<^verbatim>\<open>setup_task_argv\<close> puts them, and that a string whose length is a
  multiple of four runs into the next one.
\<close>

section \<open>The next address\<close>

lemma pad4_div: "(n + 3) div 4 * 4 = pad4 n"
proof -
  obtain q r where n: "n = 4 * q + r" "r < 4" using mod_less_divisor [of 4 n] div_mult_mod_eq [of n 4] by (metis mult.commute zero_less_numeral)
  have "(n + 3) div 4 = q + (r + 3) div 4" using div_mult_self4 [of 4 q "r + 3"] by (simp add: n(1) add.assoc)
  moreover have "n mod 4 = r" using n by simp
  moreover have "r = 0 \<or> r = 1 \<or> r = 2 \<or> r = 3" using n(2) by linarith
  ultimately show ?thesis by (auto simp: pad4_def n(1))
qed

lemma next_arg:
  assumes p: "p AND 3 = 0" and n: "unat p + n + 4 < 2 ^ 32"
  shows "baligin (p + word_of_int (int n)) 4 = p + of_nat (pad4 n)" "(p + of_nat (pad4 n)) AND 3 = 0"
proof -
  obtain q where q: "unat p = 4 * q" using p unat_and3 [of p] by (metis mod_0_imp_dvd dvdE unat_eq_0)
  have le: "pad4 n < n + 4" using mod_less_divisor [of 4 n] by (auto simp: pad4_def)
  have un: "unat (of_nat k :: u32) = k" if "k < n + 4" for k using that n by (simp add: unat_of_nat_u32)
  have up: "unat (p + of_nat k) = unat p + k" if "k < n + 4" for k using that n un by (subst unat_add_u32) simp_all
  have "unat (baligin (p + of_nat n) (2 ^ 2)) = (unat p + n + 3) div 4 * 4"
    using n by (subst baligin_unat) (simp_all add: up)
  also have "\<dots> = unat p + pad4 n"
  proof -
    have "(4 * q + n + 3) div 4 = q + (n + 3) div 4" using div_mult_self4 [of 4 q "n + 3"] by (simp add: add.assoc)
    then show ?thesis by (simp add: q pad4_div [symmetric])
  qed
  also have "\<dots> = unat (p + of_nat (pad4 n))" using up [OF le] by simp
  finally show "baligin (p + word_of_int (int n)) 4 = p + of_nat (pad4 n)" by (simp add: word_unat_eq_iff)
  have "pad4 n mod 4 = 0" by (simp add: pad4_div [symmetric])
  then have "unat (p + of_nat (pad4 n)) mod 4 = 0" using up [OF le] q by (simp add: mod_add_eq [symmetric])
  then show "(p + of_nat (pad4 n)) AND 3 = 0" using unat_and3 [of "p + of_nat (pad4 n)"] by (simp add: unat_eq_0)
qed

section \<open>Copying the arguments\<close>

text \<open>The offset of argument \<open>i\<close> of \<open>xss\<close> and the size of all.\<close>

definition arg_offset :: "u8 list list \<Rightarrow> nat \<Rightarrow> nat" where
  "arg_offset xss i = (\<Sum>xs \<leftarrow> take i xss. pad4 (length xs))"

definition args_size :: "u8 list list \<Rightarrow> nat" where
  "args_size xss = (\<Sum>xs \<leftarrow> xss. pad4 (length xs))"

lemma arg_offset_simps [simp]: "arg_offset xss 0 = 0" "arg_offset (xs # xss) (Suc i) = pad4 (length xs) + arg_offset xss i"
  by (simp_all add: arg_offset_def)

lemma args_size_Cons [simp]: "args_size (xs # xss) = pad4 (length xs) + args_size xss"
  by (simp add: args_size_def)

text \<open>The pointers \<open>ps\<close> at \<open>argv\<close>, with the null pointer behind them if they are fewer than the loop looks at, and their strings.\<close>

definition arg_table :: "nat \<Rightarrow> u32 \<Rightarrow> u32 list \<Rightarrow> u8 list list \<Rightarrow> mem \<Rightarrow> bool" where
  "arg_table n argv ps xss m \<longleftrightarrow> length ps \<le> n \<and> words_at (get32 m) argv (ps @ (if length ps < n then [0] else [])) \<and>
     list_all2 (\<lambda>p xs. p \<noteq> NULL \<and> cstr m p xs) ps xss"

lemma copy_one:
  assumes "cstr m a xs" "a \<noteq> NULL" "d \<noteq> NULL" "span d (Suc (length xs)) \<inter> span a (Suc (length xs)) = {}"
  shows "strlen a m = Some (int (length xs))" "strcpy d a m = Some (d, write_bytes d (xs @ [0]) m)"
  using assms strlen_cstr strcpy_loop_cstr by (simp_all add: strcpy_def)

lemma copy_args_step:
  assumes "get32 (bm s) argv = p" "p \<noteq> NULL" "strlen p (bm s) = Some len" "strcpy lb p (bm s) = Some (r, m)"
    "baligin (ab + word_of_int len) 4 = ab'" "baligin (lb + word_of_int len) 4 = lb'"
  shows "copy_args (Suc n) argv ab lb tb s = copy_args n (argv + 4) ab' lb' (tb + 4) (s\<lparr>bm := put32 tb ab m\<rparr>)"
  using assms by (simp add: Let_def)

lemma copy_args_stop: "get32 (bm s) argv = 0 \<Longrightarrow> copy_args (Suc n) argv ab lb tb s = Some s"
  by simp

lemma list_all2_conj_mono:
  "list_all2 P xs ys \<Longrightarrow> list_all2 Q xs ys \<Longrightarrow> (\<And>x y. P x y \<Longrightarrow> Q x y \<Longrightarrow> R x y) \<Longrightarrow> list_all2 R xs ys"
  by (simp add: list_all2_conv_all_nth)

lemma put32_other: "a \<notin> span p 4 \<Longrightarrow> put32 p w m a = m a"
  using write_bytes_other [of a p "le32 w"] by (simp add: put32_def)

lemma get32_span: "(\<And>b. b \<in> span a 4 \<Longrightarrow> m' b = m b) \<Longrightarrow> get32 m' a = get32 m a"
  by (rule get32_cong) (auto simp: span_def)

lemma span_word: "j < n \<Longrightarrow> span (p + 4 * of_nat j) 4 \<subseteq> span p (4 * n)"
  using span_inside [of "4 * j" 4 "4 * n" p] by simp

lemma word_spans_apart: "span p 4 \<inter> span (p + 4) 4 = {}"
proof -
  have "False" if "i < 4" "j < 4" "p + of_nat i = p + 4 + of_nat j" for i j :: nat
  proof -
    have "(of_nat i :: u32) = of_nat (4 + j)" using that(3) by (simp add: add.assoc)
    then show False using of_nat_eq_u32 [of i "4 + j"] that(1,2) by simp
  qed
  then show ?thesis unfolding span_def by blast
qed

lemma write_bytes_eq: "m' a = m a \<Longrightarrow> write_bytes p xs m' a = write_bytes p xs m a"
proof (induction xs arbitrary: p m m')
  case (Cons x xs)
  then have "(m'(p := x)) a = (m(p := x)) a" by simp
  then show ?case using Cons.IH [where m = "m(p := x)" and m' = "m'(p := x)" and p = "p + 1"] by (simp only: write_bytes.simps)
qed simp

lemma arg_offset_inside:
  "i < length xss \<Longrightarrow> \<forall>xs \<in> set xss. length xs mod 4 \<noteq> 0 \<Longrightarrow> arg_offset xss i + length (xss ! i) < args_size xss"
proof (induction xss arbitrary: i)
  case (Cons xs xss)
  have "length xs < pad4 (length xs)" using Cons.prems(2) mod_less_divisor [of 4 "length xs"] by (simp add: pad4_def)
  with Cons show ?case by (cases i) auto
qed simp

text \<open>The rest of the table is not affected by a write outside it and its strings.\<close>

lemma arg_table_change:
  assumes t: "arg_table n argv ps xss m" and out: "\<And>a. a \<notin> S \<Longrightarrow> m' a = m a"
    and S: "list_all2 (\<lambda>p xs. S \<inter> span p (Suc (length xs)) = {}) ps xss" "S \<inter> span argv (4 * Suc (length ps)) = {}"
  shows "arg_table n argv ps xss m'"
proof -
  have "words_at (get32 m') argv (ps @ (if length ps < n then [0] else []))"
  proof (rule words_at_cong)
    show "words_at (get32 m) argv (ps @ (if length ps < n then [0] else []))" using t by (simp add: arg_table_def)
    fix i assume "i < length (ps @ (if length ps < n then [0] else []))"
    then have "i < Suc (length ps)" by (simp split: if_splits)
    then have "span (argv + 4 * of_nat i) 4 \<inter> S = {}" using span_word [of i "Suc (length ps)" argv] S(2) by blast
    then show "get32 m' (argv + 4 * of_nat i) = get32 m (argv + 4 * of_nat i)" using out by (intro get32_span) blast
  qed
  moreover have "list_all2 (\<lambda>p xs. p \<noteq> NULL \<and> cstr m p xs) ps xss" using t by (simp add: arg_table_def)
  then have "list_all2 (\<lambda>p xs. p \<noteq> NULL \<and> cstr m' p xs) ps xss" using S(1)
  proof (rule list_all2_conj_mono)
    fix q ys assume q: "q \<noteq> NULL \<and> cstr m q ys" "S \<inter> span q (Suc (length ys)) = {}"
    then have "m' a = m a" if "a \<in> span q (Suc (length ys))" for a using that out by blast
    from cstr_cong [OF this] q(1) show "q \<noteq> NULL \<and> cstr m' q ys" by simp
  qed
  ultimately show ?thesis using t by (simp add: arg_table_def)
qed

text \<open>One argument: its copy and its entry in the table, in a memory that changes nowhere else.\<close>

lemma copy_entry:
  assumes "Suc (length xs) < 2 ^ 32" "span lb (Suc (length xs)) \<inter> span tb 4 = {}" "0 \<notin> set xs"
    and m: "m1 = put32 tb ab (write_bytes lb (xs @ [0]) m)"
  shows "get32 m1 tb = ab" "cstr m1 lb xs" "\<And>a. a \<notin> span lb (Suc (length xs)) \<union> span tb 4 \<Longrightarrow> m1 a = m a"
proof -
  let ?m = "write_bytes lb (xs @ [0]) m"
  show "get32 m1 tb = ab" unfolding m by (rule put32_get)
  have "has_bytes ?m lb (xs @ [0])" using assms(1) by (intro has_bytes_write) simp
  then have "cstr ?m lb xs" using assms(3) by (simp add: cstr_def)
  moreover have "m1 a = ?m a" if "a \<in> span lb (Suc (length xs))" for a
    unfolding m using that assms(2) by (intro put32_other) blast
  ultimately show "cstr m1 lb xs" using cstr_cong [of lb xs m1 ?m] by blast
  show "m1 a = m a" if "a \<notin> span lb (Suc (length xs)) \<union> span tb 4" for a
    unfolding m using that put32_other [of a tb ab ?m] write_bytes_other [of a lb "xs @ [0]" m] by simp
qed

text \<open>Where the copies of the arguments \<open>xss\<close> and the \<open>n\<close> entries of the table are.\<close>

abbreviation arg_area :: "u32 \<Rightarrow> u32 \<Rightarrow> u8 list list \<Rightarrow> nat \<Rightarrow> u32 set" where
  "arg_area lb tb xss n \<equiv> span lb (args_size xss) \<union> span tb (4 * n)"

lemma copy_args_spec:
  assumes "arg_table n argv ps xss (bm s)" "ab AND 3 = 0" "lb AND 3 = 0"
    "unat ab + args_size xss + 4 < 2 ^ 32" "unat lb + args_size xss + 4 < 2 ^ 32" "lb \<noteq> NULL"
    "\<forall>xs \<in> set xss. length xs mod 4 \<noteq> 0"
    "list_all2 (\<lambda>p xs. arg_area lb tb xss (length ps) \<inter> span p (Suc (length xs)) = {}) ps xss"
    "arg_area lb tb xss (length ps) \<inter> span argv (4 * Suc (length ps)) = {}"
    "span lb (args_size xss) \<inter> span tb (4 * length ps) = {}" "unat tb + 4 * length ps + 4 < 2 ^ 32"
  shows "\<exists>s'. copy_args n argv ab lb tb s = Some s' \<and>
    (\<forall>i < length ps. get32 (bm s') (tb + 4 * of_nat i) = ab + of_nat (arg_offset xss i) \<and> cstr (bm s') (lb + of_nat (arg_offset xss i)) (xss ! i)) \<and>
    (\<forall>a. a \<notin> arg_area lb tb xss (length ps) \<longrightarrow> bm s' a = bm s a) \<and> s' = s\<lparr>bm := bm s'\<rparr>"
  using assms
proof (induction ps arbitrary: n argv xss s ab lb tb)
  case Nil
  then have xs: "xss = []" by (simp add: arg_table_def)
  show ?case
  proof (cases n)
    case (Suc n')
    then have "get32 (bm s) argv = 0" using Nil.prems(1) by (simp add: arg_table_def words_at_def)
    then show ?thesis using Suc xs by simp
  qed (simp add: xs)
next
  case (Cons p ps)
  obtain xs yss n' where x: "xss = xs # yss" "n = Suc n'" using Cons.prems(1) by (cases n; cases xss) (simp_all add: arg_table_def)
  let ?k = "pad4 (length xs)" and ?W = "arg_area lb tb xss (length (p # ps))"
  let ?V = "arg_area (lb + of_nat (pad4 (length xs))) (tb + 4) yss (length ps)" and ?S = "span lb (Suc (length xs)) \<union> span tb 4"
  have t: "get32 (bm s) argv = p" "p \<noteq> NULL" "cstr (bm s) p xs" "arg_table n' (argv + 4) ps yss (bm s)"
    using Cons.prems(1) by (auto simp: arg_table_def x words_at_Cons)
  have k: "Suc (length xs) \<le> ?k" using Cons.prems(7) mod_less_divisor [of 4 "length xs"] by (simp add: x pad4_def)
  have sz: "args_size xss = ?k + args_size yss" by (simp add: x)
  have lbS: "span lb (Suc (length xs)) \<subseteq> span lb (args_size xss)" using k sz by (intro span_mono) simp
  have lbV: "span (lb + of_nat ?k) (args_size yss) \<subseteq> span lb (args_size xss)" using sz by (intro span_inside) simp
  have tbS: "span tb 4 \<subseteq> span tb (4 * length (p # ps))" by (intro span_mono) simp
  have tbV: "span (tb + 4) (4 * length ps) \<subseteq> span tb (4 * length (p # ps))" using span_inside [of 4 "4 * length ps" "4 * length (p # ps)" tb] by simp
  have S: "?S \<subseteq> ?W" "?V \<subseteq> ?W" using lbS lbV tbS tbV by blast+
  have u: "unat (q + of_nat ?k) = unat q + ?k" if "unat q + args_size xss + 4 < 2 ^ 32" for q :: u32
  proof -
    have "?k < 2 ^ 32" using that sz by linarith
    then have "unat (of_nat ?k :: u32) = ?k" by (simp add: unat_of_nat_u32)
    then show ?thesis using that sz by (subst unat_add_u32) simp_all
  qed
  have ut: "unat (tb + 4) = unat tb + 4" using Cons.prems(11) by (subst unat_add_u32) simp_all
  have SV: "?S \<inter> ?V = {}"
  proof -
    have "span lb (Suc (length xs)) \<inter> span (lb + of_nat ?k) (args_size yss) = {}"
      using Cons.prems(5) k sz u [OF Cons.prems(5)] by (auto dest!: span_bounds)
    moreover have "span tb 4 \<inter> span (tb + 4) (4 * length ps) = {}" using Cons.prems(11) ut by (auto dest!: span_bounds)
    ultimately show ?thesis using Cons.prems(10) lbS lbV tbS tbV by blast
  qed
  define m1 where "m1 = put32 tb ab (write_bytes lb (xs @ [0]) (bm s))"
  have "span lb (Suc (length xs)) \<inter> span tb 4 = {}" using Cons.prems(10) lbS tbS by blast
  moreover have "Suc (length xs) < 2 ^ 32" "0 \<notin> set xs" using Cons.prems(5) k sz t(3) by (simp_all add: cstr_def)
  ultimately have e: "get32 m1 tb = ab" "cstr m1 lb xs" "\<And>a. a \<notin> ?S \<Longrightarrow> m1 a = bm s a"
    using copy_entry [OF _ _ _ m1_def] by blast+
  have "span lb (Suc (length xs)) \<inter> span p (Suc (length xs)) = {}" using Cons.prems(8) lbS by (auto simp: x)
  note cp = copy_one [OF t(3,2) Cons.prems(6) this]
  have nx: "baligin (ab + word_of_int (int (length xs))) 4 = ab + of_nat ?k" "baligin (lb + word_of_int (int (length xs))) 4 = lb + of_nat ?k"
    "(ab + of_nat ?k) AND 3 = 0" "(lb + of_nat ?k) AND 3 = 0"
    using next_arg [of ab "length xs"] next_arg [of lb "length xs"] Cons.prems(2-5) k sz by auto
  have far: "list_all2 (\<lambda>p xs. ?W \<inter> span p (Suc (length xs)) = {}) ps yss" using Cons.prems(8) by (simp add: x)
  have av: "span (argv + 4) (4 * Suc (length ps)) \<subseteq> span argv (4 * Suc (length (p # ps)))"
    using span_inside [of 4 "4 * Suc (length ps)" "4 * Suc (length (p # ps))" argv] by simp
  have tab: "arg_table n' (argv + 4) ps yss (bm (s\<lparr>bm := m1\<rparr>))"
  proof (rule arg_table_change [where S = ?W])
    show "arg_table n' (argv + 4) ps yss (bm s)" by (rule t(4))
    show "bm (s\<lparr>bm := m1\<rparr>) a = bm s a" if "a \<notin> ?W" for a using that S(1) e(3) by auto
    show "?W \<inter> span (argv + 4) (4 * Suc (length ps)) = {}" using av Cons.prems(9) by blast
  qed (rule far)
  have ih: "unat (ab + of_nat ?k) + args_size yss + 4 < 2 ^ 32" "unat (lb + of_nat ?k) + args_size yss + 4 < 2 ^ 32" "lb + of_nat ?k \<noteq> NULL"
    "\<forall>ys \<in> set yss. length ys mod 4 \<noteq> 0" "unat (tb + 4) + 4 * length ps + 4 < 2 ^ 32"
    using u [OF Cons.prems(4)] u [OF Cons.prems(5)] Cons.prems(4,5,7,11) sz x k ut by auto
  have apart: "list_all2 (\<lambda>p xs. ?V \<inter> span p (Suc (length xs)) = {}) ps yss" using far by (rule list_all2_mono) (use S(2) in blast)
  have apart2: "?V \<inter> span (argv + 4) (4 * Suc (length ps)) = {}" "span (lb + of_nat ?k) (args_size yss) \<inter> span (tb + 4) (4 * length ps) = {}"
    using S(2) av Cons.prems(9,10) lbV tbV by blast+
  obtain s' where s': "copy_args n' (argv + 4) (ab + of_nat ?k) (lb + of_nat ?k) (tb + 4) (s\<lparr>bm := m1\<rparr>) = Some s'"
    "\<And>i. i < length ps \<Longrightarrow> get32 (bm s') (tb + 4 + 4 * of_nat i) = ab + of_nat ?k + of_nat (arg_offset yss i) \<and>
       cstr (bm s') (lb + of_nat ?k + of_nat (arg_offset yss i)) (yss ! i)"
    "\<And>a. a \<notin> ?V \<Longrightarrow> bm s' a = m1 a" "s' = s\<lparr>bm := bm s'\<rparr>"
    using Cons.IH [OF tab nx(3,4) ih(1-4) apart apart2 ih(5)] by auto
  have run: "copy_args n argv ab lb tb s = Some s'" using copy_args_step [OF t(1,2) cp nx(1,2), of n' tb] s'(1) by (simp only: x(2) m1_def)
  have same: "bm s' a = m1 a" if "a \<in> ?S" for a using that SV by (intro s'(3)) blast
  have first: "get32 (bm s') tb = ab" "cstr (bm s') lb xs"
    using e(1,2) same get32_span [of tb "bm s'" m1] cstr_cong [of lb xs "bm s'" m1] by auto
  have all: "get32 (bm s') (tb + 4 * of_nat i) = ab + of_nat (arg_offset xss i) \<and> cstr (bm s') (lb + of_nat (arg_offset xss i)) (xss ! i)"
    if "i < length (p # ps)" for i
    using that first s'(2) [of "i - 1"] by (cases i) (simp_all add: x(1) algebra_simps)
  have "bm s' a = bm s a" if "a \<notin> ?W" for a
  proof -
    have "a \<notin> ?V" "a \<notin> ?S" using that S by blast+
    then show ?thesis using s'(3) e(3) by simp
  qed
  then show ?case using run all s'(4) by blast
qed

text \<open>
  C39. The arguments of a program, at most 16 and none of them of a length that is a multiple of four, which fit with the table of 64 bytes in
  a page: \<^verbatim>\<open>setup_task_argv\<close> returns 0 and leaves in the first page of the image, which the program sees at \<open>0x400000\<close>, a table of
  pointers; pointer \<open>i\<close> is the address, for the program, of a copy of argument \<open>i\<close> in that page.  No byte changes but
  those of the pointers, at the start of the page, and those of the copies from its byte 64 on, and nothing else of the state.  The array \<^verbatim>\<open>argv\<close> and the
  strings it points to are outside the page, and the copies do not overlap the table.
\<close>

theorem argv_copied:
  assumes rel: "list_rel (lists (tk s)) F" "F (N_elf_image_list t) = Some (N_page w # ns)" and b: "b = page_to_va (uint w) (sm (ss s))"
    and arg: "argv \<noteq> NULL" "arg_table 16 argv ps xss (bm s)" "\<forall>xs \<in> set xss. length xs mod 4 \<noteq> 0"
    and pos: "b AND 3 = 0" "unat b + 4096 + 4 < 2 ^ 32" "64 + args_size xss \<le> 4096"
    and sep: "list_all2 (\<lambda>p xs. span b 4096 \<inter> span p (Suc (length xs)) = {}) ps xss" "span b 4096 \<inter> span argv (4 * Suc (length ps)) = {}"
  shows "\<exists>s'. setup_task_argv t argv s = Some (0, s') \<and>
    (\<forall>i < length ps. \<exists>ptr. get32 (bm s') (b + 4 * of_nat i) = ptr \<and> unat (ptr - 0x400000) + length (xss ! i) < 4096 \<and>
      cstr (bm s') (b + (ptr - 0x400000)) (xss ! i)) \<and>
    (\<forall>a. a \<notin> span b (4 * length ps) \<union> span (b + 64) (args_size xss) \<longrightarrow> bm s' a = bm s a) \<and> s' = s\<lparr>bm := bm s'\<rparr>"
proof -
  have n: "length ps \<le> 16" "length xss = length ps" using arg(2) by (auto simp: arg_table_def dest: list_all2_lengthD)
  have ub: "unat (b + 64) = unat b + 64" using pos(2) by (subst unat_add_u32) simp_all
  have area: "span b (4 * length ps) \<subseteq> span b 4096" "span (b + 64) (args_size xss) \<subseteq> span b 4096"
    using span_mono [of "4 * length ps" 4096 b] span_inside [of 64 "args_size xss" 4096 b] n pos(3) by simp_all
  have dis: "span (b + 64) (args_size xss) \<inter> span b (4 * length ps) = {}"
    using ub pos(2,3) n(1) by (auto dest!: span_bounds)
  have "(b + 64) AND 3 = 0"
  proof -
    have "unat (b + 64) mod 4 = 0" using ub pos(1) unat_and3 [of b] by (simp add: mod_add_eq [symmetric])
    then show ?thesis using unat_and3 [of "b + 64"] by (simp add: unat_eq_0)
  qed
  moreover have "list_all2 (\<lambda>p xs. arg_area (b + 64) b xss (length ps) \<inter> span p (Suc (length xs)) = {}) ps xss"
    using sep(1) by (rule list_all2_mono) (use area in blast)
  moreover have "arg_area (b + 64) b xss (length ps) \<inter> span argv (4 * Suc (length ps)) = {}" using sep(2) area by blast
  moreover have "unat (b + 64) + args_size xss + 4 < 2 ^ 32" "b + 64 \<noteq> NULL" "unat b + 4 * length ps + 4 < 2 ^ 32"
    "unat (0x400040 :: u32) + args_size xss + 4 < 2 ^ 32" "(0x400040 :: u32) AND 3 = 0"
    using ub pos(2,3) n(1) by (auto simp: unat_eq_0 [symmetric] simp del: unat_eq_zero)
  ultimately obtain s' where s': "copy_args 16 argv 0x400040 (b + 64) b s = Some s'"
    "\<And>i. i < length ps \<Longrightarrow> get32 (bm s') (b + 4 * of_nat i) = 0x400040 + of_nat (arg_offset xss i) \<and> cstr (bm s') (b + 64 + of_nat (arg_offset xss i)) (xss ! i)"
    "\<And>a. a \<notin> arg_area (b + 64) b xss (length ps) \<Longrightarrow> bm s' a = bm s a" "s' = s\<lparr>bm := bm s'\<rparr>"
    using copy_args_spec [OF arg(2), of "0x400040" "b + 64" b] arg(3) dis by blast
  have "list_next (N_elf_image_list t) (lists (tk s)) = N_page w"
    using list_rel_dlist [OF rel] by (simp add: dlist_def list_next_def)
  then have run: "setup_task_argv t argv s = Some (0, s')" using s'(1) arg(1) b by (simp add: setup_task_argv_def Let_def)
  have ptr: "unat (0x400040 + of_nat (arg_offset xss i) - 0x400000 :: u32) + length (xss ! i) < 4096" if "i < length ps" for i
  proof -
    have "arg_offset xss i + length (xss ! i) < args_size xss" using that n(2) arg(3) by (intro arg_offset_inside) simp_all
    moreover from this have "unat (of_nat (64 + arg_offset xss i) :: u32) = 64 + arg_offset xss i" using pos(3) by (subst unat_of_nat_u32) simp
    ultimately show ?thesis using pos(3) by simp
  qed
  have "b + (0x400040 + of_nat k - 0x400000) = b + 64 + of_nat k" for k :: nat by (simp add: algebra_simps)
  then show ?thesis using run s'(2-4) ptr by (intro exI [of _ s']) (simp add: Un_commute add.assoc)
qed

text \<open>
  C40. When the first of two arguments has a length that is a multiple of four, the second one is copied over
  its final zero: the program finds both together as its first argument.  (The copies, the table and what they are copied from do not overlap.)
\<close>

theorem argv_runs_together:
  assumes a: "get32 (bm s) argv = p" "get32 (bm s) (argv + 4) = q" "get32 (bm s) (argv + 8) = 0" "p \<noteq> NULL" "q \<noteq> NULL"
      "cstr (bm s) p xs" "cstr (bm s) q ys"
    and len: "length xs mod 4 = 0" and pos: "ab AND 3 = 0" "lb AND 3 = 0" "unat ab + length xs + 4 < 2 ^ 32"
      "unat lb + length xs + length ys + 4 < 2 ^ 32" "lb \<noteq> NULL"
    and sep: "(span lb (length xs + Suc (length ys)) \<union> span tb 8) \<inter> (span p (Suc (length xs)) \<union> span q (Suc (length ys)) \<union> span argv 12) = {}"
      "span lb (length xs + Suc (length ys)) \<inter> span tb 8 = {}"
  shows "\<exists>s'. copy_args 16 argv ab lb tb s = Some s' \<and> get32 (bm s') tb = ab \<and> get32 (bm s') (tb + 4) = ab + of_nat (length xs) \<and>
    cstr (bm s') lb (xs @ ys)"
proof -
  let ?k = "length xs" and ?W = "span lb (length xs + Suc (length ys)) \<union> span tb 8"
  have pk: "pad4 ?k = ?k" using len by (simp add: pad4_def)
  have lb: "unat lb + ?k + 4 < 2 ^ 32" using pos(4) by simp
  have "unat (of_nat ?k :: u32) = ?k" using lb by (simp add: unat_of_nat_u32)
  then have "unat (lb + of_nat ?k) = unat lb + ?k" using lb by (subst unat_add_u32) simp_all
  then have nn: "lb + of_nat ?k \<noteq> NULL" using pos(5) by (auto simp: unat_eq_0)
  have nx: "baligin (ab + word_of_int (int ?k)) 4 = ab + of_nat ?k" "baligin (lb + word_of_int (int ?k)) 4 = lb + of_nat ?k"
    using next_arg(1) [OF pos(1,3)] next_arg(1) [OF pos(2) lb] by (simp_all add: pk)
  have sub: "span lb (Suc ?k) \<subseteq> span lb (?k + Suc (length ys))" "span (lb + of_nat ?k) (Suc (length ys)) \<subseteq> span lb (?k + Suc (length ys))"
    "span tb 4 \<subseteq> span tb 8" "span (tb + 4) 4 \<subseteq> span tb 8" "span (argv + 4) 4 \<subseteq> span argv 12" "span (argv + 8) 4 \<subseteq> span argv 12"
    using span_mono [of "Suc ?k" "?k + Suc (length ys)" lb] span_inside [of ?k "Suc (length ys)" "?k + Suc (length ys)" lb]
      span_mono [of 4 8 tb] span_inside [of 4 4 8 tb] span_inside [of 4 4 12 argv] span_inside [of 8 4 12 argv] by simp_all
  let ?x = "write_bytes lb (xs @ [0]) (bm s)"
  let ?m1 = "put32 tb ab ?x"
  have o1: "?m1 c = bm s c" if "c \<notin> ?W" for c
  proof -
    have "c \<notin> span tb 4" "c \<notin> span lb (length (xs @ [0]))" using that sub(1,3) by auto
    then show ?thesis using put32_other [of c tb ab ?x] write_bytes_other [of c lb "xs @ [0]" "bm s"] by simp
  qed
  have c1: "strlen p (bm s) = Some (int ?k)" "strcpy lb p (bm s) = Some (lb, ?x)" using copy_one [OF a(6,4) pos(5)] sub(1) sep(1) by blast+
  have q: "cstr ?m1 q ys" using cstr_cong [of q ys ?m1 "bm s"] a(7) o1 sep(1) by blast
  have a1: "get32 ?m1 (argv + 4) = q" using get32_span [of "argv + 4" ?m1 "bm s"] o1 sep(1) sub(5) a(2) by blast
  let ?y = "write_bytes (lb + of_nat ?k) (ys @ [0]) ?m1"
  let ?m2 = "put32 (tb + 4) (ab + of_nat ?k) ?y"
  have o2: "?m2 c = bm s c" if "c \<notin> ?W" for c
  proof -
    have "c \<notin> span (tb + 4) 4" "c \<notin> span (lb + of_nat ?k) (length (ys @ [0]))" using that sub(2,4) by auto
    then show ?thesis
      using o1 [OF that] put32_other [of c "tb + 4" "ab + of_nat ?k" ?y] write_bytes_other [of c "lb + of_nat ?k" "ys @ [0]" ?m1] by simp
  qed
  have c2: "strlen q ?m1 = Some (int (length ys))" "strcpy (lb + of_nat ?k) q ?m1 = Some (lb + of_nat ?k, ?y)"
  proof -
    have "span (lb + of_nat ?k) (Suc (length ys)) \<inter> span q (Suc (length ys)) = {}" using sub(2) sep(1) by blast
    note c = copy_one [OF q a(5) nn this]
    show "strlen q ?m1 = Some (int (length ys))" by (rule c(1))
    show "strcpy (lb + of_nat ?k) q ?m1 = Some (lb + of_nat ?k, ?y)" by (rule c(2))
  qed
  have "span (argv + 8) 4 \<inter> ?W = {}" using sep(1) sub(6) by blast
  then have "get32 ?m2 (argv + 8) = get32 (bm s) (argv + 8)" using o2 by (intro get32_span) blast
  then have a2: "get32 ?m2 (argv + 8) = 0" using a(3) by (rule trans)
  let ?s1 = "s\<lparr>bm := ?m1\<rparr>" and ?s2 = "s\<lparr>bm := ?m2\<rparr>"
  have "copy_args (Suc 15) argv ab lb tb s = copy_args 15 (argv + 4) (ab + of_nat ?k) (lb + of_nat ?k) (tb + 4) ?s1"
    by (rule copy_args_step [OF a(1,4) c1 nx])
  moreover have "copy_args (Suc 14) (argv + 4) (ab + of_nat ?k) (lb + of_nat ?k) (tb + 4) ?s1 =
      copy_args 14 (argv + 4 + 4) (baligin (ab + of_nat ?k + word_of_int (int (length ys))) 4) (baligin (lb + of_nat ?k + word_of_int (int (length ys))) 4) (tb + 4 + 4) ?s2"
    using copy_args_step [of ?s1 "argv + 4" q "int (length ys)" "lb + of_nat ?k" "lb + of_nat ?k" ?y "ab + of_nat ?k" _ _ 14 "tb + 4", OF _ a(5) _ _ refl refl] a1 c2
    by (simp del: copy_args.simps)
  moreover have "copy_args (Suc 13) (argv + 4 + 4) x y z ?s2 = Some ?s2" for x y z
    using a2 by (intro copy_args_stop) (simp add: add.assoc)
  ultimately have run: "copy_args 16 argv ab lb tb s = Some ?s2" by (simp del: copy_args.simps)
  have w: "write_bytes (lb + of_nat ?k) (ys @ [0]) ?x = write_bytes lb (xs @ ys @ [0]) (bm s)"
    by (cases ys) (simp_all add: write_bytes_append)
  have hb: "has_bytes (write_bytes lb (xs @ ys @ [0]) (bm s)) lb ((xs @ ys) @ [0])" using has_bytes_write [of "xs @ ys @ [0]" lb "bm s"] pos(4) by simp
  have m2: "?m2 c = write_bytes lb (xs @ ys @ [0]) (bm s) c" if c: "c \<in> span lb (?k + Suc (length ys))" for c
  proof -
    have no: "c \<notin> span tb 4" "c \<notin> span (tb + 4) 4" using c sep(2) sub(3,4) by blast+
    have "?m2 c = ?y c" using no(2) by (rule put32_other)
    also have "\<dots> = write_bytes (lb + of_nat ?k) (ys @ [0]) ?x c"
      by (rule write_bytes_eq) (rule put32_other [OF no(1)])
    finally show ?thesis unfolding w .
  qed
  have "cstr ?m2 lb (xs @ ys)"
    using has_bytes_cong [of lb "(xs @ ys) @ [0]" ?m2 "write_bytes lb (xs @ ys @ [0]) (bm s)"] m2 hb a(6,7) by (simp add: cstr_def del: has_bytes.simps)
  moreover have "get32 ?m2 (tb + 4) = ab + of_nat ?k" by (rule put32_get)
  moreover have "get32 ?m2 tb = ab"
  proof -
    have "?m2 c = ?m1 c" if "c \<in> span tb 4" for c
    proof -
      have "c \<notin> span (lb + of_nat ?k) (length (ys @ [0]))" using that sub(2,3) sep(2) by auto
      moreover have "c \<notin> span (tb + 4) 4" using that word_spans_apart by blast
      ultimately show ?thesis using put32_other [of c "tb + 4" "ab + of_nat ?k" ?y] write_bytes_other [of c "lb + of_nat ?k" "ys @ [0]" ?m1] by simp
    qed
    then have "get32 ?m2 tb = get32 ?m1 tb" by (rule get32_span)
    then show ?thesis by (simp add: put32_get)
  qed
  ultimately show ?thesis using run by (intro exI [of _ ?s2]) simp
qed

section \<open>Instances\<close>

text \<open>The task of the instance of the loader, called with two arguments, whose pointers are at \<open>0xc0300000\<close>.\<close>

definition argv_strings :: "u8 list \<Rightarrow> mem" where
  "argv_strings xs = write_bytes 0xc0300100 (xs @ [0]) (write_bytes 0xc0300200 [97, 98, 99, 0] (\<lambda>_. 1))"

definition argv_demo :: "u8 list \<Rightarrow> tstate" where
  "argv_demo xs = (et image_demo)\<lparr>bm := put32 0xc0300000 0xc0300100 (put32 0xc0300004 0xc0300200 (put32 0xc0300008 0 (argv_strings xs)))\<rparr>"

lemma argv_demo_other: "a \<notin> span 0xc0300000 12 \<Longrightarrow> bm (argv_demo xs) a = argv_strings xs a"
proof -
  assume "a \<notin> span 0xc0300000 12"
  then have "a \<notin> span 0xc0300000 4" "a \<notin> span 0xc0300004 4" "a \<notin> span 0xc0300008 4"
    using span_inside [of 4 4 12 "0xc0300000"] span_inside [of 8 4 12 "0xc0300000"] span_mono [of 4 12 "0xc0300000"] by auto
  then show ?thesis by (simp add: argv_demo_def put32_other)
qed

lemma argv_demo_strings:
  assumes "length xs < 16" "0 \<notin> set xs"
  shows "cstr (bm (argv_demo xs)) 0xc0300100 xs" "cstr (bm (argv_demo xs)) 0xc0300200 [97, 98, 99]"
proof -
  let ?m = "write_bytes 0xc0300200 [97, 98, 99, 0] (\<lambda>_. 1)"
  have "has_bytes (argv_strings xs) 0xc0300100 (xs @ [0])" unfolding argv_strings_def using assms(1) by (intro has_bytes_write) simp
  then have x: "cstr (argv_strings xs) 0xc0300100 xs" using assms(2) by (simp add: cstr_def)
  have "a \<notin> span 0xc0300000 12" if "a \<in> span 0xc0300100 (Suc (length xs))" for a using that assms(1) by (auto dest!: span_bounds)
  then show "cstr (bm (argv_demo xs)) 0xc0300100 xs"
    using x argv_demo_other cstr_cong [of "0xc0300100" xs "bm (argv_demo xs)" "argv_strings xs"] by blast
  have d: "a \<notin> span 0xc0300100 (length (xs @ [0]))" if "a \<in> span 0xc0300200 (length [97, 98, 99, 0 :: u8])" for a
    using that assms(1) by (auto dest!: span_bounds)
  have "has_bytes ?m 0xc0300200 [97, 98, 99, 0]" by (rule has_bytes_write) simp
  then have "has_bytes (argv_strings xs) 0xc0300200 [97, 98, 99, 0]"
    using has_bytes_cong [of "0xc0300200" "[97, 98, 99, 0]" "argv_strings xs" ?m] d write_bytes_other [of _ "0xc0300100" "xs @ [0]"]
    by (simp add: argv_strings_def del: has_bytes.simps)
  then have y: "cstr (argv_strings xs) 0xc0300200 [97, 98, 99]" by (simp add: cstr_def)
  have "a \<notin> span 0xc0300000 12" if "a \<in> span 0xc0300200 (Suc (length [97, 98, 99 :: u8]))" for a using that by (auto dest!: span_bounds)
  then show "cstr (bm (argv_demo xs)) 0xc0300200 [97, 98, 99]"
    using y argv_demo_other cstr_cong [of "0xc0300200" "[97, 98, 99]" "bm (argv_demo xs)" "argv_strings xs"] by blast
qed

lemma get32_put32_other: "span a 4 \<inter> span p 4 = {} \<Longrightarrow> get32 (put32 p w m) a = get32 m a"
  by (rule get32_span) (auto intro: put32_other)

lemma argv_demo_pointers:
  "get32 (bm (argv_demo xs)) 0xc0300000 = 0xc0300100" "get32 (bm (argv_demo xs)) 0xc0300004 = 0xc0300200" "get32 (bm (argv_demo xs)) 0xc0300008 = 0"
proof -
  have d: "span 0xc0300004 4 \<inter> span 0xc0300000 4 = {}" "span 0xc0300008 4 \<inter> span 0xc0300000 4 = {}" "span 0xc0300008 4 \<inter> span 0xc0300004 4 = {}"
    by (auto dest!: span_bounds)
  show "get32 (bm (argv_demo xs)) 0xc0300000 = 0xc0300100" "get32 (bm (argv_demo xs)) 0xc0300004 = 0xc0300200" "get32 (bm (argv_demo xs)) 0xc0300008 = 0"
    by (simp_all add: argv_demo_def put32_get get32_put32_other d)
qed

theorem argv_copied_witness:
  "\<exists>s'. setup_task_argv 0x5000 0xc0300000 (argv_demo [108, 115]) = Some (0, s') \<and>
    (\<exists>ptr. get32 (bm s') 0xc0005004 = ptr \<and> cstr (bm s') (0xc0005000 + (ptr - 0x400000)) [97, 98, 99])"
proof -
  let ?s = "argv_demo [108, 115]" and ?xss = "[[108, 115], [97, 98, 99]] :: u8 list list" and ?ps = "[0xc0300100, 0xc0300200] :: u32 list"
  let ?F = "demo_F(N_elf_image_list 0x5000 \<mapsto> [N_page 5, N_page 6])"
  have "list_rel (lists (tk (et image_demo))) ?F" using image_demo_loadable [of "0xc0300080"] by (simp add: loadable_def Let_def)
  then have rel: "list_rel (lists (tk ?s)) ?F" by (simp add: argv_demo_def)
  have b: "0xc0005000 = page_to_va (uint (5 :: u32)) (sm (ss ?s))"
    by (simp add: argv_demo_def image_demo_def Let_def machine_def page_to_va_def page_id_to_va_def page_to_page_id_def)
  have tab: "arg_table 16 0xc0300000 ?ps ?xss (bm ?s)"
    using argv_demo_strings [of "[108, 115]"] argv_demo_pointers [of "[108, 115]"] by (simp add: arg_table_def words_at_Cons words_at_Nil)
  have sz: "args_size ?xss = 8" by (simp add: args_size_def pad4_def)
  have sep: "list_all2 (\<lambda>p xs. span 0xc0005000 4096 \<inter> span p (Suc (length xs)) = {}) ?ps ?xss"
    "span 0xc0005000 4096 \<inter> span 0xc0300000 (4 * Suc (length ?ps)) = {}"
    by (auto dest!: span_bounds)
  have F: "?F (N_elf_image_list 0x5000) = Some (N_page 5 # [N_page 6])" by simp
  show ?thesis
    using argv_copied [OF rel F b _ tab _ _ _ _ sep] sz by (auto dest!: spec [of _ "Suc 0"])
qed

theorem argv_runs_together_witness:
  "\<exists>s'. copy_args 16 0xc0300000 0x400040 0xc0005040 0xc0005000 (argv_demo [105, 110, 105, 116]) = Some s' \<and> get32 (bm s') 0xc0005000 = 0x400040 \<and>
    cstr (bm s') 0xc0005040 [105, 110, 105, 116, 97, 98, 99]"
proof -
  let ?s = "argv_demo [105, 110, 105, 116]" and ?xs = "[105, 110, 105, 116 :: u8]" and ?ys = "[97, 98, 99 :: u8]"
  have len: "length ?xs = 4" "length ?ys = 3" by simp_all
  have "(span 0xc0005040 (length ?xs + Suc (length ?ys)) \<union> span 0xc0005000 8) \<inter>
      (span 0xc0300100 (Suc (length ?xs)) \<union> span 0xc0300200 (Suc (length ?ys)) \<union> span 0xc0300000 12) = {}"
    "span 0xc0005040 (length ?xs + Suc (length ?ys)) \<inter> span 0xc0005000 8 = {}"
    unfolding len by (auto dest!: span_bounds)
  moreover note argv_demo_pointers [of ?xs]
  ultimately show ?thesis
    using argv_runs_together [of ?s "0xc0300000" "0xc0300100" "0xc0300200" ?xs ?ys "0x400040" "0xc0005040" "0xc0005000"]
      argv_demo_strings [of ?xs] by auto
qed

end
