(* ===== verification/Irq.thy ===== *)
theory Irq
  imports Task Platform
begin

text \<open>
  Interrupts as the processor takes them: the entry and exit of an interrupt (\<^verbatim>\<open>irq\<close> in
  \<^verbatim>\<open>arch/arm/machine/entry.S\<close>), the two assembly routines that switch tasks (\<^verbatim>\<open>arch_switch_task_sw\<close> and
  \<^verbatim>\<open>os_exit_irq\<close> in \<^verbatim>\<open>arch/arm/machine/arm920t_s.S\<close>) as a whole, and the stacks and vectors of the
  exceptions (\<^verbatim>\<open>arch/arm/machine/arm920t_c.c\<close>).

  The stacks that the C functions use while they run are not part of the memory.
\<close>

abbreviation (input) IRQ_MODE :: u32 where "IRQ_MODE \<equiv> 0x12"
abbreviation (input) ABORT_MODE :: u32 where "ABORT_MODE \<equiv> 0x17"
abbreviation (input) UNDEF_MODE :: u32 where "UNDEF_MODE \<equiv> 0x1b"

section \<open>Entry and exit of an interrupt\<close>

text \<open>What the processor does when it takes an interrupt.\<close>

definition take_irq :: "cpu \<Rightarrow> cpu" where
  "take_irq c = c\<lparr>c_lr_irq := c_pc c + 4, c_spsr_irq := c_cpsr c, c_cpsr := IRQ_MODE OR 0x80\<rparr>"

text \<open>\<^verbatim>\<open>user_to_irq\<close> and \<^verbatim>\<open>svc_to_irq\<close>: \<^verbatim>\<open>r2\<close>, \<^verbatim>\<open>r3\<close> and \<^verbatim>\<open>r4\<close> become the status, link register and stack pointer of the mode.\<close>

definition user_to_irq :: "cpu \<Rightarrow> u32 \<times> u32 \<times> u32" where
  "user_to_irq c = (0, c_lr_usr c, c_sp_usr c)"

definition svc_to_irq :: "cpu \<Rightarrow> u32 \<times> u32 \<times> u32" where
  "svc_to_irq c = (c_spsr c, c_lr c, c_sp c)"

text \<open>\<^verbatim>\<open>irq\<close> up to the call of \<^verbatim>\<open>irq_handler\<close>: the stack pointer of the supervisor mode afterwards, and the memory.\<close>

definition irq_enter :: "cpu \<Rightarrow> wmem \<Rightarrow> u32 \<times> wmem" where
  "irq_enter c m =
     (let q = c_sp_irq c;
          lr = c_lr_irq c - 4;
          m = m(q - 4 := lr);
          m = m(q - 8 := c_spsr_irq c);
          m = m(q - 12 := c_gen c ! 0);
          m = m(q - 16 := c_gen c ! 1);
          m = m(q - 20 := c_gen c ! 2);
          m = m(q - 24 := c_gen c ! 3);
          m = m(q - 28 := c_gen c ! 4);
          mode = c_spsr_irq c AND MODE_MASK;
          (r2, r3, r4) = (if mode = USER_MODE then user_to_irq c else (c_gen c ! 2, c_gen c ! 3, c_gen c ! 4));
          (r2, r3, r4) = (if mode = SVC_MODE then svc_to_irq c else (r2, r3, r4));
          sp = c_sp c - 20;
          (sp, m) = push_words (rev (drop 5 (c_gen c))) sp m;
          (sp, m) = push_words [m (q - 28), m (q - 24), m (q - 20), m (q - 16), m (q - 12)] sp m;
          m = m(sp + 68 := m (q - 4));
          m = m(sp + 64 := m (q - 8));
          m = m(sp + 60 := r4);
          m = m(sp + 56 := r3);
          m = m(sp + 52 := r2)
      in (sp, m))"

definition exit_irq_from_user :: "u32 \<Rightarrow> wmem \<Rightarrow> cpu \<Rightarrow> cpu" where
  "exit_irq_from_user r0 m c = c\<lparr>c_sp_usr := m (r0 + 60), c_lr_usr := m (r0 + 56), c_sp := r0 + 72\<rparr>"

definition exit_irq_from_svc :: "u32 \<Rightarrow> wmem \<Rightarrow> cpu \<Rightarrow> cpu" where
  "exit_irq_from_svc r0 m c = c\<lparr>c_sp := r0 + 72, c_lr := m (r0 + 56), c_spsr := m (r0 + 52)\<rparr>"

text \<open>The end of \<^verbatim>\<open>irq\<close>, with the address of the saved registers in \<open>r0\<close>.\<close>

definition irq_leave :: "u32 \<Rightarrow> wmem \<Rightarrow> cpu \<Rightarrow> cpu" where
  "irq_leave r0 m c =
     (let mode = m (r0 + 64) AND MODE_MASK;
          c = (if mode = USER_MODE then exit_irq_from_user r0 m c else c);
          c = (if mode = SVC_MODE then exit_irq_from_svc r0 m c else c);
          c = c\<lparr>c_spsr_irq := m (r0 + 64)\<rparr>;
          lr = r0;
          c = c\<lparr>c_gen := map (\<lambda>i. m (lr + 4 * of_nat i)) [0..<13]\<rparr>;
          lr = lr + 52;
          lr = lr + 16
      in c\<lparr>c_pc := m lr, c_lr_irq := lr + 4, c_cpsr := c_spsr_irq c\<rparr>)"

section \<open>The two switches of tasks\<close>

text \<open>\<^verbatim>\<open>arch_switch_task_sw\<close>, called by \<^verbatim>\<open>sched\<close>.\<close>

definition switch_task_sw :: "cpu \<Rightarrow> tstate \<Rightarrow> (cpu \<times> tstate) option" where
  "switch_task_sw c s = do {
     let (sp, m) = sw_save c (wm s);
     let s = s\<lparr>wm := m\<rparr>;
     (_, s) \<leftarrow> switch_task (current (tk s)) (next_run (tk s)) s;
     let s = on_k (upd_task (current (tk s)) (\<lambda>ts. ts\<lparr>stack_base := sp\<rparr>)) s;
     let s = on_k (\<lambda>k. k\<lparr>current := next_run k\<rparr>) s;
     Some (sw_load (stack_base (task (tk s) (current (tk s)))) (wm s) c, s)
   }"

text \<open>\<^verbatim>\<open>os_exit_irq\<close>: \<open>sp\<close> is the stack pointer of the supervisor mode; the result is the address of the registers to load.\<close>

definition exit_irq_switch :: "u32 \<Rightarrow> tstate \<Rightarrow> (u32 \<times> tstate) option" where
  "exit_irq_switch sp s =
     (if current (tk s) = next_run (tk s) then Some (sp, s)
      else do {
        let s = on_k (upd_task (current (tk s)) (\<lambda>ts. ts\<lparr>stack_base := sp\<rparr>)) s;
        (_, s) \<leftarrow> switch_task (current (tk s)) (next_run (tk s)) s;
        let s = on_k (\<lambda>k. k\<lparr>current := next_run k\<rparr>) s;
        Some (stack_base (task (tk s) (current (tk s))), s)
      })"

text \<open>A whole interrupt: the registers of the devices and the table of handlers are in \<open>hw\<close>, whose memory is that of the tasks.\<close>

record istate =
  it :: tstate
  hw :: pstate

definition hw_op :: "(pstate \<Rightarrow> ('a \<times> pstate) option) \<Rightarrow> istate \<Rightarrow> ('a \<times> istate) option" where
  "hw_op f s = do {
     (r, p) \<leftarrow> f ((hw s)\<lparr>ms := sm (ss (it s))\<rparr>);
     Some (r, s\<lparr>hw := p, it := (it s)\<lparr>ss := (ss (it s))\<lparr>sm := ms p\<rparr>\<rparr>\<rparr>)
   }"

definition irq :: "device \<Rightarrow> fcall \<Rightarrow> cpu \<Rightarrow> istate \<Rightarrow> (cpu \<times> istate) option" where
  "irq dev call c s = do {
     let (sp, m) = irq_enter c (wm (it s));
     let s = s\<lparr>it := (it s)\<lparr>wm := m\<rparr>\<rparr>;
     (_, s) \<leftarrow> hw_op (\<lambda>p. do { p \<leftarrow> irq_handler dev call p; Some ((), p) }) s;
     (r0, t) \<leftarrow> exit_irq_switch sp (it s);
     Some (irq_leave r0 (wm t) (c\<lparr>c_sp := sp\<rparr>), s\<lparr>it := t\<rparr>)
   }"

section \<open>Exceptions\<close>

text \<open>\<^verbatim>\<open>arch_set_mode_stack\<close> for the three modes it is called with.\<close>

definition arch_set_mode_stack :: "u32 \<Rightarrow> u32 \<Rightarrow> cpu \<Rightarrow> cpu option" where
  "arch_set_mode_stack base mode c =
     (if mode = IRQ_MODE then Some (c\<lparr>c_sp_irq := base\<rparr>)
      else if mode = ABORT_MODE then Some (c\<lparr>c_sp_abt := base\<rparr>)
      else if mode = UNDEF_MODE then Some (c\<lparr>c_sp_und := base\<rparr>)
      else None)"

abbreviation (input) MODE_STACK_SIZE :: u32 where "MODE_STACK_SIZE \<equiv> 0x1000"

definition arch_init_exception_stack :: "cpu \<Rightarrow> mstate \<Rightarrow> ((int \<times> cpu) option \<times> mstate) option" where
  "arch_init_exception_stack c s = do {
     (r, s) \<leftarrow> get_free_pages (3 * uint (page_nr MODE_STACK_SIZE)) GFP_KERNEL s;
     case r of
       None \<Rightarrow> Some (None, s)
     | Some base \<Rightarrow>
         if base = 0 then Some (Some (- ENOMEM, c), s)
         else do {
           let base = base + MODE_STACK_SIZE;
           c \<leftarrow> arch_set_mode_stack base IRQ_MODE c;
           let base = base + MODE_STACK_SIZE;
           c \<leftarrow> arch_set_mode_stack base ABORT_MODE c;
           let base = base + MODE_STACK_SIZE;
           c \<leftarrow> arch_set_mode_stack base UNDEF_MODE c;
           Some (Some (0, c), s)
         }
   }"

definition arm920t_remap_vector :: "cpu \<Rightarrow> cpu" where
  "arm920t_remap_vector c = c\<lparr>c_control := c_control c OR push_bit 13 1\<rparr>"

text \<open>\<^verbatim>\<open>trap_init\<close>; \<open>vector_start\<close> and \<open>vector_end\<close> are the addresses of the code of the vectors.\<close>

definition trap_init :: "u32 \<Rightarrow> u32 \<Rightarrow> cpu \<Rightarrow> (int \<times> cpu, tstate) kop" where
  "trap_init vector_start vector_end c =
     kthen (slab_op (mm_op (get_free_page_aligin 0xffff0000 GFP_KERNEL))) (\<lambda>vector_page.
     if vector_page = NULL then kret (- ENOMEM, c)
     else kthen (kdo (\<lambda>s. s\<lparr>bm := memcpy vector_page vector_start (vector_end - vector_start) (bm s)\<rparr>)) (\<lambda>_.
          kthen (kmod (\<lambda>s. do {
            pa \<leftarrow> va_to_pa vector_page (sm (ss s));
            (_, w) \<leftarrow> build_tlb_table_entry 0xfff00000 (pa AND 0xfff00000) SIZE_1M TLB_ATTR_KERNEL_MEMORY (wm s);
            Some (s\<lparr>wm := w\<rparr>)
          })) (\<lambda>_. kret (0, arm920t_remap_vector c))))"

end
