(* ===== verification/IrqProps.thy ===== *)
theory IrqProps
  imports Irq TaskProps RamdiskProps PlatformProps
begin

text \<open>
  An interrupted task goes on with the registers it had; a task that gave up the processor by \<^verbatim>\<open>sched\<close> can be
  resumed by an interrupt, and the other way round.
\<close>

section \<open>Paths of a context\<close>

text \<open>
  What a way of saving a context promises: 18 words below the stack pointer of the supervisor mode.
  \<open>ctx c sp\<close> are the registers that are to be loaded again.
\<close>

locale context_save =
  fixes save :: "cpu \<Rightarrow> wmem \<Rightarrow> u32 \<times> wmem"
    and ctx :: "cpu \<Rightarrow> u32 \<Rightarrow> pt_regs"
    and ok :: "cpu \<Rightarrow> bool"
  assumes saved: "ok c \<Longrightarrow> save c m = (sp, m') \<Longrightarrow> sp + 72 = c_sp c \<and> words_at m' sp (frame_words (ctx c sp))"
    and len: "ok c \<Longrightarrow> length (r_gen (ctx c sp)) = 13"

text \<open>
  What a way of loading one promises: the registers of the frame \<open>r\<close>, and above it the end of the stack.  \<open>x\<close> is the saved
  program status in the supervisor mode, in which the two ways differ.
\<close>

definition loaded :: "u32 \<Rightarrow> pt_regs \<Rightarrow> u32 \<Rightarrow> cpu \<Rightarrow> bool" where
  "loaded x r sp d \<longleftrightarrow> c_gen d = r_gen r \<and> c_pc d = r_pc r \<and> c_cpsr d = r_cpsr r \<and> c_sp d = sp \<and>
     (r_cpsr r AND MODE_MASK = USER_MODE \<longrightarrow> c_sp_usr d = r_sp r \<and> c_lr_usr d = r_lr r) \<and>
     (r_cpsr r AND MODE_MASK = SVC_MODE \<longrightarrow> c_lr d = r_lr r \<and> c_spsr d = x)"

locale context_load =
  fixes load :: "u32 \<Rightarrow> wmem \<Rightarrow> cpu \<Rightarrow> cpu" and saved_psr :: "pt_regs \<Rightarrow> u32"
  assumes load: "words_at m sp (frame_words r) \<Longrightarrow> length (r_gen r) = 13 \<Longrightarrow> r_cpsr r AND MODE_MASK \<in> {USER_MODE, SVC_MODE} \<Longrightarrow>
    loaded (saved_psr r) r (sp + 72) (load sp m c)"

locale context_switch = context_save + context_load
begin

lemma resumes:
  assumes "ok c" "save c m = (sp, m1)" "r_cpsr (ctx c sp) AND MODE_MASK \<in> {USER_MODE, SVC_MODE}"
    and same: "\<And>i. i < 18 \<Longrightarrow> m2 (sp + 4 * of_nat i) = m1 (sp + 4 * of_nat i)"
  shows "loaded (saved_psr (ctx c sp)) (ctx c sp) (c_sp c) (load sp m2 e)"
proof -
  have s: "sp + 72 = c_sp c" "words_at m1 sp (frame_words (ctx c sp))" using saved [OF assms(1,2)] by simp_all
  have l: "length (r_gen (ctx c sp)) = 13" by (rule len [OF assms(1)])
  have "words_at m2 sp (frame_words (ctx c sp))"
    by (rule words_at_cong [OF _ s(2)]) (use same l in \<open>simp add: frame_words_def\<close>)
  from load [OF this l assms(3), of e] s(1) show ?thesis by simp
qed

end

section \<open>The two ways to load\<close>

lemma frame_at:
  assumes "words_at m sp (frame_words r)" "length (r_gen r) = 13"
  shows "m (sp + 52) = r_spsr r" "m (sp + 56) = r_lr r" "m (sp + 60) = r_sp r" "m (sp + 64) = r_cpsr r" "m (sp + 68) = r_pc r"
    "map (\<lambda>i. m (sp + 4 * of_nat i)) [0..<13] = r_gen r"
proof -
  have "words_at m sp (r_gen r)" using assms by (simp add: frame_words_def words_at_append)
  then show "map (\<lambda>i. m (sp + 4 * of_nat i)) [0..<13] = r_gen r"
    using assms(2) by (intro nth_equalityI) (auto simp: words_at_def)
  show "m (sp + 52) = r_spsr r" "m (sp + 56) = r_lr r" "m (sp + 60) = r_sp r" "m (sp + 64) = r_cpsr r" "m (sp + 68) = r_pc r"
    using assms by (simp_all add: frame_words_def words_at_append words_at_Cons add.assoc)
qed

text \<open>\<^verbatim>\<open>arch_switch_task_sw\<close> writes the saved program status of the frame and then the status over it.\<close>

interpretation sw_in: context_load sw_load r_cpsr
proof unfold_locales
  fix m sp r c
  assume w: "words_at m sp (frame_words r)" "length (r_gen r) = 13"
  have "c_spsr (sw_load sp m c) = r_cpsr r" using frame_at(4) [OF w] by (simp add: sw_load_def Let_def)
  then show "loaded (r_cpsr r) r (sp + 72) (sw_load sp m c)" using sw_load_frame [OF w] by (simp add: loaded_def)
qed

lemma irq_leave_eq:
  assumes "words_at m sp (frame_words r)" "length (r_gen r) = 13"
  shows "irq_leave sp m c =
    (if r_cpsr r AND MODE_MASK = USER_MODE then c\<lparr>c_sp_usr := r_sp r, c_lr_usr := r_lr r, c_sp := sp + 72\<rparr>
     else if r_cpsr r AND MODE_MASK = SVC_MODE then c\<lparr>c_sp := sp + 72, c_lr := r_lr r, c_spsr := r_spsr r\<rparr> else c)
    \<lparr>c_spsr_irq := r_cpsr r, c_gen := r_gen r, c_pc := r_pc r, c_lr_irq := sp + 72, c_cpsr := r_cpsr r\<rparr>"
proof -
  note f = frame_at [OF assms]
  show ?thesis unfolding irq_leave_def Let_def f(6) exit_irq_from_user_def exit_irq_from_svc_def by (simp add: f add.assoc)
qed

interpretation irq_out: context_load irq_leave r_spsr
proof unfold_locales
  fix m sp r c
  assume w: "words_at m sp (frame_words r)" "length (r_gen r) = 13" and md: "r_cpsr r AND MODE_MASK \<in> {USER_MODE, SVC_MODE}"
  show "loaded (r_spsr r) r (sp + 72) (irq_leave sp m c)"
    using md unfolding irq_leave_eq [OF w] loaded_def by auto
qed

section \<open>The two ways to save\<close>

definition sw_ctx :: "cpu \<Rightarrow> u32 \<Rightarrow> pt_regs" where
  "sw_ctx c sp = \<lparr>r_gen = c_gen c, r_spsr = c_spsr c, r_lr = c_lr c, r_sp = sp - 72, r_cpsr = c_cpsr c, r_pc = c_lr c\<rparr>"

interpretation sw_out: context_save sw_save sw_ctx "\<lambda>c. length (c_gen c) = 13"
  by unfold_locales (use sw_save_frame in \<open>auto simp: sw_ctx_def\<close>)

definition irq_ctx :: "cpu \<Rightarrow> u32 \<Rightarrow> pt_regs" where
  "irq_ctx c sp = (let user = c_spsr_irq c AND MODE_MASK = USER_MODE in
     \<lparr>r_gen = c_gen c, r_spsr = (if user then 0 else c_spsr c), r_lr = (if user then c_lr_usr c else c_lr c),
      r_sp = (if user then c_sp_usr c else c_sp c), r_cpsr = c_spsr_irq c, r_pc = c_lr_irq c - 4\<rparr>)"

text \<open>
  An interrupt in the user or the supervisor mode; the 28 bytes that the entry uses of the stack of the
  interrupt mode are not where the frame is.
\<close>

definition irq_ok :: "cpu \<Rightarrow> bool" where
  "irq_ok c \<longleftrightarrow> length (c_gen c) = 13 \<and> c_spsr_irq c AND MODE_MASK \<in> {USER_MODE, SVC_MODE} \<and>
     (\<forall>j \<in> {1..7}. \<forall>i < 18. c_sp_irq c - 4 * of_nat j \<noteq> c_sp c - 72 + 4 * of_nat i)"

lemma push_words_append: "push_words (xs @ ys) p m = (case push_words xs p m of (p, m) \<Rightarrow> push_words ys p m)"
  by (induction xs arbitrary: p m) simp_all

lemma irq_enter_frame:
  assumes ok: "irq_ok c" and e: "irq_enter c m = (sp, m')"
  shows "sp + 72 = c_sp c" "words_at m' sp (frame_words (irq_ctx c sp))"
    "(\<And>i. i < 18 \<Longrightarrow> a \<noteq> sp + 4 * of_nat i) \<Longrightarrow> (\<And>j. j \<in> {1..7} \<Longrightarrow> a \<noteq> c_sp_irq c - 4 * of_nat j) \<Longrightarrow> m' a = m a"
proof -
  let ?q = "c_sp_irq c" and ?g = "c_gen c"
  let ?m0 = "m(?q - 4 := c_lr_irq c - 4, ?q - 8 := c_spsr_irq c, ?q - 12 := ?g ! 0, ?q - 16 := ?g ! 1, ?q - 20 := ?g ! 2,
    ?q - 24 := ?g ! 3, ?q - 28 := ?g ! 4)"
  have len: "length ?g = 13" using ok by (simp add: irq_ok_def)
  obtain sp1 m1 where p1: "push_words (rev (drop 5 ?g)) (c_sp c - 20) ?m0 = (sp1, m1)" by (cases "push_words (rev (drop 5 ?g)) (c_sp c - 20) ?m0")
  obtain sp2 m2 where p2: "push_words [m1 (?q - 28), m1 (?q - 24), m1 (?q - 20), m1 (?q - 16), m1 (?q - 12)] sp1 m1 = (sp2, m2)"
    by (cases "push_words [m1 (?q - 28), m1 (?q - 24), m1 (?q - 20), m1 (?q - 16), m1 (?q - 12)] sp1 m1")
  let ?r = "irq_ctx c sp2"
  have md: "c_spsr_irq c AND MODE_MASK = USER_MODE \<or> c_spsr_irq c AND MODE_MASK = SVC_MODE" using ok by (simp add: irq_ok_def)
  have fin: "sp = sp2 \<and> m' = m2(sp2 + 68 := m2 (?q - 4), sp2 + 64 := (m2(sp2 + 68 := m2 (?q - 4))) (?q - 8), sp2 + 60 := r_sp ?r,
      sp2 + 56 := r_lr ?r, sp2 + 52 := r_spsr ?r)"
    using e p1 p2 md by (auto simp: irq_enter_def Let_def irq_ctx_def user_to_irq_def svc_to_irq_def simp del: fun_upd_apply push_words.simps)
  have l1: "length (rev (drop 5 ?g)) = 8" using len by simp
  note ps1 = push_words_spec [OF _ p1, unfolded l1]
  have far: "?q - 4 * of_nat j \<noteq> c_sp c - 72 + 4 * of_nat i" if "j \<in> {1..7}" "i < 18" for i j
    using ok that by (simp add: irq_ok_def)
  have q1: "m1 (?q - 4 * of_nat j) = ?m0 (?q - 4 * of_nat j)" if "j \<in> {1..7}" for j
  proof (rule ps1(3))
    fix i :: nat assume "i < 8"
    then show "?q - 4 * of_nat j \<noteq> sp1 + 4 * of_nat i" using far [OF that, of "5 + i"] ps1(1) by (simp add: algebra_simps)
  qed simp
  let ?xs = "[m1 (?q - 28), m1 (?q - 24), m1 (?q - 20), m1 (?q - 16), m1 (?q - 12)]"
  have xs: "?xs = rev (take 5 ?g)"
  proof -
    have "take 5 ?g = map ((!) ?g) [0..<5]" using len by (intro nth_equalityI) (simp_all del: upt_rec_numeral)
    also have "\<dots> = [?g ! 0, ?g ! 1, ?g ! 2, ?g ! 3, ?g ! 4]" by (simp add: upt_rec numeral_eq_Suc)
    finally show ?thesis using q1 [of 3] q1 [of 4] q1 [of 5] q1 [of 6] q1 [of 7] by simp
  qed
  have "push_words (rev (drop 5 ?g) @ rev (take 5 ?g)) (c_sp c - 20) ?m0 = (sp2, m2)"
    using p1 p2 unfolding xs by (simp add: push_words_append del: push_words.simps)
  moreover have "rev (drop 5 ?g) @ rev (take 5 ?g) = rev ?g" by (simp flip: rev_append)
  ultimately have "push_words (rev ?g) (c_sp c - 20) ?m0 = (sp2, m2)" by simp
  note ps = push_words_spec [OF _ this, unfolded length_rev rev_rev_ident len]
  have sp: "c_sp c = sp2 + 72" using ps(1) by (simp add: algebra_simps)
  then show "sp + 72 = c_sp c" using fin by simp
  have q2: "m2 (?q - 4 * of_nat j) = ?m0 (?q - 4 * of_nat j)" if "j \<in> {1..7}" for j
    using far [OF that] sp by (intro ps(3)) simp_all
  have gen: "words_at m2 sp2 ?g" using ps(2) by simp
  have "words_at m' sp2 ?g"
  proof (rule words_at_cong [OF _ gen])
    fix i assume "i < length ?g"
    then have "i < 13" using len by simp
    then show "m' (sp2 + 4 * of_nat i) = m2 (sp2 + 4 * of_nat i)"
      using fin word_step_inj [of i 13 sp2] word_step_inj [of i 14 sp2] word_step_inj [of i 15 sp2] word_step_inj [of i 16 sp2]
        word_step_inj [of i 17 sp2] by simp
  qed
  moreover have "m' (sp2 + 52) = r_spsr ?r" "m' (sp2 + 56) = r_lr ?r" "m' (sp2 + 60) = r_sp ?r" using fin by simp_all
  moreover have "m' (sp2 + 64) = c_spsr_irq c" "m' (sp2 + 68) = c_lr_irq c - 4"
    using fin q2 [of 1] q2 [of 2] far [of 2 17] sp by simp_all
  moreover have spe: "sp = sp2" using fin by blast
  ultimately show "words_at m' sp (frame_words (irq_ctx c sp))"
    using len by (simp add: frame_words_def words_at_append words_at_Cons words_at_Nil add.assoc irq_ctx_def Let_def)
  assume f: "\<And>i. i < 18 \<Longrightarrow> a \<noteq> sp + 4 * of_nat i" "\<And>j. j \<in> {1..7} \<Longrightarrow> a \<noteq> ?q - 4 * of_nat j"
  have "m' a = m2 a" using fin f(1) [of 13] f(1) [of 14] f(1) [of 15] f(1) [of 16] f(1) [of 17] by simp
  also have "\<dots> = ?m0 a" using f(1) spe by (intro ps(3)) simp_all
  also have "\<dots> = m a" using f(2) [of 1] f(2) [of 2] f(2) [of 3] f(2) [of 4] f(2) [of 5] f(2) [of 6] f(2) [of 7] by simp
  finally show "m' a = m a" .
qed

interpretation irq_in: context_save irq_enter irq_ctx irq_ok
  by unfold_locales (use irq_enter_frame in \<open>auto simp: irq_ctx_def irq_ok_def Let_def\<close>)

section \<open>Every combination\<close>

interpretation sw_sw: context_switch sw_save sw_ctx "\<lambda>c. length (c_gen c) = 13" sw_load r_cpsr by unfold_locales
interpretation sw_irq: context_switch sw_save sw_ctx "\<lambda>c. length (c_gen c) = 13" irq_leave r_spsr by unfold_locales
interpretation irq_sw: context_switch irq_enter irq_ctx irq_ok sw_load r_cpsr by unfold_locales
interpretation irq_irq: context_switch irq_enter irq_ctx irq_ok irq_leave r_spsr by unfold_locales

text \<open>
  A task can go on from its frame at \<open>sp\<close>: as long as the 18 words are as they are in \<open>w\<close>, both \<^verbatim>\<open>arch_switch_task_sw\<close> and the
  end of an interrupt load its registers \<open>r\<close>, with \<open>ksp\<close> as its stack pointer of the supervisor mode.  The saved program status
  is restored by the end of an interrupt; \<^verbatim>\<open>arch_switch_task_sw\<close> leaves the status there.
\<close>

definition can_resume :: "pt_regs \<Rightarrow> u32 \<Rightarrow> u32 \<Rightarrow> wmem \<Rightarrow> bool" where
  "can_resume r ksp sp w \<longleftrightarrow> (\<forall>m e. (\<forall>i < 18. m (sp + 4 * of_nat i) = w (sp + 4 * of_nat i)) \<longrightarrow>
     loaded (r_cpsr r) r ksp (sw_load sp m e) \<and> loaded (r_spsr r) r ksp (irq_leave sp m e))"

lemma sw_can_resume:
  assumes "sw_save c m = (sp, m1)" "length (c_gen c) = 13" "c_cpsr c AND MODE_MASK = SVC_MODE"
    "\<And>i. i < 18 \<Longrightarrow> w (sp + 4 * of_nat i) = m1 (sp + 4 * of_nat i)"
  shows "can_resume (sw_ctx c sp) (c_sp c) sp w"
proof -
  have md: "r_cpsr (sw_ctx c sp) AND MODE_MASK \<in> {USER_MODE, SVC_MODE}" using assms(3) by (simp add: sw_ctx_def)
  show ?thesis
    unfolding can_resume_def using assms(4) sw_sw.resumes [OF assms(2,1) md] sw_irq.resumes [OF assms(2,1) md] by simp
qed

lemma irq_can_resume:
  assumes "irq_enter c m = (sp, m1)" "irq_ok c" "\<And>i. i < 18 \<Longrightarrow> w (sp + 4 * of_nat i) = m1 (sp + 4 * of_nat i)"
  shows "can_resume (irq_ctx c sp) (c_sp c) sp w"
proof -
  have md: "r_cpsr (irq_ctx c sp) AND MODE_MASK \<in> {USER_MODE, SVC_MODE}" using assms(2) by (simp add: irq_ctx_def irq_ok_def Let_def)
  show ?thesis
    unfolding can_resume_def using assms(3) irq_sw.resumes [OF assms(2,1) md] irq_irq.resumes [OF assms(2,1) md] by simp
qed

lemma sw_save_other:
  assumes "sw_save c m = (sp, m')" "length (c_gen c) = 13" "\<And>i. i < 18 \<Longrightarrow> a \<noteq> sp + 4 * of_nat i"
  shows "m' a = m a"
proof -
  obtain m1 m2 where p: "push_words (rev (c_gen c)) (c_sp c - 4 - 16) m1 = (sp, m2)" "m1 = m(c_sp c - 4 := c_lr c)"
    and m': "m' = m2(sp + 64 := c_cpsr c, sp + 52 := c_spsr c, sp + 56 := c_lr c, sp + 60 := sp - 72)"
    using assms(1) by (auto simp: sw_save_def Let_def split: prod.splits)
  have "sp + 72 = c_sp c" by (rule sw_save_frame(1) [OF assms(1,2)])
  then have lr: "c_sp c - 4 = sp + 68" by (simp add: algebra_simps)
  have "m' a = m2 a" unfolding m' using assms(3) [of 16] assms(3) [of 13] assms(3) [of 14] assms(3) [of 15] by simp
  also have "\<dots> = m1 a" using assms(2,3) by (intro push_words_spec(3) [OF _ p(1)]) simp_all
  also have "\<dots> = m a" unfolding p(2) lr using assms(3) [of 17] by simp
  finally show ?thesis .
qed

section \<open>The page tables of the next task\<close>

text \<open>The next task is a kernel thread, or it has one page of page table for its stack and one for its image.\<close>

definition tables_ok :: "node lists \<Rightarrow> u32 \<Rightarrow> page \<Rightarrow> page \<Rightarrow> mstate \<Rightarrow> bool" where
  "tables_ok F t P Q m \<longleftrightarrow> t_flag (task (ks m) t) AND PROCESS_TYPE_KERNEL \<noteq> 0 \<or>
     list_rel (lists (ks m)) F \<and> (\<exists>p q. F (N_stack_list t) = Some [N_page p] \<and> page_read (uint p) m = Some P \<and>
       F (N_elf_list t) = Some [N_page q] \<and> page_read (uint q) m = Some Q)"

text \<open>The descriptors after the switch: those of a kernel thread stay, those of a user task are its own.\<close>

definition task_tables :: "page \<Rightarrow> page \<Rightarrow> u32 \<Rightarrow> kstate \<Rightarrow> wmem \<Rightarrow> wmem" where
  "task_tables P Q t k w =
     (if t_flag (task k t) AND PROCESS_TYPE_KERNEL \<noteq> 0 then w else user_tables (phy_address P) (phy_address Q) w)"

lemma switch_any:
  assumes "tables_ok F t P Q (sm (ss s))" "cur \<noteq> NULL" "t \<noteq> NULL"
  shows "switch_task cur t s = Some (0, s\<lparr>wm := task_tables P Q t (tk s) (wm s)\<rparr>)"
proof (cases "t_flag (task (tk s) t) AND PROCESS_TYPE_KERNEL = 0")
  case True
  then show ?thesis using assms switch_user_task [of s F cur t] by (auto simp: tables_ok_def task_tables_def)
next
  case False
  then show ?thesis using assms by (simp add: switch_task_def task_tables_def)
qed

lemma ks_on_ks: "ks (on_ks f m) = f (ks m)"
  by (simp add: on_ks_def)

lemma tables_stack_base [simp]:
  "tables_ok F t P Q (on_ks (upd_task u (\<lambda>ts. ts\<lparr>stack_base := x\<rparr>)) m) = tables_ok F t P Q m"
  "task_tables P Q t (upd_task u (\<lambda>ts. ts\<lparr>stack_base := x\<rparr>) k) w = task_tables P Q t k w"
  by (simp_all add: tables_ok_def task_tables_def on_ks_def page_read_def)

text \<open>A word outside the table of the first level, which has 4096 entries.\<close>

definition off_tables :: "u32 \<Rightarrow> bool" where
  "off_tables a \<longleftrightarrow> (\<forall>j < 4096. a \<noteq> get_tlb_base + 4 * of_nat j)"

lemma task_tables_off:
  assumes "off_tables a"
  shows "task_tables P Q t k w a = w a"
proof -
  have n: "a \<noteq> get_tlb_base + 4 * of_nat j" if "j < 4096" for j using assms that by (simp add: off_tables_def)
  show ?thesis
    using n [of 4] n [of 5] n [of 6] n [of 7] n [of "0x7fc"] n [of "0x7fd"] n [of "0x7fe"] n [of "0x7ff"]
    by (simp add: task_tables_def user_tables_def)
qed

lemma task_tables_cong: "w a = w' a \<Longrightarrow> task_tables P Q t k w a = task_tables P Q t k w' a"
  by (simp add: task_tables_def user_tables_def)

lemma frame_kept:
  assumes "words_at w q (frame_words r)" "length (r_gen r) = 13" "\<And>i. i < 18 \<Longrightarrow> w' (q + 4 * of_nat i) = w (q + 4 * of_nat i)"
  shows "words_at w' q (frame_words r)"
  by (rule words_at_cong [OF _ assms(1)]) (use assms(2,3) in \<open>simp add: frame_words_def\<close>)

section \<open>Properties\<close>

text \<open>
  C26. A task in the supervisor mode gives up the processor in \<^verbatim>\<open>arch_switch_task_sw\<close> for another task, a kernel thread or
  a user task with one page of page table for its stack and one for its image, whose frame is at its \<^verbatim>\<open>stack_base\<close>;
  the two frames do not overlap and are not in the table of descriptors.  Then the processor has the registers of that
  frame, whichever way it was saved, except that the saved program status is the status itself; the other task is the current one; the memory
  outside the frame of the first task changes only in the descriptors, which are those of the other task.  The first task can go on, by
  \<^verbatim>\<open>arch_switch_task_sw\<close> and at the end of an interrupt, behind its call with its general registers, stack pointer, link register and
  status, and at the end of an interrupt also with its saved program status.
\<close>

theorem sched_resumes_context:
  assumes c: "length (c_gen c) = 13" "c_cpsr c AND MODE_MASK = SVC_MODE" and f: "f = c_sp c - 72"
    and k: "k = tk s" "current k \<noteq> next_run k" "current k \<noteq> NULL" "next_run k \<noteq> NULL" and tab: "tables_ok F (next_run k) P Q (sm (ss s))"
    and q: "q = stack_base (task k (next_run k))" "words_at (wm s) q (frame_words r)" "length (r_gen r) = 13"
      "r_cpsr r AND MODE_MASK \<in> {USER_MODE, SVC_MODE}"
    and off: "\<And>i. i < 18 \<Longrightarrow> off_tables (q + 4 * of_nat i) \<and> off_tables (f + 4 * of_nat i)"
    and sep: "\<And>i j. i < 18 \<Longrightarrow> j < 18 \<Longrightarrow> q + 4 * of_nat i \<noteq> f + 4 * of_nat j"
  shows "\<exists>d s'. switch_task_sw c s = Some (d, s') \<and> loaded (r_cpsr r) r (q + 72) d \<and> current (tk s') = next_run k \<and>
    stack_base (task (tk s') (current k)) = f \<and>
    can_resume \<lparr>r_gen = c_gen c, r_spsr = c_spsr c, r_lr = c_lr c, r_sp = f - 72, r_cpsr = c_cpsr c, r_pc = c_lr c\<rparr> (c_sp c) f (wm s') \<and>
    (\<forall>a. (\<forall>i < 18. a \<noteq> f + 4 * of_nat i) \<longrightarrow> wm s' a = task_tables P Q (next_run k) k (wm s) a)"
proof -
  obtain sp m where e: "sw_save c (wm s) = (sp, m)" by (cases "sw_save c (wm s)")
  have sp: "sp = f" using sw_save_frame(1) [OF e c(1)] f by (metis add_diff_cancel_right')
  note other = sw_save_other [OF e [unfolded sp] c(1)]
  let ?t = "next_run k" and ?w = "task_tables P Q (next_run k) k m"
  let ?s1 = "s\<lparr>wm := ?w\<rparr>"
  let ?s2 = "on_k (\<lambda>k. k\<lparr>current := next_run k\<rparr>) (on_k (upd_task (current k) (\<lambda>ts. ts\<lparr>stack_base := f\<rparr>)) ?s1)"
  have sw: "switch_task (current k) ?t (s\<lparr>wm := m\<rparr>) = Some (0, ?s1)"
    using switch_any [of F ?t P Q "s\<lparr>wm := m\<rparr>"] tab k by simp
  have q2: "stack_base (task (tk ?s2) ?t) = q" "current (tk ?s2) = ?t" using k(2) q(1) by (simp_all add: on_k_def on_ks_def k(1))
  have run: "switch_task_sw c s = Some (sw_load q ?w c, ?s2)"
    unfolding switch_task_sw_def using e sp sw q(1) k(1) not_sym [OF k(2)] by (simp add: on_k_def on_ks_def)
  have "m (q + 4 * of_nat i) = wm s (q + 4 * of_nat i)" if "i < 18" for i using sep [OF that] by (intro other)
  then have "words_at ?w q (frame_words r)" using off by (intro frame_kept [OF q(2,3)]) (simp add: task_tables_off)
  then have l: "loaded (r_cpsr r) r (q + 72) (sw_load q ?w c)" by (rule sw_in.load [OF _ q(3,4)])
  have res: "can_resume (sw_ctx c f) (c_sp c) f ?w"
    using off by (intro sw_can_resume [OF e [unfolded sp] c]) (simp add: task_tables_off)
  have mem: "?w a = task_tables P Q ?t k (wm s) a" if "\<forall>i < 18. a \<noteq> f + 4 * of_nat i" for a
    using that by (intro task_tables_cong other) simp
  have "wm ?s2 = ?w" "stack_base (task (tk ?s2) (current k)) = f" by (simp_all add: on_k_def on_ks_def)
  then show ?thesis
    using run l q2(2) res mem unfolding sw_ctx_def by (intro exI [of _ "sw_load q ?w c"] exI [of _ ?s2]) simp
qed

text \<open>The registers of a task that is interrupted in the user or the supervisor mode.\<close>

definition task_ctx :: "cpu \<Rightarrow> pt_regs" where
  "task_ctx b = (let user = c_cpsr b AND MODE_MASK = USER_MODE in
     \<lparr>r_gen = c_gen b, r_spsr = (if user then 0 else c_spsr b), r_lr = (if user then c_lr_usr b else c_lr b),
      r_sp = (if user then c_sp_usr b else c_sp b), r_cpsr = c_cpsr b, r_pc = c_pc b\<rparr>)"

lemma irq_ctx_take: "irq_ctx (take_irq b) sp = task_ctx b"
  by (simp add: irq_ctx_def task_ctx_def take_irq_def Let_def)

text \<open>
  C27. An interrupt after which no other task is to run, taken in the user or the supervisor mode with the 28 bytes of the stack of the
  interrupt mode apart from the frame: the whole of it, from the entry through the handler to the exit, changes no register but the
  two that the interrupt mode has for the return, the banked registers of the other modes included; the kernel's state is the one the handler
  left, and the memory is unchanged but for the frame below the supervisor's stack pointer and the 28 bytes.
\<close>

theorem interrupt_transparent:
  assumes ok: "irq_ok (take_irq b)" and h: "irq_handler dev call ((hw s)\<lparr>ms := sm (ss (it s))\<rparr>) = Some p"
    and k: "current (ks (ms p)) = next_run (ks (ms p))"
  shows "\<exists>d s'. irq dev call (take_irq b) s = Some (d, s') \<and> d = b\<lparr>c_lr_irq := c_lr_irq d, c_spsr_irq := c_spsr_irq d\<rparr> \<and>
    ss (it s') = (ss (it s))\<lparr>sm := ms p\<rparr> \<and> hw s' = p \<and>
    (\<forall>a. (\<forall>i < 18. a \<noteq> c_sp b - 72 + 4 * of_nat i) \<longrightarrow> (\<forall>j \<in> {1..7}. a \<noteq> c_sp_irq b - 4 * of_nat j) \<longrightarrow>
      wm (it s') a = wm (it s) a)"
proof -
  let ?c = "take_irq b"
  obtain sp m where e: "irq_enter ?c (wm (it s)) = (sp, m)" by (cases "irq_enter ?c (wm (it s))")
  note f = irq_enter_frame [OF ok e]
  have cb: "c_sp ?c = c_sp b" "c_sp_irq ?c = c_sp_irq b" by (simp_all add: take_irq_def)
  have sp: "sp = c_sp b - 72" "sp + 72 = c_sp b" using f(1) cb by (simp_all add: algebra_simps)
  let ?t = "(it s)\<lparr>wm := m, ss := (ss (it s))\<lparr>sm := ms p\<rparr>\<rparr>" and ?d = "irq_leave sp m (?c\<lparr>c_sp := sp\<rparr>)"
  have "exit_irq_switch sp ?t = Some (sp, ?t)" using k by (simp add: exit_irq_switch_def)
  then have run: "irq dev call ?c s = Some (?d, \<lparr>it = ?t, hw = p\<rparr>)"
    using e h by (simp add: irq_def hw_op_def)
  have w: "words_at m sp (frame_words (task_ctx b))" "length (r_gen (task_ctx b)) = 13"
    using f(2) ok by (simp_all add: irq_ctx_take) (simp add: irq_ok_def task_ctx_def take_irq_def Let_def)
  have md: "c_cpsr b AND MODE_MASK = USER_MODE \<or> c_cpsr b AND MODE_MASK = SVC_MODE" using ok by (simp add: irq_ok_def take_irq_def)
  have d: "?d = b\<lparr>c_lr_irq := c_lr_irq ?d, c_spsr_irq := c_spsr_irq ?d\<rparr>"
    unfolding irq_leave_eq [OF w] using md sp(2) by (auto simp: task_ctx_def take_irq_def Let_def)
  have mem: "m a = wm (it s) a"
    if "\<forall>i < 18. a \<noteq> c_sp b - 72 + 4 * of_nat i" "\<forall>j \<in> {1..7}. a \<noteq> c_sp_irq b - 4 * of_nat j" for a
    using that sp(1) cb(2) by (intro f(3)) simp_all
  show ?thesis using run d mem by (intro exI [of _ ?d] exI [of _ "\<lparr>it = ?t, hw = p\<rparr>"]) simp
qed

text \<open>
  C28. An interrupt after which another task is to run, a kernel thread or a user task with one page of page table for its stack and one
  for its image: the processor has the registers of the frame at the other task's \<^verbatim>\<open>stack_base\<close>, as \<^verbatim>\<open>sched\<close>, an earlier interrupt or
  the creation of the task left it; the other task is the current one and the descriptors are its own; the interrupted task
  can go on from the frame at its \<^verbatim>\<open>stack_base\<close>, by \<^verbatim>\<open>arch_switch_task_sw\<close> and at the end of an interrupt, at the
  interrupted instruction with its registers.  The two frames, the stack of the interrupt mode and the table of descriptors do not overlap.
\<close>

theorem irq_switches_tasks:
  assumes ok: "irq_ok (take_irq b)" and f: "f = c_sp b - 72" and h: "irq_handler dev call ((hw s)\<lparr>ms := sm (ss (it s))\<rparr>) = Some p"
    and k: "k = ks (ms p)" "current k \<noteq> next_run k" "current k \<noteq> NULL" "next_run k \<noteq> NULL" and tab: "tables_ok F (next_run k) P Q (ms p)"
    and q: "q = stack_base (task k (next_run k))" "words_at (wm (it s)) q (frame_words r)" "length (r_gen r) = 13"
      "r_cpsr r AND MODE_MASK \<in> {USER_MODE, SVC_MODE}"
    and off: "\<And>i. i < 18 \<Longrightarrow> off_tables (q + 4 * of_nat i) \<and> off_tables (f + 4 * of_nat i)"
    and sep: "\<And>i j. i < 18 \<Longrightarrow> j < 18 \<Longrightarrow> q + 4 * of_nat i \<noteq> f + 4 * of_nat j"
      "\<And>i j. i < 18 \<Longrightarrow> j \<in> {1..7} \<Longrightarrow> q + 4 * of_nat i \<noteq> c_sp_irq b - 4 * of_nat j"
  shows "\<exists>d s'. irq dev call (take_irq b) s = Some (d, s') \<and> loaded (r_spsr r) r (q + 72) d \<and> current (tk (it s')) = next_run k \<and>
    stack_base (task (tk (it s')) (current k)) = f \<and> can_resume (task_ctx b) (c_sp b) f (wm (it s')) \<and>
    (\<forall>a. (\<forall>i < 18. a \<noteq> f + 4 * of_nat i) \<longrightarrow> (\<forall>j \<in> {1..7}. a \<noteq> c_sp_irq b - 4 * of_nat j) \<longrightarrow>
      wm (it s') a = task_tables P Q (next_run k) k (wm (it s)) a)"
proof -
  let ?c = "take_irq b"
  obtain sp m where e: "irq_enter ?c (wm (it s)) = (sp, m)" by (cases "irq_enter ?c (wm (it s))")
  have cb: "c_sp ?c = c_sp b" "c_sp_irq ?c = c_sp_irq b" by (simp_all add: take_irq_def)
  have sp: "sp = f" using irq_enter_frame(1) [OF ok e] f cb(1) by (metis add_diff_cancel_right')
  note other = irq_enter_frame(3) [OF ok e, unfolded sp cb]
  let ?w = "task_tables P Q (next_run k) k m" and ?t = "(it s)\<lparr>wm := m, ss := (ss (it s))\<lparr>sm := ms p\<rparr>\<rparr>"
  let ?t1 = "on_k (upd_task (current k) (\<lambda>ts. ts\<lparr>stack_base := f\<rparr>)) ?t"
  let ?t2 = "on_k (\<lambda>k. k\<lparr>current := next_run k\<rparr>) (?t1\<lparr>wm := ?w\<rparr>)"
  have "switch_task (current k) (next_run k) ?t1 = Some (0, ?t1\<lparr>wm := ?w\<rparr>)"
    using switch_any [of F "next_run k" P Q ?t1 "current k"] tab k by (simp add: on_k_def ks_on_ks)
  moreover have "current (tk ?t2) = next_run k" "stack_base (task (tk ?t2) (next_run k)) = q"
    using k(2) q(1) by (simp_all add: on_k_def on_ks_def k(1))
  ultimately have x: "exit_irq_switch sp ?t = Some (q, ?t2)"
    using k(2) by (simp add: exit_irq_switch_def k(1) sp on_k_def on_ks_def)
  have run: "irq dev call ?c s = Some (irq_leave q ?w (?c\<lparr>c_sp := f\<rparr>), \<lparr>it = ?t2, hw = p\<rparr>)"
    using e h x sp by (simp add: irq_def hw_op_def on_k_def on_ks_def)
  have "m (q + 4 * of_nat i) = wm (it s) (q + 4 * of_nat i)" if "i < 18" for i using sep that by (intro other) auto
  then have "words_at ?w q (frame_words r)" using off by (intro frame_kept [OF q(2,3)]) (simp add: task_tables_off)
  then have l: "loaded (r_spsr r) r (q + 72) (irq_leave q ?w (?c\<lparr>c_sp := f\<rparr>))" by (rule irq_out.load [OF _ q(3,4)])
  have res: "can_resume (task_ctx b) (c_sp b) f ?w"
    using irq_can_resume [OF e ok, of ?w] off unfolding sp cb irq_ctx_take by (simp add: task_tables_off)
  have mem: "?w a = task_tables P Q (next_run k) k (wm (it s)) a"
    if "\<forall>i < 18. a \<noteq> f + 4 * of_nat i" "\<forall>j \<in> {1..7}. a \<noteq> c_sp_irq b - 4 * of_nat j" for a
    using that by (intro task_tables_cong other) simp_all
  have "wm ?t2 = ?w" "stack_base (task (tk ?t2) (current k)) = f" "current (tk ?t2) = next_run k" by (simp_all add: on_k_def on_ks_def k(1))
  then show ?thesis
    using run l res mem by (intro exI [of _ "irq_leave q ?w (?c\<lparr>c_sp := f\<rparr>)"] exI [of _ "\<lparr>it = ?t2, hw = p\<rparr>"]) simp
qed

section \<open>Instances\<close>

text \<open>
  The user task at \<open>0x5000\<close> with its page tables in the pages 5 and 6, and its frame at \<open>0xc0007f00\<close>; every word of the stacks
  is \<open>0x13\<close>.
\<close>

definition next_demo :: tstate where
  "next_demo = on_k (upd_task 0x5000 (\<lambda>ts. ts\<lparr>stack_base := 0xc0007f00\<rparr>)) (switch_demo\<lparr>wm := (\<lambda>_. 0x13)\<rparr>)"

abbreviation demo_frame :: pt_regs where
  "demo_frame \<equiv> \<lparr>r_gen = replicate 13 0x13, r_spsr = 0x13, r_lr = 0x13, r_sp = 0x13, r_cpsr = 0x13, r_pc = 0x13\<rparr>"

abbreviation "stack_table \<equiv> no_page\<lparr>phy_address := 0x30005000\<rparr>"
abbreviation "image_table \<equiv> no_page\<lparr>phy_address := 0x30006000\<rparr>"

lemma next_demo_sel:
  "wm next_demo = (\<lambda>_. 0x13)" "stack_base (task (tk next_demo) 0x5000) = 0xc0007f00" "current (tk next_demo) = 0x2000"
  "t_flag (task (tk next_demo) 0x5000) AND PROCESS_TYPE_KERNEL = 0"
  using switch_demo_tables(4) by (simp_all add: next_demo_def on_k_def on_ks_def) (simp add: switch_demo_def Let_def demo_ks_def booted_task)

lemma next_demo_tables:
  assumes "lists (ks m) = lists (tk next_demo)" "page_table m = page_table (sm (ss next_demo))"
  shows "tables_ok switch_F 0x5000 stack_table image_table m"
proof -
  have "lists (ks m) = lists (tk switch_demo)" "page_table m = page_table (sm (ss switch_demo))"
    using assms by (simp_all add: next_demo_def on_k_def on_ks_def)
  then show ?thesis
    unfolding tables_ok_def using switch_demo_tables(1-3)
    by (intro disjI2 conjI exI [of _ 5] exI [of _ 6]) (simp_all add: page_read_def)
qed

lemma demo_frame_words: "words_at (\<lambda>_. 0x13) q (frame_words demo_frame)"
  unfolding words_at_def
proof (intro allI impI)
  fix i assume "i < length (frame_words demo_frame)"
  then have "frame_words demo_frame ! i \<in> set (frame_words demo_frame)" by (rule nth_mem)
  then show "0x13 = frame_words demo_frame ! i" by (simp add: frame_words_def)
qed

lemma high_off_tables:
  assumes "0x80004000 \<le> a" "a + 4 * i < 2 ^ 32"
  shows "off_tables (of_nat (a + 4 * i))"
  unfolding off_tables_def
proof (intro allI impI)
  fix j :: nat assume "j < 4096"
  then have "a + 4 * i \<noteq> 0x80000000 + 4 * j" "0x80000000 + 4 * j < 2 ^ 32" using assms(1) by auto
  then have "(of_nat (a + 4 * i) :: u32) \<noteq> of_nat (0x80000000 + 4 * j)" using assms(2) of_nat_eq_u32 by blast
  then show "of_nat (a + 4 * i) \<noteq> get_tlb_base + 4 * (of_nat j :: u32)" by (simp add: get_tlb_base_def arch_get_tlb_base_def)
qed

lemma demo_frames:
  fixes i j :: nat assumes "i < 18"
  shows "off_tables (0xc0007f00 + 4 * of_nat i) \<and> off_tables (0xc0008fb8 + 4 * of_nat i)"
    "j < 18 \<Longrightarrow> (0xc0007f00 :: u32) + 4 * of_nat i \<noteq> 0xc0008fb8 + 4 * of_nat j"
    "j \<in> {1..7} \<Longrightarrow> (0xc0007f00 :: u32) + 4 * of_nat i \<noteq> 0xc000b000 - 4 * of_nat j"
proof -
  have at: "(0xc0007f00 :: u32) + 4 * of_nat n = of_nat (0xc0007f00 + 4 * n)" "(0xc0008fb8 :: u32) + 4 * of_nat n = of_nat (0xc0008fb8 + 4 * n)" for n by simp_all
  show "off_tables (0xc0007f00 + 4 * of_nat i) \<and> off_tables (0xc0008fb8 + 4 * of_nat i)"
    unfolding at using assms by (intro conjI high_off_tables) simp_all
  show "j < 18 \<Longrightarrow> (0xc0007f00 :: u32) + 4 * of_nat i \<noteq> 0xc0008fb8 + 4 * of_nat j"
    unfolding at using assms of_nat_eq_u32 [of "0xc0007f00 + 4 * i" "0xc0008fb8 + 4 * j"] by simp
  assume j: "j \<in> {1..7}"
  have "(0xc000b000 :: u32) - 4 * of_nat j = of_nat (0xc000b000 - 4 * j)" using j by (simp add: of_nat_diff)
  moreover have "0xc0007f00 + 4 * i < 2 ^ 32" "0xc000b000 - 4 * j < 2 ^ 32" "0xc0007f00 + 4 * i \<noteq> 0xc000b000 - 4 * j" using assms j by auto
  ultimately show "(0xc0007f00 :: u32) + 4 * of_nat i \<noteq> 0xc000b000 - 4 * of_nat j"
    unfolding at using of_nat_eq_u32 [of "0xc0007f00 + 4 * i" "0xc000b000 - 4 * j"] by (simp only:) blast
qed

theorem sched_resumes_context_witness:
  "\<exists>d s'. switch_task_sw demo_cpu (on_k (\<lambda>k. k\<lparr>next_run := 0x5000\<rparr>) next_demo) = Some (d, s') \<and> current (tk s') = 0x5000 \<and>
     c_sp d = 0xc0007f48 \<and> c_pc d = 0x13 \<and> wm s' (get_tlb_base + 16) = user_des 0x30006000 0 \<and>
     c_pc (irq_leave 0xc0008fb8 (wm s') d) = 0xc0000100 \<and> c_spsr (irq_leave 0xc0008fb8 (wm s') d) = 0x10"
proof -
  let ?s = "on_k (\<lambda>k. k\<lparr>next_run := 0x5000\<rparr>) next_demo"
  have k: "current (tk ?s) = 0x2000" "next_run (tk ?s) = 0x5000" "stack_base (task (tk ?s) 0x5000) = 0xc0007f00" "wm ?s = (\<lambda>_. 0x13)"
    "t_flag (task (tk ?s) 0x5000) AND PROCESS_TYPE_KERNEL = 0"
    using next_demo_sel by (simp_all add: on_k_def on_ks_def)
  have tab: "tables_ok switch_F (next_run (tk ?s)) stack_table image_table (sm (ss ?s))"
    unfolding k(2) by (rule next_demo_tables) (simp_all add: on_k_def on_ks_def)
  have c: "length (c_gen demo_cpu) = 13" "c_cpsr demo_cpu AND MODE_MASK = SVC_MODE" "0xc0008fb8 = c_sp demo_cpu - 72" by (simp_all add: demo_cpu_def)
  have w: "words_at (wm ?s) (stack_base (task (tk ?s) (next_run (tk ?s)))) (frame_words demo_frame)" unfolding k(4) by (rule demo_frame_words)
  have sep: "\<And>i. i < 18 \<Longrightarrow> off_tables (stack_base (task (tk ?s) (next_run (tk ?s))) + 4 * of_nat i) \<and> off_tables (0xc0008fb8 + 4 * of_nat i)"
    "\<And>i j. i < 18 \<Longrightarrow> j < 18 \<Longrightarrow> stack_base (task (tk ?s) (next_run (tk ?s))) + 4 * of_nat i \<noteq> 0xc0008fb8 + 4 * of_nat j"
    unfolding k(2,3) by (fact demo_frames(1), fact demo_frames(2))
  obtain d s' where d: "switch_task_sw demo_cpu ?s = Some (d, s')" "loaded 0x13 demo_frame (0xc0007f00 + 72) d" "current (tk s') = 0x5000"
    "can_resume \<lparr>r_gen = c_gen demo_cpu, r_spsr = c_spsr demo_cpu, r_lr = c_lr demo_cpu, r_sp = 0xc0008fb8 - 72, r_cpsr = c_cpsr demo_cpu, r_pc = c_lr demo_cpu\<rparr>
      (c_sp demo_cpu) 0xc0008fb8 (wm s')"
    "\<forall>a. (\<forall>i < 18. a \<noteq> 0xc0008fb8 + 4 * of_nat i) \<longrightarrow> wm s' a = task_tables stack_table image_table 0x5000 (tk ?s) (wm ?s) a"
    using sched_resumes_context [OF c refl _ _ _ tab refl w _ _ sep] k(1-3) by auto
  have "get_tlb_base + 16 \<noteq> 0xc0008fb8 + 4 * (of_nat i :: u32)" if "i < 18" for i
    using demo_frames(1) [OF that] by (auto simp: off_tables_def dest: spec [of _ "4 :: nat"])
  then have "wm s' (get_tlb_base + 16) = task_tables stack_table image_table 0x5000 (tk ?s) (wm ?s) (get_tlb_base + 16)" using d(5) by blast
  also have "\<dots> = user_des 0x30006000 0" using k(5) by (simp add: task_tables_def user_tables_def)
  finally show ?thesis using d unfolding can_resume_def by (auto simp: loaded_def demo_cpu_def)
qed

text \<open>An interrupt of a user program whose kernel stack ends at \<open>0xc0009000\<close>; \<open>0xc000b000\<close> is the end of the interrupt stack.\<close>

definition user_cpu :: cpu where
  "user_cpu = demo_cpu\<lparr>c_cpsr := 0x10, c_pc := 0x401234\<rparr>"

lemma user_cpu_ok: "irq_ok (take_irq user_cpu)"
  unfolding irq_ok_def
proof (intro conjI ballI allI impI)
  fix j i :: nat assume j: "j \<in> {1..7}" and i: "i < 18"
  have "c_sp_irq (take_irq user_cpu) - 4 * of_nat j = of_nat (0xc000b000 - 4 * j)" using j by (simp add: take_irq_def user_cpu_def demo_cpu_def of_nat_diff)
  moreover have "c_sp (take_irq user_cpu) - 72 + 4 * of_nat i = of_nat (0xc0008fb8 + 4 * i)" by (simp add: take_irq_def user_cpu_def demo_cpu_def)
  moreover have "0xc000b000 - 4 * j < 2 ^ 32" "0xc0008fb8 + 4 * i < 2 ^ 32" "0xc000b000 - 4 * j \<noteq> 0xc0008fb8 + 4 * i" using i j by auto
  ultimately show "c_sp_irq (take_irq user_cpu) - 4 * of_nat j \<noteq> c_sp (take_irq user_cpu) - 72 + 4 * of_nat i"
    using of_nat_eq_u32 by metis
qed (simp_all add: take_irq_def user_cpu_def demo_cpu_def)

text \<open>A device whose handler makes the user task the next one, or the current task, while the user program runs.\<close>

definition irq_demo :: istate where
  "irq_demo = \<lparr>it = next_demo, hw = board_state (Some (replicate 512 \<lparr>irq_fn = 0xc0000800, irq_arg = 0\<rparr>))\<rparr>"

definition wake_call :: "u32 \<Rightarrow> fcall" where
  "wake_call t f a p = Some (0, on_kernel (\<lambda>k. k\<lparr>next_run := t\<rparr>) p)"

lemma wake_handler:
  assumes "platform_get_irq_id p = 14" "irq_table p = Some (replicate 512 x)"
  shows "\<exists>p'. irq_handler dev (wake_call t) p = Some p' \<and> ks (ms p') = (ks (ms p))\<lparr>in_interrupt := False, next_run := t\<rparr> \<and>
    page_table (ms p') = page_table (ms p)"
proof -
  let ?p = "platform_irq_clean_pending dev p"
  have c: "irq_table ?p = irq_table p" "ms ?p = ms p" by (simp_all add: platform_irq_clean_pending_def iowrite_def Let_def)
  have d: "get_irq_description 14 (on_kernel g ?p) = Some (Some x)" for g
    using assms(2) c(1) by (simp add: get_irq_description_def arch_get_irq_description_def lget_def on_kernel_def del: replicate.simps)
  show ?thesis
    unfolding irq_handler_def assms(1) do_irq_handler_def Let_def using c(2) by (simp add: d wake_call_def) (simp add: on_kernel_def on_ks_def)
qed

lemma irq_demo_handler:
  obtains p where "irq_handler (s3c_dev 0x86000000) (wake_call t) ((hw irq_demo)\<lparr>ms := sm (ss (it irq_demo))\<rparr>) = Some p"
    "ks (ms p) = (tk next_demo)\<lparr>in_interrupt := False, next_run := t\<rparr>" "page_table (ms p) = page_table (sm (ss next_demo))"
proof -
  let ?hw = "(hw irq_demo)\<lparr>ms := sm (ss (it irq_demo))\<rparr>"
  have nr: "platform_get_irq_id ?hw = 14" by (simp add: platform_get_irq_id_def ioread32_def irq_demo_def board_state_def board_regs_def)
  have tab: "irq_table ?hw = Some (replicate 512 \<lparr>irq_fn = 0xc0000800, irq_arg = 0\<rparr>)" by (simp add: irq_demo_def board_state_def)
  have "ms ?hw = sm (ss next_demo)" by (simp add: irq_demo_def)
  then show thesis using wake_handler [OF nr tab, of "s3c_dev 0x86000000" t] that by auto
qed

theorem interrupt_transparent_witness:
  "\<exists>d s'. irq (s3c_dev 0x86000000) (wake_call 0x2000) (take_irq user_cpu) irq_demo = Some (d, s') \<and>
     d = user_cpu\<lparr>c_lr_irq := c_lr_irq d, c_spsr_irq := c_spsr_irq d\<rparr>"
proof -
  obtain p where p: "irq_handler (s3c_dev 0x86000000) (wake_call 0x2000) ((hw irq_demo)\<lparr>ms := sm (ss (it irq_demo))\<rparr>) = Some p"
    "ks (ms p) = (tk next_demo)\<lparr>in_interrupt := False, next_run := 0x2000\<rparr>"
    by (rule irq_demo_handler)
  have "current (ks (ms p)) = next_run (ks (ms p))" using p(2) next_demo_sel(3) by simp
  from interrupt_transparent [OF user_cpu_ok p(1) this] show ?thesis by blast
qed

theorem irq_switches_tasks_witness:
  "\<exists>d s'. irq (s3c_dev 0x86000000) (wake_call 0x5000) (take_irq user_cpu) irq_demo = Some (d, s') \<and> current (tk (it s')) = 0x5000 \<and>
    c_sp d = 0xc0007f48 \<and> c_pc d = 0x13 \<and> c_pc (sw_load 0xc0008fb8 (wm (it s')) d) = 0x401234"
proof -
  obtain p where p: "irq_handler (s3c_dev 0x86000000) (wake_call 0x5000) ((hw irq_demo)\<lparr>ms := sm (ss (it irq_demo))\<rparr>) = Some p"
    "ks (ms p) = (tk next_demo)\<lparr>in_interrupt := False, next_run := 0x5000\<rparr>" "page_table (ms p) = page_table (sm (ss next_demo))"
    by (rule irq_demo_handler)
  let ?k = "ks (ms p)"
  have k: "current ?k = 0x2000" "next_run ?k = 0x5000" "stack_base (task ?k 0x5000) = 0xc0007f00" "wm (it irq_demo) = (\<lambda>_. 0x13)"
    using next_demo_sel p(2) by (simp_all add: irq_demo_def)
  have tab: "tables_ok switch_F (next_run ?k) stack_table image_table (ms p)"
    unfolding k(2) by (rule next_demo_tables) (simp_all add: p)
  have c: "0xc0008fb8 = c_sp user_cpu - 72" "c_sp_irq user_cpu = 0xc000b000" by (simp_all add: user_cpu_def demo_cpu_def)
  have w: "words_at (wm (it irq_demo)) (stack_base (task ?k (next_run ?k))) (frame_words demo_frame)" unfolding k(4) by (rule demo_frame_words)
  have sep: "\<And>i. i < 18 \<Longrightarrow> off_tables (stack_base (task ?k (next_run ?k)) + 4 * of_nat i) \<and> off_tables (0xc0008fb8 + 4 * of_nat i)"
    "\<And>i j. i < 18 \<Longrightarrow> j < 18 \<Longrightarrow> stack_base (task ?k (next_run ?k)) + 4 * of_nat i \<noteq> 0xc0008fb8 + 4 * of_nat j"
    "\<And>i j. i < 18 \<Longrightarrow> j \<in> {1..7} \<Longrightarrow> stack_base (task ?k (next_run ?k)) + 4 * of_nat i \<noteq> c_sp_irq user_cpu - 4 * of_nat j"
    unfolding k(2,3) c(2) by (fact demo_frames(1), fact demo_frames(2), fact demo_frames(3))
  obtain d s' where d: "irq (s3c_dev 0x86000000) (wake_call 0x5000) (take_irq user_cpu) irq_demo = Some (d, s')"
    "loaded 0x13 demo_frame (0xc0007f00 + 72) d" "current (tk (it s')) = 0x5000" "can_resume (task_ctx user_cpu) (c_sp user_cpu) 0xc0008fb8 (wm (it s'))"
    using irq_switches_tasks [OF user_cpu_ok c(1) p(1) refl _ _ _ tab refl w _ _ sep] k(1-3) by auto
  then have "loaded 0x10 (task_ctx user_cpu) (c_sp user_cpu) (sw_load 0xc0008fb8 (wm (it s')) d)"
    unfolding can_resume_def by (auto simp: task_ctx_def user_cpu_def Let_def)
  then have "c_pc (sw_load 0xc0008fb8 (wm (it s')) d) = 0x401234" by (simp add: loaded_def task_ctx_def user_cpu_def Let_def)
  with d(1-3) show ?thesis by (auto simp: loaded_def)
qed

end
