(* ===== verification/Abort.thy ===== *)
theory Abort
  imports IrqProps
begin

text \<open>
  The entries of the aborts and of the undefined instruction (\<^verbatim>\<open>arch/arm/machine/entry.S\<close>), what the
  handler of the aborts reports (\<^verbatim>\<open>arch/arm/machine/arm920t_c.c\<close>), and \<^verbatim>\<open>panic\<close> (\<^verbatim>\<open>kernel/panic.c\<close>).
\<close>

section \<open>The processor\<close>

text \<open>What the processor does when the instruction at \<open>c_pc\<close> aborts, by its access to data or its fetch, or is undefined.\<close>

definition take_abort :: "u32 \<Rightarrow> cpu \<Rightarrow> cpu" where
  "take_abort off c = c\<lparr>c_lr_abt := c_pc c + off, c_spsr_abt := c_cpsr c, c_cpsr := ABORT_MODE OR 0x80\<rparr>"

definition take_data_abort :: "cpu \<Rightarrow> cpu" where
  "take_data_abort = take_abort 8"

definition take_prefetch_abort :: "cpu \<Rightarrow> cpu" where
  "take_prefetch_abort = take_abort 4"

definition take_undefined :: "cpu \<Rightarrow> cpu" where
  "take_undefined c = c\<lparr>c_lr_und := c_pc c + 4, c_spsr_und := c_cpsr c, c_cpsr := UNDEF_MODE OR 0x80\<rparr>"

section \<open>Messages\<close>

text \<open>
  A call of \<^verbatim>\<open>level_printk\<close>: its format, with the level and the prefixes of the macros, and its arguments.  The functions
  below do not return; their value is the calls they make before they loop for ever.
\<close>

type_synonym message = "string \<times> u32 list"

definition kernel_error :: "string \<Rightarrow> u32 list \<Rightarrow> message" where
  "kernel_error fmt args = (''1<E>[ KERN: ]'' @ fmt, args)"

definition kernel_fatal :: "string \<Rightarrow> u32 list \<Rightarrow> message" where
  "kernel_fatal fmt args = (''0<F>[ KERN: ]'' @ fmt, args)"

text \<open>\<open>str\<close> is the address of the text.\<close>

definition panic :: "u32 \<Rightarrow> message list" where
  "panic str = [kernel_error ''-----PANIC-----\<newline>'' [], kernel_error ''%s\<newline>'' [str]]"

text \<open>\<open>lit\<close> is the address of the literal.\<close>

definition prefetch_abort_handler :: "u32 \<Rightarrow> message list" where
  "prefetch_abort_handler lit = panic lit"

definition data_abort_handler :: "u32 \<Rightarrow> wmem \<Rightarrow> message list" where
  "data_abort_handler rg m =
     [kernel_fatal ''panic : data abort fatal error regs address 0x%x\<newline>'' [rg],
      kernel_fatal ''cpsr:0x%x spsr:0x%x\<newline>'' [m (rg + 64), m (rg + 52)],
      kernel_fatal ''r0:0x%x r1:0x%x r2:0x%x r3:0x%x\<newline>'' [m rg, m (rg + 4), m (rg + 8), m (rg + 12)],
      kernel_fatal ''r4:0x%x r5:0x%x r6:0x%x r7:0x%x\<newline>'' [m (rg + 16), m (rg + 20), m (rg + 24), m (rg + 28)],
      kernel_fatal ''r8:0x%x r9:0x%x r10:0x%x r11:0x%x\<newline>'' [m (rg + 32), m (rg + 36), m (rg + 40), m (rg + 44)],
      kernel_fatal ''r12:0x%x sp:0x%x lr:0x%x pc:0x%x\<newline>'' [m (rg + 48), m (rg + 60), m (rg + 56), m (rg + 68)]]"

section \<open>Entries\<close>

text \<open>
  The code that \<^verbatim>\<open>prefetch_abort\<close> and \<^verbatim>\<open>data_abort\<close> share, after the correction of the link register by \<open>off\<close>: the
  stack pointer it hands to \<^verbatim>\<open>data_abort_handler\<close>, and the memory.
\<close>

definition abort_enter :: "u32 \<Rightarrow> cpu \<Rightarrow> wmem \<Rightarrow> u32 \<times> wmem" where
  "abort_enter off c m =
     (let lr = c_lr_abt c - off;
          (sp, m) = push_words [lr] (c_sp_abt c) m;
          lr = c_spsr_abt c;
          (sp, m) = push_words [lr] sp m;
          sp = sp - 12;
          (sp, m) = push_words (rev (c_gen c)) sp m;
          r0 = lr AND MODE_MASK;
          (r2, r3, r4) = (if r0 = SVC_MODE then svc_to_irq c else (c_gen c ! 2, c_gen c ! 3, c_gen c ! 4));
          m = m(sp + 60 := r4);
          m = m(sp + 56 := r3);
          m = m(sp + 52 := r2)
      in (sp, m))"

definition data_abort :: "cpu \<Rightarrow> wmem \<Rightarrow> message list" where
  "data_abort c m = (let (sp, m) = abort_enter 8 c m in data_abort_handler sp m)"

definition prefetch_abort :: "cpu \<Rightarrow> wmem \<Rightarrow> message list" where
  "prefetch_abort c m = (let (sp, m) = abort_enter 4 c m in data_abort_handler sp m)"

text \<open>\<^verbatim>\<open>undefined_instruction\<close>, which saves five registers and returns at once.\<close>

definition undefined_instruction :: "cpu \<Rightarrow> wmem \<Rightarrow> cpu \<times> wmem" where
  "undefined_instruction c m =
     (let (sp, m) = push_words (c_lr_und c # rev (take 4 (c_gen c))) (c_sp_und c) m;
          c = c\<lparr>c_gen := map (\<lambda>i. m (sp + 4 * of_nat i)) [0..<4] @ drop 4 (c_gen c)\<rparr>;
          sp' = sp + 20
      in (c\<lparr>c_sp_und := sp', c_pc := m (sp + 16), c_cpsr := c_spsr_und c\<rparr>, m))"

section \<open>Properties\<close>

text \<open>The registers of the frame.\<close>

definition abort_ctx :: "u32 \<Rightarrow> cpu \<Rightarrow> pt_regs" where
  "abort_ctx off c = (let svc = c_spsr_abt c AND MODE_MASK = SVC_MODE in
     \<lparr>r_gen = c_gen c, r_spsr = (if svc then c_spsr c else c_gen c ! 2), r_lr = (if svc then c_lr c else c_gen c ! 3),
      r_sp = (if svc then c_sp c else c_gen c ! 4), r_cpsr = c_spsr_abt c, r_pc = c_lr_abt c - off\<rparr>)"

lemma abort_enter_frame:
  assumes len: "length (c_gen c) = 13" and e: "abort_enter off c m = (sp, m')"
  shows "sp + 72 = c_sp_abt c" "words_at m' sp (frame_words (abort_ctx off c))"
proof -
  let ?m0 = "m(c_sp_abt c - 4 := c_lr_abt c - off, c_sp_abt c - 8 := c_spsr_abt c)" and ?r = "abort_ctx off c"
  obtain sp1 m1 where p: "push_words (rev (c_gen c)) (c_sp_abt c - 20) ?m0 = (sp1, m1)" by (cases "push_words (rev (c_gen c)) (c_sp_abt c - 20) ?m0")
  have fin: "sp = sp1 \<and> m' = m1(sp1 + 60 := r_sp ?r, sp1 + 56 := r_lr ?r, sp1 + 52 := r_spsr ?r)"
    using e p by (auto simp: abort_enter_def Let_def abort_ctx_def svc_to_irq_def diff_diff_eq simp del: fun_upd_apply split: if_splits)
  note ps = push_words_spec [OF _ p, unfolded length_rev rev_rev_ident len]
  have top: "c_sp_abt c = sp1 + 72" using ps(1) by (simp add: algebra_simps)
  then show "sp + 72 = c_sp_abt c" using fin by simp
  have far: "sp1 + 4 * of_nat j \<noteq> sp1 + 4 * of_nat i" if "i < 13" "13 \<le> j" "j < 18" for i j
    using word_step_inj [of i j sp1] that by auto
  have "m1 (sp1 + 4 * of_nat j) = ?m0 (sp1 + 4 * of_nat j)" if "13 \<le> j" "j < 18" for j
    using far that by (intro ps(3)) simp_all
  from this [of 16] this [of 17] have u: "m1 (sp1 + 64) = r_cpsr ?r" "m1 (sp1 + 68) = r_pc ?r"
    by (simp_all add: top abort_ctx_def Let_def)
  have "words_at m' sp1 (c_gen c)"
  proof (rule words_at_cong [OF _ ps(2)])
    fix i assume "i < length (c_gen c)"
    then show "m' (sp1 + 4 * of_nat i) = m1 (sp1 + 4 * of_nat i)"
      using fin len word_step_inj [of i 13 sp1] word_step_inj [of i 14 sp1] word_step_inj [of i 15 sp1] by simp
  qed simp
  then show "words_at m' sp (frame_words ?r)"
    using fin len u by (simp add: frame_words_def words_at_append words_at_Cons words_at_Nil add.assoc) (simp add: abort_ctx_def Let_def)
qed

lemma handler_reports:
  assumes "words_at m sp (frame_words r)" "length (r_gen r) = 13"
  shows "data_abort_handler sp m =
    [kernel_fatal ''panic : data abort fatal error regs address 0x%x\<newline>'' [sp],
     kernel_fatal ''cpsr:0x%x spsr:0x%x\<newline>'' [r_cpsr r, r_spsr r],
     kernel_fatal ''r0:0x%x r1:0x%x r2:0x%x r3:0x%x\<newline>'' (take 4 (r_gen r)),
     kernel_fatal ''r4:0x%x r5:0x%x r6:0x%x r7:0x%x\<newline>'' (take 4 (drop 4 (r_gen r))),
     kernel_fatal ''r8:0x%x r9:0x%x r10:0x%x r11:0x%x\<newline>'' (take 4 (drop 8 (r_gen r))),
     kernel_fatal ''r12:0x%x sp:0x%x lr:0x%x pc:0x%x\<newline>'' [r_gen r ! 12, r_sp r, r_lr r, r_pc r]]"
proof -
  have w: "m (sp + 4 * of_nat i) = frame_words r ! i" if "i < 18" for i
    using assms that by (simp add: words_at_def frame_words_def)
  obtain a b c d e f g h i j k l n where r: "r_gen r = [a, b, c, d, e, f, g, h, i, j, k, l, n]"
    using assms(2) by (auto simp: numeral_eq_Suc length_Suc_conv)
  note fw = frame_words_def r
  show ?thesis
    using w [of 0] w [of 1] w [of 2] w [of 3] w [of 4] w [of 5] w [of 6] w [of 7] w [of 8] w [of 9] w [of 10] w [of 11] w [of 12]
      w [of 13] w [of 14] w [of 15] w [of 16] w [of 17]
    by (simp add: data_abort_handler_def fw)
qed

text \<open>
  C29. What is reported of an instruction that aborts: its address, its status and the general registers, and in the
  supervisor mode the stack pointer, the link register and the saved status of the mode.  In every other mode the
  values shown as these three are the registers \<^verbatim>\<open>r4\<close>, \<^verbatim>\<open>r3\<close> and \<^verbatim>\<open>r2\<close>: neither entry has the case of the user mode that \<^verbatim>\<open>irq\<close> has.
  An abort of the fetch is reported as one of the data.
\<close>

theorem abort_reports:
  assumes "length (c_gen c) = 13"
  shows "data_abort (take_data_abort c) m =
    (let svc = c_cpsr c AND MODE_MASK = SVC_MODE; g = c_gen c in
     [kernel_fatal ''panic : data abort fatal error regs address 0x%x\<newline>'' [c_sp_abt c - 72],
      kernel_fatal ''cpsr:0x%x spsr:0x%x\<newline>'' [c_cpsr c, if svc then c_spsr c else g ! 2],
      kernel_fatal ''r0:0x%x r1:0x%x r2:0x%x r3:0x%x\<newline>'' (take 4 g),
      kernel_fatal ''r4:0x%x r5:0x%x r6:0x%x r7:0x%x\<newline>'' (take 4 (drop 4 g)),
      kernel_fatal ''r8:0x%x r9:0x%x r10:0x%x r11:0x%x\<newline>'' (take 4 (drop 8 g)),
      kernel_fatal ''r12:0x%x sp:0x%x lr:0x%x pc:0x%x\<newline>''
        [g ! 12, if svc then c_sp c else g ! 4, if svc then c_lr c else g ! 3, c_pc c]]) \<and>
    prefetch_abort (take_prefetch_abort c) m = data_abort (take_data_abort c) m"
proof -
  have "data_abort_handler sp m' = data_abort_handler (c_sp_abt c - 72) m' \<and> words_at m' (c_sp_abt c - 72) (frame_words (abort_ctx 0 (take_abort 0 c)))"
    if "abort_enter off (take_abort off c) m = (sp, m')" for off sp m'
  proof -
    have l: "length (c_gen (take_abort off c)) = 13" using assms by (simp add: take_abort_def)
    have x: "abort_ctx off (take_abort off c) = abort_ctx 0 (take_abort 0 c)" by (simp add: abort_ctx_def take_abort_def Let_def cong: if_cong)
    have "sp = c_sp_abt c - 72" using abort_enter_frame(1) [OF l that] by (simp add: take_abort_def algebra_simps)
    then show ?thesis using abort_enter_frame(2) [OF l that] unfolding x by simp
  qed
  note f = this
  have g: "length (r_gen (abort_ctx 0 (take_abort 0 c))) = 13" using assms by (simp add: abort_ctx_def take_abort_def Let_def cong: if_cong)
  obtain sp m' sp' m'' where r: "abort_enter 8 (take_abort 8 c) m = (sp, m')" "abort_enter 4 (take_abort 4 c) m = (sp', m'')" by fastforce
  show ?thesis
    using f [OF r(1)] f [OF r(2)] handler_reports [OF _ g] r
    by (simp add: data_abort_def prefetch_abort_def take_data_abort_def take_prefetch_abort_def)
      (simp add: abort_ctx_def take_abort_def Let_def cong: if_cong)
qed

text \<open>A user program whose stack pointer is \<open>0x7ffff000\<close>: the report shows its \<^verbatim>\<open>r4\<close>, 104, instead.\<close>

theorem abort_reports_witness:
  "\<exists>ms. data_abort (take_data_abort (demo_cpu\<lparr>c_cpsr := 0x10\<rparr>)) (\<lambda>_. 0) = ms @
     [kernel_fatal ''r12:0x%x sp:0x%x lr:0x%x pc:0x%x\<newline>'' [112, 104, 103, 0xc0000200]]"
proof -
  have "length (c_gen (demo_cpu\<lparr>c_cpsr := 0x10\<rparr>)) = 13" by (simp add: demo_cpu_def)
  from abort_reports [OF this, of "\<lambda>_. 0"] show ?thesis
    by (simp add: demo_cpu_def Let_def)
qed

text \<open>
  An undefined instruction is skipped: the task goes on behind it with every register and the status it had, and only
  five words of the stack of the mode change.
\<close>

theorem undefined_skipped:
  assumes "length (c_gen c) = 13"
  shows "\<exists>m'. undefined_instruction (take_undefined c) m =
      (c\<lparr>c_pc := c_pc c + 4, c_lr_und := c_pc c + 4, c_spsr_und := c_cpsr c\<rparr>, m') \<and>
    (\<forall>a. (\<forall>i \<in> {1..5}. a \<noteq> c_sp_und c - 4 * of_nat i) \<longrightarrow> m' a = m a)"
proof -
  let ?c = "take_undefined c" and ?xs = "(c_pc c + 4) # rev (take 4 (c_gen c))"
  obtain sp m' where p: "push_words ?xs (c_sp_und c) m = (sp, m')" by (cases "push_words ?xs (c_sp_und c) m")
  have len: "length ?xs = 5" using assms by simp
  note ps = push_words_spec [OF _ p, unfolded len]
  have sp: "sp = c_sp_und c - 20" using ps(1) by (simp add: algebra_simps)
  have w: "words_at m' sp (take 4 (c_gen c) @ [c_pc c + 4])" using ps(2) by simp
  then have pc: "m' (sp + 16) = c_pc c + 4" using assms by (simp add: words_at_append words_at_Cons)
  have g: "map (\<lambda>i. m' (sp + 4 * of_nat i)) [0..<4] = take 4 (c_gen c)"
    using w assms by (intro nth_equalityI) (auto simp: words_at_def nth_append simp del: upt_rec_numeral)
  have "undefined_instruction ?c m = (c\<lparr>c_pc := c_pc c + 4, c_lr_und := c_pc c + 4, c_spsr_und := c_cpsr c\<rparr>, m')"
    using p g pc sp by (simp add: undefined_instruction_def take_undefined_def Let_def del: upt_rec_numeral push_words.simps)
  moreover have "m' a = m a" if a: "\<forall>i \<in> {1..5}. a \<noteq> c_sp_und c - 4 * of_nat i" for a
  proof (rule ps(3))
    fix i :: nat assume "i < 5"
    then have "a \<noteq> c_sp_und c - 4 * of_nat (5 - i)" using bspec [OF a, of "5 - i"] by simp
    then show "a \<noteq> sp + 4 * of_nat i" using \<open>i < 5\<close> by (simp add: sp of_nat_diff algebra_simps)
  qed simp
  ultimately show ?thesis by blast
qed

theorem undefined_skipped_witness:
  "\<exists>m'. undefined_instruction (take_undefined demo_cpu) (\<lambda>_. 0) =
     (demo_cpu\<lparr>c_pc := 0xc0000204, c_lr_und := 0xc0000204, c_spsr_und := 0x13\<rparr>, m') \<and> m' 0xc000d000 = 0"
proof -
  have l: "length (c_gen demo_cpu) = 13" "c_pc demo_cpu = 0xc0000200" "c_cpsr demo_cpu = 0x13" "c_sp_und demo_cpu = 0xc000d000"
    by (simp_all add: demo_cpu_def)
  have "0xc000d000 \<noteq> (0xc000d000 :: u32) - 4 * of_nat i" if "i \<in> {1..5}" for i
    using word_step_inj [of 0 i 0] that by auto
  then show ?thesis using undefined_skipped [OF l(1), of "\<lambda>_. 0"] l by auto
qed

end
