(* ===== verification/ForkProps.thy ===== *)
theory ForkProps
  imports TaskProps
begin

text \<open>
  The copy of a process: what \<^verbatim>\<open>copy_process\<close> leaves in the pages of a child, whatever pages parent and
  child have.
\<close>

section \<open>Addresses of a page\<close>

lemma unat_page:
  assumes "0 \<le> p" "p < 2 ^ 20"
  shows "unat (push_bit 12 (word_of_int p) :: u32) = 4096 * nat p"
proof -
  have "uint (push_bit 12 (word_of_int p) :: u32) = p * 4096"
    using assms by (simp add: push_bit_eq_mult uint_word_ariths uint_word_of_int)
  then have "int (unat (push_bit 12 (word_of_int p) :: u32)) = int (4096 * nat p)" using assms(1) by simp
  then show ?thesis by (simp only: of_nat_eq_iff)
qed

lemma in_page:
  assumes p: "0 \<le> p" "p < 2 ^ 20"
  shows "unat (a - page_to_va p s) < 4096 \<longleftrightarrow> va_to_page a s = p"
proof -
  let ?d = "a - kernel_start s" and ?b = "push_bit 12 (word_of_int p) :: u32"
  have b: "unat ?b = 4096 * nat p" by (rule unat_page [OF p])
  have d: "a - page_to_va p s = ?d - ?b"
    by (simp add: page_to_va_def page_id_to_va_def page_to_page_id_def diff_diff_eq)
  have v: "va_to_page a s = int (unat ?d div 4096)"
    by (simp add: va_to_page_def get_page_def drop_bit_eq_div uint_div zdiv_int)
  have lt: "4096 * nat p + 4096 \<le> 2 ^ 32" using p by (simp add: nat_less_iff)
  have "unat (?d - ?b) < 4096 \<longleftrightarrow> 4096 * nat p \<le> unat ?d \<and> unat ?d < 4096 * nat p + 4096"
  proof -
    have "?b = of_nat (4096 * nat p)" unfolding b [symmetric] by simp
    then show ?thesis using unat_sub_shift [OF lt, of a "kernel_start s"] by (simp add: diff_diff_eq)
  qed
  also have "\<dots> \<longleftrightarrow> unat ?d div 4096 = nat p" by (auto intro: div_nat_eqI simp: div_mult_mod_eq)
  also have "\<dots> \<longleftrightarrow> va_to_page a s = p" unfolding v using p(1) by auto
  finally show ?thesis unfolding d .
qed

text \<open>A page copied to another.\<close>

lemma page_to_va_and3:
  assumes "is_aligin (kernel_start s) PAGE_SIZE"
  shows "page_to_va p s AND 3 = 0"
proof -
  have "page_to_va p s AND 0xfff = 0" using page_to_va_aligin [OF assms, of p] by (simp add: is_aligin_def)
  moreover have "page_to_va p s AND 3 = (page_to_va p s AND 0xfff) AND 3" by (simp add: and.assoc)
  ultimately show ?thesis by simp
qed

lemma copy_page:
  assumes al: "is_aligin (kernel_start s) PAGE_SIZE" and p: "0 \<le> p" "p < 2 ^ 20" and q: "0 \<le> q" "q < 2 ^ 20" and ne: "p \<noteq> q"
  shows "copy_page_va (page_to_va q s) (page_to_va p s) m a =
    (if va_to_page a s = q then m (page_to_va p s + (a - page_to_va q s)) else m a)"
proof -
  have "apart (unat (4096 :: u32)) (page_to_va q s) (page_to_va p s)"
    unfolding apart_def
  proof (intro allI impI)
    fix i assume i: "i < unat (4096 :: u32)"
    then have "unat (page_to_va p s + of_nat i - page_to_va p s) < 4096" by (simp add: unat_of_nat_u32)
    then have "va_to_page (page_to_va p s + of_nat i) s = p" using in_page [OF p] by blast
    then have "\<not> unat (page_to_va p s + of_nat i - page_to_va q s) < 4096" using in_page [OF q, of "page_to_va p s + of_nat i" s] ne by simp
    then show "unat (4096 :: u32) \<le> unat (page_to_va p s + of_nat i - page_to_va q s)" by simp
  qed
  then have "copy_page_va (page_to_va q s) (page_to_va p s) m = mcopy 4096 (page_to_va q s) (page_to_va p s) m"
    unfolding copy_page_va_def using memcpy_mcopy [of 4096 "page_to_va q s" "page_to_va p s" m] page_to_va_and3 [OF al, of q] by simp
  then show ?thesis using in_page [OF q, of a s] by (simp add: mcopy_def)
qed

section \<open>Copying the pages of a list\<close>

definition page_copy :: "mstate \<Rightarrow> int list \<Rightarrow> int list \<Rightarrow> mem \<Rightarrow> mem" where
  "page_copy s ps qs m a =
     (case map_of (zip qs ps) (va_to_page a s) of
        Some p \<Rightarrow> m (page_to_va p s + (a - page_to_va (va_to_page a s) s))
      | None \<Rightarrow> m a)"

definition pages_ok :: "int list \<Rightarrow> int list \<Rightarrow> bool" where
  "pages_ok ps qs \<longleftrightarrow> length ps = length qs \<and> distinct qs \<and> set ps \<inter> set qs = {} \<and> set ps \<union> set qs \<subseteq> {0..<2 ^ 20}"

lemma page_copy_Nil [simp]: "page_copy s [] [] m = m"
  by (simp add: page_copy_def fun_eq_iff)

lemma va_to_page_in:
  assumes p: "0 \<le> p" "p < 2 ^ 20" and q: "0 \<le> q" "q < 2 ^ 20" and a: "va_to_page a s = q"
  shows "va_to_page (page_to_va p s + (a - page_to_va q s)) s = p"
  using in_page [OF p, of "page_to_va p s + (a - page_to_va q s)" s] in_page [OF q, of a s] a by simp

lemma page_copy_Cons:
  assumes al: "is_aligin (kernel_start s) PAGE_SIZE" and ok: "pages_ok (p # ps) (q # qs)"
  shows "page_copy s ps qs (copy_page_va (page_to_va q s) (page_to_va p s) m) = page_copy s (p # ps) (q # qs) m"
proof
  fix a
  have pq: "0 \<le> p" "p < 2 ^ 20" "0 \<le> q" "q < 2 ^ 20" "p \<noteq> q" using ok by (auto simp: pages_ok_def)
  note c = copy_page [OF al pq(1-5)]
  show "page_copy s ps qs (copy_page_va (page_to_va q s) (page_to_va p s) m) a = page_copy s (p # ps) (q # qs) m a"
  proof (cases "map_of (zip qs ps) (va_to_page a s)")
    case None
    then show ?thesis by (auto simp: page_copy_def c)
  next
    case (Some p')
    then have mem: "va_to_page a s \<in> set qs" "p' \<in> set ps" by (auto dest: map_of_SomeD set_zip_leftD set_zip_rightD)
    then have ne: "va_to_page a s \<noteq> q" "p' \<noteq> q" using ok by (auto simp: pages_ok_def)
    have b: "0 \<le> p'" "p' < 2 ^ 20" "0 \<le> va_to_page a s" "va_to_page a s < 2 ^ 20" using ok mem by (auto simp: pages_ok_def)
    have "va_to_page (page_to_va p' s + (a - page_to_va (va_to_page a s) s)) s = p'" by (rule va_to_page_in [OF b refl])
    then show ?thesis using Some ne by (simp add: page_copy_def c)
  qed
qed

lemma copy_pages_loop_spec:
  assumes al: "is_aligin (kernel_start (sm (ss s))) PAGE_SIZE"
    and h: "dseg (lists (tk s)) a (map N_page ws @ us) r" "dseg (lists (tk s)) b (map N_page vs @ us') r'"
    and ok: "pages_ok (map uint ws) (map uint vs)"
  shows "copy_pages_loop (length ws) a b s = Some (s\<lparr>bm := page_copy (sm (ss s)) (map uint ws) (map uint vs) (bm s)\<rparr>)"
  using assms
proof (induction ws arbitrary: a b vs s)
  case Nil
  then show ?case by (simp add: pages_ok_def)
next
  case (Cons w ws)
  then obtain v vs' where vs: "vs = v # vs'" by (cases vs) (auto simp: pages_ok_def)
  let ?s1 = "s\<lparr>bm := copy_page_va (page_to_va (uint v) (sm (ss s))) (page_to_va (uint w) (sm (ss s))) (bm s)\<rparr>"
  have ok: "pages_ok (map uint ws) (map uint vs')" using Cons.prems(4) vs by (auto simp: pages_ok_def)
  have "copy_pages_loop (length ws) (N_page w) (N_page v) ?s1 =
      Some (?s1\<lparr>bm := page_copy (sm (ss s)) (map uint ws) (map uint vs') (bm ?s1)\<rparr>)"
    using Cons.IH [of ?s1 "N_page w" "N_page v" vs'] Cons.prems vs ok by simp
  then show ?case
    using page_copy_Cons [OF Cons.prems(1), of "uint w" "map uint ws" "uint v" "map uint vs'" "bm s"] Cons.prems vs
    by (simp add: list_next_def Let_def)
qed

section \<open>The copy of a process\<close>

lemma dlist_split:
  assumes "list_rel h F" "F r = Some (map N_page ws)" "n \<le> length ws"
  shows "dseg h r (map N_page (take n ws) @ map N_page (drop n ws)) r"
  using assms by (simp add: list_rel_def dlist_def flip: map_append)

lemma map_of_nth:
  assumes "length ps = length qs" "distinct qs" "i < length qs"
  shows "map_of (zip qs ps) (qs ! i) = Some (ps ! i)"
  using assms map_of_zip_nth by metis

lemma pages_okI:
  fixes ws vs :: "u32 list"
  assumes "length ws = length vs" "distinct vs" "set ws \<inter> set vs = {}" "\<forall>w \<in> set ws \<union> set vs. uint w < 2 ^ 20"
  shows "pages_ok (map uint ws) (map uint vs)"
  using assms by (auto simp: pages_ok_def distinct_map inj_on_def word_uint_eq_iff [symmetric])

lemma va_to_page_offset:
  assumes "0 \<le> q" "q < 2 ^ 20" "j < 4096"
  shows "va_to_page (page_to_va q s + of_nat j) s = q"
  using in_page [OF assms(1,2), of "page_to_va q s + of_nat j" s] assms(3) by (simp add: unat_of_nat_u32)

lemma page_copy_at:
  assumes ok: "pages_ok ps qs" and i: "i < length qs" "j < 4096"
  shows "page_copy s ps qs m (page_to_va (qs ! i) s + of_nat j) = m (page_to_va (ps ! i) s + of_nat j)"
proof -
  have "qs ! i \<in> set qs" using i(1) by simp
  then have q: "0 \<le> qs ! i" "qs ! i < 2 ^ 20" using ok by (auto simp: pages_ok_def)
  have "va_to_page (page_to_va (qs ! i) s + of_nat j) s = qs ! i"
    by (rule va_to_page_offset [OF q i(2)])
  then show ?thesis using map_of_nth [of ps qs i] ok i(1) by (simp add: page_copy_def pages_ok_def)
qed

lemma page_copy_other:
  assumes "length ps = length qs" "va_to_page a s \<notin> set qs"
  shows "page_copy s ps qs m a = m a"
  using assms by (simp add: page_copy_def map_of_zip_is_None [THEN iffD2])

text \<open>The pages of a part of a process: of its stack, and of its image with the page of the arguments.\<close>

definition stack_pages :: "u32 \<Rightarrow> tstate \<Rightarrow> nat" where
  "stack_pages t s = nat ((stack_size (t_mm (task (tk s) t)) + 4095) div 4096)"

definition image_pages :: "u32 \<Rightarrow> tstate \<Rightarrow> nat" where
  "image_pages t s = nat ((elf_size (t_mm (task (tk s) t)) + 8191) div 4096)"

text \<open>
  C24. The memory of a child: \<^verbatim>\<open>copy_process\<close> returns 0; each page of the child's stack and image that the
  sizes of the process cover (\<^verbatim>\<open>stack_size\<close>, and \<^verbatim>\<open>elf_size\<close> with the page of the arguments) then holds the bytes of the page of its
  parent in the same place, and no other byte of the memory, those of its further pages included, and nothing else in the kernel
  changes.  The pages of the child are its own.
\<close>

theorem child_memory_copied:
  assumes rel: "list_rel (lists (tk s)) F" and al: "is_aligin (kernel_start (sm (ss s))) PAGE_SIZE"
    and old: "old = t_parent (task (tk s) new)" "old \<noteq> NULL"
    and F: "F (N_elf_stack_list old) = Some (map N_page ps)" "F (N_elf_stack_list new) = Some (map N_page qs)"
      "F (N_elf_image_list old) = Some (map N_page ps')" "F (N_elf_image_list new) = Some (map N_page qs')"
    and n: "n = stack_pages new s" "n \<le> length ps" "n \<le> length qs" "n' = image_pages new s" "n' \<le> length ps'" "n' \<le> length qs'"
    and own: "distinct (qs @ qs')" "set (ps @ ps') \<inter> set (qs @ qs') = {}" "\<forall>w \<in> set (ps @ ps' @ qs @ qs'). uint w < 2 ^ 20"
  shows "\<exists>m. copy_process new s = Some (0, s\<lparr>bm := m\<rparr>) \<and>
    (\<forall>i < n. \<forall>j < 4096. m (page_to_va (uint (qs ! i)) (sm (ss s)) + of_nat j) = bm s (page_to_va (uint (ps ! i)) (sm (ss s)) + of_nat j)) \<and>
    (\<forall>i < n'. \<forall>j < 4096. m (page_to_va (uint (qs' ! i)) (sm (ss s)) + of_nat j) = bm s (page_to_va (uint (ps' ! i)) (sm (ss s)) + of_nat j)) \<and>
    (\<forall>a. va_to_page a (sm (ss s)) \<notin> uint ` set (take n qs @ take n' qs') \<longrightarrow> m a = bm s a)"
proof -
  let ?M = "sm (ss s)"
  let ?A = "map uint (take n ps)" and ?B = "map uint (take n qs)" and ?A' = "map uint (take n' ps')" and ?B' = "map uint (take n' qs')"
  have sub: "set (take n ps) \<subseteq> set ps" "set (take n qs) \<subseteq> set qs" "set (take n' ps') \<subseteq> set ps'" "set (take n' qs') \<subseteq> set qs'"
    by (rule set_take_subset)+
  have dis: "distinct qs" "distinct qs'" "set qs \<inter> set qs' = {}" using own(1) by simp_all
  have ok: "pages_ok ?A ?B" by (rule pages_okI) (use sub dis own n in auto)
  have ok': "pages_ok ?A' ?B'" by (rule pages_okI) (use sub dis own n in auto)
  define m1 where "m1 = page_copy ?M ?A ?B (bm s)"
  define m2 where "m2 = page_copy ?M ?A' ?B' m1"
  have l1: "copy_pages_loop n (N_elf_stack_list old) (N_elf_stack_list new) s = Some (s\<lparr>bm := m1\<rparr>)"
    using copy_pages_loop_spec [OF al dlist_split [OF rel F(1) n(2)] dlist_split [OF rel F(2) n(3)] ok] n(2) by (simp add: m1_def)
  have l2: "copy_pages_loop n' (N_elf_image_list old) (N_elf_image_list new) (s\<lparr>bm := m1\<rparr>) = Some (s\<lparr>bm := m2\<rparr>)"
    using copy_pages_loop_spec [of "s\<lparr>bm := m1\<rparr>" "N_elf_image_list old" "take n' ps'" _ _ "N_elf_image_list new" "take n' qs'"]
      al dlist_split [OF rel F(3) n(5)] dlist_split [OF rel F(4) n(6)] ok' n(5) by (simp add: m2_def)
  have "copy_process new s = Some (0, s\<lparr>bm := m2\<rparr>)"
    using l1 l2 old n(1,4) int_aligin_eq [of _ 12]
    by (simp add: copy_process_def copy_process_memory_def Let_def stack_pages_def image_pages_def add.commute)
  moreover have "m2 (page_to_va (uint (qs ! i)) ?M + of_nat j) = bm s (page_to_va (uint (ps ! i)) ?M + of_nat j)" if "i < n" "j < 4096" for i j
  proof -
    have "qs ! i \<in> set qs" using that(1) n(3) by simp
    then have "uint (qs ! i) \<notin> set ?B'" using dis(3) sub(4) by (auto simp: word_uint_eq_iff [symmetric])
    moreover have "va_to_page (page_to_va (uint (qs ! i)) ?M + of_nat j) ?M = uint (qs ! i)"
      using that(2) own(3) \<open>qs ! i \<in> set qs\<close> by (intro va_to_page_offset) auto
    ultimately show ?thesis
      using page_copy_at [OF ok, of i j ?M "bm s"] page_copy_other [of ?A' ?B'] ok' that n(2,3) by (simp add: m1_def m2_def pages_ok_def)
  qed
  moreover have "m2 (page_to_va (uint (qs' ! i)) ?M + of_nat j) = bm s (page_to_va (uint (ps' ! i)) ?M + of_nat j)" if "i < n'" "j < 4096" for i j
  proof -
    have "ps' ! i \<in> set ps'" using that(1) n(5) by simp
    then have "uint (ps' ! i) \<notin> set ?B" using own(2) sub(2) by (auto simp: word_uint_eq_iff [symmetric])
    moreover have "va_to_page (page_to_va (uint (ps' ! i)) ?M + of_nat j) ?M = uint (ps' ! i)"
      using that(2) own(3) \<open>ps' ! i \<in> set ps'\<close> by (intro va_to_page_offset) auto
    ultimately show ?thesis
      using page_copy_at [OF ok', of i j ?M m1] page_copy_other [of ?A ?B] ok that n(5,6) by (simp add: m1_def m2_def pages_ok_def)
  qed
  moreover have "m2 a = bm s a" if a: "va_to_page a ?M \<notin> uint ` set (take n qs @ take n' qs')" for a
  proof -
    have "va_to_page a ?M \<notin> set ?B" "va_to_page a ?M \<notin> set ?B'" using a by auto
    then show ?thesis
      using page_copy_other [of ?A' ?B' a ?M m1] page_copy_other [of ?A ?B a ?M "bm s"] n by (simp add: m1_def m2_def)
  qed
  ultimately show ?thesis by blast
qed

section \<open>Instance\<close>

text \<open>A parent at \<open>0x5000\<close> with the pages 5 and 7 and a child at \<open>0x6000\<close> with the pages 6 and 8.\<close>

definition put_page :: "node \<Rightarrow> u32 \<Rightarrow> kstate \<Rightarrow> kstate" where
  "put_page r w = on_lists (\<lambda>h. list_add r (N_page w) (init_list r h))"

definition child_demo :: tstate where
  "child_demo = (let k = put_page (N_elf_stack_list 0x5000) 5 (put_page (N_elf_stack_list 0x6000) 6
       (put_page (N_elf_image_list 0x5000) 7 (put_page (N_elf_image_list 0x6000) 8 demo_ks)));
     k = upd_task 0x6000 (\<lambda>ts. ts\<lparr>t_parent := 0x5000, t_mm := (t_mm ts)\<lparr>stack_size := 100, elf_size := 0\<rparr>\<rparr>) k
   in on_k (\<lambda>_. k) (fork_demo\<lparr>bm := \<lambda>a. ucast a\<rparr>))"

lemma put_page_rel:
  assumes "list_rel (lists k) F" "fresh F r" "fresh F (N_page w)" "r \<noteq> N_page w"
  shows "list_rel (lists (put_page r w k)) (F(r \<mapsto> [N_page w]))"
proof -
  have "list_rel (list_add r (N_page w) (init_list r (lists k))) (F(r \<mapsto> [], r \<mapsto> [N_page w]))"
    using assms by (intro os_list.rel_add os_list.rel_init) (auto simp: fresh_def)
  then show ?thesis by (simp add: put_page_def on_lists_def)
qed

lemma child_demo_rel:
  "list_rel (lists (tk child_demo)) (demo_F(N_elf_image_list 0x6000 \<mapsto> [N_page 8], N_elf_image_list 0x5000 \<mapsto> [N_page 7],
     N_elf_stack_list 0x6000 \<mapsto> [N_page 6], N_elf_stack_list 0x5000 \<mapsto> [N_page 5]))"
proof -
  have fr: "fresh demo_F (N_elf_stack_list t)" "fresh demo_F (N_elf_image_list t)" "fresh demo_F (N_page i)" for t i
    by (auto simp: fresh_def demo_F_def boot_lists_def boot_heads_def split: if_splits)
  have "list_rel (lists (put_page (N_elf_stack_list 0x5000) 5 (put_page (N_elf_stack_list 0x6000) 6
       (put_page (N_elf_image_list 0x5000) 7 (put_page (N_elf_image_list 0x6000) 8 demo_ks)))))
    (demo_F(N_elf_image_list 0x6000 \<mapsto> [N_page 8], N_elf_image_list 0x5000 \<mapsto> [N_page 7],
     N_elf_stack_list 0x6000 \<mapsto> [N_page 6], N_elf_stack_list 0x5000 \<mapsto> [N_page 5]))"
    using fr by (intro put_page_rel kinv_rel [OF demo_ks_kinv]) (auto simp: fresh_def split: if_splits)
  then show ?thesis by (simp add: child_demo_def Let_def on_k_def on_ks_def)
qed

theorem child_memory_copied_witness:
  "\<exists>m. copy_process 0x6000 child_demo = Some (0, child_demo\<lparr>bm := m\<rparr>) \<and> m 0xc0006010 = ucast (0xc0005010 :: u32) \<and>
     m 0xc0008004 = ucast (0xc0007004 :: u32) \<and> m 0xc0005010 = ucast (0xc0005010 :: u32)"
proof -
  let ?s = "child_demo"
  have t: "task (tk ?s) 0x6000 = (task demo_ks 0x6000)\<lparr>t_parent := 0x5000, t_mm := (t_mm (task demo_ks 0x6000))\<lparr>stack_size := 100, elf_size := 0\<rparr>\<rparr>"
    by (simp add: child_demo_def Let_def on_k_def on_ks_def put_page_def)
  have n: "1 = stack_pages 0x6000 ?s" "1 = image_pages 0x6000 ?s" "0x5000 = t_parent (task (tk ?s) 0x6000)"
    by (simp_all add: stack_pages_def image_pages_def t)
  have ks: "kernel_start (sm (ss ?s)) = 0xc0000000" "bm ?s = (\<lambda>a. ucast a)"
    using slab_demo_ok(5) by (simp_all add: child_demo_def Let_def on_k_def on_ks_def fork_demo_def mm_same_def machine_def)
  have va: "page_to_va 5 (sm (ss ?s)) = 0xc0005000" "page_to_va 6 (sm (ss ?s)) = 0xc0006000" "page_to_va 7 (sm (ss ?s)) = 0xc0007000"
    "page_to_va 8 (sm (ss ?s)) = 0xc0008000" "va_to_page 0xc0005010 (sm (ss ?s)) = 5"
    by (simp_all add: page_to_va_def page_id_to_va_def page_to_page_id_def va_to_page_def get_page_def ks(1))
  let ?F = "demo_F(N_elf_image_list 0x6000 \<mapsto> [N_page 8], N_elf_image_list 0x5000 \<mapsto> [N_page 7],
     N_elf_stack_list 0x6000 \<mapsto> [N_page 6], N_elf_stack_list 0x5000 \<mapsto> [N_page 5])"
  have F: "?F (N_elf_stack_list 0x5000) = Some (map N_page [5])" "?F (N_elf_stack_list 0x6000) = Some (map N_page [6])"
    "?F (N_elf_image_list 0x5000) = Some (map N_page [7])" "?F (N_elf_image_list 0x6000) = Some (map N_page [8])" by simp_all
  have "\<exists>m. copy_process 0x6000 ?s = Some (0, ?s\<lparr>bm := m\<rparr>) \<and>
    (\<forall>i < 1. \<forall>j < 4096. m (page_to_va (uint ([6 :: u32] ! i)) (sm (ss ?s)) + of_nat j) = bm ?s (page_to_va (uint ([5 :: u32] ! i)) (sm (ss ?s)) + of_nat j)) \<and>
    (\<forall>i < 1. \<forall>j < 4096. m (page_to_va (uint ([8 :: u32] ! i)) (sm (ss ?s)) + of_nat j) = bm ?s (page_to_va (uint ([7 :: u32] ! i)) (sm (ss ?s)) + of_nat j)) \<and>
    (\<forall>a. va_to_page a (sm (ss ?s)) \<notin> uint ` set (take 1 [6 :: u32] @ take 1 [8]) \<longrightarrow> m a = bm ?s a)"
    by (rule child_memory_copied [OF child_demo_rel _ n(3) _ F n(1) _ _ n(2)]) (simp_all add: ks is_aligin_def)
  then obtain m where m: "copy_process 0x6000 ?s = Some (0, ?s\<lparr>bm := m\<rparr>)"
    "\<forall>j < 4096. m (0xc0006000 + of_nat j) = ucast (0xc0005000 + of_nat j :: u32)"
    "\<forall>j < 4096. m (0xc0008000 + of_nat j) = ucast (0xc0007000 + of_nat j :: u32)"
    "m 0xc0005010 = ucast (0xc0005010 :: u32)"
    by (auto simp: va ks(2))
  then show ?thesis using spec [OF m(2), of 16] spec [OF m(3), of 4] by auto
qed

end
