(* ===== verification/UserMem.thy ===== *)
theory UserMem
  imports ForkProps PagePool
begin

text \<open>
  The memory of a user task: \<^verbatim>\<open>alloc_memory_for_task\<close> gives it a kernel stack, two page tables and the
  pages of its stack and of its image, all its own, and enters each page in the table where the
  processor looks for it.
\<close>

section \<open>Taking a page and putting it in a list\<close>

text \<open>The zone of the normal pages with the pages \<open>Fr\<close> free from its current position on.\<close>

definition pool_at :: "int set \<Rightarrow> node lists \<Rightarrow> mstate \<Rightarrow> bool" where
  "pool_at Fr F m \<longleftrightarrow> (\<exists>z. zone_pool GFP_KERNEL F z m \<and> Fr = ahead z m \<and> (\<forall>i \<in> Fr. page_idle F i))"

lemma zone_pool_flag: "gfp_zone_id f = gfp_zone_id g \<Longrightarrow> zone_pool f F z m \<longleftrightarrow> zone_pool g F z m"
  by (simp add: zone_pool_def)

lemma pool_at_range:
  assumes "pool_at Fr F m" "i \<in> Fr"
  shows "0 \<le> i" "i < 2 ^ 20"
proof -
  obtain z where z: "zone_pool GFP_KERNEL F z m" "Fr = ahead z m" using assms(1) by (auto simp: pool_at_def)
  then have "uint (bm_start z) \<le> i" "i < uint (bm_end z)" using assms(2) in_free_pages [OF z(1)] by (auto simp: ahead_def)
  then show "0 \<le> i" "i < 2 ^ 20" using order.trans [OF uint_ge_0] zone_bounds(6) [OF z(1)] by auto
qed

lemma pool_at_sel:
  assumes "pool_at Fr F m"
  shows "minv F m" "kinv F (ks m)" "is_aligin (kernel_start m) PAGE_SIZE"
  using assms by (auto simp: pool_at_def zone_pool_def minv_def)

lemma pool_grab:
  assumes pool: "pool_at Fr F m" and ne: "Fr \<noteq> {}" and flag: "gfp_zone_id flag = 0"
  obtains pg m' where "get_free_page flag m = Some (Some (page_to_va pg m), m')" "pg \<in> Fr" "page_to_va pg m \<noteq> NULL" "0 < pg" "pg < 2 ^ 20"
    "pool_at (Fr - {pg}) (F(N_page (word_of_int pg) \<mapsto> [])) m'"
    "\<forall>i. page_read i m' = (if i = pg then Some (new_page m pg 1 flag pg) else page_read i m)"
    "kernel_start m' = kernel_start m" "ks_quiet (ks m) (ks m')"
proof -
  obtain z where z: "zone_pool flag F z m" "Fr = ahead z m" "\<And>i. i \<in> Fr \<Longrightarrow> page_idle F i"
    using pool flag zone_pool_flag [of flag GFP_KERNEL F _ m] zone_id_kernel by (auto simp: pool_at_def)
  have ne': "free_pages_of z m \<noteq> {}" using ne z(2) by (auto simp: ahead_def)
  have "0 < card (ahead z m)" using ne z(2) by (simp add: card_gt_0_iff)
  then have sv: "serves (Suc 0) z m" unfolding serves_def by linarith
  obtain pg m' where g: "get_free_page flag m = Some (Some (page_to_va pg m), m')" "pg \<in> free_pages_of z m" "page_to_va pg m \<noteq> NULL"
    "0 < pg" "pg < 2 ^ 20" "pages_taken pg 1 flag (gfp_zone_id flag) (zone_take pg 1 z) m m'"
    "minv (with_nodes (page_nodes pg (pg + 1)) F) m'" "ahead z m \<noteq> {} \<longrightarrow> pg \<in> ahead z m \<and> (\<forall>i \<in> ahead z m. pg \<le> i)"
    by (rule pool_serves [OF z(1) ne' sv]) (use z(2,3) ne in blast)+
  have n: "with_nodes (page_nodes pg (pg + 1)) F = F(N_page (word_of_int pg) \<mapsto> [])"
    by (simp add: page_nodes_step with_nodes_insert)
  note t = pool_take [OF z(1) g(2,6,7)]
  have pg: "pg \<in> Fr" "ahead (zone_take pg 1 z) m' = Fr - {pg}"
    using g(8) serves_take(2) [OF z(1) g(2,8) t(3) sv] ne z(2) by blast+
  have "zone_pool GFP_KERNEL (F(N_page (word_of_int pg) \<mapsto> [])) (zone_take pg 1 z) m'"
    using t(1) n flag zone_pool_flag [of flag GFP_KERNEL] zone_id_kernel by simp
  moreover have "page_idle (F(N_page (word_of_int pg) \<mapsto> [])) i" if "i \<in> Fr - {pg}" for i
    using page_idle_with_nodes [OF z(3), of i "page_nodes pg (pg + 1)"] that n by auto
  ultimately have "pool_at (Fr - {pg}) (F(N_page (word_of_int pg) \<mapsto> [])) m'"
    unfolding pool_at_def using pg(2) by blast
  moreover have "page_read i m' = (if i = pg then Some (new_page m pg 1 flag pg) else page_read i m)" for i
    using g(6) by (auto simp: pages_taken_def)
  moreover have "kernel_start m' = kernel_start m" "ks_quiet (ks m) (ks m')" using g(6) by (simp_all add: pages_taken_def)
  ultimately show thesis using that g(1,3-5) pg(1) by blast
qed

lemma pool_at_page_write:
  assumes "pool_at Fr F m" "page_write pg p m = Some m'"
  shows "pool_at Fr F m'"
proof -
  note w = page_write_sel [OF assms(2)]
  have "used_pages m' = used_pages m" "free_pages_of z m' = free_pages_of z m" "ahead z m' = ahead z m" for z
    by (simp_all add: used_pages_def free_pages_of_def ahead_def w)
  moreover have "page_to_va i m' = page_to_va i m" for i by (rule page_to_va_cong [OF w(4)])
  moreover have "minv F m' \<longleftrightarrow> minv F m" "get_zone j m' = get_zone j m" for j using w by (simp_all add: minv_def get_zone_def)
  ultimately show ?thesis using assms(1) by (simp add: pool_at_def zone_pool_def w)
qed

text \<open>A list head that is no longer one.\<close>

lemma kinv_forget:
  assumes "kinv F k" "F n = Some []" "foreign n"
  shows "kinv (F(n := None)) k"
proof -
  let ?F = "F(n := None)"
  have base: "base_inv F k" using assms(1) by (simp add: kinv_defs)
  have on: "on ?F r x \<longleftrightarrow> on F r x" for r x using assms(2) by (auto simp: on_def)
  have live: "live ?F k t \<longleftrightarrow> live F k t" for t by (simp add: live_def on)
  note ne = foreign_neq [OF assms(3)]
  have sel: "?F (OsSched i) = F (OsSched i)" "?F (sn_head name) = F (sn_head name)" for i name
    using ne(1,5) by (simp_all add: not_sym)
  have "list_rel (lists k) ?F" using kinv_rel [OF assms(1)] by (auto simp: list_rel_def)
  then have "base_inv ?F k" using base unfolding base_inv_def sel on by simp
  moreover have "sem_inv {} ?F k" using assms(1) unfolding sem_inv_def on live by (simp add: kinv_defs sem_inv_def)
  moreover have "cur_inv ?F k" using assms(1) unfolding cur_inv_def live by (simp add: kinv_defs cur_inv_def)
  ultimately show ?thesis by (simp add: kinv_defs)
qed

text \<open>The lists of pages a task has.\<close>

definition page_list :: "node \<Rightarrow> bool" where
  "page_list n \<longleftrightarrow> (\<exists>t. n \<in> {N_stack_list t, N_elf_list t, N_elf_stack_list t, N_elf_image_list t})"

lemma page_list_foreign: "page_list n \<Longrightarrow> foreign n"
  by (auto simp: page_list_def foreign_def sched_heads_def)

definition enlist :: "node \<Rightarrow> u32 \<Rightarrow> u32 list \<Rightarrow> node lists \<Rightarrow> node lists" where
  "enlist head w ws F = F(N_page w := None, head \<mapsto> map N_page (ws @ [w]))"

lemma pool_enlist:
  assumes pool: "pool_at Fr F m" and F: "F (N_page w) = Some []" "F head = Some (map N_page ws)" "page_list head" and w: "uint w \<notin> Fr"
  shows "pool_at Fr (enlist head w ws F) (on_ks (on_lists (list_add_tail head (N_page w))) m)"
    "ks_quiet (ks m) (on_lists (list_add_tail head (N_page w)) (ks m))"
proof -
  let ?n = "N_page w" and ?G = "enlist head w ws F" and ?k = "ks m"
  have ne: "head \<noteq> ?n" using F(3) by (auto simp: page_list_def)
  note inv = pool_at_sel [OF pool]
  have rel: "list_rel (lists ?k) F" by (rule kinv_rel [OF inv(2)])
  have fr: "fresh (F(?n := None)) ?n"
    using rel F(1) by (auto simp: fresh_def list_rel_def)
  have k0: "kinv (F(?n := None)) ?k" by (rule kinv_forget [OF inv(2) F(1)]) simp
  have "list_rel (list_add_tail head ?n (lists ?k)) ((F(?n := None))(head \<mapsto> map N_page ws @ [?n]))"
    using F(2) ne fr by (intro os_list.rel_add_tail [OF kinv_rel [OF k0]]) simp_all
  then have "kinv ((F(?n := None))(head \<mapsto> map N_page ws @ [?n])) (on_lists (list_add_tail head ?n) ?k)"
    using page_list_foreign [OF F(3)] by (intro kinv_foreign [OF k0]) auto
  then have k1: "kinv ?G (on_lists (list_add_tail head ?n) ?k)" by (simp add: enlist_def)
  show q: "ks_quiet ?k (on_lists (list_add_tail head ?n) ?k)" by (rule ks_lists_quiet [OF ks_lists_on [OF ks_lists_refl]])
  have hd: "head \<noteq> M_wait x" "head \<noteq> M_task x" "head \<noteq> N_mutex_get t" "head \<noteq> N_page v" for x t v
    using F(3) by (auto simp: page_list_def)
  have mf: "mutex_free (ZoneMutex i) ?G (on_lists (list_add_tail head ?n) ?k)" if "i < 4" for i
  proof -
    have f: "mutex_free (ZoneMutex i) F ?k" using inv(1) that by (simp add: minv_def)
    then have "fresh ?G (M_task (ZoneMutex i))" using F(2) hd by (auto simp: mutex_free_def fresh_def enlist_def)
    then show ?thesis using hd by (intro mutex_free_transfer [OF f]) (simp_all add: enlist_def not_sym)
  qed
  have "minv ?G (on_ks (on_lists (list_add_tail head ?n)) m)" using inv(1) k1 mf by (simp add: minv_def on_ks_def)
  moreover have "page_idle ?G i" if i: "i \<in> Fr" for i
  proof -
    have b: "0 \<le> i" "i < 2 ^ 20" by (rule pool_at_range [OF pool i])+
    have "N_page (word_of_int i) \<noteq> ?n" using i w b by (auto simp: uint_word_of_int)
    moreover have "page_idle F i" using pool i by (auto simp: pool_at_def)
    moreover have "N_page (word_of_int i) \<notin> set (map N_page ws)" using \<open>page_idle F i\<close> F(2) unfolding page_idle_def by blast
    ultimately show ?thesis using hd(4) [of "word_of_int i"] by (auto simp: page_idle_def enlist_def split: if_splits)
  qed
  ultimately show "pool_at Fr ?G (on_ks (on_lists (list_add_tail head ?n)) m)"
    using pool unfolding pool_at_def
    by (auto simp: zone_pool_def on_ks_def used_pages_def free_pages_of_def ahead_def get_zone_def page_to_va_def page_id_to_va_def)
qed

section \<open>Entering a page in a page table\<close>

definition user_pte :: "u32 \<Rightarrow> u32" where
  "user_pte pa = build_page_table_des pa (get_page_table_attr 0)"

text \<open>The entry number \<open>i\<close> of a table that grows up or down from \<open>base\<close>.\<close>

definition slot :: "bool \<Rightarrow> u32 \<Rightarrow> nat \<Rightarrow> u32" where
  "slot up base i = (if up then base + 4 * of_nat i else base - 4 * of_nat i)"

lemma slot_0 [simp]: "slot up base 0 = base"
  by (simp add: slot_def)

lemma slot_Suc: "slot up (slot up base 1) i = slot up base (Suc i)"
  by (simp add: slot_def algebra_simps)

lemma pte_slot_inj:
  assumes "i < j" "j < 2 ^ 30"
  shows "slot up base i \<noteq> slot up base j"
proof (cases up)
  case True
  then show ?thesis using word_step_inj [OF assms, of base] by (simp add: slot_def)
next
  case False
  have "4 * of_nat i \<noteq> 4 * (of_nat j :: u32)" using word_step_inj [OF assms, of 0] by simp
  then show ?thesis using False by (auto simp: slot_def)
qed

lemma build_one_entry:
  assumes "page_read (va_to_page va m) m = Some p"
  shows "build_page_table_entry base va PAGE_SIZE 0 m w = Some (0, w(base := user_pte (phy_address p)))"
proof -
  have s: "sint (4096 :: u32) = 4096" "sint (0x100000 :: u32) = 0x100000" by simp_all
  have "va_to_pa va m = Some (phy_address p)" using assms by (simp add: va_to_pa_def page_to_pa_def)
  then show ?thesis
    by (simp add: build_page_table_entry_def build_page_table_entry_pa_def is_aligin_def user_pte_def for_loop.simps)
qed

definition curr_table :: "u32 \<Rightarrow> u32 \<Rightarrow> kstate \<Rightarrow> node option" where
  "curr_table flag t k = (if flag = PROCESS_MAP_STACK then stack_curr (t_mm (task k t)) else elf_curr (t_mm (task k t)))"

abbreviation table_step :: "bool \<Rightarrow> page \<Rightarrow> page" where
  "table_step up p \<equiv> p\<lparr>pg_free_base := slot up (pg_free_base p) 1, pg_free_size := pg_free_size p - 4\<rparr>"

lemma map_one:
  assumes flag: "flag \<in> {PROCESS_MAP_STACK, PROCESS_MAP_ELF}" and c: "curr_table flag t (tk s) = Some (N_page P)"
    and pt: "page_read (uint P) (sm (ss s)) = Some pt" "pg_free_size pt \<noteq> 0"
    and p: "page_read (va_to_page addr (sm (ss s))) (sm (ss s)) = Some p"
    and m': "page_write (uint P) (table_step (flag = PROCESS_MAP_ELF) pt) (sm (ss s)) = Some m'"
  shows "task_map_memory addr t flag s = Some (0, s\<lparr>ss := (ss s)\<lparr>sm := m'\<rparr>, wm := (wm s)(pg_free_base pt := user_pte (phy_address p))\<rparr>)"
proof -
  have f: "find_pgt (Some (N_page P)) s = Some (Some (uint P))" using pt by (subst find_pgt.simps) simp
  have up: "page_upd (uint P) (\<lambda>p. p\<lparr>pg_free_base := (if flag = PROCESS_MAP_ELF then pg_free_base p + 4 else pg_free_base p - 4),
      pg_free_size := pg_free_size p - 4\<rparr>) (ss s) = Some ((ss s)\<lparr>sm := m'\<rparr>)"
    using pt(1) m' by (simp add: page_upd_def mm_upd_def slot_def split: if_splits)
  show ?thesis
    using flag c f pt(1) build_one_entry [OF p, of "pg_free_base pt" "wm s"] up
    by (auto simp: task_map_memory_def curr_table_def Let_def)
qed

text \<open>What allocation for a task leaves alone.\<close>

definition user_frame :: "tstate \<Rightarrow> tstate \<Rightarrow> bool" where
  "user_frame s s' \<longleftrightarrow> bm s' = bm s \<and> (\<exists>m. ss s' = (ss s)\<lparr>sm := m\<rparr>) \<and>
     kernel_start (sm (ss s')) = kernel_start (sm (ss s)) \<and> ks_quiet (tk s) (tk s')"

lemma user_frame_trans: "user_frame s s1 \<Longrightarrow> user_frame s1 s2 \<Longrightarrow> user_frame s s2"
  unfolding user_frame_def by (auto intro: ks_quiet_trans)

lemma user_frame_task: "user_frame s s' \<Longrightarrow> task (tk s') = task (tk s)"
  by (simp add: user_frame_def ks_quiet_def)

lemma curr_table_cong: "task k' = task k \<Longrightarrow> curr_table flag t k' = curr_table flag t k"
  by (simp add: curr_table_def)

abbreviation grab_page :: "u32 \<Rightarrow> (u32, tstate) kop" where
  "grab_page flag \<equiv> slab_op (mm_op (get_free_page flag))"

lemma grab_page:
  assumes pool: "pool_at Fr F (sm (ss s))" and ne: "Fr \<noteq> {}" and flag: "gfp_zone_id flag = 0"
  obtains w s' where "grab_page flag s = Some (Some (page_to_va (uint w) (sm (ss s))), s')" "uint w \<in> Fr"
    "page_to_va (uint w) (sm (ss s)) \<noteq> NULL" "va_to_page (page_to_va (uint w) (sm (ss s))) (sm (ss s')) = uint w"
    "pool_at (Fr - {uint w}) (F(N_page w \<mapsto> [])) (sm (ss s'))"
    "\<forall>i. page_read i (sm (ss s')) = (if i = uint w then Some (new_page (sm (ss s)) (uint w) 1 flag (uint w)) else page_read i (sm (ss s)))"
    "user_frame s s'" "wm s' = wm s"
proof -
  obtain pg m' where g: "get_free_page flag (sm (ss s)) = Some (Some (page_to_va pg (sm (ss s))), m')" "pg \<in> Fr"
    "page_to_va pg (sm (ss s)) \<noteq> NULL" "0 < pg" "pg < 2 ^ 20" "pool_at (Fr - {pg}) (F(N_page (word_of_int pg) \<mapsto> [])) m'"
    "\<forall>i. page_read i m' = (if i = pg then Some (new_page (sm (ss s)) pg 1 flag pg) else page_read i (sm (ss s)))"
    "kernel_start m' = kernel_start (sm (ss s))" "ks_quiet (tk s) (ks m')"
    by (rule pool_grab [OF pool ne flag])
  let ?w = "word_of_int pg :: u32" and ?s = "s\<lparr>ss := (ss s)\<lparr>sm := m'\<rparr>\<rparr>"
  have u: "uint ?w = pg" using g(4,5) by (simp add: uint_word_of_int)
  have "va_to_page (page_to_va pg (sm (ss s))) m' = pg"
    using va_to_page_to_va [of pg m'] page_to_va_cong [OF g(8), of pg] g(4,5) by simp
  moreover have "user_frame s ?s" using g(8,9) by (auto simp: user_frame_def)
  ultimately show thesis
    using g u by (intro that [of ?w ?s]) (simp_all add: slab_op_def mm_op_def)
qed

text \<open>One round of a loop of \<^verbatim>\<open>alloc_memory_and_map\<close>.\<close>

definition map_round :: "u32 \<Rightarrow> u32 \<Rightarrow> node \<Rightarrow> u32 \<Rightarrow> (unit, tstate) kop" where
  "map_round t flag head addr = kmod (\<lambda>s. do {
     (_, s) \<leftarrow> task_map_memory addr t flag s;
     let pg = va_to_page addr (sm (ss s));
     Some (on_k (on_lists (list_add_tail head (N_page (word_of_int pg)))) s)
   })"

lemma alloc_map_loop_Suc:
  "alloc_map_loop (Suc n) t flag head = kthen (grab_page GFP_KERNEL) (\<lambda>addr.
     if addr = NULL then kret False else kthen (map_round t flag head addr) (\<lambda>_. alloc_map_loop n t flag head))"
  unfolding map_round_def alloc_map_loop.simps by (rule refl)

lemma page_write_exists: "page_read i m = Some p \<Longrightarrow> \<exists>m'. page_write i q m = Some m'"
  by (auto simp: page_read_def page_write_def lget_def lput_def split: if_splits)

lemma map_step:
  assumes pool: "pool_at Fr F (sm (ss s))" "Fr \<noteq> {}" and F: "F head = Some (map N_page ws)" "page_list head"
    and flag: "flag \<in> {PROCESS_MAP_STACK, PROCESS_MAP_ELF}" and c: "curr_table flag t (tk s) = Some (N_page P)"
    and pt: "page_read (uint P) (sm (ss s)) = Some pt" "pg_free_size pt \<noteq> 0" "uint P \<notin> Fr"
  obtains v s' where "alloc_map_loop (Suc n) t flag head s = alloc_map_loop n t flag head s'" "uint v \<in> Fr"
    "pool_at (Fr - {uint v}) (enlist head v ws F) (sm (ss s'))" "user_frame s s'"
    "wm s' = (wm s)(pg_free_base pt := user_pte (phy_address (new_page (sm (ss s)) (uint v) 1 GFP_KERNEL (uint v))))"
    "page_read (uint P) (sm (ss s')) = Some (table_step (flag = PROCESS_MAP_ELF) pt)"
    "page_read (uint v) (sm (ss s')) = Some (new_page (sm (ss s)) (uint v) 1 GFP_KERNEL (uint v))"
    "\<forall>i. i \<noteq> uint P \<longrightarrow> i \<noteq> uint v \<longrightarrow> page_read i (sm (ss s')) = page_read i (sm (ss s))"
proof -
  obtain v s1 where g: "grab_page GFP_KERNEL s = Some (Some (page_to_va (uint v) (sm (ss s))), s1)" "uint v \<in> Fr"
    "page_to_va (uint v) (sm (ss s)) \<noteq> NULL" "va_to_page (page_to_va (uint v) (sm (ss s))) (sm (ss s1)) = uint v"
    "pool_at (Fr - {uint v}) (F(N_page v \<mapsto> [])) (sm (ss s1))"
    "\<forall>i. page_read i (sm (ss s1)) = (if i = uint v then Some (new_page (sm (ss s)) (uint v) 1 GFP_KERNEL (uint v)) else page_read i (sm (ss s)))"
    "user_frame s s1" "wm s1 = wm s"
    by (rule grab_page [OF pool zone_id_kernel])
  let ?a = "page_to_va (uint v) (sm (ss s))" and ?p = "new_page (sm (ss s)) (uint v) 1 GFP_KERNEL (uint v)"
  have ne: "uint P \<noteq> uint v" using g(2) pt(3) by auto
  have pt1: "page_read (uint P) (sm (ss s1)) = Some pt" using g(6) pt(1) ne by simp
  have p1: "page_read (va_to_page ?a (sm (ss s1))) (sm (ss s1)) = Some ?p" using g(4,6) by simp
  obtain m2 where m2: "page_write (uint P) (table_step (flag = PROCESS_MAP_ELF) pt) (sm (ss s1)) = Some m2"
    using page_write_exists [OF pt1] by blast
  note w2 = page_write_sel [OF m2]
  have c1: "curr_table flag t (tk s1) = Some (N_page P)" using c curr_table_cong [OF user_frame_task [OF g(7)]] by simp
  let ?s2 = "s1\<lparr>ss := (ss s1)\<lparr>sm := m2\<rparr>, wm := (wm s1)(pg_free_base pt := user_pte (phy_address ?p))\<rparr>"
  let ?s3 = "on_k (on_lists (list_add_tail head (N_page v))) ?s2"
  have mm: "task_map_memory ?a t flag s1 = Some (0, ?s2)" by (rule map_one [OF flag c1 pt1 pt(2) p1 m2])
  have va2: "va_to_page ?a m2 = uint v" using g(4) w2(4) by (simp add: va_to_page_def)
  have round: "map_round t flag head ?a s1 = Some (Some (), ?s3)" using mm va2 by (simp add: map_round_def)
  have run: "alloc_map_loop (Suc n) t flag head s = alloc_map_loop n t flag head ?s3"
    unfolding alloc_map_loop_Suc using g(1,3) round by simp
  have hd: "head \<noteq> N_page v" using F(2) by (auto simp: page_list_def)
  have pool2: "pool_at (Fr - {uint v}) (F(N_page v \<mapsto> [])) m2" by (rule pool_at_page_write [OF g(5) m2])
  have F2: "(F(N_page v \<mapsto> [])) (N_page v) = Some []" "(F(N_page v \<mapsto> [])) head = Some (map N_page ws)" "uint v \<notin> Fr - {uint v}"
    using F(1) hd by simp_all
  note e = pool_enlist [OF pool2 F2(1,2) F(2) F2(3)]
  have en: "enlist head v ws (F(N_page v \<mapsto> [])) = enlist head v ws F" by (simp add: enlist_def)
  have pool3: "pool_at (Fr - {uint v}) (enlist head v ws F) (sm (ss ?s3))" using e(1) unfolding en by (simp add: on_k_def)
  have "ks_quiet (tk s1) (ks m2)" using w2(1) by (simp add: ks_lists_quiet)
  then have "user_frame s1 ?s3"
    using e(2) w2(4) by (auto simp: user_frame_def on_k_def on_ks_def intro: ks_quiet_trans)
  then have fr: "user_frame s ?s3" by (rule user_frame_trans [OF g(7)])
  have rd: "page_read i (sm (ss ?s3)) = (if i = uint P then Some (table_step (flag = PROCESS_MAP_ELF) pt) else page_read i (sm (ss s1)))" for i
    using page_read_write [OF m2, of i] by (simp add: on_k_def on_ks_def page_read_def)
  show thesis
    by (rule that [OF run g(2) pool3 fr]) (use rd g(6,8) ne in \<open>simp_all add: on_k_def\<close>)
qed

text \<open>A whole loop: the pages \<open>vs\<close> are taken, put in the list and entered in the table.\<close>

definition mapped :: "bool \<Rightarrow> u32 \<Rightarrow> u32 list \<Rightarrow> tstate \<Rightarrow> bool" where
  "mapped up base vs s \<longleftrightarrow> (\<forall>i < length vs. \<exists>p. page_read (uint (vs ! i)) (sm (ss s)) = Some p \<and>
     wm s (slot up base i) = user_pte (phy_address p))"

definition lists_frame :: "node \<Rightarrow> u32 list \<Rightarrow> node lists \<Rightarrow> node lists \<Rightarrow> bool" where
  "lists_frame head vs F F' \<longleftrightarrow> (\<forall>r. r \<noteq> head \<longrightarrow> r \<notin> N_page ` set vs \<longrightarrow> F' r = F r)"

lemma mapped_Cons:
  assumes "mapped up (slot up base 1) vs s" "page_read (uint v) (sm (ss s)) = Some p" "wm s base = user_pte (phy_address p)"
  shows "mapped up base (v # vs) s"
  using assms unfolding mapped_def slot_Suc by (auto simp: All_less_Suc2)

lemma lists_frame_other: "lists_frame head vs F F' \<Longrightarrow> page_list r \<Longrightarrow> r \<noteq> head \<Longrightarrow> F' r = F r"
  by (auto simp: lists_frame_def page_list_def)

lemma map_loop:
  assumes "pool_at Fr F (sm (ss s))" "finite Fr" "n \<le> card Fr" "F head = Some (map N_page ws)" "page_list head"
    and flag: "flag \<in> {PROCESS_MAP_STACK, PROCESS_MAP_ELF}" and "curr_table flag t (tk s) = Some (N_page P)"
    and "page_read (uint P) (sm (ss s)) = Some pt" "4 * n \<le> unat (pg_free_size pt)" "unat (pg_free_size pt) \<le> 4096" "uint P \<notin> Fr"
  shows "\<exists>s' vs F'. alloc_map_loop n t flag head s = Some (Some True, s') \<and> user_frame s s' \<and> length vs = n \<and> distinct vs \<and>
    uint ` set vs \<subseteq> Fr \<and> pool_at (Fr - uint ` set vs) F' (sm (ss s')) \<and> F' head = Some (map N_page (ws @ vs)) \<and>
    lists_frame head vs F F' \<and> mapped (flag = PROCESS_MAP_ELF) (pg_free_base pt) vs s' \<and>
    (\<forall>a. (\<forall>i < n. a \<noteq> slot (flag = PROCESS_MAP_ELF) (pg_free_base pt) i) \<longrightarrow> wm s' a = wm s a) \<and>
    (\<forall>i. i \<noteq> uint P \<longrightarrow> i \<notin> uint ` set vs \<longrightarrow> page_read i (sm (ss s')) = page_read i (sm (ss s)))"
  using assms(1-5,7-)
proof (induction n arbitrary: Fr F s ws pt)
  case 0
  have "user_frame s s" by (auto simp: user_frame_def ks_lists_quiet intro: exI [of _ "sm (ss s)"])
  with 0 show ?case by (intro exI [of _ s] exI [of _ "[]"] exI [of _ F]) (simp add: lists_frame_def mapped_def)
next
  case (Suc n)
  let ?up = "flag = PROCESS_MAP_ELF" and ?b = "pg_free_base pt"
  have ne: "Fr \<noteq> {}" using Suc.prems(3) by auto
  have sz: "pg_free_size pt \<noteq> 0" using Suc.prems(8) by auto
  obtain v s1 where g: "alloc_map_loop (Suc n) t flag head s = alloc_map_loop n t flag head s1" "uint v \<in> Fr"
    "pool_at (Fr - {uint v}) (enlist head v ws F) (sm (ss s1))" "user_frame s s1"
    "wm s1 = (wm s)(?b := user_pte (phy_address (new_page (sm (ss s)) (uint v) 1 GFP_KERNEL (uint v))))"
    "page_read (uint P) (sm (ss s1)) = Some (table_step ?up pt)"
    "page_read (uint v) (sm (ss s1)) = Some (new_page (sm (ss s)) (uint v) 1 GFP_KERNEL (uint v))"
    "\<forall>i. i \<noteq> uint P \<longrightarrow> i \<noteq> uint v \<longrightarrow> page_read i (sm (ss s1)) = page_read i (sm (ss s))"
    by (rule map_step [OF Suc.prems(1) ne Suc.prems(4,5) flag Suc.prems(6,7) sz Suc.prems(10)])
  have "4 \<le> unat (pg_free_size pt)" using Suc.prems(8) by simp
  then have "unat (pg_free_size pt - 4) = unat (pg_free_size pt) - 4" by (simp add: unat_sub word_le_nat_alt)
  then have sz1: "4 * n \<le> unat (pg_free_size (table_step ?up pt))" "unat (pg_free_size (table_step ?up pt)) \<le> 4096"
    using Suc.prems(8,9) by simp_all
  have card: "n \<le> card (Fr - {uint v})" using Suc.prems(2,3) g(2) by simp
  have hd: "enlist head v ws F head = Some (map N_page (ws @ [v]))" by (simp add: enlist_def)
  have c1: "curr_table flag t (tk s1) = Some (N_page P)" using Suc.prems(6) curr_table_cong [OF user_frame_task [OF g(4)]] by simp
  have P1: "uint P \<notin> Fr - {uint v}" "finite (Fr - {uint v})" using Suc.prems(2,10) by simp_all
  obtain s' vs F' where h: "alloc_map_loop n t flag head s1 = Some (Some True, s')" "user_frame s1 s'" "length vs = n" "distinct vs"
    "uint ` set vs \<subseteq> Fr - {uint v}" "pool_at (Fr - {uint v} - uint ` set vs) F' (sm (ss s'))" "F' head = Some (map N_page ((ws @ [v]) @ vs))"
    "lists_frame head vs (enlist head v ws F) F'" "mapped ?up (slot ?up ?b 1) vs s'"
    "\<forall>a. (\<forall>i < n. a \<noteq> slot ?up (slot ?up ?b 1) i) \<longrightarrow> wm s' a = wm s1 a"
    "\<forall>i. i \<noteq> uint P \<longrightarrow> i \<notin> uint ` set vs \<longrightarrow> page_read i (sm (ss s')) = page_read i (sm (ss s1))"
    using Suc.IH [OF g(3) P1(2) card hd Suc.prems(5) c1 g(6) sz1 P1(1)] by auto
  have vn: "v \<notin> set vs" "uint v \<notin> uint ` set vs" using h(5) by auto
  have PV: "uint v \<noteq> uint P" using g(2) Suc.prems(10) by auto
  have lim: "Suc n < 2 ^ 30" using Suc.prems(8,9) by simp
  have "uint ` set (v # vs) \<subseteq> Fr" "Fr - uint ` set (v # vs) = Fr - {uint v} - uint ` set vs" using g(2) h(5) by auto
  moreover have "lists_frame head (v # vs) F F'" using h(8) by (auto simp: lists_frame_def enlist_def)
  moreover have "mapped ?up ?b (v # vs) s'"
  proof (rule mapped_Cons [OF h(9)])
    have "?b \<noteq> slot ?up ?b (Suc i)" if "i < n" for i using pte_slot_inj [of 0 "Suc i" ?up ?b] that lim by simp
    then show "wm s' ?b = user_pte (phy_address (new_page (sm (ss s)) (uint v) 1 GFP_KERNEL (uint v)))"
      using h(10) g(5) slot_Suc by simp
    show "page_read (uint v) (sm (ss s')) = Some (new_page (sm (ss s)) (uint v) 1 GFP_KERNEL (uint v))"
      using h(11) vn(2) PV g(7) by simp
  qed
  moreover have "wm s' a = wm s a" if "\<forall>i < Suc n. a \<noteq> slot ?up ?b i" for a
  proof -
    have "a \<noteq> ?b" "\<forall>i < n. a \<noteq> slot ?up ?b (Suc i)" using that by (auto simp: All_less_Suc2)
    then show ?thesis using h(10) g(5) slot_Suc by simp
  qed
  moreover have "page_read i (sm (ss s')) = page_read i (sm (ss s))" if "i \<noteq> uint P" "i \<notin> uint ` set (v # vs)" for i
    using that h(11) g(8) by simp
  moreover have "F' head = Some (map N_page (ws @ (v # vs)))" using h(7) by simp
  ultimately show ?case
    using g(1) h(1-4,6) vn user_frame_trans [OF g(4) h(2)]
    by (intro exI [of _ s'] exI [of _ "v # vs"] exI [of _ F']) simp
qed

section \<open>The page tables of a task\<close>

lemma zone_id_pgt: "gfp_zone_id GFP_PGT = 0"
  by (simp add: gfp_zone_id_def)

lemma table_alloc:
  assumes pool: "pool_at Fr F (sm (ss s))" "Fr \<noteq> {}" and F: "F head = Some []" "page_list head"
  obtains P s' pt where "alloc_pgt_loop 1 head off s = Some (Some True, s')" "uint P \<in> Fr"
    "pool_at (Fr - {uint P}) (enlist head P [] F) (sm (ss s'))" "user_frame s s'" "wm s' = wm s"
    "page_read (uint P) (sm (ss s')) = Some pt" "pg_free_base pt = page_to_va (uint P) (sm (ss s)) + off" "pg_free_size pt = 4096"
    "\<forall>i. i \<noteq> uint P \<longrightarrow> page_read i (sm (ss s')) = page_read i (sm (ss s))"
proof -
  obtain P s1 where g: "grab_page GFP_PGT s = Some (Some (page_to_va (uint P) (sm (ss s))), s1)" "uint P \<in> Fr"
    "page_to_va (uint P) (sm (ss s)) \<noteq> NULL" "va_to_page (page_to_va (uint P) (sm (ss s))) (sm (ss s1)) = uint P"
    "pool_at (Fr - {uint P}) (F(N_page P \<mapsto> [])) (sm (ss s1))"
    "\<forall>i. page_read i (sm (ss s1)) = (if i = uint P then Some (new_page (sm (ss s)) (uint P) 1 GFP_PGT (uint P)) else page_read i (sm (ss s)))"
    "user_frame s s1" "wm s1 = wm s"
    by (rule grab_page [OF pool zone_id_pgt])
  let ?a = "page_to_va (uint P) (sm (ss s))"
  let ?p = "new_page (sm (ss s)) (uint P) 1 GFP_PGT (uint P)"
  let ?pt = "?p\<lparr>pg_free_base := pg_free_base ?p + off\<rparr>"
  have p1: "page_read (uint P) (sm (ss s1)) = Some ?p" using g(6) by simp
  obtain m2 where m2: "page_write (uint P) ?pt (sm (ss s1)) = Some m2" using page_write_exists [OF p1] by blast
  note w2 = page_write_sel [OF m2]
  let ?s2 = "s1\<lparr>ss := (ss s1)\<lparr>sm := m2\<rparr>\<rparr>" and ?s3 = "on_k (on_lists (list_add_tail head (N_page P))) (s1\<lparr>ss := (ss s1)\<lparr>sm := m2\<rparr>\<rparr>)"
  have up: "page_upd (uint P) (\<lambda>p. p\<lparr>pg_free_base := pg_free_base p + off\<rparr>) (ss s1) = Some ((ss s1)\<lparr>sm := m2\<rparr>)"
    using p1 m2 by (simp add: page_upd_def mm_upd_def)
  have run: "alloc_pgt_loop 1 head off s = Some (Some True, ?s3)"
    using g(1,3,4) up by (simp add: slab_op_def [of "kmod _"])
  have pool2: "pool_at (Fr - {uint P}) (F(N_page P \<mapsto> [])) m2" by (rule pool_at_page_write [OF g(5) m2])
  have hd: "head \<noteq> N_page P" using F(2) by (auto simp: page_list_def)
  have F2: "(F(N_page P \<mapsto> [])) (N_page P) = Some []" "(F(N_page P \<mapsto> [])) head = Some (map N_page [])" "uint P \<notin> Fr - {uint P}"
    using F(1) hd by simp_all
  note e = pool_enlist [OF pool2 F2(1,2) F(2) F2(3)]
  have en: "enlist head P [] (F(N_page P \<mapsto> [])) = enlist head P [] F" by (simp add: enlist_def)
  have pool3: "pool_at (Fr - {uint P}) (enlist head P [] F) (sm (ss ?s3))" using e(1) unfolding en by (simp add: on_k_def)
  have "ks_quiet (tk s1) (ks m2)" using w2(1) by (simp add: ks_lists_quiet)
  then have "user_frame s1 ?s3"
    using e(2) w2(4) by (auto simp: user_frame_def on_k_def on_ks_def intro: ks_quiet_trans)
  then have fr: "user_frame s ?s3" by (rule user_frame_trans [OF g(7)])
  have rd: "page_read i (sm (ss ?s3)) = (if i = uint P then Some ?pt else page_read i (sm (ss s1)))" for i
    using page_read_write [OF m2, of i] by (simp add: on_k_def on_ks_def page_read_def)
  show thesis
    by (rule that [OF run g(2) pool3 fr, of ?pt]) (use rd g(6,8) in \<open>simp_all add: on_k_def new_page_def\<close>)
qed

text \<open>Changing the structure of a task that the scheduler does not know.\<close>

lemma pool_at_upd_task:
  assumes "pool_at Fr F m" "\<not> live F (ks m) t"
  shows "pool_at Fr F (on_ks (upd_task t f) m)"
proof -
  have "kinv F (upd_task t f (ks m))" using pool_at_sel(2) [OF assms(1)] assms(2) by (simp add: kinv_upd_dead)
  then have "minv F (on_ks (upd_task t f) m)"
    using pool_at_sel(1) [OF assms(1)] by (simp add: minv_def on_ks_def mutex_free_def)
  then show ?thesis using assms(1) unfolding pool_at_def
    by (auto simp: zone_pool_def on_ks_def used_pages_def free_pages_of_def ahead_def get_zone_def page_to_va_def page_id_to_va_def)
qed

text \<open>What allocation leaves alone, but for the structure of the task.\<close>

definition task_frame :: "u32 \<Rightarrow> tstate \<Rightarrow> tstate \<Rightarrow> bool" where
  "task_frame t s s' \<longleftrightarrow> bm s' = bm s \<and> (\<exists>m. ss s' = (ss s)\<lparr>sm := m\<rparr>) \<and> kernel_start (sm (ss s')) = kernel_start (sm (ss s)) \<and>
     mutex_count (tk s') = mutex_count (tk s) \<and> mutex_frame (tk s) (tk s') \<and> (\<forall>u. u \<noteq> t \<longrightarrow> task (tk s') u = task (tk s) u)"

lemma mutex_frame_trans: "mutex_frame k k1 \<Longrightarrow> mutex_frame k1 k2 \<Longrightarrow> mutex_frame k k2"
  by (cases k; cases k1; cases k2) (simp add: mutex_frame_def)

lemma task_frame_trans: "task_frame t s s1 \<Longrightarrow> task_frame t s1 s2 \<Longrightarrow> task_frame t s s2"
  unfolding task_frame_def by (auto intro: mutex_frame_trans)

lemma user_frame_task_frame: "user_frame s s' \<Longrightarrow> task_frame t s s'"
  by (simp add: user_frame_def task_frame_def ks_quiet_def)

lemma task_frame_upd: "task_frame t s (on_k (upd_task t f) s)"
  by (auto simp: task_frame_def on_k_def on_ks_def mutex_frame_def upd_task_def intro: exI [of _ "on_ks (upd_task t f) (sm (ss s))"])

lemma live_frame:
  assumes "mutex_frame k k'" "G TaskSystem = F TaskSystem"
  shows "live G k' t \<longleftrightarrow> live F k t"
  using mutex_frame_sel(2) [OF assms(1)] assms(2) by (simp add: live_def on_def)

lemma enlist_other: "r \<noteq> head \<Longrightarrow> r \<noteq> N_page w \<Longrightarrow> enlist head w ws F r = F r"
  by (simp add: enlist_def)

lemma enlist_head: "enlist head w ws F head = Some (map N_page (ws @ [w]))"
  by (simp add: enlist_def)

text \<open>One page table: taken, put in its list and made the current one.\<close>

lemma table_current:
  assumes pool: "pool_at Fr F (sm (ss s))" "Fr \<noteq> {}" and F: "F head = Some []" "page_list head" and dead: "\<not> live F (tk s) t"
  obtains P s1 s' pt where "alloc_pgt_loop 1 head off s = Some (Some True, s1)"
    "on_k (\<lambda>k. upd_task t (f (list_next head (lists k))) k) s1 = s'" "uint P \<in> Fr"
    "pool_at (Fr - {uint P}) (enlist head P [] F) (sm (ss s'))" "task_frame t s s'" "wm s' = wm s" "\<not> live (enlist head P [] F) (tk s') t"
    "task (tk s') t = f (N_page P) (task (tk s) t)"
    "page_read (uint P) (sm (ss s')) = Some pt" "pg_free_base pt = page_to_va (uint P) (sm (ss s)) + off" "pg_free_size pt = 4096"
    "\<forall>i. i \<noteq> uint P \<longrightarrow> page_read i (sm (ss s')) = page_read i (sm (ss s))"
proof -
  obtain P s1 pt where a: "alloc_pgt_loop 1 head off s = Some (Some True, s1)" "uint P \<in> Fr"
    "pool_at (Fr - {uint P}) (enlist head P [] F) (sm (ss s1))" "user_frame s s1" "wm s1 = wm s"
    "page_read (uint P) (sm (ss s1)) = Some pt" "pg_free_base pt = page_to_va (uint P) (sm (ss s)) + off" "pg_free_size pt = 4096"
    "\<forall>i. i \<noteq> uint P \<longrightarrow> page_read i (sm (ss s1)) = page_read i (sm (ss s))"
    by (rule table_alloc [OF pool F])
  let ?G = "enlist head P [] F" and ?s = "on_k (upd_task t (f (N_page P))) s1"
  have "list_next head (lists (tk s1)) = N_page P"
    using os_list.rel_first [OF kinv_rel [OF pool_at_sel(2) [OF a(3)]], of head "N_page P" "[]"] by (simp add: enlist_head)
  then have k: "on_k (\<lambda>k. upd_task t (f (list_next head (lists k))) k) s1 = ?s" by (simp add: on_k_def on_ks_def)
  have ne: "TaskSystem \<noteq> head" using F(2) by (auto simp: page_list_def)
  have d: "\<not> live ?G (tk s1) t"
    using dead a(4) live_frame [of "tk s" "tk s1" ?G F t] ne by (simp add: user_frame_def ks_quiet_def enlist_other)
  have pool2: "pool_at (Fr - {uint P}) ?G (sm (ss ?s))"
    using pool_at_upd_task [OF a(3) d, of "f (N_page P)"] by (simp add: on_k_def)
  have tf: "task_frame t s ?s" by (rule task_frame_trans [OF user_frame_task_frame [OF a(4)] task_frame_upd])
  have d2: "\<not> live ?G (tk ?s) t" using d by (simp add: on_k_def on_ks_def live_def)
  show thesis
    by (rule that [OF a(1) k a(2) pool2 tf _ d2 _ _ a(7,8)])
      (use a(5,6,9) user_frame_task [OF a(4)] in \<open>simp_all add: on_k_def on_ks_def page_read_def\<close>)
qed

lemma page_table_alloc:
  assumes pool: "pool_at Fr F (sm (ss s))" and fin: "finite Fr" "2 \<le> card Fr"
    and F: "F (N_stack_list t) = Some []" "F (N_elf_list t) = Some []" and dead: "\<not> live F (tk s) t"
  obtains P Q s' pP pQ where "alloc_page_table t s = Some (Some 0, s')" "uint P \<in> Fr" "uint Q \<in> Fr" "P \<noteq> Q"
    "pool_at (Fr - {uint P, uint Q}) (enlist (N_elf_list t) Q [] (enlist (N_stack_list t) P [] F)) (sm (ss s'))"
    "task_frame t s s'" "wm s' = wm s"
    "task (tk s') t = (task (tk s) t)\<lparr>t_mm := (t_mm (task (tk s) t))\<lparr>stack_curr := Some (N_page P), elf_curr := Some (N_page Q)\<rparr>\<rparr>"
    "page_read (uint P) (sm (ss s')) = Some pP" "pg_free_base pP = page_to_va (uint P) (sm (ss s)) + 4092" "pg_free_size pP = 4096"
    "page_read (uint Q) (sm (ss s')) = Some pQ" "pg_free_base pQ = page_to_va (uint Q) (sm (ss s))" "pg_free_size pQ = 4096"
proof -
  let ?sl = "N_stack_list t" and ?el = "N_elf_list t"
  let ?f = "\<lambda>n ts. ts\<lparr>t_mm := (t_mm ts)\<lparr>stack_curr := Some n\<rparr>\<rparr>" and ?g = "\<lambda>n ts. ts\<lparr>t_mm := (t_mm ts)\<lparr>elf_curr := Some n\<rparr>\<rparr>"
  have pl: "page_list ?sl" "page_list ?el" by (auto simp: page_list_def)
  have ne: "Fr \<noteq> {}" using fin(2) by auto
  obtain P s1 s2 pP where a: "alloc_pgt_loop 1 ?sl (PAGE_SIZE - 4) s = Some (Some True, s1)"
    "on_k (\<lambda>k. upd_task t (?f (list_next ?sl (lists k))) k) s1 = s2" "uint P \<in> Fr"
    "pool_at (Fr - {uint P}) (enlist ?sl P [] F) (sm (ss s2))" "task_frame t s s2" "wm s2 = wm s" "\<not> live (enlist ?sl P [] F) (tk s2) t"
    "task (tk s2) t = ?f (N_page P) (task (tk s) t)"
    "page_read (uint P) (sm (ss s2)) = Some pP" "pg_free_base pP = page_to_va (uint P) (sm (ss s)) + (PAGE_SIZE - 4)" "pg_free_size pP = 4096"
    by (rule table_current [OF pool ne F(1) pl(1) dead, where f = ?f])
  have ne2: "Fr - {uint P} \<noteq> {}"
  proof
    assume "Fr - {uint P} = {}"
    then have "card Fr \<le> card {uint P}" by (intro card_mono) auto
    with fin(2) show False by simp
  qed
  have e2: "enlist ?sl P [] F ?el = Some []" using F(2) by (simp add: enlist_other)
  obtain Q s3 s4 pQ where b: "alloc_pgt_loop 1 ?el 0 s2 = Some (Some True, s3)"
    "on_k (\<lambda>k. upd_task t (?g (list_next ?el (lists k))) k) s3 = s4" "uint Q \<in> Fr - {uint P}"
    "pool_at (Fr - {uint P} - {uint Q}) (enlist ?el Q [] (enlist ?sl P [] F)) (sm (ss s4))" "task_frame t s2 s4" "wm s4 = wm s2"
    "task (tk s4) t = ?g (N_page Q) (task (tk s2) t)"
    "page_read (uint Q) (sm (ss s4)) = Some pQ" "pg_free_base pQ = page_to_va (uint Q) (sm (ss s2)) + 0" "pg_free_size pQ = 4096"
    "\<forall>i. i \<noteq> uint Q \<longrightarrow> page_read i (sm (ss s4)) = page_read i (sm (ss s2))"
    by (rule table_current [OF a(4) ne2 e2 pl(2) a(7), where f = ?g])
  have n: "nat (uint (drop_bit 20 (PROCESS_STACK_SIZE + SIZE_1M - 1))) = 1" "nat (uint (drop_bit 20 (PROCESS_IMAGE_SIZE + SIZE_1M - 1))) = 1"
    by simp_all
  have run: "alloc_page_table t s = Some (Some 0, s4)"
    unfolding alloc_page_table_def n Let_def using a(1,2) b(1,2) by (simp del: alloc_pgt_loop.simps)
  have set: "Fr - {uint P} - {uint Q} = Fr - {uint P, uint Q}" by blast
  have va: "page_to_va (uint Q) (sm (ss s2)) = page_to_va (uint Q) (sm (ss s))"
    using a(5) by (intro page_to_va_cong) (simp add: task_frame_def)
  show thesis
    by (rule that [OF run a(3) _ _ b(4) [unfolded set] task_frame_trans [OF a(5) b(5)] _ _ _ _ a(11) b(8) _ b(10)])
      (use a(6,8-10) b(3,6,7,9,11) va in auto)
qed

lemma normal_free_pages:
  assumes "pool_at Fr F m"
  shows "\<exists>f. mm_free_page 0 m = Some f \<and> int (card Fr) \<le> uint f"
proof -
  obtain z where z: "zone_pool GFP_KERNEL F z m" "Fr = ahead z m" using assms by (auto simp: pool_at_def)
  have "card Fr \<le> card (free_pages_of z m)" unfolding z(2) by (intro card_mono) (simp_all add: ahead_def)
  then have "get_zone 0 m = Some z" "int (card Fr) \<le> uint (z_free_pages z)" using z(1) by (simp_all add: zone_pool_def zone_id_kernel)
  then show ?thesis by (simp add: mm_free_page_def for_loop.simps)
qed

section \<open>The pages of a task\<close>

lemma slot_page:
  assumes "i < 1024" "0 \<le> q" "q < 2 ^ 20"
  shows "va_to_page (slot True (page_to_va q m) i) m = q" "va_to_page (slot False (page_to_va q m + 4092) i) m = q"
proof -
  have "4092 - 4 * of_nat i = (of_nat (4092 - 4 * i) :: u32)" using assms(1) by (simp add: of_nat_diff)
  then have e: "slot True (page_to_va q m) i = page_to_va q m + of_nat (4 * i)"
    "slot False (page_to_va q m + 4092) i = page_to_va q m + of_nat (4092 - 4 * i)"
    by (simp_all add: slot_def algebra_simps)
  show "va_to_page (slot True (page_to_va q m) i) m = q" "va_to_page (slot False (page_to_va q m + 4092) i) m = q"
    unfolding e using assms(1) by (simp_all only: va_to_page_offset [OF assms(2,3)])
qed

lemma slots_apart:
  assumes "uint P \<noteq> uint Q" "uint P < 2 ^ 20" "uint Q < 2 ^ 20" "i < 1024" "j < 1024"
  shows "slot False (page_to_va (uint P) m + 4092) i \<noteq> slot True (page_to_va (uint Q) m) j"
  using slot_page(2) [OF assms(4) uint_ge_0 assms(2), of m] slot_page(1) [OF assms(5) uint_ge_0 assms(3), of m] assms(1) by metis

lemma mapped_same:
  assumes "mapped up base vs s" "\<And>i. i < length vs \<Longrightarrow> wm s' (slot up base i) = wm s (slot up base i)"
    "\<And>v. v \<in> set vs \<Longrightarrow> page_read (uint v) (sm (ss s')) = page_read (uint v) (sm (ss s))"
  shows "mapped up base vs s'"
  using assms by (simp add: mapped_def)

lemma memory_mapped:
  assumes pool: "pool_at Fr F (sm (ss s))" and fin: "finite Fr" "260 \<le> card Fr"
    and F: "F (N_elf_stack_list t) = Some []" "F (N_elf_image_list t) = Some []"
    and c: "stack_curr (t_mm (task (tk s) t)) = Some (N_page P)" "elf_curr (t_mm (task (tk s) t)) = Some (N_page Q)"
    and pP: "page_read (uint P) (sm (ss s)) = Some pP" "pg_free_base pP = page_to_va (uint P) (sm (ss s)) + 4092" "pg_free_size pP = 4096"
    and pQ: "page_read (uint Q) (sm (ss s)) = Some pQ" "pg_free_base pQ = page_to_va (uint Q) (sm (ss s))" "pg_free_size pQ = 4096"
    and PQ: "P \<noteq> Q" "uint P \<notin> Fr" "uint Q \<notin> Fr" "uint P < 2 ^ 20" "uint Q < 2 ^ 20"
  obtains s' vs us F' where "alloc_memory_and_map t s = Some (Some 0, s')" "user_frame s s'"
    "length vs = 4" "length us = 256" "distinct (vs @ us)" "uint ` set (vs @ us) \<subseteq> Fr" "pool_at (Fr - uint ` set (vs @ us)) F' (sm (ss s'))"
    "F' (N_elf_stack_list t) = Some (map N_page vs)" "F' (N_elf_image_list t) = Some (map N_page us)"
    "mapped False (page_to_va (uint P) (sm (ss s)) + 4092) vs s'" "mapped True (page_to_va (uint Q) (sm (ss s))) us s'"
proof -
  let ?m = "sm (ss s)" and ?h = "N_elf_stack_list t" and ?g = "N_elf_image_list t"
  have pl: "page_list ?h" "page_list ?g" by (auto simp: page_list_def)
  have n: "uint (page_nr PROCESS_STACK_SIZE) = 4" "uint (page_nr PROCESS_IMAGE_SIZE) = 256" by (simp_all add: page_nr_def baligin_def)
  have sz: "4 * 4 \<le> unat (pg_free_size pP)" "unat (pg_free_size pP) \<le> 4096" "4 * 256 \<le> unat (pg_free_size pQ)" "unat (pg_free_size pQ) \<le> 4096"
    using pP(3) pQ(3) by simp_all
  obtain f where f: "mm_free_page 0 ?m = Some f" "int (card Fr) \<le> uint f" using normal_free_pages [OF pool] by blast
  have enough: "\<not> f < word_of_int (4 + 256)" using f(2) fin(2) by (simp add: word_less_def)
  have card: "4 \<le> card Fr" using fin(2) by simp
  have ct: "curr_table PROCESS_MAP_STACK t (tk s) = Some (N_page P)" using c by (simp add: curr_table_def)
  have Fh: "F ?h = Some (map N_page [])" using F by simp
  obtain s1 vs F1 where a: "alloc_map_loop 4 t PROCESS_MAP_STACK ?h s = Some (Some True, s1)" "user_frame s s1" "length vs = 4" "distinct vs"
    "uint ` set vs \<subseteq> Fr" "pool_at (Fr - uint ` set vs) F1 (sm (ss s1))" "F1 ?h = Some (map N_page ([] @ vs))"
    "lists_frame ?h vs F F1" "mapped (PROCESS_MAP_STACK = PROCESS_MAP_ELF) (pg_free_base pP) vs s1"
    "\<forall>i. i \<noteq> uint P \<longrightarrow> i \<notin> uint ` set vs \<longrightarrow> page_read i (sm (ss s1)) = page_read i ?m"
    using map_loop [OF pool fin(1) card Fh pl(1) _ ct pP(1) sz(1,2) PQ(2)] by auto
  have card1: "256 \<le> card (Fr - uint ` set vs)"
  proof -
    have "card (uint ` set vs) \<le> 4" using card_image_le [of "set vs" uint] card_length [of vs] a(3) by simp
    then show ?thesis using card_Diff_subset [of "uint ` set vs" Fr] a(5) fin(2) by simp
  qed
  have Q: "uint Q \<notin> Fr - uint ` set vs" "uint Q \<notin> uint ` set vs" "uint Q \<noteq> uint P" using PQ a(5) by (auto simp: word_uint_eq_iff [symmetric])
  have ct1: "curr_table PROCESS_MAP_ELF t (tk s1) = Some (N_page Q)" using c(2) user_frame_task [OF a(2)] by (simp add: curr_table_def)
  have Fg: "F1 ?g = Some (map N_page [])" using lists_frame_other [OF a(8) pl(2)] F(2) by simp
  have pQ1: "page_read (uint Q) (sm (ss s1)) = Some pQ" using a(10) Q pQ(1) by simp
  have fin1: "finite (Fr - uint ` set vs)" using fin(1) by simp
  obtain s2 us F2 where b: "alloc_map_loop 256 t PROCESS_MAP_ELF ?g s1 = Some (Some True, s2)" "user_frame s1 s2" "length us = 256" "distinct us"
    "uint ` set us \<subseteq> Fr - uint ` set vs" "pool_at (Fr - uint ` set vs - uint ` set us) F2 (sm (ss s2))" "F2 ?g = Some (map N_page ([] @ us))"
    "lists_frame ?g us F1 F2" "mapped (PROCESS_MAP_ELF = PROCESS_MAP_ELF) (pg_free_base pQ) us s2"
    "\<forall>a. (\<forall>i < 256. a \<noteq> slot (PROCESS_MAP_ELF = PROCESS_MAP_ELF) (pg_free_base pQ) i) \<longrightarrow> wm s2 a = wm s1 a"
    "\<forall>i. i \<noteq> uint Q \<longrightarrow> i \<notin> uint ` set us \<longrightarrow> page_read i (sm (ss s2)) = page_read i (sm (ss s1))"
    using map_loop [OF a(6) fin1 card1 Fg pl(2) _ ct1 pQ1 sz(3,4) Q(1)] by auto
  have run: "alloc_memory_and_map t s = Some (Some 0, s2)"
    unfolding alloc_memory_and_map_def n Let_def using a(1) b(1) f(1) enough by (simp del: alloc_map_loop.simps)
  have disj: "set vs \<inter> set us = {}" using b(5) by auto
  have F2h: "F2 ?h = Some (map N_page vs)" using lists_frame_other [OF b(8) pl(1)] a(7) by simp
  have set: "Fr - uint ` set vs - uint ` set us = Fr - uint ` set (vs @ us)" by auto
  have m1: "mapped False (page_to_va (uint P) ?m + 4092) vs s2"
  proof (rule mapped_same)
    show "mapped False (page_to_va (uint P) ?m + 4092) vs s1" using a(9) pP(2) by simp
    fix i assume "i < length vs"
    then have "\<forall>j < 256. slot False (page_to_va (uint P) ?m + 4092) i \<noteq> slot True (pg_free_base pQ) j"
      using slots_apart [of P Q i _ ?m] PQ(4,5) Q(3) a(3) pQ(2) by simp
    then show "wm s2 (slot False (page_to_va (uint P) ?m + 4092) i) = wm s1 (slot False (page_to_va (uint P) ?m + 4092) i)"
      using b(10) by simp
  next
    fix v assume "v \<in> set vs"
    then have "uint v \<noteq> uint Q" "uint v \<notin> uint ` set us" using Q(2) disj by (auto simp: word_uint_eq_iff [symmetric])
    then show "page_read (uint v) (sm (ss s2)) = page_read (uint v) (sm (ss s1))" using b(11) by simp
  qed
  show thesis
    by (rule that [OF run user_frame_trans [OF a(2) b(2)] a(3) b(3) _ _ b(6) [unfolded set] F2h _ m1])
      (use a(4,5) b(4,5,7,9) pQ(2) disj in auto)
qed

text \<open>The kernel stack of a task, one page.\<close>

lemma stack_alloc:
  assumes pool: "pool_at Fr F (sm (ss s))" "Fr \<noteq> {}" and b: "stack_base (task (tk s) t) = NULL" and dead: "\<not> live F (tk s) t"
  obtains w s' where "alloc_kernel_stack t s = Some (Some 0, s')" "uint w \<in> Fr" "pool_at (Fr - {uint w}) (F(N_page w \<mapsto> [])) (sm (ss s'))"
    "task_frame t s s'"
    "task (tk s') t = (task (tk s) t)\<lparr>stack_base := page_to_va (uint w) (sm (ss s)), stack_origin := page_to_va (uint w) (sm (ss s))\<rparr>"
proof -
  obtain w s1 where g: "grab_page GFP_KERNEL s = Some (Some (page_to_va (uint w) (sm (ss s))), s1)" "uint w \<in> Fr"
    "page_to_va (uint w) (sm (ss s)) \<noteq> NULL" "pool_at (Fr - {uint w}) (F(N_page w \<mapsto> [])) (sm (ss s1))" "user_frame s s1"
    by (rule grab_page [OF pool zone_id_kernel])
  let ?a = "page_to_va (uint w) (sm (ss s))"
  let ?f = "\<lambda>ts. ts\<lparr>stack_base := ?a, stack_origin := ?a\<rparr>"
  have one: "get_free_pages (uint (drop_bit PAGE_SHIFT KERNEL_STACK_SIZE)) GFP_KERNEL = get_free_page GFP_KERNEL"
    by (simp add: fun_eq_iff get_free_page_def)
  have run: "alloc_kernel_stack t s = Some (Some 0, on_k (upd_task t ?f) s1)"
    unfolding alloc_kernel_stack_def one using b g(1,3) by simp
  have d1: "\<not> live (F(N_page w \<mapsto> [])) (tk s1) t"
    using dead g(5) live_frame [of "tk s" "tk s1" "F(N_page w \<mapsto> [])" F t] by (simp add: user_frame_def ks_quiet_def)
  have "pool_at (Fr - {uint w}) (F(N_page w \<mapsto> [])) (sm (ss (on_k (upd_task t ?f) s1)))"
    using pool_at_upd_task [OF g(4) d1, of ?f] by (simp add: on_k_def)
  moreover have "task_frame t s (on_k (upd_task t ?f) s1)" by (rule task_frame_trans [OF user_frame_task_frame [OF g(5)] task_frame_upd])
  moreover have "task (tk (on_k (upd_task t ?f) s1)) t = ?f (task (tk s) t)"
    using user_frame_task [OF g(5)] by (simp add: on_k_def on_ks_def)
  ultimately show thesis using that [OF run g(2)] by blast
qed

text \<open>
  C23. The memory of a user task: with 263 free pages from the current position of the normal zone on, and the four page lists of the task empty,
  \<^verbatim>\<open>alloc_memory_for_task\<close> returns 0.  The task then has a
  kernel stack, a page table for its stack and one for its image, four pages of stack and 256 pages of
  image, all different and among those free pages; the free pages from the zone's new position on are exactly the others; its two lists hold the pages in order;
  the entries of the one table, downwards from its last, translate to the pages of the stack, and those of the
  other, upwards from its first, to the pages of the image.  No other task changes.
\<close>

theorem user_memory_mapped:
  assumes "pool_at Fr F (sm (ss s))" "263 \<le> card Fr" "\<not> live F (tk s) t" "t_flag (task (tk s) t) AND PROCESS_TYPE_USER \<noteq> 0"
    "stack_base (task (tk s) t) = NULL" "F (N_stack_list t) = Some []" "F (N_elf_list t) = Some []"
    "F (N_elf_stack_list t) = Some []" "F (N_elf_image_list t) = Some []"
  shows "\<exists>w P Q vs us F' s'. alloc_memory_for_task t s = Some (Some 0, s') \<and> length vs = 4 \<and> length us = 256 \<and>
    distinct (w # P # Q # vs @ us) \<and> uint ` set (w # P # Q # vs @ us) \<subseteq> Fr \<and>
    pool_at (Fr - uint ` set (w # P # Q # vs @ us)) F' (sm (ss s')) \<and> task_frame t s s' \<and>
    stack_base (task (tk s') t) = page_to_va (uint w) (sm (ss s)) \<and>
    list_for_each (N_elf_stack_list t) (lists (tk s')) = Some (map N_page vs) \<and>
    list_for_each (N_elf_image_list t) (lists (tk s')) = Some (map N_page us) \<and>
    mapped False (page_to_va (uint P) (sm (ss s)) + 4092) vs s' \<and> mapped True (page_to_va (uint Q) (sm (ss s))) us s'"
proof -
  have fin: "finite Fr" using assms(2) by (intro card_ge_0_finite) simp
  have ne: "Fr \<noteq> {}" using assms(2) by auto
  obtain w s1 where a: "alloc_kernel_stack t s = Some (Some 0, s1)" "uint w \<in> Fr" "pool_at (Fr - {uint w}) (F(N_page w \<mapsto> [])) (sm (ss s1))"
    "task_frame t s s1"
    "task (tk s1) t = (task (tk s) t)\<lparr>stack_base := page_to_va (uint w) (sm (ss s)), stack_origin := page_to_va (uint w) (sm (ss s))\<rparr>"
    by (rule stack_alloc [OF assms(1) ne assms(5,3)])
  let ?F1 = "F(N_page w \<mapsto> [])"
  have d1: "\<not> live ?F1 (tk s1) t"
    using assms(3) a(4) live_frame [of "tk s" "tk s1" ?F1 F t] by (simp add: task_frame_def)
  have c1: "2 \<le> card (Fr - {uint w})" "finite (Fr - {uint w})" using assms(2) a(2) fin by simp_all
  have F1: "?F1 (N_stack_list t) = Some []" "?F1 (N_elf_list t) = Some []" using assms(6,7) by simp_all
  obtain P Q s2 pP pQ where b: "alloc_page_table t s1 = Some (Some 0, s2)" "uint P \<in> Fr - {uint w}" "uint Q \<in> Fr - {uint w}" "P \<noteq> Q"
    "pool_at (Fr - {uint w} - {uint P, uint Q}) (enlist (N_elf_list t) Q [] (enlist (N_stack_list t) P [] ?F1)) (sm (ss s2))"
    "task_frame t s1 s2" "wm s2 = wm s1"
    "task (tk s2) t = (task (tk s1) t)\<lparr>t_mm := (t_mm (task (tk s1) t))\<lparr>stack_curr := Some (N_page P), elf_curr := Some (N_page Q)\<rparr>\<rparr>"
    "page_read (uint P) (sm (ss s2)) = Some pP" "pg_free_base pP = page_to_va (uint P) (sm (ss s1)) + 4092" "pg_free_size pP = 4096"
    "page_read (uint Q) (sm (ss s2)) = Some pQ" "pg_free_base pQ = page_to_va (uint Q) (sm (ss s1))" "pg_free_size pQ = 4096"
    by (rule page_table_alloc [OF a(3) c1(2,1) F1 d1])
  let ?F2 = "enlist (N_elf_list t) Q [] (enlist (N_stack_list t) P [] ?F1)" and ?Fr = "Fr - {uint w} - {uint P, uint Q}"
  have "card {uint P, uint Q} = 2" using b(4) by (simp add: word_uint_eq_iff [symmetric])
  then have c2: "finite ?Fr" "260 \<le> card ?Fr" using assms(2) a(2) b(2,3) fin by (simp_all add: card_Diff_subset)
  have F2: "?F2 (N_elf_stack_list t) = Some []" "?F2 (N_elf_image_list t) = Some []" using assms(8,9) by (simp_all add: enlist_other)
  have va: "page_to_va i (sm (ss s1)) = page_to_va i (sm (ss s2))" "page_to_va i (sm (ss s2)) = page_to_va i (sm (ss s))" for i
    using a(4) b(6) by (auto intro!: page_to_va_cong simp: task_frame_def)
  have cur: "stack_curr (t_mm (task (tk s2) t)) = Some (N_page P)" "elf_curr (t_mm (task (tk s2) t)) = Some (N_page Q)" using b(8) by simp_all
  have PQ: "uint P \<notin> ?Fr" "uint Q \<notin> ?Fr" "uint P < 2 ^ 20" "uint Q < 2 ^ 20" using pool_at_range(2) [OF assms(1)] b(2,3) by auto
  obtain s3 vs us F3 where d: "alloc_memory_and_map t s2 = Some (Some 0, s3)" "user_frame s2 s3"
    "length vs = 4" "length us = 256" "distinct (vs @ us)" "uint ` set (vs @ us) \<subseteq> ?Fr" "pool_at (?Fr - uint ` set (vs @ us)) F3 (sm (ss s3))"
    "F3 (N_elf_stack_list t) = Some (map N_page vs)" "F3 (N_elf_image_list t) = Some (map N_page us)"
    "mapped False (page_to_va (uint P) (sm (ss s2)) + 4092) vs s3" "mapped True (page_to_va (uint Q) (sm (ss s2))) us s3"
    by (rule memory_mapped [OF b(5) c2 F2 cur b(9) b(10) [unfolded va(1)] b(11,12) b(13) [unfolded va(1)] b(14) b(4) PQ])
  let ?all = "w # P # Q # vs @ us"
  have flag: "t_flag (task (tk s1) t) AND PROCESS_TYPE_USER \<noteq> 0" using assms(4) a(5) by simp
  have run: "alloc_memory_for_task t s = Some (Some 0, s3)"
    unfolding alloc_memory_for_task_def Let_def using a(1) flag b(1) d(1) by simp
  have set: "?Fr - uint ` set (vs @ us) = Fr - uint ` set ?all" by auto
  have sub: "uint ` set ?all \<subseteq> Fr" "distinct ?all" using a(2) b(2-4) d(5,6) by auto
  have frame: "task_frame t s s3" by (rule task_frame_trans [OF task_frame_trans [OF a(4) b(6)] user_frame_task_frame [OF d(2)]])
  have base: "stack_base (task (tk s3) t) = page_to_va (uint w) (sm (ss s))" using user_frame_task [OF d(2)] b(8) a(5) by simp
  note rel = kinv_rel [OF pool_at_sel(2) [OF d(7)]]
  show ?thesis
    using run d(3,4) sub d(7) [unfolded set] frame base os_list.rel_walk [OF rel d(8)] os_list.rel_walk [OF rel d(9)] d(10,11) [unfolded va(2)]
    by blast
qed

section \<open>Instance\<close>

text \<open>A machine with a zone of 512 pages, of which the first two are in use, with the page behind it free, and a user task at \<open>0x5000\<close>.\<close>

lemma pool_at_init_list:
  assumes "pool_at Fr F m" "fresh F head" "page_list head"
  shows "pool_at Fr (F(head \<mapsto> [])) (on_ks (on_lists (init_list head)) m)"
proof -
  let ?G = "F(head \<mapsto> [])" and ?k = "on_lists (init_list head) (ks m)"
  note inv = pool_at_sel [OF assms(1)]
  have hd: "head \<noteq> M_wait x" "head \<noteq> M_task x" "head \<noteq> N_mutex_get t" "head \<noteq> N_page v" for x t v
    using assms(3) by (auto simp: page_list_def)
  have "kinv ?G ?k"
    using assms(2) page_list_foreign [OF assms(3)] by (intro kinv_foreign [OF inv(2)] os_list.rel_init kinv_rel [OF inv(2)]) auto
  moreover have "mutex_free (ZoneMutex i) ?G ?k" if "i < 4" for i
  proof -
    have f: "mutex_free (ZoneMutex i) F (ks m)" using inv(1) that by (simp add: minv_def)
    then have "fresh ?G (M_task (ZoneMutex i))" using hd by (auto simp: mutex_free_def fresh_def)
    then show ?thesis using hd by (intro mutex_free_transfer [OF f]) (simp_all add: not_sym)
  qed
  ultimately have "minv ?G (on_ks (on_lists (init_list head)) m)" using inv(1) by (simp add: minv_def on_ks_def)
  moreover have "page_idle ?G i" if "i \<in> Fr" for i
  proof -
    have "page_idle F i" using assms(1) that by (auto simp: pool_at_def)
    then show ?thesis using hd(4) [of "word_of_int i"] by (auto simp: page_idle_def split: if_splits)
  qed
  ultimately show ?thesis
    using assms(1) unfolding pool_at_def
    by (auto simp: zone_pool_def on_ks_def used_pages_def free_pages_of_def ahead_def get_zone_def page_to_va_def page_id_to_va_def)
qed

definition big_zone :: mm_zone where
  "big_zone = demo_zone\<lparr>z_total_size := 0x200000, z_free_size := 0x1fe000, z_page_num := 512, z_free_pages := 510, bm_end := 512\<rparr>"

definition big_machine :: mstate where
  "big_machine = (machine (3 # replicate 16 0))\<lparr>page_table := replicate 513 no_page,
     bank := \<lparr>total_size = 0x200000, total_page = 512, total_section = 1, zone = [big_zone, no_zone, no_zone, no_zone]\<rparr>\<rparr>"

lemma big_machine_free: "free_pages_of big_zone big_machine = {2..<512}" "ahead big_zone big_machine = {2..<512}"
proof -
  have sz: "bm_size (page_map big_machine) = 544" by (simp add: big_machine_def machine_def bm_size_def)
  have "bm_bit (page_map big_machine) i \<longleftrightarrow> i \<in> {0, 1}" if i: "0 \<le> i" "i < 512" for i
  proof (cases "nat i div 32")
    case 0
    then have lt: "nat i < 32" by simp
    have three: "(3 :: u32) = mask 2" by (simp add: mask_eq_exp_minus_1)
    have "bit (3 :: u32) (nat i) \<longleftrightarrow> nat i < 2" unfolding three bit_mask_iff using lt by auto
    also have "\<dots> \<longleftrightarrow> i \<in> {0, 1}" using i by auto
    finally show ?thesis using 0 lt by (simp add: big_machine_def machine_def bm_bit_def)
  next
    case (Suc k)
    then have "k < 16" "\<not> i \<in> {0, 1}" using i by (linarith, auto)
    then show ?thesis using Suc by (simp add: big_machine_def machine_def bm_bit_def)
  qed
  then have "i \<in> free_pages_of big_zone big_machine \<longleftrightarrow> i \<in> {2..<512}" for i
    using sz by (auto simp: free_pages_of_def big_zone_def demo_zone_def used_pages_def)
  then show fr: "free_pages_of big_zone big_machine = {2..<512}" by blast
  have "uint (bm_current big_zone) \<le> 2" by (simp add: big_zone_def demo_zone_def)
  then show "ahead big_zone big_machine = {2..<512}" unfolding ahead_def fr by auto
qed

lemma big_machine_pool: "pool_at {2..<512} demo_F big_machine"
proof -
  have va: "page_to_va i big_machine \<noteq> NULL" if "i \<in> {0..<512}" for i
  proof
    assume "page_to_va i big_machine = NULL"
    then have "(0xc0000000 :: u32) + push_bit 12 (word_of_int i) = 0"
      by (simp add: big_machine_def machine_def page_to_va_def page_id_to_va_def page_to_page_id_def)
    then have "uint ((0xc0000000 :: u32) + push_bit 12 (word_of_int i)) = 0" by simp
    with that show False by (simp add: push_bit_eq_mult uint_word_ariths uint_word_of_int)
  qed
  have "minv demo_F big_machine"
    using demo_ks_kinv demo_mutexes
    by (simp add: minv_def big_machine_def machine_def sections_wf_def big_zone_def demo_zone_def no_zone_def bm_size_def is_aligin_def)
  moreover have "0 \<in> used_pages big_machine"
    by (simp add: used_pages_def big_machine_def machine_def bm_size_def bm_bit_def)
  moreover have "zone_wf (page_map big_machine) big_zone"
    by (simp add: zone_wf_def big_machine_def machine_def big_zone_def demo_zone_def bm_size_def)
  moreover have "get_zone 0 big_machine = Some big_zone" by (simp add: get_zone_def big_machine_def lget_def)
  moreover have "length (page_table big_machine) = 513" by (simp add: big_machine_def)
  moreover have "bm_start big_zone = 0" "bm_end big_zone = 512" "z_free_pages big_zone = 510" by (simp_all add: big_zone_def demo_zone_def)
  ultimately have "zone_pool GFP_KERNEL demo_F big_zone big_machine"
    using va by (simp add: zone_pool_def zone_id_kernel big_machine_free(1))
  then show ?thesis unfolding pool_at_def using big_machine_free(2) demo_page_idle by blast
qed

definition new_lists :: "u32 \<Rightarrow> mstate \<Rightarrow> mstate" where
  "new_lists t m = fold (\<lambda>n. on_ks (on_lists (init_list n))) [N_stack_list t, N_elf_list t, N_elf_stack_list t, N_elf_image_list t] m"

definition user_demo :: tstate where
  "user_demo = \<lparr>ss = slab_demo\<lparr>sm := on_ks (upd_task 0x5000 (\<lambda>ts. ts\<lparr>t_flag := PROCESS_TYPE_USER, stack_base := NULL\<rparr>)) (new_lists 0x5000 big_machine)\<rparr>,
     wm = (\<lambda>_. 0), bm = (\<lambda>_. 0)\<rparr>"

lemma user_demo_pool:
  "pool_at {2..<512} (demo_F(N_stack_list 0x5000 \<mapsto> [], N_elf_list 0x5000 \<mapsto> [], N_elf_stack_list 0x5000 \<mapsto> [], N_elf_image_list 0x5000 \<mapsto> [])) (sm (ss user_demo))"
    "\<not> live (demo_F(N_stack_list 0x5000 \<mapsto> [], N_elf_list 0x5000 \<mapsto> [], N_elf_stack_list 0x5000 \<mapsto> [], N_elf_image_list 0x5000 \<mapsto> [])) (tk user_demo) 0x5000"
proof -
  let ?F = "demo_F(N_stack_list 0x5000 \<mapsto> [], N_elf_list 0x5000 \<mapsto> [], N_elf_stack_list 0x5000 \<mapsto> [], N_elf_image_list 0x5000 \<mapsto> [])"
  have fr: "fresh demo_F n" if "page_list n" for n
    using that by (auto simp: page_list_def fresh_def demo_F_def boot_lists_def boot_heads_def split: if_splits)
  have pool: "pool_at {2..<512} ?F (new_lists 0x5000 big_machine)"
    unfolding new_lists_def fold.simps comp_def id_def using fr
    by (intro pool_at_init_list big_machine_pool) (auto simp: fresh_def page_list_def split: if_splits)
  have "idle demo_ks = 0x2000" by (simp add: demo_ks_def booted_task(4))
  then have dead: "\<not> live ?F (ks (new_lists 0x5000 big_machine)) 0x5000"
    by (simp add: live_def on_def new_lists_def big_machine_def machine_def demo_F_def boot_lists_def on_ks_def)
  show "pool_at {2..<512} ?F (sm (ss user_demo))" using pool_at_upd_task [OF pool dead] by (simp add: user_demo_def)
  show "\<not> live ?F (tk user_demo) 0x5000" using dead by (simp add: user_demo_def live_def on_ks_def)
qed

theorem user_memory_mapped_witness:
  "\<exists>vs us s'. alloc_memory_for_task 0x5000 user_demo = Some (Some 0, s') \<and> length vs = 4 \<and> length us = 256 \<and> distinct (vs @ us) \<and>
     list_for_each (N_elf_stack_list 0x5000) (lists (tk s')) = Some (map N_page vs) \<and>
     list_for_each (N_elf_image_list 0x5000) (lists (tk s')) = Some (map N_page us)"
proof -
  have "t_flag (task (tk user_demo) 0x5000) = PROCESS_TYPE_USER" "stack_base (task (tk user_demo) 0x5000) = NULL"
    by (simp_all add: user_demo_def on_ks_def)
  then show ?thesis
    using user_memory_mapped [OF user_demo_pool(1) _ user_demo_pool(2)] by fastforce
qed

end
