(* ===== verification/Boot.thy ===== *)
theory Boot
  imports Irq Elf Signal Syscall MmBoot
begin

text \<open>
  The start of the kernel: \<^verbatim>\<open>main\<close> (\<^verbatim>\<open>init/main.c\<close>) with \<^verbatim>\<open>init_platform_info\<close> (\<^verbatim>\<open>init/init.c\<close>) and
  \<^verbatim>\<open>init_task\<close> (\<^verbatim>\<open>init/init_task.c\<close>), on the state of the whole system.
\<close>

section \<open>The whole state\<close>

record os_state =
  oe :: estate
  ohw :: pstate
  ocpu :: cpu
  osys :: u32
  osig :: signal_table
  oinfo :: platform_info

abbreviation ot :: "os_state \<Rightarrow> tstate" where
  "ot s \<equiv> et (oe s)"

text \<open>
  What the linker, the compiler and the board give: the addresses of code, strings and sections, the
  device, and the memory the processor finds.
\<close>

record boot_env =
  b_dev :: device
  b_parse :: "platform_info \<Rightarrow> platform_info option"
  b_junk :: "page list"
  b_bss_end :: u32
  b_phy_start :: u32
  b_platform :: platform_info
  b_vectors :: "u32 \<times> u32"
  b_syscalls :: "(int \<times> u32) list"
  b_signal_kill :: u32
  b_tick :: u32
  b_ramdisk_name :: u32
  b_killer :: u32
  b_killer_name :: "u8 list"
  b_exec :: exec_env
  b_init_argv :: u32
  b_init_name :: u32

section \<open>Operations of the parts on the whole\<close>

definition e_op :: "('a, estate) kop \<Rightarrow> ('a, os_state) kop" where
  "e_op f s = do { (r, e) \<leftarrow> f (oe s); Some (r, s\<lparr>oe := e\<rparr>) }"

definition t_op :: "('a, tstate) kop \<Rightarrow> ('a, os_state) kop" where
  "t_op f = e_op (et_op f)"

definition p_op :: "('a, pstate) kop \<Rightarrow> ('a, os_state) kop" where
  "p_op f s = do {
     (r, p) \<leftarrow> f ((ohw s)\<lparr>ms := sm (ss (ot s))\<rparr>);
     Some (r, s\<lparr>ohw := p, oe := on_et (\<lambda>t. t\<lparr>ss := (ss t)\<lparr>sm := ms p\<rparr>\<rparr>) (oe s)\<rparr>)
   }"

definition y_op :: "('a, ystate) kop \<Rightarrow> ('a, os_state) kop" where
  "y_op f s = do {
     (r, y) \<leftarrow> f \<lparr>yt = ot s, syscall_table_base = osys s\<rparr>;
     Some (r, s\<lparr>osys := syscall_table_base y, oe := on_et (\<lambda>_. yt y) (oe s)\<rparr>)
   }"

definition c_op :: "(cpu \<Rightarrow> ('a \<times> cpu, os_state) kop) \<Rightarrow> ('a, os_state) kop" where
  "c_op f s = kthen (f (ocpu s)) (\<lambda>(r, c) s. Some (Some r, s\<lparr>ocpu := c\<rparr>)) s"

definition ret_op :: "('s \<Rightarrow> ('a \<times> 's) option) \<Rightarrow> ('a, 's) kop" where
  "ret_op f s = do { (r, s) \<leftarrow> f s; Some (Some r, s) }"

abbreviation (input) odo :: "(os_state \<Rightarrow> os_state) \<Rightarrow> (unit, os_state) kop" where
  "odo f \<equiv> kmod (\<lambda>s. Some (f s))"

definition o_kernel :: "(kstate \<Rightarrow> kstate) \<Rightarrow> (unit, os_state) kop" where
  "o_kernel f = odo (\<lambda>s. s\<lparr>oe := on_et (on_k f) (oe s)\<rparr>)"

section \<open>The start\<close>

definition init_platform_info :: "boot_env \<Rightarrow> os_state \<Rightarrow> os_state" where
  "init_platform_info env s = s\<lparr>oinfo := b_platform env\<rparr>"

definition boot_mm :: "boot_env \<Rightarrow> (int, os_state) kop" where
  "boot_mm env = ret_op (\<lambda>s. do {
     (r, info, w, m) \<leftarrow> mm_init (b_parse env) (b_junk env) (b_bss_end env) (b_phy_start env) (oinfo s) (wm (ot s)) (sm (ss (ot s)));
     Some (r, s\<lparr>oinfo := info, oe := on_et (\<lambda>t. t\<lparr>wm := w, ss := (ss t)\<lparr>sm := m\<rparr>\<rparr>) (oe s)\<rparr>)
   })"

text \<open>The page that \<^verbatim>\<open>init_pid_allocater\<close> takes in \<^verbatim>\<open>sched_init\<close>, and the memory of the idle task.\<close>

definition boot_sched :: "(int, os_state) kop" where
  "boot_sched = kthen (t_op (slab_op (mm_op (get_free_pages 1 GFP_KERNEL)))) (\<lambda>page.
     kthen (o_kernel (\<lambda>k. snd (sched_init page k))) (\<lambda>_. kret 0))"

definition boot_idle :: "(int, os_state) kop" where
  "boot_idle = kthen (t_op (slab_op (kmalloc TASK_STRUCT_SIZE GFP_KERNEL))) (\<lambda>addr.
     kthen (o_kernel (\<lambda>k. snd (build_idle_task addr k))) (\<lambda>_. kret (if addr = NULL then - ENOMEM else 0)))"

definition init_task :: "boot_env \<Rightarrow> (int, os_state) kop" where
  "init_task env = kthen (e_op (kernel_exec (b_exec env) (b_init_argv env) (b_init_name env))) (\<lambda>_. kret 0)"

text \<open>\<^verbatim>\<open>main\<close> up to its last loop, in which the idle task calls \<^verbatim>\<open>sched\<close> for ever; no result is looked at.\<close>

definition os_main :: "boot_env \<Rightarrow> (unit, os_state) kop" where
  "os_main env =
     kthen (o_kernel disable_irqs) (\<lambda>_.
     kthen (p_op (ret_op (\<lambda>p. Some (console_early_init (b_dev env) p)))) (\<lambda>_.
     kthen (odo (init_platform_info env)) (\<lambda>_.
     kthen (boot_mm env) (\<lambda>_.
     kthen (p_op (ret_op console_late_init)) (\<lambda>_.
     kthen (t_op (slab_op (ret_op slab_init))) (\<lambda>_.
     kthen (c_op (\<lambda>c. t_op (trap_init (fst (b_vectors env)) (snd (b_vectors env)) c))) (\<lambda>_.
     kthen (c_op (\<lambda>c. t_op (slab_op (mm_op (arch_init_exception_stack c))))) (\<lambda>_.
     kthen (p_op (arch_irq_init (b_dev env))) (\<lambda>_.
     kthen (y_op (syscall_init (b_syscalls env))) (\<lambda>_.
     kthen (odo (\<lambda>s. s\<lparr>osig := init_signal_handler (b_signal_kill env) (osig s)\<rparr>)) (\<lambda>_.
     kthen (p_op (ret_op (timer_tick_init (b_dev env) (b_tick env)))) (\<lambda>_.
     kthen boot_sched (\<lambda>_.
     kthen (e_op (fs_op (ret_op (mount_ramdisk (b_ramdisk_name env))))) (\<lambda>_.
     kthen boot_idle (\<lambda>_.
     kthen (o_kernel enable_irqs) (\<lambda>_.
     kthen (t_op (kthread_run (x_page_base (b_exec env)) (Some (b_killer_name env)) (b_killer env) NULL)) (\<lambda>_.
     kthen (init_task env) (\<lambda>_.
     kthen (t_op (kern_op (\<lambda>k. ret_op (set_task_prio (idle k) (MAX_PRIO - 1)) k))) (\<lambda>_.
     kret ())))))))))))))))))))"

text \<open>One round of the last loop.\<close>

definition idle_round :: "(unit, os_state) kop" where
  "idle_round = t_op (kern_op (kmod sched))"

end
