(* ===== verification/Spec2Isabelle.thy ===== *)
theory Spec2Isabelle
  imports SchedProps SyncProps Bitops Kstring Printk Mmu MmProps MmBootProps PagePool PlatformProps SlabProps TaskProps
    RamdiskProps SyscallProps SignalProps ArgvProps IrqProps Abort ForkProps UserMem Boot
begin

text \<open>
  A verification of mirros, a small preemptive operating system for ARM (the S3C2440 board TQ2440).

  \<^bold>\<open>The program.\<close>  \<^verbatim>\<open>main\<close> (\<^verbatim>\<open>init/main.c\<close>) starts the parts one after the other and becomes the idle
  task.  The memory management (\<^verbatim>\<open>mm/mm.c\<close>, \<^verbatim>\<open>kernel/mmu.c\<close>) gives out pages and writes the translation
  tables; the slab allocator (\<^verbatim>\<open>mm/slab.c\<close>) cuts pages into small pieces.  The scheduler
  (\<^verbatim>\<open>kernel/sched.c\<close>) keeps every task in the queues of its state; tasks wait for each other with mutexes
  (\<^verbatim>\<open>kernel/mutex.c\<close>), and the timer interrupt (\<^verbatim>\<open>kernel/interrupt.c\<close>,
  \<^verbatim>\<open>arch/arm/machine/s3c2440_c.c\<close>) drives time slices and time-outs.  The task code
  (\<^verbatim>\<open>kernel/task.c\<close>) makes, copies, runs and ends tasks; programs are ELF files (\<^verbatim>\<open>kernel/elf.c\<close>) in a
  file system in memory (\<^verbatim>\<open>kernel/ramdisk.c\<close>).  User tasks enter the kernel by system calls
  (\<^verbatim>\<open>kernel/syscall.c\<close>, \<^verbatim>\<open>arch/arm/machine/entry.S\<close>); the context switches are assembly
  (\<^verbatim>\<open>arch/arm/machine/arm920t_s.S\<close>).

  \<^bold>\<open>State.\<close>  The records nest the way the parts depend on each other: \<open>kstate\<close> (theory \<open>Kernel\<close>: the
  globals of the scheduler, the tasks by address, the list heads, the mutexes, the identifiers) is part
  of \<open>mstate\<close> (\<open>Mm\<close>: the bank of zones, the page array, the bit map), this of \<open>sstate\<close> (\<open>Slab\<close>), this of
  \<open>tstate\<close> (\<open>Task\<close>: also the memory by words \<open>wm\<close> and by bytes \<open>bm\<close>), this of \<open>estate\<close> (\<open>Elf\<close>: also
  the file system), and \<open>os_state\<close> (\<open>Boot\<close>) adds the registers of the board and of the processor.  A
  list head embedded in a structure is a node, a constructor applied to the address of the structure;
  \<^verbatim>\<open>container_of\<close> is the inverse of the constructor.  An operation returns \<open>None\<close> where the C code leaves
  the objects of the model, follows a pointer to nowhere, or does not end.  Where an operation can
  sleep on a mutex, its result says that the caller has been suspended at that point.

  \<^bold>\<open>Theories\<close>, with what they model and show:

  \<^item> \<open>Prelude\<close>: types, error numbers, the alignment macros of \<^verbatim>\<open>include/os/bound.h\<close>, lemmas on words
    and loops.
  \<^item> \<open>ListHead\<close> (\<^verbatim>\<open>include/os/list.h\<close>): the lists, with the locale \<open>list_store\<close> of what insertion and
    removal do to the sequences the heads stand for; every later part uses its interpretation \<open>os_list\<close>.
  \<^item> \<open>Bitops\<close> (\<^verbatim>\<open>kernel/bitops.c\<close>), \<open>Kstring\<close> (\<^verbatim>\<open>kernel/string.c\<close>), \<open>Printk\<close> (\<^verbatim>\<open>kernel/printk.c\<close>), \<open>Lib\<close>
    (\<^verbatim>\<open>arch/arm/machine/lib.S\<close>): bit maps, strings, formatted output and the memory copy, each shown
    equal to a reference definition; reading back a printed number gives the number.
  \<^item> \<open>Kernel\<close>, \<open>Sched\<close>, \<open>Mutex\<close>, \<open>Pid\<close> (\<^verbatim>\<open>kernel/sched.c\<close>, \<^verbatim>\<open>kernel/mutex.c\<close>, parts of
    \<^verbatim>\<open>kernel/task.c\<close>): the definitions.  \<open>SchedInv\<close>, \<open>SchedRun\<close>, \<open>SchedTick\<close>, \<open>SchedReach\<close>: the invariant,
    that every operation keeps it, and the step relation \<open>sched_step\<close>.  \<open>SchedProps\<close>, \<open>SyncProps\<close>: the queues
    agree with the states of the tasks in every reachable state; the choice of the next task, time
    slices, sleep, mutual exclusion, wake up, fresh identifiers; the state machine of a task as a
    refinement of its transition relation.
  \<^item> \<open>Mmu\<close> (\<^verbatim>\<open>kernel/mmu.c\<close>): the descriptors, and that the processor translates as they say.
  \<^item> \<open>Mm\<close>, \<open>MmFind\<close>, \<open>MmAlloc\<close>, \<open>MmProps\<close>, \<open>PagePool\<close> (\<^verbatim>\<open>mm/mm.c\<close>): the allocator, the reference of its
    search and when the search does not end, allocation and release, and the life of a zone under any sequence of both, as long as
    the search stays in the zone (locale \<open>pool\<close>);
    \<open>MmBoot\<close>, \<open>MmBootProps\<close>: how it starts.
  \<^item> \<open>Slab\<close>, \<open>SlabProps\<close> (\<^verbatim>\<open>mm/slab.c\<close>): disjoint pieces for successive allocations, and what is not
    handled.
  \<^item> \<open>Platform\<close>, \<open>PlatformProps\<close> (\<^verbatim>\<open>arch/arm/machine/s3c2440_c.c\<close>, \<^verbatim>\<open>kernel/interrupt.c\<close>): interrupt masks
    (locale \<open>irq_controller\<close>), clocks, the way of the timer interrupt to the scheduler.
  \<^item> \<open>Context\<close>, \<open>Irq\<close>, \<open>IrqProps\<close> (\<^verbatim>\<open>arch/arm/machine/arm920t_c.c\<close>, \<^verbatim>\<open>arm920t_s.S\<close>, \<^verbatim>\<open>entry.S\<close>): saved
    registers, both switches and the interrupt.  The locales \<open>context_save\<close> and \<open>context_load\<close> have two
    interpretations each, so that all four combinations of giving up and getting back the processor
    restore the registers, but for the saved status, which only the end of an interrupt restores; the two whole switches and
    the whole interrupt are built on them.  \<open>Abort\<close> (also \<^verbatim>\<open>kernel/panic.c\<close>): the undefined instruction is skipped, and what
    is reported of an abort.
  \<^item> \<open>Task\<close>, \<open>TaskProps\<close>, \<open>UserMem\<close>, \<open>ForkProps\<close>, \<open>Signal\<close>, \<open>SignalProps\<close> (\<^verbatim>\<open>kernel/task.c\<close>, \<^verbatim>\<open>kernel/signal.c\<close>):
    new tasks are ready, a user task gets pages of its own that its tables map, the pages of a
    child hold the bytes of its parent, the tables are installed by a switch, a killed kernel thread without
    children and mutexes is gone from every list.
  \<^item> \<open>Ramdisk\<close>, \<open>RamdiskProps\<close> (\<^verbatim>\<open>kernel/ramdisk.c\<close>, \<^verbatim>\<open>tools/genramdisk\<close>): the kernel finds what the
    generator wrote.
  \<^item> \<open>Elf\<close>, \<open>ElfProps\<close>, \<open>ArgvProps\<close> (\<^verbatim>\<open>kernel/elf.c\<close>, the exec part of \<^verbatim>\<open>kernel/task.c\<close>): sections arrive at
    their load addresses whatever source their bytes have (locale \<open>byte_source\<close>), arguments arrive
    unless their length is a multiple of four.
  \<^item> \<open>Syscall\<close>, \<open>SyscallProps\<close> (\<^verbatim>\<open>kernel/syscall.c\<close>, \<^verbatim>\<open>syscall_entry.S\<close>): the table and a call as the user
    sees it.
  \<^item> \<open>Boot\<close> (\<^verbatim>\<open>init\<close>): \<^verbatim>\<open>main\<close> as the composition of the parts.

  \<^bold>\<open>Loops.\<close>  Loops over the list heap and the searches that may not end are partial functions into
  \<open>option\<close>; so no bound is chosen for them, and the theorems state that they return, or when they do not.  A loop
  with a known number of rounds is structural recursion on that number or \<open>for_loop\<close> of \<open>Prelude\<close>, and the
  remaining ones have a termination proof.

  \<^bold>\<open>Parameters.\<close>  The effect of a write to a device register (\<open>device\<close>), the code behind a function pointer
  (\<open>fcall\<close> and the handler of a signal), the addresses the linker chooses (\<open>boot_env\<close>, \<open>exec_env\<close>), and the
  board's \<^verbatim>\<open>parse_memory_region\<close>, which is a function pointer; \<open>MmBoot\<close> has the one of the TQ2440.

  \<^bold>\<open>Not modelled.\<close>  The assembly before \<^verbatim>\<open>main\<close> (\<^verbatim>\<open>boot.S\<close>, \<^verbatim>\<open>s3c2440_s.S\<close>), cache and TLB maintenance, which
  have no effect on the memory of the model; the entry of the fast interrupt, which nothing
  enables; messages on the console except where the
  text is the point (\<open>Printk\<close>, \<open>Abort\<close>); the user programs and their prebuilt C library (\<^verbatim>\<open>tools/application\<close>,
  \<^verbatim>\<open>tools/diet-libc\<close>).  Words and bytes are two memories: the kernel stacks and the
  translation tables are words, the pages of programs with their arguments, the strings and the files are bytes, and that a byte of
  the one lies in a word of the other is not expressed.  The same holds for a page seen through the address of a user task
  and through that of the kernel, and the C functions keep their locals outside the memory.
  Interrupts occur between operations, not inside them; that the code inside critical sections runs
  with interrupts masked is a fact of the status register in \<open>kstate\<close>.
\<close>

end
